(* ===== verification/Prelude.thy ===== *)
theory Prelude
  imports Main "HOL-Library.Word" "HOL-Library.List_Lexorder"
begin

text \<open>
  Shared vocabulary of the development: machine integers at their Go width, byte strings,
  the 16-byte identifiers of \<^verbatim>\<open>google/uuid\<close>, the outcome of a Go call (a nil error, an
  error value, a panic, a send that blocks), buffered channels, and the cardinality lemmas
  behind every Byzantine quorum argument.  The two locales state what the components rely
  on: \<open>byz_thresholds\<close> is the contract between the thresholds \<open>n - f\<close> and \<open>f + 1\<close> that the
  code compares its counters with and the fault assumption, and \<open>wire_format\<close> is the
  contract between a marshalling function and its inverse.
\<close>

section \<open>Collections\<close>

named_theorems brb_defs "definitions of the reliable-broadcast handlers"
named_theorems bca_defs "definitions of the binding crusader agreement handlers"
named_theorems wire_simps "rewriting rules for marshalling and parsing"

section \<open>Machine integers and bytes\<close>

type_synonym byte = "8 word"
type_synonym bytes = "byte list"
type_synonym uint = "64 word"
type_synonym uint32 = "32 word"
type_synonym uint16 = "16 word"

lemma unat_inc_uint:
  "unat (c :: uint) + 1 < 2 ^ 64 \<Longrightarrow> unat (c + 1) = unat c + 1"
  by (simp add: unat_word_ariths)

lemma unat_diff_uint: "unat (b :: uint) \<le> unat a \<Longrightarrow> unat (a - b) = unat a - unat b"
  by (simp add: unat_sub word_le_nat_alt)

text \<open>Go's conversion \<^verbatim>\<open>int(u)\<close> of an unsigned 64-bit value: the same bits, read as two's complement.\<close>

definition int_of_uint :: "uint \<Rightarrow> int" where
  "int_of_uint u = (if unat u < 2 ^ 63 then int (unat u) else int (unat u) - 2 ^ 64)"

lemma int_of_uint_small: "unat u < 2 ^ 63 \<Longrightarrow> int_of_uint u = int (unat u)"
  by (simp add: int_of_uint_def)

lemma int_of_uint_code [code]:
  "int_of_uint u = (let i = uint u in if i < 9223372036854775808 then i else i - 18446744073709551616)"
proof -
  have i: "int (unat u) = uint u" by simp
  have "unat u < 2 ^ 63 \<longleftrightarrow> int (unat u) < int (2 ^ 63)" by (simp only: of_nat_less_iff)
  then have "unat u < 2 ^ 63 \<longleftrightarrow> uint u < 9223372036854775808" unfolding i by simp
  then show ?thesis unfolding int_of_uint_def Let_def i by (simp only:) simp
qed

section \<open>Identifiers\<close>

typedef uuid = "{bs :: bytes. length bs = 16}"
  morphisms uuid_bytes Abs_uuid
  by (rule exI [of _ "replicate 16 0"]) simp

setup_lifting type_definition_uuid

lemma length_uuid_bytes [simp]: "length (uuid_bytes u) = 16"
  using uuid_bytes [of u] by simp

lemma uuid_bytes_eq_iff [simp]: "uuid_bytes u = uuid_bytes v \<longleftrightarrow> u = v"
  by (simp add: uuid_bytes_inject)

text \<open>
  Go's conversion \<^verbatim>\<open>uuid.UUID(s)\<close> of a slice: the first sixteen bytes.  It panics on a
  shorter slice, so every use below is guarded by a length check; the padding only makes
  the function total.
\<close>

definition uuid_of :: "bytes \<Rightarrow> uuid" where
  "uuid_of bs = Abs_uuid (take 16 (bs @ replicate 16 0))"

lemma uuid_bytes_of [simp]: "16 \<le> length bs \<Longrightarrow> uuid_bytes (uuid_of bs) = take 16 bs"
  by (simp add: uuid_of_def Abs_uuid_inverse)

lemma uuid_of_bytes [simp]: "uuid_of (uuid_bytes u) = u"
  by (simp add: uuid_of_def uuid_bytes_inverse)

lemma uuid_of_bytes_append [simp]: "uuid_of (uuid_bytes u @ bs) = u"
  by (simp add: uuid_of_def uuid_bytes_inverse)

instantiation uuid :: equal
begin

definition equal_uuid :: "uuid \<Rightarrow> uuid \<Rightarrow> bool" where
  "equal_uuid u v \<longleftrightarrow> uuid_bytes u = uuid_bytes v"

instance
  by standard (simp add: equal_uuid_def)

end

instantiation uuid :: linorder
begin

definition less_eq_uuid :: "uuid \<Rightarrow> uuid \<Rightarrow> bool" where
  "u \<le> v \<longleftrightarrow> uuid_bytes u \<le> uuid_bytes v"

definition less_uuid :: "uuid \<Rightarrow> uuid \<Rightarrow> bool" where
  "u < v \<longleftrightarrow> uuid_bytes u < uuid_bytes v"

instance
  by standard (auto simp: less_eq_uuid_def less_uuid_def order.strict_iff_order)

end

instance uuid :: finite
proof
  have "finite {bs :: bytes. set bs \<subseteq> UNIV \<and> length bs = 16}"
    by (rule finite_lists_length_eq) simp
  then have "finite (Abs_uuid ` {bs. length bs = 16})"
    by simp
  moreover have "UNIV \<subseteq> Abs_uuid ` {bs. length bs = 16}"
  proof
    fix u :: uuid
    have "u = Abs_uuid (uuid_bytes u)" by (simp add: uuid_bytes_inverse)
    then show "u \<in> Abs_uuid ` {bs. length bs = 16}" by (rule image_eqI) simp
  qed
  ultimately show "finite (UNIV :: uuid set)"
    by (rule rev_finite_subset)
qed

text \<open>Sixteen copies of one byte: a supply of distinct identifiers for concrete runs.\<close>

definition uid :: "byte \<Rightarrow> uuid" where
  "uid b = uuid_of (replicate 16 b)"

lemma uuid_bytes_uid [simp, code abstract]: "uuid_bytes (uid b) = replicate 16 b"
  by (simp add: uid_def)

lemma uuid_of_replicate [simp]: "uuid_of (replicate 16 b) = uid b"
  by (simp add: uid_def)

lemma uid_eq_iff [simp]: "uid a = uid b \<longleftrightarrow> a = b"
proof
  assume "uid a = uid b"
  then have "replicate 16 a = replicate 16 b" by (metis uuid_bytes_uid)
  then show "a = b" by (simp add: replicate_eq_replicate)
qed simp

section \<open>The outcome of a Go call\<close>

text \<open>
  A call of the source ends in one of four ways: it returns a nil error, it returns an
  error value, it panics (an index out of range), or it waits for ever on a channel
  operation.  An operation of the model returns the state it leaves behind together with
  this outcome.
\<close>

datatype 'e outcome = GoNil | GoErr 'e | GoPanic | GoBlocked

text \<open>\<^verbatim>\<open>if err := m1(); err != nil { return wrap(err) }; m2()\<close>: the second part runs on a nil error only.\<close>

fun and_then :: "'s \<times> 'e outcome \<Rightarrow> ('s \<Rightarrow> 's \<times> 'e outcome) \<Rightarrow> 's \<times> 'e outcome" where
  "and_then (s, GoNil) k = k s"
| "and_then (s, r) k = (s, r)"

fun wrap_err :: "('e \<Rightarrow> 'g) \<Rightarrow> 's \<times> 'e outcome \<Rightarrow> 's \<times> 'g outcome" where
  "wrap_err w (s, GoNil) = (s, GoNil)"
| "wrap_err w (s, GoErr e) = (s, GoErr (w e))"
| "wrap_err w (s, GoPanic) = (s, GoPanic)"
| "wrap_err w (s, GoBlocked) = (s, GoBlocked)"

lemma fst_wrap_err [simp]: "fst (wrap_err w r) = fst r"
  by (cases r; cases "snd r") auto

lemma snd_wrap_err_nil [simp]: "snd (wrap_err w r) = GoNil \<longleftrightarrow> snd r = GoNil"
  by (cases r; cases "snd r") auto

lemma snd_wrap_err_panic [simp]: "snd (wrap_err w r) = GoPanic \<longleftrightarrow> snd r = GoPanic"
  by (cases r; cases "snd r") auto

lemma snd_wrap_err_blocked [simp]: "snd (wrap_err w r) = GoBlocked \<longleftrightarrow> snd r = GoBlocked"
  by (cases r; cases "snd r") auto

lemma fst_and_then: "fst (and_then r k) = (if snd r = GoNil then fst (k (fst r)) else fst r)"
  by (cases r; cases "snd r") auto

lemma snd_and_then_err: "snd (and_then r k) = GoErr e \<Longrightarrow> snd r = GoErr e \<or> snd (k (fst r)) = GoErr e"
  by (cases r; cases "snd r") auto

section \<open>Buffered channels\<close>

text \<open>
  A channel made with \<^verbatim>\<open>make(chan T, cap)\<close>: the values handed to it so far, oldest first, and how
  many of them were taken out.  The rest is buffered; a send on a full buffer waits, and so does a
  receive on an empty one.
\<close>

record 'a chan =
  ch_cap :: nat
  ch_sent :: "'a list"
  ch_taken :: nat

definition make_chan :: "nat \<Rightarrow> 'a chan" where
  "make_chan k = \<lparr>ch_cap = k, ch_sent = [], ch_taken = 0\<rparr>"

definition chan_send :: "'a \<Rightarrow> 'a chan \<Rightarrow> 'a chan option" where
  "chan_send x ch = (if ch_cap ch \<le> length (ch_sent ch) - ch_taken ch then None
     else Some (ch\<lparr>ch_sent := ch_sent ch @ [x]\<rparr>))"

definition chan_recv :: "'a chan \<Rightarrow> ('a \<times> 'a chan) option" where
  "chan_recv ch = (if ch_taken ch < length (ch_sent ch)
     then Some (ch_sent ch ! ch_taken ch, ch\<lparr>ch_taken := Suc (ch_taken ch)\<rparr>) else None)"

text \<open>\<^verbatim>\<open>s.field <- x\<close>, the field given by its selector and its update.\<close>

definition chan_put ::
  "('s \<Rightarrow> 'a chan) \<Rightarrow> (('a chan \<Rightarrow> 'a chan) \<Rightarrow> 's \<Rightarrow> 's) \<Rightarrow> 'a \<Rightarrow> 's \<Rightarrow> 's \<times> 'e outcome"
where
  "chan_put sel upd x s =
     (case chan_send x (sel s) of None \<Rightarrow> (s, GoBlocked) | Some ch \<Rightarrow> (upd (\<lambda>_. ch) s, GoNil))"

lemma make_chan_sel [simp]:
  "ch_cap (make_chan k) = k" "ch_sent (make_chan k) = []" "ch_taken (make_chan k) = 0"
  by (simp_all add: make_chan_def)

lemma chan_send_room:
  "length (ch_sent ch) < ch_cap ch \<Longrightarrow> chan_send x ch = Some (ch\<lparr>ch_sent := ch_sent ch @ [x]\<rparr>)"
  by (simp add: chan_send_def)

lemma chan_put_room:
  "length (ch_sent (sel s)) < ch_cap (sel s) \<Longrightarrow>
     chan_put sel upd x s = (upd (\<lambda>_. (sel s)\<lparr>ch_sent := ch_sent (sel s) @ [x]\<rparr>) s, GoNil)"
  by (simp add: chan_put_def chan_send_room)

lemma fst_chan_put:
  "fst (chan_put sel upd x s) = (if ch_cap (sel s) \<le> length (ch_sent (sel s)) - ch_taken (sel s) then s
     else upd (\<lambda>_. (sel s)\<lparr>ch_sent := ch_sent (sel s) @ [x]\<rparr>) s)"
  by (simp add: chan_put_def chan_send_def)

lemma chan_put_no_error: "snd (chan_put sel upd x s) \<noteq> GoErr e"
  by (simp add: chan_put_def split: option.split)

lemma chan_recv_Some:
  "chan_recv ch = Some (x, ch') \<longleftrightarrow> ch_taken ch < length (ch_sent ch) \<and> x = ch_sent ch ! ch_taken ch
     \<and> ch' = ch\<lparr>ch_taken := Suc (ch_taken ch)\<rparr>"
  by (auto simp: chan_recv_def)

lemma chan_recv_None: "chan_recv ch = None \<longleftrightarrow> length (ch_sent ch) \<le> ch_taken ch"
  by (auto simp: chan_recv_def)

text \<open>The values an operation hands to a channel when the condition \<open>b\<close> holds: one, or none.\<close>

definition emit :: "bool \<Rightarrow> 'a \<Rightarrow> 'a list" where
  "emit b x = (if b then [x] else [])"

lemma emit_simps [simp]: "emit True x = [x]" "emit False x = []"
  by (simp_all add: emit_def)

lemma set_emit [simp]: "set (emit b x) = {y. b \<and> y = x}"
  by (cases b) auto

lemma distinct_emit [simp]: "distinct (emit b x)"
  by (cases b) auto

lemma length_emit [simp]: "length (emit b x) = (if b then 1 else 0)"
  by (cases b) auto

section \<open>Byzantine quorums\<close>

lemma quorum_overlap:
  assumes "finite P" and "A \<subseteq> P" and "B \<subseteq> P"
  shows "card A + card B \<le> card P + card (A \<inter> B)"
proof -
  have "finite A" and "finite B" using assms finite_subset by auto
  then have "card A + card B = card (A \<union> B) + card (A \<inter> B)"
    by (rule card_Un_Int)
  moreover have "card (A \<union> B) \<le> card P"
    using assms by (intro card_mono) auto
  ultimately show ?thesis by simp
qed

lemma exceeds_faulty_meets_correct:
  assumes "finite P" and "A \<subseteq> P" and "card (P - C) < card A"
  shows "\<exists>x\<in>C. x \<in> A"
proof (rule ccontr)
  assume "\<not> ?thesis"
  then have "A \<subseteq> P - C" using assms(2) by auto
  then have "card A \<le> card (P - C)" using assms(1) by (intro card_mono) auto
  with assms(3) show False by simp
qed

text \<open>
  The contract between the thresholds and the fault assumption, for every admissible
  configuration \<open>c\<close>: two strong quorums share a correct member, a weak quorum has a correct
  member, the correct processes are a strong quorum, and the correct part of a strong
  quorum is a weak one.
\<close>

locale byz_thresholds =
  fixes ok :: "'c \<Rightarrow> bool"
    and procs :: "'c \<Rightarrow> 'a set"
    and correct :: "'c \<Rightarrow> 'a set"
    and strong :: "'c \<Rightarrow> 'a set \<Rightarrow> bool"
    and weak :: "'c \<Rightarrow> 'a set \<Rightarrow> bool"
  assumes strong_strong: "\<lbrakk>ok c; strong c A; strong c B; A \<subseteq> procs c; B \<subseteq> procs c\<rbrakk>
      \<Longrightarrow> \<exists>x\<in>correct c. x \<in> A \<and> x \<in> B"
    and weak_correct: "\<lbrakk>ok c; weak c A; A \<subseteq> procs c\<rbrakk> \<Longrightarrow> \<exists>x\<in>correct c. x \<in> A"
    and correct_procs: "ok c \<Longrightarrow> correct c \<subseteq> procs c"
    and correct_strong: "ok c \<Longrightarrow> strong c (correct c)"
    and strong_weak: "\<lbrakk>ok c; strong c A; A \<subseteq> procs c\<rbrakk> \<Longrightarrow> weak c (A \<inter> correct c)"
    and strong_mono: "\<lbrakk>ok c; strong c A; A \<subseteq> B; B \<subseteq> procs c\<rbrakk> \<Longrightarrow> strong c B"
    and weak_mono: "\<lbrakk>ok c; weak c A; A \<subseteq> B; B \<subseteq> procs c\<rbrakk> \<Longrightarrow> weak c B"
begin

lemma strong_correct:
  assumes "ok c" and "strong c A" and "A \<subseteq> procs c"
  shows "\<exists>x\<in>correct c. x \<in> A"
  using strong_strong [OF assms(1,2,2,3,3)] by blast

text \<open>
  The argument every phase of the protocols uses: when each correct process supports at
  most one value, two values cannot both be supported by a strong quorum.
\<close>

lemma strong_unique:
  assumes "ok c"
    and A: "strong c A" "A \<subseteq> procs c" "\<And>x. x \<in> A \<Longrightarrow> x \<in> correct c \<Longrightarrow> supports x v"
    and B: "strong c B" "B \<subseteq> procs c" "\<And>x. x \<in> B \<Longrightarrow> x \<in> correct c \<Longrightarrow> supports x w"
    and single: "\<And>x. x \<in> correct c \<Longrightarrow> supports x v \<Longrightarrow> supports x w \<Longrightarrow> v = w"
  shows "v = w"
proof -
  obtain x where "x \<in> correct c" "x \<in> A" "x \<in> B"
    using strong_strong [OF assms(1) A(1) B(1) A(2) B(2)] by blast
  with A(3) B(3) single show ?thesis by blast
qed

end

section \<open>Wire formats\<close>

locale wire_format =
  fixes marshal :: "'a \<Rightarrow> bytes"
    and unmarshal :: "bytes \<Rightarrow> 'e + 'a"
    and wf :: "'a \<Rightarrow> bool"
  assumes unmarshal_marshal: "wf x \<Longrightarrow> unmarshal (marshal x) = Inr x"
begin

lemma marshal_inj: "wf x \<Longrightarrow> wf y \<Longrightarrow> marshal x = marshal y \<Longrightarrow> x = y"
  by (metis unmarshal_marshal sum.inject(2))

lemma inj_on_marshal: "inj_on marshal {x. wf x}"
  by (rule inj_onI) (auto intro: marshal_inj)

lemma unmarshal_rejects: "unmarshal bs = Inl e \<Longrightarrow> wf x \<Longrightarrow> bs \<noteq> marshal x"
  by (auto simp: unmarshal_marshal)

end

end
