(* ===== verification/Utils.thy ===== *)
theory Utils
  imports Prelude
begin

text \<open>
  The byte-level vocabulary of \<^verbatim>\<open>utils/utils.go\<close> and of the Go library calls the wire formats
  are written with: little-endian integers (\<^verbatim>\<open>encoding/binary\<close>), the reads of a
  \<^verbatim>\<open>bytes.Reader\<close>, the SHA-256 digest of \<^verbatim>\<open>crypto/sha256\<close> and the identifiers derived
  from it by \<^verbatim>\<open>BytesToUUID\<close>.  A reader is the list of the bytes not yet read.
\<close>

unbundle bit_operations_syntax

section \<open>Little-endian integers\<close>

fun le_bytes :: "nat \<Rightarrow> nat \<Rightarrow> bytes" where
  "le_bytes 0 v = []"
| "le_bytes (Suc k) v = of_nat (v mod 256) # le_bytes k (v div 256)"

fun le_value :: "bytes \<Rightarrow> nat" where
  "le_value [] = 0"
| "le_value (b # bs) = unat b + 256 * le_value bs"

lemma length_le_bytes [simp]: "length (le_bytes k v) = k"
  by (induction k arbitrary: v) auto

lemma le_value_bytes: "v < 256 ^ k \<Longrightarrow> le_value (le_bytes k v) = v"
proof (induction k arbitrary: v)
  case (Suc k)
  then have "v div 256 < 256 ^ k"
    by (simp add: less_mult_imp_div_less mult.commute)
  then have "le_value (le_bytes k (v div 256)) = v div 256"
    by (rule Suc.IH)
  then show ?case by (simp add: unat_of_nat)
qed simp

lemma le_bytes_value: "le_bytes (length bs) (le_value bs) = bs"
proof (induction bs)
  case (Cons b bs)
  have "unat b < 256" using unsigned_less [of b] by simp
  then show ?case using Cons.IH by simp
qed simp

lemma le_bytes_inj: "v < 256 ^ k \<Longrightarrow> w < 256 ^ k \<Longrightarrow> le_bytes k v = le_bytes k w \<Longrightarrow> v = w"
  by (metis le_value_bytes)

definition put_uint16 :: "uint16 \<Rightarrow> bytes" where
  "put_uint16 w = le_bytes 2 (unat w)"

definition put_uint32 :: "uint32 \<Rightarrow> bytes" where
  "put_uint32 w = le_bytes 4 (unat w)"

definition get_uint16 :: "bytes \<Rightarrow> uint16" where
  "get_uint16 bs = of_nat (le_value (take 2 bs))"

definition get_uint32 :: "bytes \<Rightarrow> uint32" where
  "get_uint32 bs = of_nat (le_value (take 4 bs))"

lemma unat_bounds:
  "unat (b :: byte) < 256" "unat (h :: uint16) < 65536" "unat (w :: uint32) < 4294967296"
  by (rule order.strict_trans2 [OF unsigned_less], simp)+

lemma length_put_uint16 [simp]: "length (put_uint16 w) = 2"
  by (simp add: put_uint16_def)

lemma length_put_uint32 [simp]: "length (put_uint32 w) = 4"
  by (simp add: put_uint32_def)

lemma get_put_uint16 [simp]: "get_uint16 (put_uint16 w @ bs) = w"
  using unat_bounds by (simp add: put_uint16_def get_uint16_def le_value_bytes)

lemma get_put_uint32 [simp]: "get_uint32 (put_uint32 w @ bs) = w"
  using unat_bounds by (simp add: put_uint32_def get_uint32_def le_value_bytes)

lemma put_uint32_inj [simp]: "put_uint32 v = put_uint32 w \<longleftrightarrow> v = w"
  by (metis append_Nil2 get_put_uint32)

lemma put_uint16_inj [simp]: "put_uint16 v = put_uint16 w \<longleftrightarrow> v = w"
  by (metis append_Nil2 get_put_uint16)

section \<open>Reading from a byte reader\<close>

datatype read_error = EOF | UnexpectedEOF

text \<open>\<^verbatim>\<open>reader.ReadByte()\<close>.\<close>

fun read_byte :: "bytes \<Rightarrow> read_error + byte \<times> bytes" where
  "read_byte [] = Inl EOF"
| "read_byte (b # r) = Inr (b, r)"

text \<open>\<^verbatim>\<open>binary.Read(reader, binary.LittleEndian, &v)\<close> with \<open>v\<close> of \<open>k > 0\<close> bytes: the raw bytes.\<close>

definition read_full :: "nat \<Rightarrow> bytes \<Rightarrow> read_error + bytes \<times> bytes" where
  "read_full k r =
     (if r = [] then Inl EOF
      else if length r < k then Inl UnexpectedEOF
      else Inr (take k r, drop k r))"

text \<open>
  \<^verbatim>\<open>content := make([]byte, reader.Len()); reader.Read(content)\<close>: at the end of the data a
  \<^verbatim>\<open>bytes.Reader\<close> answers \<^verbatim>\<open>io.EOF\<close> even to a read of no bytes.
\<close>

definition read_rest :: "bytes \<Rightarrow> read_error + bytes" where
  "read_rest r = (if r = [] then Inl EOF else Inr r)"

lemma read_full_append [wire_simps]:
  "k = length bs \<Longrightarrow> bs \<noteq> [] \<Longrightarrow> read_full k (bs @ r) = Inr (bs, r)"
  by (auto simp: read_full_def)

lemma put_uint_nonempty [wire_simps]: "put_uint16 v \<noteq> []" "put_uint32 w \<noteq> []"
  using length_put_uint16 [of v] length_put_uint32 [of w] by (auto simp del: length_put_uint16 length_put_uint32)

section \<open>Decimal numbers\<close>

text \<open>The digits that \<^verbatim>\<open>fmt.Sprintf("%d", n)\<close> prints for a number that is not negative.\<close>

fun decimal :: "nat \<Rightarrow> bytes" where
  "decimal n = (if n < 10 then [48 + of_nat n] else decimal (n div 10) @ [48 + of_nat (n mod 10)])"

declare decimal.simps [simp del]

section \<open>SHA-256\<close>

text \<open>
  The constants are the first 32 bits of the fractional parts of the cube roots of the first 64
  primes and of the square roots of the first eight, computed here bit by bit.
\<close>

fun iroot :: "nat \<Rightarrow> nat \<Rightarrow> nat \<Rightarrow> nat \<Rightarrow> nat" where
  "iroot k 0 v r = r"
| "iroot k (Suc b) v r = iroot k b v (if (r + 2 ^ b) ^ k \<le> v then r + 2 ^ b else r)"

definition sha_primes :: "nat list" where
  "sha_primes = filter (\<lambda>p. list_all (\<lambda>d. p mod d \<noteq> 0) [2..<p]) [2..<312]"

definition sha_k :: "uint32 list" where
  "sha_k = map (\<lambda>p. of_nat (iroot 3 35 (p * 2 ^ 96) 0)) sha_primes"

definition sha_init :: "uint32 list" where
  "sha_init = map (\<lambda>p. of_nat (iroot 2 35 (p * 2 ^ 64) 0)) [2, 3, 5, 7, 11, 13, 17, 19]"

definition be32_bytes :: "uint32 \<Rightarrow> bytes" where
  "be32_bytes w = rev (le_bytes 4 (unat w))"

definition be32_value :: "bytes \<Rightarrow> uint32" where
  "be32_value bs = of_nat (le_value (rev bs))"

definition sha_pad :: "bytes \<Rightarrow> bytes" where
  "sha_pad m = m @ [0x80] @ replicate ((119 - length m mod 64) mod 64) 0
     @ rev (le_bytes 8 (8 * length m))"

fun sha_words :: "nat \<Rightarrow> bytes \<Rightarrow> uint32 list" where
  "sha_words 0 bs = []"
| "sha_words (Suc k) bs = be32_value (take 4 bs) # sha_words k (drop 4 bs)"

definition sha_sigma0 :: "uint32 \<Rightarrow> uint32" where
  "sha_sigma0 x = word_rotr 7 x XOR word_rotr 18 x XOR drop_bit 3 x"

definition sha_sigma1 :: "uint32 \<Rightarrow> uint32" where
  "sha_sigma1 x = word_rotr 17 x XOR word_rotr 19 x XOR drop_bit 10 x"

text \<open>The message schedule, newest word first; sixteen words are there at the start.\<close>

fun sha_extend :: "nat \<Rightarrow> uint32 list \<Rightarrow> uint32 list" where
  "sha_extend 0 ws = ws"
| "sha_extend (Suc k) ws =
     sha_extend k ((sha_sigma1 (ws ! 1) + ws ! 6 + sha_sigma0 (ws ! 14) + ws ! 15) # ws)"

fun sha_round :: "uint32 \<times> uint32 \<Rightarrow> uint32 list \<Rightarrow> uint32 list" where
  "sha_round (k, w) [a, b, c, d, e, f, g, h] =
     (let s1 = word_rotr 6 e XOR word_rotr 11 e XOR word_rotr 25 e;
          ch = (e AND f) XOR (NOT e AND g);
          t1 = h + s1 + ch + k + w;
          s0 = word_rotr 2 a XOR word_rotr 13 a XOR word_rotr 22 a;
          maj = (a AND b) XOR (a AND c) XOR (b AND c);
          t2 = s0 + maj
      in [t1 + t2, a, b, c, d + t1, e, f, g])"
| "sha_round kw st = st"

definition sha_block :: "uint32 list \<Rightarrow> bytes \<Rightarrow> uint32 list" where
  "sha_block hs blk =
     map2 (+) hs (fold sha_round (zip sha_k (rev (sha_extend 48 (rev (sha_words 16 blk))))) hs)"

fun sha_blocks :: "nat \<Rightarrow> uint32 list \<Rightarrow> bytes \<Rightarrow> uint32 list" where
  "sha_blocks 0 hs bs = hs"
| "sha_blocks (Suc k) hs bs = sha_blocks k (sha_block hs (take 64 bs)) (drop 64 bs)"

definition sum256 :: "bytes \<Rightarrow> bytes" where
  "sum256 m = concat (map be32_bytes (sha_blocks (length (sha_pad m) div 64) sha_init (sha_pad m)))"

lemma length_sha_round [simp]: "length (sha_round kw st) = length st"
  by (induction kw st rule: sha_round.induct) (auto simp: Let_def)

lemma length_fold_sha_round [simp]: "length (fold sha_round ks st) = length st"
  by (induction ks arbitrary: st) auto

lemma length_sha_blocks [simp]: "length (sha_blocks k hs bs) = length hs"
  by (induction k hs bs rule: sha_blocks.induct) (auto simp: sha_block_def)

lemma length_concat_be32: "length (concat (map be32_bytes ws)) = 4 * length ws"
  by (induction ws) (auto simp: be32_bytes_def)

lemma length_sum256 [simp]: "length (sum256 m) = 32"
  by (simp add: sum256_def length_concat_be32 sha_init_def)

section \<open>Identifiers derived from bytes\<close>

definition BytesToUUID :: "bytes \<Rightarrow> uuid" where
  "BytesToUUID b = uuid_of (sum256 b)"

lemma uuid_bytes_BytesToUUID: "uuid_bytes (BytesToUUID b) = take 16 (sum256 b)"
  by (simp add: BytesToUUID_def)

definition ExtractIdFromMessage :: "bytes \<Rightarrow> read_error + uuid \<times> bytes" where
  "ExtractIdFromMessage reader =
     (if reader = [] then Inl EOF
      else if length reader < 16 then Inl UnexpectedEOF
      else Inr (uuid_of (take 16 reader), drop 16 reader))"

lemma uuid_bytes_nonempty [simp]: "uuid_bytes u \<noteq> []"
  using length_uuid_bytes [of u] by (metis length_0_conv zero_neq_numeral)

lemma ExtractId_append [wire_simps]: "ExtractIdFromMessage (uuid_bytes u @ r) = Inr (u, r)"
  by (simp add: ExtractIdFromMessage_def)

text \<open>
  \<^verbatim>\<open>x509.MarshalPKIXPublicKey\<close> is the parameter \<open>serialize\<close>: it gives the key's bytes, or
  \<open>None\<close> for a key it cannot encode.
\<close>

datatype 'pk key_error = UnableToSerialize 'pk

definition SerializePublicKey :: "('pk \<Rightarrow> bytes option) \<Rightarrow> 'pk \<Rightarrow> 'pk key_error + bytes" where
  "SerializePublicKey serialize pk =
     (case serialize pk of None \<Rightarrow> Inl (UnableToSerialize pk) | Some b \<Rightarrow> Inr b)"

definition PkToUUID :: "('pk \<Rightarrow> bytes option) \<Rightarrow> 'pk \<Rightarrow> 'pk key_error + uuid" where
  "PkToUUID serialize pk =
     (case SerializePublicKey serialize pk of Inl e \<Rightarrow> Inl e | Inr b \<Rightarrow> Inr (BytesToUUID b))"

end
