(* ===== verification/BRB_Instance.thy ===== *)
theory BRB_Instance
  imports Utils
begin

text \<open>
  One instance of Byzantine reliable broadcast: \<^verbatim>\<open>byzantineReliableBroadcast/instance.go\<close> and
  the three phase handlers \<^verbatim>\<open>phase1.go\<close>, \<^verbatim>\<open>phase2.go\<close>, \<^verbatim>\<open>phase3.go\<close>.  The handlers share the
  counters of \<^verbatim>\<open>brbData\<close> through a pointer, so they are one record here.  The invoker goroutine
  of \<^verbatim>\<open>brbInstance\<close> runs one command at a time: each \<open>handle\<dots>\<close> operation is one atomic step.
  A \<^verbatim>\<open>map[UUID]bool\<close> in which only \<open>true\<close> is ever stored is the set of its keys.  The fields
  \<open>echoChan\<close>, \<open>readyChan\<close> and \<open>outputChan\<close> hold what was handed to the channels, oldest first.
\<close>

section \<open>State\<close>

record BRBMsg =
  Content :: bytes
  Sender :: uuid

record brbData =
  data_n :: uint
  data_f :: uint
  echoes :: "uuid \<rightharpoonup> uint"
  readies :: "uuid \<rightharpoonup> uint"

record brbHandler =
  brb_data :: brbData
  peersEchoed :: "uuid set"
  peersReadied :: "uuid set"
  phase1_isFinished :: bool
  phase2_isFinished :: bool
  echoChan :: "bytes list"
  readyChan :: "bytes list"
  outputChan :: "BRBMsg list"

datatype brb_error =
    AlreadyReceivedEcho uuid
  | AlreadyReceivedReady uuid
  | UnableToHandleEcho brb_error
  | UnableToHandleReady brb_error
  | EchoesNotFoundPhase1 uuid
  | ReadiesNotFoundPhase1 uuid
  | EchoesNotFoundPhase2 uuid
  | ReadiesNotFoundPhase2 uuid
  | ReadiesNotFoundPhase3

definition newBrbHandler :: "uint \<Rightarrow> uint \<Rightarrow> brbHandler" where
  "newBrbHandler n f =
     \<lparr>brb_data = \<lparr>data_n = n, data_f = f, echoes = Map.empty, readies = Map.empty\<rparr>,
      peersEchoed = {}, peersReadied = {}, phase1_isFinished = False, phase2_isFinished = False,
      echoChan = [], readyChan = [], outputChan = []\<rparr>"

section \<open>Phase 3: delivery\<close>

text \<open>\<^verbatim>\<open>parseMsg\<close> slices the first sixteen bytes; \<open>None\<close> is the panic on a shorter message.\<close>

definition parseMsg :: "bytes \<Rightarrow> (uuid \<times> bytes) option" where
  "parseMsg msg = (if length msg < 16 then None else Some (uuid_of (take 16 msg), drop 16 msg))"

definition phase3_handleReady :: "bytes \<Rightarrow> uuid \<Rightarrow> brbHandler \<Rightarrow> brbHandler \<times> brb_error outcome" where
  "phase3_handleReady msg mid h =
     (case readies (brb_data h) mid of
        None \<Rightarrow> (h, GoErr ReadiesNotFoundPhase3)
      | Some numReadies \<Rightarrow>
          if numReadies = data_n (brb_data h) - data_f (brb_data h)
          then (case parseMsg msg of
                  None \<Rightarrow> (h, GoPanic)
                | Some (sender, content) \<Rightarrow>
                    (h\<lparr>outputChan := outputChan h @ [\<lparr>Content = content, Sender = sender\<rparr>]\<rparr>, GoNil))
          else (h, GoNil))"

section \<open>Phase 2: collecting echoes, sending the ready\<close>

definition sendReady :: "bytes \<Rightarrow> brbHandler \<Rightarrow> brbHandler" where
  "sendReady msg h = h\<lparr>readyChan := readyChan h @ [msg]\<rparr>"

definition phase2_handleEcho :: "bytes \<Rightarrow> uuid \<Rightarrow> brbHandler \<Rightarrow> brbHandler \<times> brb_error outcome" where
  "phase2_handleEcho msg mid h =
     (if phase2_isFinished h then (h, GoNil)
      else case echoes (brb_data h) mid of
        None \<Rightarrow> (h, GoErr (EchoesNotFoundPhase2 mid))
      | Some numEchoes \<Rightarrow>
          if numEchoes = data_n (brb_data h) - data_f (brb_data h)
          then (sendReady msg (h\<lparr>phase2_isFinished := True\<rparr>), GoNil)
          else (h, GoNil))"

definition phase2_handleReady :: "bytes \<Rightarrow> uuid \<Rightarrow> brbHandler \<Rightarrow> brbHandler \<times> brb_error outcome" where
  "phase2_handleReady msg mid h =
     (if phase2_isFinished h then phase3_handleReady msg mid h
      else case readies (brb_data h) mid of
        None \<Rightarrow> (h, GoErr (ReadiesNotFoundPhase2 mid))
      | Some numReadies \<Rightarrow>
          if numReadies = data_f (brb_data h) + 1
          then phase3_handleReady msg mid (sendReady msg (h\<lparr>phase2_isFinished := True\<rparr>))
          else (h, GoNil))"

section \<open>Phase 1: the first echo\<close>

definition sendEcho :: "bytes \<Rightarrow> brbHandler \<Rightarrow> brbHandler" where
  "sendEcho msg h = h\<lparr>echoChan := echoChan h @ [msg]\<rparr>"

text \<open>Marshalling an identifier to binary never fails, so its error branch has no counterpart.\<close>

definition phase1_handleSend :: "bytes \<Rightarrow> uuid \<Rightarrow> brbHandler \<Rightarrow> brbHandler \<times> brb_error outcome" where
  "phase1_handleSend msg sender h =
     (if \<not> phase1_isFinished h
      then (sendEcho (uuid_bytes sender @ msg) (h\<lparr>phase1_isFinished := True\<rparr>), GoNil)
      else (h, GoNil))"

definition phase1_handleEcho :: "bytes \<Rightarrow> uuid \<Rightarrow> brbHandler \<Rightarrow> brbHandler \<times> brb_error outcome" where
  "phase1_handleEcho msg mid h =
     (if phase1_isFinished h then phase2_handleEcho msg mid h
      else case echoes (brb_data h) mid of
        None \<Rightarrow> (h, GoErr (EchoesNotFoundPhase1 mid))
      | Some numEchoes \<Rightarrow>
          if numEchoes = data_f (brb_data h) + 1
          then phase2_handleEcho msg mid (sendEcho msg (h\<lparr>phase1_isFinished := True\<rparr>))
          else (h, GoNil))"

definition phase1_handleReady :: "bytes \<Rightarrow> uuid \<Rightarrow> brbHandler \<Rightarrow> brbHandler \<times> brb_error outcome" where
  "phase1_handleReady msg mid h =
     (if phase1_isFinished h then phase2_handleReady msg mid h
      else case readies (brb_data h) mid of
        None \<Rightarrow> (h, GoErr (ReadiesNotFoundPhase1 mid))
      | Some numReadies \<Rightarrow>
          if numReadies = data_f (brb_data h) + 1
          then phase2_handleReady msg mid (sendEcho msg (h\<lparr>phase1_isFinished := True\<rparr>))
          else (h, GoNil))"

section \<open>The handler\<close>

text \<open>Reading a Go map at a missing key gives the zero value.\<close>

definition counted :: "(uuid \<rightharpoonup> uint) \<Rightarrow> uuid \<Rightarrow> uint" where
  "counted m k = (case m k of None \<Rightarrow> 0 | Some c \<Rightarrow> c)"

definition countEcho :: "uuid \<Rightarrow> uuid \<Rightarrow> brbHandler \<Rightarrow> brbHandler" where
  "countEcho mid sender h =
     h\<lparr>brb_data := (brb_data h)\<lparr>echoes := (echoes (brb_data h))(mid \<mapsto> counted (echoes (brb_data h)) mid + 1)\<rparr>,
       peersEchoed := insert sender (peersEchoed h)\<rparr>"

definition countReady :: "uuid \<Rightarrow> uuid \<Rightarrow> brbHandler \<Rightarrow> brbHandler" where
  "countReady mid sender h =
     h\<lparr>brb_data := (brb_data h)\<lparr>readies := (readies (brb_data h))(mid \<mapsto> counted (readies (brb_data h)) mid + 1)\<rparr>,
       peersReadied := insert sender (peersReadied h)\<rparr>"

definition handleSend :: "bytes \<Rightarrow> uuid \<Rightarrow> brbHandler \<Rightarrow> brbHandler \<times> brb_error outcome" where
  "handleSend msg sender h = phase1_handleSend msg sender h"

definition handleEcho :: "bytes \<Rightarrow> uuid \<Rightarrow> brbHandler \<Rightarrow> brbHandler \<times> brb_error outcome" where
  "handleEcho msg sender h =
     (if sender \<in> peersEchoed h then (h, GoErr (AlreadyReceivedEcho sender))
      else let mid = BytesToUUID msg
           in wrap_err UnableToHandleEcho (phase1_handleEcho msg mid (countEcho mid sender h)))"

definition handleReady :: "bytes \<Rightarrow> uuid \<Rightarrow> brbHandler \<Rightarrow> brbHandler \<times> brb_error outcome" where
  "handleReady msg sender h =
     (if sender \<in> peersReadied h then (h, GoErr (AlreadyReceivedReady sender))
      else let mid = BytesToUUID msg
           in wrap_err UnableToHandleReady (phase1_handleReady msg mid (countReady mid sender h)))"

lemmas [brb_defs] = phase3_handleReady_def sendReady_def phase2_handleEcho_def
  phase2_handleReady_def sendEcho_def phase1_handleSend_def phase1_handleEcho_def
  phase1_handleReady_def handleSend_def handleEcho_def handleReady_def
  countEcho_def countReady_def Let_def

section \<open>What each operation does, branch by branch\<close>

abbreviation echo_count :: "brbHandler \<Rightarrow> uuid \<Rightarrow> uint" where
  "echo_count h \<equiv> counted (echoes (brb_data h))"

abbreviation ready_count :: "brbHandler \<Rightarrow> uuid \<Rightarrow> uint" where
  "ready_count h \<equiv> counted (readies (brb_data h))"

abbreviation quorum_size :: "brbHandler \<Rightarrow> uint" where
  "quorum_size h \<equiv> data_n (brb_data h) - data_f (brb_data h)"

abbreviation amplify_size :: "brbHandler \<Rightarrow> uint" where
  "amplify_size h \<equiv> data_f (brb_data h) + 1"

lemma counted_upd [simp]: "counted (m(k \<mapsto> c)) k' = (if k' = k then c else counted m k')"
  by (simp add: counted_def)

lemma counted_empty [simp]: "counted Map.empty k = 0"
  by (simp add: counted_def)

lemma newBrbHandler_sel [simp]:
  "data_n (brb_data (newBrbHandler n f)) = n" "data_f (brb_data (newBrbHandler n f)) = f"
  "echoes (brb_data (newBrbHandler n f)) = Map.empty" "readies (brb_data (newBrbHandler n f)) = Map.empty"
  "peersEchoed (newBrbHandler n f) = {}" "peersReadied (newBrbHandler n f) = {}"
  "phase1_isFinished (newBrbHandler n f) = False" "phase2_isFinished (newBrbHandler n f) = False"
  "echoChan (newBrbHandler n f) = []" "readyChan (newBrbHandler n f) = []"
  "outputChan (newBrbHandler n f) = []"
  by (simp_all add: newBrbHandler_def)

text \<open>
  An echo from a peer that has not echoed yet: it is counted under the hash of the message;
  it makes the node echo when it is the \<open>f + 1\<close>-st and the node has not echoed, and makes it
  send its ready when it is the \<open>n - f\<close>-th and the node has not sent one.
\<close>

definition echoes_now :: "bytes \<Rightarrow> brbHandler \<Rightarrow> bool" where
  "echoes_now msg h \<longleftrightarrow> \<not> phase1_isFinished h \<and> echo_count h (BytesToUUID msg) + 1 = amplify_size h"

definition readies_on_echo :: "bytes \<Rightarrow> brbHandler \<Rightarrow> bool" where
  "readies_on_echo msg h \<longleftrightarrow> (phase1_isFinished h \<or> echoes_now msg h) \<and> \<not> phase2_isFinished h
     \<and> echo_count h (BytesToUUID msg) + 1 = quorum_size h"

lemma handleEcho_new:
  assumes "sender \<notin> peersEchoed h"
  shows "handleEcho msg sender h =
    (let e = echoes_now msg h; r = readies_on_echo msg h
     in ((countEcho (BytesToUUID msg) sender h)
          \<lparr>phase1_isFinished := phase1_isFinished h \<or> e, phase2_isFinished := phase2_isFinished h \<or> r,
           echoChan := echoChan h @ emit e msg,
           readyChan := readyChan h @ emit r msg\<rparr>, GoNil))"
  using assms by (auto simp: brb_defs echoes_now_def readies_on_echo_def)

lemma handleEcho_sel:
  assumes "sender \<notin> peersEchoed h"
  shows "data_n (brb_data (fst (handleEcho msg sender h))) = data_n (brb_data h)"
    and "data_f (brb_data (fst (handleEcho msg sender h))) = data_f (brb_data h)"
    and "echoes (brb_data (fst (handleEcho msg sender h))) =
      (echoes (brb_data h))(BytesToUUID msg \<mapsto> echo_count h (BytesToUUID msg) + 1)"
    and "readies (brb_data (fst (handleEcho msg sender h))) = readies (brb_data h)"
    and "peersEchoed (fst (handleEcho msg sender h)) = insert sender (peersEchoed h)"
    and "peersReadied (fst (handleEcho msg sender h)) = peersReadied h"
    and "phase1_isFinished (fst (handleEcho msg sender h)) \<longleftrightarrow> phase1_isFinished h \<or> echoes_now msg h"
    and "phase2_isFinished (fst (handleEcho msg sender h)) \<longleftrightarrow> phase2_isFinished h \<or> readies_on_echo msg h"
    and "echoChan (fst (handleEcho msg sender h)) = echoChan h @ emit (echoes_now msg h) msg"
    and "readyChan (fst (handleEcho msg sender h)) = readyChan h @ emit (readies_on_echo msg h) msg"
    and "outputChan (fst (handleEcho msg sender h)) = outputChan h"
  by (simp_all add: handleEcho_new [OF assms] Let_def countEcho_def)

lemma handleSend_sel:
  "brb_data (fst (handleSend msg sender h)) = brb_data h"
  "peersEchoed (fst (handleSend msg sender h)) = peersEchoed h"
  "peersReadied (fst (handleSend msg sender h)) = peersReadied h"
  "phase1_isFinished (fst (handleSend msg sender h))"
  "phase2_isFinished (fst (handleSend msg sender h)) = phase2_isFinished h"
  "echoChan (fst (handleSend msg sender h)) =
     echoChan h @ emit (\<not> phase1_isFinished h) (uuid_bytes sender @ msg)"
  "readyChan (fst (handleSend msg sender h)) = readyChan h"
  "outputChan (fst (handleSend msg sender h)) = outputChan h"
  by (simp_all add: handleSend_def phase1_handleSend_def sendEcho_def)

lemma handleEcho_repeated:
  "sender \<in> peersEchoed h \<Longrightarrow> handleEcho msg sender h = (h, GoErr (AlreadyReceivedEcho sender))"
  by (simp add: handleEcho_def)

definition echoes_on_ready :: "bytes \<Rightarrow> brbHandler \<Rightarrow> bool" where
  "echoes_on_ready msg h \<longleftrightarrow> \<not> phase1_isFinished h \<and> ready_count h (BytesToUUID msg) + 1 = amplify_size h"

definition readies_now :: "bytes \<Rightarrow> brbHandler \<Rightarrow> bool" where
  "readies_now msg h \<longleftrightarrow> (phase1_isFinished h \<or> echoes_on_ready msg h) \<and> \<not> phase2_isFinished h
     \<and> ready_count h (BytesToUUID msg) + 1 = amplify_size h"

definition delivers_now :: "bytes \<Rightarrow> brbHandler \<Rightarrow> bool" where
  "delivers_now msg h \<longleftrightarrow> (phase1_isFinished h \<or> echoes_on_ready msg h)
     \<and> (phase2_isFinished h \<or> readies_now msg h) \<and> ready_count h (BytesToUUID msg) + 1 = quorum_size h"

lemma handleReady_new:
  assumes "sender \<notin> peersReadied h"
  shows "handleReady msg sender h =
    (let e = echoes_on_ready msg h; r = readies_now msg h;
         d = delivers_now msg h \<and> parseMsg msg \<noteq> None
     in ((countReady (BytesToUUID msg) sender h)
          \<lparr>phase1_isFinished := phase1_isFinished h \<or> e, phase2_isFinished := phase2_isFinished h \<or> r,
           echoChan := echoChan h @ emit e msg,
           readyChan := readyChan h @ emit r msg,
           outputChan := outputChan h @ emit d \<lparr>Content = drop 16 msg, Sender = uuid_of (take 16 msg)\<rparr>\<rparr>,
         if delivers_now msg h \<and> parseMsg msg = None then GoPanic else GoNil))"
  using assms
  by (cases "phase1_isFinished h"; cases "phase2_isFinished h")
    (auto simp: brb_defs echoes_on_ready_def readies_now_def delivers_now_def parseMsg_def algebra_simps)

lemma handleReady_sel:
  assumes "sender \<notin> peersReadied h"
  shows "data_n (brb_data (fst (handleReady msg sender h))) = data_n (brb_data h)"
    and "data_f (brb_data (fst (handleReady msg sender h))) = data_f (brb_data h)"
    and "readies (brb_data (fst (handleReady msg sender h))) =
      (readies (brb_data h))(BytesToUUID msg \<mapsto> ready_count h (BytesToUUID msg) + 1)"
    and "echoes (brb_data (fst (handleReady msg sender h))) = echoes (brb_data h)"
    and "peersReadied (fst (handleReady msg sender h)) = insert sender (peersReadied h)"
    and "peersEchoed (fst (handleReady msg sender h)) = peersEchoed h"
    and "phase1_isFinished (fst (handleReady msg sender h)) \<longleftrightarrow> phase1_isFinished h \<or> echoes_on_ready msg h"
    and "phase2_isFinished (fst (handleReady msg sender h)) \<longleftrightarrow> phase2_isFinished h \<or> readies_now msg h"
    and "echoChan (fst (handleReady msg sender h)) = echoChan h @ emit (echoes_on_ready msg h) msg"
    and "readyChan (fst (handleReady msg sender h)) = readyChan h @ emit (readies_now msg h) msg"
    and "outputChan (fst (handleReady msg sender h)) = outputChan h @
      emit (delivers_now msg h \<and> \<not> length msg < 16)
        \<lparr>Content = drop 16 msg, Sender = uuid_of (take 16 msg)\<rparr>"
  by (simp_all add: handleReady_new [OF assms] Let_def countReady_def parseMsg_def)

lemma handleReady_repeated:
  "sender \<in> peersReadied h \<Longrightarrow> handleReady msg sender h = (h, GoErr (AlreadyReceivedReady sender))"
  by (simp add: handleReady_def)

end
