(* ===== verification/Fault_Model.thy ===== *)
theory Fault_Model
  imports Prelude
begin

text \<open>
  The system the protocols run in: \<open>n\<close> participants of which at most \<open>f\<close> are Byzantine, with
  \<open>3 f < n\<close>.  \<open>n\<close> and \<open>f\<close> are the \<^verbatim>\<open>uint\<close> values \<^verbatim>\<open>num_nodes\<close> and \<^verbatim>\<open>faulty\<close> that \<^verbatim>\<open>main.go\<close>
  reads from the configuration and hands to every channel.  The thresholds are the ones the
  handlers compare their counters with: \<open>n - f\<close> for a strong quorum, \<open>f + 1\<close> for a weak one.
\<close>

record net_cfg =
  procs :: "uuid set"
  correct :: "uuid set"
  cfg_n :: uint
  cfg_f :: uint

definition byz_ok :: "net_cfg \<Rightarrow> bool" where
  "byz_ok c \<longleftrightarrow> correct c \<subseteq> procs c \<and> card (procs c) = unat (cfg_n c)
     \<and> card (procs c - correct c) \<le> unat (cfg_f c) \<and> 3 * unat (cfg_f c) < unat (cfg_n c)"

definition strong_quorum :: "net_cfg \<Rightarrow> uuid set \<Rightarrow> bool" where
  "strong_quorum c A \<longleftrightarrow> unat (cfg_n c - cfg_f c) \<le> card A"

definition weak_quorum :: "net_cfg \<Rightarrow> uuid set \<Rightarrow> bool" where
  "weak_quorum c A \<longleftrightarrow> unat (cfg_f c + 1) \<le> card A"

lemma unat_thresholds:
  assumes "byz_ok c"
  shows "unat (cfg_n c - cfg_f c) = unat (cfg_n c) - unat (cfg_f c)"
    and "unat (cfg_f c + 1) = unat (cfg_f c) + 1"
proof -
  have "3 * unat (cfg_f c) < unat (cfg_n c)" using assms by (simp add: byz_ok_def)
  moreover have "unat (cfg_n c) < 2 ^ 64"
    by (rule order.strict_trans2 [OF unsigned_less]) simp
  ultimately show "unat (cfg_n c - cfg_f c) = unat (cfg_n c) - unat (cfg_f c)"
    and "unat (cfg_f c + 1) = unat (cfg_f c) + 1"
    by (simp_all add: unat_diff_uint unat_inc_uint)
qed

lemma correct_count:
  assumes "byz_ok c"
  shows "unat (cfg_n c) - unat (cfg_f c) \<le> card (correct c)"
proof -
  have sub: "correct c \<subseteq> procs c" and faulty: "card (procs c - correct c) \<le> unat (cfg_f c)"
    and n: "card (procs c) = unat (cfg_n c)" using assms by (auto simp: byz_ok_def)
  have "card (procs c - correct c) = card (procs c) - card (correct c)"
    using sub by (intro card_Diff_subset) (auto simp: finite_subset)
  with faulty n show ?thesis by simp
qed

interpretation byzq: byz_thresholds byz_ok procs correct strong_quorum weak_quorum
proof (unfold_locales, goal_cases)
  case (1 c A B)
  note ok = 1(1)
  have "card A + card B \<le> card (procs c) + card (A \<inter> B)"
    using 1 by (intro quorum_overlap) auto
  with 1 have "card (procs c - correct c) < card (A \<inter> B)"
    using unat_thresholds [OF ok] by (auto simp: byz_ok_def strong_quorum_def)
  then show ?case
    using exceeds_faulty_meets_correct [of "procs c" "A \<inter> B" "correct c"] 1 by auto
next
  case (2 c A)
  then show ?case
    using exceeds_faulty_meets_correct [of "procs c" A "correct c"] unat_thresholds [of c]
    by (auto simp: byz_ok_def weak_quorum_def)
next
  case (3 c)
  then show ?case by (simp add: byz_ok_def)
next
  case (4 c)
  then show ?case using correct_count unat_thresholds by (simp add: strong_quorum_def)
next
  case (5 c A)
  have "card A \<le> card (A \<inter> correct c) + card (A - correct c)"
    by (metis card_Un_le Int_Diff_Un)
  moreover have "card (A - correct c) \<le> card (procs c - correct c)"
    using 5 by (intro card_mono) auto
  ultimately show ?case
    using 5 unat_thresholds [of c] by (auto simp: byz_ok_def strong_quorum_def weak_quorum_def)
next
  case (6 c A B)
  then show ?case using card_mono [of B A] by (simp add: strong_quorum_def)
next
  case (7 c A B)
  then show ?case using card_mono [of B A] by (simp add: weak_quorum_def)
qed

text \<open>
  The configuration of \<^verbatim>\<open>config/config.properties\<close>: four nodes, one of them faulty.
\<close>

definition default_cfg :: net_cfg where
  "default_cfg = \<lparr>procs = {uid 1, uid 2, uid 3, uid 4}, correct = {uid 1, uid 2, uid 3},
     cfg_n = 4, cfg_f = 1\<rparr>"

lemma default_cfg_sel [simp]:
  "procs default_cfg = {uid 1, uid 2, uid 3, uid 4}" "correct default_cfg = {uid 1, uid 2, uid 3}"
  "cfg_n default_cfg = 4" "cfg_f default_cfg = 1"
  by (simp_all add: default_cfg_def)

lemma default_cfg_ok [simp]: "byz_ok default_cfg"
  by (simp add: byz_ok_def insert_Diff_if)

end
