(* ===== verification/BRB_Node.thy ===== *)
theory BRB_Node
  imports BRB_Instance Fault_Model
begin

text \<open>
  The invariant of one correct node of a reliable-broadcast instance.  The handler keeps only
  counters and the set of peers heard from; the logs \<open>E\<close>, \<open>R\<close> and \<open>D\<close> are history variables with
  the (sender, message) pairs of the echoes, readies and sends the node accepted.  The lemmas
  show that the counters are the sizes of the corresponding sets of senders, and that the
  one-shot comparisons of the code (\<open>numEchoes == f + 1\<close>, \<open>numEchoes == n - f\<close>) never miss a
  threshold.
\<close>

section \<open>Logs and counters\<close>

type_synonym brb_log = "(uuid \<times> bytes) set"

definition senders :: "brb_log \<Rightarrow> uuid \<Rightarrow> uuid set" where
  "senders E mid = {s. \<exists>m. (s, m) \<in> E \<and> BytesToUUID m = mid}"

lemma senders_insert:
  "senders (insert (s, m) E) mid =
     (if BytesToUUID m = mid then insert s (senders E mid) else senders E mid)"
  by (auto simp: senders_def)

lemma senders_empty [simp]: "senders {} mid = {}"
  by (simp add: senders_def)

lemma senders_mono: "E \<subseteq> E' \<Longrightarrow> senders E mid \<subseteq> senders E' mid"
  by (auto simp: senders_def)

lemma senders_fst: "s \<in> senders E mid \<Longrightarrow> s \<in> fst ` E"
  by (force simp: senders_def)

text \<open>What the counters, the peers and a log have to do with each other.\<close>

definition tally :: "net_cfg \<Rightarrow> (uuid \<rightharpoonup> uint) \<Rightarrow> uuid set \<Rightarrow> brb_log \<Rightarrow> bool" where
  "tally c m peers E \<longleftrightarrow> peers = fst ` E \<and> inj_on fst E \<and> peers \<subseteq> procs c
     \<and> (\<forall>mid. unat (counted m mid) = card (senders E mid))"

lemma tally_empty: "tally c Map.empty {} {}"
  by (simp add: tally_def)

lemma tally_senders: "tally c m peers E \<Longrightarrow> senders E mid \<subseteq> procs c"
  by (auto simp: tally_def dest!: senders_fst)

lemma tally_same: "tally c m peers E \<Longrightarrow> (s, a) \<in> E \<Longrightarrow> (s, b) \<in> E \<Longrightarrow> a = b"
  unfolding tally_def by (auto dest: inj_onD [where x = "(s, a)" and y = "(s, b)"])

lemma tally_disjoint:
  "tally c m peers E \<Longrightarrow> s \<in> senders E mid \<Longrightarrow> s \<in> senders E mid' \<Longrightarrow> mid = mid'"
  by (auto simp: senders_def dest: tally_same)

lemma counter_step:
  assumes ok: "byz_ok c" and t: "tally c m peers E" and new: "s \<notin> peers" and s: "s \<in> procs c"
  shows "unat (counted m (BytesToUUID x) + 1) = card (senders (insert (s, x) E) (BytesToUUID x))"
    and "s \<notin> senders E mid"
proof -
  let ?A = "senders E (BytesToUUID x)"
  show notin: "s \<notin> senders E mid" for mid
    using t new by (auto simp: tally_def dest: senders_fst)
  have "insert s ?A \<subseteq> procs c" using tally_senders [OF t] s by auto
  then have "card (insert s ?A) \<le> card (procs c)" by (intro card_mono) auto
  then have "card ?A + 1 \<le> unat (cfg_n c)" using ok notin by (simp add: byz_ok_def)
  moreover have "unat (cfg_n c) < 2 ^ 64" by (rule order.strict_trans2 [OF unsigned_less]) simp
  moreover have "unat (counted m (BytesToUUID x)) = card ?A" using t by (simp add: tally_def)
  ultimately show "unat (counted m (BytesToUUID x) + 1) = card (senders (insert (s, x) E) (BytesToUUID x))"
    using notin by (simp add: unat_inc_uint senders_insert)
qed

lemma tally_step:
  assumes "byz_ok c" and "tally c m peers E" and "s \<notin> peers" and "s \<in> procs c"
  shows "tally c (m(BytesToUUID x \<mapsto> counted m (BytesToUUID x) + 1)) (insert s peers) (insert (s, x) E)"
  using assms(2-) counter_step [OF assms] by (auto simp: tally_def senders_insert)

text \<open>A one-shot comparison with a threshold, read on the set of senders.\<close>

lemma counter_hits:
  assumes "byz_ok c" and "tally c m peers E" and "s \<notin> peers" and "s \<in> procs c"
  shows "counted m (BytesToUUID x) + 1 = t \<longleftrightarrow> card (senders (insert (s, x) E) (BytesToUUID x)) = unat t"
  using counter_step(1) [OF assms] by (metis word_unat_eq_iff)

text \<open>The set of senders of one message grows by one, so it reaches a threshold exactly.\<close>

lemma threshold_crossed:
  assumes t: "tally c m peers E" and new: "s \<notin> peers"
    and reached: "k \<le> card (senders (insert (s, x) E) mid)" and before: "\<not> k \<le> card (senders E mid)"
  shows "mid = BytesToUUID x" and "card (senders (insert (s, x) E) (BytesToUUID x)) = k"
proof -
  have "s \<notin> senders E mid" using t new by (auto simp: tally_def dest: senders_fst)
  then show "mid = BytesToUUID x" using reached before by (auto simp: senders_insert split: if_splits)
  with \<open>s \<notin> senders E mid\<close> show "card (senders (insert (s, x) E) (BytesToUUID x)) = k"
    using reached before by (auto simp: senders_insert)
qed

section \<open>The invariant of a node\<close>

text \<open>The thresholds that must have had their effect.\<close>

definition brb_progress :: "net_cfg \<Rightarrow> brbHandler \<Rightarrow> brb_log \<Rightarrow> brb_log \<Rightarrow> bool" where
  "brb_progress c h E R \<longleftrightarrow> (\<forall>mid.
     (weak_quorum c (senders E mid) \<longrightarrow> phase1_isFinished h) \<and>
     (weak_quorum c (senders R mid) \<longrightarrow> phase1_isFinished h \<and> phase2_isFinished h) \<and>
     (strong_quorum c (senders E mid) \<longrightarrow> phase2_isFinished h))"

text \<open>The evidence behind each message the node sent and each delivery it made.\<close>

definition brb_justified :: "net_cfg \<Rightarrow> brbHandler \<Rightarrow> brb_log \<Rightarrow> brb_log \<Rightarrow> brb_log \<Rightarrow> bool" where
  "brb_justified c h E R D \<longleftrightarrow>
     (\<forall>m \<in> set (echoChan h). (\<exists>s x. (s, x) \<in> D \<and> m = uuid_bytes s @ x)
        \<or> weak_quorum c (senders E (BytesToUUID m)) \<or> weak_quorum c (senders R (BytesToUUID m))) \<and>
     (\<forall>m \<in> set (readyChan h). strong_quorum c (senders E (BytesToUUID m))
        \<or> weak_quorum c (senders R (BytesToUUID m))) \<and>
     (\<forall>d \<in> set (outputChan h). strong_quorum c (senders R (BytesToUUID (uuid_bytes (Sender d) @ Content d))))"

text \<open>One echo and one ready at most, and the flags say whether they were sent.\<close>

definition brb_once :: "brbHandler \<Rightarrow> bool" where
  "brb_once h \<longleftrightarrow> length (echoChan h) = (if phase1_isFinished h then 1 else 0)
     \<and> length (readyChan h) = (if phase2_isFinished h then 1 else 0) \<and> length (outputChan h) \<le> 1"

text \<open>A strong quorum of readies has led to a delivery, unless the message was too short to parse.\<close>

definition brb_delivered :: "net_cfg \<Rightarrow> brbHandler \<Rightarrow> brb_log \<Rightarrow> bool" where
  "brb_delivered c h R \<longleftrightarrow> (\<forall>mid. strong_quorum c (senders R mid) \<longrightarrow>
     (\<exists>s m. (s, m) \<in> R \<and> BytesToUUID m = mid \<and>
        (length m < 16 \<or> \<lparr>Content = drop 16 m, Sender = uuid_of (take 16 m)\<rparr> \<in> set (outputChan h))))"

definition brb_local :: "net_cfg \<Rightarrow> brbHandler \<Rightarrow> brb_log \<Rightarrow> brb_log \<Rightarrow> brb_log \<Rightarrow> bool" where
  "brb_local c h E R D \<longleftrightarrow> data_n (brb_data h) = cfg_n c \<and> data_f (brb_data h) = cfg_f c
     \<and> tally c (echoes (brb_data h)) (peersEchoed h) E
     \<and> tally c (readies (brb_data h)) (peersReadied h) R
     \<and> (D \<noteq> {} \<longrightarrow> phase1_isFinished h)
     \<and> brb_progress c h E R \<and> brb_justified c h E R D \<and> brb_once h \<and> brb_delivered c h R"

lemma quorums_nonempty:
  assumes "byz_ok c"
  shows "\<not> weak_quorum c {}" and "\<not> strong_quorum c {}"
  using assms unat_thresholds [OF assms] by (auto simp: weak_quorum_def strong_quorum_def byz_ok_def)

lemma strong_is_weak:
  assumes "byz_ok c" and "strong_quorum c A"
  shows "weak_quorum c A"
  using assms unat_thresholds [of c] by (auto simp: weak_quorum_def strong_quorum_def byz_ok_def)

lemma brb_local_init: "byz_ok c \<Longrightarrow> brb_local c (newBrbHandler (cfg_n c) (cfg_f c)) {} {} {}"
  by (simp add: brb_local_def tally_empty brb_progress_def brb_justified_def brb_once_def
      brb_delivered_def quorums_nonempty)

text \<open>A parsed message is the sender's identifier followed by the content.\<close>

lemma parsed_bytes: "\<not> length m < 16 \<Longrightarrow> uuid_bytes (uuid_of (take 16 m)) @ drop 16 m = m"
  by (simp add: append_take_drop_id)

section \<open>Every operation keeps the invariant\<close>

lemma brb_justified_mono:
  assumes ok: "byz_ok c" and j: "brb_justified c h E R D"
    and sub: "E \<subseteq> E'" "R \<subseteq> R'" "D \<subseteq> D'"
    and in_procs: "\<And>mid. senders E' mid \<subseteq> procs c" "\<And>mid. senders R' mid \<subseteq> procs c"
  shows "brb_justified c h E' R' D'"
proof -
  have E: "weak_quorum c (senders E mid) \<Longrightarrow> weak_quorum c (senders E' mid)"
      "strong_quorum c (senders E mid) \<Longrightarrow> strong_quorum c (senders E' mid)" for mid
    by (erule byzq.weak_mono [OF ok _ senders_mono [OF sub(1)] in_procs(1)]
        byzq.strong_mono [OF ok _ senders_mono [OF sub(1)] in_procs(1)])+
  have R: "weak_quorum c (senders R mid) \<Longrightarrow> weak_quorum c (senders R' mid)"
      "strong_quorum c (senders R mid) \<Longrightarrow> strong_quorum c (senders R' mid)" for mid
    by (erule byzq.weak_mono [OF ok _ senders_mono [OF sub(2)] in_procs(2)]
        byzq.strong_mono [OF ok _ senders_mono [OF sub(2)] in_procs(2)])+
  show ?thesis
    using j E R sub(3) unfolding brb_justified_def by blast
qed

lemma handleSend_local:
  assumes ok: "byz_ok c" and inv: "brb_local c h E R D"
  shows "brb_local c (fst (handleSend x s h)) E R (insert (s, x) D)"
proof -
  have tE: "tally c (echoes (brb_data h)) (peersEchoed h) E"
    and tR: "tally c (readies (brb_data h)) (peersReadied h) R"
    and j: "brb_justified c h E R D" using inv by (auto simp: brb_local_def)
  have "brb_justified c h E R (insert (s, x) D)"
    by (rule brb_justified_mono [OF ok j _ _ _ tally_senders [OF tE] tally_senders [OF tR]]) auto
  then show ?thesis
    using inv by (auto simp: brb_local_def handleSend_sel brb_progress_def brb_justified_def brb_once_def
        brb_delivered_def)
qed

text \<open>The effect of an accepted echo, with the counters read as sets of senders.\<close>

lemma echo_triggers:
  assumes ok: "byz_ok c" and inv: "brb_local c h E R D" and new: "s \<notin> peersEchoed h" and s: "s \<in> procs c"
  shows "echoes_now x h \<longleftrightarrow> \<not> phase1_isFinished h \<and>
           card (senders (insert (s, x) E) (BytesToUUID x)) = unat (cfg_f c + 1)"
    and "readies_on_echo x h \<longleftrightarrow> (phase1_isFinished h \<or> echoes_now x h) \<and> \<not> phase2_isFinished h \<and>
           card (senders (insert (s, x) E) (BytesToUUID x)) = unat (cfg_n c - cfg_f c)"
proof -
  have d: "data_n (brb_data h) = cfg_n c" "data_f (brb_data h) = cfg_f c"
    and t: "tally c (echoes (brb_data h)) (peersEchoed h) E" using inv by (auto simp: brb_local_def)
  note hits = counter_hits [OF ok t new s, of x]
  show "echoes_now x h \<longleftrightarrow> \<not> phase1_isFinished h \<and>
      card (senders (insert (s, x) E) (BytesToUUID x)) = unat (cfg_f c + 1)"
    unfolding echoes_now_def d hits ..
  show "readies_on_echo x h \<longleftrightarrow> (phase1_isFinished h \<or> echoes_now x h) \<and> \<not> phase2_isFinished h \<and>
      card (senders (insert (s, x) E) (BytesToUUID x)) = unat (cfg_n c - cfg_f c)"
    unfolding readies_on_echo_def d hits ..
qed

lemma handleEcho_progress:
  assumes ok: "byz_ok c" and inv: "brb_local c h E R D" and new: "s \<notin> peersEchoed h" and s: "s \<in> procs c"
  shows "brb_progress c (fst (handleEcho x s h)) (insert (s, x) E) R"
proof -
  let ?E = "insert (s, x) E" and ?h = "fst (handleEcho x s h)"
  have t: "tally c (echoes (brb_data h)) (peersEchoed h) E" and p: "brb_progress c h E R"
    using inv by (auto simp: brb_local_def)
  note trig = echo_triggers [OF ok inv new s, of x]
  have f1: "phase1_isFinished ?h \<longleftrightarrow> phase1_isFinished h \<or> echoes_now x h"
    and f2: "phase2_isFinished ?h \<longleftrightarrow> phase2_isFinished h \<or> readies_on_echo x h"
    using new by (simp_all add: handleEcho_sel)
  have 1: "phase1_isFinished ?h" if w: "weak_quorum c (senders ?E mid)" for mid
  proof (cases "weak_quorum c (senders E mid)")
    case True
    then show ?thesis using p f1 by (auto simp: brb_progress_def)
  next
    case False
    then have "card (senders ?E (BytesToUUID x)) = unat (cfg_f c + 1)"
      using threshold_crossed [OF t new] w by (auto simp: weak_quorum_def)
    then show ?thesis using trig f1 by blast
  qed
  have 2: "phase2_isFinished ?h" if w: "strong_quorum c (senders ?E mid)" for mid
  proof (cases "strong_quorum c (senders E mid)")
    case True
    then show ?thesis using p f2 by (auto simp: brb_progress_def)
  next
    case False
    then have "card (senders ?E (BytesToUUID x)) = unat (cfg_n c - cfg_f c)"
      using threshold_crossed [OF t new] w by (auto simp: strong_quorum_def)
    moreover have "phase1_isFinished ?h" by (rule 1 [OF strong_is_weak [OF ok w]])
    ultimately show ?thesis using trig f1 f2 by blast
  qed
  show ?thesis
    using 1 2 p f1 f2 unfolding brb_progress_def by blast
qed

lemma handleEcho_local:
  assumes ok: "byz_ok c" and inv: "brb_local c h E R D" and new: "s \<notin> peersEchoed h" and s: "s \<in> procs c"
  shows "brb_local c (fst (handleEcho x s h)) (insert (s, x) E) R D"
proof -
  have t: "tally c (echoes (brb_data h)) (peersEchoed h) E"
    and tR: "tally c (readies (brb_data h)) (peersReadied h) R"
    and j: "brb_justified c h E R D" and o: "brb_once h" using inv by (auto simp: brb_local_def)
  note t' = tally_step [OF ok t new s, of x]
  have e: "echoes_now x h \<Longrightarrow> weak_quorum c (senders (insert (s, x) E) (BytesToUUID x))"
    and r: "readies_on_echo x h \<Longrightarrow> strong_quorum c (senders (insert (s, x) E) (BytesToUUID x))"
    using echo_triggers [OF ok inv new s, of x] unfolding weak_quorum_def strong_quorum_def by auto
  have "brb_justified c h (insert (s, x) E) R D"
    by (rule brb_justified_mono [OF ok j _ _ _ tally_senders [OF t'] tally_senders [OF tR]]) auto
  then have "brb_justified c (fst (handleEcho x s h)) (insert (s, x) E) R D"
    using e r unfolding brb_justified_def handleEcho_sel [OF new] by (simp add: ball_Un)
  moreover have "brb_once (fst (handleEcho x s h))"
    using o unfolding brb_once_def handleEcho_sel [OF new] by (auto simp: echoes_now_def readies_on_echo_def)
  ultimately show ?thesis
    using inv new t' handleEcho_progress [OF ok inv new s, of x]
    by (simp add: brb_local_def handleEcho_sel brb_delivered_def)
qed

text \<open>The same for an accepted ready.\<close>

lemma ready_triggers:
  assumes ok: "byz_ok c" and inv: "brb_local c h E R D" and new: "s \<notin> peersReadied h" and s: "s \<in> procs c"
  shows "echoes_on_ready x h \<longleftrightarrow> \<not> phase1_isFinished h \<and>
           card (senders (insert (s, x) R) (BytesToUUID x)) = unat (cfg_f c + 1)"
    and "readies_now x h \<longleftrightarrow> (phase1_isFinished h \<or> echoes_on_ready x h) \<and> \<not> phase2_isFinished h \<and>
           card (senders (insert (s, x) R) (BytesToUUID x)) = unat (cfg_f c + 1)"
    and "delivers_now x h \<longleftrightarrow> (phase1_isFinished h \<or> echoes_on_ready x h) \<and>
           (phase2_isFinished h \<or> readies_now x h) \<and>
           card (senders (insert (s, x) R) (BytesToUUID x)) = unat (cfg_n c - cfg_f c)"
proof -
  have d: "data_n (brb_data h) = cfg_n c" "data_f (brb_data h) = cfg_f c"
    and t: "tally c (readies (brb_data h)) (peersReadied h) R" using inv by (auto simp: brb_local_def)
  note hits = counter_hits [OF ok t new s, of x]
  show "echoes_on_ready x h \<longleftrightarrow> \<not> phase1_isFinished h \<and>
      card (senders (insert (s, x) R) (BytesToUUID x)) = unat (cfg_f c + 1)"
    unfolding echoes_on_ready_def d hits ..
  show "readies_now x h \<longleftrightarrow> (phase1_isFinished h \<or> echoes_on_ready x h) \<and> \<not> phase2_isFinished h \<and>
      card (senders (insert (s, x) R) (BytesToUUID x)) = unat (cfg_f c + 1)"
    unfolding readies_now_def d hits ..
  show "delivers_now x h \<longleftrightarrow> (phase1_isFinished h \<or> echoes_on_ready x h) \<and>
      (phase2_isFinished h \<or> readies_now x h) \<and>
      card (senders (insert (s, x) R) (BytesToUUID x)) = unat (cfg_n c - cfg_f c)"
    unfolding delivers_now_def d hits ..
qed

lemma handleReady_progress:
  assumes ok: "byz_ok c" and inv: "brb_local c h E R D" and new: "s \<notin> peersReadied h" and s: "s \<in> procs c"
  shows "brb_progress c (fst (handleReady x s h)) E (insert (s, x) R)"
proof -
  let ?R = "insert (s, x) R" and ?h = "fst (handleReady x s h)"
  have t: "tally c (readies (brb_data h)) (peersReadied h) R" and p: "brb_progress c h E R"
    using inv by (auto simp: brb_local_def)
  note trig = ready_triggers [OF ok inv new s, of x]
  have f1: "phase1_isFinished ?h \<longleftrightarrow> phase1_isFinished h \<or> echoes_on_ready x h"
    and f2: "phase2_isFinished ?h \<longleftrightarrow> phase2_isFinished h \<or> readies_now x h"
    using new by (simp_all add: handleReady_sel)
  have 1: "phase1_isFinished ?h \<and> phase2_isFinished ?h" if w: "weak_quorum c (senders ?R mid)" for mid
  proof (cases "weak_quorum c (senders R mid)")
    case True
    then show ?thesis using p f1 f2 by (auto simp: brb_progress_def)
  next
    case False
    then have "card (senders ?R (BytesToUUID x)) = unat (cfg_f c + 1)"
      using threshold_crossed [OF t new] w by (auto simp: weak_quorum_def)
    then show ?thesis using trig f1 f2 by blast
  qed
  then show ?thesis
    using p f1 f2 unfolding brb_progress_def by blast
qed

text \<open>
  A delivery happens when the readies for one message become a strong quorum, so a node that
  had delivered before would have two disjoint strong quorums of readies.
\<close>

lemma delivers_first:
  assumes ok: "byz_ok c" and inv: "brb_local c h E R D" and new: "s \<notin> peersReadied h" and s: "s \<in> procs c"
    and d: "delivers_now x h"
  shows "outputChan h = []"
proof (rule ccontr)
  let ?R = "insert (s, x) R"
  assume "outputChan h \<noteq> []"
  then obtain b where "b \<in> set (outputChan h)" by (cases "outputChan h") auto
  have t: "tally c (readies (brb_data h)) (peersReadied h) R" and j: "brb_justified c h E R D"
    using inv by (auto simp: brb_local_def)
  note t' = tally_step [OF ok t new s, of x]
  let ?mid = "BytesToUUID (uuid_bytes (Sender b) @ Content b)"
  have old: "strong_quorum c (senders R ?mid)"
    using j \<open>b \<in> set (outputChan h)\<close> by (auto simp: brb_justified_def)
  have now: "card (senders ?R (BytesToUUID x)) = unat (cfg_n c - cfg_f c)"
    using ready_triggers(3) [OF ok inv new s, of x] d by simp
  then have strong: "strong_quorum c (senders ?R (BytesToUUID x))" by (simp add: strong_quorum_def)
  have old': "strong_quorum c (senders ?R ?mid)"
    by (rule byzq.strong_mono [OF ok old senders_mono tally_senders [OF t']]) auto
  obtain y where "y \<in> senders ?R (BytesToUUID x)" "y \<in> senders ?R ?mid"
    using byzq.strong_strong [OF ok strong old' tally_senders [OF t'] tally_senders [OF t']] by blast
  then have "?mid = BytesToUUID x" using tally_disjoint [OF t'] by blast
  with old have "unat (cfg_n c - cfg_f c) \<le> card (senders R (BytesToUUID x))"
    by (simp add: strong_quorum_def)
  moreover have "s \<notin> senders R (BytesToUUID x)" by (rule counter_step(2) [OF ok t new s])
  ultimately show False using now by (simp add: senders_insert)
qed

lemma handleReady_delivered:
  assumes ok: "byz_ok c" and inv: "brb_local c h E R D" and new: "s \<notin> peersReadied h" and s: "s \<in> procs c"
  shows "brb_delivered c (fst (handleReady x s h)) (insert (s, x) R)"
proof -
  let ?R = "insert (s, x) R" and ?h = "fst (handleReady x s h)"
  let ?out = "\<lambda>m. \<lparr>Content = drop 16 m, Sender = uuid_of (take 16 m)\<rparr>"
  have t: "tally c (readies (brb_data h)) (peersReadied h) R" and del: "brb_delivered c h R"
    using inv by (auto simp: brb_local_def)
  have keep: "set (outputChan h) \<subseteq> set (outputChan ?h)"
    and add: "delivers_now x h \<Longrightarrow> \<not> length x < 16 \<Longrightarrow> ?out x \<in> set (outputChan ?h)"
    using new by (simp_all add: handleReady_sel)
  have "\<exists>y m. (y, m) \<in> ?R \<and> BytesToUUID m = mid \<and> (length m < 16 \<or> ?out m \<in> set (outputChan ?h))"
    if w: "strong_quorum c (senders ?R mid)" for mid
  proof (cases "strong_quorum c (senders R mid)")
    case True
    then show ?thesis using del keep unfolding brb_delivered_def by blast
  next
    case False
    then have mid: "mid = BytesToUUID x" and hit: "card (senders ?R (BytesToUUID x)) = unat (cfg_n c - cfg_f c)"
      using threshold_crossed [OF t new] w by (auto simp: strong_quorum_def)
    have "phase1_isFinished ?h \<and> phase2_isFinished ?h"
      using handleReady_progress [OF ok inv new s, of x] strong_is_weak [OF ok w] by (auto simp: brb_progress_def)
    then have "delivers_now x h"
      using ready_triggers(3) [OF ok inv new s, of x] hit handleReady_sel(7,8) [OF new, of x] by blast
    then show ?thesis using mid add by blast
  qed
  then show ?thesis by (auto simp: brb_delivered_def)
qed

lemma handleReady_local:
  assumes ok: "byz_ok c" and inv: "brb_local c h E R D" and new: "s \<notin> peersReadied h" and s: "s \<in> procs c"
  shows "brb_local c (fst (handleReady x s h)) E (insert (s, x) R) D"
proof -
  have tE: "tally c (echoes (brb_data h)) (peersEchoed h) E"
    and t: "tally c (readies (brb_data h)) (peersReadied h) R"
    and j: "brb_justified c h E R D" and o: "brb_once h" using inv by (auto simp: brb_local_def)
  note t' = tally_step [OF ok t new s, of x]
  have e: "echoes_on_ready x h \<or> readies_now x h \<Longrightarrow> weak_quorum c (senders (insert (s, x) R) (BytesToUUID x))"
    and d: "delivers_now x h \<Longrightarrow> strong_quorum c (senders (insert (s, x) R) (BytesToUUID x))"
    using ready_triggers [OF ok inv new s, of x] unfolding weak_quorum_def strong_quorum_def by auto
  have "brb_justified c h E (insert (s, x) R) D"
    by (rule brb_justified_mono [OF ok j _ _ _ tally_senders [OF tE] tally_senders [OF t']]) auto
  then have "brb_justified c (fst (handleReady x s h)) E (insert (s, x) R) D"
    using e d unfolding brb_justified_def handleReady_sel [OF new] by (simp add: ball_Un)
  moreover have "brb_once (fst (handleReady x s h))"
    using o delivers_first [OF ok inv new s, of x] unfolding brb_once_def handleReady_sel [OF new]
    by (auto simp: echoes_on_ready_def readies_now_def)
  ultimately show ?thesis
    using inv new t' handleReady_progress [OF ok inv new s, of x] handleReady_delivered [OF ok inv new s, of x]
    by (simp add: brb_local_def handleReady_sel)
qed

text \<open>A node only ever adds to its channels.\<close>

lemma handlers_extend:
  "set (echoChan h) \<subseteq> set (echoChan (fst (handleSend x s h)))"
  "set (echoChan h) \<subseteq> set (echoChan (fst (handleEcho x s h)))"
  "set (echoChan h) \<subseteq> set (echoChan (fst (handleReady x s h)))"
  "set (readyChan h) \<subseteq> set (readyChan (fst (handleSend x s h)))"
  "set (readyChan h) \<subseteq> set (readyChan (fst (handleEcho x s h)))"
  "set (readyChan h) \<subseteq> set (readyChan (fst (handleReady x s h)))"
  by (simp_all add: handleSend_sel)
    (cases "s \<in> peersEchoed h"; cases "s \<in> peersReadied h";
      simp add: handleEcho_sel handleEcho_repeated handleReady_sel handleReady_repeated)+

end
