(* ===== verification/BRB_Protocol.thy ===== *)
theory BRB_Protocol
  imports BRB_Node
begin

text \<open>
  A whole instance of reliable broadcast: every correct participant runs the handler of
  \<open>BRB_Instance\<close>; the network delivers messages in any order, any number of times; a message
  received from a correct peer was sent by it, one from a Byzantine peer is arbitrary.  The
  theorems are the properties of Byzantine reliable broadcast: integrity (with the absence of the
  slicing panic), no duplication, agreement, totality and validity.  The identity of a message in
  the code is its truncated SHA-256 digest, so the statements that compare messages assume that
  the messages the correct nodes handled do not collide.
\<close>

section \<open>The network\<close>

record brb_net =
  node :: "uuid \<Rightarrow> brbHandler"
  elog :: "uuid \<Rightarrow> brb_log"
  rlog :: "uuid \<Rightarrow> brb_log"
  slog :: "uuid \<Rightarrow> brb_log"
  bcast :: brb_log

definition brb_init :: "net_cfg \<Rightarrow> brb_net" where
  "brb_init c = \<lparr>node = (\<lambda>_. newBrbHandler (cfg_n c) (cfg_f c)), elog = (\<lambda>_. {}), rlog = (\<lambda>_. {}),
     slog = (\<lambda>_. {}), bcast = {}\<rparr>"

definition recvSend :: "uuid \<Rightarrow> bytes \<Rightarrow> uuid \<Rightarrow> brb_net \<Rightarrow> brb_net" where
  "recvSend p x s S = S\<lparr>node := (node S)(p := fst (handleSend x s (node S p))),
     slog := (slog S)(p := insert (s, x) (slog S p))\<rparr>"

definition recvEcho :: "uuid \<Rightarrow> bytes \<Rightarrow> uuid \<Rightarrow> brb_net \<Rightarrow> brb_net" where
  "recvEcho p x s S = S\<lparr>node := (node S)(p := fst (handleEcho x s (node S p))),
     elog := (elog S)(p := (if s \<in> peersEchoed (node S p) then elog S p else insert (s, x) (elog S p)))\<rparr>"

definition recvReady :: "uuid \<Rightarrow> bytes \<Rightarrow> uuid \<Rightarrow> brb_net \<Rightarrow> brb_net" where
  "recvReady p x s S = S\<lparr>node := (node S)(p := fst (handleReady x s (node S p))),
     rlog := (rlog S)(p := (if s \<in> peersReadied (node S p) then rlog S p else insert (s, x) (rlog S p)))\<rparr>"

inductive brb_step :: "net_cfg \<Rightarrow> brb_net \<Rightarrow> brb_net \<Rightarrow> bool" for c where
  broadcast: "s \<in> correct c \<Longrightarrow> brb_step c S (S\<lparr>bcast := insert (s, x) (bcast S)\<rparr>)"
| send: "\<lbrakk>p \<in> correct c; s \<in> procs c; s \<in> correct c \<longrightarrow> (s, x) \<in> bcast S\<rbrakk>
    \<Longrightarrow> brb_step c S (recvSend p x s S)"
| echo: "\<lbrakk>p \<in> correct c; s \<in> procs c; s \<in> correct c \<longrightarrow> x \<in> set (echoChan (node S s))\<rbrakk>
    \<Longrightarrow> brb_step c S (recvEcho p x s S)"
| ready: "\<lbrakk>p \<in> correct c; s \<in> procs c; s \<in> correct c \<longrightarrow> x \<in> set (readyChan (node S s))\<rbrakk>
    \<Longrightarrow> brb_step c S (recvReady p x s S)"

inductive brb_reach :: "net_cfg \<Rightarrow> brb_net \<Rightarrow> bool" for c where
  init: "brb_reach c (brb_init c)"
| step: "brb_reach c S \<Longrightarrow> brb_step c S T \<Longrightarrow> brb_reach c T"

inductive_simps brb_step_iff: "brb_step c S T"

section \<open>The invariants of a reachable network\<close>

lemma reach_local:
  assumes "brb_reach c S" and ok: "byz_ok c" and "p \<in> correct c"
  shows "brb_local c (node S p) (elog S p) (rlog S p) (slog S p)"
  using assms(1,3)
proof (induction arbitrary: p rule: brb_reach.induct)
  case init
  then show ?case using brb_local_init [OF ok] by (simp add: brb_init_def)
next
  case (step S T)
  from step.hyps(2) step.IH step.prems show ?case
  proof (cases rule: brb_step.cases)
    case (send q s x)
    then show ?thesis using step.IH [OF step.prems] handleSend_local [OF ok step.IH [OF send(2)]]
      by (auto simp: recvSend_def)
  next
    case (echo q s x)
    then show ?thesis
      using step.IH [OF step.prems] handleEcho_local [OF ok step.IH [OF echo(2)]]
      by (auto simp: recvEcho_def handleEcho_repeated)
  next
    case (ready q s x)
    then show ?thesis
      using step.IH [OF step.prems] handleReady_local [OF ok step.IH [OF ready(2)]]
      by (auto simp: recvReady_def handleReady_repeated)
  qed simp
qed

text \<open>What a node logged from a correct peer is what that peer sent.\<close>

definition brb_sent :: "net_cfg \<Rightarrow> brb_net \<Rightarrow> bool" where
  "brb_sent c S \<longleftrightarrow> (\<forall>p s x. s \<in> correct c \<longrightarrow>
     ((s, x) \<in> slog S p \<longrightarrow> (s, x) \<in> bcast S) \<and>
     ((s, x) \<in> elog S p \<longrightarrow> x \<in> set (echoChan (node S s))) \<and>
     ((s, x) \<in> rlog S p \<longrightarrow> x \<in> set (readyChan (node S s))))"

lemma step_extends:
  assumes "brb_step c S T"
  shows "set (echoChan (node S p)) \<subseteq> set (echoChan (node T p))"
    and "set (readyChan (node S p)) \<subseteq> set (readyChan (node T p))"
    and "bcast S \<subseteq> bcast T"
  using assms handlers_extend
  by (cases rule: brb_step.cases; simp add: recvSend_def recvEcho_def recvReady_def subset_insertI)+

text \<open>What is logged after a step was sent before it.\<close>

lemma step_logged:
  assumes step: "brb_step c S T" and sent: "brb_sent c S" and s: "y \<in> correct c"
  shows "(y, z) \<in> elog T p \<Longrightarrow> z \<in> set (echoChan (node S y))"
    and "(y, z) \<in> rlog T p \<Longrightarrow> z \<in> set (readyChan (node S y))"
    and "(y, z) \<in> slog T p \<Longrightarrow> (y, z) \<in> bcast S"
  using step sent s unfolding brb_sent_def
  by (cases rule: brb_step.cases; force simp: recvSend_def recvEcho_def recvReady_def split: if_splits)+

lemma reach_sent:
  assumes "brb_reach c S"
  shows "brb_sent c S"
  using assms
proof (induction rule: brb_reach.induct)
  case init
  show ?case by (simp add: brb_sent_def brb_init_def)
next
  case (step S T)
  show ?case
    using step_logged [OF step.hyps(2) step.IH] step_extends [OF step.hyps(2)]
    unfolding brb_sent_def by blast
qed

section \<open>Evidence behind echoes and readies\<close>

text \<open>Node \<open>x\<close> supports the digest \<open>mid\<close> with its echo.\<close>

definition echoed :: "brb_net \<Rightarrow> uuid \<Rightarrow> uuid \<Rightarrow> bool" where
  "echoed S x mid \<longleftrightarrow> (\<exists>m \<in> set (echoChan (node S x)). BytesToUUID m = mid)"

definition echo_quorum :: "net_cfg \<Rightarrow> brb_net \<Rightarrow> uuid \<Rightarrow> bool" where
  "echo_quorum c S mid \<longleftrightarrow> (\<exists>A. strong_quorum c A \<and> A \<subseteq> procs c \<and>
     (\<forall>x \<in> A. x \<in> correct c \<longrightarrow> echoed S x mid))"

text \<open>The digest is that of a message some correct node received directly from its issuer.\<close>

definition issued :: "net_cfg \<Rightarrow> brb_net \<Rightarrow> uuid \<Rightarrow> bool" where
  "issued c S mid \<longleftrightarrow> (\<exists>q \<in> correct c. \<exists>s x. (s, x) \<in> slog S q \<and> mid = BytesToUUID (uuid_bytes s @ x))"

lemma step_keeps:
  assumes "brb_step c S T"
  shows "echoed S x mid \<Longrightarrow> echoed T x mid"
    and "echo_quorum c S mid \<Longrightarrow> echo_quorum c T mid"
    and "issued c S mid \<Longrightarrow> issued c T mid"
proof -
  show e: "echoed S x mid \<Longrightarrow> echoed T x mid" for x
    using step_extends(1) [OF assms] by (auto simp: echoed_def)
  show "echo_quorum c S mid \<Longrightarrow> echo_quorum c T mid"
    using e unfolding echo_quorum_def by blast
  have "slog S q \<subseteq> slog T q" for q
    using assms by (cases rule: brb_step.cases) (auto simp: recvSend_def recvEcho_def recvReady_def)
  then show "issued c S mid \<Longrightarrow> issued c T mid" unfolding issued_def by blast
qed

lemma reach_ready_evidence:
  assumes "brb_reach c S" and ok: "byz_ok c" and "p \<in> correct c" and "m \<in> set (readyChan (node S p))"
  shows "echo_quorum c S (BytesToUUID m)"
  using assms(1,3,4)
proof (induction arbitrary: p m rule: brb_reach.induct)
  case init
  then show ?case by (simp add: brb_init_def)
next
  case (step S T)
  note logged = step_logged [OF step.hyps(2) reach_sent [OF step.hyps(1)]]
  have loc: "brb_local c (node T p) (elog T p) (rlog T p) (slog T p)"
    using reach_local [OF brb_reach.step [OF step.hyps] ok step.prems(1)] .
  then have sub: "senders (elog T p) mid \<subseteq> procs c" "senders (rlog T p) mid \<subseteq> procs c" for mid
    by (auto simp: brb_local_def dest: tally_senders)
  from loc step.prems(2) consider
      "strong_quorum c (senders (elog T p) (BytesToUUID m))"
    | "weak_quorum c (senders (rlog T p) (BytesToUUID m))"
    by (auto simp: brb_local_def brb_justified_def)
  then show ?case
  proof cases
    case 1
    have "echoed T x (BytesToUUID m)"
      if "x \<in> senders (elog T p) (BytesToUUID m)" "x \<in> correct c" for x
      using logged(1) [OF that(2)] that(1) step_keeps(1) [OF step.hyps(2)]
      by (force simp: senders_def echoed_def)
    then show ?thesis using 1 sub unfolding echo_quorum_def by blast
  next
    case 2
    then obtain y where "y \<in> correct c" "y \<in> senders (rlog T p) (BytesToUUID m)"
      using byzq.weak_correct [OF ok] sub by blast
    then obtain z where "z \<in> set (readyChan (node S y))" "BytesToUUID z = BytesToUUID m"
      using logged(2) by (auto simp: senders_def)
    then show ?thesis
      using step.IH [OF \<open>y \<in> correct c\<close>] step_keeps(2) [OF step.hyps(2)] by metis
  qed
qed

lemma quorum_has_echo:
  assumes "byz_ok c" and "echo_quorum c S mid"
  shows "\<exists>y \<in> correct c. echoed S y mid"
  using byzq.strong_correct [OF assms(1)] assms(2) unfolding echo_quorum_def by blast

lemma reach_echo_evidence:
  assumes "brb_reach c S" and ok: "byz_ok c" and "p \<in> correct c" and "m \<in> set (echoChan (node S p))"
  shows "issued c S (BytesToUUID m)"
  using assms(1,3,4)
proof (induction arbitrary: p m rule: brb_reach.induct)
  case init
  then show ?case by (simp add: brb_init_def)
next
  case (step S T)
  note logged = step_logged [OF step.hyps(2) reach_sent [OF step.hyps(1)]]
  have loc: "brb_local c (node T p) (elog T p) (rlog T p) (slog T p)"
    using reach_local [OF brb_reach.step [OF step.hyps] ok step.prems(1)] .
  then have sub: "senders (elog T p) mid \<subseteq> procs c" "senders (rlog T p) mid \<subseteq> procs c" for mid
    by (auto simp: brb_local_def dest: tally_senders)
  have from_echo: "issued c T mid" if "y \<in> correct c" "echoed S y mid" for y mid
    using that step.IH [OF that(1)] step_keeps(3) [OF step.hyps(2)] by (auto simp: echoed_def)
  from loc step.prems(2) consider
      "\<exists>s x. (s, x) \<in> slog T p \<and> m = uuid_bytes s @ x"
    | "weak_quorum c (senders (elog T p) (BytesToUUID m))"
    | "weak_quorum c (senders (rlog T p) (BytesToUUID m))"
    by (auto simp: brb_local_def brb_justified_def)
  then show ?case
  proof cases
    case 1
    then show ?thesis using step.prems(1) by (auto simp: issued_def)
  next
    case 2
    then obtain y where "y \<in> correct c" "y \<in> senders (elog T p) (BytesToUUID m)"
      using byzq.weak_correct [OF ok] sub by blast
    then show ?thesis using logged(1) from_echo by (force simp: senders_def echoed_def)
  next
    case 3
    then obtain y where y: "y \<in> correct c" "y \<in> senders (rlog T p) (BytesToUUID m)"
      using byzq.weak_correct [OF ok] sub by blast
    then obtain z where "z \<in> set (readyChan (node S y))" "BytesToUUID z = BytesToUUID m"
      using logged(2) by (auto simp: senders_def)
    then have "echo_quorum c S (BytesToUUID m)"
      using reach_ready_evidence [OF step.hyps(1) ok y(1)] by metis
    then show ?thesis using quorum_has_echo [OF ok] from_echo by blast
  qed
qed

end
