(* ===== verification/BRB_Properties.thy ===== *)
theory BRB_Properties
  imports BRB_Protocol
begin

text \<open>
  The correctness of reliable broadcast, stated over the reachable networks of \<open>BRB_Protocol\<close>.
  The last section runs the protocol once on the configuration shipped with the program, as the
  concrete input of the witnesses.
\<close>

section \<open>Vocabulary\<close>

definition brb_bytes :: "BRBMsg \<Rightarrow> bytes" where
  "brb_bytes d = uuid_bytes (Sender d) @ Content d"

text \<open>Every message a correct node has received, sent or delivered.\<close>

definition brb_msgs :: "net_cfg \<Rightarrow> brb_net \<Rightarrow> bytes set" where
  "brb_msgs c S = (\<Union>p \<in> correct c. snd ` elog S p \<union> snd ` rlog S p \<union> (\<lambda>(s, x). uuid_bytes s @ x) ` slog S p
     \<union> brb_bytes ` set (outputChan (node S p)))"

definition collision_free :: "net_cfg \<Rightarrow> brb_net \<Rightarrow> bool" where
  "collision_free c S \<longleftrightarrow> inj_on BytesToUUID (brb_msgs c S)"

text \<open>Every message between correct nodes has arrived.\<close>

definition brb_quiescent :: "net_cfg \<Rightarrow> brb_net \<Rightarrow> bool" where
  "brb_quiescent c S \<longleftrightarrow> (\<forall>p \<in> correct c. \<forall>q \<in> correct c.
     (\<forall>x. (p, x) \<in> bcast S \<longrightarrow> (p, x) \<in> slog S q) \<and>
     (\<forall>x \<in> set (echoChan (node S p)). (p, x) \<in> elog S q) \<and>
     (\<forall>x \<in> set (readyChan (node S p)). (p, x) \<in> rlog S q))"

lemma brb_bytes_inj [simp]: "brb_bytes d = brb_bytes e \<longleftrightarrow> d = e"
  by (auto simp: brb_bytes_def)

lemma brb_bytes_parsed: "\<not> length m < 16 \<Longrightarrow> brb_bytes \<lparr>Content = drop 16 m, Sender = uuid_of (take 16 m)\<rparr> = m"
  by (simp add: brb_bytes_def append_take_drop_id)

lemma parse_brb_bytes: "\<lparr>Content = drop 16 (brb_bytes d), Sender = uuid_of (take 16 (brb_bytes d))\<rparr> = d"
  by (simp add: brb_bytes_def)

section \<open>Consequences of the invariants\<close>

lemma echoed_unique:
  assumes "brb_reach c S" and "byz_ok c" and "x \<in> correct c" and "echoed S x v" and "echoed S x w"
  shows "v = w"
proof -
  have "brb_once (node S x)" using reach_local [OF assms(1-3)] by (simp add: brb_local_def)
  then have "length (echoChan (node S x)) \<le> 1" by (simp add: brb_once_def split: if_splits)
  then show ?thesis using assms(4,5) unfolding echoed_def
    by (cases "echoChan (node S x)") auto
qed

lemma echo_quorum_unique:
  assumes r: "brb_reach c S" and ok: "byz_ok c" and v: "echo_quorum c S v" and w: "echo_quorum c S w"
  shows "v = w"
proof -
  obtain A B where A: "strong_quorum c A" "A \<subseteq> procs c" "\<And>x. x \<in> A \<Longrightarrow> x \<in> correct c \<Longrightarrow> echoed S x v"
    and B: "strong_quorum c B" "B \<subseteq> procs c" "\<And>x. x \<in> B \<Longrightarrow> x \<in> correct c \<Longrightarrow> echoed S x w"
    using v w unfolding echo_quorum_def by auto
  show ?thesis
    by (rule byzq.strong_unique [where supports = "echoed S", OF ok A B]) (auto dest: echoed_unique [OF r ok])
qed

text \<open>The readies a correct node logged from correct peers are backed by an echo quorum.\<close>

lemma ready_senders_evidence:
  assumes r: "brb_reach c S" and ok: "byz_ok c" and p: "p \<in> correct c"
    and w: "weak_quorum c (senders (rlog S p) mid)"
  shows "echo_quorum c S mid"
proof -
  have "senders (rlog S p) mid \<subseteq> procs c"
    using reach_local [OF r ok p] by (auto simp: brb_local_def dest: tally_senders)
  then obtain y where y: "y \<in> correct c" "y \<in> senders (rlog S p) mid"
    using byzq.weak_correct [OF ok w] by blast
  then obtain z where "(y, z) \<in> rlog S p" "BytesToUUID z = mid" by (auto simp: senders_def)
  then have "z \<in> set (readyChan (node S y))" using reach_sent [OF r] y(1) by (auto simp: brb_sent_def)
  then show ?thesis using reach_ready_evidence [OF r ok y(1)] \<open>BytesToUUID z = mid\<close> by blast
qed

lemma delivered_evidence:
  assumes r: "brb_reach c S" and ok: "byz_ok c" and p: "p \<in> correct c" and d: "d \<in> set (outputChan (node S p))"
  shows "strong_quorum c (senders (rlog S p) (BytesToUUID (brb_bytes d)))"
    and "echo_quorum c S (BytesToUUID (brb_bytes d))"
    and "issued c S (BytesToUUID (brb_bytes d))"
proof -
  show strong: "strong_quorum c (senders (rlog S p) (BytesToUUID (brb_bytes d)))"
    using reach_local [OF r ok p] d by (auto simp: brb_local_def brb_justified_def brb_bytes_def)
  show eq: "echo_quorum c S (BytesToUUID (brb_bytes d))"
    by (rule ready_senders_evidence [OF r ok p strong_is_weak [OF ok strong]])
  then obtain y where "y \<in> correct c" "echoed S y (BytesToUUID (brb_bytes d))"
    using quorum_has_echo [OF ok] by blast
  then show "issued c S (BytesToUUID (brb_bytes d))"
    unfolding echoed_def using reach_echo_evidence [OF r ok] by metis
qed

lemma msgs_delivered: "p \<in> correct c \<Longrightarrow> d \<in> set (outputChan (node S p)) \<Longrightarrow> brb_bytes d \<in> brb_msgs c S"
  by (auto simp: brb_msgs_def)

lemma msgs_logged:
  "p \<in> correct c \<Longrightarrow> (s, x) \<in> rlog S p \<Longrightarrow> x \<in> brb_msgs c S"
  "p \<in> correct c \<Longrightarrow> (s, x) \<in> slog S p \<Longrightarrow> uuid_bytes s @ x \<in> brb_msgs c S"
  by (force simp: brb_msgs_def)+

section \<open>Safety\<close>

text \<open>
  C1. Agreement: two messages delivered by correct nodes in one instance are the same message
  from the same issuer, as long as the handled messages have distinct digests.
\<close>

theorem brb_agreement:
  assumes "brb_reach c S" and "byz_ok c" and "collision_free c S"
    and "p \<in> correct c" and "q \<in> correct c"
    and "d \<in> set (outputChan (node S p))" and "e \<in> set (outputChan (node S q))"
  shows "d = e"
proof -
  have "BytesToUUID (brb_bytes d) = BytesToUUID (brb_bytes e)"
    using assms by (intro echo_quorum_unique [OF assms(1,2)] delivered_evidence(2) [OF assms(1,2)])
  then have "brb_bytes d = brb_bytes e"
    using assms msgs_delivered unfolding collision_free_def by (metis inj_onD)
  then show ?thesis by simp
qed

text \<open>
  C10. Integrity: a delivered message was received directly from its issuer by some correct node,
  and if the issuer is correct it did broadcast that message.
\<close>

theorem brb_integrity:
  assumes "brb_reach c S" and "byz_ok c" and "collision_free c S"
    and "p \<in> correct c" and "d \<in> set (outputChan (node S p))"
  shows "(\<exists>q \<in> correct c. (Sender d, Content d) \<in> slog S q) \<and>
    (Sender d \<in> correct c \<longrightarrow> (Sender d, Content d) \<in> bcast S)"
proof -
  obtain q s x where q: "q \<in> correct c" "(s, x) \<in> slog S q"
    and "BytesToUUID (brb_bytes d) = BytesToUUID (uuid_bytes s @ x)"
    using delivered_evidence(3) [OF assms(1,2,4,5)] unfolding issued_def by blast
  then have "brb_bytes d = uuid_bytes s @ x"
    using assms(3-5) msgs_delivered msgs_logged(2) unfolding collision_free_def by (metis inj_onD)
  then have "s = Sender d" "x = Content d" by (auto simp: brb_bytes_def)
  then show ?thesis using q reach_sent [OF assms(1)] by (auto simp: brb_sent_def)
qed

text \<open>No duplication: a correct node delivers at most one message in an instance.\<close>

theorem brb_no_duplication:
  assumes "brb_reach c S" and "byz_ok c" and "p \<in> correct c"
  shows "length (outputChan (node S p)) \<le> 1"
  using reach_local [OF assms] by (simp add: brb_local_def brb_once_def)

text \<open>
  C33. No Byzantine peer can crash a correct node through the message slicing of phase 3: whatever
  ready arrives in a reachable network, handling it does not panic.
\<close>

theorem brb_no_panic:
  assumes r: "brb_reach c S" and ok: "byz_ok c" and p: "p \<in> correct c" and s: "s \<in> procs c"
    and sent: "s \<in> correct c \<longrightarrow> x \<in> set (readyChan (node S s))"
    and cf: "collision_free c (recvReady p x s S)"
  shows "snd (handleReady x s (node S p)) \<noteq> GoPanic"
proof
  let ?T = "recvReady p x s S"
  assume panic: "snd (handleReady x s (node S p)) = GoPanic"
  have step: "brb_step c S ?T" using p s sent by (rule brb_step.ready)
  have reach: "brb_reach c ?T" using r step by (rule brb_reach.step)
  have new: "s \<notin> peersReadied (node S p)" using panic by (auto simp: handleReady_repeated)
  then have now: "delivers_now x (node S p)" and short: "length x < 16"
    using panic by (auto simp: handleReady_new Let_def parseMsg_def split: if_splits)
  have log: "rlog ?T p = insert (s, x) (rlog S p)" using new by (simp add: recvReady_def)
  have "strong_quorum c (senders (rlog ?T p) (BytesToUUID x))"
    using ready_triggers(3) [OF ok reach_local [OF r ok p] new s, of x] now log by (simp add: strong_quorum_def)
  then have "echo_quorum c ?T (BytesToUUID x)"
    by (rule ready_senders_evidence [OF reach ok p strong_is_weak [OF ok]])
  then obtain y where "y \<in> correct c" "echoed ?T y (BytesToUUID x)" using quorum_has_echo [OF ok] by blast
  then have "issued c ?T (BytesToUUID x)"
    unfolding echoed_def using reach_echo_evidence [OF reach ok] by metis
  then obtain q t z where q: "q \<in> correct c" "(t, z) \<in> slog ?T q" "BytesToUUID x = BytesToUUID (uuid_bytes t @ z)"
    unfolding issued_def by blast
  have "x \<in> brb_msgs c ?T" using p log msgs_logged(1) by blast
  then have "x = uuid_bytes t @ z"
    using cf q msgs_logged(2) unfolding collision_free_def by (metis inj_onD)
  with short show False by simp
qed

section \<open>Liveness: what holds once the messages between correct nodes have arrived\<close>

lemma quiescent_ready_everywhere:
  assumes r: "brb_reach c S" and ok: "byz_ok c" and cf: "collision_free c S" and quiet: "brb_quiescent c S"
    and all: "\<And>p. p \<in> correct c \<Longrightarrow> \<exists>m \<in> set (readyChan (node S p)). BytesToUUID m = BytesToUUID (brb_bytes d)"
    and known: "brb_bytes d \<in> brb_msgs c S" and q: "q \<in> correct c"
  shows "d \<in> set (outputChan (node S q))"
proof -
  let ?mid = "BytesToUUID (brb_bytes d)"
  have loc: "brb_local c (node S q) (elog S q) (rlog S q) (slog S q)" by (rule reach_local [OF r ok q])
  have "correct c \<subseteq> senders (rlog S q) ?mid"
    using all quiet q unfolding brb_quiescent_def senders_def by blast
  then have "strong_quorum c (senders (rlog S q) ?mid)"
    using loc by (intro byzq.strong_mono [OF ok byzq.correct_strong [OF ok]])
      (auto simp: brb_local_def dest: tally_senders)
  then obtain s m where m: "(s, m) \<in> rlog S q" "BytesToUUID m = ?mid"
    and out: "length m < 16 \<or> \<lparr>Content = drop 16 m, Sender = uuid_of (take 16 m)\<rparr> \<in> set (outputChan (node S q))"
    using loc unfolding brb_local_def brb_delivered_def by blast
  have "m = brb_bytes d"
    using m cf known msgs_logged(1) [OF q] unfolding collision_free_def by (metis inj_onD)
  moreover have "\<not> length (brb_bytes d) < 16" by (simp add: brb_bytes_def)
  ultimately show ?thesis using out parse_brb_bytes by auto
qed

lemma finished_chan:
  assumes "brb_local c h E R D"
  shows "phase1_isFinished h \<Longrightarrow> \<exists>m. echoChan h = [m]" and "phase2_isFinished h \<Longrightarrow> \<exists>m. readyChan h = [m]"
  using assms by (auto simp: brb_local_def brb_once_def length_Suc_conv)

text \<open>
  C11. Totality: once the messages between correct nodes have arrived, a message delivered by one
  correct node is delivered by all of them.
\<close>

theorem brb_totality:
  assumes r: "brb_reach c S" and ok: "byz_ok c" and cf: "collision_free c S" and quiet: "brb_quiescent c S"
    and p: "p \<in> correct c" and d: "d \<in> set (outputChan (node S p))" and q: "q \<in> correct c"
  shows "d \<in> set (outputChan (node S q))"
proof (rule quiescent_ready_everywhere [OF r ok cf quiet _ msgs_delivered [OF p d] q])
  fix x assume x: "x \<in> correct c"
  let ?mid = "BytesToUUID (brb_bytes d)"
  note ev = delivered_evidence [OF r ok p d]
  have "senders (rlog S p) ?mid \<subseteq> procs c"
    using reach_local [OF r ok p] by (auto simp: brb_local_def dest: tally_senders)
  then have weak: "weak_quorum c (senders (rlog S p) ?mid \<inter> correct c)"
    by (rule byzq.strong_weak [OF ok ev(1)])
  have loc: "brb_local c (node S x) (elog S x) (rlog S x) (slog S x)" by (rule reach_local [OF r ok x])
  have "senders (rlog S p) ?mid \<inter> correct c \<subseteq> senders (rlog S x) ?mid"
    using reach_sent [OF r] quiet x unfolding brb_sent_def brb_quiescent_def senders_def by blast
  then have "weak_quorum c (senders (rlog S x) ?mid)"
    using loc by (intro byzq.weak_mono [OF ok weak]) (auto simp: brb_local_def dest: tally_senders)
  then have "phase2_isFinished (node S x)" using loc by (auto simp: brb_local_def brb_progress_def)
  then obtain m where m: "readyChan (node S x) = [m]" using finished_chan(2) [OF loc] by blast
  then have "BytesToUUID m = ?mid"
    by (intro echo_quorum_unique [OF r ok reach_ready_evidence [OF r ok x] ev(2)]) simp
  with m show "\<exists>m \<in> set (readyChan (node S x)). BytesToUUID m = ?mid" by simp
qed

text \<open>
  C12. Validity: when the only message issued in the instance is \<open>x\<close>, by the correct node \<open>s\<close>, and
  the messages between correct nodes have arrived, every correct node delivers \<open>x\<close> from \<open>s\<close>.
\<close>

theorem brb_validity:
  assumes r: "brb_reach c S" and ok: "byz_ok c" and cf: "collision_free c S" and quiet: "brb_quiescent c S"
    and s: "s \<in> correct c" "(s, x) \<in> bcast S"
    and only: "\<forall>q \<in> correct c. slog S q \<subseteq> {(s, x)}" and q: "q \<in> correct c"
  shows "\<lparr>Content = x, Sender = s\<rparr> \<in> set (outputChan (node S q))"
proof -
  let ?d = "\<lparr>Content = x, Sender = s\<rparr>"
  let ?mid = "BytesToUUID (brb_bytes ?d)"
  have got: "(s, x) \<in> slog S y" if "y \<in> correct c" for y
    using quiet s that unfolding brb_quiescent_def by blast
  have echo: "echoed S y ?mid" if y: "y \<in> correct c" for y
  proof -
    have loc: "brb_local c (node S y) (elog S y) (rlog S y) (slog S y)" by (rule reach_local [OF r ok y])
    then have "phase1_isFinished (node S y)" using got [OF y] by (auto simp: brb_local_def)
    then obtain m where m: "echoChan (node S y) = [m]" using finished_chan(1) [OF loc] by blast
    then have "issued c S (BytesToUUID m)" by (intro reach_echo_evidence [OF r ok y]) simp
    then have "BytesToUUID m = ?mid" using only unfolding issued_def brb_bytes_def by auto
    with m show ?thesis by (simp add: echoed_def)
  qed
  have ready: "\<exists>m \<in> set (readyChan (node S y)). BytesToUUID m = ?mid" if y: "y \<in> correct c" for y
  proof -
    have loc: "brb_local c (node S y) (elog S y) (rlog S y) (slog S y)" by (rule reach_local [OF r ok y])
    have "correct c \<subseteq> senders (elog S y) ?mid"
      using echo quiet y unfolding brb_quiescent_def senders_def echoed_def by blast
    then have "strong_quorum c (senders (elog S y) ?mid)"
      using loc by (intro byzq.strong_mono [OF ok byzq.correct_strong [OF ok]])
        (auto simp: brb_local_def dest: tally_senders)
    then have "phase2_isFinished (node S y)" using loc by (auto simp: brb_local_def brb_progress_def)
    then obtain m where m: "readyChan (node S y) = [m]" using finished_chan(2) [OF loc] by blast
    then have "echo_quorum c S (BytesToUUID m)" by (intro reach_ready_evidence [OF r ok y]) simp
    then obtain z where "z \<in> correct c" "echoed S z (BytesToUUID m)" using quorum_has_echo [OF ok] by blast
    then have "BytesToUUID m = ?mid" using echoed_unique [OF r ok] echo by blast
    with m show ?thesis by simp
  qed
  have known: "brb_bytes ?d \<in> brb_msgs c S" using msgs_logged(2) [OF s(1) got [OF s(1)]] by (simp add: brb_bytes_def)
  show ?thesis by (rule quiescent_ready_everywhere [OF r ok cf quiet _ known q]) (rule ready)
qed

section \<open>A run of the protocol\<close>

datatype brb_event =
    EvBroadcast uuid bytes
  | EvSend uuid bytes uuid
  | EvEcho uuid bytes uuid
  | EvReady uuid bytes uuid

fun brb_enabled :: "net_cfg \<Rightarrow> brb_net \<Rightarrow> brb_event \<Rightarrow> bool" where
  "brb_enabled c S (EvBroadcast s x) \<longleftrightarrow> s \<in> correct c"
| "brb_enabled c S (EvSend p x s) \<longleftrightarrow> p \<in> correct c \<and> s \<in> procs c \<and> (s \<in> correct c \<longrightarrow> (s, x) \<in> bcast S)"
| "brb_enabled c S (EvEcho p x s) \<longleftrightarrow> p \<in> correct c \<and> s \<in> procs c \<and>
     (s \<in> correct c \<longrightarrow> x \<in> set (echoChan (node S s)))"
| "brb_enabled c S (EvReady p x s) \<longleftrightarrow> p \<in> correct c \<and> s \<in> procs c \<and>
     (s \<in> correct c \<longrightarrow> x \<in> set (readyChan (node S s)))"

fun brb_apply :: "brb_event \<Rightarrow> brb_net \<Rightarrow> brb_net" where
  "brb_apply (EvBroadcast s x) S = S\<lparr>bcast := insert (s, x) (bcast S)\<rparr>"
| "brb_apply (EvSend p x s) S = recvSend p x s S"
| "brb_apply (EvEcho p x s) S = recvEcho p x s S"
| "brb_apply (EvReady p x s) S = recvReady p x s S"

fun brb_exec :: "net_cfg \<Rightarrow> brb_event list \<Rightarrow> brb_net \<Rightarrow> brb_net option" where
  "brb_exec c [] S = Some S"
| "brb_exec c (e # es) S = (if brb_enabled c S e then brb_exec c es (brb_apply e S) else None)"

lemma brb_enabled_step: "brb_enabled c S e \<Longrightarrow> brb_step c S (brb_apply e S)"
  by (cases e) (auto intro: brb_step.intros)

lemma brb_exec_reach: "brb_reach c S \<Longrightarrow> brb_exec c es S = Some T \<Longrightarrow> brb_reach c T"
  by (induction es arbitrary: S) (auto split: if_splits intro: brb_reach.step brb_enabled_step)

lemma brb_exec_append:
  "brb_exec c es S = Some T \<Longrightarrow> brb_exec c (es @ fs) S = brb_exec c fs T"
  by (induction es arbitrary: S) (auto split: if_splits)

text \<open>Node 1 broadcasts one byte; the three correct nodes exchange every message.\<close>

definition demo_msg :: bytes where
  "demo_msg = uuid_bytes (uid 1) @ [7]"

definition demo_peers :: "uuid list" where
  "demo_peers = [uid 1, uid 2, uid 3]"

definition demo_sends :: "brb_event list" where
  "demo_sends = EvBroadcast (uid 1) [7] # map (\<lambda>p. EvSend p [7] (uid 1)) demo_peers"

definition demo_echoes :: "brb_event list" where
  "demo_echoes = concat (map (\<lambda>p. map (EvEcho p demo_msg) demo_peers) demo_peers)"

definition demo_readies :: "brb_event list" where
  "demo_readies = concat (map (\<lambda>p. map (EvReady p demo_msg) demo_peers) demo_peers)"

text \<open>The network after the sends (stage 1), the echoes (stage 2) and the readies (stage 3).\<close>

definition demo_node :: "nat \<Rightarrow> brbHandler" where
  "demo_node k =
     \<lparr>brb_data = \<lparr>data_n = 4, data_f = 1,
        echoes = (if k < 2 then Map.empty else [BytesToUUID demo_msg \<mapsto> 3]),
        readies = (if k < 3 then Map.empty else [BytesToUUID demo_msg \<mapsto> 3])\<rparr>,
      peersEchoed = (if k < 2 then {} else set demo_peers),
      peersReadied = (if k < 3 then {} else set demo_peers),
      phase1_isFinished = True, phase2_isFinished = (2 \<le> k), echoChan = [demo_msg],
      readyChan = (if k < 2 then [] else [demo_msg]),
      outputChan = (if k < 3 then [] else [\<lparr>Content = [7], Sender = uid 1\<rparr>])\<rparr>"

definition demo_log :: "bool \<Rightarrow> uuid \<Rightarrow> brb_log" where
  "demo_log b p = (if b \<and> p \<in> set demo_peers
     then {(uid 1, demo_msg), (uid 2, demo_msg), (uid 3, demo_msg)} else {})"

definition demo_net :: "nat \<Rightarrow> brb_net" where
  "demo_net k = \<lparr>node = (\<lambda>p. if p \<in> set demo_peers then demo_node k else newBrbHandler 4 1),
     elog = demo_log (2 \<le> k), rlog = demo_log (3 \<le> k),
     slog = (\<lambda>p. if p \<in> set demo_peers then {(uid 1, [7])} else {}), bcast = {(uid 1, [7])}\<rparr>"

lemmas demo_defs = demo_peers_def demo_net_def demo_node_def demo_log_def

lemma demo_parse: "parseMsg demo_msg = Some (uid 1, [7])"
  by (simp add: parseMsg_def demo_msg_def)

lemma demo_stage1: "brb_exec default_cfg demo_sends (brb_init default_cfg) = Some (demo_net 1)"
  by (simp add: demo_sends_def brb_init_def recvSend_def brb_defs newBrbHandler_def demo_defs
      demo_msg_def fun_eq_iff)

lemma demo_stage2: "brb_exec default_cfg demo_echoes (demo_net 1) = Some (demo_net 2)"
  by (simp add: demo_echoes_def recvEcho_def brb_defs newBrbHandler_def demo_defs fun_eq_iff insert_commute)

lemma demo_stage3: "brb_exec default_cfg demo_readies (demo_net 2) = Some (demo_net 3)"
  by (simp add: demo_readies_def recvReady_def brb_defs newBrbHandler_def demo_defs fun_eq_iff
      insert_commute demo_parse)

lemma demo_reach2: "brb_reach default_cfg (demo_net 2)"
  by (rule brb_exec_reach [OF brb_exec_reach [OF brb_reach.init demo_stage1] demo_stage2])

lemma demo_reach3: "brb_reach default_cfg (demo_net 3)"
  by (rule brb_exec_reach [OF demo_reach2 demo_stage3])

lemma demo_collision_free: "collision_free default_cfg (demo_net 3)"
  by (simp add: collision_free_def brb_msgs_def demo_defs brb_bytes_def demo_msg_def)

lemma demo_quiescent: "brb_quiescent default_cfg (demo_net 3)"
  by (simp add: brb_quiescent_def demo_defs)

lemma demo_output: "p \<in> correct default_cfg \<Longrightarrow> outputChan (node (demo_net 3) p) = [\<lparr>Content = [7], Sender = uid 1\<rparr>]"
  by (auto simp: demo_defs)

lemma demo_slog: "p \<in> correct default_cfg \<Longrightarrow> slog (demo_net 3) p = {(uid 1, [7])}"
  by (auto simp: demo_defs)

section \<open>Witnesses\<close>

theorem brb_agreement_witness:
  "hd (outputChan (node (demo_net 3) (uid 1))) = hd (outputChan (node (demo_net 3) (uid 2)))"
  by (rule brb_agreement [OF demo_reach3 default_cfg_ok demo_collision_free, of "uid 1" "uid 2"])
    (simp_all add: demo_output)

theorem brb_integrity_witness:
  "\<lparr>Content = [7], Sender = uid 1\<rparr> \<in> set (outputChan (node (demo_net 3) (uid 2))) \<and> (uid 1, [7]) \<in> bcast (demo_net 3)"
  using brb_integrity [OF demo_reach3 default_cfg_ok demo_collision_free,
      of "uid 2" "\<lparr>Content = [7], Sender = uid 1\<rparr>"]
  by (simp add: demo_output)

theorem brb_no_duplication_witness: "length (outputChan (node (demo_net 3) (uid 3))) \<le> 1"
  by (rule brb_no_duplication [OF demo_reach3 default_cfg_ok]) simp

theorem brb_no_panic_witness: "snd (handleReady demo_msg (uid 4) (node (demo_net 2) (uid 1))) \<noteq> GoPanic"
  by (rule brb_no_panic [OF demo_reach2 default_cfg_ok])
    (simp_all add: collision_free_def brb_msgs_def demo_defs recvReady_def handleReady_sel demo_msg_def
      brb_bytes_def delivers_now_def counted_def)

theorem brb_totality_witness:
  "\<lparr>Content = [7], Sender = uid 1\<rparr> \<in> set (outputChan (node (demo_net 3) (uid 3)))"
  by (rule brb_totality [OF demo_reach3 default_cfg_ok demo_collision_free demo_quiescent, of "uid 1"])
    (simp_all add: demo_output)

theorem brb_validity_witness:
  "\<lparr>Content = [7], Sender = uid 1\<rparr> \<in> set (outputChan (node (demo_net 3) (uid 2)))"
  by (rule brb_validity [OF demo_reach3 default_cfg_ok demo_collision_free demo_quiescent])
    (simp_all add: demo_slog, simp add: demo_net_def)

end
