(* ===== verification/Overlay_Network.thy ===== *)
theory Overlay_Network
  imports Utils
begin

text \<open>
  The overlay network of \<^verbatim>\<open>overlayNetwork/\<close>: the length-prefixed frames of \<^verbatim>\<open>msg.go\<close>, the peers
  and the message dispatch of \<^verbatim>\<open>peer.go\<close> and \<^verbatim>\<open>node.go\<close>, and the best-effort broadcast channel
  of \<^verbatim>\<open>bebChannel.go\<close>.  A connection is the bytes written to it; what a peer reads from one is the
  stream of bytes that arrives before the connection closes.  Dialling (\<^verbatim>\<open>tls.Dial\<close>) is the
  parameter \<open>dial\<close>: it gives a connection handle and the certified keys of the other end, or fails.
  A goroutine that the node starts for a message is an entry of \<open>tasks\<close>, run later in any
  order; \<open>connecting\<close> are the connections whose \<^verbatim>\<open>maintainConnection\<close> was started.
\<close>

section \<open>Frames\<close>

record conn =
  conn_open :: bool
  conn_sent :: bytes

datatype 'pk net_error =
    UnableToFlush
  | NotJoined
  | AlreadyJoined
  | UnableToDial
  | UnableToSendName
  | NoCertificates
  | PeerKeyError "'pk key_error"
  | UnableToConnectToContact "'pk net_error"
  | UnableToSendMembership "'pk net_error"
  | UnableToUnicastSelf "'pk net_error"
  | UnableToMakeCommitment
  | UnableToWrapMessage
  | UnableToReceiveName
  | UnableToBroadcast "'pk net_error"

definition send_frame :: "bytes \<Rightarrow> bytes" where
  "send_frame msg = put_uint32 (of_nat (length msg)) @ msg"

text \<open>
  The buffer is large enough for the whole frame, so the connection is written to by \<^verbatim>\<open>Flush\<close> only.
\<close>

definition send :: "conn \<Rightarrow> bytes \<Rightarrow> conn \<times> 'pk net_error outcome" where
  "send c msg =
     (if conn_open c then (c\<lparr>conn_sent := conn_sent c @ send_frame msg\<rparr>, GoNil)
      else (c, GoErr UnableToFlush))"

datatype recv_error = ConnClose read_error | ShortFrame read_error

text \<open>One call of \<^verbatim>\<open>receive\<close> on the bytes that are still to come, and what it leaves of them.\<close>

definition receive :: "bytes \<Rightarrow> (recv_error + bytes) \<times> bytes" where
  "receive stream =
     (case read_full 4 stream of
        Inl e \<Rightarrow> (Inl (ConnClose e), [])
      | Inr (hdr, r) \<Rightarrow>
          let len = unat (get_uint32 hdr)
          in if length r < len then (Inl (ShortFrame (if r = [] then EOF else UnexpectedEOF)), [])
             else (Inr (take len r), drop len r))"

definition isConnectionClosed :: "recv_error \<Rightarrow> bool" where
  "isConnectionClosed e = (case e of ConnClose _ \<Rightarrow> True | ShortFrame _ \<Rightarrow> False)"

lemma receive_shorter: "receive stream = (Inr msg, rest) \<Longrightarrow> length rest < length stream"
  by (auto simp: receive_def read_full_def Let_def split: if_splits sum.splits)

lemma receive_error_rest: "receive stream = (Inl e, rest) \<Longrightarrow> rest = []"
  by (auto simp: receive_def Let_def split: if_splits sum.splits)

lemma receive_nil: "receive [] = (Inl (ConnClose EOF), [])"
  by (simp add: receive_def read_full_def)

lemma receive_send_frame:
  assumes "length msg < 2 ^ 32"
  shows "receive (send_frame msg @ r) = (Inr msg, r)"
proof -
  have "unat (get_uint32 (put_uint32 (of_nat (length msg)))) = length msg"
    using assms get_put_uint32 [of "of_nat (length msg)" "[]"] by (simp add: unat_of_nat)
  then show ?thesis by (simp add: receive_def send_frame_def read_full_append put_uint_nonempty)
qed

text \<open>The loop of \<^verbatim>\<open>readFromConnection\<close>: the messages for which a goroutine is started.\<close>

function readFrames :: "bytes \<Rightarrow> bytes list" where
  "readFrames stream =
     (case receive stream of
        (Inl e, r) \<Rightarrow> if isConnectionClosed e then [] else readFrames r
      | (Inr msg, r) \<Rightarrow> msg # readFrames r)"
  by auto

termination readFrames
proof (relation "measure length", goal_cases)
  case (2 stream p e r)
  then show ?case
    by (auto simp: receive_def read_full_def isConnectionClosed_def Let_def split: if_splits sum.splits)
next
  case (3 stream p msg r)
  then show ?case using receive_shorter by (metis in_measure)
qed simp

declare readFrames.simps [simp del]

lemma readFrames_nil [simp]: "readFrames [] = []"
  by (simp add: readFrames.simps receive_nil isConnectionClosed_def)

lemma readFrames_frame:
  "length msg < 2 ^ 32 \<Longrightarrow> readFrames (send_frame msg @ r) = msg # readFrames r"
  by (subst readFrames.simps) (simp add: receive_send_frame)

lemma readFrames_frames:
  "\<forall>m \<in> set msgs. length m < 2 ^ 32 \<Longrightarrow> readFrames (concat (map send_frame msgs)) = msgs"
  by (induction msgs) (auto simp: readFrames_frame)

section \<open>Nodes and peers\<close>

text \<open>The key of a certificate: the type assertion of the code accepts ECDSA keys only.\<close>

datatype 'pk cert_key = ECDSA 'pk | OtherKey

text \<open>A peer; the zero value, returned with an error, has no connection and no key.\<close>

record 'pk peer =
  peer_conn :: "nat option"
  peer_name :: bytes
  peer_pk :: "'pk option"
  peer_pkId :: uuid

definition zero_peer :: "'pk peer" where
  "zero_peer = \<lparr>peer_conn = None, peer_name = [], peer_pk = None, peer_pkId = uid 0\<rparr>"

record 'pk BEBMsg =
  beb_Content :: bytes
  beb_Sender :: 'pk

text \<open>An observer is the channel attached under a listening code; \<open>bebChan\<close> is what it delivered.\<close>

record 'pk BEBChannel =
  listenCode :: byte
  bebChan :: "'pk BEBMsg list"

record 'pk node =
  address :: bytes
  contact :: bytes
  hasJoined :: bool
  peers :: "'pk peer list"
  msgObservers :: "'pk BEBChannel list"
  memChan :: nat
  node_pk :: 'pk
  conns :: "nat \<Rightarrow> conn"
  tasks :: "(bytes \<times> 'pk) list"
  connecting :: "('pk peer \<times> bool) list"

type_synonym 'pk dial = "bytes \<Rightarrow> (nat \<times> 'pk cert_key list) option"

definition membership :: byte where "membership = 65"
definition generic :: byte where "generic = 66"

lemma membership_not_generic [simp]: "membership \<noteq> generic" "generic \<noteq> membership"
  by (simp_all add: membership_def generic_def)

definition newNode :: "bytes \<Rightarrow> bytes \<Rightarrow> 'pk \<Rightarrow> 'pk node" where
  "newNode addr cont pk = \<lparr>address = addr, contact = cont, hasJoined = False, peers = [],
     msgObservers = [], memChan = 0, node_pk = pk, conns = (\<lambda>_. \<lparr>conn_open = False, conn_sent = []\<rparr>),
     tasks = [], connecting = []\<rparr>"

definition attachMessageObserver :: "'pk BEBChannel \<Rightarrow> 'pk node \<Rightarrow> 'pk node" where
  "attachMessageObserver obs nd = nd\<lparr>msgObservers := msgObservers nd @ [obs]\<rparr>"

text \<open>
  \<^verbatim>\<open>WaitForPeers\<close> takes one token per peer from \<^verbatim>\<open>memChan\<close>; \<open>memChan\<close> counts the goroutines that wait to hand
  over theirs.
\<close>

definition WaitForPeers :: "uint \<Rightarrow> 'pk node \<Rightarrow> 'pk node \<times> 'pk net_error outcome" where
  "WaitForPeers numPeers nd =
     (if unat numPeers \<le> memChan nd then (nd\<lparr>memChan := memChan nd - unat numPeers\<rparr>, GoNil)
      else (nd\<lparr>memChan := 0\<rparr>, GoBlocked))"

definition NewBEBChannel :: "byte \<Rightarrow> 'pk node \<Rightarrow> 'pk node" where
  "NewBEBChannel code nd = attachMessageObserver \<lparr>listenCode = code, bebChan = []\<rparr> nd"

definition sendOn :: "nat \<Rightarrow> bytes \<Rightarrow> 'pk node \<Rightarrow> 'pk node \<times> 'pk net_error outcome" where
  "sendOn k msg nd = (let (c, r) = send (conns nd k) msg in (nd\<lparr>conns := (conns nd)(k := c)\<rparr>, r))"

definition getPeers :: "'pk node \<Rightarrow> 'pk peer list" where
  "getPeers nd = peers nd"

definition updatePeers :: "'pk peer \<Rightarrow> 'pk node \<Rightarrow> 'pk node" where
  "updatePeers p nd = nd\<lparr>peers := peers nd @ [p]\<rparr>"

definition forgetPeer :: "'pk peer \<Rightarrow> 'pk node \<Rightarrow> 'pk node" where
  "forgetPeer rem nd = nd\<lparr>peers := filter (\<lambda>p. peer_name rem \<noteq> peer_name p) (peers nd)\<rparr>"

text \<open>Closing a nil connection is a nil dereference.\<close>

definition closeConnection :: "'pk peer \<Rightarrow> 'pk node \<Rightarrow> 'pk node \<times> 'pk net_error outcome" where
  "closeConnection p nd =
     (case peer_conn p of
        None \<Rightarrow> (nd, GoPanic)
      | Some k \<Rightarrow> (forgetPeer p (nd\<lparr>conns := (conns nd)(k := (conns nd k)\<lparr>conn_open := False\<rparr>)\<rparr>), GoNil))"

fun closeConns :: "'pk peer list \<Rightarrow> 'pk node \<Rightarrow> 'pk node \<times> 'pk net_error outcome" where
  "closeConns [] nd = (nd, GoNil)"
| "closeConns (p # ps) nd =
     (case peer_conn p of
        None \<Rightarrow> (nd, GoPanic)
      | Some k \<Rightarrow> closeConns ps (nd\<lparr>conns := (conns nd)(k := (conns nd k)\<lparr>conn_open := False\<rparr>)\<rparr>))"

definition closeAllConnections :: "'pk node \<Rightarrow> 'pk node \<times> 'pk net_error outcome" where
  "closeAllConnections nd = and_then (closeConns (peers nd) nd) (\<lambda>nd. (nd\<lparr>peers := []\<rparr>, GoNil))"

text \<open>
  An outbound connection: dial, send the own address, read the key from the first certificate.
  The result is the zero peer with every error.
\<close>

definition newOutbound ::
  "('pk \<Rightarrow> bytes option) \<Rightarrow> 'pk dial \<Rightarrow> bytes \<Rightarrow> 'pk node \<Rightarrow> ('pk node \<times> 'pk peer) \<times> 'pk net_error outcome"
where
  "newOutbound serialize dial addr nd =
     (case dial addr of
        None \<Rightarrow> ((nd, zero_peer), GoErr UnableToDial)
      | Some (k, certs) \<Rightarrow>
          (case sendOn k (address nd) (nd\<lparr>conns := (conns nd)(k := \<lparr>conn_open = True, conn_sent = []\<rparr>)\<rparr>) of
             (nd1, GoNil) \<Rightarrow>
               (case certs of
                  [] \<Rightarrow> ((nd1, zero_peer), GoErr NoCertificates)
                | OtherKey # _ \<Rightarrow> ((nd1, zero_peer), GoPanic)
                | ECDSA pk # _ \<Rightarrow>
                    (case PkToUUID serialize pk of
                       Inl e \<Rightarrow> ((nd1, zero_peer), GoErr (PeerKeyError e))
                     | Inr i \<Rightarrow> ((nd1, \<lparr>peer_conn = Some k, peer_name = addr, peer_pk = Some pk, peer_pkId = i\<rparr>), GoNil)))
           | (nd1, _) \<Rightarrow> ((nd1, zero_peer), GoErr UnableToSendName)))"

text \<open>An accepted connection \<open>k\<close> whose other end sends \<open>stream\<close>: its name, then its messages.\<close>

definition getInbound ::
  "('pk \<Rightarrow> bytes option) \<Rightarrow> nat \<Rightarrow> 'pk cert_key list \<Rightarrow> bytes
    \<Rightarrow> ('pk peer \<times> bytes) \<times> 'pk net_error outcome"
where
  "getInbound serialize k certs stream =
     (case receive stream of
        (Inl e, r) \<Rightarrow> ((zero_peer, r), GoErr UnableToReceiveName)
      | (Inr name, r) \<Rightarrow>
          (case certs of
             [] \<Rightarrow> ((zero_peer, r), GoErr NoCertificates)
           | OtherKey # _ \<Rightarrow> ((zero_peer, r), GoPanic)
           | ECDSA pk # _ \<Rightarrow>
               (case PkToUUID serialize pk of
                  Inl e \<Rightarrow> ((zero_peer, r), GoErr (PeerKeyError e))
                | Inr i \<Rightarrow> ((\<lparr>peer_conn = Some k, peer_name = name, peer_pk = Some pk, peer_pkId = i\<rparr>, r), GoNil))))"

fun sendMembers :: "'pk peer \<Rightarrow> 'pk peer list \<Rightarrow> 'pk node \<Rightarrow> 'pk node \<times> 'pk net_error outcome" where
  "sendMembers p [] nd = (nd, GoNil)"
| "sendMembers p (q # qs) nd =
     (if peer_name q \<noteq> peer_name p
      then (case peer_conn p of
              None \<Rightarrow> (nd, GoPanic)
            | Some k \<Rightarrow> and_then (wrap_err UnableToSendMembership (sendOn k (membership # peer_name q) nd))
                          (sendMembers p qs))
      else sendMembers p qs nd)"

definition sendMembership :: "'pk peer \<Rightarrow> 'pk node \<Rightarrow> 'pk node \<times> 'pk net_error outcome" where
  "sendMembership p nd = sendMembers p (peers nd) nd"

text \<open>
  The reading loop: one goroutine per frame, until the connection closes and the peer is forgotten.
  Reading from a nil connection is a nil dereference.
\<close>

definition readFromConnection :: "'pk peer \<Rightarrow> bytes \<Rightarrow> 'pk node \<Rightarrow> 'pk node \<times> 'pk net_error outcome" where
  "readFromConnection p stream nd =
     (case (peer_conn p, peer_pk p) of
        (Some k, Some pk) \<Rightarrow>
          (forgetPeer p (nd\<lparr>tasks := tasks nd @ map (\<lambda>m. (m, pk)) (readFrames stream)\<rparr>), GoNil)
      | _ \<Rightarrow> (nd, GoPanic))"

text \<open>
  The start of \<^verbatim>\<open>maintainConnection\<close>, up to the point where the goroutine waits for the first
  frame: a failure to send the membership closes the connection (the deferred call), and the first
  read of a nil connection panics.
\<close>

definition maintainConnection ::
  "'pk peer \<Rightarrow> bool \<Rightarrow> 'pk node \<Rightarrow> 'pk node \<times> 'pk net_error outcome"
where
  "maintainConnection p amContact nd =
     (let nd0 = updatePeers p nd
      in case (if amContact then sendMembership p nd0 else (nd0, GoNil)) of
           (nd1, GoNil) \<Rightarrow>
             (nd1\<lparr>memChan := memChan nd1 + 1\<rparr>, if peer_conn p = None then GoPanic else GoNil)
         | (nd1, GoErr e) \<Rightarrow> closeConnection p nd1
         | (nd1, r) \<Rightarrow> (nd1, r))"

text \<open>The rest of it: the frames until the connection closes, then the deferred call.\<close>

definition finishConnection :: "'pk peer \<Rightarrow> bytes \<Rightarrow> 'pk node \<Rightarrow> 'pk node \<times> 'pk net_error outcome" where
  "finishConnection p stream nd = and_then (readFromConnection p stream nd) (closeConnection p)"

text \<open>
  \<^verbatim>\<open>processMembershipMsg\<close> logs a failed connection and then maintains the peer it was handed,
  which is the zero peer.
\<close>

definition processMembershipMsg ::
  "('pk \<Rightarrow> bytes option) \<Rightarrow> 'pk dial \<Rightarrow> bytes \<Rightarrow> 'pk node \<Rightarrow> 'pk node \<times> 'pk net_error outcome"
where
  "processMembershipMsg serialize dial msg nd =
     (case newOutbound serialize dial msg nd of
        ((nd1, p), GoPanic) \<Rightarrow> (nd1, GoPanic)
      | ((nd1, p), _) \<Rightarrow> maintainConnection p False nd1)"

definition connectToContact ::
  "('pk \<Rightarrow> bytes option) \<Rightarrow> 'pk dial \<Rightarrow> 'pk node \<Rightarrow> 'pk node \<times> 'pk net_error outcome"
where
  "connectToContact serialize dial nd =
     (case newOutbound serialize dial (contact nd) nd of
        ((nd1, p), GoNil) \<Rightarrow> (nd1\<lparr>connecting := connecting nd1 @ [(p, False)]\<rparr>, GoNil)
      | ((nd1, p), GoErr e) \<Rightarrow> (nd1, GoErr (UnableToConnectToContact e))
      | ((nd1, p), r) \<Rightarrow> (nd1, r))"

definition Join ::
  "('pk \<Rightarrow> bytes option) \<Rightarrow> 'pk dial \<Rightarrow> 'pk node \<Rightarrow> 'pk node \<times> 'pk net_error outcome"
where
  "Join serialize dial nd =
     (if hasJoined nd then (nd, GoErr AlreadyJoined)
      else and_then
        (if address nd \<noteq> contact nd
         then wrap_err UnableToConnectToContact (connectToContact serialize dial nd)
         else (nd, GoNil))
        (\<lambda>nd. (nd\<lparr>hasJoined := True\<rparr>, GoNil)))"

text \<open>One turn of the accept loop: the connection \<open>k\<close> comes in.\<close>

definition acceptConnection ::
  "('pk \<Rightarrow> bytes option) \<Rightarrow> bool \<Rightarrow> nat \<Rightarrow> 'pk cert_key list \<Rightarrow> bytes \<Rightarrow> 'pk node
    \<Rightarrow> 'pk node \<times> 'pk net_error outcome"
where
  "acceptConnection serialize amContact k certs stream nd =
     (case getInbound serialize k certs stream of
        ((p, r), GoNil) \<Rightarrow> (nd\<lparr>connecting := connecting nd @ [(p, amContact)]\<rparr>, GoNil)
      | ((p, r), GoPanic) \<Rightarrow> (nd, GoPanic)
      | ((p, r), _) \<Rightarrow> (nd, GoNil))"

section \<open>Best-effort broadcast\<close>

definition unicast :: "bytes \<Rightarrow> nat \<Rightarrow> 'pk node \<Rightarrow> 'pk node \<times> 'pk net_error outcome" where
  "unicast msg k nd =
     (if \<not> hasJoined nd then (nd, GoErr NotJoined)
      else (fst (sendOn k (generic # msg) nd :: 'pk node \<times> 'pk net_error outcome), GoNil))"

definition unicastSelf :: "bytes \<Rightarrow> 'pk node \<Rightarrow> 'pk node \<times> 'pk net_error outcome" where
  "unicastSelf msg nd =
     (if \<not> hasJoined nd then (nd, GoErr NotJoined)
      else (nd\<lparr>tasks := tasks nd @ [(generic # msg, node_pk nd)]\<rparr>, GoNil))"

text \<open>The loop over the peers: errors are logged; a peer without a connection is a nil dereference.\<close>

fun unicastAll :: "bytes \<Rightarrow> 'pk peer list \<Rightarrow> 'pk node \<Rightarrow> 'pk node \<times> 'pk net_error outcome" where
  "unicastAll msg [] nd = (nd, GoNil)"
| "unicastAll msg (p # ps) nd =
     (case peer_conn p of
        None \<Rightarrow> if hasJoined nd then (nd, GoPanic) else unicastAll msg ps nd
      | Some k \<Rightarrow> unicastAll msg ps (fst (unicast msg k nd)))"

definition BEBroadcast :: "byte \<Rightarrow> bytes \<Rightarrow> 'pk node \<Rightarrow> 'pk node \<times> 'pk net_error outcome" where
  "BEBroadcast code msg nd =
     (let wrapped = code # msg; ps = getPeers nd
      in and_then (unicastSelf wrapped nd) (unicastAll wrapped ps))"

definition bebDeliver :: "bytes \<Rightarrow> 'pk \<Rightarrow> 'pk BEBChannel \<Rightarrow> 'pk BEBChannel \<times> 'pk net_error outcome" where
  "bebDeliver msg sender b =
     (case msg of
        [] \<Rightarrow> (b, GoPanic)
      | code # content \<Rightarrow>
          if code = listenCode b
          then (b\<lparr>bebChan := bebChan b @ [\<lparr>beb_Content = content, beb_Sender = sender\<rparr>]\<rparr>, GoNil)
          else (b, GoNil))"

definition processMessage ::
  "('pk \<Rightarrow> bytes option) \<Rightarrow> 'pk dial \<Rightarrow> bytes \<Rightarrow> 'pk \<Rightarrow> 'pk node \<Rightarrow> 'pk node \<times> 'pk net_error outcome"
where
  "processMessage serialize dial msg sender nd =
     (case msg of
        [] \<Rightarrow> (nd, GoPanic)
      | msgType # content \<Rightarrow>
          if msgType = membership then processMembershipMsg serialize dial content nd
          else if msgType = generic
          then (let obs = map (bebDeliver content sender) (msgObservers nd)
                in (nd\<lparr>msgObservers := map fst obs\<rparr>, if GoPanic \<in> snd ` set obs then GoPanic else GoNil))
          else (nd, GoNil))"

text \<open>The identifiers of the node and of its peers; a peer without a key is a nil dereference.\<close>

definition GetId :: "('pk \<Rightarrow> bytes option) \<Rightarrow> 'pk node \<Rightarrow> 'pk key_error + uuid" where
  "GetId serialize nd = PkToUUID serialize (node_pk nd)"

fun peerIds :: "('pk \<Rightarrow> bytes option) \<Rightarrow> 'pk peer list \<Rightarrow> uuid list \<times> 'pk key_error outcome" where
  "peerIds serialize [] = ([], GoNil)"
| "peerIds serialize (p # ps) =
     (case peer_pk p of
        None \<Rightarrow> ([], GoPanic)
      | Some pk \<Rightarrow>
          (case PkToUUID serialize pk of
             Inl e \<Rightarrow> ([], GoErr e)
           | Inr i \<Rightarrow>
               (case peerIds serialize ps of
                  (is, GoNil) \<Rightarrow> (i # is, GoNil)
                | (_, r) \<Rightarrow> ([], r))))"

definition GetPeerIds :: "('pk \<Rightarrow> bytes option) \<Rightarrow> 'pk node \<Rightarrow> uuid list \<times> 'pk key_error outcome" where
  "GetPeerIds serialize nd = peerIds serialize (peers nd)"

end
