(* ===== verification/BRB_Middleware.thy ===== *)
theory BRB_Middleware
  imports Overlay_Network
begin

text \<open>
  The middleware of reliable broadcast (\<^verbatim>\<open>byzantineReliableBroadcast/middleware.go\<close>): the wire
  format of its three kinds of messages, the identifier of an instance, computed from the key of
  the node that sent the first message and its nonce, and the hand-over to best-effort broadcast.
  The random nonce is an argument.  Writes to a memory buffer and the marshalling of an identifier
  never fail, so their error branches have no counterpart.
\<close>

section \<open>Messages\<close>

type_synonym middlewareCode = byte

definition brb_send :: middlewareCode where "brb_send = 97"
definition brb_echo :: middlewareCode where "brb_echo = brb_send + 1"
definition brb_ready :: middlewareCode where "brb_ready = brb_send + 2"

lemma brb_codes [simp]:
  "brb_send \<noteq> brb_echo" "brb_send \<noteq> brb_ready" "brb_echo \<noteq> brb_ready"
  "brb_echo \<noteq> brb_send" "brb_ready \<noteq> brb_send" "brb_ready \<noteq> brb_echo"
  by (simp_all add: brb_send_def brb_echo_def brb_ready_def)

record brb_msg =
  brb_kind :: middlewareCode
  brb_id :: uuid
  brb_sender :: uuid
  brb_content :: bytes

datatype 'pk brb_mw_error =
    UnableToReadByteType read_error
  | UnhandledCode
  | UnableToProcessId "'pk brb_mw_error"
  | UnableToReadNonce read_error
  | UnableToSerializeSender "'pk key_error"
  | UnableToExtractId read_error
  | UnableToConvertSender "'pk key_error"
  | UnableToReadContent read_error

section \<open>Wrapping and broadcasting\<close>

definition wrapSend :: "uint32 \<Rightarrow> bytes \<Rightarrow> bytes" where
  "wrapSend nonce msg = [brb_send] @ put_uint32 nonce @ msg"

definition wrapMessage :: "middlewareCode \<Rightarrow> uuid \<Rightarrow> bytes \<Rightarrow> bytes" where
  "wrapMessage code i msg = [code] @ uuid_bytes i @ msg"

definition broadcastSend :: "byte \<Rightarrow> uint32 \<Rightarrow> bytes \<Rightarrow> 'pk node \<Rightarrow> 'pk node \<times> 'pk net_error outcome" where
  "broadcastSend beb nonce msg nd = wrap_err UnableToBroadcast (BEBroadcast beb (wrapSend nonce msg) nd)"

text \<open>An error of the broadcast is logged and dropped; a panic is not.\<close>

definition broadcastMsg ::
  "byte \<Rightarrow> middlewareCode \<Rightarrow> uuid \<Rightarrow> bytes \<Rightarrow> 'pk node \<Rightarrow> 'pk node \<times> 'pk net_error outcome"
where
  "broadcastMsg beb code i msg nd =
     (case BEBroadcast beb (wrapMessage code i msg) nd of
        (nd1, GoErr e) \<Rightarrow> (nd1, GoNil)
      | r \<Rightarrow> r)"

text \<open>
  \<^verbatim>\<open>makeChannels\<close> starts a goroutine for the echo and one for the ready of the instance; each
  broadcasts the first value it receives and ends.
\<close>

definition broadcastMsgOnSignal ::
  "byte \<Rightarrow> middlewareCode \<Rightarrow> uuid \<Rightarrow> bytes list \<Rightarrow> 'pk node \<Rightarrow> 'pk node \<times> 'pk net_error outcome"
where
  "broadcastMsgOnSignal beb code i ch nd =
     (case ch of [] \<Rightarrow> (nd, GoBlocked) | msg # _ \<Rightarrow> broadcastMsg beb code i msg nd)"

section \<open>Parsing\<close>

definition computeInstanceId ::
  "('pk \<Rightarrow> bytes option) \<Rightarrow> uint32 \<Rightarrow> 'pk \<Rightarrow> 'pk brb_mw_error + uuid"
where
  "computeInstanceId serialize nonce sender =
     (case SerializePublicKey serialize sender of
        Inl e \<Rightarrow> Inl (UnableToSerializeSender e)
      | Inr encodedPk \<Rightarrow> Inr (BytesToUUID (encodedPk @ put_uint32 nonce)))"

definition readId ::
  "('pk \<Rightarrow> bytes option) \<Rightarrow> bytes \<Rightarrow> 'pk \<Rightarrow> 'pk brb_mw_error + uuid \<times> bytes"
where
  "readId serialize reader sender =
     (case read_full 4 reader of
        Inl e \<Rightarrow> Inl (UnableToReadNonce e)
      | Inr (raw, r) \<Rightarrow>
          (case computeInstanceId serialize (get_uint32 raw) sender of
             Inl e \<Rightarrow> Inl e
           | Inr i \<Rightarrow> Inr (i, r)))"

definition deserializeIDMsg ::
  "('pk \<Rightarrow> bytes option) \<Rightarrow> middlewareCode \<Rightarrow> bytes \<Rightarrow> 'pk \<Rightarrow> uuid \<Rightarrow> 'pk brb_mw_error + brb_msg"
where
  "deserializeIDMsg serialize kind reader sender i =
     (case PkToUUID serialize sender of
        Inl e \<Rightarrow> Inl (UnableToConvertSender e)
      | Inr senderId \<Rightarrow>
          (case read_rest reader of
             Inl e \<Rightarrow> Inl (UnableToReadContent e)
           | Inr content \<Rightarrow>
               Inr \<lparr>brb_kind = kind, brb_id = i, brb_sender = senderId, brb_content = content\<rparr>))"

definition deserializeMsg ::
  "('pk \<Rightarrow> bytes option) \<Rightarrow> middlewareCode \<Rightarrow> bytes \<Rightarrow> 'pk \<Rightarrow> 'pk brb_mw_error + brb_msg"
where
  "deserializeMsg serialize kind reader sender =
     (case ExtractIdFromMessage reader of
        Inl e \<Rightarrow> Inl (UnableToExtractId e)
      | Inr (i, r) \<Rightarrow> deserializeIDMsg serialize kind r sender i)"

definition processSend :: "('pk \<Rightarrow> bytes option) \<Rightarrow> bytes \<Rightarrow> 'pk \<Rightarrow> 'pk brb_mw_error + brb_msg" where
  "processSend serialize reader sender =
     (case readId serialize reader sender of
        Inl e \<Rightarrow> Inl (UnableToProcessId e)
      | Inr (i, r) \<Rightarrow> deserializeIDMsg serialize brb_send r sender i)"

definition mw_processMsg :: "('pk \<Rightarrow> bytes option) \<Rightarrow> bytes \<Rightarrow> 'pk \<Rightarrow> 'pk brb_mw_error + brb_msg" where
  "mw_processMsg serialize msg sender =
     (case read_byte msg of
        Inl e \<Rightarrow> Inl (UnableToReadByteType e)
      | Inr (kind, reader) \<Rightarrow>
          if kind = brb_send then processSend serialize reader sender
          else if kind = brb_echo \<or> kind = brb_ready then deserializeMsg serialize kind reader sender
          else Inl UnhandledCode)"

text \<open>One turn of the middleware's delivery loop: what is handed to the channel, if anything.\<close>

definition mw_bebDeliver :: "('pk \<Rightarrow> bytes option) \<Rightarrow> 'pk BEBMsg \<Rightarrow> brb_msg list \<Rightarrow> brb_msg list" where
  "mw_bebDeliver serialize bebMsg deliverChan =
     (case mw_processMsg serialize (beb_Content bebMsg) (beb_Sender bebMsg) of
        Inl e \<Rightarrow> deliverChan
      | Inr m \<Rightarrow> deliverChan @ [m])"

lemmas [wire_simps] = wrapSend_def wrapMessage_def mw_processMsg_def processSend_def
  deserializeMsg_def deserializeIDMsg_def readId_def computeInstanceId_def read_rest_def
  PkToUUID_def SerializePublicKey_def

section \<open>The wire formats\<close>

text \<open>The echo and ready messages of a sender, as a format: the identifier and the content.\<close>

definition brb_unwrap ::
  "('pk \<Rightarrow> bytes option) \<Rightarrow> 'pk \<Rightarrow> bytes \<Rightarrow> 'pk brb_mw_error + (middlewareCode \<times> uuid \<times> bytes)"
where
  "brb_unwrap serialize sender bs =
     (case mw_processMsg serialize bs sender of
        Inl e \<Rightarrow> Inl e
      | Inr m \<Rightarrow> Inr (brb_kind m, brb_id m, brb_content m))"

lemma mw_process_wrapMessage:
  assumes "serialize pk = Some k" and "code = brb_echo \<or> code = brb_ready" and "msg \<noteq> []"
  shows "mw_processMsg serialize (wrapMessage code i msg) pk =
    Inr \<lparr>brb_kind = code, brb_id = i, brb_sender = BytesToUUID k, brb_content = msg\<rparr>"
  using assms by (auto simp: wire_simps)

lemma mw_process_wrapSend:
  assumes "serialize pk = Some k" and "msg \<noteq> []"
  shows "mw_processMsg serialize (wrapSend nonce msg) pk =
    Inr \<lparr>brb_kind = brb_send, brb_id = BytesToUUID (k @ put_uint32 nonce), brb_sender = BytesToUUID k,
         brb_content = msg\<rparr>"
  using assms get_put_uint32 [of nonce "[]"] by (simp add: wire_simps)

interpretation brb_wire: wire_format "\<lambda>(code, i, msg). wrapMessage code i msg"
  "brb_unwrap serialize pk"
  "\<lambda>(code, i, msg). serialize pk \<noteq> None \<and> (code = brb_echo \<or> code = brb_ready) \<and> msg \<noteq> []" for serialize pk
  by unfold_locales (auto simp: brb_unwrap_def mw_process_wrapMessage)

text \<open>
  Every message a node's middleware broadcasts is parsed by every receiver into what was sent:
  the kind, the instance identifier (for a send message, derived from the sender's key and nonce) and
  the content, with the identity of the key it came from, provided the content is not empty.
\<close>

theorem brb_wire_roundtrip:
  assumes "serialize pk = Some k" and "msg \<noteq> []"
  shows "mw_processMsg serialize (wrapSend nonce msg) pk =
      Inr \<lparr>brb_kind = brb_send, brb_id = BytesToUUID (k @ put_uint32 nonce), brb_sender = BytesToUUID k,
           brb_content = msg\<rparr>
    \<and> mw_processMsg serialize (wrapMessage brb_echo i msg) pk =
      Inr \<lparr>brb_kind = brb_echo, brb_id = i, brb_sender = BytesToUUID k, brb_content = msg\<rparr>
    \<and> mw_processMsg serialize (wrapMessage brb_ready i msg) pk =
      Inr \<lparr>brb_kind = brb_ready, brb_id = i, brb_sender = BytesToUUID k, brb_content = msg\<rparr>"
  using assms by (simp add: mw_process_wrapSend mw_process_wrapMessage)

theorem brb_wire_roundtrip_witness:
  "mw_processMsg Some (wrapSend 5 [7]) [9] =
      Inr \<lparr>brb_kind = brb_send, brb_id = BytesToUUID ([9] @ put_uint32 5), brb_sender = BytesToUUID [9],
           brb_content = [7]\<rparr>
    \<and> mw_processMsg Some (wrapMessage brb_echo (uid 3) [7]) [9] =
      Inr \<lparr>brb_kind = brb_echo, brb_id = uid 3, brb_sender = BytesToUUID [9], brb_content = [7]\<rparr>
    \<and> mw_processMsg Some (wrapMessage brb_ready (uid 3) [7]) [9] =
      Inr \<lparr>brb_kind = brb_ready, brb_id = uid 3, brb_sender = BytesToUUID [9], brb_content = [7]\<rparr>"
  by (rule brb_wire_roundtrip) simp_all

text \<open>
  An empty message is broadcast without an error but no receiver accepts it: reading no bytes at
  the end of the message is an end-of-file error.
\<close>

theorem brb_empty_content_rejected:
  "mw_processMsg serialize (wrapSend nonce []) pk =
     (case serialize pk of
        None \<Rightarrow> Inl (UnableToProcessId (UnableToSerializeSender (UnableToSerialize pk)))
      | Some k \<Rightarrow> Inl (UnableToReadContent EOF))"
  by (simp add: wire_simps read_full_def split: option.splits)

text \<open>A message is accepted only in one of the three shapes; the content is its tail.\<close>

lemma mw_process_accepts:
  assumes "mw_processMsg serialize bs pk = Inr m"
  shows "brb_kind m \<in> {brb_send, brb_echo, brb_ready} \<and> brb_content m \<noteq> []
    \<and> (\<exists>k. serialize pk = Some k \<and> brb_sender m = BytesToUUID k)"
  using assms
  by (auto simp: wire_simps ExtractIdFromMessage_def split: sum.splits prod.splits if_splits option.splits)

end
