(* ===== verification/BRB_Channel.thy ===== *)
theory BRB_Channel
  imports BRB_Middleware BRB_Node
begin

text \<open>
  The reliable-broadcast channel of a node (\<^verbatim>\<open>byzantineReliableBroadcast/channel.go\<close>) and the
  goroutines it starts.  Instances are objects: \<open>store\<close> is the heap of handlers, and the map
  \<^verbatim>\<open>instances\<close> holds references into it.  A goroutine that will call \<^verbatim>\<open>instance.send\<close>,
  \<^verbatim>\<open>.echo\<close> or \<^verbatim>\<open>.ready\<close> is an entry of \<open>calls\<close>; one that waits for the output of an instance is an
  entry of \<open>waiting\<close>.  They run in any order: the relation \<open>chan_step\<close> interleaves them with the
  messages the middleware delivers.
\<close>

section \<open>State\<close>

record BRBChannel =
  brbc_n :: uint
  brbc_f :: uint
  brbc_instances :: "uuid \<rightharpoonup> nat"
  brbc_finished :: "uuid set"
  store :: "brbHandler list"
  calls :: "(nat \<times> brb_msg) list"
  waiting :: "(nat \<times> uuid) list"
  BrbDeliver :: "(uuid \<times> BRBMsg) list"

definition NewBRBChannel :: "uint \<Rightarrow> uint \<Rightarrow> BRBChannel" where
  "NewBRBChannel n f = \<lparr>brbc_n = n, brbc_f = f, brbc_instances = Map.empty, brbc_finished = {},
     store = [], calls = [], waiting = [], BrbDeliver = []\<rparr>"

datatype brbc_error = UnhandledKind | HandlerNotFound uuid

section \<open>Operations\<close>

definition createInstance :: "uuid \<Rightarrow> BRBChannel \<Rightarrow> BRBChannel \<times> nat" where
  "createInstance i c =
     (let ref = length (store c)
      in (c\<lparr>store := store c @ [newBrbHandler (brbc_n c) (brbc_f c)],
            brbc_instances := (brbc_instances c)(i \<mapsto> ref),
            waiting := waiting c @ [(ref, i)]\<rparr>, ref))"

definition getInstance :: "uuid \<Rightarrow> BRBChannel \<Rightarrow> BRBChannel \<times> nat" where
  "getInstance i c = (case brbc_instances c i of Some ref \<Rightarrow> (c, ref) | None \<Rightarrow> createInstance i c)"

definition chan_processMsg :: "brb_msg \<Rightarrow> BRBChannel \<Rightarrow> BRBChannel \<times> brbc_error outcome" where
  "chan_processMsg m c =
     (if brb_id m \<in> brbc_finished c then (c, GoNil)
      else let (c1, ref) = getInstance (brb_id m) c
           in if brb_kind m = brb_send \<or> brb_kind m = brb_echo \<or> brb_kind m = brb_ready
              then (c1\<lparr>calls := calls c1 @ [(ref, m)]\<rparr>, GoNil)
              else (c1, GoErr UnhandledKind))"

text \<open>The command an instance's invoker runs for a call; errors are logged by the caller.\<close>

definition instance_call :: "brb_msg \<Rightarrow> brbHandler \<Rightarrow> brbHandler \<times> brb_error outcome" where
  "instance_call m h =
     (if brb_kind m = brb_send then handleSend (brb_content m) (brb_sender m) h
      else if brb_kind m = brb_echo then handleEcho (brb_content m) (brb_sender m) h
      else handleReady (brb_content m) (brb_sender m) h)"

definition run_call :: "nat \<Rightarrow> BRBChannel \<Rightarrow> BRBChannel" where
  "run_call j c =
     (let (ref, m) = calls c ! j
      in c\<lparr>store := (store c)[ref := fst (instance_call m (store c ! ref))],
           calls := take j (calls c) @ drop (Suc j) (calls c)\<rparr>)"

text \<open>
  The goroutine of \<^verbatim>\<open>processOutput\<close> has received the first output of its instance; the command it
  hands to the channel's invoker delivers it, and retires the instance.
\<close>

definition processOutput :: "BRBMsg \<Rightarrow> uuid \<Rightarrow> BRBChannel \<Rightarrow> BRBChannel \<times> brbc_error outcome" where
  "processOutput output i c =
     (let c1 = c\<lparr>BrbDeliver := BrbDeliver c @ [(i, output)]\<rparr>
      in case brbc_instances c1 i of
           None \<Rightarrow> (c1, GoErr (HandlerNotFound i))
         | Some ref \<Rightarrow> (c1\<lparr>brbc_finished := insert i (brbc_finished c1),
                        brbc_instances := (brbc_instances c1)(i := None)\<rparr>, GoNil))"

definition run_output :: "nat \<Rightarrow> BRBChannel \<Rightarrow> BRBChannel" where
  "run_output j c =
     (let (ref, i) = waiting c ! j
      in fst (processOutput (hd (outputChan (store c ! ref))) i
           (c\<lparr>waiting := take j (waiting c) @ drop (Suc j) (waiting c)\<rparr>)))"

inductive chan_step :: "BRBChannel \<Rightarrow> BRBChannel \<Rightarrow> bool" where
  deliver: "chan_step c (fst (chan_processMsg m c))"
| call: "j < length (calls c) \<Longrightarrow> chan_step c (run_call j c)"
| emits: "\<lbrakk>j < length (waiting c); outputChan (store c ! fst (waiting c ! j)) \<noteq> []\<rbrakk>
    \<Longrightarrow> chan_step c (run_output j c)"

inductive chan_reach :: "uint \<Rightarrow> uint \<Rightarrow> BRBChannel \<Rightarrow> bool" for n f where
  init: "chan_reach n f (NewBRBChannel n f)"
| step: "chan_reach n f c \<Longrightarrow> chan_step c d \<Longrightarrow> chan_reach n f d"

text \<open>The Byzantine channel of \<^verbatim>\<open>byzChannel.go\<close>, used by the tests of the repository.\<close>

definition byzMsg :: bytes where
  "byzMsg = map of_nat [73, 32, 97, 109, 32, 98, 121, 122, 97, 110, 116, 105, 110, 101, 32, 97, 110, 100, 32,
     73, 32, 104, 97, 116, 101, 32, 99, 97, 110, 100, 121, 32, 58, 40]"

definition byz_processMsg ::
  "byte \<Rightarrow> brb_msg \<Rightarrow> uuid set \<times> 'pk node \<Rightarrow> (uuid set \<times> 'pk node) \<times> 'pk net_error outcome"
where
  "byz_processMsg beb m = (\<lambda>(received, nd).
     if brb_id m \<in> received then ((received, nd), GoNil)
     else case and_then (and_then (and_then (broadcastMsg beb brb_ready (brb_id m) byzMsg nd)
                 (broadcastMsg beb brb_ready (brb_id m) byzMsg))
                 (broadcastMsg beb brb_echo (brb_id m) byzMsg))
                 (broadcastMsg beb brb_echo (brb_id m) byzMsg) of
            (nd1, r) \<Rightarrow> ((insert (brb_id m) received, nd1), r))"

section \<open>The invariant of a channel\<close>

text \<open>
  The identifiers the channel has seen, each with its one object: an instance that is live, or
  one that has finished.  A live instance has its goroutine waiting for output, a finished one
  has none.
\<close>

definition chan_inv :: "BRBChannel \<Rightarrow> bool" where
  "chan_inv c \<longleftrightarrow>
     (\<forall>i ref. brbc_instances c i = Some ref \<longleftrightarrow> (ref, i) \<in> set (waiting c))
     \<and> dom (brbc_instances c) \<inter> brbc_finished c = {}
     \<and> distinct (map snd (waiting c))
     \<and> map fst (BrbDeliver c) \<in> {is. distinct is \<and> set is = brbc_finished c}
     \<and> (\<forall>(ref, i) \<in> set (waiting c). ref < length (store c))
     \<and> (\<forall>(ref, m) \<in> set (calls c). ref < length (store c)
          \<and> brb_kind m \<in> {brb_send, brb_echo, brb_ready})"

lemma chan_inv_init: "chan_inv (NewBRBChannel n f)"
  by (simp add: chan_inv_def NewBRBChannel_def)

lemma chan_inv_waiting: "chan_inv c \<Longrightarrow> (ref, i) \<in> set (waiting c) \<longleftrightarrow> brbc_instances c i = Some ref"
  by (simp add: chan_inv_def)

lemma getInstance_inv:
  assumes "chan_inv c" and "i \<notin> brbc_finished c" and "getInstance i c = (c1, ref)"
  shows "chan_inv c1 \<and> ref < length (store c1) \<and> calls c1 = calls c
    \<and> brbc_instances c1 i = Some ref"
proof (cases "brbc_instances c i")
  case None
  then have new: "(r, i) \<notin> set (waiting c)" for r by (simp add: chan_inv_waiting [OF assms(1)])
  have c1: "c1 = c\<lparr>store := store c @ [newBrbHandler (brbc_n c) (brbc_f c)],
      brbc_instances := (brbc_instances c)(i \<mapsto> length (store c)),
      waiting := waiting c @ [(length (store c), i)]\<rparr>" and ref: "ref = length (store c)"
    using assms(3) None by (auto simp: getInstance_def createInstance_def Let_def)
  have "i \<notin> snd ` set (waiting c)" using new by force
  moreover have "((brbc_instances c)(i \<mapsto> length (store c))) k = Some r \<longleftrightarrow>
      (r, k) \<in> set (waiting c @ [(length (store c), i)])" for k r
    using assms(1) new unfolding chan_inv_def by (cases "k = i") auto
  moreover have "\<forall>(r, k) \<in> set (waiting c). r < Suc (length (store c))"
    and "\<forall>(r, m) \<in> set (calls c). r < Suc (length (store c)) \<and> brb_kind m \<in> {brb_send, brb_echo, brb_ready}"
    using assms(1) unfolding chan_inv_def by (auto simp: less_Suc_eq)
  ultimately show ?thesis
    using assms(1,2) unfolding chan_inv_def c1 ref by simp
next
  case (Some r)
  then have "(ref, i) \<in> set (waiting c)" and "c1 = c"
    using assms by (auto simp: getInstance_def chan_inv_waiting)
  moreover from this have "ref < length (store c)" using assms(1) by (auto simp: chan_inv_def)
  ultimately show ?thesis using assms(1) by (simp add: chan_inv_waiting)
qed

lemma chan_processMsg_inv:
  assumes "chan_inv c"
  shows "chan_inv (fst (chan_processMsg m c))"
proof (cases "brb_id m \<in> brbc_finished c")
  case False
  obtain c1 ref where g: "getInstance (brb_id m) c = (c1, ref)" by fastforce
  show ?thesis using getInstance_inv [OF assms False g] False g
    by (auto simp: chan_processMsg_def chan_inv_def)
qed (simp add: chan_processMsg_def assms)

lemma set_remove_nth: "set (take j xs @ drop (Suc j) xs) \<subseteq> set xs"
  by (metis le_sup_iff set_append set_drop_subset set_take_subset)

lemma run_call_inv: "chan_inv c \<Longrightarrow> j < length (calls c) \<Longrightarrow> chan_inv (run_call j c)"
  using set_remove_nth [of j "calls c"]
  by (cases "calls c ! j") (auto simp: run_call_def chan_inv_def)

text \<open>A list with distinct keys, without its \<open>j\<close>-th entry.\<close>

lemma remove_nth_keys:
  assumes "distinct (map snd xs)" and "j < length xs"
  shows "set (take j xs @ drop (Suc j) xs) = {x \<in> set xs. snd x \<noteq> snd (xs ! j)}"
    and "distinct (map snd (take j xs @ drop (Suc j) xs))"
proof -
  have xs: "xs = take j xs @ xs ! j # drop (Suc j) xs" using assms(2) by (rule id_take_nth_drop)
  have d: "distinct (map snd (take j xs @ xs ! j # drop (Suc j) xs))" using assms(1) xs by metis
  then show "distinct (map snd (take j xs @ drop (Suc j) xs))" by auto
  have "snd x \<noteq> snd (xs ! j)" if "x \<in> set (take j xs @ drop (Suc j) xs)" for x
    using d that by (force simp: image_iff)
  moreover have "set xs = insert (xs ! j) (set (take j xs @ drop (Suc j) xs))"
    by (subst xs) auto
  ultimately show "set (take j xs @ drop (Suc j) xs) = {x \<in> set xs. snd x \<noteq> snd (xs ! j)}" by auto
qed

lemma run_output_eq:
  assumes inv: "chan_inv c" and j: "j < length (waiting c)" and w: "waiting c ! j = (ref, i)"
  shows "brbc_instances c i = Some ref" and "i \<notin> brbc_finished c"
    and "run_output j c = c\<lparr>waiting := take j (waiting c) @ drop (Suc j) (waiting c),
      BrbDeliver := BrbDeliver c @ [(i, hd (outputChan (store c ! ref)))],
      brbc_finished := insert i (brbc_finished c), brbc_instances := (brbc_instances c)(i := None)\<rparr>"
proof -
  have mem: "(ref, i) \<in> set (waiting c)" using j w by (metis nth_mem)
  then show inst: "brbc_instances c i = Some ref" using inv unfolding chan_inv_def by blast
  then show "i \<notin> brbc_finished c" using inv unfolding chan_inv_def by blast
  show "run_output j c = c\<lparr>waiting := take j (waiting c) @ drop (Suc j) (waiting c),
      BrbDeliver := BrbDeliver c @ [(i, hd (outputChan (store c ! ref)))],
      brbc_finished := insert i (brbc_finished c), brbc_instances := (brbc_instances c)(i := None)\<rparr>"
    using inst by (simp add: run_output_def processOutput_def w Let_def)
qed

lemma run_output_inv:
  assumes inv: "chan_inv c" and j: "j < length (waiting c)"
  shows "chan_inv (run_output j c)"
proof -
  obtain ref i where w: "waiting c ! j = (ref, i)" by fastforce
  have dist: "distinct (map snd (waiting c))" using inv by (simp add: chan_inv_def)
  define ws where "ws = take j (waiting c) @ drop (Suc j) (waiting c)"
  have ws: "set ws = {x \<in> set (waiting c). snd x \<noteq> i}" "distinct (map snd ws)"
    using remove_nth_keys [OF dist j] w by (simp_all add: ws_def)
  note out = run_output_eq [OF inv j w, folded ws_def]
  show ?thesis unfolding chan_inv_def out(3) using inv out(1,2) ws(2)
    by (auto simp: chan_inv_def ws(1))
qed

lemma chan_reach_inv: "chan_reach n f c \<Longrightarrow> chan_inv c"
  by (induction rule: chan_reach.induct)
    (auto simp: chan_inv_init elim!: chan_step.cases intro: chan_processMsg_inv run_call_inv run_output_inv)

section \<open>The channel is a family of independent instances\<close>

text \<open>The states of one instance: handler operations on messages that carry its identifier.\<close>

inductive inst_reach :: "uint \<Rightarrow> uint \<Rightarrow> uuid \<Rightarrow> brbHandler \<Rightarrow> bool" for n f i where
  init: "inst_reach n f i (newBrbHandler n f)"
| call: "\<lbrakk>inst_reach n f i h; brb_id m = i\<rbrakk> \<Longrightarrow> inst_reach n f i (fst (instance_call m h))"

text \<open>
  The abstraction: \<open>own\<close> lists the identifiers in the order of the objects, \<open>h\<close> is the family of
  instances.
\<close>

definition chan_refines :: "uuid list \<Rightarrow> (uuid \<Rightarrow> brbHandler) \<Rightarrow> BRBChannel \<Rightarrow> bool" where
  "chan_refines own h c \<longleftrightarrow>
     length own = length (store c) \<and> distinct own
     \<and> set own = dom (brbc_instances c) \<union> brbc_finished c
     \<and> (\<forall>ref < length own. store c ! ref = h (own ! ref))
     \<and> (\<forall>(ref, m) \<in> set (calls c). own ! ref = brb_id m)
     \<and> (\<forall>(ref, i) \<in> set (waiting c). own ! ref = i)
     \<and> (\<forall>(i, d) \<in> set (BrbDeliver c). \<exists>ds. outputChan (h i) = d # ds)"

lemma handler_outputs_grow: "\<exists>ds. outputChan (fst (instance_call m h)) = outputChan h @ ds"
  by (cases "brb_sender m \<in> peersEchoed h"; cases "brb_sender m \<in> peersReadied h")
    (auto simp: instance_call_def handleSend_sel handleEcho_repeated handleReady_repeated
      handleEcho_sel handleReady_sel)

lemma refines_waiting:
  assumes "chan_inv c" and "chan_refines own h c" and "(ref, i) \<in> set (waiting c)"
  shows "ref < length (store c) \<and> store c ! ref = h i"
proof -
  have "ref < length (store c)" using assms(1,3) by (auto simp: chan_inv_def)
  moreover have "own ! ref = i" using assms(2,3) by (auto simp: chan_refines_def)
  ultimately show ?thesis using assms(2) by (simp add: chan_refines_def)
qed

lemma getInstance_refines:
  assumes inv: "chan_inv c" and R: "chan_refines own h c" and fresh: "i \<notin> brbc_finished c"
    and g: "getInstance i c = (c1, ref)"
    and unseen: "\<forall>i. i \<notin> set own \<longrightarrow> h i = newBrbHandler (brbc_n c) (brbc_f c)"
  shows "\<exists>own'. chan_refines own' h c1 \<and> own' ! ref = i \<and> set own' = insert i (set own)
    \<and> brbc_n c1 = brbc_n c \<and> brbc_f c1 = brbc_f c"
proof (cases "brbc_instances c i")
  case (Some r)
  then have "c1 = c" "(ref, i) \<in> set (waiting c)" using g chan_inv_waiting [OF inv]
    by (auto simp: getInstance_def)
  then show ?thesis using R Some by (intro exI [of _ own]) (auto simp: chan_refines_def)
next
  case None
  have c1: "c1 = c\<lparr>store := store c @ [newBrbHandler (brbc_n c) (brbc_f c)],
      brbc_instances := (brbc_instances c)(i \<mapsto> length (store c)),
      waiting := waiting c @ [(length (store c), i)]\<rparr>" and ref: "ref = length (store c)"
    using g None by (auto simp: getInstance_def createInstance_def Let_def)
  have notin: "i \<notin> set own" using R None fresh by (auto simp: chan_refines_def)
  have len: "length own = length (store c)" using R by (simp add: chan_refines_def)
  have old: "(own @ [i]) ! r = own ! r" if "r < length (store c)" for r
    using that len by (simp add: nth_append)
  have bound: "\<forall>(r, k) \<in> set (waiting c). r < length (store c)" "\<forall>(r, m) \<in> set (calls c). r < length (store c)"
    using inv by (auto simp: chan_inv_def)
  have "chan_refines (own @ [i]) h c1"
    using R notin unseen bound old len unfolding c1 chan_refines_def
    by (auto simp: nth_append less_Suc_eq)
  then show ?thesis using len ref c1 by (intro exI [of _ "own @ [i]"]) (auto simp: nth_append)
qed

lemma run_call_refines:
  assumes inv: "chan_inv c" and R: "chan_refines own h c" and j: "j < length (calls c)"
    and cj: "calls c ! j = (ref, m)"
  shows "chan_refines own (h(brb_id m := fst (instance_call m (h (brb_id m))))) (run_call j c)"
    and "ref < length own \<and> own ! ref = brb_id m"
proof -
  have mem: "(ref, m) \<in> set (calls c)" using j cj by (metis nth_mem)
  then have own: "own ! ref = brb_id m" and bound: "ref < length own"
    using R inv by (auto simp: chan_refines_def chan_inv_def)
  then show "ref < length own \<and> own ! ref = brb_id m" by simp
  have same: "own ! r = brb_id m \<longleftrightarrow> r = ref" if "r < length own" for r
    using R own bound that by (metis chan_refines_def nth_eq_iff_index_eq)
  have out: "\<exists>ds. outputChan (fst (instance_call m k)) = d # ds" if "\<exists>ds. outputChan k = d # ds" for k d
    using that handler_outputs_grow [of m k] by auto
  let ?h = "h(brb_id m := fst (instance_call m (h (brb_id m))))"
  have old: "store c ! r = h (own ! r)" if "r < length own" for r
    using R that by (simp add: chan_refines_def)
  have "(store c)[ref := fst (instance_call m (store c ! ref))] ! r = ?h (own ! r)" if "r < length own" for r
    using old [OF bound] old [OF that] same [OF that] that R own
    by (cases "r = ref") (simp_all add: chan_refines_def)
  moreover have "\<exists>ds. outputChan (?h i) = d # ds" if "(i, d) \<in> set (BrbDeliver c)" for i d
  proof -
    have "\<exists>ds. outputChan (h i) = d # ds" using R that unfolding chan_refines_def by blast
    then show ?thesis using out by (cases "i = brb_id m") auto
  qed
  moreover have "own ! r = brb_id k" if "(r, k) \<in> set (take j (calls c) @ drop (Suc j) (calls c))" for r k
    using R that set_remove_nth [of j "calls c"] unfolding chan_refines_def by blast
  ultimately show "chan_refines own ?h (run_call j c)"
    using R unfolding run_call_def cj chan_refines_def by (simp add: split_beta')
qed

definition channel_view :: "uint \<Rightarrow> uint \<Rightarrow> BRBChannel \<Rightarrow> uuid list \<Rightarrow> (uuid \<Rightarrow> brbHandler) \<Rightarrow> bool" where
  "channel_view n f c own h \<longleftrightarrow> brbc_n c = n \<and> brbc_f c = f \<and> chan_refines own h c
     \<and> (\<forall>i. inst_reach n f i (h i)) \<and> (\<forall>i. i \<notin> set own \<longrightarrow> h i = newBrbHandler n f)"

lemma processMsg_view:
  assumes "chan_inv c" and v: "channel_view n f c own h"
  shows "\<exists>own'. channel_view n f (fst (chan_processMsg m c)) own' h"
proof (cases "brb_id m \<in> brbc_finished c")
  case False
  obtain c1 ref where g: "getInstance (brb_id m) c = (c1, ref)" by fastforce
  obtain own' where o: "chan_refines own' h c1" "own' ! ref = brb_id m" "set own' = insert (brb_id m) (set own)"
      "brbc_n c1 = n" "brbc_f c1 = f"
    using getInstance_refines [OF assms(1) _ False g, of own h] v by (auto simp: channel_view_def)
  then have "chan_refines own' h (fst (chan_processMsg m c))"
    using False g by (auto simp: chan_processMsg_def chan_refines_def)
  moreover have "i \<notin> set own' \<Longrightarrow> h i = newBrbHandler n f" for i
    using v o(3) by (simp add: channel_view_def)
  moreover have "brbc_n (fst (chan_processMsg m c)) = n" "brbc_f (fst (chan_processMsg m c)) = f"
    using False g o by (simp_all add: chan_processMsg_def)
  ultimately show ?thesis using v by (intro exI [of _ own']) (simp add: channel_view_def)
qed (use v in \<open>auto simp: chan_processMsg_def\<close>)

lemma run_call_view:
  assumes "chan_inv c" and v: "channel_view n f c own h" and j: "j < length (calls c)"
  shows "\<exists>h'. channel_view n f (run_call j c) own h'"
proof -
  obtain ref m where cj: "calls c ! j = (ref, m)" by fastforce
  have R: "chan_refines own h c" using v by (simp add: channel_view_def)
  note r = run_call_refines [OF assms(1) R j cj]
  have "brb_id m \<in> set own" using r(2) nth_mem by metis
  then have "channel_view n f (run_call j c) own (h(brb_id m := fst (instance_call m (h (brb_id m)))))"
    using v r(1) by (auto simp: channel_view_def inst_reach.call) (simp_all add: run_call_def cj)
  then show ?thesis by blast
qed

lemma run_output_view:
  assumes inv: "chan_inv c" and v: "channel_view n f c own h" and j: "j < length (waiting c)"
    and out: "outputChan (store c ! fst (waiting c ! j)) \<noteq> []"
  shows "channel_view n f (run_output j c) own h"
proof -
  obtain ref i where w: "waiting c ! j = (ref, i)" by fastforce
  then have mem: "(ref, i) \<in> set (waiting c)" using j by (metis nth_mem)
  have R: "chan_refines own h c" using v by (simp add: channel_view_def)
  have "store c ! ref = h i" using refines_waiting [OF inv R mem] by simp
  with out w have "\<exists>ds. outputChan (h i) = hd (outputChan (store c ! ref)) # ds"
    by (cases "outputChan (h i)") auto
  with v R set_remove_nth [of j "waiting c"] run_output_eq [OF inv j w] show ?thesis
    by (auto simp: channel_view_def chan_refines_def)
qed

lemma chan_reach_view: "chan_reach n f c \<Longrightarrow> \<exists>own h. channel_view n f c own h"
proof (induction rule: chan_reach.induct)
  case init
  have "channel_view n f (NewBRBChannel n f) [] (\<lambda>_. newBrbHandler n f)"
    by (auto simp: channel_view_def chan_refines_def NewBRBChannel_def inst_reach.init)
  then show ?case by blast
next
  case (step c d)
  then have inv: "chan_inv c" by (simp add: chan_reach_inv)
  from step.IH obtain own h where v: "channel_view n f c own h" by blast
  from step.hyps(2) show ?case
    by cases (use processMsg_view [OF inv v] run_call_view [OF inv v] run_output_view [OF inv v] in blast)+
qed

text \<open>
  The channel refines a family of independent instances.  In every reachable state, however the
  goroutines interleave, there is one handler per identifier, reached by that identifier's messages
  alone, such that the object in the map for a live instance is the handler of its identifier, what the channel has delivered
  for an identifier is the first output of its handler, and no identifier has delivered twice or
  been delivered and is still live.
\<close>

lemma channel_of_instances:
  assumes "chan_reach n f c"
  shows "\<exists>h. (\<forall>i. inst_reach n f i (h i))
    \<and> (\<forall>i ref. brbc_instances c i = Some ref \<longrightarrow> ref < length (store c) \<and> store c ! ref = h i)
    \<and> (\<forall>(i, d) \<in> set (BrbDeliver c). \<exists>ds. outputChan (h i) = d # ds)
    \<and> distinct (map fst (BrbDeliver c))
    \<and> dom (brbc_instances c) \<inter> fst ` set (BrbDeliver c) = {}"
proof -
  have inv: "chan_inv c" using assms by (rule chan_reach_inv)
  obtain own h where v: "channel_view n f c own h" using chan_reach_view [OF assms] by blast
  have "ref < length (store c) \<and> store c ! ref = h i" if "brbc_instances c i = Some ref" for i ref
    using refines_waiting [OF inv, of own h ref i] v that by (simp add: chan_inv_waiting [OF inv] channel_view_def)
  with v inv show ?thesis
    by (intro exI [of _ h]) (auto simp: channel_view_def chan_refines_def chan_inv_def)
qed

end
