(* ===== verification/ABA_Middleware.thy ===== *)
theory ABA_Middleware
  imports Overlay_Network
begin

text \<open>
  The two middlewares of binary agreement (\<^verbatim>\<open>asynchronousBinaryAgreement/abaMiddleware.go\<close> and
  \<^verbatim>\<open>terminationMiddleware.go\<close>): the wire formats of the echo, vote and bind messages and of the
  announced decisions, their broadcast over best-effort broadcast and the parsing of what arrives.
  Writes to a memory buffer and the marshalling of an identifier never fail, so their error branches
  have no counterpart.  What a middleware hands over through a fresh goroutine is appended to a list.
\<close>

section \<open>Protocol messages\<close>

definition aba_echo :: byte where "aba_echo = 97"
definition aba_vote :: byte where "aba_vote = aba_echo + 1"
definition aba_bind :: byte where "aba_bind = aba_echo + 2"

lemma aba_codes [simp]:
  "aba_echo \<noteq> aba_vote" "aba_echo \<noteq> aba_bind" "aba_vote \<noteq> aba_bind"
  "aba_vote \<noteq> aba_echo" "aba_bind \<noteq> aba_echo" "aba_bind \<noteq> aba_vote"
  by (simp_all add: aba_echo_def aba_vote_def aba_bind_def)

record abaMsg =
  abam_sender :: uuid
  abam_instance :: uuid
  abam_kind :: byte
  abam_round :: uint16
  abam_val :: byte

datatype 'pk aba_mw_error =
    AbaSenderError "'pk key_error"
  | AbaNoInstance read_error
  | AbaNoKind read_error
  | AbaNoRound read_error
  | AbaNoVal read_error
  | AbaNoDecision read_error

definition aba_wrap :: "uuid \<Rightarrow> byte \<Rightarrow> uint16 \<Rightarrow> byte \<Rightarrow> bytes" where
  "aba_wrap inst kind rnd val = uuid_bytes inst @ [kind] @ put_uint16 rnd @ [val]"

definition aba_broadcastMsg ::
  "byte \<Rightarrow> uuid \<Rightarrow> byte \<Rightarrow> uint16 \<Rightarrow> byte \<Rightarrow> 'pk node \<Rightarrow> 'pk node \<times> 'pk net_error outcome"
where
  "aba_broadcastMsg beb inst kind rnd val nd =
     wrap_err UnableToBroadcast (BEBroadcast beb (aba_wrap inst kind rnd val) nd)"

definition aba_broadcastEcho where
  "aba_broadcastEcho beb inst rnd val nd = aba_broadcastMsg beb inst aba_echo rnd val nd"

definition aba_broadcastVote where
  "aba_broadcastVote beb inst rnd val nd = aba_broadcastMsg beb inst aba_vote rnd val nd"

definition aba_broadcastBind where
  "aba_broadcastBind beb inst rnd val nd = aba_broadcastMsg beb inst aba_bind rnd val nd"

text \<open>The kind is not checked here, and bytes after the value are ignored.\<close>

definition aba_parseMsg :: "('pk \<Rightarrow> bytes option) \<Rightarrow> bytes \<Rightarrow> 'pk \<Rightarrow> 'pk aba_mw_error + abaMsg" where
  "aba_parseMsg serialize msg sender =
     (case PkToUUID serialize sender of
        Inl e \<Rightarrow> Inl (AbaSenderError e)
      | Inr senderId \<Rightarrow>
          (case ExtractIdFromMessage msg of
             Inl e \<Rightarrow> Inl (AbaNoInstance e)
           | Inr (inst, r1) \<Rightarrow>
               (case read_byte r1 of
                  Inl e \<Rightarrow> Inl (AbaNoKind e)
                | Inr (kind, r2) \<Rightarrow>
                    (case read_full 2 r2 of
                       Inl e \<Rightarrow> Inl (AbaNoRound e)
                     | Inr (raw, r3) \<Rightarrow>
                         (case read_full 1 r3 of
                            Inl e \<Rightarrow> Inl (AbaNoVal e)
                          | Inr (val, r4) \<Rightarrow>
                              Inr \<lparr>abam_sender = senderId, abam_instance = inst, abam_kind = kind,
                                   abam_round = get_uint16 raw, abam_val = hd val\<rparr>)))))"

definition aba_processMsg :: "('pk \<Rightarrow> bytes option) \<Rightarrow> 'pk BEBMsg \<Rightarrow> abaMsg list \<Rightarrow> abaMsg list" where
  "aba_processMsg serialize bebMsg out =
     (case aba_parseMsg serialize (beb_Content bebMsg) (beb_Sender bebMsg) of
        Inl e \<Rightarrow> out
      | Inr amsg \<Rightarrow> out @ [amsg])"

section \<open>Announced decisions\<close>

record terminationMsg =
  tm_sender :: uuid
  tm_instance :: uuid
  tm_decision :: byte

definition term_wrap :: "uuid \<Rightarrow> byte \<Rightarrow> bytes" where
  "term_wrap inst decision = uuid_bytes inst @ [decision]"

definition broadcastDecision :: "byte \<Rightarrow> uuid \<Rightarrow> byte \<Rightarrow> 'pk node \<Rightarrow> 'pk node \<times> 'pk net_error outcome" where
  "broadcastDecision beb inst decision nd = wrap_err UnableToBroadcast (BEBroadcast beb (term_wrap inst decision) nd)"

definition term_parseMsg :: "bytes \<Rightarrow> uuid \<Rightarrow> 'pk aba_mw_error + terminationMsg" where
  "term_parseMsg msg sender =
     (case ExtractIdFromMessage msg of
        Inl e \<Rightarrow> Inl (AbaNoInstance e)
      | Inr (inst, r1) \<Rightarrow>
          (case read_full 1 r1 of
             Inl e \<Rightarrow> Inl (AbaNoDecision e)
           | Inr (val, r2) \<Rightarrow> Inr \<lparr>tm_sender = sender, tm_instance = inst, tm_decision = hd val\<rparr>))"

text \<open>A message that cannot be parsed is logged; only a sender without an identifier is an error.\<close>

definition term_processMsg ::
  "('pk \<Rightarrow> bytes option) \<Rightarrow> 'pk BEBMsg \<Rightarrow> terminationMsg list \<Rightarrow> terminationMsg list \<times> 'pk aba_mw_error outcome"
where
  "term_processMsg serialize brbMsg out =
     (case PkToUUID serialize (beb_Sender brbMsg) of
        Inl e \<Rightarrow> (out, GoErr (AbaSenderError e))
      | Inr senderId \<Rightarrow>
          (case term_parseMsg (beb_Content brbMsg) senderId :: 'pk aba_mw_error + terminationMsg of
             Inl e \<Rightarrow> (out, GoNil)
           | Inr tm \<Rightarrow> (out @ [tm], GoNil)))"

lemmas [wire_simps] = aba_wrap_def aba_parseMsg_def term_wrap_def term_parseMsg_def PkToUUID_def SerializePublicKey_def

lemma read_full_one [wire_simps]: "read_full (Suc 0) (b # r) = Inr ([b], r)"
  by (simp add: read_full_def)

section \<open>Round trips\<close>

lemma aba_parse_wrap:
  assumes "serialize pk = Some k"
  shows "aba_parseMsg serialize (aba_wrap inst kind rnd val @ junk) pk =
    Inr \<lparr>abam_sender = BytesToUUID k, abam_instance = inst, abam_kind = kind, abam_round = rnd, abam_val = val\<rparr>"
  using assms get_put_uint16 [of rnd "[]"] by (simp add: wire_simps)

lemma term_parse_wrap:
  "term_parseMsg (term_wrap inst decision @ junk) s = Inr \<lparr>tm_sender = s, tm_instance = inst, tm_decision = decision\<rparr>"
  by (simp add: wire_simps)

interpretation aba_wire: wire_format "\<lambda>m. aba_wrap (abam_instance m) (abam_kind m) (abam_round m) (abam_val m)"
  "\<lambda>bs. aba_parseMsg serialize bs pk" "\<lambda>m. map_option BytesToUUID (serialize pk) = Some (abam_sender m)" for serialize pk
proof (unfold_locales, goal_cases)
  case (1 x)
  then obtain k where "serialize pk = Some k" "abam_sender x = BytesToUUID k" by auto
  then show ?case using aba_parse_wrap [of serialize pk k "abam_instance x" _ _ _ "[]"] by simp
qed

interpretation term_wire: wire_format "\<lambda>m. term_wrap (tm_instance m) (tm_decision m)"
  "\<lambda>bs. term_parseMsg bs s :: 'pk aba_mw_error + terminationMsg" "\<lambda>m. tm_sender m = s" for s
proof (unfold_locales, goal_cases)
  case (1 x)
  then show ?case using term_parse_wrap [of "tm_instance x" "tm_decision x" "[]" s] by (cases x) simp
qed

text \<open>
  Every protocol message of binary agreement and every announced decision is parsed by the
  receiver into the instance, kind, round and value that were broadcast, under the identifier of the
  key that sent it; the two formats never fail on what the broadcasts produce, also with bytes appended.
\<close>

theorem aba_wire_roundtrip:
  assumes "serialize pk = Some k"
  shows "aba_parseMsg serialize (aba_wrap inst kind rnd val @ junk) pk =
      Inr \<lparr>abam_sender = BytesToUUID k, abam_instance = inst, abam_kind = kind, abam_round = rnd, abam_val = val\<rparr>
    \<and> term_processMsg serialize \<lparr>beb_Content = term_wrap inst val @ junk, beb_Sender = pk\<rparr> out =
      (out @ [\<lparr>tm_sender = BytesToUUID k, tm_instance = inst, tm_decision = val\<rparr>], GoNil)"
  using assms aba_parse_wrap [of serialize pk k inst kind rnd val junk]
  by (simp add: term_processMsg_def PkToUUID_def SerializePublicKey_def term_parse_wrap)

theorem aba_wire_roundtrip_witness:
  "aba_parseMsg Some (aba_wrap (uid 3) aba_vote 258 1 @ [7]) [9] =
      Inr \<lparr>abam_sender = BytesToUUID [9], abam_instance = uid 3, abam_kind = aba_vote, abam_round = 258, abam_val = 1\<rparr>
    \<and> term_processMsg Some \<lparr>beb_Content = term_wrap (uid 3) 1 @ [7], beb_Sender = [9]\<rparr> [] =
      ([] @ [\<lparr>tm_sender = BytesToUUID [9], tm_instance = uid 3, tm_decision = 1\<rparr>], GoNil)"
  by (rule aba_wire_roundtrip) simp

text \<open>Two different messages of one instance never have the same encoding.\<close>

lemma aba_wrap_inj:
  "aba_wrap i k r v = aba_wrap i' k' r' v' \<longleftrightarrow> i = i' \<and> k = k' \<and> r = r' \<and> v = v'"
  by (auto simp: aba_wrap_def append_eq_append_conv)

end
