(* ===== verification/BCA_Spec.thy ===== *)
theory BCA_Spec
  imports Fault_Model
begin

text \<open>
  The abstract specification of one round of binding crusader agreement, shared by the two
  implementations \<^verbatim>\<open>ivbca\<close> and \<^verbatim>\<open>evbca\<close>.  What matters of a node is its \<open>bca_view\<close>: the values it
  proposed (and those it fast-forwarded), the senders it has counted for each value, and what it has
  echoed, voted, bound and decided.  The predicate \<open>bca_evidence\<close> says what a node must have seen
  before it sends each kind of message; a network of views evolves by steps of correct nodes that
  keep it.  From this alone follow crusader agreement, unanimity (the validity of the source's
  comment) and binding.
\<close>

section \<open>Views\<close>

definition bot :: byte where "bot = 2"

definition isInputValid :: "byte \<Rightarrow> bool" where
  "isInputValid val \<longleftrightarrow> val = 0 \<or> val = 1"

lemma isInputValid_simps [simp]:
  "isInputValid 0" "isInputValid 1" "\<not> isInputValid bot" "bot \<noteq> 0" "bot \<noteq> 1" "0 \<noteq> bot" "1 \<noteq> bot"
  by (simp_all add: isInputValid_def bot_def)

lemma bot_cases: "v \<le> bot \<Longrightarrow> v = 0 \<or> v = 1 \<or> v = bot"
proof -
  assume "v \<le> bot"
  then have "unat v \<le> 2" by (simp add: bot_def word_le_nat_alt)
  then have "unat v = unat (0 :: byte) \<or> unat v = unat (1 :: byte) \<or> unat v = unat (2 :: byte)" by auto
  then show ?thesis unfolding bot_def word_unat_eq_iff .
qed

record bca_view =
  v_proposed :: "byte set"
  v_fast :: "byte set"
  v_echoes :: "byte \<Rightarrow> uuid set"
  v_votes :: "byte \<Rightarrow> uuid set"
  v_binds :: "byte \<Rightarrow> uuid set"
  v_sentEcho :: "byte set"
  v_sentVote :: "byte set"
  v_sentBind :: "byte set"
  v_decided :: "byte set"

definition init_view :: bca_view where
  "init_view = \<lparr>v_proposed = {}, v_fast = {}, v_echoes = (\<lambda>_. {}), v_votes = (\<lambda>_. {}), v_binds = (\<lambda>_. {}),
     v_sentEcho = {}, v_sentVote = {}, v_sentBind = {}, v_decided = {}\<rparr>"

text \<open>A value the node may approve: it fast-forwarded it, or a strong quorum echoed it.\<close>

definition approved :: "net_cfg \<Rightarrow> bca_view \<Rightarrow> byte \<Rightarrow> bool" where
  "approved c w v \<longleftrightarrow> v \<in> v_fast w \<or> strong_quorum c (v_echoes w v)"

definition bca_evidence :: "net_cfg \<Rightarrow> bca_view \<Rightarrow> bool" where
  "bca_evidence c w \<longleftrightarrow>
     v_fast w \<subseteq> v_proposed w
     \<and> (\<forall>v. v_echoes w v \<subseteq> procs c \<and> v_votes w v \<subseteq> procs c \<and> v_binds w v \<subseteq> procs c)
     \<and> (\<forall>v \<in> v_sentEcho w. isInputValid v \<and> (v \<in> v_proposed w \<or> weak_quorum c (v_echoes w v)))
     \<and> (\<forall>v \<in> v_sentVote w. isInputValid v \<and> approved c w v)
     \<and> (\<forall>v \<in> v_sentBind w. if v = bot then approved c w 0 \<and> approved c w 1
          else isInputValid v \<and> (v \<in> v_fast w \<or> strong_quorum c (v_votes w v)))
     \<and> (\<forall>v \<in> v_decided w. strong_quorum c (v_binds w v) \<or> v = bot \<and> approved c w 0 \<and> approved c w 1)
     \<and> (\<forall>v \<in> v_sentVote w. \<forall>u \<in> v_sentVote w. u = v)
     \<and> (\<forall>v \<in> v_sentBind w. \<forall>u \<in> v_sentBind w. u = v)
     \<and> (\<forall>v \<in> v_decided w. \<forall>u \<in> v_decided w. u = v)"

definition view_le :: "bca_view \<Rightarrow> bca_view \<Rightarrow> bool" where
  "view_le w u \<longleftrightarrow> v_proposed w \<subseteq> v_proposed u \<and> v_sentEcho w \<subseteq> v_sentEcho u
     \<and> v_sentVote w \<subseteq> v_sentVote u \<and> v_sentBind w \<subseteq> v_sentBind u \<and> v_decided w \<subseteq> v_decided u"

lemma view_le_refl [simp]: "view_le w w"
  by (simp add: view_le_def)

lemma view_le_trans: "view_le a b \<Longrightarrow> view_le b d \<Longrightarrow> view_le a d"
  by (auto simp: view_le_def)

text \<open>The senders a node has counted that are correct did send what was counted, before the step.\<close>

definition heard :: "net_cfg \<Rightarrow> (uuid \<Rightarrow> bca_view) \<Rightarrow> bca_view \<Rightarrow> bool" where
  "heard c V w \<longleftrightarrow> (\<forall>s \<in> correct c. \<forall>v.
     (s \<in> v_echoes w v \<longrightarrow> v \<in> v_sentEcho (V s))
     \<and> (s \<in> v_votes w v \<longrightarrow> v \<in> v_sentVote (V s))
     \<and> (s \<in> v_binds w v \<longrightarrow> v \<in> v_sentBind (V s)))"

inductive bca_vstep :: "net_cfg \<Rightarrow> (uuid \<Rightarrow> bca_view) \<Rightarrow> (uuid \<Rightarrow> bca_view) \<Rightarrow> bool" for c where
  node: "\<lbrakk>p \<in> correct c; view_le (V p) w; bca_evidence c w; heard c V w\<rbrakk> \<Longrightarrow> bca_vstep c V (V(p := w))"

inductive bca_vreach :: "net_cfg \<Rightarrow> (uuid \<Rightarrow> bca_view) \<Rightarrow> bool" for c where
  init: "bca_vreach c (\<lambda>_. init_view)"
| step: "bca_vreach c V \<Longrightarrow> bca_vstep c V W \<Longrightarrow> bca_vreach c W"

lemma init_view_evidence: "byz_ok c \<Longrightarrow> bca_evidence c init_view"
  by (simp add: bca_evidence_def init_view_def)

lemma init_view_heard: "heard c V init_view"
  by (simp add: heard_def init_view_def)

lemma heard_le: "heard c V w \<Longrightarrow> (\<And>s. view_le (V s) (W s)) \<Longrightarrow> heard c W w"
  unfolding heard_def view_le_def by blast

lemma vstep_le: "bca_vstep c V W \<Longrightarrow> view_le (V s) (W s)"
  by (auto elim!: bca_vstep.cases)

lemma vreach_evidence:
  assumes "bca_vreach c V" and "byz_ok c"
  shows "bca_evidence c (V p) \<and> heard c V (V p)"
  using assms(1)
proof (induction arbitrary: p rule: bca_vreach.induct)
  case init
  then show ?case by (simp add: init_view_evidence [OF assms(2)] init_view_heard)
next
  case (step V W)
  have le: "view_le (V s) (W s)" for s using step.hyps(2) by (rule vstep_le)
  from step.hyps(2) show ?case
  proof cases
    case (node q w)
    have "heard c W w" using heard_le [OF node(5) le] .
    moreover have "heard c W (V p)" using heard_le [OF conjunct2 [OF step.IH] le] .
    moreover have "W p = (if p = q then w else V p)" using node(1) by simp
    ultimately show ?thesis using node(4) step.IH [of p] by simp
  qed
qed

section \<open>Crusader agreement and binding\<close>

lemma decided_binds:
  "bca_evidence c w \<Longrightarrow> v \<in> v_decided w \<Longrightarrow> v \<noteq> bot \<Longrightarrow> strong_quorum c (v_binds w v)"
  by (auto simp: bca_evidence_def)

lemma vreach_crusader:
  assumes "bca_vreach c V" and ok: "byz_ok c" and "p \<in> correct c" "q \<in> correct c"
    and v: "v \<in> v_decided (V p)" "v \<noteq> bot" and u: "u \<in> v_decided (V q)" "u \<noteq> bot"
  shows "u = v"
proof -
  note ev = vreach_evidence [OF assms(1) ok]
  have sub: "v_binds (V x) y \<subseteq> procs c" for x y using ev [of x] by (simp add: bca_evidence_def)
  have sent: "y \<in> v_sentBind (V s)" if "s \<in> v_binds (V x) y" "s \<in> correct c" for s x y
    using ev [of x] that by (simp add: heard_def)
  show ?thesis
  proof (rule byzq.strong_unique [OF ok, where supports = "\<lambda>s y. y \<in> v_sentBind (V s)"])
    show "strong_quorum c (v_binds (V q) u)" using ev u decided_binds by blast
    show "strong_quorum c (v_binds (V p) v)" using ev v decided_binds by blast
    show "u = v" if "u \<in> v_sentBind (V x)" "v \<in> v_sentBind (V x)" for x
      using ev [of x] that unfolding bca_evidence_def by blast
  qed (use sub sent in blast)+
qed

lemma vreach_binding:
  assumes "bca_vreach c V" and ok: "byz_ok c" and pq: "p \<in> correct c" "q \<in> correct c"
    and slow: "v_fast (V p) = {}" "v_fast (V q) = {}"
    and v: "v \<in> v_sentBind (V p)" "v \<noteq> bot" and u: "u \<in> v_sentBind (V q)" "u \<noteq> bot"
  shows "u = v"
proof -
  note ev = vreach_evidence [OF assms(1) ok]
  have sub: "v_votes (V x) y \<subseteq> procs c" for x y using ev [of x] by (simp add: bca_evidence_def)
  have sent: "y \<in> v_sentVote (V s)" if "s \<in> v_votes (V x) y" "s \<in> correct c" for s x y
    using ev [of x] that by (simp add: heard_def)
  show ?thesis
  proof (rule byzq.strong_unique [OF ok, where supports = "\<lambda>s y. y \<in> v_sentVote (V s)"])
    show "strong_quorum c (v_votes (V q) u)" using ev [of q] u slow unfolding bca_evidence_def by fastforce
    show "strong_quorum c (v_votes (V p) v)" using ev [of p] v slow unfolding bca_evidence_def by fastforce
    show "u = v" if "u \<in> v_sentVote (V x)" "v \<in> v_sentVote (V x)" for x
      using ev [of x] that unfolding bca_evidence_def by blast
  qed (use sub sent in blast)+
qed

section \<open>Unanimity\<close>

text \<open>Every correct node has proposed nothing but \<open>v\<close>.\<close>

definition only_proposed :: "net_cfg \<Rightarrow> (uuid \<Rightarrow> bca_view) \<Rightarrow> byte \<Rightarrow> bool" where
  "only_proposed c V v \<longleftrightarrow> (\<forall>p \<in> correct c. v_proposed (V p) \<subseteq> {v})"

definition only_sent :: "bca_view \<Rightarrow> byte \<Rightarrow> bool" where
  "only_sent w v \<longleftrightarrow> v_sentEcho w \<subseteq> {v} \<and> v_sentVote w \<subseteq> {v} \<and> v_sentBind w \<subseteq> {v} \<and> v_decided w \<subseteq> {v}"

lemma evidence_only_sent:
  assumes ok: "byz_ok c" and ev: "bca_evidence c w" and h: "heard c V w"
    and mine: "v_proposed w \<subseteq> {v}" and others: "\<And>p. p \<in> correct c \<Longrightarrow> only_sent (V p) v"
    and v: "isInputValid v"
  shows "only_sent w v"
proof -
  have sub: "v_echoes w y \<subseteq> procs c" "v_votes w y \<subseteq> procs c" "v_binds w y \<subseteq> procs c" for y
    using ev by (auto simp: bca_evidence_def)
  have echo: "y = v" if "weak_quorum c (v_echoes w y)" for y
    using byzq.weak_correct [OF ok that sub(1)] h others unfolding heard_def only_sent_def by blast
  have echo2: "y = v" if "strong_quorum c (v_echoes w y)" for y
    using byzq.strong_correct [OF ok that sub(1)] h others unfolding heard_def only_sent_def by blast
  have vote: "y = v" if "strong_quorum c (v_votes w y)" for y
    using byzq.strong_correct [OF ok that sub(2)] h others unfolding heard_def only_sent_def by blast
  have bind: "y = v" if "strong_quorum c (v_binds w y)" for y
    using byzq.strong_correct [OF ok that sub(3)] h others unfolding heard_def only_sent_def by blast
  have fast: "y \<in> v_fast w \<Longrightarrow> y = v" for y using ev mine by (auto simp: bca_evidence_def)
  have appr: "approved c w y \<Longrightarrow> y = v" for y using fast echo2 by (auto simp: approved_def)
  have not_both: "\<not> (approved c w 0 \<and> approved c w 1)" using appr [of 0] appr [of 1] by auto
  have "v_sentEcho w \<subseteq> {v}" using ev mine echo unfolding bca_evidence_def by blast
  moreover have "v_sentVote w \<subseteq> {v}" using ev appr unfolding bca_evidence_def by blast
  moreover have "v_decided w \<subseteq> {v}" using ev bind not_both unfolding bca_evidence_def by blast
  moreover have "y = v" if "y \<in> v_sentBind w" for y
    using ev that not_both fast vote unfolding bca_evidence_def by (cases "y = bot") (meson, meson)
  ultimately show ?thesis unfolding only_sent_def by blast
qed

lemma vreach_unanimity:
  assumes "bca_vreach c V" and ok: "byz_ok c" and "only_proposed c V v" and v: "isInputValid v"
    and "p \<in> correct c"
  shows "only_sent (V p) v"
  using assms(1,3,5)
proof (induction arbitrary: p rule: bca_vreach.induct)
  case init
  then show ?case by (simp add: only_sent_def init_view_def)
next
  case (step V W)
  from step.hyps(2) show ?case
  proof cases
    case (node q w)
    have le: "view_le (V s) (W s)" for s using step.hyps(2) by (rule vstep_le)
    have before: "only_proposed c V v" using step.prems(1) le
      unfolding only_proposed_def view_le_def by blast
    have others: "\<And>p. p \<in> correct c \<Longrightarrow> only_sent (V p) v" using step.IH [OF before] .
    have "W q = w" using node(1) by simp
    then have "v_proposed w \<subseteq> {v}" using step.prems(1) node(2) unfolding only_proposed_def by blast
    then have "only_sent w v" using evidence_only_sent [OF ok node(4,5) _ others v] node by blast
    then show ?thesis using others step.prems(2) node by simp
  qed
qed

section \<open>The interface of an implementation\<close>

text \<open>
  The contract of the Go interface \<^verbatim>\<open>bca\<close> (\<^verbatim>\<open>round.go\<close>): \<open>run\<close> is a step of one of the goroutines of the
  implementation, \<open>view P F s\<close> the view of a state in which \<open>P\<close> was proposed and \<open>F\<close> fast-forwarded.
  Each operation keeps the invariant, adds at most its own sender to what the node has counted, and
  never withdraws what the node has sent.
\<close>

definition adds :: "(byte \<Rightarrow> uuid set) \<Rightarrow> (byte \<Rightarrow> uuid set) \<Rightarrow> byte \<Rightarrow> uuid \<Rightarrow> bool" where
  "adds A B v x \<longleftrightarrow> (\<forall>u. B u \<subseteq> A u \<union> {y. y = x \<and> u = v})"

definition same_counts :: "bca_view \<Rightarrow> bca_view \<Rightarrow> bool" where
  "same_counts w u \<longleftrightarrow> v_echoes u = v_echoes w \<and> v_votes u = v_votes w \<and> v_binds u = v_binds w"

lemma adds_self [simp]: "adds A A v x"
  by (auto simp: adds_def)

locale bca_impl =
  fixes fresh :: "net_cfg \<Rightarrow> 's \<Rightarrow> bool"
    and propose :: "byte \<Rightarrow> byte \<Rightarrow> 's \<Rightarrow> 's \<times> 'e outcome"
    and submitEcho submitVote submitBind :: "byte \<Rightarrow> uuid \<Rightarrow> 's \<Rightarrow> 's \<times> 'e outcome"
    and run :: "'s \<Rightarrow> 's \<Rightarrow> bool"
    and fast :: "byte \<Rightarrow> byte \<Rightarrow> 's \<Rightarrow> bool"
    and view :: "byte set \<Rightarrow> byte set \<Rightarrow> 's \<Rightarrow> bca_view"
    and inv :: "net_cfg \<Rightarrow> byte set \<Rightarrow> byte set \<Rightarrow> 's \<Rightarrow> bool"
  assumes fresh_inv: "byz_ok c \<Longrightarrow> fresh c s \<Longrightarrow> inv c {} {} s"
    and fresh_view: "fresh c s \<Longrightarrow> view {} {} s = init_view"
    and evidence: "byz_ok c \<Longrightarrow> inv c P F s \<Longrightarrow> bca_evidence c (view P F s)"
    and view_proposed: "v_proposed (view P F s) = P"
    and propose_rejected: "propose est coin s = (s', GoErr e) \<Longrightarrow> s' = s"
    and propose_inv: "\<lbrakk>byz_ok c; inv c P F s; isInputValid est; propose est coin s = (s', r); \<nexists>e. r = GoErr e\<rbrakk>
      \<Longrightarrow> inv c (insert est P) (if fast est coin s then insert est F else F) s'"
    and propose_view: "propose est coin s = (s', r) \<Longrightarrow>
      view_le (view P F s) (view (insert est P) F' s') \<and> same_counts (view P F s) (view P' F' s')"
    and submitEcho_inv: "\<lbrakk>byz_ok c; inv c P F s; x \<in> procs c; submitEcho v x s = (s', r)\<rbrakk> \<Longrightarrow> inv c P F s'"
    and submitVote_inv: "\<lbrakk>byz_ok c; inv c P F s; x \<in> procs c; submitVote v x s = (s', r)\<rbrakk> \<Longrightarrow> inv c P F s'"
    and submitBind_inv: "\<lbrakk>byz_ok c; inv c P F s; x \<in> procs c; submitBind v x s = (s', r)\<rbrakk> \<Longrightarrow> inv c P F s'"
    and submitEcho_view: "submitEcho v x s = (s', r) \<Longrightarrow> view_le (view P F s) (view P F s')
      \<and> adds (v_echoes (view P F s)) (v_echoes (view P F s')) v x
      \<and> v_votes (view P F s') = v_votes (view P F s) \<and> v_binds (view P F s') = v_binds (view P F s)"
    and submitVote_view: "submitVote v x s = (s', r) \<Longrightarrow> view_le (view P F s) (view P F s')
      \<and> adds (v_votes (view P F s)) (v_votes (view P F s')) v x
      \<and> v_echoes (view P F s') = v_echoes (view P F s) \<and> v_binds (view P F s') = v_binds (view P F s)"
    and submitBind_view: "submitBind v x s = (s', r) \<Longrightarrow> view_le (view P F s) (view P F s')
      \<and> adds (v_binds (view P F s)) (v_binds (view P F s')) v x
      \<and> v_echoes (view P F s') = v_echoes (view P F s) \<and> v_votes (view P F s') = v_votes (view P F s)"
    and run_inv: "\<lbrakk>byz_ok c; inv c P F s; run s s'\<rbrakk> \<Longrightarrow> inv c P F s'"
    and run_view: "run s s' \<Longrightarrow> view_le (view P F s) (view P F s') \<and> same_counts (view P F s) (view P F s')"
begin

text \<open>Each operation of a node is a step of the network of views.\<close>

lemma run_vstep:
  assumes "byz_ok c" and "p \<in> correct c" and "V p = view P F s" and "inv c P F s" and "heard c V (V p)" and "run s s'"
  shows "bca_vstep c V (V(p := view P F s'))"
  using assms run_view [OF assms(6)] evidence [OF assms(1) run_inv [OF assms(1,4,6)]]
  by (intro bca_vstep.node) (auto simp: heard_def same_counts_def)

lemma propose_vstep:
  assumes "byz_ok c" and "p \<in> correct c" and "V p = view P F s" and "inv c P F s" and "heard c V (V p)"
    and "propose est coin s = (s', r)" and "\<nexists>e. r = GoErr e" and "isInputValid est"
  shows "bca_vstep c V (V(p := view (insert est P) (if fast est coin s then insert est F else F) s'))"
  using assms(3,5) evidence [OF assms(1) propose_inv [OF assms(1,4,8,6,7)]]
    propose_view [OF assms(6), where P = P and F = F and P' = "insert est P"
      and F' = "if fast est coin s then insert est F else F"]
  by (intro bca_vstep.node assms(2)) (auto simp: heard_def same_counts_def)

lemma submitEcho_vstep:
  assumes "byz_ok c" and "p \<in> correct c" and "V p = view P F s" and "inv c P F s" and "heard c V (V p)"
    and "x \<in> procs c" and "submitEcho v x s = (s', r)" and "x \<in> correct c \<longrightarrow> v \<in> v_sentEcho (V x)"
  shows "bca_vstep c V (V(p := view P F s'))"
  using assms(3,5,8) submitEcho_view [OF assms(7), of P F] evidence [OF assms(1) submitEcho_inv [OF assms(1,4,6,7)]]
  by (intro bca_vstep.node assms(2)) (auto simp: heard_def adds_def)

lemma submitVote_vstep:
  assumes "byz_ok c" and "p \<in> correct c" and "V p = view P F s" and "inv c P F s" and "heard c V (V p)"
    and "x \<in> procs c" and "submitVote v x s = (s', r)" and "x \<in> correct c \<longrightarrow> v \<in> v_sentVote (V x)"
  shows "bca_vstep c V (V(p := view P F s'))"
  using assms(3,5,8) submitVote_view [OF assms(7), of P F] evidence [OF assms(1) submitVote_inv [OF assms(1,4,6,7)]]
  by (intro bca_vstep.node assms(2)) (auto simp: heard_def adds_def)

lemma submitBind_vstep:
  assumes "byz_ok c" and "p \<in> correct c" and "V p = view P F s" and "inv c P F s" and "heard c V (V p)"
    and "x \<in> procs c" and "submitBind v x s = (s', r)" and "x \<in> correct c \<longrightarrow> v \<in> v_sentBind (V x)"
  shows "bca_vstep c V (V(p := view P F s'))"
  using assms(3,5,8) submitBind_view [OF assms(7), of P F] evidence [OF assms(1) submitBind_inv [OF assms(1,4,6,7)]]
  by (intro bca_vstep.node assms(2)) (auto simp: heard_def adds_def)

end

end
