(* ===== verification/BCA_Internal.thy ===== *)
theory BCA_Internal
  imports BCA_Spec
begin

text \<open>
  The binding crusader agreement of the first round, \<^verbatim>\<open>asynchronousBinaryAgreement/internalValidityBCA.go\<close>.
  The handlers run one at a time on the node's invoker; the goroutines \<^verbatim>\<open>waitToVote\<close>,
  \<^verbatim>\<open>waitToBind\<close> and \<^verbatim>\<open>waitToDecide\<close> run beside them, so each is a program counter and a step
  function with one channel operation per step; where the source selects between two ready channels
  the Boolean argument chooses.  A step is \<open>None\<close> while the goroutine waits.  The slices indexed by
  a value are functions; the code indexes them with validated values only.  The record is
  extensible: \<^verbatim>\<open>evbca\<close> has these fields and three more.
\<close>

section \<open>State\<close>

datatype vote_pc = VFirst | VBcast byte | VSecond | VBindBot | VTermBot | VDone
datatype bind_pc = BWait | BBcast byte | BDone
datatype decide_pc = DWait | DWaitVal | DOut byte | DUnblock | DDone

record ivbca =
  bca_n :: uint
  bca_f :: uint
  sentEchoes :: "byte \<Rightarrow> bool"
  bca_echoes :: "byte \<Rightarrow> uuid set"
  bca_voted :: "byte \<Rightarrow> uuid set"
  bca_bound :: "byte \<Rightarrow> uuid set"
  bcastEchoChan :: "byte chan"
  bcastVoteChan :: "byte chan"
  bcastBindChan :: "byte chan"
  outputDecision :: "byte chan"
  outputExternalValidChan :: "byte chan"
  approveValChan :: "byte chan"
  bindBotChan :: "unit chan"
  bindValChan :: "byte chan"
  terminateBotChan :: "unit chan"
  terminateValChan :: "byte chan"
  unblockChan :: "unit chan"
  vote_pc :: vote_pc
  bind_pc :: bind_pc
  decide_pc :: decide_pc

definition newBCA :: "uint \<Rightarrow> uint \<Rightarrow> ivbca" where
  "newBCA n f = \<lparr>bca_n = n, bca_f = f, sentEchoes = (\<lambda>_. False),
     bca_echoes = (\<lambda>_. {}), bca_voted = (\<lambda>_. {}), bca_bound = (\<lambda>_. {}),
     bcastEchoChan = make_chan 2, bcastVoteChan = make_chan 1, bcastBindChan = make_chan 1,
     outputDecision = make_chan 1, outputExternalValidChan = make_chan 2, approveValChan = make_chan 2,
     bindBotChan = make_chan 1, bindValChan = make_chan 1, terminateBotChan = make_chan 2,
     terminateValChan = make_chan 1, unblockChan = make_chan 1,
     vote_pc = VFirst, bind_pc = BWait, decide_pc = DWait\<rparr>"

datatype bca_error =
    InvalidInput byte
  | InvalidCoin byte
  | AlreadySubmittedEcho
  | AlreadyVoted
  | AlreadyBound

section \<open>Handlers\<close>

definition broadcastEcho :: "byte \<Rightarrow> 'a ivbca_scheme \<Rightarrow> 'a ivbca_scheme \<times> bca_error outcome" where
  "broadcastEcho echo s =
     chan_put bcastEchoChan bcastEchoChan_update echo (s\<lparr>sentEchoes := (sentEchoes s)(echo := True)\<rparr>)"

definition iv_propose :: "byte \<Rightarrow> byte \<Rightarrow> 'a ivbca_scheme \<Rightarrow> 'a ivbca_scheme \<times> bca_error outcome" where
  "iv_propose est prevCoin s =
     (if \<not> isInputValid est then (s, GoErr (InvalidInput est))
      else if prevCoin \<noteq> bot then (s, GoErr (InvalidCoin prevCoin))
      else if \<not> sentEchoes s est then broadcastEcho est s
      else (s, GoNil))"

definition iv_submitEcho :: "byte \<Rightarrow> uuid \<Rightarrow> 'a ivbca_scheme \<Rightarrow> 'a ivbca_scheme \<times> bca_error outcome" where
  "iv_submitEcho echo sender s =
     (if \<not> isInputValid echo then (s, GoErr (InvalidInput echo))
      else if sender \<in> bca_echoes s echo then (s, GoErr AlreadySubmittedEcho)
      else
        let s1 = s\<lparr>bca_echoes := (bca_echoes s)(echo := insert sender (bca_echoes s echo))\<rparr>;
            countEcho = int (card (bca_echoes s1 echo))
        in and_then
             (if countEcho = int_of_uint (bca_f s1 + 1) \<and> \<not> sentEchoes s1 echo
              then broadcastEcho echo s1 else (s1, GoNil))
             (\<lambda>s2. if countEcho = int_of_uint (bca_n s2 - bca_f s2)
                   then and_then (chan_put outputExternalValidChan outputExternalValidChan_update echo s2)
                          (chan_put approveValChan approveValChan_update echo)
                   else (s2, GoNil)))"

definition iv_submitVote :: "byte \<Rightarrow> uuid \<Rightarrow> 'a ivbca_scheme \<Rightarrow> 'a ivbca_scheme \<times> bca_error outcome" where
  "iv_submitVote vote sender s =
     (if \<not> isInputValid vote then (s, GoErr (InvalidInput vote))
      else if sender \<in> bca_voted s 0 \<or> sender \<in> bca_voted s 1 then (s, GoErr AlreadyVoted)
      else
        let s1 = s\<lparr>bca_voted := (bca_voted s)(vote := insert sender (bca_voted s vote))\<rparr>
        in if int (card (bca_voted s1 vote)) = int_of_uint (bca_n s1 - bca_f s1)
              \<and> int (card (bca_voted s1 (1 - vote))) < int_of_uint (bca_n s1 - bca_f s1)
           then chan_put bindValChan bindValChan_update vote s1
           else (s1, GoNil))"

definition iv_submitBind :: "byte \<Rightarrow> uuid \<Rightarrow> 'a ivbca_scheme \<Rightarrow> 'a ivbca_scheme \<times> bca_error outcome" where
  "iv_submitBind bind sender s =
     (if bind > bot then (s, GoErr (InvalidInput bind))
      else if sender \<in> bca_bound s 0 \<or> sender \<in> bca_bound s 1 \<or> sender \<in> bca_bound s bot
      then (s, GoErr AlreadyBound)
      else
        let s1 = s\<lparr>bca_bound := (bca_bound s)(bind := insert sender (bca_bound s bind))\<rparr>
        in if int (card (bca_bound s1 bind)) = int_of_uint (bca_n s1 - bca_f s1)
           then chan_put terminateValChan terminateValChan_update bind s1
           else if int (card (bca_bound s1 0)) + int (card (bca_bound s1 1)) + int (card (bca_bound s1 bot))
                   = int_of_uint (bca_n s1 - bca_f s1)
           then chan_put terminateBotChan terminateBotChan_update () s1
           else (s1, GoNil))"

section \<open>Goroutines\<close>

text \<open>A send followed by a move of the program counter; \<open>None\<close> while the buffer is full.\<close>

definition send_then ::
  "('s \<Rightarrow> 'b chan) \<Rightarrow> (('b chan \<Rightarrow> 'b chan) \<Rightarrow> 's \<Rightarrow> 's) \<Rightarrow> 'b \<Rightarrow> ('s \<Rightarrow> 's) \<Rightarrow> 's \<Rightarrow> 's option"
where
  "send_then sel upd x goto s =
     (case chan_send x (sel s) of None \<Rightarrow> None | Some ch \<Rightarrow> Some (goto (upd (\<lambda>_. ch) s)))"

definition recv_then ::
  "('s \<Rightarrow> 'b chan) \<Rightarrow> (('b chan \<Rightarrow> 'b chan) \<Rightarrow> 's \<Rightarrow> 's) \<Rightarrow> ('b \<Rightarrow> 's \<Rightarrow> 's) \<Rightarrow> 's \<Rightarrow> 's option"
where
  "recv_then sel upd goto s =
     (case chan_recv (sel s) of None \<Rightarrow> None | Some (x, ch) \<Rightarrow> Some (goto x (upd (\<lambda>_. ch) s)))"

definition iv_waitToVote :: "bool \<Rightarrow> 'a ivbca_scheme \<Rightarrow> 'a ivbca_scheme option" where
  "iv_waitToVote unblock s =
     (case vote_pc s of
        VFirst \<Rightarrow> recv_then approveValChan approveValChan_update (\<lambda>first. vote_pc_update (\<lambda>_. VBcast first)) s
      | VBcast first \<Rightarrow> send_then bcastVoteChan bcastVoteChan_update first (vote_pc_update (\<lambda>_. VSecond)) s
      | VSecond \<Rightarrow>
          if unblock then recv_then unblockChan unblockChan_update (\<lambda>_. vote_pc_update (\<lambda>_. VDone)) s
          else recv_then approveValChan approveValChan_update (\<lambda>_. vote_pc_update (\<lambda>_. VBindBot)) s
      | VBindBot \<Rightarrow> send_then bindBotChan bindBotChan_update () (vote_pc_update (\<lambda>_. VTermBot)) s
      | VTermBot \<Rightarrow> send_then terminateBotChan terminateBotChan_update () (vote_pc_update (\<lambda>_. VDone)) s
      | VDone \<Rightarrow> None)"

definition iv_waitToBind :: "bool \<Rightarrow> 'a ivbca_scheme \<Rightarrow> 'a ivbca_scheme option" where
  "iv_waitToBind fromBot s =
     (case bind_pc s of
        BWait \<Rightarrow>
          if fromBot then recv_then bindBotChan bindBotChan_update (\<lambda>_. bind_pc_update (\<lambda>_. BBcast bot)) s
          else recv_then bindValChan bindValChan_update (\<lambda>v. bind_pc_update (\<lambda>_. BBcast v)) s
      | BBcast bindVal \<Rightarrow> send_then bcastBindChan bcastBindChan_update bindVal (bind_pc_update (\<lambda>_. BDone)) s
      | BDone \<Rightarrow> None)"

definition iv_waitToDecide :: "bool \<Rightarrow> 'a ivbca_scheme \<Rightarrow> 'a ivbca_scheme option" where
  "iv_waitToDecide fromBot s =
     (case decide_pc s of
        DWait \<Rightarrow>
          if fromBot then recv_then terminateBotChan terminateBotChan_update (\<lambda>_. decide_pc_update (\<lambda>_. DWaitVal)) s
          else recv_then terminateValChan terminateValChan_update (\<lambda>v. decide_pc_update (\<lambda>_. DOut v)) s
      | DWaitVal \<Rightarrow>
          if fromBot then recv_then terminateBotChan terminateBotChan_update (\<lambda>_. decide_pc_update (\<lambda>_. DOut bot)) s
          else recv_then terminateValChan terminateValChan_update (\<lambda>v. decide_pc_update (\<lambda>_. DOut v)) s
      | DOut decision \<Rightarrow> send_then outputDecision outputDecision_update decision (decide_pc_update (\<lambda>_. DUnblock)) s
      | DUnblock \<Rightarrow> send_then unblockChan unblockChan_update () (decide_pc_update (\<lambda>_. DDone)) s
      | DDone \<Rightarrow> None)"

lemmas [bca_defs] = broadcastEcho_def iv_propose_def iv_submitEcho_def iv_submitVote_def iv_submitBind_def
  send_then_def recv_then_def iv_waitToVote_def iv_waitToBind_def iv_waitToDecide_def Let_def

section \<open>Thresholds\<close>

lemma int_of_uint_cases:
  "int_of_uint u = int (unat u) \<and> unat u < 2 ^ 63 \<or> int_of_uint u < 0"
proof -
  have "unat u < 2 ^ 64" by (rule order.strict_trans2 [OF unsigned_less]) simp
  then have "int (unat u) < int (2 ^ 64)" by (simp only: of_nat_less_iff)
  then have "int (unat u) - 2 ^ 64 < 0" by (simp only: of_nat_power of_nat_numeral)
  then show ?thesis unfolding int_of_uint_def by (cases "unat u < 2 ^ 63") (simp_all only: if_True if_False, blast+)
qed

lemma hits_eq: "int k = int_of_uint u \<Longrightarrow> k = unat u"
  using int_of_uint_cases [of u] by linarith

lemma int_less_uint: "int k < int_of_uint u \<Longrightarrow> k < unat u"
  using int_of_uint_cases [of u] by linarith

lemma hits_strong: "int (card A) = int_of_uint (cfg_n c - cfg_f c) \<Longrightarrow> strong_quorum c A"
  by (drule hits_eq) (simp add: strong_quorum_def)

lemma hits_weak: "int (card A) = int_of_uint (cfg_f c + 1) \<Longrightarrow> weak_quorum c A"
  by (drule hits_eq) (simp add: weak_quorum_def)

end
