(* ===== verification/BCA_Invariant.thy ===== *)
theory BCA_Invariant
  imports BCA_Internal
begin

text \<open>
  The invariant of a node of binding crusader agreement, in parts that the operations can be checked
  against one by one; \<open>P\<close> are the values proposed at the node and \<open>F\<close> those it fast-forwarded (none
  for \<^verbatim>\<open>ivbca\<close>).  Its consequences: no send of the first round's agreement ever waits, and the
  node's view has the evidence that \<open>BCA_Spec\<close> asks for.
\<close>

section \<open>The parts of the invariant\<close>

definition inv_sets :: "net_cfg \<Rightarrow> 'a ivbca_scheme \<Rightarrow> bool" where
  "inv_sets c s \<longleftrightarrow> bca_n s = cfg_n c \<and> bca_f s = cfg_f c
     \<and> (\<forall>v. bca_echoes s v \<subseteq> procs c \<and> bca_voted s v \<subseteq> procs c \<and> bca_bound s v \<subseteq> procs c)
     \<and> bca_voted s 0 \<inter> bca_voted s 1 = {}
     \<and> bca_bound s 0 \<inter> bca_bound s 1 = {} \<and> bca_bound s 0 \<inter> bca_bound s bot = {}
     \<and> bca_bound s 1 \<inter> bca_bound s bot = {} \<and> (\<forall>v. bca_bound s v \<noteq> {} \<longrightarrow> v \<le> bot)"

definition inv_echo :: "net_cfg \<Rightarrow> byte set \<Rightarrow> 'a ivbca_scheme \<Rightarrow> bool" where
  "inv_echo c P s \<longleftrightarrow> ch_cap (bcastEchoChan s) = 2 \<and> distinct (ch_sent (bcastEchoChan s))
     \<and> (\<forall>v \<in> set (ch_sent (bcastEchoChan s)). isInputValid v \<and> sentEchoes s v
          \<and> (v \<in> P \<or> weak_quorum c (bca_echoes s v)))"

definition inv_approve :: "net_cfg \<Rightarrow> byte set \<Rightarrow> 'a ivbca_scheme \<Rightarrow> bool" where
  "inv_approve c F s \<longleftrightarrow> (\<forall>v \<in> set (ch_sent (approveValChan s)).
     isInputValid v \<and> (v \<in> F \<or> strong_quorum c (bca_echoes s v)))"

text \<open>The first round approves each value once, when its echoes reach the quorum.\<close>

definition inv_first :: "net_cfg \<Rightarrow> 'a ivbca_scheme \<Rightarrow> bool" where
  "inv_first c s \<longleftrightarrow> ch_cap (approveValChan s) = 2 \<and> distinct (ch_sent (approveValChan s))
     \<and> (\<forall>v \<in> set (ch_sent (approveValChan s)). strong_quorum c (bca_echoes s v))
     \<and> ch_cap (outputExternalValidChan s) = 2
     \<and> ch_sent (outputExternalValidChan s) = ch_sent (approveValChan s)
     \<and> ch_cap (bindValChan s) = 1 \<and> length (ch_sent (bindValChan s)) \<le> 1
     \<and> (\<forall>v \<in> set (ch_sent (bindValChan s)). isInputValid v \<and> strong_quorum c (bca_voted s v))"

definition inv_vote :: "'a ivbca_scheme \<Rightarrow> bool" where
  "inv_vote s \<longleftrightarrow> ch_taken (approveValChan s) \<le> length (ch_sent (approveValChan s))
     \<and> ch_cap (bcastVoteChan s) = 1 \<and> ch_cap (bindBotChan s) = 1
     \<and> (case vote_pc s of
          VFirst \<Rightarrow> ch_taken (approveValChan s) = 0 \<and> ch_sent (bcastVoteChan s) = [] \<and> ch_sent (bindBotChan s) = []
        | VBcast v \<Rightarrow> ch_taken (approveValChan s) = 1 \<and> v \<in> set (ch_sent (approveValChan s))
            \<and> ch_sent (bcastVoteChan s) = [] \<and> ch_sent (bindBotChan s) = []
        | VSecond \<Rightarrow> ch_taken (approveValChan s) = 1 \<and> ch_sent (bindBotChan s) = []
            \<and> (\<exists>v. ch_sent (bcastVoteChan s) = [v] \<and> v \<in> set (ch_sent (approveValChan s)))
        | VBindBot \<Rightarrow> ch_taken (approveValChan s) = 2 \<and> ch_sent (bindBotChan s) = []
            \<and> (\<exists>v. ch_sent (bcastVoteChan s) = [v] \<and> v \<in> set (ch_sent (approveValChan s)))
        | VTermBot \<Rightarrow> ch_taken (approveValChan s) = 2 \<and> ch_sent (bindBotChan s) = [()]
            \<and> (\<exists>v. ch_sent (bcastVoteChan s) = [v] \<and> v \<in> set (ch_sent (approveValChan s)))
        | VDone \<Rightarrow> (ch_sent (bindBotChan s) = [] \<or> ch_taken (approveValChan s) = 2 \<and> ch_sent (bindBotChan s) = [()])
            \<and> (\<exists>v. ch_sent (bcastVoteChan s) = [v] \<and> v \<in> set (ch_sent (approveValChan s))))"

definition bind_ok :: "'a ivbca_scheme \<Rightarrow> byte \<Rightarrow> bool" where
  "bind_ok s v \<longleftrightarrow> v = bot \<and> ch_sent (bindBotChan s) \<noteq> [] \<or> v \<in> set (ch_sent (bindValChan s))"

definition inv_bind :: "'a ivbca_scheme \<Rightarrow> bool" where
  "inv_bind s \<longleftrightarrow> ch_cap (bcastBindChan s) \<ge> 1
     \<and> (case bind_pc s of
          BWait \<Rightarrow> ch_sent (bcastBindChan s) = []
        | BBcast v \<Rightarrow> ch_sent (bcastBindChan s) = [] \<and> bind_ok s v
        | BDone \<Rightarrow> \<exists>v. ch_sent (bcastBindChan s) = [v] \<and> bind_ok s v)"

definition all_bound :: "'a ivbca_scheme \<Rightarrow> uuid set" where
  "all_bound s = bca_bound s 0 \<union> bca_bound s 1 \<union> bca_bound s bot"

text \<open>\<open>tok\<close> says whether the voting goroutine has handed over its token for \<open>bot\<close>.\<close>

definition inv_term :: "net_cfg \<Rightarrow> bool \<Rightarrow> 'a ivbca_scheme \<Rightarrow> bool" where
  "inv_term c tok s \<longleftrightarrow> ch_cap (terminateValChan s) = 1 \<and> length (ch_sent (terminateValChan s)) \<le> 1
     \<and> (\<forall>v \<in> set (ch_sent (terminateValChan s)). strong_quorum c (bca_bound s v))
     \<and> ch_cap (terminateBotChan s) = 2
     \<and> length (ch_sent (terminateBotChan s)) \<le> of_bool tok + of_bool (strong_quorum c (all_bound s))"

definition vote_token :: "'a ivbca_scheme \<Rightarrow> bool" where
  "vote_token s \<longleftrightarrow> vote_pc s = VDone \<and> ch_sent (bindBotChan s) \<noteq> []"

definition dec_ok :: "'a ivbca_scheme \<Rightarrow> byte \<Rightarrow> bool" where
  "dec_ok s v \<longleftrightarrow> v \<in> set (ch_sent (terminateValChan s)) \<or> v = bot \<and> 2 \<le> length (ch_sent (terminateBotChan s))"

definition inv_dec :: "'a ivbca_scheme \<Rightarrow> bool" where
  "inv_dec s \<longleftrightarrow> ch_cap (outputDecision s) = 1 \<and> ch_cap (unblockChan s) = 1
     \<and> (case decide_pc s of
          DWait \<Rightarrow> ch_sent (outputDecision s) = [] \<and> ch_taken (terminateBotChan s) = 0
            \<and> ch_taken (terminateValChan s) = 0 \<and> ch_sent (unblockChan s) = []
        | DWaitVal \<Rightarrow> ch_sent (outputDecision s) = [] \<and> ch_taken (terminateBotChan s) = 1
            \<and> ch_taken (terminateValChan s) = 0 \<and> ch_sent (unblockChan s) = []
        | DOut v \<Rightarrow> ch_sent (outputDecision s) = [] \<and> dec_ok s v \<and> ch_sent (unblockChan s) = []
        | DUnblock \<Rightarrow> \<exists>v. ch_sent (outputDecision s) = [v] \<and> dec_ok s v \<and> ch_sent (unblockChan s) = []
        | DDone \<Rightarrow> \<exists>v. ch_sent (outputDecision s) = [v] \<and> dec_ok s v \<and> ch_sent (unblockChan s) = [()])"

definition iv_inv :: "net_cfg \<Rightarrow> byte set \<Rightarrow> ivbca \<Rightarrow> bool" where
  "iv_inv c P s \<longleftrightarrow> inv_sets c s \<and> inv_echo c P s \<and> (\<forall>v. sentEchoes s v \<longrightarrow> v \<in> set (ch_sent (bcastEchoChan s)))
     \<and> inv_approve c {} s \<and> inv_first c s \<and> inv_vote s \<and> inv_bind s \<and> inv_term c (vote_token s) s \<and> inv_dec s"

lemmas inv_parts = inv_sets_def inv_echo_def inv_approve_def inv_first_def inv_vote_def inv_bind_def
  inv_term_def inv_dec_def

lemma iv_inv_init: "byz_ok c \<Longrightarrow> iv_inv c {} (newBCA (cfg_n c) (cfg_f c))"
  by (simp add: iv_inv_def inv_parts newBCA_def vote_token_def)

section \<open>Frames\<close>

text \<open>Each part of the invariant reads a few fields only; updates of the others leave it alone.\<close>

lemma inv_sets_frame [simp]:
  "inv_sets c (sentEchoes_update u0 s) = inv_sets c s"
  "inv_sets c (bcastEchoChan_update u4 s) = inv_sets c s"
  "inv_sets c (bcastVoteChan_update u5 s) = inv_sets c s"
  "inv_sets c (bcastBindChan_update u6 s) = inv_sets c s"
  "inv_sets c (outputDecision_update u7 s) = inv_sets c s"
  "inv_sets c (outputExternalValidChan_update u8 s) = inv_sets c s"
  "inv_sets c (approveValChan_update u9 s) = inv_sets c s"
  "inv_sets c (bindBotChan_update u10 s) = inv_sets c s"
  "inv_sets c (bindValChan_update u11 s) = inv_sets c s"
  "inv_sets c (terminateBotChan_update u12 s) = inv_sets c s"
  "inv_sets c (terminateValChan_update u13 s) = inv_sets c s"
  "inv_sets c (unblockChan_update u14 s) = inv_sets c s" "inv_sets c (vote_pc_update u15 s) = inv_sets c s"
  "inv_sets c (bind_pc_update u16 s) = inv_sets c s" "inv_sets c (decide_pc_update u17 s) = inv_sets c s"
  by (simp_all add: inv_sets_def)

lemma inv_echo_frame [simp]:
  "inv_echo c P (bca_voted_update u2 s) = inv_echo c P s"
  "inv_echo c P (bca_bound_update u3 s) = inv_echo c P s"
  "inv_echo c P (bcastVoteChan_update u5 s) = inv_echo c P s"
  "inv_echo c P (bcastBindChan_update u6 s) = inv_echo c P s"
  "inv_echo c P (outputDecision_update u7 s) = inv_echo c P s"
  "inv_echo c P (outputExternalValidChan_update u8 s) = inv_echo c P s"
  "inv_echo c P (approveValChan_update u9 s) = inv_echo c P s"
  "inv_echo c P (bindBotChan_update u10 s) = inv_echo c P s"
  "inv_echo c P (bindValChan_update u11 s) = inv_echo c P s"
  "inv_echo c P (terminateBotChan_update u12 s) = inv_echo c P s"
  "inv_echo c P (terminateValChan_update u13 s) = inv_echo c P s"
  "inv_echo c P (unblockChan_update u14 s) = inv_echo c P s"
  "inv_echo c P (vote_pc_update u15 s) = inv_echo c P s"
  "inv_echo c P (bind_pc_update u16 s) = inv_echo c P s"
  "inv_echo c P (decide_pc_update u17 s) = inv_echo c P s"
  by (simp_all add: inv_echo_def)

lemma inv_approve_frame [simp]:
  "inv_approve c F (sentEchoes_update u0 s) = inv_approve c F s"
  "inv_approve c F (bca_voted_update u2 s) = inv_approve c F s"
  "inv_approve c F (bca_bound_update u3 s) = inv_approve c F s"
  "inv_approve c F (bcastEchoChan_update u4 s) = inv_approve c F s"
  "inv_approve c F (bcastVoteChan_update u5 s) = inv_approve c F s"
  "inv_approve c F (bcastBindChan_update u6 s) = inv_approve c F s"
  "inv_approve c F (outputDecision_update u7 s) = inv_approve c F s"
  "inv_approve c F (outputExternalValidChan_update u8 s) = inv_approve c F s"
  "inv_approve c F (bindBotChan_update u10 s) = inv_approve c F s"
  "inv_approve c F (bindValChan_update u11 s) = inv_approve c F s"
  "inv_approve c F (terminateBotChan_update u12 s) = inv_approve c F s"
  "inv_approve c F (terminateValChan_update u13 s) = inv_approve c F s"
  "inv_approve c F (unblockChan_update u14 s) = inv_approve c F s"
  "inv_approve c F (vote_pc_update u15 s) = inv_approve c F s"
  "inv_approve c F (bind_pc_update u16 s) = inv_approve c F s"
  "inv_approve c F (decide_pc_update u17 s) = inv_approve c F s"
  by (simp_all add: inv_approve_def)

lemma inv_first_frame [simp]:
  "inv_first c (sentEchoes_update u0 s) = inv_first c s"
  "inv_first c (bca_bound_update u3 s) = inv_first c s"
  "inv_first c (bcastEchoChan_update u4 s) = inv_first c s"
  "inv_first c (bcastVoteChan_update u5 s) = inv_first c s"
  "inv_first c (bcastBindChan_update u6 s) = inv_first c s"
  "inv_first c (outputDecision_update u7 s) = inv_first c s"
  "inv_first c (bindBotChan_update u10 s) = inv_first c s"
  "inv_first c (terminateBotChan_update u12 s) = inv_first c s"
  "inv_first c (terminateValChan_update u13 s) = inv_first c s"
  "inv_first c (unblockChan_update u14 s) = inv_first c s"
  "inv_first c (vote_pc_update u15 s) = inv_first c s" "inv_first c (bind_pc_update u16 s) = inv_first c s"
  "inv_first c (decide_pc_update u17 s) = inv_first c s"
  by (simp_all add: inv_first_def)

lemma inv_vote_frame [simp]:
  "inv_vote (sentEchoes_update u0 s) = inv_vote s" "inv_vote (bca_echoes_update u1 s) = inv_vote s"
  "inv_vote (bca_voted_update u2 s) = inv_vote s" "inv_vote (bca_bound_update u3 s) = inv_vote s"
  "inv_vote (bcastEchoChan_update u4 s) = inv_vote s" "inv_vote (bcastBindChan_update u6 s) = inv_vote s"
  "inv_vote (outputDecision_update u7 s) = inv_vote s"
  "inv_vote (outputExternalValidChan_update u8 s) = inv_vote s"
  "inv_vote (bindValChan_update u11 s) = inv_vote s" "inv_vote (terminateBotChan_update u12 s) = inv_vote s"
  "inv_vote (terminateValChan_update u13 s) = inv_vote s" "inv_vote (unblockChan_update u14 s) = inv_vote s"
  "inv_vote (bind_pc_update u16 s) = inv_vote s" "inv_vote (decide_pc_update u17 s) = inv_vote s"
  by (simp_all add: inv_vote_def cong: vote_pc.case_cong)

lemma inv_bind_frame [simp]:
  "inv_bind (sentEchoes_update u0 s) = inv_bind s" "inv_bind (bca_echoes_update u1 s) = inv_bind s"
  "inv_bind (bca_voted_update u2 s) = inv_bind s" "inv_bind (bca_bound_update u3 s) = inv_bind s"
  "inv_bind (bcastEchoChan_update u4 s) = inv_bind s" "inv_bind (bcastVoteChan_update u5 s) = inv_bind s"
  "inv_bind (outputDecision_update u7 s) = inv_bind s"
  "inv_bind (outputExternalValidChan_update u8 s) = inv_bind s"
  "inv_bind (approveValChan_update u9 s) = inv_bind s"
  "inv_bind (terminateBotChan_update u12 s) = inv_bind s"
  "inv_bind (terminateValChan_update u13 s) = inv_bind s" "inv_bind (unblockChan_update u14 s) = inv_bind s"
  "inv_bind (vote_pc_update u15 s) = inv_bind s" "inv_bind (decide_pc_update u17 s) = inv_bind s"
  by (simp_all add: inv_bind_def bind_ok_def cong: bind_pc.case_cong)

lemma inv_term_frame [simp]:
  "inv_term c tok (sentEchoes_update u0 s) = inv_term c tok s"
  "inv_term c tok (bca_echoes_update u1 s) = inv_term c tok s"
  "inv_term c tok (bca_voted_update u2 s) = inv_term c tok s"
  "inv_term c tok (bcastEchoChan_update u4 s) = inv_term c tok s"
  "inv_term c tok (bcastVoteChan_update u5 s) = inv_term c tok s"
  "inv_term c tok (bcastBindChan_update u6 s) = inv_term c tok s"
  "inv_term c tok (outputDecision_update u7 s) = inv_term c tok s"
  "inv_term c tok (outputExternalValidChan_update u8 s) = inv_term c tok s"
  "inv_term c tok (approveValChan_update u9 s) = inv_term c tok s"
  "inv_term c tok (bindBotChan_update u10 s) = inv_term c tok s"
  "inv_term c tok (bindValChan_update u11 s) = inv_term c tok s"
  "inv_term c tok (unblockChan_update u14 s) = inv_term c tok s"
  "inv_term c tok (vote_pc_update u15 s) = inv_term c tok s"
  "inv_term c tok (bind_pc_update u16 s) = inv_term c tok s"
  "inv_term c tok (decide_pc_update u17 s) = inv_term c tok s"
  by (simp_all add: inv_term_def all_bound_def)

lemma vote_token_frame [simp]:
  "vote_token (sentEchoes_update u0 s) = vote_token s"
  "vote_token (bca_echoes_update u1 s) = vote_token s"
  "vote_token (bca_voted_update u2 s) = vote_token s"
  "vote_token (bca_bound_update u3 s) = vote_token s"
  "vote_token (bcastEchoChan_update u4 s) = vote_token s"
  "vote_token (bcastVoteChan_update u5 s) = vote_token s"
  "vote_token (bcastBindChan_update u6 s) = vote_token s"
  "vote_token (outputDecision_update u7 s) = vote_token s"
  "vote_token (outputExternalValidChan_update u8 s) = vote_token s"
  "vote_token (approveValChan_update u9 s) = vote_token s"
  "vote_token (bindValChan_update u11 s) = vote_token s"
  "vote_token (terminateBotChan_update u12 s) = vote_token s"
  "vote_token (terminateValChan_update u13 s) = vote_token s"
  "vote_token (unblockChan_update u14 s) = vote_token s"
  "vote_token (bind_pc_update u16 s) = vote_token s"
  "vote_token (decide_pc_update u17 s) = vote_token s"
  by (simp_all add: vote_token_def)

lemma inv_dec_frame [simp]:
  "inv_dec (sentEchoes_update u0 s) = inv_dec s" "inv_dec (bca_echoes_update u1 s) = inv_dec s"
  "inv_dec (bca_voted_update u2 s) = inv_dec s" "inv_dec (bca_bound_update u3 s) = inv_dec s"
  "inv_dec (bcastEchoChan_update u4 s) = inv_dec s" "inv_dec (bcastVoteChan_update u5 s) = inv_dec s"
  "inv_dec (bcastBindChan_update u6 s) = inv_dec s"
  "inv_dec (outputExternalValidChan_update u8 s) = inv_dec s"
  "inv_dec (approveValChan_update u9 s) = inv_dec s" "inv_dec (bindBotChan_update u10 s) = inv_dec s"
  "inv_dec (bindValChan_update u11 s) = inv_dec s" "inv_dec (vote_pc_update u15 s) = inv_dec s"
  "inv_dec (bind_pc_update u16 s) = inv_dec s"
  by (simp_all add: inv_dec_def dec_ok_def cong: decide_pc.case_cong)

section \<open>Quorums grow\<close>

lemma strong_insert: "byz_ok c \<Longrightarrow> strong_quorum c A \<Longrightarrow> insert x A \<subseteq> procs c \<Longrightarrow> strong_quorum c (insert x A)"
  by (rule byzq.strong_mono) auto

lemma weak_insert: "byz_ok c \<Longrightarrow> weak_quorum c A \<Longrightarrow> insert x A \<subseteq> procs c \<Longrightarrow> weak_quorum c (insert x A)"
  by (rule byzq.weak_mono) auto

lemma valid_distinct_le2:
  assumes "distinct vs" and "\<forall>v \<in> set vs. isInputValid v"
  shows "length vs \<le> 2"
proof -
  have "set vs \<subseteq> {0, 1}" using assms(2) by (auto simp: isInputValid_def)
  then have "card (set vs) \<le> card {0 :: byte, 1}" by (intro card_mono) auto
  then show ?thesis using distinct_card [OF assms(1)] by simp
qed

lemma valid_distinct_new:
  assumes "distinct (v # vs)" and "\<forall>u \<in> set (v # vs). isInputValid u"
  shows "length vs < 2"
  using valid_distinct_le2 [OF assms] by simp

lemma valid_distinct_both:
  assumes "distinct vs" and "\<forall>v \<in> set vs. isInputValid v" and "2 \<le> length vs"
  shows "{0, 1} \<subseteq> set vs"
proof -
  have "set vs \<subseteq> {0, 1}" using assms(2) by (auto simp: isInputValid_def)
  moreover have "card (set vs) = 2"
    using distinct_card [OF assms(1)] valid_distinct_le2 [OF assms(1,2)] assms(3) by simp
  ultimately show ?thesis by (metis card_2_iff card_subset_eq finite.emptyI finite_insert order_refl
      one_neq_zero zero_neq_one)
qed

section \<open>Handlers keep the invariant and never wait\<close>

lemma broadcastEcho_eq:
  assumes "inv_echo c P s" and "isInputValid v" and "\<not> sentEchoes s v"
  shows "broadcastEcho v s = (s\<lparr>sentEchoes := (sentEchoes s)(v := True),
     bcastEchoChan := (bcastEchoChan s)\<lparr>ch_sent := ch_sent (bcastEchoChan s) @ [v]\<rparr>\<rparr>, GoNil)"
proof -
  have "length (ch_sent (bcastEchoChan s)) < 2"
    by (rule valid_distinct_new [of v]) (use assms in \<open>auto simp: inv_echo_def\<close>)
  then show ?thesis using assms(1) by (simp add: broadcastEcho_def chan_put_room inv_echo_def)
qed

lemma iv_propose_eq:
  assumes "inv_echo c P s"
  shows "iv_propose est prevCoin s =
    (if \<not> isInputValid est then (s, GoErr (InvalidInput est))
     else if prevCoin \<noteq> bot then (s, GoErr (InvalidCoin prevCoin))
     else (s\<lparr>sentEchoes := (sentEchoes s)(est := True),
       bcastEchoChan := (bcastEchoChan s)\<lparr>ch_sent := ch_sent (bcastEchoChan s) @ emit (\<not> sentEchoes s est) est\<rparr>\<rparr>, GoNil))"
  using broadcastEcho_eq [OF assms] by (auto simp: iv_propose_def fun_upd_idem)

lemma iv_propose_inv:
  assumes "iv_inv c P s" and "byz_ok c" and "iv_propose est prevCoin s = (s', r)"
  shows "iv_inv c (if r = GoNil then insert est P else P) s'" and "r \<noteq> GoBlocked" and "r \<noteq> GoPanic"
proof -
  have e: "inv_echo c P s" using assms(1) by (simp add: iv_inv_def)
  note eq = iv_propose_eq [OF e, of est prevCoin]
  show "r \<noteq> GoBlocked" and "r \<noteq> GoPanic" using assms(3) eq by (auto split: if_splits)
  show "iv_inv c (if r = GoNil then insert est P else P) s'"
    using assms(1,3) unfolding eq iv_inv_def
    by (auto simp: inv_echo_def split: if_splits)
qed

text \<open>What a new echo does: it is counted, may be echoed in turn, and may approve its value.\<close>

definition count_echo :: "byte \<Rightarrow> uuid \<Rightarrow> bool \<Rightarrow> bool \<Rightarrow> 'a ivbca_scheme \<Rightarrow> 'a ivbca_scheme" where
  "count_echo v x e a s = s\<lparr>bca_echoes := (bca_echoes s)(v := insert x (bca_echoes s v)),
     sentEchoes := (sentEchoes s)(v := sentEchoes s v \<or> e),
     bcastEchoChan := (bcastEchoChan s)\<lparr>ch_sent := ch_sent (bcastEchoChan s) @ emit e v\<rparr>,
     outputExternalValidChan := (outputExternalValidChan s)\<lparr>ch_sent := ch_sent (outputExternalValidChan s) @ emit a v\<rparr>,
     approveValChan := (approveValChan s)\<lparr>ch_sent := ch_sent (approveValChan s) @ emit a v\<rparr>\<rparr>"

lemma hit_not_before:
  assumes "x \<notin> A" and "int (card (insert x A)) = int_of_uint (cfg_n c - cfg_f c)"
  shows "\<not> strong_quorum c A"
  using hits_eq [OF assms(2)] assms(1) by (simp add: strong_quorum_def)

lemma iv_submitEcho_eq:
  assumes inv: "iv_inv c P s" and v: "isInputValid v" and new: "x \<notin> bca_echoes s v"
  shows "iv_submitEcho v x s = (count_echo v x
     (int (card (insert x (bca_echoes s v))) = int_of_uint (cfg_f c + 1) \<and> \<not> sentEchoes s v)
     (int (card (insert x (bca_echoes s v))) = int_of_uint (cfg_n c - cfg_f c)) s, GoNil)"
proof -
  let ?s1 = "s\<lparr>bca_echoes := (bca_echoes s)(v := insert x (bca_echoes s v))\<rparr>"
  let ?e = "int (card (insert x (bca_echoes s v))) = int_of_uint (cfg_f c + 1) \<and> \<not> sentEchoes s v"
  let ?a = "int (card (insert x (bca_echoes s v))) = int_of_uint (cfg_n c - cfg_f c)"
  have e: "inv_echo c UNIV ?s1" and nf: "bca_n s = cfg_n c" "bca_f s = cfg_f c"
    using inv by (auto simp: iv_inv_def inv_echo_def inv_sets_def)
  have room: "length (ch_sent (approveValChan s)) < 2 \<and> length (ch_sent (outputExternalValidChan s)) < 2" if ?a
  proof -
    have "v \<notin> set (ch_sent (approveValChan s))"
      using hit_not_before [OF new that] inv by (auto simp: iv_inv_def inv_first_def)
    then have "length (ch_sent (approveValChan s)) < 2"
      using inv v by (intro valid_distinct_new [of v]) (auto simp: iv_inv_def inv_first_def inv_approve_def)
    then show ?thesis using inv by (simp add: iv_inv_def inv_first_def)
  qed
  have caps: "ch_cap (approveValChan s) = 2" "ch_cap (outputExternalValidChan s) = 2"
    using inv by (simp_all add: iv_inv_def inv_first_def)
  have b: "broadcastEcho v ?s1 = (?s1\<lparr>sentEchoes := (sentEchoes s)(v := True),
      bcastEchoChan := (bcastEchoChan s)\<lparr>ch_sent := ch_sent (bcastEchoChan s) @ [v]\<rparr>\<rparr>, GoNil)" if ?e
    using broadcastEcho_eq [OF e v] that by simp
  show ?thesis
    using b room caps v new nf
    by (cases ?e; cases ?a) (auto simp: iv_submitEcho_def count_echo_def chan_put_room Let_def fun_upd_idem)
qed

lemma count_echo_sets:
  assumes "inv_sets c s" and "x \<in> procs c"
  shows "inv_sets c (count_echo v x e a s)"
  using assms by (auto simp: inv_sets_def count_echo_def)

lemma count_echo_inv:
  assumes inv: "iv_inv c P s" and ok: "byz_ok c" and v: "isInputValid v"
    and x: "x \<notin> bca_echoes s v" "x \<in> procs c"
    and e: "e \<Longrightarrow> weak_quorum c (insert x (bca_echoes s v)) \<and> \<not> sentEchoes s v"
    and a: "a \<Longrightarrow> strong_quorum c (insert x (bca_echoes s v)) \<and> \<not> strong_quorum c (bca_echoes s v)"
  shows "iv_inv c P (count_echo v x e a s)"
proof -
  have sub: "insert x (bca_echoes s v) \<subseteq> procs c" using inv x by (simp add: iv_inv_def inv_sets_def)
  have weak: "weak_quorum c (bca_echoes s v) \<Longrightarrow> weak_quorum c (insert x (bca_echoes s v))"
    and strong: "strong_quorum c (bca_echoes s v) \<Longrightarrow> strong_quorum c (insert x (bca_echoes s v))"
    using weak_insert [OF ok] strong_insert [OF ok] sub by blast+
  have "inv_sets c (count_echo v x e a s)" using inv x by (simp add: iv_inv_def count_echo_sets)
  moreover have "inv_echo c P (count_echo v x e a s)"
    using inv weak e v by (auto simp: iv_inv_def inv_echo_def count_echo_def)
  moreover have "\<forall>u. sentEchoes (count_echo v x e a s) u \<longrightarrow> u \<in> set (ch_sent (bcastEchoChan (count_echo v x e a s)))"
    using inv by (auto simp: iv_inv_def count_echo_def)
  moreover have "inv_approve c {} (count_echo v x e a s)"
    using inv strong a v by (auto simp: iv_inv_def inv_approve_def count_echo_def)
  moreover have "inv_first c (count_echo v x e a s)"
    using inv strong a v by (auto simp: iv_inv_def inv_first_def count_echo_def)
  moreover have "inv_vote (count_echo v x e a s)"
    using inv by (auto simp: iv_inv_def inv_vote_def count_echo_def split: vote_pc.splits)
  moreover have "inv_bind (count_echo v x e a s)" "inv_term c (vote_token (count_echo v x e a s)) (count_echo v x e a s)"
    "inv_dec (count_echo v x e a s)"
    using inv by (simp_all add: iv_inv_def count_echo_def)
  ultimately show ?thesis by (simp add: iv_inv_def)
qed

lemma iv_submitEcho_inv:
  assumes inv: "iv_inv c P s" and ok: "byz_ok c" and x: "x \<in> procs c" and op: "iv_submitEcho v x s = (s', r)"
  shows "iv_inv c P s'" and "r \<noteq> GoBlocked" and "r \<noteq> GoPanic"
proof -
  consider (same) "s' = s" "\<exists>e. r = GoErr e" | (new) "isInputValid v" "x \<notin> bca_echoes s v"
    using op by (auto simp: iv_submitEcho_def split: if_splits)
  then have "iv_inv c P s' \<and> r \<noteq> GoBlocked \<and> r \<noteq> GoPanic"
  proof cases
    case new
    have s': "s' = count_echo v x
        (int (card (insert x (bca_echoes s v))) = int_of_uint (cfg_f c + 1) \<and> \<not> sentEchoes s v)
        (int (card (insert x (bca_echoes s v))) = int_of_uint (cfg_n c - cfg_f c)) s" "r = GoNil"
      using iv_submitEcho_eq [OF inv new] op by simp_all
    have "iv_inv c P s'" unfolding s'
      by (rule count_echo_inv [OF inv ok new x]) (blast intro: hits_weak hits_strong dest: hit_not_before [OF new(2)])+
    with s'(2) show ?thesis by simp
  qed (use inv in auto)
  then show "iv_inv c P s'" and "r \<noteq> GoBlocked" and "r \<noteq> GoPanic" by auto
qed

text \<open>Votes.  The second condition of the code keeps the channel from being sent on twice.\<close>

lemma iv_submitVote_iff:
  assumes inv: "iv_inv c P s" and v: "isInputValid v" and new: "x \<notin> bca_voted s 0" "x \<notin> bca_voted s 1"
  shows "\<exists>b. iv_submitVote v x s = (s\<lparr>bca_voted := (bca_voted s)(v := insert x (bca_voted s v)),
      bindValChan := (bindValChan s)\<lparr>ch_sent := ch_sent (bindValChan s) @ emit b v\<rparr>\<rparr>, GoNil)
    \<and> (b \<longrightarrow> strong_quorum c (insert x (bca_voted s v)) \<and> ch_sent (bindValChan s) = [])
    \<and> (b \<longleftrightarrow> int (card (insert x (bca_voted s v))) = int_of_uint (cfg_n c - cfg_f c)
         \<and> int (card (bca_voted s (1 - v))) < int_of_uint (cfg_n c - cfg_f c))"
proof -
  let ?b = "int (card (insert x (bca_voted s v))) = int_of_uint (cfg_n c - cfg_f c)
    \<and> int (card (bca_voted s (1 - v))) < int_of_uint (cfg_n c - cfg_f c)"
  have nf: "bca_n s = cfg_n c" "bca_f s = cfg_f c" using inv by (simp_all add: iv_inv_def inv_sets_def)
  have other: "1 - v \<noteq> v" and x: "x \<notin> bca_voted s v" using v new by (auto simp: isInputValid_def)
  have "ch_sent (bindValChan s) = []" if ?b
  proof -
    have "u \<notin> set (ch_sent (bindValChan s))" if "isInputValid u" for u
    proof -
      have "u = v \<or> u = 1 - v" using v that by (auto simp: isInputValid_def)
      moreover have "\<not> strong_quorum c (bca_voted s v)" using hit_not_before [OF x] \<open>?b\<close> by blast
      moreover have "\<not> strong_quorum c (bca_voted s (1 - v))"
        using int_less_uint [OF conjunct2 [OF \<open>?b\<close>]] by (simp add: strong_quorum_def)
      ultimately show ?thesis using inv by (auto simp: iv_inv_def inv_first_def)
    qed
    moreover have "\<forall>u \<in> set (ch_sent (bindValChan s)). isInputValid u" using inv by (simp add: iv_inv_def inv_first_def)
    ultimately show ?thesis by (cases "ch_sent (bindValChan s)") auto
  qed
  moreover have "strong_quorum c (insert x (bca_voted s v))" if ?b using hits_strong that by blast
  moreover have "ch_cap (bindValChan s) = 1" using inv by (simp add: iv_inv_def inv_first_def)
  ultimately show ?thesis
    using v new nf other
    by (intro exI [of _ ?b]) (auto simp: iv_submitVote_def Let_def chan_put_room)
qed

lemma iv_submitVote_eq:
  assumes "iv_inv c P s" and "isInputValid v" and "x \<notin> bca_voted s 0" "x \<notin> bca_voted s 1"
  shows "\<exists>b. iv_submitVote v x s = (s\<lparr>bca_voted := (bca_voted s)(v := insert x (bca_voted s v)),
      bindValChan := (bindValChan s)\<lparr>ch_sent := ch_sent (bindValChan s) @ emit b v\<rparr>\<rparr>, GoNil)
    \<and> (b \<longrightarrow> strong_quorum c (insert x (bca_voted s v)) \<and> ch_sent (bindValChan s) = [])"
  using iv_submitVote_iff [OF assms] by blast

lemma iv_submitVote_inv:
  assumes inv: "iv_inv c P s" and ok: "byz_ok c" and x: "x \<in> procs c" and op: "iv_submitVote v x s = (s', r)"
  shows "iv_inv c P s'" and "r \<noteq> GoBlocked" and "r \<noteq> GoPanic"
proof -
  consider (same) "s' = s" "\<exists>e. r = GoErr e" | (new) "isInputValid v" "x \<notin> bca_voted s 0" "x \<notin> bca_voted s 1"
    using op by (auto simp: iv_submitVote_def split: if_splits)
  then have "iv_inv c P s' \<and> r \<noteq> GoBlocked \<and> r \<noteq> GoPanic"
  proof cases
    case new
    obtain b where s': "s' = s\<lparr>bca_voted := (bca_voted s)(v := insert x (bca_voted s v)),
        bindValChan := (bindValChan s)\<lparr>ch_sent := ch_sent (bindValChan s) @ emit b v\<rparr>\<rparr>" "r = GoNil"
      and b: "b \<Longrightarrow> strong_quorum c (insert x (bca_voted s v)) \<and> ch_sent (bindValChan s) = []"
      using iv_submitVote_eq [OF inv new] op by auto
    have sub: "insert x (bca_voted s v) \<subseteq> procs c" using inv x by (simp add: iv_inv_def inv_sets_def)
    have strong: "strong_quorum c (bca_voted s v) \<Longrightarrow> strong_quorum c (insert x (bca_voted s v))"
      using strong_insert [OF ok] sub by blast
    have "inv_sets c s'" using inv x new unfolding s' by (auto simp: iv_inv_def inv_sets_def isInputValid_def)
    moreover have "inv_first c s'"
      using inv b strong new(1) unfolding s' by (cases b) (auto simp: iv_inv_def inv_first_def)
    moreover have "inv_bind s'"
      using inv unfolding s' by (auto simp: iv_inv_def inv_bind_def bind_ok_def split: bind_pc.splits)
    ultimately show ?thesis using inv s' by (simp add: iv_inv_def)
  qed (use inv in auto)
  then show "iv_inv c P s'" and "r \<noteq> GoBlocked" and "r \<noteq> GoPanic" by auto
qed

text \<open>
  Binds.  A sender binds once, so two values cannot both be bound by strong quorums, and the total
  passes the threshold once.
\<close>

lemma strong_disjoint:
  assumes "byz_ok c" and "strong_quorum c A" "A \<subseteq> procs c" and "strong_quorum c B" "B \<subseteq> procs c"
  shows "A \<inter> B \<noteq> {}"
  using byzq.strong_strong [OF assms(1,2,4,3,5)] by blast

lemma card_all_bound:
  assumes "inv_sets c s"
  shows "card (all_bound s) = card (bca_bound s 0) + card (bca_bound s 1) + card (bca_bound s bot)"
  using assms by (simp add: all_bound_def inv_sets_def card_Un_disjoint Int_Un_distrib2)

lemma bound_disjoint:
  assumes "inv_sets c s" and "u \<noteq> v"
  shows "bca_bound s u \<inter> bca_bound s v = {}"
proof (cases "bca_bound s u = {} \<or> bca_bound s v = {}")
  case False
  then have "u \<le> bot" "v \<le> bot" using assms by (auto simp: inv_sets_def)
  then show ?thesis using bot_cases [of u] bot_cases [of v] assms by (auto simp: inv_sets_def)
qed auto

lemma bind_sets:
  assumes "inv_sets c s" and "x \<in> procs c" and "v \<le> bot"
    and "x \<notin> bca_bound s 0" "x \<notin> bca_bound s 1" "x \<notin> bca_bound s bot"
  shows "inv_sets c (s\<lparr>bca_bound := (bca_bound s)(v := insert x (bca_bound s v))\<rparr>)"
  using assms bot_cases [OF assms(3)] by (auto simp: inv_sets_def)

definition count_bind :: "byte \<Rightarrow> uuid \<Rightarrow> bool \<Rightarrow> bool \<Rightarrow> 'a ivbca_scheme \<Rightarrow> 'a ivbca_scheme" where
  "count_bind v x t b s = s\<lparr>bca_bound := (bca_bound s)(v := insert x (bca_bound s v)),
     terminateValChan := (terminateValChan s)\<lparr>ch_sent := ch_sent (terminateValChan s) @ emit t v\<rparr>,
     terminateBotChan := (terminateBotChan s)\<lparr>ch_sent := ch_sent (terminateBotChan s) @ emit b ()\<rparr>\<rparr>"

lemma all_bound_insert:
  "v \<le> bot \<Longrightarrow> all_bound (s\<lparr>bca_bound := (bca_bound s)(v := insert x (bca_bound s v))\<rparr>) = insert x (all_bound s)"
  by (drule bot_cases) (auto simp: all_bound_def)

lemma submitBind_iff:
  assumes ok: "byz_ok c" and sets: "inv_sets c s" and trm: "inv_term c tok s" and x: "x \<in> procs c" and v: "v \<le> bot"
    and new: "x \<notin> bca_bound s 0" "x \<notin> bca_bound s 1" "x \<notin> bca_bound s bot"
  shows "\<exists>t b. iv_submitBind v x s = (count_bind v x t b s, GoNil)
    \<and> (t \<longrightarrow> strong_quorum c (insert x (bca_bound s v)) \<and> ch_sent (terminateValChan s) = [])
    \<and> (b \<longrightarrow> strong_quorum c (insert x (all_bound s)) \<and> \<not> strong_quorum c (all_bound s))
    \<and> (t \<longleftrightarrow> int (card (insert x (bca_bound s v))) = int_of_uint (cfg_n c - cfg_f c))
    \<and> (b \<longleftrightarrow> \<not> t \<and> int (card (insert x (all_bound s))) = int_of_uint (cfg_n c - cfg_f c))"
proof -
  let ?s1 = "s\<lparr>bca_bound := (bca_bound s)(v := insert x (bca_bound s v))\<rparr>"
  let ?nf = "int_of_uint (cfg_n c - cfg_f c)"
  define t where "t \<longleftrightarrow> int (card (insert x (bca_bound s v))) = ?nf"
  define b where "b \<longleftrightarrow> \<not> t \<and> int (card (insert x (all_bound s))) = ?nf"
  have nf: "bca_n s = cfg_n c" "bca_f s = cfg_f c" using sets by (simp_all add: inv_sets_def)
  have xv: "x \<notin> bca_bound s v" and xa: "x \<notin> all_bound s" using new v bot_cases by (auto simp: all_bound_def)
  have sets1: "inv_sets c ?s1" by (rule bind_sets [OF sets x v new])
  have total: "int (card (bca_bound ?s1 0)) + int (card (bca_bound ?s1 1)) + int (card (bca_bound ?s1 bot))
      = int (card (insert x (all_bound s)))"
    using card_all_bound [OF sets1] all_bound_insert [OF v, of s x] by simp
  have tempty: "ch_sent (terminateValChan s) = []" if t
  proof (rule ccontr)
    assume "\<not> ?thesis"
    then obtain u where u: "u \<in> set (ch_sent (terminateValChan s))" by (cases "ch_sent (terminateValChan s)") auto
    then have su: "strong_quorum c (bca_bound s u)" using trm by (simp add: inv_term_def)
    then have "u \<noteq> v" using hit_not_before [OF xv] that by (auto simp: t_def)
    have sub: "bca_bound ?s1 y \<subseteq> procs c" for y using sets1 by (simp add: inv_sets_def)
    have "strong_quorum c (bca_bound ?s1 u)" "strong_quorum c (bca_bound ?s1 v)"
      using su \<open>u \<noteq> v\<close> hits_strong that by (simp_all add: t_def)
    then have "bca_bound ?s1 u \<inter> bca_bound ?s1 v \<noteq> {}" using strong_disjoint [OF ok _ sub _ sub] by blast
    then show False using bound_disjoint [OF sets1 \<open>u \<noteq> v\<close>] by blast
  qed
  have nota: "\<not> strong_quorum c (all_bound s)" if b using hit_not_before [OF xa] that by (simp add: b_def)
  have broom: "length (ch_sent (terminateBotChan s)) < 2" if b
    using trm nota [OF that] by (auto simp: inv_term_def of_bool_def split: if_splits)
  have caps: "ch_cap (terminateValChan s) = 1" "ch_cap (terminateBotChan s) = 2" using trm by (simp_all add: inv_term_def)
  have "iv_submitBind v x s = (count_bind v x t b s, GoNil)"
    using v new nf total tempty broom caps xv
    by (cases t; cases b) (auto simp: iv_submitBind_def Let_def count_bind_def chan_put_room t_def b_def)
  then show ?thesis using tempty nota hits_strong unfolding t_def b_def by blast
qed

lemma submitBind_eq:
  assumes "byz_ok c" and "inv_sets c s" and "inv_term c tok s" and "x \<in> procs c" and "v \<le> bot"
    and "x \<notin> bca_bound s 0" "x \<notin> bca_bound s 1" "x \<notin> bca_bound s bot"
  shows "\<exists>t b. iv_submitBind v x s = (count_bind v x t b s, GoNil)
    \<and> (t \<longrightarrow> strong_quorum c (insert x (bca_bound s v)) \<and> ch_sent (terminateValChan s) = [])
    \<and> (b \<longrightarrow> strong_quorum c (insert x (all_bound s)) \<and> \<not> strong_quorum c (all_bound s))"
  using submitBind_iff [OF assms] by blast

lemma count_bind_inv:
  assumes ok: "byz_ok c" and sets: "inv_sets c s" and trm: "inv_term c tok s" and d: "inv_dec s"
    and x: "x \<in> procs c" and v: "v \<le> bot"
    and new: "x \<notin> bca_bound s 0" "x \<notin> bca_bound s 1" "x \<notin> bca_bound s bot"
    and t: "t \<Longrightarrow> strong_quorum c (insert x (bca_bound s v)) \<and> ch_sent (terminateValChan s) = []"
    and b: "b \<Longrightarrow> strong_quorum c (insert x (all_bound s)) \<and> \<not> strong_quorum c (all_bound s)"
  shows "inv_sets c (count_bind v x t b s) \<and> inv_term c tok (count_bind v x t b s) \<and> inv_dec (count_bind v x t b s)"
proof (intro conjI)
  have sets1: "inv_sets c (s\<lparr>bca_bound := (bca_bound s)(v := insert x (bca_bound s v))\<rparr>)"
    by (rule bind_sets [OF sets x v new])
  then show "inv_sets c (count_bind v x t b s)" by (simp add: count_bind_def)
  have sub: "insert x (all_bound s) \<subseteq> procs c" "insert x (bca_bound s v) \<subseteq> procs c"
    using sets x by (auto simp: inv_sets_def all_bound_def)
  have mono: "strong_quorum c (all_bound s) \<Longrightarrow> strong_quorum c (insert x (all_bound s))"
    "strong_quorum c (bca_bound s v) \<Longrightarrow> strong_quorum c (insert x (bca_bound s v))"
    using strong_insert [OF ok] sub by blast+
  have all: "all_bound (count_bind v x t b s) = insert x (all_bound s)"
    using all_bound_insert [OF v, of s x] by (simp add: all_bound_def count_bind_def)
  show "inv_term c tok (count_bind v x t b s)"
    using trm t b mono unfolding inv_term_def all
    by (cases t; cases b) (auto simp: count_bind_def of_bool_def split: if_splits)
  show "inv_dec (count_bind v x t b s)"
    using d by (auto simp: inv_dec_def count_bind_def dec_ok_def split: decide_pc.splits)
qed

lemma count_bind_frame [simp]:
  "inv_echo c P (count_bind v x t b s) = inv_echo c P s" "inv_approve c F (count_bind v x t b s) = inv_approve c F s"
  "inv_first c (count_bind v x t b s) = inv_first c s" "inv_vote (count_bind v x t b s) = inv_vote s"
  "inv_bind (count_bind v x t b s) = inv_bind s" "sentEchoes (count_bind v x t b s) = sentEchoes s"
  "bcastEchoChan (count_bind v x t b s) = bcastEchoChan s" "vote_token (count_bind v x t b s) = vote_token s"
  by (simp_all add: count_bind_def)

lemma iv_submitBind_inv:
  assumes inv: "iv_inv c P s" and ok: "byz_ok c" and x: "x \<in> procs c" and op: "iv_submitBind v x s = (s', r)"
  shows "iv_inv c P s'" and "r \<noteq> GoBlocked" and "r \<noteq> GoPanic"
proof -
  consider (same) "s' = s" "\<exists>e. r = GoErr e"
    | (new) "v \<le> bot" "x \<notin> bca_bound s 0" "x \<notin> bca_bound s 1" "x \<notin> bca_bound s bot"
    using op by (auto simp: iv_submitBind_def not_less split: if_splits)
  then have "iv_inv c P s' \<and> r \<noteq> GoBlocked \<and> r \<noteq> GoPanic"
  proof cases
    case new
    have parts: "inv_sets c s" "inv_term c (vote_token s) s" "inv_dec s" using inv by (simp_all add: iv_inv_def)
    obtain t b where s': "s' = count_bind v x t b s" "r = GoNil"
      and tb: "t \<Longrightarrow> strong_quorum c (insert x (bca_bound s v)) \<and> ch_sent (terminateValChan s) = []"
        "b \<Longrightarrow> strong_quorum c (insert x (all_bound s)) \<and> \<not> strong_quorum c (all_bound s)"
      using submitBind_eq [OF ok parts(1,2) x new] op by auto
    then show ?thesis using count_bind_inv [OF ok parts x new tb] inv by (simp add: iv_inv_def)
  qed (use inv in auto)
  then show "iv_inv c P s'" and "r \<noteq> GoBlocked" and "r \<noteq> GoPanic" by auto
qed

section \<open>Goroutines keep the invariant\<close>

lemma send_thenE:
  assumes "send_then sel upd x goto s = Some s'"
  shows "s' = goto (upd (\<lambda>_. (sel s)\<lparr>ch_sent := ch_sent (sel s) @ [x]\<rparr>) s)"
  using assms by (auto simp: send_then_def chan_send_def split: if_splits)

lemma recv_thenE:
  assumes "recv_then sel upd goto s = Some s'"
  shows "ch_taken (sel s) < length (ch_sent (sel s))"
    and "s' = goto (ch_sent (sel s) ! ch_taken (sel s)) (upd (\<lambda>_. (sel s)\<lparr>ch_taken := Suc (ch_taken (sel s))\<rparr>) s)"
  using assms by (auto simp: recv_then_def chan_recv_def split: if_splits)

lemma recv_thenD:
  assumes "recv_then sel upd goto s = Some s'"
  shows "ch_taken (sel s) < length (ch_sent (sel s))
    \<and> s' = goto (ch_sent (sel s) ! ch_taken (sel s)) (upd (\<lambda>_. (sel s)\<lparr>ch_taken := Suc (ch_taken (sel s))\<rparr>) s)"
  using recv_thenE [OF assms] by simp

lemma iv_waitToBind_inv:
  assumes "inv_bind s" and "iv_waitToBind b s = Some s'"
  shows "inv_bind s'" and "inv_sets c s' = inv_sets c s" and "inv_echo c P s' = inv_echo c P s"
    and "inv_approve c F s' = inv_approve c F s" and "inv_first c s' = inv_first c s"
    and "inv_vote s' = inv_vote s" and "inv_term c tok s' = inv_term c tok s" and "inv_dec s' = inv_dec s"
    and "sentEchoes s' = sentEchoes s" and "bcastEchoChan s' = bcastEchoChan s" and "vote_token s' = vote_token s"
proof -
  consider (a) "bind_pc s = BWait" "b" | (v) "bind_pc s = BWait" "\<not> b" | (out) w where "bind_pc s = BBcast w"
    using assms(2) by (auto simp: iv_waitToBind_def split: bind_pc.splits)
  then have "inv_bind s' \<and> inv_sets c s' = inv_sets c s \<and> inv_echo c P s' = inv_echo c P s
    \<and> inv_approve c F s' = inv_approve c F s \<and> inv_first c s' = inv_first c s \<and> inv_vote s' = inv_vote s
    \<and> inv_term c tok s' = inv_term c tok s \<and> inv_dec s' = inv_dec s \<and> sentEchoes s' = sentEchoes s
    \<and> bcastEchoChan s' = bcastEchoChan s \<and> vote_token s' = vote_token s"
  proof cases
    case a
    then have "recv_then bindBotChan bindBotChan_update (\<lambda>_. bind_pc_update (\<lambda>_. BBcast bot)) s = Some s'"
      using assms(2) by (simp add: iv_waitToBind_def)
    from recv_thenE [OF this] show ?thesis using assms(1) a
      by (auto simp: inv_bind_def bind_ok_def inv_vote_def inv_term_def all_bound_def vote_token_def cong: vote_pc.case_cong)
  next
    case v
    then have "recv_then bindValChan bindValChan_update (\<lambda>v. bind_pc_update (\<lambda>_. BBcast v)) s = Some s'"
      using assms(2) by (simp add: iv_waitToBind_def)
    from recv_thenE [OF this] show ?thesis using assms(1) v
      by (auto simp: inv_bind_def bind_ok_def inv_first_def)
  next
    case out
    then have "send_then bcastBindChan bcastBindChan_update w (bind_pc_update (\<lambda>_. BDone)) s = Some s'"
      using assms(2) by (simp add: iv_waitToBind_def)
    from send_thenE [OF this] show ?thesis using assms(1) out
      by (auto simp: inv_bind_def bind_ok_def)
  qed
  then show "inv_bind s'" and "inv_sets c s' = inv_sets c s" and "inv_echo c P s' = inv_echo c P s"
    and "inv_approve c F s' = inv_approve c F s" and "inv_first c s' = inv_first c s"
    and "inv_vote s' = inv_vote s" and "inv_term c tok s' = inv_term c tok s" and "inv_dec s' = inv_dec s"
    and "sentEchoes s' = sentEchoes s" and "bcastEchoChan s' = bcastEchoChan s" and "vote_token s' = vote_token s" by auto
qed

lemma iv_waitToDecide_cases:
  assumes "iv_waitToDecide b s = Some s'"
  obtains (bot1) "decide_pc s = DWait" "ch_taken (terminateBotChan s) < length (ch_sent (terminateBotChan s))"
      "s' = s\<lparr>terminateBotChan := (terminateBotChan s)\<lparr>ch_taken := Suc (ch_taken (terminateBotChan s))\<rparr>, decide_pc := DWaitVal\<rparr>"
  | (bot2) "decide_pc s = DWaitVal" "ch_taken (terminateBotChan s) < length (ch_sent (terminateBotChan s))"
      "s' = s\<lparr>terminateBotChan := (terminateBotChan s)\<lparr>ch_taken := Suc (ch_taken (terminateBotChan s))\<rparr>, decide_pc := DOut bot\<rparr>"
  | (val) v where "decide_pc s = DWait \<or> decide_pc s = DWaitVal" "v \<in> set (ch_sent (terminateValChan s))"
      "s' = s\<lparr>terminateValChan := (terminateValChan s)\<lparr>ch_taken := Suc (ch_taken (terminateValChan s))\<rparr>, decide_pc := DOut v\<rparr>"
  | (out) v where "decide_pc s = DOut v"
      "s' = s\<lparr>outputDecision := (outputDecision s)\<lparr>ch_sent := ch_sent (outputDecision s) @ [v]\<rparr>, decide_pc := DUnblock\<rparr>"
  | (unblock) "decide_pc s = DUnblock"
      "s' = s\<lparr>unblockChan := (unblockChan s)\<lparr>ch_sent := ch_sent (unblockChan s) @ [()]\<rparr>, decide_pc := DDone\<rparr>"
  using assms
  by (cases "decide_pc s"; cases b)
    (simp_all add: iv_waitToDecide_def that, (blast dest: send_thenE recv_thenD intro: that nth_mem)+)

lemma iv_waitToDecide_inv:
  assumes "inv_dec s" and "iv_waitToDecide b s = Some s'"
  shows "inv_dec s' \<and> inv_sets c s' = inv_sets c s \<and> inv_echo c P s' = inv_echo c P s
    \<and> inv_approve c F s' = inv_approve c F s \<and> inv_first c s' = inv_first c s \<and> inv_vote s' = inv_vote s
    \<and> inv_term c tok s' = inv_term c tok s \<and> inv_bind s' = inv_bind s \<and> sentEchoes s' = sentEchoes s
    \<and> bcastEchoChan s' = bcastEchoChan s \<and> vote_token s' = vote_token s"
  using assms(2)
proof (cases rule: iv_waitToDecide_cases)
  case bot1
  then show ?thesis using assms(1) by (auto simp: inv_dec_def inv_term_def all_bound_def)
next
  case bot2
  then show ?thesis using assms(1) by (auto simp: inv_dec_def inv_term_def all_bound_def dec_ok_def)
next
  case (val v)
  then show ?thesis using assms(1) by (auto simp: inv_dec_def inv_term_def all_bound_def dec_ok_def)
next
  case (out v)
  then show ?thesis using assms(1) by (auto simp: inv_dec_def dec_ok_def)
next
  case unblock
  then show ?thesis using assms(1) by (auto simp: inv_dec_def dec_ok_def)
qed

lemma iv_waitToVote_cases:
  assumes "iv_waitToVote b s = Some s'"
  obtains (first) "vote_pc s = VFirst" "ch_taken (approveValChan s) < length (ch_sent (approveValChan s))"
      "s' = s\<lparr>approveValChan := (approveValChan s)\<lparr>ch_taken := Suc (ch_taken (approveValChan s))\<rparr>,
         vote_pc := VBcast (ch_sent (approveValChan s) ! ch_taken (approveValChan s))\<rparr>"
  | (bcast) v where "vote_pc s = VBcast v"
      "s' = s\<lparr>bcastVoteChan := (bcastVoteChan s)\<lparr>ch_sent := ch_sent (bcastVoteChan s) @ [v]\<rparr>, vote_pc := VSecond\<rparr>"
  | (unblock) "vote_pc s = VSecond"
      "s' = s\<lparr>unblockChan := (unblockChan s)\<lparr>ch_taken := Suc (ch_taken (unblockChan s))\<rparr>, vote_pc := VDone\<rparr>"
  | (second) "vote_pc s = VSecond" "ch_taken (approveValChan s) < length (ch_sent (approveValChan s))"
      "s' = s\<lparr>approveValChan := (approveValChan s)\<lparr>ch_taken := Suc (ch_taken (approveValChan s))\<rparr>, vote_pc := VBindBot\<rparr>"
  | (bindbot) "vote_pc s = VBindBot"
      "s' = s\<lparr>bindBotChan := (bindBotChan s)\<lparr>ch_sent := ch_sent (bindBotChan s) @ [()]\<rparr>, vote_pc := VTermBot\<rparr>"
  | (termbot) "vote_pc s = VTermBot"
      "s' = s\<lparr>terminateBotChan := (terminateBotChan s)\<lparr>ch_sent := ch_sent (terminateBotChan s) @ [()]\<rparr>, vote_pc := VDone\<rparr>"
proof (cases "vote_pc s")
  case VFirst
  with assms have "recv_then approveValChan approveValChan_update (\<lambda>first. vote_pc_update (\<lambda>_. VBcast first)) s = Some s'"
    by (simp add: iv_waitToVote_def)
  from recv_thenD [OF this] show thesis by (intro first VFirst) simp_all
next
  case (VBcast v)
  with assms have "send_then bcastVoteChan bcastVoteChan_update v (vote_pc_update (\<lambda>_. VSecond)) s = Some s'"
    by (simp add: iv_waitToVote_def)
  from VBcast send_thenE [OF this] show thesis by (rule bcast)
next
  case VSecond
  show thesis
  proof (cases b)
    case True
    with VSecond assms have "recv_then unblockChan unblockChan_update (\<lambda>_. vote_pc_update (\<lambda>_. VDone)) s = Some s'"
      by (simp add: iv_waitToVote_def)
    from recv_thenD [OF this] show thesis by (intro unblock VSecond) simp
  next
    case False
    with VSecond assms have "recv_then approveValChan approveValChan_update (\<lambda>_. vote_pc_update (\<lambda>_. VBindBot)) s = Some s'"
      by (simp add: iv_waitToVote_def)
    from recv_thenD [OF this] show thesis by (intro second VSecond) simp_all
  qed
next
  case VBindBot
  with assms have "send_then bindBotChan bindBotChan_update () (vote_pc_update (\<lambda>_. VTermBot)) s = Some s'"
    by (simp add: iv_waitToVote_def)
  from VBindBot send_thenE [OF this] show thesis by (rule bindbot)
next
  case VTermBot
  with assms have "send_then terminateBotChan terminateBotChan_update () (vote_pc_update (\<lambda>_. VDone)) s = Some s'"
    by (simp add: iv_waitToVote_def)
  from VTermBot send_thenE [OF this] show thesis by (rule termbot)
next
  case VDone
  with assms show thesis by (simp add: iv_waitToVote_def)
qed

lemma iv_waitToVote_inv:
  assumes inv: "iv_inv c P s" and "iv_waitToVote b s = Some s'"
  shows "iv_inv c P s'"
  using assms(2)
proof (cases rule: iv_waitToVote_cases)
  case first
  then show ?thesis using inv
    by (auto simp: iv_inv_def inv_approve_def inv_first_def inv_vote_def inv_term_def all_bound_def vote_token_def Suc_le_eq)
next
  case (bcast v)
  then show ?thesis using inv by (auto simp: iv_inv_def inv_vote_def inv_term_def all_bound_def vote_token_def)
next
  case unblock
  then show ?thesis using inv
    by (auto simp: iv_inv_def inv_vote_def inv_term_def inv_dec_def dec_ok_def all_bound_def vote_token_def split: decide_pc.splits)
next
  case second
  then show ?thesis using inv
    by (auto simp: iv_inv_def inv_approve_def inv_first_def inv_vote_def inv_term_def all_bound_def vote_token_def)
next
  case bindbot
  then have "inv_bind s'" using inv by (auto simp: iv_inv_def inv_bind_def bind_ok_def split: bind_pc.splits)
  with bindbot show ?thesis using inv by (auto simp: iv_inv_def inv_vote_def inv_term_def all_bound_def vote_token_def)
next
  case termbot
  then have "inv_dec s'" using inv by (auto simp: iv_inv_def inv_dec_def dec_ok_def split: decide_pc.splits)
  moreover have "inv_term c (vote_token s') s'" using termbot inv by (auto simp: iv_inv_def inv_vote_def inv_term_def all_bound_def vote_token_def)
  ultimately show ?thesis using termbot inv by (auto simp: iv_inv_def inv_vote_def)
qed

lemma iv_goroutine_inv:
  assumes "iv_inv c P s" and "iv_waitToVote b s = Some s' \<or> iv_waitToBind b s = Some s' \<or> iv_waitToDecide b s = Some s'"
  shows "iv_inv c P s'"
  using assms(2)
proof (elim disjE)
  assume b: "iv_waitToBind b s = Some s'"
  have "inv_bind s" using assms(1) by (simp add: iv_inv_def)
  from iv_waitToBind_inv [OF this b] show ?thesis using assms(1) by (simp add: iv_inv_def)
next
  assume d: "iv_waitToDecide b s = Some s'"
  have "inv_dec s" using assms(1) by (simp add: iv_inv_def)
  from iv_waitToDecide_inv [OF this d] show ?thesis using assms(1) by (simp add: iv_inv_def)
qed (rule iv_waitToVote_inv [OF assms(1)])

text \<open>No send of a goroutine waits: it waits only to receive.\<close>

lemma iv_sends_never_wait:
  assumes "iv_inv c P s"
  shows "vote_pc s \<notin> {VFirst, VSecond, VDone} \<Longrightarrow> iv_waitToVote b s \<noteq> None"
    and "bind_pc s \<notin> {BWait, BDone} \<Longrightarrow> iv_waitToBind b s \<noteq> None"
    and "decide_pc s \<notin> {DWait, DWaitVal, DDone} \<Longrightarrow> iv_waitToDecide b s \<noteq> None"
proof -
  have len: "length (ch_sent (terminateBotChan s)) < 2" if "vote_pc s = VTermBot"
    using assms that by (auto simp: iv_inv_def inv_term_def of_bool_def vote_token_def split: if_splits)
  show "vote_pc s \<notin> {VFirst, VSecond, VDone} \<Longrightarrow> iv_waitToVote b s \<noteq> None"
    using assms len
    by (cases "vote_pc s")
      (auto simp: iv_waitToVote_def send_then_def chan_send_room iv_inv_def inv_vote_def inv_term_def split: option.splits)
  show "bind_pc s \<notin> {BWait, BDone} \<Longrightarrow> iv_waitToBind b s \<noteq> None"
    using assms
    by (cases "bind_pc s") (auto simp: iv_waitToBind_def send_then_def chan_send_def iv_inv_def inv_bind_def)
  show "decide_pc s \<notin> {DWait, DWaitVal, DDone} \<Longrightarrow> iv_waitToDecide b s \<noteq> None"
    using assms
    by (cases "decide_pc s") (auto simp: iv_waitToDecide_def send_then_def chan_send_def iv_inv_def inv_dec_def)
qed

section \<open>The view of a node and its evidence\<close>

definition bca_view_of :: "byte set \<Rightarrow> byte set \<Rightarrow> 'a ivbca_scheme \<Rightarrow> bca_view" where
  "bca_view_of P F s = \<lparr>v_proposed = P, v_fast = F, v_echoes = bca_echoes s, v_votes = bca_voted s,
     v_binds = bca_bound s, v_sentEcho = set (ch_sent (bcastEchoChan s)),
     v_sentVote = set (ch_sent (bcastVoteChan s)), v_sentBind = set (ch_sent (bcastBindChan s)),
     v_decided = set (ch_sent (outputDecision s))\<rparr>"

lemma single_mem: "length xs \<le> 1 \<Longrightarrow> x \<in> set xs \<Longrightarrow> y \<in> set xs \<Longrightarrow> y = x"
  by (cases xs) auto

lemma inv_bind_sent: "inv_bind s \<Longrightarrow> length (ch_sent (bcastBindChan s)) \<le> 1 \<and> (\<forall>v \<in> set (ch_sent (bcastBindChan s)). bind_ok s v)"
  by (auto simp: inv_bind_def split: bind_pc.splits)

lemma inv_dec_sent: "inv_dec s \<Longrightarrow> length (ch_sent (outputDecision s)) \<le> 1 \<and> (\<forall>v \<in> set (ch_sent (outputDecision s)). dec_ok s v)"
  by (auto simp: inv_dec_def split: decide_pc.splits)

text \<open>What both implementations share; the premises are the parts in which they differ.\<close>

lemma parts_evidence:
  assumes FP: "F \<subseteq> P" and sets: "inv_sets c s" and e: "inv_echo c P s" and a: "inv_approve c F s"
    and votes: "set (ch_sent (bcastVoteChan s)) \<subseteq> set (ch_sent (approveValChan s))" "length (ch_sent (bcastVoteChan s)) \<le> 1"
    and bindval: "\<forall>v \<in> set (ch_sent (bindValChan s)). isInputValid v \<and> (v \<in> F \<or> strong_quorum c (bca_voted s v))"
    and both: "ch_sent (bindBotChan s) \<noteq> [] \<Longrightarrow> {0, 1} \<subseteq> set (ch_sent (approveValChan s))"
    and b: "inv_bind s" and t: "inv_term c tok s" "tok \<Longrightarrow> ch_sent (bindBotChan s) \<noteq> []" and d: "inv_dec s"
  shows "bca_evidence c (bca_view_of P F s)"
proof -
  let ?w = "bca_view_of P F s"
  have appr: "isInputValid v \<and> approved c ?w v" if "v \<in> set (ch_sent (approveValChan s))" for v
    using a that by (auto simp: inv_approve_def approved_def bca_view_of_def)
  have botok: "approved c ?w 0 \<and> approved c ?w 1" if "ch_sent (bindBotChan s) \<noteq> []" using both [OF that] appr by auto
  have bind: "if v = bot then approved c ?w 0 \<and> approved c ?w 1
      else isInputValid v \<and> (v \<in> v_fast ?w \<or> strong_quorum c (v_votes ?w v))" if "v \<in> v_sentBind ?w" for v
  proof -
    have ok: "bind_ok s v" using inv_bind_sent [OF b] that by (simp add: bca_view_of_def)
    show ?thesis
    proof (cases "v \<in> set (ch_sent (bindValChan s))")
      case True
      then have "isInputValid v" "v \<noteq> bot" using bindval by auto
      then show ?thesis using True bindval by (auto simp: bca_view_of_def)
    next
      case False
      then show ?thesis using ok botok by (simp add: bind_ok_def)
    qed
  qed
  have dec: "strong_quorum c (v_binds ?w v) \<or> v = bot \<and> approved c ?w 0 \<and> approved c ?w 1" if "v \<in> v_decided ?w" for v
  proof -
    have "dec_ok s v" using inv_dec_sent [OF d] that by (simp add: bca_view_of_def)
    then consider "v \<in> set (ch_sent (terminateValChan s))" | "v = bot" "2 \<le> length (ch_sent (terminateBotChan s))"
      by (auto simp: dec_ok_def)
    then show ?thesis
    proof cases
      case 1
      then show ?thesis using t(1) by (auto simp: inv_term_def bca_view_of_def)
    next
      case 2
      then have tok using t(1) by (auto simp: inv_term_def of_bool_def split: if_splits)
      then show ?thesis using 2 t(2) botok by blast
    qed
  qed
  have once: "\<forall>v \<in> v_sentVote ?w. \<forall>u \<in> v_sentVote ?w. u = v" "\<forall>v \<in> v_sentBind ?w. \<forall>u \<in> v_sentBind ?w. u = v"
      "\<forall>v \<in> v_decided ?w. \<forall>u \<in> v_decided ?w. u = v"
    using votes(2) inv_bind_sent [OF b] inv_dec_sent [OF d] by (auto simp: bca_view_of_def intro: single_mem)
  have "\<forall>v \<in> v_sentVote ?w. isInputValid v \<and> approved c ?w v"
    using votes(1) appr by (auto simp: bca_view_of_def)
  moreover have "\<forall>v \<in> v_sentEcho ?w. isInputValid v \<and> (v \<in> v_proposed ?w \<or> weak_quorum c (v_echoes ?w v))"
    using e by (auto simp: inv_echo_def bca_view_of_def)
  moreover have "v_fast ?w \<subseteq> v_proposed ?w" "\<forall>v. v_echoes ?w v \<subseteq> procs c \<and> v_votes ?w v \<subseteq> procs c \<and> v_binds ?w v \<subseteq> procs c"
    using FP sets by (simp_all add: inv_sets_def bca_view_of_def)
  ultimately show ?thesis unfolding bca_evidence_def using bind dec once by blast
qed

lemma iv_inv_evidence:
  assumes "iv_inv c P s"
  shows "bca_evidence c (bca_view_of P {} s)"
proof (rule parts_evidence [where tok = "vote_token s"])
  have v: "inv_vote s" and f: "inv_first c s" "inv_approve c {} s" using assms by (simp_all add: iv_inv_def)
  show "set (ch_sent (bcastVoteChan s)) \<subseteq> set (ch_sent (approveValChan s))" "length (ch_sent (bcastVoteChan s)) \<le> 1"
    using v by (auto simp: inv_vote_def split: vote_pc.splits)
  show "\<forall>v \<in> set (ch_sent (bindValChan s)). isInputValid v \<and> (v \<in> {} \<or> strong_quorum c (bca_voted s v))"
    using f by (simp add: inv_first_def)
  show "{0, 1} \<subseteq> set (ch_sent (approveValChan s))" if "ch_sent (bindBotChan s) \<noteq> []"
    using f v that by (intro valid_distinct_both) (auto simp: inv_first_def inv_approve_def inv_vote_def split: vote_pc.splits)
qed (use assms in \<open>auto simp: iv_inv_def vote_token_def\<close>)

section \<open>The contract of the interface\<close>

lemma broadcastEcho_view:
  "view_le (bca_view_of P F s) (bca_view_of P F (fst (broadcastEcho v s)))"
  "bca_echoes (fst (broadcastEcho v s)) = bca_echoes s" "bca_voted (fst (broadcastEcho v s)) = bca_voted s"
  "bca_bound (fst (broadcastEcho v s)) = bca_bound s"
  by (auto simp: broadcastEcho_def chan_put_def chan_send_def view_le_def bca_view_of_def split: option.splits)

lemma broadcastEcho_outcome: "snd (broadcastEcho v s) = GoNil \<or> snd (broadcastEcho v s) = GoBlocked"
  by (auto simp: broadcastEcho_def chan_put_def split: option.splits)

lemma iv_propose_view:
  assumes "iv_propose est coin s = (s', r)" and "P \<subseteq> P'"
  shows "view_le (bca_view_of P F s) (bca_view_of P' F' s')"
    and "same_counts (bca_view_of P F s) (bca_view_of P'' F' s')"
  using assms
  by (auto simp: iv_propose_def broadcastEcho_def chan_put_def chan_send_def view_le_def same_counts_def bca_view_of_def
      split: option.splits if_splits)

lemma iv_submitVote_view:
  assumes "iv_submitVote v x s = (s', r)"
  shows "view_le (bca_view_of P F s) (bca_view_of P F s')" and "adds (bca_voted s) (bca_voted s') v x"
    and "bca_echoes s' = bca_echoes s" and "bca_bound s' = bca_bound s"
  using assms
  by (auto simp: iv_submitVote_def Let_def chan_put_def chan_send_def view_le_def adds_def bca_view_of_def
      split: option.splits if_splits)

lemma iv_submitBind_view:
  assumes "iv_submitBind v x s = (s', r)"
  shows "view_le (bca_view_of P F s) (bca_view_of P F s')" and "adds (bca_bound s) (bca_bound s') v x"
    and "bca_echoes s' = bca_echoes s" and "bca_voted s' = bca_voted s"
  using assms
  by (auto simp: iv_submitBind_def Let_def chan_put_def chan_send_def view_le_def adds_def bca_view_of_def
      split: option.splits if_splits)

lemma iv_submitEcho_view:
  assumes "iv_submitEcho v x s = (s', r)"
  shows "view_le (bca_view_of P F s) (bca_view_of P F s')" and "adds (bca_echoes s) (bca_echoes s') v x"
    and "bca_voted s' = bca_voted s" and "bca_bound s' = bca_bound s"
  using assms
  by (auto simp: iv_submitEcho_def Let_def broadcastEcho_def chan_put_def chan_send_def view_le_def adds_def bca_view_of_def
      split: option.splits if_splits)

text \<open>One step of one of the three goroutines.\<close>

definition iv_run :: "'a ivbca_scheme \<Rightarrow> 'a ivbca_scheme \<Rightarrow> bool" where
  "iv_run s s' \<longleftrightarrow> (\<exists>b. iv_waitToVote b s = Some s' \<or> iv_waitToBind b s = Some s' \<or> iv_waitToDecide b s = Some s')"

lemma iv_waitToBind_view:
  assumes "iv_waitToBind b s = Some s'"
  shows "view_le (bca_view_of P F s) (bca_view_of P F s') \<and> same_counts (bca_view_of P F s) (bca_view_of P F s')"
  using assms
  by (auto simp: iv_waitToBind_def send_then_def recv_then_def chan_send_def chan_recv_def view_le_def same_counts_def
      bca_view_of_def split: option.splits if_splits bind_pc.splits)

lemma iv_waitToDecide_view:
  assumes "iv_waitToDecide b s = Some s'"
  shows "view_le (bca_view_of P F s) (bca_view_of P F s') \<and> same_counts (bca_view_of P F s) (bca_view_of P F s')"
  using assms by (cases rule: iv_waitToDecide_cases) (auto simp: view_le_def same_counts_def bca_view_of_def)

lemma iv_run_view:
  assumes "iv_run s s'"
  shows "view_le (bca_view_of P F s) (bca_view_of P F s') \<and> same_counts (bca_view_of P F s) (bca_view_of P F s')"
proof -
  have "view_le (bca_view_of P F s) (bca_view_of P F s') \<and> same_counts (bca_view_of P F s) (bca_view_of P F s')"
    if "iv_waitToVote b s = Some s'" for b
    using that by (cases rule: iv_waitToVote_cases) (auto simp: view_le_def same_counts_def bca_view_of_def)
  then show ?thesis using assms iv_waitToBind_view iv_waitToDecide_view unfolding iv_run_def by blast
qed

lemma iv_run_inv: "iv_inv c P s \<Longrightarrow> iv_run s s' \<Longrightarrow> iv_inv c P s'"
  unfolding iv_run_def by (metis iv_goroutine_inv)

interpretation ivb: bca_impl "\<lambda>c s. s = newBCA (cfg_n c) (cfg_f c)" iv_propose iv_submitEcho iv_submitVote
  iv_submitBind iv_run "\<lambda>_ _ _. False" bca_view_of "\<lambda>c P F s. F = {} \<and> iv_inv c P s"
proof (unfold_locales, goal_cases)
  case (1 c s)
  then show ?case by (simp add: iv_inv_init)
next
  case (2 c s)
  then show ?case by (simp add: bca_view_of_def init_view_def newBCA_def)
next
  case (3 c P F s)
  then show ?case by (simp add: iv_inv_evidence)
next
  case (4 P F s)
  show ?case by (simp add: bca_view_of_def)
next
  case (5 est coin s s' e)
  then show ?case by (auto simp: iv_propose_def broadcastEcho_def chan_put_def split: if_splits option.splits)
next
  case (6 c P F s est coin s' r)
  then show ?case using iv_propose_inv [of c P s est coin s' r] by (cases r) auto
next
  case (7 est coin s s' r P F F' P')
  then show ?case using iv_propose_view [of est coin s s' r] by blast
next
  case (8 c P F s x v s' r)
  then show ?case using iv_submitEcho_inv(1) by blast
next
  case (9 c P F s x v s' r)
  then show ?case using iv_submitVote_inv(1) by blast
next
  case (10 c P F s x v s' r)
  then show ?case using iv_submitBind_inv(1) by blast
next
  case (11 v x s s' r P F)
  then show ?case using iv_submitEcho_view [of v x s s' r] by (simp add: bca_view_of_def)
next
  case (12 v x s s' r P F)
  then show ?case using iv_submitVote_view [of v x s s' r] by (simp add: bca_view_of_def)
next
  case (13 v x s s' r P F)
  then show ?case using iv_submitBind_view [of v x s s' r] by (simp add: bca_view_of_def)
next
  case (14 c P F s s')
  then show ?case using iv_run_inv by blast
next
  case (15 s s' P F)
  then show ?case by (rule iv_run_view)
qed

end
