(* ===== verification/BCA_External.thy ===== *)
theory BCA_External
  imports BCA_Invariant
begin

text \<open>
  The binding crusader agreement of the rounds after the first,
  \<^verbatim>\<open>asynchronousBinaryAgreement/externalValidityBCA.go\<close>.  It has the fields of \<^verbatim>\<open>ivbca\<close> (\<open>bca_voted\<close> and
  \<open>bca_bound\<close> are its \<^verbatim>\<open>votes\<close> and \<^verbatim>\<open>binds\<close>) and three channels of its own; its voting goroutine has its
  own program counter.  The flags \<^verbatim>\<open>voted\<close> and \<^verbatim>\<open>bound\<close> are written by methods nothing calls, and no
  goroutine is ever started on \<^verbatim>\<open>waitForPrevCoin\<close>; they have no counterpart.
\<close>

section \<open>State\<close>

datatype ev_pc = EFirst | EExt byte | EBcast byte | ELoop byte | EExt2 byte | EBindBot | ETermBot | EDone

record evbca = ivbca +
  prevCoinChan :: "byte chan"
  inputExternalValidChan :: "byte chan"
  closeChan :: "unit chan"
  ev_pc :: ev_pc

definition newEVBCA :: "uint \<Rightarrow> uint \<Rightarrow> evbca" where
  "newEVBCA n f = \<lparr>bca_n = n, bca_f = f, sentEchoes = (\<lambda>_. False),
     bca_echoes = (\<lambda>_. {}), bca_voted = (\<lambda>_. {}), bca_bound = (\<lambda>_. {}),
     bcastEchoChan = make_chan 2, bcastVoteChan = make_chan 2, bcastBindChan = make_chan 2,
     outputDecision = make_chan 1, outputExternalValidChan = make_chan 2, approveValChan = make_chan 4,
     bindBotChan = make_chan 1, bindValChan = make_chan 1, terminateBotChan = make_chan 2,
     terminateValChan = make_chan 1, unblockChan = make_chan 1,
     vote_pc = VDone, bind_pc = BWait, decide_pc = DWait,
     prevCoinChan = make_chan 1, inputExternalValidChan = make_chan 2, closeChan = make_chan 1, ev_pc = EFirst\<rparr>"

section \<open>Handlers\<close>

definition ev_broadcastEcho :: "byte \<Rightarrow> evbca \<Rightarrow> evbca \<times> bca_error outcome" where
  "ev_broadcastEcho echo e =
     chan_put bcastEchoChan bcastEchoChan_update echo (e\<lparr>sentEchoes := (sentEchoes e)(echo := True)\<rparr>)"

definition fastForward :: "byte \<Rightarrow> evbca \<Rightarrow> evbca \<times> bca_error outcome" where
  "fastForward est e =
     and_then (chan_put approveValChan approveValChan_update est (e\<lparr>sentEchoes := (sentEchoes e)(est := True)\<rparr>))
       (chan_put bindValChan bindValChan_update est)"

definition voteOnCoin :: "byte \<Rightarrow> evbca \<Rightarrow> evbca \<times> bca_error outcome" where
  "voteOnCoin prevCoin e =
     chan_put approveValChan approveValChan_update prevCoin
       (e\<lparr>sentEchoes := (sentEchoes e)(prevCoin := True, 1 - prevCoin := True)\<rparr>)"

definition ev_propose :: "byte \<Rightarrow> byte \<Rightarrow> evbca \<Rightarrow> evbca \<times> bca_error outcome" where
  "ev_propose est prevCoin e =
     (if est > bot then (e, GoErr (InvalidInput est))
      else if \<not> isInputValid prevCoin then (e, GoErr (InvalidCoin prevCoin))
      else if est = prevCoin then fastForward est e
      else if est = bot then voteOnCoin prevCoin e
      else and_then (if sentEchoes e est then (e, GoNil) else ev_broadcastEcho est e)
             (chan_put prevCoinChan prevCoinChan_update prevCoin))"

definition ev_submitExternallyValid :: "byte \<Rightarrow> evbca \<Rightarrow> evbca \<times> bca_error outcome" where
  "ev_submitExternallyValid val e = chan_put inputExternalValidChan inputExternalValidChan_update val e"

definition ev_submitEcho :: "byte \<Rightarrow> uuid \<Rightarrow> evbca \<Rightarrow> evbca \<times> bca_error outcome" where
  "ev_submitEcho echo sender e =
     (if \<not> isInputValid echo then (e, GoErr (InvalidInput echo))
      else if sender \<in> bca_echoes e echo then (e, GoErr AlreadySubmittedEcho)
      else
        let e1 = e\<lparr>bca_echoes := (bca_echoes e)(echo := insert sender (bca_echoes e echo))\<rparr>;
            countEcho = int (card (bca_echoes e1 echo))
        in and_then
             (if countEcho = int_of_uint (bca_f e1 + 1) \<and> \<not> sentEchoes e1 echo
              then ev_broadcastEcho echo e1 else (e1, GoNil))
             (\<lambda>e2. if countEcho = int_of_uint (bca_n e2 - bca_f e2)
                   then chan_put approveValChan approveValChan_update echo e2
                   else (e2, GoNil)))"

definition ev_submitVote :: "byte \<Rightarrow> uuid \<Rightarrow> evbca \<Rightarrow> evbca \<times> bca_error outcome" where
  "ev_submitVote vote sender e =
     (if \<not> isInputValid vote then (e, GoErr (InvalidInput vote))
      else if sender \<in> bca_voted e 0 \<or> sender \<in> bca_voted e 1 then (e, GoErr AlreadyVoted)
      else
        let e1 = e\<lparr>bca_voted := (bca_voted e)(vote := insert sender (bca_voted e vote))\<rparr>
        in if int (card (bca_voted e1 vote)) = int_of_uint (bca_n e1 - bca_f e1)
              \<and> int (card (bca_voted e1 (1 - vote))) < int_of_uint (bca_n e1 - bca_f e1)
           then chan_put bindValChan bindValChan_update vote e1
           else (e1, GoNil))"

definition ev_submitBind :: "byte \<Rightarrow> uuid \<Rightarrow> evbca \<Rightarrow> evbca \<times> bca_error outcome" where
  "ev_submitBind bind sender e =
     (if \<not> isInputValid bind then (e, GoErr (InvalidInput bind))
      else if sender \<in> bca_bound e 0 \<or> sender \<in> bca_bound e 1 \<or> sender \<in> bca_bound e bot
      then (e, GoErr AlreadyBound)
      else
        let e1 = e\<lparr>bca_bound := (bca_bound e)(bind := insert sender (bca_bound e bind))\<rparr>
        in if int (card (bca_bound e1 bind)) = int_of_uint (bca_n e1 - bca_f e1)
           then chan_put terminateValChan terminateValChan_update bind e1
           else if int (card (bca_bound e1 0)) + int (card (bca_bound e1 1)) + int (card (bca_bound e1 bot))
                   = int_of_uint (bca_n e1 - bca_f e1)
           then chan_put terminateBotChan terminateBotChan_update () e1
           else (e1, GoNil))"

section \<open>Goroutines\<close>

text \<open>
  The loop of \<^verbatim>\<open>waitToVote\<close> ends when the value other than \<open>first\<close> is approved, so the state
  \<open>ELoop first\<close> stands for the array \<^verbatim>\<open>approvedVals\<close> with only \<open>first\<close> in it.
\<close>

definition ev_waitToVote :: "bool \<Rightarrow> evbca \<Rightarrow> evbca option" where
  "ev_waitToVote closed e =
     (case ev_pc e of
        EFirst \<Rightarrow> recv_then approveValChan approveValChan_update (\<lambda>first. ev_pc_update (\<lambda>_. EExt first)) e
      | EExt first \<Rightarrow>
          send_then outputExternalValidChan outputExternalValidChan_update first (ev_pc_update (\<lambda>_. EBcast first)) e
      | EBcast first \<Rightarrow> send_then bcastVoteChan bcastVoteChan_update first (ev_pc_update (\<lambda>_. ELoop first)) e
      | ELoop first \<Rightarrow>
          if closed then recv_then closeChan closeChan_update (\<lambda>_. ev_pc_update (\<lambda>_. EDone)) e
          else recv_then approveValChan approveValChan_update
                 (\<lambda>val. ev_pc_update (\<lambda>_. if val = 1 - first then EExt2 first else ELoop first)) e
      | EExt2 first \<Rightarrow>
          send_then outputExternalValidChan outputExternalValidChan_update (1 - first) (ev_pc_update (\<lambda>_. EBindBot)) e
      | EBindBot \<Rightarrow> send_then bindBotChan bindBotChan_update () (ev_pc_update (\<lambda>_. ETermBot)) e
      | ETermBot \<Rightarrow> send_then terminateBotChan terminateBotChan_update () (ev_pc_update (\<lambda>_. EDone)) e
      | EDone \<Rightarrow> None)"

definition ev_waitToBind :: "bool \<Rightarrow> evbca \<Rightarrow> evbca option" where
  "ev_waitToBind fromBot e =
     (case bind_pc e of
        BWait \<Rightarrow>
          if fromBot then recv_then bindBotChan bindBotChan_update (\<lambda>_. bind_pc_update (\<lambda>_. BBcast bot)) e
          else recv_then bindValChan bindValChan_update (\<lambda>v. bind_pc_update (\<lambda>_. BBcast v)) e
      | BBcast bindVal \<Rightarrow> send_then bcastBindChan bcastBindChan_update bindVal (bind_pc_update (\<lambda>_. BDone)) e
      | BDone \<Rightarrow> None)"

definition ev_waitToDecide :: "bool \<Rightarrow> evbca \<Rightarrow> evbca option" where
  "ev_waitToDecide fromBot e =
     (case decide_pc e of
        DWait \<Rightarrow>
          if fromBot then recv_then terminateBotChan terminateBotChan_update (\<lambda>_. decide_pc_update (\<lambda>_. DWaitVal)) e
          else recv_then terminateValChan terminateValChan_update (\<lambda>v. decide_pc_update (\<lambda>_. DOut v)) e
      | DWaitVal \<Rightarrow>
          if fromBot then recv_then terminateBotChan terminateBotChan_update (\<lambda>_. decide_pc_update (\<lambda>_. DOut bot)) e
          else recv_then terminateValChan terminateValChan_update (\<lambda>v. decide_pc_update (\<lambda>_. DOut v)) e
      | DOut decision \<Rightarrow> send_then outputDecision outputDecision_update decision (decide_pc_update (\<lambda>_. DUnblock)) e
      | DUnblock \<Rightarrow> send_then unblockChan unblockChan_update () (decide_pc_update (\<lambda>_. DDone)) e
      | DDone \<Rightarrow> None)"

definition ev_close :: "evbca \<Rightarrow> evbca \<times> bca_error outcome" where
  "ev_close e = chan_put closeChan closeChan_update () e"

lemma ev_same_as_iv:
  "ev_broadcastEcho v e = broadcastEcho v e" "ev_submitVote v x e = iv_submitVote v x e"
  "ev_waitToBind b e = iv_waitToBind b e" "ev_waitToDecide b e = iv_waitToDecide b e"
  by (simp_all add: ev_broadcastEcho_def broadcastEcho_def ev_submitVote_def iv_submitVote_def
      ev_waitToBind_def iv_waitToBind_def ev_waitToDecide_def iv_waitToDecide_def)

lemma ev_submitBind_valid:
  "ev_submitBind v x e = (if isInputValid v then iv_submitBind v x e else (e, GoErr (InvalidInput v)))"
proof -
  have "isInputValid v \<Longrightarrow> \<not> v > bot" by (auto simp: isInputValid_def bot_def)
  then show ?thesis by (simp add: ev_submitBind_def iv_submitBind_def)
qed

section \<open>The invariant\<close>

lemma ev_frames [simp]:
  "inv_sets c (prevCoinChan_update w0 e) = inv_sets c e"  "inv_sets c (inputExternalValidChan_update w1 e) = inv_sets c e"
  "inv_sets c (closeChan_update w2 e) = inv_sets c e"  "inv_sets c (ev_pc_update w3 e) = inv_sets c e"
  "inv_echo c P (prevCoinChan_update w0 e) = inv_echo c P e"  "inv_echo c P (inputExternalValidChan_update w1 e) = inv_echo c P e"
  "inv_echo c P (closeChan_update w2 e) = inv_echo c P e"  "inv_echo c P (ev_pc_update w3 e) = inv_echo c P e"
  "inv_approve c F (prevCoinChan_update w0 e) = inv_approve c F e"  "inv_approve c F (inputExternalValidChan_update w1 e) = inv_approve c F e"
  "inv_approve c F (closeChan_update w2 e) = inv_approve c F e"  "inv_approve c F (ev_pc_update w3 e) = inv_approve c F e"
  "inv_bind (prevCoinChan_update w0 e) = inv_bind e"  "inv_bind (inputExternalValidChan_update w1 e) = inv_bind e"
  "inv_bind (closeChan_update w2 e) = inv_bind e"  "inv_bind (ev_pc_update w3 e) = inv_bind e"
  "inv_term c tok (prevCoinChan_update w0 e) = inv_term c tok e"  "inv_term c tok (inputExternalValidChan_update w1 e) = inv_term c tok e"
  "inv_term c tok (closeChan_update w2 e) = inv_term c tok e"  "inv_term c tok (ev_pc_update w3 e) = inv_term c tok e"
  "inv_dec (prevCoinChan_update w0 e) = inv_dec e"  "inv_dec (inputExternalValidChan_update w1 e) = inv_dec e"
  "inv_dec (closeChan_update w2 e) = inv_dec e"  "inv_dec (ev_pc_update w3 e) = inv_dec e"
  by (simp_all add: inv_sets_def inv_echo_def inv_approve_def inv_bind_def bind_ok_def inv_term_def all_bound_def
      inv_dec_def dec_ok_def cong: bind_pc.case_cong decide_pc.case_cong)

definition ev_votes :: "evbca \<Rightarrow> bool" where
  "ev_votes e \<longleftrightarrow>
     (case ev_pc e of
        EFirst \<Rightarrow> ch_sent (bcastVoteChan e) = [] \<and> ch_sent (bindBotChan e) = []
      | EExt v \<Rightarrow> v \<in> set (ch_sent (approveValChan e)) \<and> ch_sent (bcastVoteChan e) = [] \<and> ch_sent (bindBotChan e) = []
      | EBcast v \<Rightarrow> v \<in> set (ch_sent (approveValChan e)) \<and> ch_sent (bcastVoteChan e) = [] \<and> ch_sent (bindBotChan e) = []
      | ELoop v \<Rightarrow> v \<in> set (ch_sent (approveValChan e)) \<and> ch_sent (bcastVoteChan e) = [v] \<and> ch_sent (bindBotChan e) = []
      | EExt2 v \<Rightarrow> {v, 1 - v} \<subseteq> set (ch_sent (approveValChan e)) \<and> ch_sent (bcastVoteChan e) = [v]
          \<and> ch_sent (bindBotChan e) = []
      | EBindBot \<Rightarrow> (\<exists>v. {v, 1 - v} \<subseteq> set (ch_sent (approveValChan e)) \<and> ch_sent (bcastVoteChan e) = [v])
          \<and> ch_sent (bindBotChan e) = []
      | ETermBot \<Rightarrow> (\<exists>v. {v, 1 - v} \<subseteq> set (ch_sent (approveValChan e)) \<and> ch_sent (bcastVoteChan e) = [v])
          \<and> ch_sent (bindBotChan e) = [()]
      | EDone \<Rightarrow> (\<exists>v. v \<in> set (ch_sent (approveValChan e)) \<and> ch_sent (bcastVoteChan e) = [v]
          \<and> (ch_sent (bindBotChan e) \<noteq> [] \<longrightarrow> {v, 1 - v} \<subseteq> set (ch_sent (approveValChan e)))))"

definition ev_bindvals :: "net_cfg \<Rightarrow> byte set \<Rightarrow> evbca \<Rightarrow> bool" where
  "ev_bindvals c F e \<longleftrightarrow> (\<forall>v \<in> set (ch_sent (bindValChan e)). isInputValid v \<and> (v \<in> F \<or> strong_quorum c (bca_voted e v)))"

definition ev_token :: "evbca \<Rightarrow> bool" where
  "ev_token e \<longleftrightarrow> ev_pc e = EDone \<and> ch_sent (bindBotChan e) \<noteq> []"

lemma ev_votes_frame [simp]:
  "ev_votes (sentEchoes_update u0 e) = ev_votes e" "ev_votes (bca_echoes_update u1 e) = ev_votes e"
  "ev_votes (bca_voted_update u2 e) = ev_votes e" "ev_votes (bca_bound_update u3 e) = ev_votes e"
  "ev_votes (bcastEchoChan_update u4 e) = ev_votes e"
  "ev_votes (bcastBindChan_update u6 e) = ev_votes e"
  "ev_votes (outputDecision_update u7 e) = ev_votes e"
  "ev_votes (outputExternalValidChan_update u8 e) = ev_votes e"
  "ev_votes (bindValChan_update u11 e) = ev_votes e"
  "ev_votes (terminateBotChan_update u12 e) = ev_votes e"
  "ev_votes (terminateValChan_update u13 e) = ev_votes e"
  "ev_votes (unblockChan_update u14 e) = ev_votes e" "ev_votes (vote_pc_update u15 e) = ev_votes e"
  "ev_votes (bind_pc_update u16 e) = ev_votes e" "ev_votes (decide_pc_update u17 e) = ev_votes e"
  "ev_votes (prevCoinChan_update u18 e) = ev_votes e"
  "ev_votes (inputExternalValidChan_update u19 e) = ev_votes e"
  "ev_votes (closeChan_update u20 e) = ev_votes e"
  by (simp_all add: ev_votes_def cong: ev_pc.case_cong)

lemma ev_bindvals_frame [simp]:
  "ev_bindvals c F (sentEchoes_update u0 e) = ev_bindvals c F e"
  "ev_bindvals c F (bca_echoes_update u1 e) = ev_bindvals c F e"
  "ev_bindvals c F (bca_bound_update u3 e) = ev_bindvals c F e"
  "ev_bindvals c F (bcastEchoChan_update u4 e) = ev_bindvals c F e"
  "ev_bindvals c F (bcastVoteChan_update u5 e) = ev_bindvals c F e"
  "ev_bindvals c F (bcastBindChan_update u6 e) = ev_bindvals c F e"
  "ev_bindvals c F (outputDecision_update u7 e) = ev_bindvals c F e"
  "ev_bindvals c F (outputExternalValidChan_update u8 e) = ev_bindvals c F e"
  "ev_bindvals c F (approveValChan_update u9 e) = ev_bindvals c F e"
  "ev_bindvals c F (bindBotChan_update u10 e) = ev_bindvals c F e"
  "ev_bindvals c F (terminateBotChan_update u12 e) = ev_bindvals c F e"
  "ev_bindvals c F (terminateValChan_update u13 e) = ev_bindvals c F e"
  "ev_bindvals c F (unblockChan_update u14 e) = ev_bindvals c F e"
  "ev_bindvals c F (vote_pc_update u15 e) = ev_bindvals c F e"
  "ev_bindvals c F (bind_pc_update u16 e) = ev_bindvals c F e"
  "ev_bindvals c F (decide_pc_update u17 e) = ev_bindvals c F e"
  "ev_bindvals c F (prevCoinChan_update u18 e) = ev_bindvals c F e"
  "ev_bindvals c F (inputExternalValidChan_update u19 e) = ev_bindvals c F e"
  "ev_bindvals c F (closeChan_update u20 e) = ev_bindvals c F e"
  "ev_bindvals c F (ev_pc_update u21 e) = ev_bindvals c F e"
  by (simp_all add: ev_bindvals_def)

lemma ev_token_frame [simp]:
  "ev_token (sentEchoes_update u0 e) = ev_token e" "ev_token (bca_echoes_update u1 e) = ev_token e"
  "ev_token (bca_voted_update u2 e) = ev_token e" "ev_token (bca_bound_update u3 e) = ev_token e"
  "ev_token (bcastEchoChan_update u4 e) = ev_token e"
  "ev_token (bcastVoteChan_update u5 e) = ev_token e"
  "ev_token (bcastBindChan_update u6 e) = ev_token e"
  "ev_token (outputDecision_update u7 e) = ev_token e"
  "ev_token (outputExternalValidChan_update u8 e) = ev_token e"
  "ev_token (approveValChan_update u9 e) = ev_token e"
  "ev_token (bindValChan_update u11 e) = ev_token e"
  "ev_token (terminateBotChan_update u12 e) = ev_token e"
  "ev_token (terminateValChan_update u13 e) = ev_token e"
  "ev_token (unblockChan_update u14 e) = ev_token e" "ev_token (vote_pc_update u15 e) = ev_token e"
  "ev_token (bind_pc_update u16 e) = ev_token e" "ev_token (decide_pc_update u17 e) = ev_token e"
  "ev_token (prevCoinChan_update u18 e) = ev_token e"
  "ev_token (inputExternalValidChan_update u19 e) = ev_token e"
  "ev_token (closeChan_update u20 e) = ev_token e"
  by (simp_all add: ev_token_def)

lemma ev_votes_grow:
  assumes "ev_votes e" and "set (ch_sent (approveValChan e)) \<subseteq> set (ch_sent ch)"
  shows "ev_votes (e\<lparr>approveValChan := ch\<rparr>)"
  using assms by (cases "ev_pc e") (auto simp: ev_votes_def)

definition ev_inv :: "net_cfg \<Rightarrow> byte set \<Rightarrow> byte set \<Rightarrow> evbca \<Rightarrow> bool" where
  "ev_inv c P F e \<longleftrightarrow> F \<subseteq> P \<and> inv_sets c e \<and> inv_echo c P e \<and> inv_approve c F e \<and> ev_votes e \<and> ev_bindvals c F e
     \<and> inv_bind e \<and> inv_term c (ev_token e) e \<and> inv_dec e"

lemma ev_inv_init: "byz_ok c \<Longrightarrow> ev_inv c {} {} (newEVBCA (cfg_n c) (cfg_f c))"
  by (simp add: ev_inv_def inv_sets_def inv_echo_def inv_approve_def inv_bind_def inv_term_def inv_dec_def
      ev_votes_def ev_bindvals_def ev_token_def newEVBCA_def)

lemma ev_inv_evidence:
  assumes "ev_inv c P F e"
  shows "bca_evidence c (bca_view_of P F e)"
proof (rule parts_evidence [where tok = "ev_token e"])
  have v: "ev_votes e" and a: "inv_approve c F e" using assms by (simp_all add: ev_inv_def)
  show "set (ch_sent (bcastVoteChan e)) \<subseteq> set (ch_sent (approveValChan e))" "length (ch_sent (bcastVoteChan e)) \<le> 1"
    using v by (auto simp: ev_votes_def split: ev_pc.splits)
  show "{0, 1} \<subseteq> set (ch_sent (approveValChan e))" if "ch_sent (bindBotChan e) \<noteq> []"
  proof -
    have "\<exists>u. {u, 1 - u} \<subseteq> set (ch_sent (approveValChan e))"
      using v that by (cases "ev_pc e") (auto simp: ev_votes_def)
    then obtain u where u: "{u, 1 - u} \<subseteq> set (ch_sent (approveValChan e))" by blast
    then have "isInputValid u" using a by (auto simp: inv_approve_def)
    then show ?thesis using u by (auto simp: isInputValid_def)
  qed
qed (use assms in \<open>auto simp: ev_inv_def ev_bindvals_def ev_token_def\<close>)

text \<open>Handing a value to a channel: it is there afterwards, or the call waits and nothing changed.\<close>

lemma inv_put_approve:
  assumes "ev_inv c P F e" and "isInputValid v" and "v \<in> F \<or> strong_quorum c (bca_echoes e v)"
  shows "ev_inv c P F (fst (chan_put approveValChan approveValChan_update v e))"
proof -
  let ?e = "e\<lparr>approveValChan := (approveValChan e)\<lparr>ch_sent := ch_sent (approveValChan e) @ [v]\<rparr>\<rparr>"
  have "ev_votes ?e" using assms(1) by (intro ev_votes_grow) (auto simp: ev_inv_def)
  moreover have "inv_approve c F ?e" using assms by (auto simp: ev_inv_def inv_approve_def)
  ultimately have "ev_inv c P F ?e" using assms(1) by (simp add: ev_inv_def)
  then show ?thesis using assms(1) by (simp add: fst_chan_put)
qed

lemma inv_put_bindval:
  assumes "ev_inv c P F e" and "isInputValid v" and "v \<in> F \<or> strong_quorum c (bca_voted e v)"
  shows "ev_inv c P F (fst (chan_put bindValChan bindValChan_update v e))"
proof -
  let ?e = "e\<lparr>bindValChan := (bindValChan e)\<lparr>ch_sent := ch_sent (bindValChan e) @ [v]\<rparr>\<rparr>"
  have "inv_bind ?e" using assms(1) by (auto simp: ev_inv_def inv_bind_def bind_ok_def split: bind_pc.splits)
  moreover have "ev_bindvals c F ?e" using assms by (auto simp: ev_inv_def ev_bindvals_def)
  ultimately have "ev_inv c P F ?e" using assms(1) by (simp add: ev_inv_def)
  then show ?thesis using assms(1) by (simp add: fst_chan_put)
qed

lemma inv_more:
  assumes "ev_inv c P F e" and "P \<subseteq> P'" and "F \<subseteq> F'" and "F' \<subseteq> P'"
  shows "ev_inv c P' F' e"
  using assms by (auto simp: ev_inv_def inv_echo_def inv_approve_def ev_bindvals_def)

lemma inv_sent_flag: "ev_inv c P F e \<Longrightarrow> ev_inv c P F (e\<lparr>sentEchoes := (sentEchoes e)(v := True)\<rparr>)"
  by (auto simp: ev_inv_def inv_echo_def)

lemma inv_broadcastEcho:
  assumes "ev_inv c P F e" and "isInputValid v" and "\<not> sentEchoes e v" and "v \<in> P \<or> weak_quorum c (bca_echoes e v)"
  shows "ev_inv c P F (fst (broadcastEcho v e))"
proof -
  have "inv_echo c P e" using assms(1) by (simp add: ev_inv_def)
  from broadcastEcho_eq [OF this assms(2,3)] show ?thesis
    using assms by (auto simp: ev_inv_def inv_echo_def)
qed

lemma fastForward_inv:
  assumes "ev_inv c P F e" and "isInputValid v"
  shows "ev_inv c (insert v P) (insert v F) (fst (fastForward v e))"
proof -
  have "ev_inv c (insert v P) (insert v F) (e\<lparr>sentEchoes := (sentEchoes e)(v := True)\<rparr>)"
    by (rule inv_sent_flag [OF inv_more [OF assms(1)]]) (use assms(1) in \<open>auto simp: ev_inv_def\<close>)
  then have "ev_inv c (insert v P) (insert v F) (fst (chan_put approveValChan approveValChan_update v
      (e\<lparr>sentEchoes := (sentEchoes e)(v := True)\<rparr>) :: evbca \<times> bca_error outcome))"
    by (rule inv_put_approve) (use assms(2) in auto)
  then show ?thesis unfolding fastForward_def fst_and_then
    using inv_put_bindval [of c "insert v P" "insert v F" _ v] assms(2) by auto
qed

lemma inv_put_prevCoin:
  assumes "ev_inv c P F e"
  shows "ev_inv c P F (fst (chan_put prevCoinChan prevCoinChan_update v e))"
  using assms by (simp add: chan_put_def chan_send_def ev_inv_def split: option.splits)

lemma ev_propose_inv:
  assumes inv: "ev_inv c P F e" and v: "isInputValid est"
    and op: "ev_propose est coin e = (e', r)" "\<nexists>x. r = GoErr x"
  shows "ev_inv c (insert est P) (if est = coin then insert est F else F) e'"
proof -
  have nbot: "\<not> est > bot" "est \<noteq> bot" using v by (auto simp: isInputValid_def bot_def)
  have coin: "isInputValid coin" using op nbot by (auto simp: ev_propose_def split: if_splits)
  show ?thesis
  proof (cases "est = coin")
    case True
    then show ?thesis using op nbot coin fastForward_inv [OF inv v] by (simp add: ev_propose_def)
  next
    case False
    have more: "ev_inv c (insert est P) F e" by (rule inv_more [OF inv]) (use inv in \<open>auto simp: ev_inv_def\<close>)
    let ?m = "if sentEchoes e est then (e, GoNil) else ev_broadcastEcho est e"
    have m: "ev_inv c (insert est P) F (fst ?m)"
      using more inv_broadcastEcho [OF more v] by (simp add: ev_same_as_iv)
    have "e' = fst (and_then ?m (chan_put prevCoinChan prevCoinChan_update coin))"
      using op(1) nbot coin False by (simp add: ev_propose_def split: if_splits)
    then show ?thesis using m False by (auto simp: fst_and_then intro: inv_put_prevCoin split: if_splits)
  qed
qed

lemma ev_submitEcho_inv:
  assumes inv: "ev_inv c P F e" and ok: "byz_ok c" and x: "x \<in> procs c" and op: "ev_submitEcho v x e = (e', r)"
  shows "ev_inv c P F e'"
proof (cases "isInputValid v \<and> x \<notin> bca_echoes e v")
  case False
  then show ?thesis using inv op by (auto simp: ev_submitEcho_def split: if_splits)
next
  case True
  let ?e1 = "e\<lparr>bca_echoes := (bca_echoes e)(v := insert x (bca_echoes e v))\<rparr>"
  let ?m = "if int (card (insert x (bca_echoes e v))) = int_of_uint (bca_f e + 1) \<and> \<not> sentEchoes e v
    then broadcastEcho v ?e1 else (?e1, GoNil)"
  have nf: "bca_n e = cfg_n c" "bca_f e = cfg_f c" using inv by (simp_all add: ev_inv_def inv_sets_def)
  have sub: "insert x (bca_echoes e v) \<subseteq> procs c" using inv x by (simp add: ev_inv_def inv_sets_def)
  have weak: "weak_quorum c (bca_echoes e v) \<Longrightarrow> weak_quorum c (insert x (bca_echoes e v))"
    and strong: "strong_quorum c (bca_echoes e v) \<Longrightarrow> strong_quorum c (insert x (bca_echoes e v))"
    using weak_insert [OF ok] strong_insert [OF ok] sub by blast+
  have "inv_sets c ?e1" "inv_echo c P ?e1" "inv_approve c F ?e1"
    using inv x weak strong by (auto simp: ev_inv_def inv_sets_def inv_echo_def inv_approve_def)
  then have e1: "ev_inv c P F ?e1" using inv by (simp add: ev_inv_def)
  have m: "ev_inv c P F (fst ?m)"
    using e1 inv_broadcastEcho [OF e1, of v] True hits_weak [of "insert x (bca_echoes e v)" c] nf by auto
  have keep: "bca_echoes (fst ?m) v = insert x (bca_echoes e v)" "bca_n (fst ?m) = cfg_n c" "bca_f (fst ?m) = cfg_f c"
    using nf by (auto simp: broadcastEcho_view broadcastEcho_def fst_chan_put)
  have "ev_submitEcho v x e = and_then ?m (\<lambda>e2. if int (card (insert x (bca_echoes e v))) = int_of_uint (bca_n e2 - bca_f e2)
      then chan_put approveValChan approveValChan_update v e2 else (e2, GoNil))"
    unfolding ev_submitEcho_def Let_def ev_same_as_iv using True by simp
  then have "e' = fst (and_then ?m (\<lambda>e2. if int (card (insert x (bca_echoes e v))) = int_of_uint (bca_n e2 - bca_f e2)
      then chan_put approveValChan approveValChan_update v e2 else (e2, GoNil)))"
    using op by (metis fst_conv)
  then show ?thesis
    using m inv_put_approve [OF m, of v] True keep hits_strong [of "insert x (bca_echoes e v)" c]
    by (auto simp: fst_and_then split: if_splits)
qed

lemma ev_submitVote_inv:
  assumes inv: "ev_inv c P F e" and ok: "byz_ok c" and x: "x \<in> procs c" and op: "ev_submitVote v x e = (e', r)"
  shows "ev_inv c P F e'"
proof (cases "isInputValid v \<and> x \<notin> bca_voted e 0 \<and> x \<notin> bca_voted e 1")
  case False
  then show ?thesis using inv op by (auto simp: ev_submitVote_def split: if_splits)
next
  case True
  let ?e1 = "e\<lparr>bca_voted := (bca_voted e)(v := insert x (bca_voted e v))\<rparr>"
  have nf: "bca_n e = cfg_n c" "bca_f e = cfg_f c" using inv by (simp_all add: ev_inv_def inv_sets_def)
  have sub: "insert x (bca_voted e v) \<subseteq> procs c" using inv x by (simp add: ev_inv_def inv_sets_def)
  have strong: "strong_quorum c (bca_voted e v) \<Longrightarrow> strong_quorum c (insert x (bca_voted e v))"
    using strong_insert [OF ok] sub by blast
  have "inv_sets c ?e1" "ev_bindvals c F ?e1"
    using inv x strong True by (auto simp: ev_inv_def inv_sets_def ev_bindvals_def isInputValid_def)
  then have e1: "ev_inv c P F ?e1" using inv by (simp add: ev_inv_def)
  have "e' = (if int (card (insert x (bca_voted e v))) = int_of_uint (cfg_n c - cfg_f c)
        \<and> int (card (bca_voted ?e1 (1 - v))) < int_of_uint (cfg_n c - cfg_f c)
      then fst (chan_put bindValChan bindValChan_update v ?e1 :: evbca \<times> bca_error outcome) else ?e1)"
    using op True nf by (auto simp: ev_submitVote_def Let_def split: if_splits)
  then show ?thesis
    using e1 inv_put_bindval [OF e1, of v] True hits_strong [of "insert x (bca_voted e v)" c] by auto
qed

lemma ev_submitBind_inv:
  assumes inv: "ev_inv c P F e" and ok: "byz_ok c" and x: "x \<in> procs c" and op: "ev_submitBind v x e = (e', r)"
  shows "ev_inv c P F e'"
proof (cases "isInputValid v \<and> x \<notin> bca_bound e 0 \<and> x \<notin> bca_bound e 1 \<and> x \<notin> bca_bound e bot")
  case False
  then show ?thesis using inv op by (auto simp: ev_submitBind_def split: if_splits)
next
  case True
  then have v: "v \<le> bot" by (auto simp: isInputValid_def bot_def)
  have parts: "inv_sets c e" "inv_term c (ev_token e) e" "inv_dec e" using inv by (simp_all add: ev_inv_def)
  obtain t b where e': "e' = count_bind v x t b e"
    and tb: "t \<Longrightarrow> strong_quorum c (insert x (bca_bound e v)) \<and> ch_sent (terminateValChan e) = []"
      "b \<Longrightarrow> strong_quorum c (insert x (all_bound e)) \<and> \<not> strong_quorum c (all_bound e)"
    using submitBind_eq [OF ok parts(1,2) x v] op True by (auto simp: ev_submitBind_valid)
  have "ev_votes e' = ev_votes e" "ev_bindvals c F e' = ev_bindvals c F e" "ev_token e' = ev_token e"
    by (simp_all add: e' count_bind_def)
  then show ?thesis using count_bind_inv [OF ok parts x v _ _ _ tb] True inv e' by (simp add: ev_inv_def)
qed

section \<open>Goroutines keep the invariant\<close>

lemma ev_waitToVote_cases:
  assumes "ev_waitToVote b e = Some e'"
  obtains (first) v where "ev_pc e = EFirst" "v \<in> set (ch_sent (approveValChan e))"
      "e' = e\<lparr>approveValChan := (approveValChan e)\<lparr>ch_taken := Suc (ch_taken (approveValChan e))\<rparr>, ev_pc := EExt v\<rparr>"
  | (ext) v where "ev_pc e = EExt v"
      "e' = e\<lparr>outputExternalValidChan := (outputExternalValidChan e)\<lparr>ch_sent := ch_sent (outputExternalValidChan e) @ [v]\<rparr>,
         ev_pc := EBcast v\<rparr>"
  | (bcast) v where "ev_pc e = EBcast v"
      "e' = e\<lparr>bcastVoteChan := (bcastVoteChan e)\<lparr>ch_sent := ch_sent (bcastVoteChan e) @ [v]\<rparr>, ev_pc := ELoop v\<rparr>"
  | (closed) v where "ev_pc e = ELoop v"
      "e' = e\<lparr>closeChan := (closeChan e)\<lparr>ch_taken := Suc (ch_taken (closeChan e))\<rparr>, ev_pc := EDone\<rparr>"
  | (loop) v u where "ev_pc e = ELoop v" "u \<in> set (ch_sent (approveValChan e))"
      "e' = e\<lparr>approveValChan := (approveValChan e)\<lparr>ch_taken := Suc (ch_taken (approveValChan e))\<rparr>,
         ev_pc := if u = 1 - v then EExt2 v else ELoop v\<rparr>"
  | (ext2) v where "ev_pc e = EExt2 v"
      "e' = e\<lparr>outputExternalValidChan := (outputExternalValidChan e)\<lparr>ch_sent := ch_sent (outputExternalValidChan e) @ [1 - v]\<rparr>,
         ev_pc := EBindBot\<rparr>"
  | (bindbot) "ev_pc e = EBindBot"
      "e' = e\<lparr>bindBotChan := (bindBotChan e)\<lparr>ch_sent := ch_sent (bindBotChan e) @ [()]\<rparr>, ev_pc := ETermBot\<rparr>"
  | (termbot) "ev_pc e = ETermBot"
      "e' = e\<lparr>terminateBotChan := (terminateBotChan e)\<lparr>ch_sent := ch_sent (terminateBotChan e) @ [()]\<rparr>, ev_pc := EDone\<rparr>"
proof (cases "ev_pc e")
  case EFirst
  with assms have "recv_then approveValChan approveValChan_update (\<lambda>first. ev_pc_update (\<lambda>_. EExt first)) e = Some e'"
    by (simp add: ev_waitToVote_def)
  from recv_thenD [OF this] show thesis by (intro first [OF EFirst]) simp_all
next
  case (EExt v)
  with assms have "send_then outputExternalValidChan outputExternalValidChan_update v (ev_pc_update (\<lambda>_. EBcast v)) e = Some e'"
    by (simp add: ev_waitToVote_def)
  from EExt send_thenE [OF this] show thesis by (rule ext)
next
  case (EBcast v)
  with assms have "send_then bcastVoteChan bcastVoteChan_update v (ev_pc_update (\<lambda>_. ELoop v)) e = Some e'"
    by (simp add: ev_waitToVote_def)
  from EBcast send_thenE [OF this] show thesis by (rule bcast)
next
  case (ELoop v)
  show thesis
  proof (cases b)
    case True
    with ELoop assms have "recv_then closeChan closeChan_update (\<lambda>_. ev_pc_update (\<lambda>_. EDone)) e = Some e'"
      by (simp add: ev_waitToVote_def)
    from recv_thenD [OF this] show thesis by (intro closed [OF ELoop]) simp
  next
    case False
    with ELoop assms have "recv_then approveValChan approveValChan_update
        (\<lambda>val. ev_pc_update (\<lambda>_. if val = 1 - v then EExt2 v else ELoop v)) e = Some e'"
      by (simp add: ev_waitToVote_def)
    from recv_thenD [OF this] show thesis
      by (intro loop [OF ELoop, of "ch_sent (approveValChan e) ! ch_taken (approveValChan e)"]) simp_all
  qed
next
  case (EExt2 v)
  with assms have "send_then outputExternalValidChan outputExternalValidChan_update (1 - v) (ev_pc_update (\<lambda>_. EBindBot)) e = Some e'"
    by (simp add: ev_waitToVote_def)
  from EExt2 send_thenE [OF this] show thesis by (rule ext2)
next
  case EBindBot
  with assms have "send_then bindBotChan bindBotChan_update () (ev_pc_update (\<lambda>_. ETermBot)) e = Some e'"
    by (simp add: ev_waitToVote_def)
  from EBindBot send_thenE [OF this] show thesis by (rule bindbot)
next
  case ETermBot
  with assms have "send_then terminateBotChan terminateBotChan_update () (ev_pc_update (\<lambda>_. EDone)) e = Some e'"
    by (simp add: ev_waitToVote_def)
  from ETermBot send_thenE [OF this] show thesis by (rule termbot)
next
  case EDone
  with assms show thesis by (simp add: ev_waitToVote_def)
qed

lemma ev_waitToVote_inv:
  assumes inv: "ev_inv c P F e" and "ev_waitToVote b e = Some e'"
  shows "ev_inv c P F e'"
  using assms(2)
proof (cases rule: ev_waitToVote_cases)
  case (first v)
  then have "ev_votes e'" "inv_approve c F e'" using inv by (auto simp: ev_inv_def ev_votes_def inv_approve_def)
  with first show ?thesis using inv by (simp add: ev_inv_def ev_token_def)
next
  case (ext v)
  then have "ev_votes e'" using inv by (auto simp: ev_inv_def ev_votes_def)
  with ext show ?thesis using inv by (simp add: ev_inv_def ev_token_def)
next
  case (bcast v)
  then have "ev_votes e'" using inv by (auto simp: ev_inv_def ev_votes_def)
  with bcast show ?thesis using inv by (simp add: ev_inv_def ev_token_def)
next
  case (closed v)
  then have "ev_votes e'" "ev_token e' = False" using inv by (auto simp: ev_inv_def ev_votes_def ev_token_def)
  with closed show ?thesis using inv by (simp add: ev_inv_def ev_token_def)
next
  case (loop v u)
  then have "ev_votes e'" "inv_approve c F e'" using inv by (auto simp: ev_inv_def ev_votes_def inv_approve_def)
  with loop show ?thesis using inv by (auto simp: ev_inv_def ev_token_def)
next
  case (ext2 v)
  then have "ev_votes e'" using inv by (auto simp: ev_inv_def ev_votes_def)
  with ext2 show ?thesis using inv by (simp add: ev_inv_def ev_token_def)
next
  case bindbot
  then have "ev_votes e'" using inv by (auto simp: ev_inv_def ev_votes_def)
  moreover have "inv_bind e'" using bindbot inv by (auto simp: ev_inv_def inv_bind_def bind_ok_def split: bind_pc.splits)
  ultimately show ?thesis using bindbot inv by (simp add: ev_inv_def ev_token_def)
next
  case termbot
  then have "ev_votes e'" using inv by (auto simp: ev_inv_def ev_votes_def)
  moreover have "inv_dec e'" using termbot inv by (auto simp: ev_inv_def inv_dec_def dec_ok_def split: decide_pc.splits)
  moreover have "inv_term c (ev_token e') e'"
    using termbot inv by (auto simp: ev_inv_def ev_votes_def inv_term_def ev_token_def all_bound_def)
  ultimately show ?thesis using termbot inv by (simp add: ev_inv_def)
qed

definition ev_run :: "evbca \<Rightarrow> evbca \<Rightarrow> bool" where
  "ev_run e e' \<longleftrightarrow> (\<exists>b. ev_waitToVote b e = Some e' \<or> ev_waitToBind b e = Some e' \<or> ev_waitToDecide b e = Some e')"

lemma ev_waitToBind_keeps:
  assumes "iv_waitToBind b (e :: evbca) = Some e'"
  shows "ev_votes e' = ev_votes e" "ev_bindvals c F e' = ev_bindvals c F e" "ev_token e' = ev_token e"
  using assms
  by (auto simp: iv_waitToBind_def send_then_def recv_then_def chan_send_def chan_recv_def ev_votes_def ev_bindvals_def
      ev_token_def cong: ev_pc.case_cong split: option.splits if_splits bind_pc.splits)

lemma ev_waitToDecide_keeps:
  assumes "iv_waitToDecide b (e :: evbca) = Some e'"
  shows "ev_votes e' = ev_votes e \<and> ev_bindvals c F e' = ev_bindvals c F e \<and> ev_token e' = ev_token e"
  using assms by (cases rule: iv_waitToDecide_cases) auto

lemma ev_run_inv:
  assumes "ev_inv c P F e" and "ev_run e e'"
  shows "ev_inv c P F e'"
proof -
  obtain b where "ev_waitToVote b e = Some e' \<or> iv_waitToBind b e = Some e' \<or> iv_waitToDecide b e = Some e'"
    using assms(2) by (auto simp: ev_run_def ev_same_as_iv)
  then show ?thesis
  proof (elim disjE)
    assume b: "iv_waitToBind b e = Some e'"
    have "inv_bind e" using assms(1) by (simp add: ev_inv_def)
    from iv_waitToBind_inv [OF this b] ev_waitToBind_keeps [OF b] show ?thesis using assms(1) by (simp add: ev_inv_def)
  next
    assume d: "iv_waitToDecide b e = Some e'"
    have "inv_dec e" using assms(1) by (simp add: ev_inv_def)
    from iv_waitToDecide_inv [OF this d] ev_waitToDecide_keeps [OF d] show ?thesis using assms(1) by (simp add: ev_inv_def)
  qed (rule ev_waitToVote_inv [OF assms(1)])
qed

lemma ev_run_view:
  assumes "ev_run e e'"
  shows "view_le (bca_view_of P F e) (bca_view_of P F e') \<and> same_counts (bca_view_of P F e) (bca_view_of P F e')"
proof -
  have "view_le (bca_view_of P F e) (bca_view_of P F e') \<and> same_counts (bca_view_of P F e) (bca_view_of P F e')"
    if "ev_waitToVote b e = Some e'" for b
    using that by (cases rule: ev_waitToVote_cases) (auto simp: view_le_def same_counts_def bca_view_of_def)
  then show ?thesis using assms iv_waitToBind_view iv_waitToDecide_view unfolding ev_run_def ev_same_as_iv by blast
qed

section \<open>The contract of the interface\<close>

lemma ev_propose_view:
  assumes "ev_propose est coin e = (e', r)" and "P \<subseteq> P'"
  shows "view_le (bca_view_of P F e) (bca_view_of P' F' e')"
    and "same_counts (bca_view_of P F e) (bca_view_of P'' F' e')"
  using assms
  by (auto simp: ev_propose_def fastForward_def voteOnCoin_def ev_broadcastEcho_def chan_put_def chan_send_def
      view_le_def same_counts_def bca_view_of_def split: option.splits if_splits)

lemma ev_propose_rejected:
  assumes "ev_propose est coin e = (e', GoErr x)"
  shows "e' = e"
proof (rule ccontr)
  assume "e' \<noteq> e"
  let ?k = "chan_put prevCoinChan prevCoinChan_update coin :: evbca \<Rightarrow> evbca \<times> bca_error outcome"
  have "snd (fastForward est e) = GoErr x \<or> snd (voteOnCoin coin e) = GoErr x
      \<or> snd (and_then (if sentEchoes e est then (e, GoNil) else ev_broadcastEcho est e) ?k) = GoErr x"
    using assms \<open>e' \<noteq> e\<close> by (auto simp: ev_propose_def split: if_splits)
  then show False
    by (auto simp: fastForward_def voteOnCoin_def ev_broadcastEcho_def chan_put_no_error dest!: snd_and_then_err split: if_splits)
qed

lemma ev_submitEcho_view:
  assumes "ev_submitEcho v x e = (e', r)"
  shows "view_le (bca_view_of P F e) (bca_view_of P F e')" and "adds (bca_echoes e) (bca_echoes e') v x"
    and "bca_voted e' = bca_voted e" and "bca_bound e' = bca_bound e"
  using assms
  by (auto simp: ev_submitEcho_def Let_def ev_broadcastEcho_def chan_put_def chan_send_def view_le_def adds_def bca_view_of_def
      split: option.splits if_splits)

interpretation evb: bca_impl "\<lambda>c e. e = newEVBCA (cfg_n c) (cfg_f c)" ev_propose ev_submitEcho ev_submitVote
  ev_submitBind ev_run "\<lambda>est coin _. est = coin" bca_view_of ev_inv
proof (unfold_locales, goal_cases)
  case (1 c s)
  then show ?case by (simp add: ev_inv_init)
next
  case (2 c s)
  then show ?case by (simp add: bca_view_of_def init_view_def newEVBCA_def)
next
  case (3 c P F s)
  then show ?case by (simp add: ev_inv_evidence)
next
  case (4 P F s)
  show ?case by (simp add: bca_view_of_def)
next
  case (5 est coin s s' e)
  then show ?case by (rule ev_propose_rejected)
next
  case (6 c P F s est coin s' r)
  then show ?case using ev_propose_inv by blast
next
  case (7 est coin s s' r P F F' P')
  then show ?case using ev_propose_view [of est coin s s' r] by blast
next
  case (8 c P F s x v s' r)
  then show ?case using ev_submitEcho_inv by blast
next
  case (9 c P F s x v s' r)
  then show ?case using ev_submitVote_inv by blast
next
  case (10 c P F s x v s' r)
  then show ?case using ev_submitBind_inv by blast
next
  case (11 v x s s' r P F)
  then show ?case using ev_submitEcho_view [of v x s s' r] by (simp add: bca_view_of_def)
next
  case (12 v x s s' r P F)
  then show ?case using iv_submitVote_view [of v x s s' r] by (simp add: bca_view_of_def ev_same_as_iv)
next
  case (13 v x s s' r P F)
  show ?case
  proof (cases "isInputValid v")
    case True
    then have "iv_submitBind v x s = (s', r)" using 13 by (simp add: ev_submitBind_valid)
    from iv_submitBind_view [OF this] show ?thesis by (simp add: bca_view_of_def)
  next
    case False
    then have "s' = s" using 13 by (simp add: ev_submitBind_valid)
    then show ?thesis by simp
  qed
next
  case (14 c P F s s')
  then show ?case using ev_run_inv by blast
next
  case (15 s s' P F)
  then show ?case by (rule ev_run_view)
qed

end
