(* ===== verification/MMR_Round.thy ===== *)
theory MMR_Round
  imports BCA_External
begin

text \<open>
  One round of the binary agreement (\<^verbatim>\<open>asynchronousBinaryAgreement/round.go\<close>): a binding crusader
  agreement behind the Go interface \<^verbatim>\<open>bca\<close>, whose dynamic dispatch is a case distinction here, and the
  goroutine \<^verbatim>\<open>execRound\<close>, which waits for the agreement's decision, requests the common coin, waits for
  it and hands over the transition to the next round.
\<close>

section \<open>The agreement behind the interface\<close>

datatype bca = IV ivbca | EV evbca

fun bca_propose :: "byte \<Rightarrow> byte \<Rightarrow> bca \<Rightarrow> bca \<times> bca_error outcome" where
  "bca_propose est prevCoin (IV s) = apfst IV (iv_propose est prevCoin s)"
| "bca_propose est prevCoin (EV e) = apfst EV (ev_propose est prevCoin e)"

fun bca_submitEcho :: "byte \<Rightarrow> uuid \<Rightarrow> bca \<Rightarrow> bca \<times> bca_error outcome" where
  "bca_submitEcho v x (IV s) = apfst IV (iv_submitEcho v x s)"
| "bca_submitEcho v x (EV e) = apfst EV (ev_submitEcho v x e)"

fun bca_submitVote :: "byte \<Rightarrow> uuid \<Rightarrow> bca \<Rightarrow> bca \<times> bca_error outcome" where
  "bca_submitVote v x (IV s) = apfst IV (iv_submitVote v x s)"
| "bca_submitVote v x (EV e) = apfst EV (ev_submitVote v x e)"

fun bca_submitBind :: "byte \<Rightarrow> uuid \<Rightarrow> bca \<Rightarrow> bca \<times> bca_error outcome" where
  "bca_submitBind v x (IV s) = apfst IV (iv_submitBind v x s)"
| "bca_submitBind v x (EV e) = apfst EV (ev_submitBind v x e)"

text \<open>The first round's agreement ignores externally valid values.\<close>

fun bca_submitExternallyValid :: "byte \<Rightarrow> bca \<Rightarrow> bca \<times> bca_error outcome" where
  "bca_submitExternallyValid v (IV s) = (IV s, GoNil)"
| "bca_submitExternallyValid v (EV e) = apfst EV (ev_submitExternallyValid v e)"

text \<open>The fields that both implementations have.\<close>

fun on_bca :: "(ivbca \<Rightarrow> 'r) \<Rightarrow> (evbca \<Rightarrow> 'r) \<Rightarrow> bca \<Rightarrow> 'r" where
  "on_bca g h (IV s) = g s"
| "on_bca g h (EV e) = h e"

text \<open>
  Outside readers of the agreement's channels: the decision is read by \<^verbatim>\<open>execRound\<close>, the others by
  \<^verbatim>\<open>listenRequests\<close>.  A read moves the value out of the buffer.
\<close>

fun takeDecision :: "bca \<Rightarrow> (byte \<times> bca) option" where
  "takeDecision (IV s) = map_option (\<lambda>(v, ch). (v, IV (s\<lparr>outputDecision := ch\<rparr>))) (chan_recv (outputDecision s))"
| "takeDecision (EV e) = map_option (\<lambda>(v, ch). (v, EV (e\<lparr>outputDecision := ch\<rparr>))) (chan_recv (outputDecision e))"

fun takeEcho :: "bca \<Rightarrow> (byte \<times> bca) option" where
  "takeEcho (IV s) = map_option (\<lambda>(v, ch). (v, IV (s\<lparr>bcastEchoChan := ch\<rparr>))) (chan_recv (bcastEchoChan s))"
| "takeEcho (EV e) = map_option (\<lambda>(v, ch). (v, EV (e\<lparr>bcastEchoChan := ch\<rparr>))) (chan_recv (bcastEchoChan e))"

fun takeVote :: "bca \<Rightarrow> (byte \<times> bca) option" where
  "takeVote (IV s) = map_option (\<lambda>(v, ch). (v, IV (s\<lparr>bcastVoteChan := ch\<rparr>))) (chan_recv (bcastVoteChan s))"
| "takeVote (EV e) = map_option (\<lambda>(v, ch). (v, EV (e\<lparr>bcastVoteChan := ch\<rparr>))) (chan_recv (bcastVoteChan e))"

fun takeBind :: "bca \<Rightarrow> (byte \<times> bca) option" where
  "takeBind (IV s) = map_option (\<lambda>(v, ch). (v, IV (s\<lparr>bcastBindChan := ch\<rparr>))) (chan_recv (bcastBindChan s))"
| "takeBind (EV e) = map_option (\<lambda>(v, ch). (v, EV (e\<lparr>bcastBindChan := ch\<rparr>))) (chan_recv (bcastBindChan e))"

fun takeExternalValid :: "bca \<Rightarrow> (byte \<times> bca) option" where
  "takeExternalValid (IV s) = map_option (\<lambda>(v, ch). (v, IV (s\<lparr>outputExternalValidChan := ch\<rparr>))) (chan_recv (outputExternalValidChan s))"
| "takeExternalValid (EV e) = map_option (\<lambda>(v, ch). (v, EV (e\<lparr>outputExternalValidChan := ch\<rparr>))) (chan_recv (outputExternalValidChan e))"

section \<open>Rounds\<close>

record roundTransitionResult =
  estimate :: byte
  decided :: bool

datatype exec_pc = XDec | XReq byte | XCoin byte | XOut byte byte | XDone

record mmrRound =
  round_bca :: bca
  coinReqChan :: "unit chan"
  coinReceiveChan :: "byte chan"
  internalTransition :: "roundTransitionResult chan"
  exec_pc :: exec_pc

definition newFirstRound :: "uint \<Rightarrow> uint \<Rightarrow> mmrRound" where
  "newFirstRound n f = \<lparr>round_bca = IV (newBCA n f), coinReqChan = make_chan 1, coinReceiveChan = make_chan 1,
     internalTransition = make_chan 1, exec_pc = XDec\<rparr>"

definition newRound :: "uint \<Rightarrow> uint \<Rightarrow> mmrRound" where
  "newRound n f = \<lparr>round_bca = EV (newEVBCA n f), coinReqChan = make_chan 1, coinReceiveChan = make_chan 1,
     internalTransition = make_chan 1, exec_pc = XDec\<rparr>"

text \<open>What the round hands over, given the agreement's decision and the coin.\<close>

definition transition :: "byte \<Rightarrow> byte \<Rightarrow> roundTransitionResult" where
  "transition dec coin =
     (if dec = bot then \<lparr>estimate = coin, decided = False\<rparr>
      else \<lparr>estimate = dec, decided = (coin = dec)\<rparr>)"

definition execRound :: "mmrRound \<Rightarrow> mmrRound option" where
  "execRound r =
     (case exec_pc r of
        XDec \<Rightarrow> (case takeDecision (round_bca r) of
            None \<Rightarrow> None
          | Some (dec, b) \<Rightarrow> Some (r\<lparr>round_bca := b, exec_pc := XReq dec\<rparr>))
      | XReq dec \<Rightarrow> send_then coinReqChan coinReqChan_update () (exec_pc_update (\<lambda>_. XCoin dec)) r
      | XCoin dec \<Rightarrow> recv_then coinReceiveChan coinReceiveChan_update (\<lambda>coin. exec_pc_update (\<lambda>_. XOut dec coin)) r
      | XOut dec coin \<Rightarrow>
          send_then internalTransition internalTransition_update (transition dec coin) (exec_pc_update (\<lambda>_. XDone)) r
      | XDone \<Rightarrow> None)"

text \<open>The goroutine runs for as long as it can, at most the given number of steps.\<close>

fun execRoundN :: "nat \<Rightarrow> mmrRound \<Rightarrow> mmrRound" where
  "execRoundN 0 r = r"
| "execRoundN (Suc k) r = (case execRound r of None \<Rightarrow> r | Some r' \<Rightarrow> execRoundN k r')"

text \<open>
  \<^verbatim>\<open>submitCoin\<close> hands the coin to the goroutine and waits for the transition.  The goroutine has four
  steps in all, so four are enough; the call waits when the agreement has not decided.
\<close>

definition round_submitCoin :: "byte \<Rightarrow> mmrRound \<Rightarrow> (mmrRound \<times> roundTransitionResult option) \<times> bca_error outcome" where
  "round_submitCoin coin r =
     (if \<not> isInputValid coin then ((r, None), GoErr (InvalidInput coin))
      else case chan_send coin (coinReceiveChan r) of
        None \<Rightarrow> ((r, None), GoBlocked)
      | Some ch \<Rightarrow>
          let r1 = execRoundN 4 (r\<lparr>coinReceiveChan := ch\<rparr>)
          in case chan_recv (internalTransition r1) of
               None \<Rightarrow> ((r1, None), GoBlocked)
             | Some (t, ch2) \<Rightarrow> ((r1\<lparr>internalTransition := ch2\<rparr>, Some t), GoNil))"

section \<open>The contract of the interface, for either implementation\<close>

fun bca_fresh :: "net_cfg \<Rightarrow> bca \<Rightarrow> bool" where
  "bca_fresh c (IV s) \<longleftrightarrow> s = newBCA (cfg_n c) (cfg_f c)"
| "bca_fresh c (EV e) \<longleftrightarrow> e = newEVBCA (cfg_n c) (cfg_f c)"

fun bca_fast :: "byte \<Rightarrow> byte \<Rightarrow> bca \<Rightarrow> bool" where
  "bca_fast est coin (IV s) \<longleftrightarrow> False"
| "bca_fast est coin (EV e) \<longleftrightarrow> est = coin"

fun bca_view :: "byte set \<Rightarrow> byte set \<Rightarrow> bca \<Rightarrow> bca_view" where
  "bca_view P F (IV s) = bca_view_of P F s"
| "bca_view P F (EV e) = bca_view_of P F e"

fun bca_inv :: "net_cfg \<Rightarrow> byte set \<Rightarrow> byte set \<Rightarrow> bca \<Rightarrow> bool" where
  "bca_inv c P F (IV s) \<longleftrightarrow> F = {} \<and> iv_inv c P s"
| "bca_inv c P F (EV e) \<longleftrightarrow> ev_inv c P F e"

text \<open>One step of a goroutine of the agreement.\<close>

fun bca_goroutine :: "bca \<Rightarrow> bca \<Rightarrow> bool" where
  "bca_goroutine (IV s) b \<longleftrightarrow> (\<exists>s'. b = IV s' \<and> iv_run s s')"
| "bca_goroutine (EV e) b \<longleftrightarrow> (\<exists>e'. b = EV e' \<and> ev_run e e')"

lemma bca_goroutine_inv: "byz_ok c \<Longrightarrow> bca_inv c P F b \<Longrightarrow> bca_goroutine b b' \<Longrightarrow> bca_inv c P F b'"
proof (cases b)
  case (IV s)
  assume "byz_ok c" "bca_inv c P F b" "bca_goroutine b b'"
  then obtain s' where "b' = IV s'" "iv_run s s'" "F = {}" "iv_inv c P s" using IV by auto
  then show ?thesis by (simp add: iv_run_inv)
next
  case (EV e)
  assume "bca_inv c P F b" "bca_goroutine b b'"
  then obtain e' where "b' = EV e'" "ev_run e e'" "ev_inv c P F e" using EV by auto
  then show ?thesis by (simp add: ev_run_inv)
qed

lemma bca_goroutine_view:
  "bca_goroutine b b' \<Longrightarrow> view_le (bca_view P F b) (bca_view P F b') \<and> same_counts (bca_view P F b) (bca_view P F b')"
proof (cases b)
  case (IV s)
  assume "bca_goroutine b b'"
  then obtain s' where "b' = IV s'" "iv_run s s'" using IV by auto
  then show ?thesis by (simp add: IV iv_run_view)
next
  case (EV e)
  assume "bca_goroutine b b'"
  then obtain e' where "b' = EV e'" "ev_run e e'" using EV by auto
  then show ?thesis by (simp add: EV ev_run_view)
qed

lemma apfst_eq: "apfst g r = (y, o1) \<longleftrightarrow> (\<exists>x. r = (x, o1) \<and> y = g x)"
  by (cases r) auto

interpretation rb: bca_impl bca_fresh bca_propose bca_submitEcho bca_submitVote bca_submitBind bca_goroutine
  bca_fast bca_view bca_inv
proof (unfold_locales, goal_cases)
  case (1 c s)
  then show ?case by (cases s) (auto simp: iv_inv_init ev_inv_init)
next
  case (2 c s)
  then show ?case by (cases s) (auto simp: bca_view_of_def init_view_def newBCA_def newEVBCA_def)
next
  case (3 c P F s)
  then show ?case by (cases s) (auto simp: iv_inv_evidence ev_inv_evidence)
next
  case (4 P F s)
  show ?case by (cases s) (auto simp: bca_view_of_def)
next
  case (5 est coin s s' e)
  then show ?case by (cases s) (auto simp: apfst_eq dest: ivb.propose_rejected evb.propose_rejected)
next
  case (6 c P F s est coin s' r)
  then show ?case
  proof (cases s)
    case (IV b)
    then obtain b' where "s' = IV b'" "iv_propose est coin b = (b', r)" using 6 by (auto simp: apfst_eq)
    then show ?thesis using 6 IV iv_propose_inv [of c P b est coin b' r] by (cases r) auto
  next
    case (EV b)
    then obtain b' where "s' = EV b'" "ev_propose est coin b = (b', r)" using 6 by (auto simp: apfst_eq)
    then show ?thesis using 6 EV ev_propose_inv [of c P F b est coin b' r] by auto
  qed
next
  case (7 est coin s s' r P F F' P')
  then show ?case by (cases s) (auto simp: apfst_eq dest: ivb.propose_view evb.propose_view)
next
  case (8 c P F s x v s' r)
  then show ?case by (cases s) (auto simp: apfst_eq dest: iv_submitEcho_inv(1) evb.submitEcho_inv)
next
  case (9 c P F s x v s' r)
  then show ?case by (cases s) (auto simp: apfst_eq dest: iv_submitVote_inv(1) evb.submitVote_inv)
next
  case (10 c P F s x v s' r)
  then show ?case by (cases s) (auto simp: apfst_eq dest: iv_submitBind_inv(1) evb.submitBind_inv)
next
  case (11 v x s s' r P F)
  then show ?case by (cases s) (auto simp: apfst_eq dest: ivb.submitEcho_view evb.submitEcho_view)
next
  case (12 v x s s' r P F)
  then show ?case by (cases s) (auto simp: apfst_eq dest: ivb.submitVote_view evb.submitVote_view)
next
  case (13 v x s s' r P F)
  then show ?case by (cases s) (auto simp: apfst_eq dest: ivb.submitBind_view evb.submitBind_view)
next
  case (14 c P F s s')
  then show ?case by (rule bca_goroutine_inv)
next
  case (15 s s' P F)
  then show ?case by (rule bca_goroutine_view)
qed

section \<open>Reads from outside\<close>

text \<open>
  A change of an agreement that no other node can observe and that keeps its invariant: a buffer was
  read, or a value stored where nothing reads it.
\<close>

definition quiet :: "bca \<Rightarrow> bca \<Rightarrow> bool" where
  "quiet b b' \<longleftrightarrow> (\<forall>P F. bca_view P F b' = bca_view P F b) \<and> (\<forall>c P F. bca_inv c P F b \<longrightarrow> bca_inv c P F b')"

lemma quiet_refl [simp]: "quiet b b"
  by (simp add: quiet_def)

lemma iv_taken [simp]:
  "iv_inv c P (s\<lparr>bcastEchoChan := (bcastEchoChan s)\<lparr>ch_taken := t0\<rparr>\<rparr>) = iv_inv c P s"
  "iv_inv c P (s\<lparr>bcastVoteChan := (bcastVoteChan s)\<lparr>ch_taken := t1\<rparr>\<rparr>) = iv_inv c P s"
  "iv_inv c P (s\<lparr>bcastBindChan := (bcastBindChan s)\<lparr>ch_taken := t2\<rparr>\<rparr>) = iv_inv c P s"
  "iv_inv c P (s\<lparr>outputDecision := (outputDecision s)\<lparr>ch_taken := t3\<rparr>\<rparr>) = iv_inv c P s"
  "iv_inv c P (s\<lparr>outputExternalValidChan := (outputExternalValidChan s)\<lparr>ch_taken := t4\<rparr>\<rparr>) = iv_inv c P s"
  by (simp_all add: iv_inv_def inv_echo_def inv_first_def inv_vote_def inv_bind_def bind_ok_def inv_dec_def dec_ok_def
      cong: vote_pc.case_cong bind_pc.case_cong decide_pc.case_cong)

lemma ev_taken [simp]:
  "ev_inv c P F (e\<lparr>bcastEchoChan := (bcastEchoChan e)\<lparr>ch_taken := t0\<rparr>\<rparr>) = ev_inv c P F e"
  "ev_inv c P F (e\<lparr>bcastVoteChan := (bcastVoteChan e)\<lparr>ch_taken := t1\<rparr>\<rparr>) = ev_inv c P F e"
  "ev_inv c P F (e\<lparr>bcastBindChan := (bcastBindChan e)\<lparr>ch_taken := t2\<rparr>\<rparr>) = ev_inv c P F e"
  "ev_inv c P F (e\<lparr>outputDecision := (outputDecision e)\<lparr>ch_taken := t3\<rparr>\<rparr>) = ev_inv c P F e"
  "ev_inv c P F (e\<lparr>outputExternalValidChan := (outputExternalValidChan e)\<lparr>ch_taken := t4\<rparr>\<rparr>) = ev_inv c P F e"
  "ev_inv c P F (e\<lparr>inputExternalValidChan := ch\<rparr>) = ev_inv c P F e"
  by (simp_all add: ev_inv_def inv_echo_def inv_bind_def bind_ok_def inv_dec_def dec_ok_def ev_votes_def
      cong: ev_pc.case_cong bind_pc.case_cong decide_pc.case_cong)

lemma takes_quiet:
  "takeDecision b = Some (v, b') \<Longrightarrow> quiet b b'" "takeEcho b = Some (v, b') \<Longrightarrow> quiet b b'"
  "takeVote b = Some (v, b') \<Longrightarrow> quiet b b'" "takeBind b = Some (v, b') \<Longrightarrow> quiet b b'"
  "takeExternalValid b = Some (v, b') \<Longrightarrow> quiet b b'"
  by (cases b; auto simp: chan_recv_Some quiet_def bca_view_of_def)+

lemma takes_sent:
  "takeDecision b = Some (v, b') \<Longrightarrow> v \<in> v_decided (bca_view P F b)"
  "takeEcho b = Some (v, b') \<Longrightarrow> v \<in> v_sentEcho (bca_view P F b)"
  "takeVote b = Some (v, b') \<Longrightarrow> v \<in> v_sentVote (bca_view P F b)"
  "takeBind b = Some (v, b') \<Longrightarrow> v \<in> v_sentBind (bca_view P F b)"
  by (cases b; auto simp: chan_recv_Some bca_view_of_def)+

lemma externallyValid_quiet: "bca_submitExternallyValid v b = (b', r) \<Longrightarrow> quiet b b'"
  by (cases b)
    (auto simp: ev_submitExternallyValid_def chan_put_def chan_send_def quiet_def bca_view_of_def split: option.splits if_splits)

end
