(* ===== verification/MMR_Termination.thy ===== *)
theory MMR_Termination
  imports BCA_Internal
begin

text \<open>
  The termination gadget of a binary agreement instance
  (\<^verbatim>\<open>asynchronousBinaryAgreement/mmrTermination.go\<close>): it counts the decisions the peers announce, one per
  peer, delivers a value announced by \<open>f + 1\<close> of them and signals termination at \<open>n - f\<close>
  announcements.  Its invoker runs one command at a time.
\<close>

record mmrTermination =
  term_received :: "uuid set"
  results :: "byte \<Rightarrow> uint"
  term_n :: uint
  term_f :: uint
  term_deliverDecision :: "byte chan"
  notifyTermination :: "unit chan"

definition newMmrTermination :: "uint \<Rightarrow> uint \<Rightarrow> mmrTermination" where
  "newMmrTermination n f = \<lparr>term_received = {}, results = (\<lambda>_. 0), term_n = n, term_f = f,
     term_deliverDecision = make_chan 1, notifyTermination = make_chan 1\<rparr>"

datatype term_error = SenderAlreadySubmitted uuid | InvalidDecision byte

definition term_submitDecision :: "byte \<Rightarrow> uuid \<Rightarrow> mmrTermination \<Rightarrow> mmrTermination \<times> term_error outcome" where
  "term_submitDecision decision sender t =
     (if sender \<in> term_received t then (t, GoErr (SenderAlreadySubmitted sender))
      else if decision \<ge> bot then (t, GoErr (InvalidDecision decision))
      else
        let t1 = t\<lparr>term_received := insert sender (term_received t),
                   results := (results t)(decision := results t decision + 1)\<rparr>
        in and_then
             (if results t1 decision = term_f t1 + 1
              then chan_put term_deliverDecision term_deliverDecision_update decision t1 else (t1, GoNil))
             (\<lambda>t2. if results t2 0 + results t2 1 = term_n t2 - term_f t2
                   then chan_put notifyTermination notifyTermination_update () t2 else (t2, GoNil)))"

section \<open>The tally\<close>

text \<open>\<open>D\<close> is the history of the announcements counted: who announced what.\<close>

definition announced :: "(uuid \<times> byte) set \<Rightarrow> byte \<Rightarrow> uuid set" where
  "announced D v = {x. (x, v) \<in> D}"

definition term_inv :: "net_cfg \<Rightarrow> (uuid \<times> byte) set \<Rightarrow> mmrTermination \<Rightarrow> bool" where
  "term_inv c D t \<longleftrightarrow> term_n t = cfg_n c \<and> term_f t = cfg_f c
     \<and> term_received t = fst ` D \<and> inj_on fst D \<and> fst ` D \<subseteq> procs c \<and> snd ` D \<subseteq> {0, 1}
     \<and> (\<forall>v. unat (results t v) = card (announced D v))
     \<and> (\<forall>v \<in> set (ch_sent (term_deliverDecision t)). isInputValid v \<and> weak_quorum c (announced D v))"

lemma term_inv_init: "term_inv c {} (newMmrTermination (cfg_n c) (cfg_f c))"
  by (simp add: term_inv_def newMmrTermination_def announced_def)

lemma announced_insert: "announced (insert (x, v) D) u = (if u = v then insert x (announced D v) else announced D u)"
  by (auto simp: announced_def)

lemma announced_sub: "fst ` D \<subseteq> procs c \<Longrightarrow> announced D v \<subseteq> procs c"
  by (force simp: announced_def)

lemma below_bot: "\<not> v \<ge> bot \<Longrightarrow> isInputValid v"
proof -
  assume "\<not> v \<ge> bot"
  then have "v \<le> bot" "v \<noteq> bot" by auto
  then show ?thesis using bot_cases [of v] by (auto simp: isInputValid_def)
qed

text \<open>The counting step on its own, before the thresholds are compared.\<close>

lemma tally_decision:
  assumes ok: "byz_ok c" and inv: "term_inv c D t" and new: "x \<notin> term_received t" and x: "x \<in> procs c" and v: "isInputValid v"
  shows "term_inv c (insert (x, v) D) (t\<lparr>term_received := insert x (term_received t),
      results := (results t)(v := results t v + 1)\<rparr>)"
    and "unat (results t v + 1) = card (announced (insert (x, v) D) v)"
proof -
  have D: "x \<notin> fst ` D" "fst ` D \<subseteq> procs c" using inv new by (simp_all add: term_inv_def)
  have xa: "x \<notin> announced D v" using D(1) by (force simp: announced_def)
  have sub: "insert x (announced D v) \<subseteq> procs c" using x announced_sub [OF D(2)] by simp
  have "card (insert x (announced D v)) \<le> card (procs c)" by (rule card_mono) (use sub in auto)
  then have "card (announced D v) + 1 \<le> unat (cfg_n c)" using ok xa by (simp add: byz_ok_def)
  moreover have "unat (cfg_n c) < 2 ^ 64" by (rule order.strict_trans2 [OF unsigned_less]) simp
  moreover have cnt: "unat (results t u) = card (announced D u)" for u using inv by (simp add: term_inv_def)
  ultimately have inc: "unat (results t v + 1) = card (announced D v) + 1"
    by (simp add: unat_inc_uint)
  then show c: "unat (results t v + 1) = card (announced (insert (x, v) D) v)" using xa by (simp add: announced_insert)
  have w: "weak_quorum c (announced D u) \<Longrightarrow> weak_quorum c (announced (insert (x, v) D) u)" for u
    using byzq.weak_mono [OF ok, of "announced D v" "insert x (announced D v)"] sub by (auto simp: announced_insert)
  show "term_inv c (insert (x, v) D) (t\<lparr>term_received := insert x (term_received t),
      results := (results t)(v := results t v + 1)\<rparr>)"
    using inv D x v w c cnt unfolding term_inv_def
    by (auto simp: announced_insert isInputValid_def)
qed

lemma term_put_decision:
  assumes "term_inv c D t" and "isInputValid v" and "weak_quorum c (announced D v)"
  shows "term_inv c D (fst (chan_put term_deliverDecision term_deliverDecision_update v t))"
  using assms by (auto simp: fst_chan_put term_inv_def)

lemma term_put_notify: "term_inv c D t \<Longrightarrow> term_inv c D (fst (chan_put notifyTermination notifyTermination_update u t))"
  by (simp add: fst_chan_put term_inv_def)

lemma term_submitDecision_inv:
  assumes ok: "byz_ok c" and inv: "term_inv c D t" and x: "x \<in> procs c" and op: "term_submitDecision v x t = (t', r)"
  shows "term_inv c (if x \<in> term_received t \<or> v \<ge> bot then D else insert (x, v) D) t'"
    and "set (ch_sent (term_deliverDecision t)) \<subseteq> set (ch_sent (term_deliverDecision t'))"
proof -
  have "term_inv c (if x \<in> term_received t \<or> v \<ge> bot then D else insert (x, v) D) t'
    \<and> set (ch_sent (term_deliverDecision t)) \<subseteq> set (ch_sent (term_deliverDecision t'))"
  proof (cases "x \<in> term_received t \<or> v \<ge> bot")
    case True
    then show ?thesis using op inv by (auto simp: term_submitDecision_def split: if_splits)
  next
    case False
    let ?t1 = "t\<lparr>term_received := insert x (term_received t), results := (results t)(v := results t v + 1)\<rparr>"
    have v: "isInputValid v" using False below_bot by blast
    have new: "x \<notin> term_received t" using False by simp
    note t1 = tally_decision [OF ok inv new x v]
    have hit: "weak_quorum c (announced (insert (x, v) D) v)" if "results t v + 1 = cfg_f c + 1"
      using t1(2) that by (simp add: weak_quorum_def)
    define m :: "mmrTermination \<times> term_error outcome" where
      "m = (if results t v + 1 = term_f t + 1
        then chan_put term_deliverDecision term_deliverDecision_update v ?t1 else (?t1, GoNil))"
    have f: "term_f t = cfg_f c" using inv by (simp add: term_inv_def)
    have m: "term_inv c (insert (x, v) D) (fst m)"
      using t1(1) hit v by (auto simp: m_def f intro: term_put_decision)
    have grow: "set (ch_sent (term_deliverDecision t)) \<subseteq> set (ch_sent (term_deliverDecision (fst m)))"
      by (auto simp: m_def fst_chan_put)
    have "t' = fst (and_then m (\<lambda>t2. if results t2 0 + results t2 1 = term_n t2 - term_f t2
        then chan_put notifyTermination notifyTermination_update () t2 else (t2, GoNil)))"
      using arg_cong [OF op, of fst] False by (simp add: term_submitDecision_def Let_def m_def)
    then have "t' = fst m \<or> t' = fst (chan_put notifyTermination notifyTermination_update () (fst m) :: mmrTermination \<times> term_error outcome)"
      by (simp add: fst_and_then split: if_splits)
    then show ?thesis using m grow False term_put_notify [OF m] by (auto simp: fst_chan_put)
  qed
  then show "term_inv c (if x \<in> term_received t \<or> v \<ge> bot then D else insert (x, v) D) t'"
    and "set (ch_sent (term_deliverDecision t)) \<subseteq> set (ch_sent (term_deliverDecision t'))" by auto
qed

end
