(* ===== verification/MMR.thy ===== *)
theory MMR
  imports MMR_Round MMR_Termination
begin

text \<open>
  The multi-round binary agreement of a node: \<^verbatim>\<open>asynchronousBinaryAgreement/mmr.go\<close> and the command
  queue around it (\<^verbatim>\<open>concurrentMMR.go\<close>, whose waiting calls are in \<open>MMR_Queue\<close>).  The queue runs one operation at a time, so each operation is one
  step; the goroutines \<^verbatim>\<open>listenRequests\<close> (one per round), \<^verbatim>\<open>reachDecision\<close> and
  \<^verbatim>\<open>listenExternallyValid\<close> take their own steps.  What they hand to a delivery channel through a fresh
  goroutine is appended to a list.  The round number is a \<^verbatim>\<open>uint16\<close>: \<open>r + 1\<close> wraps.
\<close>

section \<open>State\<close>

datatype reach_pc = RWait | ROut byte | RDone

record mmr =
  mmr_n :: uint
  mmr_f :: uint
  deliverEcho :: "(byte \<times> uint16) list"
  deliverVote :: "(byte \<times> uint16) list"
  deliverBind :: "(byte \<times> uint16) list"
  deliverExternallyValid :: "(byte \<times> uint16) list"
  ext_taken :: nat
  reachedDecision :: "byte chan"
  deliverDecision :: "byte chan"
  hasDecided :: bool
  coinReq :: "uint16 list"
  rounds :: "uint16 \<rightharpoonup> mmrRound"
  listening :: "uint16 set"
  termGadget :: mmrTermination
  reach_pc :: reach_pc

definition firstRound :: uint16 where "firstRound = 0"

definition initFirstRound :: "mmr \<Rightarrow> mmr" where
  "initFirstRound m = m\<lparr>rounds := (rounds m)(firstRound \<mapsto> newFirstRound (mmr_n m) (mmr_f m)),
     listening := insert firstRound (listening m)\<rparr>"

definition newMMR :: "uint \<Rightarrow> uint \<Rightarrow> mmr" where
  "newMMR n f = initFirstRound \<lparr>mmr_n = n, mmr_f = f, deliverEcho = [], deliverVote = [], deliverBind = [],
     deliverExternallyValid = [], ext_taken = 0, reachedDecision = make_chan 1, deliverDecision = make_chan 1,
     hasDecided = False, coinReq = [], rounds = Map.empty, listening = {},
     termGadget = newMmrTermination n f, reach_pc = RWait\<rparr>"

datatype mmr_error =
    UnableToProposeTo uint16 bca_error
  | UnableToSubmitEcho uint16 bca_error
  | UnableToSubmitVote uint16 bca_error
  | UnableToSubmitBind uint16 bca_error
  | UnableToSubmitCoin uint16 bca_error
  | UnableToProposeNext uint16 mmr_error
  | UnableToSubmitDecision term_error

section \<open>Operations\<close>

definition getRound :: "uint16 \<Rightarrow> mmr \<Rightarrow> mmr \<times> mmrRound" where
  "getRound rNum m =
     (case rounds m rNum of
        Some r \<Rightarrow> (m, r)
      | None \<Rightarrow>
          let r = newRound (mmr_n m) (mmr_f m)
          in (m\<lparr>rounds := (rounds m)(rNum \<mapsto> r), listening := insert rNum (listening m)\<rparr>, r))"

text \<open>An operation of the agreement of round \<open>r\<close>, which is created on its first use.\<close>

definition with_round ::
  "uint16 \<Rightarrow> (bca \<Rightarrow> bca \<times> bca_error outcome) \<Rightarrow> mmr \<Rightarrow> mmr \<times> bca_error outcome"
where
  "with_round rNum oper m =
     (let (m1, r) = getRound rNum m; (b, res) = oper (round_bca r)
      in (m1\<lparr>rounds := (rounds m1)(rNum \<mapsto> r\<lparr>round_bca := b\<rparr>)\<rparr>, res))"

definition mmr_propose :: "byte \<Rightarrow> byte \<Rightarrow> uint16 \<Rightarrow> mmr \<Rightarrow> mmr \<times> mmr_error outcome" where
  "mmr_propose est prevCoin r m = wrap_err (UnableToProposeTo r) (with_round r (bca_propose est prevCoin) m)"

definition mmr_submitEcho :: "byte \<Rightarrow> uuid \<Rightarrow> uint16 \<Rightarrow> mmr \<Rightarrow> mmr \<times> mmr_error outcome" where
  "mmr_submitEcho echo sender r m = wrap_err (UnableToSubmitEcho r) (with_round r (bca_submitEcho echo sender) m)"

definition mmr_submitVote :: "byte \<Rightarrow> uuid \<Rightarrow> uint16 \<Rightarrow> mmr \<Rightarrow> mmr \<times> mmr_error outcome" where
  "mmr_submitVote vote sender r m = wrap_err (UnableToSubmitVote r) (with_round r (bca_submitVote vote sender) m)"

definition mmr_submitBind :: "byte \<Rightarrow> uuid \<Rightarrow> uint16 \<Rightarrow> mmr \<Rightarrow> mmr \<times> mmr_error outcome" where
  "mmr_submitBind bind sender r m = wrap_err (UnableToSubmitBind r) (with_round r (bca_submitBind bind sender) m)"

definition mmr_submitExternallyValid :: "byte \<Rightarrow> uint16 \<Rightarrow> mmr \<Rightarrow> mmr \<times> bca_error outcome" where
  "mmr_submitExternallyValid val r m = with_round (r + 1) (bca_submitExternallyValid val) m"

definition mmr_submitCoin :: "byte \<Rightarrow> uint16 \<Rightarrow> mmr \<Rightarrow> mmr \<times> mmr_error outcome" where
  "mmr_submitCoin coin r m =
     (let (m1, rd) = getRound r m; ((rd1, res), oc) = round_submitCoin coin rd;
          m2 = m1\<lparr>rounds := (rounds m1)(r \<mapsto> rd1)\<rparr>
      in case (oc, res) of
           (GoErr e, _) \<Rightarrow> (m2, GoErr (UnableToSubmitCoin r e))
         | (GoNil, Some t) \<Rightarrow>
             if decided t \<and> \<not> hasDecided m2
             then chan_put reachedDecision reachedDecision_update (estimate t) (m2\<lparr>hasDecided := True\<rparr>)
             else wrap_err (UnableToProposeNext (r + 1)) (mmr_propose (estimate t) coin (r + 1) m2)
         | _ \<Rightarrow> (m2, GoBlocked))"

definition mmr_submitDecision :: "byte \<Rightarrow> uuid \<Rightarrow> mmr \<Rightarrow> mmr \<times> mmr_error outcome" where
  "mmr_submitDecision decision sender m =
     (let (t, res) = term_submitDecision decision sender (termGadget m)
      in wrap_err UnableToSubmitDecision (m\<lparr>termGadget := t\<rparr>, res))"

definition mmr_close :: "mmr \<Rightarrow> mmr" where
  "mmr_close m = m\<lparr>listening := {}\<rparr>"

section \<open>Goroutines\<close>

datatype request = ReqEcho | ReqVote | ReqBind | ReqCoin | ReqExt

text \<open>One turn of the loop of \<^verbatim>\<open>listenRequests\<close> for round \<open>rnum\<close>: the ready case \<open>q\<close> is taken.\<close>

definition listenRequests :: "request \<Rightarrow> uint16 \<Rightarrow> mmr \<Rightarrow> mmr option" where
  "listenRequests q rnum m =
     (if rnum \<notin> listening m then None
      else case rounds m rnum of
        None \<Rightarrow> None
      | Some r \<Rightarrow>
          (case q of
             ReqEcho \<Rightarrow> map_option (\<lambda>(v, b). m\<lparr>rounds := (rounds m)(rnum \<mapsto> r\<lparr>round_bca := b\<rparr>),
               deliverEcho := deliverEcho m @ [(v, rnum)]\<rparr>) (takeEcho (round_bca r))
           | ReqVote \<Rightarrow> map_option (\<lambda>(v, b). m\<lparr>rounds := (rounds m)(rnum \<mapsto> r\<lparr>round_bca := b\<rparr>),
               deliverVote := deliverVote m @ [(v, rnum)]\<rparr>) (takeVote (round_bca r))
           | ReqBind \<Rightarrow> map_option (\<lambda>(v, b). m\<lparr>rounds := (rounds m)(rnum \<mapsto> r\<lparr>round_bca := b\<rparr>),
               deliverBind := deliverBind m @ [(v, rnum)]\<rparr>) (takeBind (round_bca r))
           | ReqCoin \<Rightarrow> map_option (\<lambda>(_, ch). m\<lparr>rounds := (rounds m)(rnum \<mapsto> r\<lparr>coinReqChan := ch\<rparr>),
               coinReq := coinReq m @ [rnum]\<rparr>) (chan_recv (coinReqChan r))
           | ReqExt \<Rightarrow> map_option (\<lambda>(v, b). m\<lparr>rounds := (rounds m)(rnum \<mapsto> r\<lparr>round_bca := b\<rparr>),
               deliverExternallyValid := deliverExternallyValid m @ [(v, rnum)]\<rparr>) (takeExternalValid (round_bca r))))"

definition reachDecision :: "bool \<Rightarrow> mmr \<Rightarrow> mmr option" where
  "reachDecision fromRound m =
     (case reach_pc m of
        RWait \<Rightarrow>
          if fromRound then recv_then reachedDecision reachedDecision_update (\<lambda>d. reach_pc_update (\<lambda>_. ROut d)) m
          else (case chan_recv (term_deliverDecision (termGadget m)) of
                  None \<Rightarrow> None
                | Some (d, ch) \<Rightarrow>
                    Some (m\<lparr>termGadget := (termGadget m)\<lparr>term_deliverDecision := ch\<rparr>, reach_pc := ROut d\<rparr>))
      | ROut d \<Rightarrow> send_then deliverDecision deliverDecision_update d (reach_pc_update (\<lambda>_. RDone)) m
      | RDone \<Rightarrow> None)"

text \<open>
  \<^verbatim>\<open>listenExternallyValid\<close> takes the values approved in round \<open>r\<close>; a goroutine of its own then submits each
  of them to round \<open>r + 1\<close>, in any order.
\<close>

definition listenExternallyValid :: "mmr \<Rightarrow> ((byte \<times> uint16) \<times> mmr) option" where
  "listenExternallyValid m =
     (if ext_taken m < length (deliverExternallyValid m)
      then Some (deliverExternallyValid m ! ext_taken m, m\<lparr>ext_taken := Suc (ext_taken m)\<rparr>)
      else None)"

text \<open>The goroutine \<^verbatim>\<open>execRound\<close> of round \<open>rnum\<close>.\<close>

definition mmr_execRound :: "uint16 \<Rightarrow> mmr \<Rightarrow> mmr option" where
  "mmr_execRound rnum m =
     (case rounds m rnum of
        None \<Rightarrow> None
      | Some r \<Rightarrow> map_option (\<lambda>r'. m\<lparr>rounds := (rounds m)(rnum \<mapsto> r')\<rparr>) (execRound r))"

text \<open>The owner of the node reads its decision from outside.\<close>

definition mmr_takeDecision :: "mmr \<Rightarrow> (byte \<times> mmr) option" where
  "mmr_takeDecision m =
     (case chan_recv (deliverDecision m) of None \<Rightarrow> None | Some (d, ch) \<Rightarrow> Some (d, m\<lparr>deliverDecision := ch\<rparr>))"

text \<open>\<^verbatim>\<open>concurrentMMR.propose\<close>: the initial estimate goes to the first round with no previous coin.\<close>

definition concurrent_propose :: "byte \<Rightarrow> mmr \<Rightarrow> mmr \<times> mmr_error outcome" where
  "concurrent_propose est m = mmr_propose est bot firstRound m"

end
