(* ===== verification/MMR_Node.thy ===== *)
theory MMR_Node
  imports MMR
begin

text \<open>
  What one node of the binary agreement keeps invariant.  \<open>P r\<close> and \<open>F r\<close> are the values it proposed and
  fast-forwarded in round \<open>r\<close>, \<open>D\<close> the decisions it has counted; \<open>coin r\<close> is the common coin.  A round
  that does not exist yet is the round \<^verbatim>\<open>getRound\<close> would create, so every round has a state.
\<close>

section \<open>Rounds as a total function\<close>

definition round_at :: "mmr \<Rightarrow> uint16 \<Rightarrow> mmrRound" where
  "round_at m r = (case rounds m r of Some rd \<Rightarrow> rd | None \<Rightarrow> newRound (mmr_n m) (mmr_f m))"

lemma getRound_at: "snd (getRound r m) = round_at m r" "rounds (fst (getRound r m)) = (rounds m)(r \<mapsto> round_at m r)"
  by (auto simp: getRound_def round_at_def Let_def split: option.splits)

text \<open>The fields of a node other than its rounds and the set of listeners.\<close>

definition same_rest :: "mmr \<Rightarrow> mmr \<Rightarrow> bool" where
  "same_rest m m' \<longleftrightarrow> mmr_n m' = mmr_n m \<and> mmr_f m' = mmr_f m \<and> deliverEcho m' = deliverEcho m
     \<and> deliverVote m' = deliverVote m \<and> deliverBind m' = deliverBind m \<and> reachedDecision m' = reachedDecision m
     \<and> deliverDecision m' = deliverDecision m \<and> hasDecided m' = hasDecided m
     \<and> termGadget m' = termGadget m \<and> reach_pc m' = reach_pc m"

lemma same_rest_refl [simp]: "same_rest m m"
  by (simp add: same_rest_def)

lemma getRound_rest: "same_rest m (fst (getRound r m))"
  by (auto simp: getRound_def same_rest_def Let_def split: option.splits)

lemma round_at_upd:
  assumes "same_rest m m'" and "rounds m' = (rounds m)(r \<mapsto> rd)"
  shows "round_at m' = (round_at m)(r := rd)"
  using assms by (intro ext) (simp add: round_at_def same_rest_def split: option.split)

lemma with_round_at:
  assumes "with_round r oper m = (m', res)"
  shows "oper (round_bca (round_at m r)) = (round_bca (round_at m' r), res)"
    and "round_at m' = (round_at m)(r := (round_at m r)\<lparr>round_bca := round_bca (round_at m' r)\<rparr>)"
    and "same_rest m m'"
proof -
  obtain m1 rd where g: "getRound r m = (m1, rd)" by fastforce
  obtain b res' where o: "oper (round_bca rd) = (b, res')" by fastforce
  have rd: "rd = round_at m r" and m1: "rounds m1 = (rounds m)(r \<mapsto> rd)" "same_rest m m1"
    using getRound_at [of r m] getRound_rest [of m r] g by simp_all
  have m': "m' = m1\<lparr>rounds := (rounds m1)(r \<mapsto> rd\<lparr>round_bca := b\<rparr>)\<rparr>" "res = res'"
    using assms g o by (simp_all add: with_round_def)
  show s: "same_rest m m'" using m1(2) m' by (simp add: same_rest_def)
  have at: "round_at m' = (round_at m)(r := rd\<lparr>round_bca := b\<rparr>)"
    by (rule round_at_upd [OF s]) (simp add: m' m1(1))
  then show "oper (round_bca (round_at m r)) = (round_bca (round_at m' r), res)"
    and "round_at m' = (round_at m)(r := (round_at m r)\<lparr>round_bca := round_bca (round_at m' r)\<rparr>)"
    using o rd m'(2) by simp_all
qed

section \<open>One round\<close>

definition bca_decided :: "bca \<Rightarrow> byte set" where
  "bca_decided b = v_decided (bca_view {} {} b)"

lemma v_decided_view [simp]: "v_decided (bca_view P F b) = bca_decided b"
  by (cases b) (simp_all add: bca_decided_def bca_view_of_def)

text \<open>
  The goroutine \<^verbatim>\<open>execRound\<close> holds a decision of the round's agreement and the round's coin \<open>k\<close>, and what it
  hands over is the transition they give.
\<close>

definition exec_ok :: "byte \<Rightarrow> mmrRound \<Rightarrow> bool" where
  "exec_ok k r \<longleftrightarrow>
     (case exec_pc r of
        XReq d \<Rightarrow> d \<in> bca_decided (round_bca r)
      | XCoin d \<Rightarrow> d \<in> bca_decided (round_bca r)
      | XOut d u \<Rightarrow> d \<in> bca_decided (round_bca r) \<and> u = k
      | _ \<Rightarrow> True)
     \<and> (\<forall>u \<in> set (ch_sent (coinReceiveChan r)). u = k)
     \<and> (\<forall>t \<in> set (ch_sent (internalTransition r)). \<exists>d \<in> bca_decided (round_bca r). t = transition d k)"

lemma exec_ok_bca:
  "exec_ok k r \<Longrightarrow> bca_decided (round_bca r) \<subseteq> bca_decided b \<Longrightarrow> exec_ok k (r\<lparr>round_bca := b\<rparr>)"
  by (cases "exec_pc r") (simp_all add: exec_ok_def, blast+)

lemma quiet_decided: "quiet b b' \<Longrightarrow> bca_decided b' = bca_decided b"
  unfolding quiet_def bca_decided_def by simp

lemma quiet_trans: "quiet a b \<Longrightarrow> quiet b d \<Longrightarrow> quiet a d"
  unfolding quiet_def by metis

lemma execRound_ok:
  assumes ok: "exec_ok k r" and step: "execRound r = Some r'"
  shows "exec_ok k r' \<and> quiet (round_bca r) (round_bca r')"
proof (cases "exec_pc r")
  case XDec
  then obtain d b where t: "takeDecision (round_bca r) = Some (d, b)" and r': "r' = r\<lparr>round_bca := b, exec_pc := XReq d\<rparr>"
    using step by (auto simp: execRound_def split: option.splits)
  have q: "quiet (round_bca r) b" using takes_quiet(1) [OF t] .
  moreover have "d \<in> bca_decided (round_bca r)" using takes_sent(1) [OF t, of "{}" "{}"] by simp
  ultimately show ?thesis using ok r' quiet_decided [OF q] by (simp add: exec_ok_def)
next
  case (XReq d)
  with step have "send_then coinReqChan coinReqChan_update () (exec_pc_update (\<lambda>_. XCoin d)) r = Some r'"
    by (simp add: execRound_def)
  from send_thenE [OF this] show ?thesis using ok XReq by (simp add: exec_ok_def)
next
  case (XCoin d)
  with step have "recv_then coinReceiveChan coinReceiveChan_update (\<lambda>coin. exec_pc_update (\<lambda>_. XOut d coin)) r = Some r'"
    by (simp add: execRound_def)
  from recv_thenD [OF this] show ?thesis using ok XCoin by (simp add: exec_ok_def)
next
  case (XOut d u)
  with step have "send_then internalTransition internalTransition_update (transition d u) (exec_pc_update (\<lambda>_. XDone)) r = Some r'"
    by (simp add: execRound_def)
  from send_thenE [OF this] show ?thesis using ok XOut by (auto simp: exec_ok_def)
next
  case XDone
  with step show ?thesis by (simp add: execRound_def)
qed

lemma execRoundN_ok:
  "exec_ok k r \<Longrightarrow> exec_ok k (execRoundN j r) \<and> quiet (round_bca r) (round_bca (execRoundN j r))"
proof (induction j arbitrary: r)
  case (Suc j)
  show ?case
  proof (cases "execRound r")
    case (Some r')
    from execRound_ok [OF Suc.prems Some] Suc.IH [of r'] Some show ?thesis by (auto intro: quiet_trans)
  qed (use Suc.prems in auto)
qed simp

lemma round_submitCoin_ok:
  assumes ok: "exec_ok k r" and op: "round_submitCoin k r = ((r', t), oc)"
  shows "exec_ok k r' \<and> quiet (round_bca r) (round_bca r')
    \<and> (\<forall>x. t = Some x \<longrightarrow> (\<exists>d \<in> bca_decided (round_bca r'). x = transition d k))"
proof (cases "isInputValid k \<and> chan_send k (coinReceiveChan r) \<noteq> None")
  case False
  then show ?thesis using op ok by (auto simp: round_submitCoin_def split: if_splits option.splits)
next
  case True
  then obtain ch where ch: "chan_send k (coinReceiveChan r) = Some ch" by blast
  let ?r0 = "r\<lparr>coinReceiveChan := ch\<rparr>"
  have "exec_ok k ?r0" using ok ch by (auto simp: exec_ok_def chan_send_def split: if_splits cong: exec_pc.case_cong)
  from execRoundN_ok [OF this, of 4] have n: "exec_ok k (execRoundN 4 ?r0)" "quiet (round_bca r) (round_bca (execRoundN 4 ?r0))"
    by simp_all
  show ?thesis
  proof (cases "chan_recv (internalTransition (execRoundN 4 ?r0))")
    case None
    then show ?thesis using op True ch n by (simp add: round_submitCoin_def Let_def)
  next
    case (Some a)
    then obtain x ch2 where a: "a = (x, ch2)" by fastforce
    have r': "r' = (execRoundN 4 ?r0)\<lparr>internalTransition := ch2\<rparr>" "t = Some x"
      using op True ch Some a by (simp_all add: round_submitCoin_def Let_def)
    have "x \<in> set (ch_sent (internalTransition (execRoundN 4 ?r0)))" "ch_sent ch2 = ch_sent (internalTransition (execRoundN 4 ?r0))"
      using Some a by (auto simp: chan_recv_Some)
    then show ?thesis using n r' by (simp add: exec_ok_def cong: exec_pc.case_cong)
  qed
qed

section \<open>A node\<close>

definition node_view :: "mmr \<Rightarrow> (uint16 \<Rightarrow> byte set) \<Rightarrow> (uint16 \<Rightarrow> byte set) \<Rightarrow> uint16 \<Rightarrow> bca_view" where
  "node_view m P F r = bca_view (P r) (F r) (round_bca (round_at m r))"

fun round_kind :: "uint16 \<Rightarrow> bca \<Rightarrow> bool" where
  "round_kind r (IV s) \<longleftrightarrow> r = 0"
| "round_kind r (EV e) \<longleftrightarrow> r \<noteq> 0"

text \<open>What a node may output: the decision of a round, or a value the termination gadget delivered.\<close>

definition outputs :: "mmr \<Rightarrow> byte set" where
  "outputs m = set (ch_sent (reachedDecision m)) \<union> set (ch_sent (term_deliverDecision (termGadget m)))"

text \<open>The estimates that the decisions of round \<open>r\<close> and its coin lead to.\<close>

definition next_ests :: "(uint16 \<Rightarrow> byte) \<Rightarrow> mmr \<Rightarrow> uint16 \<Rightarrow> byte set" where
  "next_ests coin m r = (\<lambda>d. estimate (transition d (coin r))) ` bca_decided (round_bca (round_at m r))"

definition node_inv ::
  "net_cfg \<Rightarrow> (uint16 \<Rightarrow> byte) \<Rightarrow> byte set \<Rightarrow> mmr \<Rightarrow> (uint16 \<Rightarrow> byte set) \<Rightarrow> (uint16 \<Rightarrow> byte set)
    \<Rightarrow> (uuid \<times> byte) set \<Rightarrow> bool"
where
  "node_inv c coin I m P F D \<longleftrightarrow>
     mmr_n m = cfg_n c \<and> mmr_f m = cfg_f c
     \<and> (\<forall>r. bca_inv c (P r) (F r) (round_bca (round_at m r)) \<and> exec_ok (coin r) (round_at m r)
          \<and> round_kind r (round_bca (round_at m r)))
     \<and> P 0 \<subseteq> I \<and> (\<forall>r. r \<noteq> 0 \<longrightarrow> P r \<subseteq> next_ests coin m (r - 1))
     \<and> (\<forall>(v, r) \<in> set (deliverEcho m). v \<in> v_sentEcho (node_view m P F r))
     \<and> (\<forall>(v, r) \<in> set (deliverVote m). v \<in> v_sentVote (node_view m P F r))
     \<and> (\<forall>(v, r) \<in> set (deliverBind m). v \<in> v_sentBind (node_view m P F r))
     \<and> (\<forall>v \<in> set (ch_sent (reachedDecision m)). \<exists>r. v \<in> bca_decided (round_bca (round_at m r)) \<and> v \<noteq> bot \<and> v = coin r)
     \<and> term_inv c D (termGadget m)
     \<and> (\<forall>d. reach_pc m = ROut d \<longrightarrow> d \<in> outputs m) \<and> set (ch_sent (deliverDecision m)) \<subseteq> outputs m
     \<and> (\<forall>r. \<forall>v \<in> P r. isInputValid v)"

lemma sent_view_indep:
  "v_sentEcho (bca_view P F b) = v_sentEcho (bca_view {} {} b)" "v_sentVote (bca_view P F b) = v_sentVote (bca_view {} {} b)"
  "v_sentBind (bca_view P F b) = v_sentBind (bca_view {} {} b)"
  by (cases b; simp add: bca_view_of_def)+

lemma node_invD:
  assumes "node_inv c coin I m P F D"
  shows "mmr_n m = cfg_n c" "mmr_f m = cfg_f c" "bca_inv c (P r) (F r) (round_bca (round_at m r))"
    "exec_ok (coin r) (round_at m r)" "round_kind r (round_bca (round_at m r))" "P 0 \<subseteq> I"
    "r \<noteq> 0 \<Longrightarrow> P r \<subseteq> next_ests coin m (r - 1)"
    "(v, r) \<in> set (deliverEcho m) \<Longrightarrow> v \<in> v_sentEcho (node_view m P F r)"
    "(v, r) \<in> set (deliverVote m) \<Longrightarrow> v \<in> v_sentVote (node_view m P F r)"
    "(v, r) \<in> set (deliverBind m) \<Longrightarrow> v \<in> v_sentBind (node_view m P F r)"
    "v \<in> set (ch_sent (reachedDecision m)) \<Longrightarrow> \<exists>r. v \<in> bca_decided (round_bca (round_at m r)) \<and> v \<noteq> bot \<and> v = coin r"
    "term_inv c D (termGadget m)" "reach_pc m = ROut d \<Longrightarrow> d \<in> outputs m" "set (ch_sent (deliverDecision m)) \<subseteq> outputs m"
    "v \<in> P r \<Longrightarrow> isInputValid v"
  using assms unfolding node_inv_def by auto

text \<open>One round changes: its agreement moves on, with \<open>P1\<close> proposed and \<open>F1\<close> fast-forwarded in it.\<close>

lemma node_inv_round:
  assumes inv: "node_inv c coin I m P F D" and rest: "same_rest m m'" and at: "round_at m' = (round_at m)(r := rd)"
    and b: "bca_inv c P1 F1 (round_bca rd)" "exec_ok (coin r) rd" "round_kind r (round_bca rd)"
    and le: "view_le (bca_view (P r) (F r) (round_bca (round_at m r))) (bca_view P1 F1 (round_bca rd))"
    and P1: "r = 0 \<Longrightarrow> P1 \<subseteq> I'" "I \<subseteq> I'" "r \<noteq> 0 \<Longrightarrow> P1 \<subseteq> next_ests coin m (r - 1)"
      "\<And>v. v \<in> P1 \<Longrightarrow> isInputValid v"
  shows "node_inv c coin I' m' (P(r := P1)) (F(r := F1)) D"
proof -
  have dec: "bca_decided (round_bca (round_at m q)) \<subseteq> bca_decided (round_bca (round_at m' q))" for q
    using le by (auto simp: at view_le_def)
  have ests: "next_ests coin m q \<subseteq> next_ests coin m' q" for q using dec [of q] by (auto simp: next_ests_def)
  have "P1 \<subseteq> next_ests coin m' (r - 1)" if "r \<noteq> 0" using P1(3) [OF that] ests by blast
  moreover have "P q \<subseteq> next_ests coin m' (q - 1)" if "q \<noteq> 0" for q using node_invD(7) [OF inv that] ests by blast
  ultimately have props: "\<forall>q. q \<noteq> 0 \<longrightarrow> (P(r := P1)) q \<subseteq> next_ests coin m' (q - 1)" by simp
  have views: "v_sentEcho (node_view m P F q) \<subseteq> v_sentEcho (node_view m' (P(r := P1)) (F(r := F1)) q)"
    "v_sentVote (node_view m P F q) \<subseteq> v_sentVote (node_view m' (P(r := P1)) (F(r := F1)) q)"
    "v_sentBind (node_view m P F q) \<subseteq> v_sentBind (node_view m' (P(r := P1)) (F(r := F1)) q)" for q
    using le by (auto simp: node_view_def at view_le_def)
  have rds: "\<forall>v \<in> set (ch_sent (reachedDecision m)). \<exists>q. v \<in> bca_decided (round_bca (round_at m' q)) \<and> v \<noteq> bot \<and> v = coin q"
    using node_invD(11) [OF inv] dec by blast
  have sent: "\<forall>(v, q) \<in> set (deliverEcho m). v \<in> v_sentEcho (node_view m' (P(r := P1)) (F(r := F1)) q)"
    "\<forall>(v, q) \<in> set (deliverVote m). v \<in> v_sentVote (node_view m' (P(r := P1)) (F(r := F1)) q)"
    "\<forall>(v, q) \<in> set (deliverBind m). v \<in> v_sentBind (node_view m' (P(r := P1)) (F(r := F1)) q)"
    using node_invD(8-10) [OF inv] views by blast+
  have rds2: "\<forall>q. bca_inv c ((P(r := P1)) q) ((F(r := F1)) q) (round_bca (round_at m' q)) \<and> exec_ok (coin q) (round_at m' q)
      \<and> round_kind q (round_bca (round_at m' q))"
    using node_invD(3-5) [OF inv] b by (simp add: at)
  have P0: "(P(r := P1)) 0 \<subseteq> I'" using node_invD(6) [OF inv] P1(1,2) by (cases "r = 0") auto
  have out: "outputs m' = outputs m" using rest by (simp add: outputs_def same_rest_def)
  have valid: "\<forall>q. \<forall>v \<in> (P(r := P1)) q. isInputValid v" using node_invD(15) [OF inv] P1(4) by simp
  show ?thesis
    unfolding node_inv_def out using node_invD(1,2,12-14) [OF inv] props rds sent rds2 P0 valid rest
    unfolding same_rest_def by simp
qed

end
