(* ===== verification/MMR_Network.thy ===== *)
theory MMR_Network
  imports MMR_Node
begin

text \<open>
  A whole instance of binary agreement: every correct node runs the operations and goroutines of
  \<open>MMR\<close>; messages arrive in any order and any number of times; one from a correct node was handed to its
  delivery channels, one from a Byzantine node is arbitrary.  \<open>coin r\<close> is the value the common coin gives
  every correct node for round \<open>r\<close>.  A call of \<^verbatim>\<open>submitCoin\<close> that waits for the round's decision takes its
  step when it returns.
\<close>

section \<open>The network\<close>

record aba_net =
  mnode :: "uuid \<Rightarrow> mmr"
  inputs :: "uuid \<Rightarrow> byte set"

definition aba_init :: "net_cfg \<Rightarrow> aba_net" where
  "aba_init c = \<lparr>mnode = (\<lambda>_. newMMR (cfg_n c) (cfg_f c)), inputs = (\<lambda>_. {})\<rparr>"

definition set_node :: "uuid \<Rightarrow> mmr \<Rightarrow> aba_net \<Rightarrow> aba_net" where
  "set_node p m N = N\<lparr>mnode := (mnode N)(p := m)\<rparr>"

text \<open>A goroutine of the agreement of one round takes a step.\<close>

definition bca_steps :: "uint16 \<Rightarrow> mmr \<Rightarrow> mmr \<Rightarrow> bool" where
  "bca_steps r m m' \<longleftrightarrow> (\<exists>rd b. rounds m r = Some rd \<and> bca_goroutine (round_bca rd) b
     \<and> m' = m\<lparr>rounds := (rounds m)(r \<mapsto> rd\<lparr>round_bca := b\<rparr>)\<rparr>)"

definition mmr_goroutine :: "mmr \<Rightarrow> mmr \<Rightarrow> bool" where
  "mmr_goroutine m m' \<longleftrightarrow> (\<exists>r. bca_steps r m m') \<or> (\<exists>r. mmr_execRound r m = Some m')
     \<or> (\<exists>q r. listenRequests q r m = Some m') \<or> (\<exists>b. reachDecision b m = Some m')
     \<or> (\<exists>w. listenExternallyValid m = Some (w, m'))
     \<or> (\<exists>v r. (v, r) \<in> set (deliverExternallyValid m) \<and> m' = fst (mmr_submitExternallyValid v r m))
     \<or> mmr_close m = m' \<or> (\<exists>d. mmr_takeDecision m = Some (d, m'))"

lemma mmr_goroutineI:
  "bca_steps r m m' \<Longrightarrow> mmr_goroutine m m'" "mmr_execRound r m = Some m' \<Longrightarrow> mmr_goroutine m m'"
  "listenRequests q r m = Some m' \<Longrightarrow> mmr_goroutine m m'" "reachDecision b m = Some m' \<Longrightarrow> mmr_goroutine m m'"
  "listenExternallyValid m = Some (w, m') \<Longrightarrow> mmr_goroutine m m'" "mmr_goroutine m (mmr_close m)"
  "mmr_takeDecision m = Some (d, m') \<Longrightarrow> mmr_goroutine m m'"
  "(v, k) \<in> set (deliverExternallyValid m) \<Longrightarrow> mmr_goroutine m (fst (mmr_submitExternallyValid v k m))"
  unfolding mmr_goroutine_def by blast+

inductive aba_step :: "net_cfg \<Rightarrow> (uint16 \<Rightarrow> byte) \<Rightarrow> aba_net \<Rightarrow> aba_net \<Rightarrow> bool" for c coin where
  propose: "p \<in> correct c \<Longrightarrow> aba_step c coin N
    ((set_node p (fst (concurrent_propose est (mnode N p))) N)\<lparr>inputs := (inputs N)(p := insert est (inputs N p))\<rparr>)"
| echo: "\<lbrakk>p \<in> correct c; x \<in> procs c; x \<in> correct c \<longrightarrow> (v, r) \<in> set (deliverEcho (mnode N x))\<rbrakk>
    \<Longrightarrow> aba_step c coin N (set_node p (fst (mmr_submitEcho v x r (mnode N p))) N)"
| vote: "\<lbrakk>p \<in> correct c; x \<in> procs c; x \<in> correct c \<longrightarrow> (v, r) \<in> set (deliverVote (mnode N x))\<rbrakk>
    \<Longrightarrow> aba_step c coin N (set_node p (fst (mmr_submitVote v x r (mnode N p))) N)"
| bind: "\<lbrakk>p \<in> correct c; x \<in> procs c; x \<in> correct c \<longrightarrow> (v, r) \<in> set (deliverBind (mnode N x))\<rbrakk>
    \<Longrightarrow> aba_step c coin N (set_node p (fst (mmr_submitBind v x r (mnode N p))) N)"
| coin: "\<lbrakk>p \<in> correct c; r \<in> set (coinReq (mnode N p)); mmr_submitCoin (coin r) r (mnode N p) = (m', res); res \<noteq> GoBlocked\<rbrakk>
    \<Longrightarrow> aba_step c coin N (set_node p m' N)"
| decision: "\<lbrakk>p \<in> correct c; x \<in> procs c; x \<in> correct c \<longrightarrow> v \<in> set (ch_sent (deliverDecision (mnode N x)))\<rbrakk>
    \<Longrightarrow> aba_step c coin N (set_node p (fst (mmr_submitDecision v x (mnode N p))) N)"
| goroutine: "\<lbrakk>p \<in> correct c; mmr_goroutine (mnode N p) m'\<rbrakk> \<Longrightarrow> aba_step c coin N (set_node p m' N)"

inductive aba_reach :: "net_cfg \<Rightarrow> (uint16 \<Rightarrow> byte) \<Rightarrow> aba_net \<Rightarrow> bool" for c coin where
  init: "aba_reach c coin (aba_init c)"
| step: "aba_reach c coin N \<Longrightarrow> aba_step c coin N M \<Longrightarrow> aba_reach c coin M"

section \<open>The invariant of the network\<close>

type_synonym aba_hist = "uuid \<Rightarrow> uint16 \<Rightarrow> byte set"

definition net_view :: "aba_net \<Rightarrow> aba_hist \<Rightarrow> aba_hist \<Rightarrow> uint16 \<Rightarrow> uuid \<Rightarrow> bca_view" where
  "net_view N PP FF r p = node_view (mnode N p) (PP p) (FF p) r"

definition aba_inv ::
  "net_cfg \<Rightarrow> (uint16 \<Rightarrow> byte) \<Rightarrow> aba_net \<Rightarrow> aba_hist \<Rightarrow> aba_hist \<Rightarrow> (uuid \<Rightarrow> (uuid \<times> byte) set) \<Rightarrow> bool"
where
  "aba_inv c coin N PP FF DD \<longleftrightarrow>
     (\<forall>p. node_inv c coin (inputs N p) (mnode N p) (PP p) (FF p) (DD p))
     \<and> (\<forall>r. bca_vreach c (net_view N PP FF r))
     \<and> (\<forall>p v. \<forall>x \<in> correct c. (x, v) \<in> DD p \<longrightarrow> v \<in> set (ch_sent (deliverDecision (mnode N x))))"

text \<open>What a step of node \<open>p\<close> has to establish: its own invariant, and a step of the views in each round.\<close>

definition local_step ::
  "net_cfg \<Rightarrow> (uint16 \<Rightarrow> uuid \<Rightarrow> bca_view) \<Rightarrow> uuid \<Rightarrow> mmr \<Rightarrow> (uint16 \<Rightarrow> byte set) \<Rightarrow> (uint16 \<Rightarrow> byte set) \<Rightarrow> bool"
where
  "local_step c V p m P F \<longleftrightarrow>
     (\<forall>r. node_view m P F r = V r p \<or> bca_vstep c (V r) ((V r)(p := node_view m P F r)))"

lemma aba_inv_node:
  assumes inv: "aba_inv c coin N PP FF DD" and node: "node_inv c coin I m P F D"
    and views: "local_step c (net_view N PP FF) p m P F"
    and grow: "set (ch_sent (deliverDecision (mnode N p))) \<subseteq> set (ch_sent (deliverDecision m))"
    and ann: "\<forall>x \<in> correct c. \<forall>v. (x, v) \<in> D \<longrightarrow> v \<in> set (ch_sent (deliverDecision (mnode N x)))"
  shows "aba_inv c coin ((set_node p m N)\<lparr>inputs := (inputs N)(p := I)\<rparr>) (PP(p := P)) (FF(p := F)) (DD(p := D))"
proof -
  let ?N = "(set_node p m N)\<lparr>inputs := (inputs N)(p := I)\<rparr>"
  have nodes: "node_inv c coin (inputs ?N q) (mnode ?N q) ((PP(p := P)) q) ((FF(p := F)) q) ((DD(p := D)) q)" for q
    using inv node by (auto simp: aba_inv_def set_node_def)
  have view: "net_view ?N (PP(p := P)) (FF(p := F)) r = (net_view N PP FF r)(p := node_view m P F r)" for r
    by (auto simp: net_view_def set_node_def)
  have "bca_vreach c ((net_view N PP FF r)(p := node_view m P F r))" for r
  proof -
    have old: "bca_vreach c (net_view N PP FF r)" using inv by (simp add: aba_inv_def)
    show ?thesis using views [unfolded local_step_def, rule_format, of r] old
      by (metis bca_vreach.step fun_upd_triv)
  qed
  then have reach: "\<forall>r. bca_vreach c (net_view ?N (PP(p := P)) (FF(p := F)) r)" by (simp add: view)
  have "v \<in> set (ch_sent (deliverDecision (mnode ?N x)))" if "x \<in> correct c" "(x, v) \<in> (DD(p := D)) q" for x v q
  proof -
    have "v \<in> set (ch_sent (deliverDecision (mnode N x)))"
      using that ann inv by (cases "q = p") (auto simp: aba_inv_def)
    then show ?thesis using grow by (auto simp: set_node_def)
  qed
  with nodes reach show ?thesis unfolding aba_inv_def by blast
qed

lemma net_evidence:
  assumes "aba_inv c coin N PP FF DD" and "byz_ok c"
  shows "bca_evidence c (net_view N PP FF r p)" and "heard c (net_view N PP FF r) (net_view N PP FF r p)"
  using vreach_evidence [OF _ assms(2), of "net_view N PP FF r" p] assms(1) by (auto simp: aba_inv_def)

lemma local_step_round:
  assumes "round_at m' = (round_at m)(r := rd)"
    and "V = (\<lambda>r. net_view N PP FF r)" "m = mnode N p" "P = PP p" "F = FF p"
    and "bca_view P1 F1 (round_bca rd) = V r p \<or> bca_vstep c (V r) ((V r)(p := bca_view P1 F1 (round_bca rd)))"
  shows "local_step c V p m' (P(r := P1)) (F(r := F1))"
  unfolding local_step_def
proof
  fix q
  show "node_view m' (P(r := P1)) (F(r := F1)) q = V q p
      \<or> bca_vstep c (V q) ((V q)(p := node_view m' (P(r := P1)) (F(r := F1)) q))"
    using assms by (cases "q = r") (simp_all add: node_view_def net_view_def)
qed

section \<open>Steps keep the invariant\<close>

definition net_ok :: "net_cfg \<Rightarrow> (uint16 \<Rightarrow> byte) \<Rightarrow> aba_net \<Rightarrow> bool" where
  "net_ok c coin N \<longleftrightarrow> (\<exists>PP FF DD. aba_inv c coin N PP FF DD)"

lemma kind_kept:
  "bca_propose est k b = (b', res) \<Longrightarrow> round_kind r b' = round_kind r b"
  "bca_submitEcho v x b = (b', res) \<Longrightarrow> round_kind r b' = round_kind r b"
  "bca_submitVote v x b = (b', res) \<Longrightarrow> round_kind r b' = round_kind r b"
  "bca_submitBind v x b = (b', res) \<Longrightarrow> round_kind r b' = round_kind r b"
  "bca_submitExternallyValid v b = (b', res) \<Longrightarrow> round_kind r b' = round_kind r b"
  "bca_goroutine b b' \<Longrightarrow> round_kind r b' = round_kind r b"
  "takeDecision b = Some (v, b') \<Longrightarrow> round_kind r b' = round_kind r b"
  "takeEcho b = Some (v, b') \<Longrightarrow> round_kind r b' = round_kind r b"
  "takeVote b = Some (v, b') \<Longrightarrow> round_kind r b' = round_kind r b"
  "takeBind b = Some (v, b') \<Longrightarrow> round_kind r b' = round_kind r b"
  "takeExternalValid b = Some (v, b') \<Longrightarrow> round_kind r b' = round_kind r b"
  by (cases b; auto simp: apfst_eq)+

text \<open>The agreement of one round of node \<open>p\<close> changes by a step of the views, or without a trace in them.\<close>

lemma aba_round_change:
  assumes inv: "aba_inv c coin N PP FF DD"
    and rest: "same_rest (mnode N p) m'" and at: "round_at m' = (round_at (mnode N p))(r := rd)"
    and b: "bca_inv c P1 F1 (round_bca rd)" "exec_ok (coin r) rd" "round_kind r (round_bca rd)"
    and step: "bca_view P1 F1 (round_bca rd) = net_view N PP FF r p
      \<or> bca_vstep c (net_view N PP FF r) ((net_view N PP FF r)(p := bca_view P1 F1 (round_bca rd)))"
    and P1: "r = 0 \<Longrightarrow> P1 \<subseteq> I'" "inputs N p \<subseteq> I'" "r \<noteq> 0 \<Longrightarrow> P1 \<subseteq> next_ests coin (mnode N p) (r - 1)"
      "\<And>v. v \<in> P1 \<Longrightarrow> isInputValid v"
  shows "aba_inv c coin ((set_node p m' N)\<lparr>inputs := (inputs N)(p := I')\<rparr>)
    (PP(p := (PP p)(r := P1))) (FF(p := (FF p)(r := F1))) (DD(p := DD p))"
proof (rule aba_inv_node [OF inv])
  have node: "node_inv c coin (inputs N p) (mnode N p) (PP p) (FF p) (DD p)" using inv by (simp add: aba_inv_def)
  have le: "view_le (bca_view (PP p r) (FF p r) (round_bca (round_at (mnode N p) r))) (bca_view P1 F1 (round_bca rd))"
    using step
  proof
    assume "bca_vstep c (net_view N PP FF r) ((net_view N PP FF r)(p := bca_view P1 F1 (round_bca rd)))"
    from vstep_le [OF this, of p] show ?thesis by (simp add: net_view_def node_view_def)
  qed (simp add: net_view_def node_view_def)
  show "node_inv c coin I' m' ((PP p)(r := P1)) ((FF p)(r := F1)) (DD p)"
    by (rule node_inv_round [OF node rest at b le P1])
  show "local_step c (net_view N PP FF) p m' ((PP p)(r := P1)) ((FF p)(r := F1))"
    by (rule local_step_round [OF at refl refl refl refl step])
  show "set (ch_sent (deliverDecision (mnode N p))) \<subseteq> set (ch_sent (deliverDecision m'))"
    using rest by (simp add: same_rest_def)
  show "\<forall>x \<in> correct c. \<forall>v. (x, v) \<in> DD p \<longrightarrow> v \<in> set (ch_sent (deliverDecision (mnode N x)))"
    using inv by (simp add: aba_inv_def)
qed

lemma inputs_same: "(set_node p m' N)\<lparr>inputs := (inputs N)(p := inputs N p)\<rparr> = set_node p m' N"
  by (simp add: set_node_def)

text \<open>An operation of a round's agreement that is a step of the views, with nothing new proposed.\<close>

lemma with_round_step:
  assumes inv: "aba_inv c coin N PP FF DD" and wr: "with_round r oper (mnode N p) = (m', res)"
    and b: "\<And>b. oper (round_bca (round_at (mnode N p) r)) = (b, res) \<Longrightarrow>
      bca_inv c (PP p r) (FF p r) b \<and> round_kind r b
      \<and> (bca_view (PP p r) (FF p r) b = net_view N PP FF r p
        \<or> bca_vstep c (net_view N PP FF r) ((net_view N PP FF r)(p := bca_view (PP p r) (FF p r) b)))"
  shows "net_ok c coin (set_node p m' N)"
proof -
  note w = with_round_at [OF wr]
  let ?b = "round_bca (round_at m' r)" and ?old = "round_bca (round_at (mnode N p) r)"
  have node: "node_inv c coin (inputs N p) (mnode N p) (PP p) (FF p) (DD p)" using inv by (simp add: aba_inv_def)
  note bb = b [OF w(1)]
  have "bca_decided ?old \<subseteq> bca_decided ?b"
    using bb vstep_le [of c "net_view N PP FF r" "(net_view N PP FF r)(p := bca_view (PP p r) (FF p r) ?b)" p]
    by (auto simp: net_view_def node_view_def view_le_def dest: arg_cong [of _ _ v_decided])
  then have ex: "exec_ok (coin r) ((round_at (mnode N p) r)\<lparr>round_bca := ?b\<rparr>)"
    by (rule exec_ok_bca [OF node_invD(4) [OF node]])
  have "aba_inv c coin ((set_node p m' N)\<lparr>inputs := (inputs N)(p := inputs N p)\<rparr>)
      (PP(p := (PP p)(r := PP p r))) (FF(p := (FF p)(r := FF p r))) (DD(p := DD p))"
    by (rule aba_round_change [OF inv w(3,2) _ ex]) (use bb node_invD(6) [OF node] node_invD(7) [OF node, of r] node_invD(15) [OF node] in auto)
  then show ?thesis unfolding inputs_same net_ok_def by blast
qed

lemma with_round_quiet:
  assumes inv: "aba_inv c coin N PP FF DD" and wr: "with_round r oper (mnode N p) = (m', res)"
    and q: "\<And>b. oper (round_bca (round_at (mnode N p) r)) = (b, res) \<Longrightarrow>
      quiet (round_bca (round_at (mnode N p) r)) b \<and> round_kind r b = round_kind r (round_bca (round_at (mnode N p) r))"
  shows "net_ok c coin (set_node p m' N)"
proof (rule with_round_step [OF inv wr])
  fix b
  assume "oper (round_bca (round_at (mnode N p) r)) = (b, res)"
  note qb = q [OF this]
  have node: "node_inv c coin (inputs N p) (mnode N p) (PP p) (FF p) (DD p)" using inv by (simp add: aba_inv_def)
  show "bca_inv c (PP p r) (FF p r) b \<and> round_kind r b
      \<and> (bca_view (PP p r) (FF p r) b = net_view N PP FF r p
        \<or> bca_vstep c (net_view N PP FF r) ((net_view N PP FF r)(p := bca_view (PP p r) (FF p r) b)))"
    using qb node_invD(3,5) [OF node, of r] by (auto simp: quiet_def net_view_def node_view_def)
qed

lemma net_okE:
  assumes "net_ok c coin N"
  obtains PP FF DD where "aba_inv c coin N PP FF DD"
  using assms by (auto simp: net_ok_def)

end
