(* ===== verification/MMR_Steps.thy ===== *)
theory MMR_Steps
  imports MMR_Network
begin

text \<open>
  Every step of the network of binary agreement keeps the invariant: message deliveries and proposals,
  the coin, announced decisions and each goroutine.  So every reachable network satisfies it.
\<close>

section \<open>Messages and proposals\<close>

text \<open>Echoes, votes and binds.\<close>

lemma submitEcho_ok:
  assumes ok: "byz_ok c" and inv: "net_ok c coin N" and p: "p \<in> correct c" and x: "x \<in> procs c"
    and sent: "x \<in> correct c \<longrightarrow> (v, r) \<in> set (deliverEcho (mnode N x))"
  shows "net_ok c coin (set_node p (fst (mmr_submitEcho v x r (mnode N p))) N)"
proof -
  obtain PP FF DD where i: "aba_inv c coin N PP FF DD" using inv by (rule net_okE)
  have node: "node_inv c coin (inputs N q) (mnode N q) (PP q) (FF q) (DD q)" for q using i by (simp add: aba_inv_def)
  have was: "x \<in> correct c \<longrightarrow> v \<in> v_sentEcho (net_view N PP FF r x)"
    using sent node_invD(8) [OF node] by (auto simp: net_view_def)
  obtain m' res where wr: "with_round r (bca_submitEcho v x) (mnode N p) = (m', res)" by fastforce
  have "net_ok c coin (set_node p m' N)"
  proof (rule with_round_step [OF i wr])
    fix b
    assume o: "bca_submitEcho v x (round_bca (round_at (mnode N p) r)) = (b, res)"
    have V: "net_view N PP FF r p = bca_view (PP p r) (FF p r) (round_bca (round_at (mnode N p) r))"
      by (simp add: net_view_def node_view_def)
    note st = rb.submitEcho_vstep [OF ok p V node_invD(3) [OF node] net_evidence(2) [OF i ok] x o was]
    show "bca_inv c (PP p r) (FF p r) b \<and> round_kind r b \<and> (bca_view (PP p r) (FF p r) b = net_view N PP FF r p
        \<or> bca_vstep c (net_view N PP FF r) ((net_view N PP FF r)(p := bca_view (PP p r) (FF p r) b)))"
      using st rb.submitEcho_inv [OF ok node_invD(3) [OF node] x o] node_invD(5) [OF node [of p], of r] kind_kept(2) [OF o]
      by blast
  qed
  then show ?thesis by (simp add: mmr_submitEcho_def wr)
qed

lemma submitVote_ok:
  assumes ok: "byz_ok c" and inv: "net_ok c coin N" and p: "p \<in> correct c" and x: "x \<in> procs c"
    and sent: "x \<in> correct c \<longrightarrow> (v, r) \<in> set (deliverVote (mnode N x))"
  shows "net_ok c coin (set_node p (fst (mmr_submitVote v x r (mnode N p))) N)"
proof -
  obtain PP FF DD where i: "aba_inv c coin N PP FF DD" using inv by (rule net_okE)
  have node: "node_inv c coin (inputs N q) (mnode N q) (PP q) (FF q) (DD q)" for q using i by (simp add: aba_inv_def)
  have was: "x \<in> correct c \<longrightarrow> v \<in> v_sentVote (net_view N PP FF r x)"
    using sent node_invD(9) [OF node] by (auto simp: net_view_def)
  obtain m' res where wr: "with_round r (bca_submitVote v x) (mnode N p) = (m', res)" by fastforce
  have "net_ok c coin (set_node p m' N)"
  proof (rule with_round_step [OF i wr])
    fix b
    assume o: "bca_submitVote v x (round_bca (round_at (mnode N p) r)) = (b, res)"
    have V: "net_view N PP FF r p = bca_view (PP p r) (FF p r) (round_bca (round_at (mnode N p) r))"
      by (simp add: net_view_def node_view_def)
    note st = rb.submitVote_vstep [OF ok p V node_invD(3) [OF node] net_evidence(2) [OF i ok] x o was]
    show "bca_inv c (PP p r) (FF p r) b \<and> round_kind r b \<and> (bca_view (PP p r) (FF p r) b = net_view N PP FF r p
        \<or> bca_vstep c (net_view N PP FF r) ((net_view N PP FF r)(p := bca_view (PP p r) (FF p r) b)))"
      using st rb.submitVote_inv [OF ok node_invD(3) [OF node] x o] node_invD(5) [OF node [of p], of r] kind_kept(3) [OF o]
      by blast
  qed
  then show ?thesis by (simp add: mmr_submitVote_def wr)
qed

lemma submitBind_ok:
  assumes ok: "byz_ok c" and inv: "net_ok c coin N" and p: "p \<in> correct c" and x: "x \<in> procs c"
    and sent: "x \<in> correct c \<longrightarrow> (v, r) \<in> set (deliverBind (mnode N x))"
  shows "net_ok c coin (set_node p (fst (mmr_submitBind v x r (mnode N p))) N)"
proof -
  obtain PP FF DD where i: "aba_inv c coin N PP FF DD" using inv by (rule net_okE)
  have node: "node_inv c coin (inputs N q) (mnode N q) (PP q) (FF q) (DD q)" for q using i by (simp add: aba_inv_def)
  have was: "x \<in> correct c \<longrightarrow> v \<in> v_sentBind (net_view N PP FF r x)"
    using sent node_invD(10) [OF node] by (auto simp: net_view_def)
  obtain m' res where wr: "with_round r (bca_submitBind v x) (mnode N p) = (m', res)" by fastforce
  have "net_ok c coin (set_node p m' N)"
  proof (rule with_round_step [OF i wr])
    fix b
    assume o: "bca_submitBind v x (round_bca (round_at (mnode N p) r)) = (b, res)"
    have V: "net_view N PP FF r p = bca_view (PP p r) (FF p r) (round_bca (round_at (mnode N p) r))"
      by (simp add: net_view_def node_view_def)
    note st = rb.submitBind_vstep [OF ok p V node_invD(3) [OF node] net_evidence(2) [OF i ok] x o was]
    show "bca_inv c (PP p r) (FF p r) b \<and> round_kind r b \<and> (bca_view (PP p r) (FF p r) b = net_view N PP FF r p
        \<or> bca_vstep c (net_view N PP FF r) ((net_view N PP FF r)(p := bca_view (PP p r) (FF p r) b)))"
      using st rb.submitBind_inv [OF ok node_invD(3) [OF node] x o] node_invD(5) [OF node [of p], of r] kind_kept(4) [OF o]
      by blast
  qed
  then show ?thesis by (simp add: mmr_submitBind_def wr)
qed

text \<open>A proposal: accepted with the value recorded, or rejected without effect on the agreement.\<close>

lemma propose_ok:
  assumes ok: "byz_ok c" and i: "aba_inv c coin N PP FF DD" and p: "p \<in> correct c"
    and wr: "with_round r (bca_propose est k) (mnode N p) = (m', res)" and I: "inputs N p \<subseteq> I'"
    and acc: "\<nexists>e. res = GoErr e \<Longrightarrow> isInputValid est \<and> (r = 0 \<longrightarrow> est \<in> I') \<and> (r \<noteq> 0 \<longrightarrow> est \<in> next_ests coin (mnode N p) (r - 1))"
  shows "net_ok c coin ((set_node p m' N)\<lparr>inputs := (inputs N)(p := I')\<rparr>)"
proof -
  note w = with_round_at [OF wr]
  let ?b = "round_bca (round_at m' r)" and ?old = "round_bca (round_at (mnode N p) r)"
  have node: "node_inv c coin (inputs N p) (mnode N p) (PP p) (FF p) (DD p)" using i by (simp add: aba_inv_def)
  have V: "net_view N PP FF r p = bca_view (PP p r) (FF p r) ?old" by (simp add: net_view_def node_view_def)
  have kind: "round_kind r ?b" using kind_kept(1) [OF w(1)] node_invD(5) [OF node, of r] by simp
  have ex: "exec_ok (coin r) ((round_at (mnode N p) r)\<lparr>round_bca := ?b\<rparr>)"
  proof (rule exec_ok_bca [OF node_invD(4) [OF node]])
    show "bca_decided ?old \<subseteq> bca_decided ?b"
      using rb.propose_view [OF w(1), of "{}" "{}" "{}" "{}"] by (simp add: view_le_def)
  qed
  show ?thesis
  proof (cases "\<exists>e. res = GoErr e")
    case True
    then have same: "?b = ?old" using rb.propose_rejected w(1) by blast
    have "aba_inv c coin ((set_node p m' N)\<lparr>inputs := (inputs N)(p := I')\<rparr>)
        (PP(p := (PP p)(r := PP p r))) (FF(p := (FF p)(r := FF p r))) (DD(p := DD p))"
      by (rule aba_round_change [OF i w(3,2) _ ex])
        (use same V kind I node_invD(3,6) [OF node] node_invD(7) [OF node, of r] node_invD(15) [OF node] in auto)
    then show ?thesis unfolding net_ok_def by blast
  next
    case False
    let ?F1 = "if bca_fast est k ?old then insert est (FF p r) else FF p r"
    have v: "isInputValid est" using acc False by blast
    have inv': "bca_inv c (insert est (PP p r)) ?F1 ?b"
      by (rule rb.propose_inv [OF ok node_invD(3) [OF node] v w(1) False])
    have st: "bca_vstep c (net_view N PP FF r) ((net_view N PP FF r)(p := bca_view (insert est (PP p r)) ?F1 ?b))"
      by (rule rb.propose_vstep [OF ok p V node_invD(3) [OF node] net_evidence(2) [OF i ok] w(1) False v])
    have "aba_inv c coin ((set_node p m' N)\<lparr>inputs := (inputs N)(p := I')\<rparr>)
        (PP(p := (PP p)(r := insert est (PP p r)))) (FF(p := (FF p)(r := ?F1))) (DD(p := DD p))"
      by (rule aba_round_change [OF i w(3,2) _ ex])
        (use inv' st kind I acc False node_invD(6) [OF node] node_invD(7) [OF node, of r] node_invD(15) [OF node] in auto)
    then show ?thesis unfolding net_ok_def by blast
  qed
qed

section \<open>Steps outside the agreements\<close>

text \<open>The rounds stay as they are; the lists and channels of the node change.\<close>

lemma node_inv_rest:
  assumes inv: "node_inv c coin I m P F D" and at: "round_at m' = round_at m" "mmr_n m' = mmr_n m" "mmr_f m' = mmr_f m"
    and sent: "\<And>v r. (v, r) \<in> set (deliverEcho m') \<Longrightarrow> (v, r) \<in> set (deliverEcho m) \<or> v \<in> v_sentEcho (node_view m P F r)"
      "\<And>v r. (v, r) \<in> set (deliverVote m') \<Longrightarrow> (v, r) \<in> set (deliverVote m) \<or> v \<in> v_sentVote (node_view m P F r)"
      "\<And>v r. (v, r) \<in> set (deliverBind m') \<Longrightarrow> (v, r) \<in> set (deliverBind m) \<or> v \<in> v_sentBind (node_view m P F r)"
    and rd: "\<And>v. v \<in> set (ch_sent (reachedDecision m')) \<Longrightarrow> v \<in> set (ch_sent (reachedDecision m))
      \<or> (\<exists>r. v \<in> bca_decided (round_bca (round_at m r)) \<and> v \<noteq> bot \<and> v = coin r)"
    and term': "term_inv c D' (termGadget m')"
    and out: "\<And>d. reach_pc m' = ROut d \<Longrightarrow> d \<in> outputs m'" "set (ch_sent (deliverDecision m')) \<subseteq> outputs m'"
  shows "node_inv c coin I m' P F D'"
proof -
  have views: "node_view m' P F = node_view m P F" by (intro ext) (simp add: node_view_def at)
  have ests: "next_ests coin m' = next_ests coin m" by (intro ext) (simp add: next_ests_def at)
  have s: "\<forall>(v, r) \<in> set (deliverEcho m'). v \<in> v_sentEcho (node_view m P F r)"
    "\<forall>(v, r) \<in> set (deliverVote m'). v \<in> v_sentVote (node_view m P F r)"
    "\<forall>(v, r) \<in> set (deliverBind m'). v \<in> v_sentBind (node_view m P F r)"
    using sent node_invD(8-10) [OF inv] by blast+
  have r: "\<forall>v \<in> set (ch_sent (reachedDecision m')). \<exists>r. v \<in> bca_decided (round_bca (round_at m r)) \<and> v \<noteq> bot \<and> v = coin r"
    using rd node_invD(11) [OF inv] by blast
  show ?thesis unfolding node_inv_def views ests at
    using node_invD(1-7,15) [OF inv] s r term' out by simp
qed

lemma aba_rest_change:
  assumes inv: "aba_inv c coin N PP FF DD" and at: "round_at m' = round_at (mnode N p)"
    and node: "node_inv c coin (inputs N p) m' (PP p) (FF p) D"
    and grow: "set (ch_sent (deliverDecision (mnode N p))) \<subseteq> set (ch_sent (deliverDecision m'))"
    and ann: "\<And>x v. x \<in> correct c \<Longrightarrow> (x, v) \<in> D \<Longrightarrow> v \<in> set (ch_sent (deliverDecision (mnode N x)))"
  shows "net_ok c coin (set_node p m' N)"
proof -
  have "local_step c (net_view N PP FF) p m' (PP p) (FF p)"
    by (simp add: local_step_def net_view_def node_view_def at)
  with aba_inv_node [OF inv node _ grow] ann show ?thesis
    unfolding inputs_same net_ok_def by blast
qed

lemma round_at_same:
  "rounds m' = rounds m \<Longrightarrow> mmr_n m' = mmr_n m \<Longrightarrow> mmr_f m' = mmr_f m \<Longrightarrow> round_at m' = round_at m"
  by (intro ext) (simp add: round_at_def split: option.split)

lemma set_node_twice: "set_node p m' (set_node p m N) = set_node p m' N"
  by (simp add: set_node_def)

lemma mnode_set [simp]: "mnode (set_node p m N) q = (if q = p then m else mnode N q)" "inputs (set_node p m N) = inputs N"
  by (simp_all add: set_node_def)

text \<open>A round changes without a trace in the views.\<close>

lemma round_quiet:
  assumes inv: "aba_inv c coin N PP FF DD" and rest: "same_rest (mnode N p) m'"
    and at: "round_at m' = (round_at (mnode N p))(r := rd)" and ex: "exec_ok (coin r) rd"
    and q: "quiet (round_bca (round_at (mnode N p) r)) (round_bca rd)" and kind: "round_kind r (round_bca rd)"
  shows "aba_inv c coin (set_node p m' N) PP FF DD"
proof -
  have node: "node_inv c coin (inputs N p) (mnode N p) (PP p) (FF p) (DD p)" using inv by (simp add: aba_inv_def)
  have b: "bca_inv c (PP p r) (FF p r) (round_bca rd)" "bca_view (PP p r) (FF p r) (round_bca rd) = net_view N PP FF r p"
    using q node_invD(3) [OF node, of r] by (auto simp: quiet_def net_view_def node_view_def)
  have "aba_inv c coin ((set_node p m' N)\<lparr>inputs := (inputs N)(p := inputs N p)\<rparr>)
      (PP(p := (PP p)(r := PP p r))) (FF(p := (FF p)(r := FF p r))) (DD(p := DD p))"
    by (rule aba_round_change [OF inv rest at b(1) ex kind])
      (use b node_invD(6) [OF node] node_invD(7) [OF node, of r] node_invD(15) [OF node] in auto)
  then show ?thesis by (simp add: set_node_def)
qed

lemma execRound_kind: "execRound r = Some r' \<Longrightarrow> round_kind q (round_bca r') = round_kind q (round_bca r)"
  by (cases "exec_pc r")
    (auto simp: execRound_def kind_kept(7) split: option.splits dest!: send_thenE recv_thenD)

lemma execRoundN_kind: "round_kind q (round_bca (execRoundN j r)) = round_kind q (round_bca r)"
  by (induction j arbitrary: r) (auto simp: execRound_kind split: option.split)

lemma round_submitCoin_kind:
  "round_submitCoin k r = ((r', t), oc) \<Longrightarrow> round_kind q (round_bca r') = round_kind q (round_bca r)"
  by (auto simp: round_submitCoin_def Let_def execRoundN_kind split: if_splits option.splits)

lemma round_submitCoin_valid: "round_submitCoin k r = ((r', Some t), oc) \<Longrightarrow> isInputValid k"
  by (auto simp: round_submitCoin_def split: if_splits)

section \<open>The coin\<close>

lemma decided_valid:
  assumes ok: "byz_ok c" and inv: "aba_inv c coin N PP FF DD"
    and d: "d \<in> bca_decided (round_bca (round_at (mnode N p) r))" "d \<noteq> bot"
  shows "isInputValid d"
proof -
  have V: "d \<in> v_decided (net_view N PP FF r p)" using d by (simp add: net_view_def node_view_def)
  have q: "strong_quorum c (v_binds (net_view N PP FF r p) d)" "v_binds (net_view N PP FF r p) d \<subseteq> procs c"
    using decided_binds [OF net_evidence(1) [OF inv ok] V d(2)] net_evidence(1) [OF inv ok, of r p]
    by (auto simp: bca_evidence_def)
  from byzq.strong_correct [OF ok q] obtain x where "x \<in> correct c" "x \<in> v_binds (net_view N PP FF r p) d" by blast
  then have "d \<in> v_sentBind (net_view N PP FF r x)" using net_evidence(2) [OF inv ok, of r p] by (simp add: heard_def)
  then show ?thesis using net_evidence(1) [OF inv ok, of r x] d(2) unfolding bca_evidence_def by metis
qed

lemma first_round_coin:
  assumes "node_inv c coin I m P F D" and "with_round 0 (bca_propose est k) m = (m', res)" and "isInputValid k"
  shows "\<exists>e. res = GoErr e"
proof -
  have "k \<noteq> bot" using assms(3) by auto
  then show ?thesis using with_round_at(1) [OF assms(2)] node_invD(5) [OF assms(1), of 0]
    by (cases "round_bca (round_at m 0)") (auto simp: iv_propose_def apfst_eq split: if_splits)
qed

lemma submitCoin_ok:
  assumes ok: "byz_ok c" and inv: "net_ok c coin N" and p: "p \<in> correct c"
    and op: "mmr_submitCoin (coin r) r (mnode N p) = (m', res)" and ret: "res \<noteq> GoBlocked"
  shows "net_ok c coin (set_node p m' N)"
proof -
  let ?m = "mnode N p"
  obtain PP FF DD where i: "aba_inv c coin N PP FF DD" using inv by (rule net_okE)
  obtain m1 rd where g: "getRound r ?m = (m1, rd)" by fastforce
  obtain rd1 t oc where sc: "round_submitCoin (coin r) rd = ((rd1, t), oc)" by (metis prod.exhaust)
  define m2 where "m2 = m1\<lparr>rounds := (rounds m1)(r \<mapsto> rd1)\<rparr>"
  have rd: "rd = round_at ?m r" and m1: "rounds m1 = (rounds ?m)(r \<mapsto> rd)" "same_rest ?m m1"
    using getRound_at [of r ?m] getRound_rest [of ?m r] g by simp_all
  have rest: "same_rest ?m m2" using m1(2) by (simp add: m2_def same_rest_def)
  have at: "round_at m2 = (round_at ?m)(r := rd1)" by (rule round_at_upd [OF rest]) (simp add: m2_def m1(1))
  have node: "node_inv c coin (inputs N p) ?m (PP p) (FF p) (DD p)" using i by (simp add: aba_inv_def)
  note so = round_submitCoin_ok [OF node_invD(4) [OF node, of r, folded rd] sc]
  have kind: "round_kind r (round_bca rd1)"
    using round_submitCoin_kind [OF sc] node_invD(5) [OF node, of r] by (simp add: rd)
  have i2: "aba_inv c coin (set_node p m2 N) PP FF DD"
    by (rule round_quiet [OF i rest at _ _ kind]) (use so in \<open>simp_all add: rd\<close>)
  have node2: "node_inv c coin (inputs N p) m2 (PP p) (FF p) (DD p)"
    using i2 by (auto simp: aba_inv_def dest: spec [of _ p])
  show ?thesis
  proof (cases "oc = GoNil \<and> t \<noteq> None")
    case False
    then have "m' = m2" using op ret g sc
      by (auto simp: mmr_submitCoin_def m2_def Let_def split: outcome.splits option.splits)
    then show ?thesis using i2 unfolding net_ok_def by blast
  next
    case True
    then obtain x where x: "t = Some x" by blast
    have k: "isInputValid (coin r)" using round_submitCoin_valid sc x by blast
    obtain d where d: "d \<in> bca_decided (round_bca rd1)" and xd: "x = transition d (coin r)" using so x by blast
    have dv: "d \<noteq> bot \<Longrightarrow> isInputValid d" using decided_valid [OF ok i2, of d p r] d by (simp add: at)
    have est: "isInputValid (estimate x)" "estimate x \<in> next_ests coin m2 r"
      using dv k d xd by (auto simp: transition_def next_ests_def at)
    show ?thesis
    proof (cases "decided x \<and> \<not> hasDecided m2")
      case dec: True
      then have m': "m' = fst (chan_put reachedDecision reachedDecision_update (estimate x) (m2\<lparr>hasDecided := True\<rparr>)
          :: mmr \<times> mmr_error outcome)"
        using op g sc True x by (simp add: mmr_submitCoin_def m2_def Let_def)
      have won: "estimate x = d" "d \<noteq> bot" "d = coin r" using dec xd by (auto simp: transition_def split: if_splits)
      have reached: "set (ch_sent (reachedDecision m')) \<subseteq> insert d (set (ch_sent (reachedDecision m2)))"
        "set (ch_sent (reachedDecision m2)) \<subseteq> set (ch_sent (reachedDecision m'))"
        using won(1) by (auto simp: m' fst_chan_put)
      have same: "rounds m' = rounds m2" "mmr_n m' = mmr_n m2" "mmr_f m' = mmr_f m2" "deliverEcho m' = deliverEcho m2"
        "deliverVote m' = deliverVote m2" "deliverBind m' = deliverBind m2" "termGadget m' = termGadget m2"
        "reach_pc m' = reach_pc m2" "deliverDecision m' = deliverDecision m2"
        by (simp_all add: m' fst_chan_put)
      have at2: "round_at m' = round_at m2" by (rule round_at_same) (simp_all add: same)
      have out: "outputs m2 \<subseteq> outputs m'" using reached(2) by (auto simp: outputs_def same)
      have "node_inv c coin (inputs N p) m' (PP p) (FF p) (DD p)"
        by (rule node_inv_rest [OF node2 at2 same(2,3)])
          (use same out reached(1) won d at node_invD(12-14) [OF node2] in \<open>auto simp: fun_upd_def\<close>)
      from aba_rest_change [OF i2, of m' p "DD p"] this at2 same(9) i2 show ?thesis
        by (simp add: set_node_twice aba_inv_def)
    next
      case False
      obtain m3 r3 where wr: "with_round (r + 1) (bca_propose (estimate x) (coin r)) m2 = (m3, r3)" by fastforce
      have "m' = fst (mmr_submitCoin (coin r) r ?m)" using op by simp
      then have m': "m' = m3" using g sc True x False wr
        by (auto simp: mmr_submitCoin_def m2_def Let_def mmr_propose_def)
      have "net_ok c coin ((set_node p m3 (set_node p m2 N))\<lparr>inputs := (inputs (set_node p m2 N))(p := inputs N p)\<rparr>)"
      proof (rule propose_ok [OF ok i2 p])
        show "with_round (r + 1) (bca_propose (estimate x) (coin r)) (mnode (set_node p m2 N) p) = (m3, r3)" using wr by simp
        show "isInputValid (estimate x) \<and> (r + 1 = 0 \<longrightarrow> estimate x \<in> inputs N p)
            \<and> (r + 1 \<noteq> 0 \<longrightarrow> estimate x \<in> next_ests coin (mnode (set_node p m2 N) p) (r + 1 - 1))"
          if "\<nexists>e. r3 = GoErr e"
          using that est first_round_coin [OF node2 _ k] wr by fastforce
      qed simp
      then show ?thesis by (simp add: m' set_node_def)
    qed
  qed
qed

section \<open>Decisions and goroutines\<close>

lemma submitDecision_ok:
  assumes ok: "byz_ok c" and inv: "net_ok c coin N" and x: "x \<in> procs c"
    and ann: "x \<in> correct c \<longrightarrow> v \<in> set (ch_sent (deliverDecision (mnode N x)))"
  shows "net_ok c coin (set_node p (fst (mmr_submitDecision v x (mnode N p))) N)"
proof -
  let ?m = "mnode N p"
  obtain PP FF DD where i: "aba_inv c coin N PP FF DD" using inv by (rule net_okE)
  have node: "node_inv c coin (inputs N p) ?m (PP p) (FF p) (DD p)" using i by (simp add: aba_inv_def)
  obtain t res where td: "term_submitDecision v x (termGadget ?m) = (t, res)" by fastforce
  define m' where "m' = ?m\<lparr>termGadget := t\<rparr>"
  let ?D = "if x \<in> term_received (termGadget ?m) \<or> v \<ge> bot then DD p else insert (x, v) (DD p)"
  note tt = term_submitDecision_inv [OF ok node_invD(12) [OF node] x td]
  have at: "round_at m' = round_at ?m" by (rule round_at_same) (simp_all add: m'_def)
  have out: "outputs ?m \<subseteq> outputs m'" using tt(2) by (auto simp: outputs_def m'_def)
  have n: "node_inv c coin (inputs N p) m' (PP p) (FF p) ?D"
    by (rule node_inv_rest [OF node at]) (use tt(1) out node_invD(13,14) [OF node] in \<open>auto simp: m'_def\<close>)
  have "net_ok c coin (set_node p m' N)"
  proof (rule aba_rest_change [OF i at n])
    show "u \<in> set (ch_sent (deliverDecision (mnode N y)))" if "y \<in> correct c" "(y, u) \<in> ?D" for y u
      using that ann i by (auto simp: aba_inv_def split: if_splits)
  qed (simp add: m'_def)
  then show ?thesis by (simp add: mmr_submitDecision_def td m'_def)
qed

lemma round_at_Some: "rounds m r = Some rd \<Longrightarrow> round_at m r = rd"
  by (simp add: round_at_def)

lemma round_at_put: "round_at (m\<lparr>rounds := (rounds m)(r \<mapsto> rd)\<rparr>) = (round_at m)(r := rd)"
  by (rule round_at_upd) (simp_all add: same_rest_def)

lemma bca_steps_ok:
  assumes ok: "byz_ok c" and i: "aba_inv c coin N PP FF DD" and p: "p \<in> correct c" and st: "bca_steps r (mnode N p) m'"
  shows "net_ok c coin (set_node p m' N)"
proof -
  obtain rd b where rd: "rounds (mnode N p) r = Some rd" and g: "bca_goroutine (round_bca rd) b"
    and m': "m' = (mnode N p)\<lparr>rounds := (rounds (mnode N p))(r \<mapsto> rd\<lparr>round_bca := b\<rparr>)\<rparr>"
    using st by (auto simp: bca_steps_def)
  have w: "with_round r (\<lambda>_. (b, GoNil)) (mnode N p) = (m', GoNil)"
    by (simp add: with_round_def getRound_def rd m')
  have node: "node_inv c coin (inputs N p) (mnode N p) (PP p) (FF p) (DD p)" using i by (simp add: aba_inv_def)
  have g': "bca_goroutine (round_bca (round_at (mnode N p) r)) b" using g rd by (simp add: round_at_Some)
  have V: "net_view N PP FF r p = bca_view (PP p r) (FF p r) (round_bca (round_at (mnode N p) r))"
    by (simp add: net_view_def node_view_def)
  have "bca_inv c (PP p r) (FF p r) b \<and> round_kind r b
      \<and> bca_vstep c (net_view N PP FF r) ((net_view N PP FF r)(p := bca_view (PP p r) (FF p r) b))"
    using rb.run_inv [OF ok node_invD(3) [OF node] g'] kind_kept(6) [OF g'] node_invD(5) [OF node, of r]
      rb.run_vstep [OF ok p V node_invD(3) [OF node] net_evidence(2) [OF i ok] g'] by simp
  then show ?thesis by (intro with_round_step [OF i w]) auto
qed

lemma execRound_net_ok:
  assumes i: "aba_inv c coin N PP FF DD" and st: "mmr_execRound r (mnode N p) = Some m'"
  shows "net_ok c coin (set_node p m' N)"
proof -
  obtain rd rd' where rd: "rounds (mnode N p) r = Some rd" "execRound rd = Some rd'"
    and m': "m' = (mnode N p)\<lparr>rounds := (rounds (mnode N p))(r \<mapsto> rd')\<rparr>"
    using st by (auto simp: mmr_execRound_def split: option.splits)
  have node: "node_inv c coin (inputs N p) (mnode N p) (PP p) (FF p) (DD p)" using i by (simp add: aba_inv_def)
  have at: "round_at (mnode N p) r = rd" using rd by (simp add: round_at_Some)
  note e = execRound_ok [OF node_invD(4) [OF node, of r, unfolded at] rd(2)]
  have "aba_inv c coin (set_node p m' N) PP FF DD"
    by (rule round_quiet [OF i, where r = r and rd = rd'])
      (use e at node_invD(5) [OF node, of r] execRound_kind [OF rd(2)] m' in \<open>simp_all add: round_at_put same_rest_def\<close>)
  then show ?thesis unfolding net_ok_def by blast
qed

text \<open>\<^verbatim>\<open>listenRequests\<close>: a buffer of the round is read, then the value is handed to a delivery channel.\<close>

definition same_but_lists :: "mmr \<Rightarrow> mmr \<Rightarrow> bool" where
  "same_but_lists m m' \<longleftrightarrow> mmr_n m' = mmr_n m \<and> mmr_f m' = mmr_f m \<and> rounds m' = rounds m
     \<and> reachedDecision m' = reachedDecision m \<and> ch_sent (deliverDecision m') = ch_sent (deliverDecision m)
     \<and> termGadget m' = termGadget m \<and> reach_pc m' = reach_pc m"

lemma lists_ok:
  assumes i: "aba_inv c coin N PP FF DD" and same: "same_but_lists (mnode N p) m'"
    and sent: "\<And>v r. (v, r) \<in> set (deliverEcho m') \<Longrightarrow>
        (v, r) \<in> set (deliverEcho (mnode N p)) \<or> v \<in> v_sentEcho (node_view (mnode N p) (PP p) (FF p) r)"
      "\<And>v r. (v, r) \<in> set (deliverVote m') \<Longrightarrow>
        (v, r) \<in> set (deliverVote (mnode N p)) \<or> v \<in> v_sentVote (node_view (mnode N p) (PP p) (FF p) r)"
      "\<And>v r. (v, r) \<in> set (deliverBind m') \<Longrightarrow>
        (v, r) \<in> set (deliverBind (mnode N p)) \<or> v \<in> v_sentBind (node_view (mnode N p) (PP p) (FF p) r)"
  shows "net_ok c coin (set_node p m' N)"
proof -
  have node: "node_inv c coin (inputs N p) (mnode N p) (PP p) (FF p) (DD p)" using i by (simp add: aba_inv_def)
  have at: "round_at m' = round_at (mnode N p)" by (rule round_at_same) (use same in \<open>simp_all add: same_but_lists_def\<close>)
  have out: "outputs m' = outputs (mnode N p)" using same by (simp add: outputs_def same_but_lists_def)
  have n: "node_inv c coin (inputs N p) m' (PP p) (FF p) (DD p)"
  proof (rule node_inv_rest [OF node at _ _ sent])
    show "d \<in> outputs m'" if "reach_pc m' = ROut d" for d
      using that same node_invD(13) [OF node] by (simp add: out same_but_lists_def)
  qed (use same node_invD(12,14) [OF node] in \<open>simp_all add: out same_but_lists_def\<close>)
  show ?thesis by (rule aba_rest_change [OF i at n]) (use same i in \<open>simp_all add: same_but_lists_def aba_inv_def\<close>)
qed

text \<open>The round as it is after the read, and the node with that round.\<close>

lemma listen_read:
  assumes i: "aba_inv c coin N PP FF DD" and rd: "rounds (mnode N p) r = Some rd"
    and q: "quiet (round_bca rd) b" and k: "round_kind r b = round_kind r (round_bca rd)"
    and m1: "m1 = (mnode N p)\<lparr>rounds := (rounds (mnode N p))(r \<mapsto> rd\<lparr>round_bca := b\<rparr>)\<rparr>"
  shows "aba_inv c coin (set_node p m1 N) PP FF DD"
proof -
  have node: "node_inv c coin (inputs N p) (mnode N p) (PP p) (FF p) (DD p)" using i by (simp add: aba_inv_def)
  have at: "round_at (mnode N p) r = rd" using rd by (simp add: round_at_Some)
  show ?thesis
    by (rule round_quiet [OF i, where r = r and rd = "rd\<lparr>round_bca := b\<rparr>"])
      (use q k at node_invD(5) [OF node, of r] m1 exec_ok_bca [OF node_invD(4) [OF node, of r, unfolded at], of b] quiet_decided [OF q]
        in \<open>simp_all add: round_at_put same_rest_def\<close>)
qed

lemma exec_ok_coinReq [simp]: "exec_ok k (rd\<lparr>coinReqChan := ch\<rparr>) = exec_ok k rd"
  by (simp add: exec_ok_def cong: exec_pc.case_cong)

lemma listenRequests_ok:
  assumes i: "aba_inv c coin N PP FF DD" and st: "listenRequests q r (mnode N p) = Some m'"
  shows "net_ok c coin (set_node p m' N)"
proof -
  let ?m = "mnode N p"
  obtain rd where rd: "rounds ?m r = Some rd" using st by (auto simp: listenRequests_def split: if_splits option.splits)
  let ?put = "\<lambda>b. ?m\<lparr>rounds := (rounds ?m)(r \<mapsto> rd\<lparr>round_bca := b\<rparr>)\<rparr>"
  have V: "node_view ?m (PP p) (FF p) r = bca_view (PP p r) (FF p r) (round_bca rd)"
    by (simp add: node_view_def round_at_Some [OF rd])
  have via: "net_ok c coin (set_node p m' N)"
    if q: "quiet (round_bca rd) b" "round_kind r b = round_kind r (round_bca rd)" and s: "same_but_lists (?put b) m'"
      and sub: "\<And>w u. (w, u) \<in> set (deliverEcho m') \<Longrightarrow>
          (w, u) \<in> set (deliverEcho ?m) \<or> u = r \<and> w \<in> v_sentEcho (bca_view (PP p r) (FF p r) (round_bca rd))"
        "\<And>w u. (w, u) \<in> set (deliverVote m') \<Longrightarrow>
          (w, u) \<in> set (deliverVote ?m) \<or> u = r \<and> w \<in> v_sentVote (bca_view (PP p r) (FF p r) (round_bca rd))"
        "\<And>w u. (w, u) \<in> set (deliverBind m') \<Longrightarrow>
          (w, u) \<in> set (deliverBind ?m) \<or> u = r \<and> w \<in> v_sentBind (bca_view (PP p r) (FF p r) (round_bca rd))"
    for b
  proof -
    have Vb: "node_view (?put b) (PP p) (FF p) r = bca_view (PP p r) (FF p r) (round_bca rd)"
      using q(1) by (simp add: node_view_def round_at_put quiet_def)
    have "net_ok c coin (set_node p m' (set_node p (?put b) N))"
    proof (rule lists_ok [OF listen_read [OF i rd q refl]])
      show "same_but_lists (mnode (set_node p (?put b) N) p) m'" using s by simp
    qed (use sub Vb in fastforce)+
    then show ?thesis by (simp add: set_node_twice)
  qed
  show ?thesis
  proof (cases q)
    case ReqEcho
    then obtain v b where t: "takeEcho (round_bca rd) = Some (v, b)" and m': "m' = (?put b)\<lparr>deliverEcho := deliverEcho ?m @ [(v, r)]\<rparr>"
      using st rd by (auto simp: listenRequests_def split: if_splits)
    show ?thesis by (rule via [OF takes_quiet(2) [OF t] kind_kept(8) [OF t]])
        (use m' takes_sent(2) [OF t] in \<open>auto simp: same_but_lists_def\<close>)
  next
    case ReqVote
    then obtain v b where t: "takeVote (round_bca rd) = Some (v, b)" and m': "m' = (?put b)\<lparr>deliverVote := deliverVote ?m @ [(v, r)]\<rparr>"
      using st rd by (auto simp: listenRequests_def split: if_splits)
    show ?thesis by (rule via [OF takes_quiet(3) [OF t] kind_kept(9) [OF t]])
        (use m' takes_sent(3) [OF t] in \<open>auto simp: same_but_lists_def\<close>)
  next
    case ReqBind
    then obtain v b where t: "takeBind (round_bca rd) = Some (v, b)" and m': "m' = (?put b)\<lparr>deliverBind := deliverBind ?m @ [(v, r)]\<rparr>"
      using st rd by (auto simp: listenRequests_def split: if_splits)
    show ?thesis by (rule via [OF takes_quiet(4) [OF t] kind_kept(10) [OF t]])
        (use m' takes_sent(4) [OF t] in \<open>auto simp: same_but_lists_def\<close>)
  next
    case ReqExt
    then obtain v b where t: "takeExternalValid (round_bca rd) = Some (v, b)"
      and m': "m' = (?put b)\<lparr>deliverExternallyValid := deliverExternallyValid ?m @ [(v, r)]\<rparr>"
      using st rd by (auto simp: listenRequests_def split: if_splits)
    show ?thesis by (rule via [OF takes_quiet(5) [OF t] kind_kept(11) [OF t]]) (use m' in \<open>auto simp: same_but_lists_def\<close>)
  next
    case ReqCoin
    then obtain ch where m': "m' = ?m\<lparr>rounds := (rounds ?m)(r \<mapsto> rd\<lparr>coinReqChan := ch\<rparr>), coinReq := coinReq ?m @ [r]\<rparr>"
      using st rd by (auto simp: listenRequests_def split: if_splits)
    have node: "node_inv c coin (inputs N p) ?m (PP p) (FF p) (DD p)" using i by (simp add: aba_inv_def)
    have "aba_inv c coin (set_node p m' N) PP FF DD"
    proof (rule round_quiet [OF i, where r = r and rd = "rd\<lparr>coinReqChan := ch\<rparr>"])
      show r: "same_rest ?m m'" by (simp add: m' same_rest_def)
      show "round_at m' = (round_at ?m)(r := rd\<lparr>coinReqChan := ch\<rparr>)" by (rule round_at_upd [OF r]) (simp add: m')
    qed (use node_invD(4,5) [OF node, of r] in \<open>simp_all add: round_at_Some [OF rd]\<close>)
    then show ?thesis unfolding net_ok_def by blast
  qed
qed

lemma reach_out:
  assumes "reachDecision b m = Some m'"
  shows "rounds m' = rounds m" "mmr_n m' = mmr_n m" "mmr_f m' = mmr_f m" "deliverEcho m' = deliverEcho m"
    "deliverVote m' = deliverVote m" "deliverBind m' = deliverBind m" "outputs m' = outputs m"
    "ch_sent (reachedDecision m') = ch_sent (reachedDecision m)"
    "\<exists>k. termGadget m' = (termGadget m)\<lparr>term_deliverDecision := (term_deliverDecision (termGadget m))\<lparr>ch_taken := k\<rparr>\<rparr>"
    "reach_pc m' = ROut d \<Longrightarrow> d \<in> outputs m"
    "set (ch_sent (deliverDecision m)) \<subseteq> set (ch_sent (deliverDecision m'))"
    "set (ch_sent (deliverDecision m')) \<subseteq> set (ch_sent (deliverDecision m)) \<union> {d. reach_pc m = ROut d}"
proof -
  have "rounds m' = rounds m \<and> mmr_n m' = mmr_n m \<and> mmr_f m' = mmr_f m \<and> deliverEcho m' = deliverEcho m
    \<and> deliverVote m' = deliverVote m \<and> deliverBind m' = deliverBind m \<and> outputs m' = outputs m
    \<and> ch_sent (reachedDecision m') = ch_sent (reachedDecision m)
    \<and> (\<exists>k. termGadget m' = (termGadget m)\<lparr>term_deliverDecision := (term_deliverDecision (termGadget m))\<lparr>ch_taken := k\<rparr>\<rparr>)
    \<and> (\<forall>d. reach_pc m' = ROut d \<longrightarrow> d \<in> outputs m)
    \<and> set (ch_sent (deliverDecision m)) \<subseteq> set (ch_sent (deliverDecision m'))
    \<and> set (ch_sent (deliverDecision m')) \<subseteq> set (ch_sent (deliverDecision m)) \<union> {d. reach_pc m = ROut d}"
  proof (cases "reach_pc m")
    case RWait
    show ?thesis
    proof (cases b)
      case True
      with RWait assms have "recv_then reachedDecision reachedDecision_update (\<lambda>d. reach_pc_update (\<lambda>_. ROut d)) m = Some m'"
        by (simp add: reachDecision_def)
      then show ?thesis by (auto simp: recv_then_def chan_recv_Some outputs_def split: option.splits intro: exI [of _ "ch_taken (term_deliverDecision (termGadget m))"])
    next
      case False
      with RWait assms show ?thesis
        by (auto simp: reachDecision_def chan_recv_Some outputs_def split: option.splits)
    qed
  next
    case (ROut d)
    with assms have "send_then deliverDecision deliverDecision_update d (reach_pc_update (\<lambda>_. RDone)) m = Some m'"
      by (simp add: reachDecision_def)
    then show ?thesis using ROut
      by (auto simp: send_then_def chan_send_def outputs_def split: option.splits if_splits
          intro: exI [of _ "ch_taken (term_deliverDecision (termGadget m))"])
  next
    case RDone
    with assms show ?thesis by (simp add: reachDecision_def)
  qed
  then show "rounds m' = rounds m" "mmr_n m' = mmr_n m" "mmr_f m' = mmr_f m" "deliverEcho m' = deliverEcho m"
    "deliverVote m' = deliverVote m" "deliverBind m' = deliverBind m" "outputs m' = outputs m"
    "ch_sent (reachedDecision m') = ch_sent (reachedDecision m)"
    "\<exists>k. termGadget m' = (termGadget m)\<lparr>term_deliverDecision := (term_deliverDecision (termGadget m))\<lparr>ch_taken := k\<rparr>\<rparr>"
    "reach_pc m' = ROut d \<Longrightarrow> d \<in> outputs m"
    "set (ch_sent (deliverDecision m)) \<subseteq> set (ch_sent (deliverDecision m'))"
    "set (ch_sent (deliverDecision m')) \<subseteq> set (ch_sent (deliverDecision m)) \<union> {d. reach_pc m = ROut d}"
    by blast+
qed

lemma term_inv_taken [simp]:
  "term_inv c D (t\<lparr>term_deliverDecision := (term_deliverDecision t)\<lparr>ch_taken := k\<rparr>\<rparr>) = term_inv c D t"
  by (simp add: term_inv_def)

lemma reachDecision_ok:
  assumes i: "aba_inv c coin N PP FF DD" and st: "reachDecision b (mnode N p) = Some m'"
  shows "net_ok c coin (set_node p m' N)"
proof -
  note r = reach_out [OF st]
  have node: "node_inv c coin (inputs N p) (mnode N p) (PP p) (FF p) (DD p)" using i by (simp add: aba_inv_def)
  have at: "round_at m' = round_at (mnode N p)" by (rule round_at_same) (use r in simp_all)
  obtain k where k: "termGadget m' = (termGadget (mnode N p))\<lparr>term_deliverDecision :=
      (term_deliverDecision (termGadget (mnode N p)))\<lparr>ch_taken := k\<rparr>\<rparr>" using r(9) by blast
  have t: "term_inv c (DD p) (termGadget m')" using node_invD(12) [OF node] by (simp add: k)
  have o: "set (ch_sent (deliverDecision m')) \<subseteq> outputs m'" using r(7,12) node_invD(13,14) [OF node] by auto
  have n: "node_inv c coin (inputs N p) m' (PP p) (FF p) (DD p)"
    by (rule node_inv_rest [OF node at r(2,3) _ _ _ _ t _ o]) (use r in auto)
  show ?thesis by (rule aba_rest_change [OF i at n r(11)]) (use i in \<open>simp add: aba_inv_def\<close>)
qed

lemma listenExternallyValid_ok:
  assumes i: "aba_inv c coin N PP FF DD" and st: "listenExternallyValid (mnode N p) = Some (w, m')"
  shows "net_ok c coin (set_node p m' N)"
  by (rule lists_ok [OF i]) (use st in \<open>auto simp: same_but_lists_def listenExternallyValid_def split: if_splits\<close>)

lemma submitExternallyValid_ok:
  assumes i: "aba_inv c coin N PP FF DD"
  shows "net_ok c coin (set_node p (fst (mmr_submitExternallyValid v r (mnode N p))) N)"
proof -
  obtain m2 res where wr: "with_round (r + 1) (bca_submitExternallyValid v) (mnode N p) = (m2, res)" by fastforce
  have "net_ok c coin (set_node p m2 N)"
    by (rule with_round_quiet [OF i, where r = "r + 1" and oper = "bca_submitExternallyValid v" and res = res])
      (use wr externallyValid_quiet kind_kept(5) in auto)
  then show ?thesis by (simp add: mmr_submitExternallyValid_def wr)
qed

lemma goroutine_ok:
  assumes ok: "byz_ok c" and inv: "net_ok c coin N" and p: "p \<in> correct c" and st: "mmr_goroutine (mnode N p) m'"
  shows "net_ok c coin (set_node p m' N)"
proof -
  obtain PP FF DD where i: "aba_inv c coin N PP FF DD" using inv by (rule net_okE)
  have "net_ok c coin (set_node p (mmr_close (mnode N p)) N)"
    by (rule lists_ok [OF i]) (auto simp: same_but_lists_def mmr_close_def)
  moreover have "net_ok c coin (set_node p m' N)" if "mmr_takeDecision (mnode N p) = Some (d, m')" for d
    by (rule lists_ok [OF i])
      (use that in \<open>auto simp: same_but_lists_def mmr_takeDecision_def chan_recv_Some split: option.splits\<close>)
  ultimately show ?thesis using st bca_steps_ok [OF ok i p] execRound_net_ok [OF i] listenRequests_ok [OF i]
      reachDecision_ok [OF i] listenExternallyValid_ok [OF i] submitExternallyValid_ok [OF i] unfolding mmr_goroutine_def by blast
qed

section \<open>Every reachable network\<close>

lemma newMMR_round:
  "round_bca (round_at (newMMR n f) r) = (if r = 0 then IV (newBCA n f) else EV (newEVBCA n f))"
  "exec_ok k (round_at (newMMR n f) r)"
  by (simp_all add: round_at_def newMMR_def initFirstRound_def firstRound_def newFirstRound_def newRound_def exec_ok_def)

lemma net_ok_init:
  assumes ok: "byz_ok c"
  shows "net_ok c coin (aba_init c)"
proof -
  let ?m = "newMMR (cfg_n c) (cfg_f c)"
  have fresh: "bca_fresh c (round_bca (round_at ?m r))" for r by (simp add: newMMR_round)
  have node: "node_inv c coin {} ?m (\<lambda>_. {}) (\<lambda>_. {}) {}"
    using rb.fresh_inv [OF ok fresh] unfolding node_inv_def
    by (simp add: newMMR_round) (simp add: newMMR_def initFirstRound_def term_inv_init)
  have "net_view (aba_init c) (\<lambda>_ _. {}) (\<lambda>_ _. {}) r = (\<lambda>_. init_view)" for r
    using rb.fresh_view [OF fresh] by (intro ext) (simp add: net_view_def node_view_def aba_init_def)
  then have "aba_inv c coin (aba_init c) (\<lambda>_ _. {}) (\<lambda>_ _. {}) (\<lambda>_. {})"
    using node by (simp add: aba_inv_def bca_vreach.init) (simp add: aba_init_def)
  then show ?thesis unfolding net_ok_def by blast
qed

lemma propose_net_ok:
  assumes ok: "byz_ok c" and inv: "net_ok c coin N" and p: "p \<in> correct c"
  shows "net_ok c coin ((set_node p (fst (concurrent_propose est (mnode N p))) N)
    \<lparr>inputs := (inputs N)(p := insert est (inputs N p))\<rparr>)"
proof -
  obtain PP FF DD where i: "aba_inv c coin N PP FF DD" using inv by (rule net_okE)
  have node: "node_inv c coin (inputs N p) (mnode N p) (PP p) (FF p) (DD p)" using i by (simp add: aba_inv_def)
  obtain m' res where wr: "with_round 0 (bca_propose est bot) (mnode N p) = (m', res)" by fastforce
  have "isInputValid est" if "\<nexists>e. res = GoErr e"
    using with_round_at(1) [OF wr] node_invD(5) [OF node, of 0] that
    by (cases "round_bca (round_at (mnode N p) 0)") (auto simp: iv_propose_def apfst_eq split: if_splits)
  then have "net_ok c coin ((set_node p m' N)\<lparr>inputs := (inputs N)(p := insert est (inputs N p))\<rparr>)"
    by (intro propose_ok [OF ok i p wr]) auto
  then show ?thesis by (simp add: concurrent_propose_def mmr_propose_def firstRound_def wr)
qed

lemma reach_net_ok:
  assumes ok: "byz_ok c" and "aba_reach c coin N"
  shows "net_ok c coin N"
  using assms(2)
proof (induction rule: aba_reach.induct)
  case init
  show ?case by (rule net_ok_init [OF ok])
next
  case (step N M)
  from step.hyps(2) step.IH show ?case
    by (cases rule: aba_step.cases)
      (auto intro: propose_net_ok [OF ok] submitEcho_ok [OF ok] submitVote_ok [OF ok] submitBind_ok [OF ok]
        submitCoin_ok [OF ok] submitDecision_ok [OF ok] goroutine_ok [OF ok])
qed

end
