(* ===== verification/MMR_Properties.thy ===== *)
theory MMR_Properties
  imports MMR_Steps
begin

text \<open>
  The correctness of the binary agreement (\<^verbatim>\<open>asynchronousBinaryAgreement\<close>): the decisions of one round
  agree, a round decided with its coin fixes every later round, and so the values handed to
  \<^verbatim>\<open>deliverDecision\<close> agree, were proposed by a correct node and are handed over once.
\<close>

section \<open>Decisions of rounds\<close>

definition round_decided :: "aba_net \<Rightarrow> uuid \<Rightarrow> uint16 \<Rightarrow> byte set" where
  "round_decided N p r = bca_decided (round_bca (round_at (mnode N p) r))"

lemma round_decided_view: "round_decided N p r = v_decided (net_view N PP FF r p)"
  by (simp add: round_decided_def net_view_def node_view_def)

lemma round_crusader:
  assumes "byz_ok c" and "aba_inv c coin N PP FF DD" and "p \<in> correct c" "q \<in> correct c"
    and "v \<in> round_decided N p r" "v \<noteq> bot" "u \<in> round_decided N q r" "u \<noteq> bot"
  shows "u = v"
  using vreach_crusader [OF _ assms(1,3,4), of "net_view N PP FF r"] assms
  by (simp add: aba_inv_def round_decided_view [of N _ r PP FF])

text \<open>Every correct node proposed at most \<open>v\<close> in the round: then the round decides nothing else.\<close>

definition all_propose :: "net_cfg \<Rightarrow> (uuid \<Rightarrow> uint16 \<Rightarrow> byte set) \<Rightarrow> uint16 \<Rightarrow> byte \<Rightarrow> bool" where
  "all_propose c PP r v \<longleftrightarrow> (\<forall>p \<in> correct c. PP p r \<subseteq> {v})"

lemma round_unanimous:
  assumes ok: "byz_ok c" and i: "aba_inv c coin N PP FF DD" and v: "isInputValid v"
    and all: "all_propose c PP r v" and p: "p \<in> correct c"
  shows "round_decided N p r \<subseteq> {v}"
proof -
  have "only_proposed c (net_view N PP FF r) v"
    using all by (simp add: only_proposed_def all_propose_def net_view_def node_view_def rb.view_proposed)
  with vreach_unanimity [OF _ ok _ v p, of "net_view N PP FF r"] i show ?thesis
    by (auto simp: aba_inv_def round_decided_view [of N p r PP FF] only_sent_def)
qed

text \<open>The next round proposes only what this round's decisions and coin allow.\<close>

lemma proposes_next:
  assumes i: "aba_inv c coin N PP FF DD" and r: "r + 1 \<noteq> 0"
    and dec: "\<And>p d. p \<in> correct c \<Longrightarrow> d \<in> round_decided N p r \<Longrightarrow> estimate (transition d (coin r)) = v"
  shows "all_propose c PP (r + 1) v"
proof -
  have "PP p (r + 1) \<subseteq> next_ests coin (mnode N p) r" for p
    using node_invD(7) [of c coin "inputs N p" "mnode N p" "PP p" "FF p" "DD p", OF _ r] i by (simp add: aba_inv_def)
  then show ?thesis using dec unfolding all_propose_def next_ests_def round_decided_def by blast
qed

lemma unanimous_transition: "isInputValid v \<Longrightarrow> estimate (transition v k) = v"
  by (auto simp: transition_def)

lemma unat_suc16: "r + 1 \<noteq> (0 :: uint16) \<Longrightarrow> unat (r + 1) = Suc (unat r)"
  using unatSuc [of r] by (simp add: add.commute)

text \<open>Once every correct node proposes only \<open>v\<close> in a round, that holds in all later rounds too.\<close>

lemma proposes_later:
  assumes ok: "byz_ok c" and i: "aba_inv c coin N PP FF DD" and v: "isInputValid v"
    and "all_propose c PP r v" and "unat q = unat r + k"
  shows "all_propose c PP q v"
  using assms(5)
proof (induction k arbitrary: q)
  case 0
  then have "q = r" by (simp add: word_unat_eq_iff)
  then show ?case using assms(4) by simp
next
  case (Suc k)
  then have q: "q \<noteq> 0" by auto
  then have "unat (q - 1) = unat r + k" using Suc.prems by (simp add: unat_minus_one)
  from Suc.IH [OF this] have "all_propose c PP (q - 1) v" .
  from round_unanimous [OF ok i v this] have "all_propose c PP (q - 1 + 1) v"
    using q unanimous_transition [OF v] by (intro proposes_next [OF i]) auto
  then show ?case by simp
qed

text \<open>A round decided with its coin: every later round decides that value or nothing.\<close>

lemma decided_later:
  assumes ok: "byz_ok c" and i: "aba_inv c coin N PP FF DD" and p: "p \<in> correct c" and q: "q \<in> correct c"
    and v: "v \<in> round_decided N p r" "v \<noteq> bot" "v = coin r" and r: "unat r < unat r'"
  shows "round_decided N q r' \<subseteq> {v}"
proof -
  have valid: "isInputValid v" using decided_valid [OF ok i] v by (simp add: round_decided_def)
  have next0: "r + 1 \<noteq> 0"
  proof
    assume "r + 1 = 0"
    then have "r = - 1" by (simp add: eq_neg_iff_add_eq_0)
    then have "r' \<le> r" by simp
    then show False using r by (simp add: word_le_nat_alt)
  qed
  have "all_propose c PP (r + 1) v"
  proof (rule proposes_next [OF i next0])
    show "estimate (transition d (coin r)) = v" if "x \<in> correct c" "d \<in> round_decided N x r" for x d
      using round_crusader [OF ok i p that(1) v(1,2) that(2)] v(3) by (simp add: transition_def)
  qed
  from proposes_later [OF ok i valid this, of r' "unat r' - Suc (unat r)"] r
  have "all_propose c PP r' v" by (simp add: unat_suc16 [OF next0])
  from round_unanimous [OF ok i valid this q] show ?thesis .
qed

lemma reached_agree:
  assumes ok: "byz_ok c" and i: "aba_inv c coin N PP FF DD" and pq: "p \<in> correct c" "q \<in> correct c"
    and v: "v \<in> set (ch_sent (reachedDecision (mnode N p)))" and u: "u \<in> set (ch_sent (reachedDecision (mnode N q)))"
  shows "u = v"
proof -
  have node: "node_inv c coin (inputs N x) (mnode N x) (PP x) (FF x) (DD x)" for x using i by (simp add: aba_inv_def)
  obtain r where r: "v \<in> round_decided N p r" "v \<noteq> bot" "v = coin r"
    using node_invD(11) [OF node v] by (auto simp: round_decided_def)
  obtain r' where r': "u \<in> round_decided N q r'" "u \<noteq> bot" "u = coin r'"
    using node_invD(11) [OF node u] by (auto simp: round_decided_def)
  consider "unat r < unat r'" | "unat r' < unat r" | "r = r'" using word_unat_eq_iff by (metis linorder_neqE_nat)
  then show ?thesis
  proof cases
    case 1
    then show ?thesis using decided_later [OF ok i pq r] r' by blast
  next
    case 2
    then show ?thesis using decided_later [OF ok i pq(2,1) r'] r by blast
  next
    case 3
    then show ?thesis using r r' by simp
  qed
qed

section \<open>What a node outputs\<close>

text \<open>
  Nothing but a step of \<^verbatim>\<open>reachDecision\<close> touches \<^verbatim>\<open>deliverDecision\<close>, and what rounds have reached is never
  withdrawn.
\<close>

definition out_frame :: "mmr \<Rightarrow> mmr \<Rightarrow> bool" where
  "out_frame m m' \<longleftrightarrow> set (ch_sent (reachedDecision m)) \<subseteq> set (ch_sent (reachedDecision m'))
     \<and> (reach_pc m' = reach_pc m \<and> ch_sent (deliverDecision m') = ch_sent (deliverDecision m) \<or> (\<exists>b. reachDecision b m = Some m'))"

lemma same_rest_frame: "same_rest m m' \<Longrightarrow> out_frame m m'"
  by (simp add: same_rest_def out_frame_def)

lemma with_round_frame: "out_frame m (fst (with_round r oper m))"
  using with_round_at(3) [of r oper m "fst (with_round r oper m)" "snd (with_round r oper m)"]
  by (simp add: same_rest_frame)

lemma submitCoin_frame: "out_frame m (fst (mmr_submitCoin k r m))"
proof -
  obtain m1 rd where g: "getRound r m = (m1, rd)" by fastforce
  obtain rd1 t oc where sc: "round_submitCoin k rd = ((rd1, t), oc)" by (metis prod.exhaust)
  define m2 where "m2 = m1\<lparr>rounds := (rounds m1)(r \<mapsto> rd1)\<rparr>"
  have s: "same_rest m m2" using getRound_rest [of m r] g by (simp add: same_rest_def m2_def)
  have wr: "same_rest m2 (fst (with_round q oper m2))" for q oper
    using with_round_at(3) [of q oper m2 "fst (with_round q oper m2)" "snd (with_round q oper m2)"] by simp
  have unfolded: "fst (mmr_submitCoin k r m) =
      (if oc = GoNil \<and> t \<noteq> None
       then if decided (the t) \<and> \<not> hasDecided m2
         then fst (chan_put reachedDecision reachedDecision_update (estimate (the t)) (m2\<lparr>hasDecided := True\<rparr>)
           :: mmr \<times> mmr_error outcome)
         else fst (with_round (r + 1) (bca_propose (estimate (the t)) k) m2)
       else m2)"
    by (cases oc; cases t) (simp_all add: mmr_submitCoin_def g sc Let_def m2_def mmr_propose_def)
  show ?thesis unfolding unfolded
    using s wr [of "r + 1" "bca_propose (estimate (the t)) k"] by (auto simp: out_frame_def same_rest_def fst_chan_put)
qed

lemma goroutine_frame: "mmr_goroutine m m' \<Longrightarrow> out_frame m m'"
proof -
  assume "mmr_goroutine m m'"
  then consider r where "bca_steps r m m'" | r where "mmr_execRound r m = Some m'"
    | q r where "listenRequests q r m = Some m'" | b where "reachDecision b m = Some m'"
    | w where "listenExternallyValid m = Some (w, m')" | v r where "m' = fst (mmr_submitExternallyValid v r m)"
    | "mmr_close m = m'" | d where "mmr_takeDecision m = Some (d, m')"
    unfolding mmr_goroutine_def by blast
  then show ?thesis
  proof cases
    case (3 q r)
    then show ?thesis
      by (cases q) (auto simp: listenRequests_def out_frame_def split: if_splits option.splits)
  next
    case (4 b)
    then show ?thesis using reach_out(8) [OF 4] by (auto simp: out_frame_def)
  next
    case (5 w)
    then show ?thesis by (auto simp: listenExternallyValid_def out_frame_def split: if_splits)
  next
    case (6 v r)
    then show ?thesis using with_round_frame [of m "r + 1" "bca_submitExternallyValid v"]
        with_round_at(3) [of "r + 1" "bca_submitExternallyValid v" m m']
      by (auto simp: mmr_submitExternallyValid_def out_frame_def same_rest_def prod_eq_iff)
  qed (auto simp: out_frame_def bca_steps_def mmr_execRound_def mmr_close_def mmr_takeDecision_def chan_recv_Some split: option.splits)
qed

lemma step_frame:
  assumes "aba_step c coin N M"
  shows "out_frame (mnode N p) (mnode M p)"
  using assms
proof cases
  case (coin q r m' res)
  then show ?thesis using submitCoin_frame [of "mnode N q" "coin r" r] by (auto simp: out_frame_def)
next
  case (decision q x v)
  then show ?thesis by (auto simp: out_frame_def mmr_submitDecision_def split: prod.splits)
next
  case (goroutine q m')
  then show ?thesis using goroutine_frame [of "mnode N q" m'] by (auto simp: out_frame_def)
qed (use with_round_frame in \<open>auto simp: out_frame_def concurrent_propose_def mmr_propose_def mmr_submitEcho_def
    mmr_submitVote_def mmr_submitBind_def\<close>)

text \<open>Some correct node reached \<open>v\<close> in a round.\<close>

definition won :: "net_cfg \<Rightarrow> aba_net \<Rightarrow> byte \<Rightarrow> bool" where
  "won c N v \<longleftrightarrow> (\<exists>q \<in> correct c. v \<in> set (ch_sent (reachedDecision (mnode N q))))"

lemma frame_outputs:
  "out_frame m m' \<Longrightarrow> outputs m' = outputs m \<or> ch_sent (deliverDecision m') = ch_sent (deliverDecision m)"
  by (auto simp: out_frame_def dest: reach_out(7))

lemma outputs_won:
  assumes ok: "byz_ok c" and "aba_reach c coin N"
  shows "p \<in> correct c \<Longrightarrow> v \<in> outputs (mnode N p) \<Longrightarrow> won c N v"
  using assms(2)
proof (induction arbitrary: p v rule: aba_reach.induct)
  case init
  then show ?case by (simp add: aba_init_def newMMR_def initFirstRound_def outputs_def newMmrTermination_def)
next
  case (step N M)
  have frame: "out_frame (mnode N x) (mnode M x)" for x by (rule step_frame [OF step.hyps(2)])
  have mono: "won c N u \<Longrightarrow> won c M u" for u using frame unfolding won_def out_frame_def by blast
  obtain PP FF DD where i: "aba_inv c coin N PP FF DD"
    using reach_net_ok [OF ok step.hyps(1)] by (auto simp: net_ok_def)
  have old: "won c N u" if "x \<in> correct c" "u \<in> set (ch_sent (deliverDecision (mnode N x)))" for x u
    using step.IH [of x u] that node_invD(14) i by (fastforce simp: aba_inv_def)
  obtain PP' FF' DD' where i': "aba_inv c coin M PP' FF' DD'"
    using reach_net_ok [OF ok aba_reach.step [OF step.hyps]] by (auto simp: net_ok_def)
  show ?case
  proof (cases "outputs (mnode M p) = outputs (mnode N p) \<or> v \<in> set (ch_sent (reachedDecision (mnode M p)))")
    case True
    then show ?thesis using step.IH [OF step.prems(1)] step.prems mono unfolding won_def by blast
  next
    case False
    then have gadget: "v \<in> set (ch_sent (term_deliverDecision (termGadget (mnode M p))))"
      using step.prems(2) by (auto simp: outputs_def)
    have t: "term_inv c (DD' p) (termGadget (mnode M p))" using i' node_invD(12) by (fastforce simp: aba_inv_def)
    then have "weak_quorum c (announced (DD' p) v)" "announced (DD' p) v \<subseteq> procs c"
      using gadget announced_sub by (auto simp: term_inv_def)
    from byzq.weak_correct [OF ok this] obtain x where x: "x \<in> correct c" "(x, v) \<in> DD' p" by (auto simp: announced_def)
    then have new: "v \<in> set (ch_sent (deliverDecision (mnode M x)))" using i' by (auto simp: aba_inv_def)
    show ?thesis
    proof (cases "ch_sent (deliverDecision (mnode M x)) = ch_sent (deliverDecision (mnode N x))")
      case True
      then show ?thesis using old [OF x(1)] new mono by simp
    next
      case False
      then have "outputs (mnode M x) = outputs (mnode N x)" using frame_outputs [OF frame] by blast
      moreover have "v \<in> outputs (mnode M x)" using new i' node_invD(14) by (fastforce simp: aba_inv_def)
      ultimately show ?thesis using step.IH [OF x(1)] mono by blast
    qed
  qed
qed

lemma delivered_won:
  assumes ok: "byz_ok c" and r: "aba_reach c coin N" and p: "p \<in> correct c"
    and v: "v \<in> set (ch_sent (deliverDecision (mnode N p)))"
  shows "won c N v"
proof -
  obtain PP FF DD where "aba_inv c coin N PP FF DD" using reach_net_ok [OF ok r] by (auto simp: net_ok_def)
  then have "v \<in> outputs (mnode N p)" using v node_invD(14) by (fastforce simp: aba_inv_def)
  then show ?thesis by (rule outputs_won [OF ok r p])
qed

section \<open>Agreement, validity and integrity\<close>

lemma aba_agree:
  assumes "byz_ok c" and "aba_reach c coin N" and "p \<in> correct c" and "q \<in> correct c"
    and "v \<in> set (ch_sent (deliverDecision (mnode N p)))" and "u \<in> set (ch_sent (deliverDecision (mnode N q)))"
  shows "u = v"
proof -
  obtain PP FF DD where i: "aba_inv c coin N PP FF DD" using reach_net_ok [OF assms(1,2)] by (auto simp: net_ok_def)
  obtain x y where "x \<in> correct c" "v \<in> set (ch_sent (reachedDecision (mnode N x)))"
    and "y \<in> correct c" "u \<in> set (ch_sent (reachedDecision (mnode N y)))"
    using delivered_won [OF assms(1-3,5)] delivered_won [OF assms(1,2,4,6)] by (auto simp: won_def)
  then show ?thesis using reached_agree [OF assms(1) i] by blast
qed

lemma aba_valid:
  assumes ok: "byz_ok c" and r: "aba_reach c coin N" and p: "p \<in> correct c"
    and v: "v \<in> set (ch_sent (deliverDecision (mnode N p)))"
  shows "isInputValid v \<and> (\<exists>q \<in> correct c. v \<in> inputs N q)"
proof -
  obtain PP FF DD where i: "aba_inv c coin N PP FF DD" using reach_net_ok [OF ok r] by (auto simp: net_ok_def)
  have node: "node_inv c coin (inputs N x) (mnode N x) (PP x) (FF x) (DD x)" for x using i by (simp add: aba_inv_def)
  obtain q where q: "q \<in> correct c" "v \<in> set (ch_sent (reachedDecision (mnode N q)))"
    using delivered_won [OF ok r p v] by (auto simp: won_def)
  obtain k where k: "v \<in> round_decided N q k" "v \<noteq> bot"
    using node_invD(11) [OF node q(2)] by (auto simp: round_decided_def)
  have valid: "isInputValid v" using decided_valid [OF ok i] k by (simp add: round_decided_def)
  have "\<exists>x \<in> correct c. v \<in> inputs N x"
  proof (rule ccontr)
    assume none: "\<not> ?thesis"
    have other: "isInputValid (1 - v)" "v \<noteq> 1 - v" using valid by (auto simp: isInputValid_def)
    have "u = 1 - v" if "isInputValid u" "u \<noteq> v" for u using that valid by (auto simp: isInputValid_def)
    then have "all_propose c PP 0 (1 - v)"
      using none node_invD(6,15) [OF node] unfolding all_propose_def by blast
    from proposes_later [OF ok i other(1) this, of k "unat k"] have "all_propose c PP k (1 - v)" by simp
    from round_unanimous [OF ok i other(1) this q(1)] show False using k(1) other(2) by blast
  qed
  with valid show ?thesis by blast
qed

text \<open>
  What a binary agreement promises its user, for the nodes of a set: the values decided agree, and
  each was proposed.
\<close>

locale aba_service =
  fixes reach :: "'net \<Rightarrow> bool" and nodes :: "uuid set"
    and proposed :: "'net \<Rightarrow> uuid \<Rightarrow> byte set" and decides :: "'net \<Rightarrow> uuid \<Rightarrow> byte set"
  assumes agree: "\<lbrakk>reach N; p \<in> nodes; q \<in> nodes; v \<in> decides N p; u \<in> decides N q\<rbrakk> \<Longrightarrow> u = v"
    and valid: "\<lbrakk>reach N; p \<in> nodes; v \<in> decides N p\<rbrakk> \<Longrightarrow> isInputValid v \<and> (\<exists>q \<in> nodes. v \<in> proposed N q)"
begin

lemma unanimous: "\<lbrakk>reach N; p \<in> nodes; \<And>q. q \<in> nodes \<Longrightarrow> proposed N q \<subseteq> {v}\<rbrakk> \<Longrightarrow> decides N p \<subseteq> {v}"
  using valid by blast

lemma rejected_proposed:
  assumes "reach N" "p \<in> nodes" "v \<in> decides N p" "v \<noteq> 1"
  obtains q where "q \<in> nodes" "0 \<in> proposed N q"
  using valid [OF assms(1-3)] assms(4) by (auto simp: isInputValid_def)

end

definition aba_decides :: "aba_net \<Rightarrow> uuid \<Rightarrow> byte set" where
  "aba_decides N p = set (ch_sent (deliverDecision (mnode N p)))"

interpretation mmr_service: aba_service "\<lambda>N. byz_ok c \<and> aba_reach c coin N" "correct c" inputs aba_decides for c coin
  by unfold_locales (use aba_agree aba_valid in \<open>auto simp: aba_decides_def\<close>)

text \<open>
  C7. Agreement: two correct nodes never hand different decisions to \<^verbatim>\<open>deliverDecision\<close>, whatever the
  Byzantine nodes send, in whatever order messages arrive, and in whatever rounds the nodes decide.
\<close>

theorem aba_agreement:
  assumes "byz_ok c" and "aba_reach c coin N" and "p \<in> correct c" and "q \<in> correct c"
    and "v \<in> set (ch_sent (deliverDecision (mnode N p)))" and "u \<in> set (ch_sent (deliverDecision (mnode N q)))"
  shows "u = v"
  using mmr_service.agree [of c coin N p q v u] assms by (simp add: aba_decides_def)

text \<open>
  C8. Validity: a decision of a correct node is a bit that some correct node gave to
  \<^verbatim>\<open>concurrentMMR.propose\<close>.
\<close>

theorem aba_validity:
  assumes "byz_ok c" and "aba_reach c coin N" and "p \<in> correct c"
    and "v \<in> set (ch_sent (deliverDecision (mnode N p)))"
  shows "isInputValid v \<and> (\<exists>q \<in> correct c. v \<in> inputs N q)"
  using mmr_service.valid [of c coin N p v] assms by (simp add: aba_decides_def)

definition out_once :: "mmr \<Rightarrow> bool" where
  "out_once m \<longleftrightarrow> length (ch_sent (deliverDecision m)) = (if reach_pc m = RDone then 1 else 0)"

lemma reachDecision_once: "out_once m \<Longrightarrow> reachDecision b m = Some m' \<Longrightarrow> out_once m'"
  by (cases "reach_pc m")
    (auto simp: reachDecision_def out_once_def send_then_def recv_then_def chan_send_def split: option.splits if_splits)

text \<open>Integrity: a node hands over at most one decision.\<close>

theorem aba_integrity:
  assumes "aba_reach c coin N"
  shows "length (ch_sent (deliverDecision (mnode N p))) \<le> 1"
proof -
  have "out_once (mnode N p)" using assms
  proof (induction rule: aba_reach.induct)
    case init
    then show ?case by (simp add: aba_init_def newMMR_def initFirstRound_def out_once_def)
  next
    case (step N M)
    from step_frame [OF step.hyps(2), of p] step.IH show ?case
      using reachDecision_once [of "mnode N p" _ "mnode M p"] by (auto simp: out_frame_def out_once_def)
  qed
  then show ?thesis by (simp add: out_once_def split: if_splits)
qed

text \<open>
  C19. Crusader agreement: in every round the decisions of the round's binding crusader agreement at two
  correct nodes, other than \<open>bot\<close>, are the same bit.
\<close>

theorem round_crusader_agreement:
  assumes "byz_ok c" and "aba_reach c coin N" and "p \<in> correct c" and "q \<in> correct c"
    and "v \<in> round_decided N p r" and "v \<noteq> bot" and "u \<in> round_decided N q r" and "u \<noteq> bot"
  shows "u = v \<and> isInputValid v"
proof -
  obtain PP FF DD where i: "aba_inv c coin N PP FF DD" using reach_net_ok [OF assms(1,2)] by (auto simp: net_ok_def)
  show ?thesis using round_crusader [OF assms(1) i assms(3-8)] decided_valid [OF assms(1) i] assms(5,6)
    by (auto simp: round_decided_def)
qed

text \<open>
  C20. Binding: in the first round two correct nodes never send different bind messages other than
  \<open>bot\<close>, so the value the round can still decide is fixed before any coin is revealed.
\<close>

theorem first_round_binding:
  assumes "byz_ok c" and "aba_reach c coin N" and "p \<in> correct c" and "q \<in> correct c"
    and "(v, 0) \<in> set (deliverBind (mnode N p))" and "v \<noteq> bot"
    and "(u, 0) \<in> set (deliverBind (mnode N q))" and "u \<noteq> bot"
  shows "u = v"
proof -
  obtain PP FF DD where i: "aba_inv c coin N PP FF DD" using reach_net_ok [OF assms(1,2)] by (auto simp: net_ok_def)
  have node: "node_inv c coin (inputs N x) (mnode N x) (PP x) (FF x) (DD x)" for x using i by (simp add: aba_inv_def)
  have slow: "v_fast (net_view N PP FF 0 x) = {}" for x
    using node_invD(3,5) [OF node [of x], of 0]
    by (cases "round_bca (round_at (mnode N x) 0)") (auto simp: net_view_def node_view_def bca_view_of_def)
  have "v \<in> v_sentBind (net_view N PP FF 0 p)" "u \<in> v_sentBind (net_view N PP FF 0 q)"
    using node_invD(10) [OF node] assms(5,7) by (auto simp: net_view_def)
  with vreach_binding [of c "net_view N PP FF 0", OF _ assms(1,3,4) slow slow] i assms(6,8) show ?thesis
    by (simp add: aba_inv_def)
qed

text \<open>
  C27. The values a correct node sends are well typed in every round: echoes and votes are bits, binds
  are bits or \<open>bot\<close>, decisions are bits; and in one round it never sends two different votes or two
  different binds.
\<close>

theorem aba_value_types:
  assumes "byz_ok c" and "aba_reach c coin N" and "p \<in> correct c"
  shows "(\<forall>(v, r) \<in> set (deliverEcho (mnode N p)). isInputValid v)
    \<and> (\<forall>(v, r) \<in> set (deliverVote (mnode N p)). isInputValid v \<and> (\<forall>u. (u, r) \<in> set (deliverVote (mnode N p)) \<longrightarrow> u = v))
    \<and> (\<forall>(v, r) \<in> set (deliverBind (mnode N p)). v \<le> bot \<and> (\<forall>u. (u, r) \<in> set (deliverBind (mnode N p)) \<longrightarrow> u = v))
    \<and> (\<forall>v \<in> set (ch_sent (deliverDecision (mnode N p))). isInputValid v)"
proof -
  obtain PP FF DD where i: "aba_inv c coin N PP FF DD" using reach_net_ok [OF assms(1,2)] by (auto simp: net_ok_def)
  have node: "node_inv c coin (inputs N p) (mnode N p) (PP p) (FF p) (DD p)" using i by (simp add: aba_inv_def)
  have ev: "bca_evidence c (net_view N PP FF r p)" for r by (rule net_evidence(1) [OF i assms(1)])
  have nv: "net_view N PP FF r p = node_view (mnode N p) (PP p) (FF p) r" for r by (simp add: net_view_def)
  note ev' = ev [unfolded nv bca_evidence_def]
  have "isInputValid v" if "(v, r) \<in> set (deliverEcho (mnode N p))" for v r
    using node_invD(8) [OF node that] ev' [of r] by blast
  moreover have "isInputValid v \<and> (\<forall>u. (u, r) \<in> set (deliverVote (mnode N p)) \<longrightarrow> u = v)"
    if "(v, r) \<in> set (deliverVote (mnode N p))" for v r
    using node_invD(9) [OF node] that ev' [of r] by blast
  moreover have "v \<le> bot \<and> (\<forall>u. (u, r) \<in> set (deliverBind (mnode N p)) \<longrightarrow> u = v)"
    if "(v, r) \<in> set (deliverBind (mnode N p))" for v r
  proof -
    have sent: "v \<in> v_sentBind (node_view (mnode N p) (PP p) (FF p) r)" using node_invD(10) [OF node that] .
    then have "v = bot \<or> isInputValid v" using ev' [of r] by (metis (no_types, lifting))
    then have "v \<le> bot" by (auto simp: isInputValid_def bot_def)
    then show ?thesis using sent node_invD(10) [OF node] ev' [of r] by blast
  qed
  moreover have "isInputValid v" if "v \<in> set (ch_sent (deliverDecision (mnode N p)))" for v
    using aba_valid [OF assms that] by blast
  ultimately show ?thesis by auto
qed

end
