(* ===== verification/ABA_Channel.thy ===== *)
theory ABA_Channel
  imports ABA_Middleware MMR_Properties
begin

text \<open>
  The binary-agreement channel of a node: \<^verbatim>\<open>asynchronousBinaryAgreement/abaNetworkedInstance.go\<close>, which
  connects one agreement to the network and to the common coin, and \<^verbatim>\<open>abaChannel.go\<close>, which keeps one
  instance per identifier and routes messages to them.  Instances are objects: \<open>abac_store\<close> is the heap,
  the map \<^verbatim>\<open>instances\<close> holds references into it, and a goroutine that will call an operation of an
  instance is an entry of \<open>abac_calls\<close>.  The coin of the coin tosser is the parameter \<open>toss\<close>, a
  Boolean per seed.  \<open>abac_aired\<close> is the history of what was handed to best-effort broadcast, and
  \<open>abac_proposed\<close> of what was proposed to the instances.
\<close>

section \<open>Networked instances\<close>

datatype result_pc = RsDecision | RsOutput byte | RsTerm | RsDone

record AbaInstance =
  aba_id :: uuid
  aba_mmr :: mmr
  echo_taken :: nat
  vote_taken :: nat
  bind_taken :: nat
  coin_taken :: nat
  coin_wait :: "uint16 list"
  decisionChan :: "byte chan"
  terminatedChan :: "unit chan"
  aba_output :: "byte chan"
  result_pc :: result_pc
  listener_on :: bool

definition newAbaNetworkedInstance :: "uuid \<Rightarrow> uint \<Rightarrow> uint \<Rightarrow> AbaInstance" where
  "newAbaNetworkedInstance i n f = \<lparr>aba_id = i, aba_mmr = newMMR n f, echo_taken = 0, vote_taken = 0,
     bind_taken = 0, coin_taken = 0, coin_wait = [], decisionChan = make_chan 1, terminatedChan = make_chan 1,
     aba_output = make_chan 1, result_pc = RsDecision, listener_on = True\<rparr>"

definition makeCoinSeed :: "uuid \<Rightarrow> uint16 \<Rightarrow> bytes" where
  "makeCoinSeed i r = uuid_bytes i @ put_uint16 r"

definition getCoin :: "(bytes \<Rightarrow> bool) \<Rightarrow> uuid \<Rightarrow> uint16 \<Rightarrow> byte" where
  "getCoin toss i r = (if toss (makeCoinSeed i r) then 1 else 0)"

text \<open>An error that the caller logs and drops.\<close>

definition logged :: "'e outcome \<Rightarrow> 'e outcome" where
  "logged r = (case r of GoErr e \<Rightarrow> GoNil | _ \<Rightarrow> r)"

section \<open>The channel\<close>

datatype aba_call = CallMsg abaMsg | CallTerm terminationMsg

record 'pk AbaChannel =
  abac_n :: uint
  abac_f :: uint
  abac_instances :: "uuid \<rightharpoonup> nat"
  abac_finished :: "uuid set"
  abac_store :: "AbaInstance list"
  abac_calls :: "(nat \<times> aba_call) list"
  mBeb :: byte
  tBeb :: byte
  abac_node :: "'pk node"
  abac_aired :: "(byte \<times> bytes) list"
  abac_proposed :: "(uuid \<times> byte) list"

definition NewAbaChannel :: "uint \<Rightarrow> uint \<Rightarrow> byte \<Rightarrow> byte \<Rightarrow> 'pk node \<Rightarrow> 'pk AbaChannel" where
  "NewAbaChannel n f mb tb nd = \<lparr>abac_n = n, abac_f = f, abac_instances = Map.empty, abac_finished = {},
     abac_store = [], abac_calls = [], mBeb = mb, tBeb = tb, abac_node = nd, abac_aired = [],
     abac_proposed = []\<rparr>"

datatype abac_error = AlreadyFinished | DoesNotExist

definition newAbaInstance :: "uuid \<Rightarrow> 'pk AbaChannel \<Rightarrow> 'pk AbaChannel \<times> nat" where
  "newAbaInstance i c =
     (c\<lparr>abac_store := abac_store c @ [newAbaNetworkedInstance i (abac_n c) (abac_f c)],
        abac_instances := (abac_instances c)(i \<mapsto> length (abac_store c))\<rparr>, length (abac_store c))"

definition aba_getInstance :: "uuid \<Rightarrow> 'pk AbaChannel \<Rightarrow> ('pk AbaChannel \<times> nat option) \<times> abac_error outcome" where
  "aba_getInstance i c =
     (if i \<in> abac_finished c then ((c, None), GoErr AlreadyFinished)
      else case abac_instances c i of
        Some ref \<Rightarrow> ((c, Some ref), GoNil)
      | None \<Rightarrow> (case newAbaInstance i c of (c1, ref) \<Rightarrow> ((c1, Some ref), GoNil)))"

text \<open>The reference handed to the caller is nil for a finished instance.\<close>

definition NewAbaInstance :: "uuid \<Rightarrow> 'pk AbaChannel \<Rightarrow> 'pk AbaChannel \<times> nat option" where
  "NewAbaInstance i c = fst (aba_getInstance i c)"

definition processTermMsg :: "terminationMsg \<Rightarrow> 'pk AbaChannel \<Rightarrow> 'pk AbaChannel \<times> abac_error outcome" where
  "processTermMsg t c =
     (case aba_getInstance (tm_instance t) c of
        ((c1, Some ref), GoNil) \<Rightarrow> (c1\<lparr>abac_calls := abac_calls c1 @ [(ref, CallTerm t)]\<rparr>, GoNil)
      | ((c1, _), r) \<Rightarrow> (c1, r))"

definition processMiddlewareMsg :: "abaMsg \<Rightarrow> 'pk AbaChannel \<Rightarrow> 'pk AbaChannel \<times> abac_error outcome" where
  "processMiddlewareMsg m c =
     (case aba_getInstance (abam_instance m) c of
        ((c1, Some ref), GoNil) \<Rightarrow>
          if abam_kind m = aba_echo \<or> abam_kind m = aba_vote \<or> abam_kind m = aba_bind
          then (c1\<lparr>abac_calls := abac_calls c1 @ [(ref, CallMsg m)]\<rparr>, GoNil) else (c1, GoNil)
      | ((c1, _), r) \<Rightarrow> (c1, r))"

definition on_inst :: "nat \<Rightarrow> (AbaInstance \<Rightarrow> AbaInstance) \<Rightarrow> 'pk AbaChannel \<Rightarrow> 'pk AbaChannel" where
  "on_inst ref g c = c\<lparr>abac_store := (abac_store c)[ref := g (abac_store c ! ref)]\<rparr>"

definition closeWrappedInstance :: "uuid \<Rightarrow> 'pk AbaChannel \<Rightarrow> 'pk AbaChannel \<times> abac_error outcome" where
  "closeWrappedInstance i c =
     (if i \<in> abac_finished c then (c, GoErr AlreadyFinished)
      else case abac_instances c i of
        None \<Rightarrow> (c, GoErr DoesNotExist)
      | Some ref \<Rightarrow>
          (on_inst ref (\<lambda>a. a\<lparr>aba_mmr := mmr_close (aba_mmr a), listener_on := False\<rparr>)
             (c\<lparr>abac_finished := insert i (abac_finished c), abac_instances := (abac_instances c)(i := None)\<rparr>), GoNil))"

section \<open>Goroutines\<close>

text \<open>The operation a goroutine calls on its instance; its error is logged.\<close>

fun aba_submit :: "aba_call \<Rightarrow> mmr \<Rightarrow> mmr \<times> mmr_error outcome" where
  "aba_submit (CallMsg m) s =
     (if abam_kind m = aba_echo then mmr_submitEcho (abam_val m) (abam_sender m) (abam_round m) s
      else if abam_kind m = aba_vote then mmr_submitVote (abam_val m) (abam_sender m) (abam_round m) s
      else mmr_submitBind (abam_val m) (abam_sender m) (abam_round m) s)"
| "aba_submit (CallTerm t) s = mmr_submitDecision (tm_decision t) (tm_sender t) s"

definition aba_run_call :: "nat \<Rightarrow> 'pk AbaChannel \<Rightarrow> 'pk AbaChannel" where
  "aba_run_call j c =
     (let (ref, call) = abac_calls c ! j
      in on_inst ref (\<lambda>a. a\<lparr>aba_mmr := fst (aba_submit call (aba_mmr a))\<rparr>)
           (c\<lparr>abac_calls := take j (abac_calls c) @ drop (Suc j) (abac_calls c)\<rparr>))"

definition aba_Propose :: "byte \<Rightarrow> AbaInstance \<Rightarrow> AbaInstance \<times> mmr_error outcome" where
  "aba_Propose est a = (case concurrent_propose est (aba_mmr a) of (m, r) \<Rightarrow> (a\<lparr>aba_mmr := m\<rparr>, r))"

text \<open>\<^verbatim>\<open>Propose\<close> through a reference to an instance of the channel.\<close>

definition aba_Propose_ref :: "nat \<Rightarrow> byte \<Rightarrow> 'pk AbaChannel \<Rightarrow> 'pk AbaChannel \<times> mmr_error outcome" where
  "aba_Propose_ref ref est c =
     (case aba_Propose est (abac_store c ! ref) of
        (a, r) \<Rightarrow> ((on_inst ref (\<lambda>_. a) c)\<lparr>abac_proposed := abac_proposed c @ [(aba_id a, est)]\<rparr>, r))"

definition GetOutput :: "AbaInstance \<Rightarrow> (byte \<times> AbaInstance) option" where
  "GetOutput a = map_option (\<lambda>(v, ch). (v, a\<lparr>aba_output := ch\<rparr>)) (chan_recv (aba_output a))"

text \<open>What the listener broadcasts goes out through best-effort broadcast and into the history.\<close>

definition aba_air ::
  "byte \<Rightarrow> bytes \<Rightarrow> ('pk node \<Rightarrow> 'pk node \<times> 'pk net_error outcome) \<Rightarrow> 'pk AbaChannel \<Rightarrow> 'pk AbaChannel \<times> 'pk net_error outcome"
where
  "aba_air code bs bcast c =
     (case bcast (abac_node c) of
        (nd, r) \<Rightarrow> (c\<lparr>abac_node := nd, abac_aired := abac_aired c @ [(code, bs)]\<rparr>, logged r))"

definition aba_outputDecision :: "nat \<Rightarrow> byte \<Rightarrow> 'pk AbaChannel \<Rightarrow> 'pk AbaChannel \<times> 'pk net_error outcome" where
  "aba_outputDecision ref d c =
     (let a = abac_store c ! ref
      in case chan_send d (decisionChan a) of
           None \<Rightarrow> (c, GoBlocked)
         | Some ch \<Rightarrow> aba_air (tBeb c) (term_wrap (aba_id a) d) (broadcastDecision (tBeb c) (aba_id a) d)
                       (on_inst ref (\<lambda>a. a\<lparr>decisionChan := ch\<rparr>) c))"

datatype listen_case = LsEcho | LsVote | LsBind | LsDecision | LsCoin

definition aba_listener :: "listen_case \<Rightarrow> nat \<Rightarrow> 'pk AbaChannel \<Rightarrow> ('pk AbaChannel \<times> 'pk net_error outcome) option" where
  "aba_listener q ref c =
     (let a = abac_store c ! ref; m = aba_mmr a
      in if \<not> listener_on a then None
         else case q of
           LsEcho \<Rightarrow>
             if echo_taken a < length (deliverEcho m)
             then (let (v, r) = deliverEcho m ! echo_taken a
                   in Some (aba_air (mBeb c) (aba_wrap (aba_id a) aba_echo r v) (aba_broadcastEcho (mBeb c) (aba_id a) r v)
                        (on_inst ref (echo_taken_update Suc) c)))
             else None
         | LsVote \<Rightarrow>
             if vote_taken a < length (deliverVote m)
             then (let (v, r) = deliverVote m ! vote_taken a
                   in Some (aba_air (mBeb c) (aba_wrap (aba_id a) aba_vote r v) (aba_broadcastVote (mBeb c) (aba_id a) r v)
                        (on_inst ref (vote_taken_update Suc) c)))
             else None
         | LsBind \<Rightarrow>
             if bind_taken a < length (deliverBind m)
             then (let (v, r) = deliverBind m ! bind_taken a
                   in Some (aba_air (mBeb c) (aba_wrap (aba_id a) aba_bind r v) (aba_broadcastBind (mBeb c) (aba_id a) r v)
                        (on_inst ref (bind_taken_update Suc) c)))
             else None
         | LsDecision \<Rightarrow>
             (case mmr_takeDecision m of
                None \<Rightarrow> None
              | Some (d, m') \<Rightarrow> Some (aba_outputDecision ref d (on_inst ref (aba_mmr_update (\<lambda>_. m')) c)))
         | LsCoin \<Rightarrow>
             if coin_taken a < length (coinReq m)
             then Some (on_inst ref (\<lambda>a. a\<lparr>coin_taken := Suc (coin_taken a), coin_wait := coin_wait a @ [coinReq m ! coin_taken a]\<rparr>) c, GoNil)
             else None)"

text \<open>The goroutine that waits for the coin of a round submits it; the call takes its step when it returns.\<close>

definition aba_coin :: "(bytes \<Rightarrow> bool) \<Rightarrow> nat \<Rightarrow> nat \<Rightarrow> 'pk AbaChannel \<Rightarrow> 'pk AbaChannel option" where
  "aba_coin toss j ref c =
     (let a = abac_store c ! ref
      in if j < length (coin_wait a)
         then (case mmr_submitCoin (getCoin toss (aba_id a) (coin_wait a ! j)) (coin_wait a ! j) (aba_mmr a) of
                 (m', r) \<Rightarrow>
                   if r = GoBlocked then None
                   else Some (on_inst ref (\<lambda>a. a\<lparr>aba_mmr := m', coin_wait := take j (coin_wait a) @ drop (Suc j) (coin_wait a)\<rparr>) c))
         else None)"

text \<open>\<^verbatim>\<open>handleAsyncResultDelivery\<close>: the decision becomes the output; then it waits for termination.\<close>

definition handleAsyncResultDelivery :: "nat \<Rightarrow> 'pk AbaChannel \<Rightarrow> 'pk AbaChannel option" where
  "handleAsyncResultDelivery ref c =
     (let a = abac_store c ! ref
      in case result_pc a of
           RsDecision \<Rightarrow>
             map_option (\<lambda>a'. on_inst ref (\<lambda>_. a') c) (recv_then decisionChan decisionChan_update (\<lambda>d. result_pc_update (\<lambda>_. RsOutput d)) a)
         | RsOutput d \<Rightarrow>
             map_option (\<lambda>a'. on_inst ref (\<lambda>_. a') c) (send_then aba_output aba_output_update d (result_pc_update (\<lambda>_. RsTerm)) a)
         | RsTerm \<Rightarrow>
             map_option (\<lambda>a'. fst (closeWrappedInstance (aba_id a) (on_inst ref (\<lambda>_. a') c)))
               (recv_then terminatedChan terminatedChan_update (\<lambda>_. result_pc_update (\<lambda>_. RsDone)) a)
         | RsDone \<Rightarrow> None)"

end
