(* ===== verification/ACS_Acceptor.thy ===== *)
theory ACS_Acceptor
  imports ABA_Channel
begin

text \<open>
  The acceptor of one proposer's value (\<^verbatim>\<open>agreementCommonSubset/proposalAcceptor.go\<close>): it turns the
  arrival of the value into a vote to accept it in the binary agreement of that proposer, and the
  outcome of that agreement into a response.  The acceptor holds a reference to its agreement in the
  node's agreement channel, which its operations change.  The mutex \<^verbatim>\<open>inputLock\<close> makes
  \<^verbatim>\<open>submitInput\<close>, \<^verbatim>\<open>rejectProposal\<close> and \<^verbatim>\<open>hasProposed\<close> atomic; the goroutine \<^verbatim>\<open>waitResponse\<close> is a
  program counter, one step per channel operation.
\<close>

definition accept :: byte where "accept = 1"
definition reject :: byte where "reject = 0"

lemma accept_not_reject [simp]: "accept \<noteq> reject" "reject \<noteq> accept"
  by (simp_all add: accept_def reject_def)

datatype response_pc = WaitOutput | WaitInput | SendResponse "bytes option" | Responded

record proposalAcceptor =
  pa_proposer :: uuid
  pa_aba :: "nat option"
  pa_input :: "bytes option"
  pa_inputChan :: "bytes chan"
  pa_proposed :: bool
  pa_output :: "bytes option chan"
  pa_pc :: response_pc

datatype acceptor_error = InputAlreadySubmitted | UnableToAccept mmr_error | UnableToReject mmr_error

definition newProposalAcceptor :: "uuid \<Rightarrow> uuid \<Rightarrow> 'pk AbaChannel \<Rightarrow> 'pk AbaChannel \<times> proposalAcceptor" where
  "newProposalAcceptor abaId proposer abaChan =
     (case NewAbaInstance abaId abaChan of
        (ch, ref) \<Rightarrow> (ch, \<lparr>pa_proposer = proposer, pa_aba = ref, pa_input = None, pa_inputChan = make_chan 1,
                       pa_proposed = False, pa_output = make_chan 1, pa_pc = WaitOutput\<rparr>))"

text \<open>The first proposal of an acceptor goes to its agreement; a nil agreement is dereferenced.\<close>

definition proposeOnce ::
  "byte \<Rightarrow> (mmr_error \<Rightarrow> acceptor_error) \<Rightarrow> 'pk AbaChannel \<times> proposalAcceptor
    \<Rightarrow> ('pk AbaChannel \<times> proposalAcceptor) \<times> acceptor_error outcome"
where
  "proposeOnce est wrap = (\<lambda>(ch, p).
     if pa_proposed p then ((ch, p), GoNil)
     else case pa_aba p of
       None \<Rightarrow> ((ch, p\<lparr>pa_proposed := True\<rparr>), GoPanic)
     | Some ref \<Rightarrow>
         (case aba_Propose_ref ref est ch of (ch1, r) \<Rightarrow> wrap_err wrap ((ch1, p\<lparr>pa_proposed := True\<rparr>), r)))"

definition submitInput ::
  "bytes \<Rightarrow> 'pk AbaChannel \<times> proposalAcceptor \<Rightarrow> ('pk AbaChannel \<times> proposalAcceptor) \<times> acceptor_error outcome"
where
  "submitInput input = (\<lambda>(ch, p).
     if pa_input p \<noteq> None then ((ch, p), GoErr InputAlreadySubmitted)
     else case chan_send input (pa_inputChan p) of
       None \<Rightarrow> ((ch, p\<lparr>pa_input := Some input\<rparr>), GoBlocked)
     | Some inCh \<Rightarrow> proposeOnce accept UnableToAccept (ch, p\<lparr>pa_input := Some input, pa_inputChan := inCh\<rparr>))"

definition rejectProposal ::
  "'pk AbaChannel \<times> proposalAcceptor \<Rightarrow> ('pk AbaChannel \<times> proposalAcceptor) \<times> acceptor_error outcome"
where
  "rejectProposal = (\<lambda>(ch, p).
     if pa_input p \<noteq> None then ((ch, p), GoErr InputAlreadySubmitted)
     else proposeOnce reject UnableToReject (ch, p))"

definition hasProposed :: "proposalAcceptor \<Rightarrow> bool" where
  "hasProposed p = pa_proposed p"

text \<open>A step of the goroutine \<^verbatim>\<open>waitResponse\<close>; \<open>None\<close> while it waits.\<close>

definition waitResponse :: "'pk AbaChannel \<times> proposalAcceptor \<Rightarrow> ('pk AbaChannel \<times> proposalAcceptor) option" where
  "waitResponse = (\<lambda>(ch, p).
     case pa_pc p of
       WaitOutput \<Rightarrow>
         (case pa_aba p of
            None \<Rightarrow> None
          | Some ref \<Rightarrow>
              map_option (\<lambda>(res, a). (on_inst ref (\<lambda>_. a) ch,
                  p\<lparr>pa_pc := if res = accept then WaitInput else SendResponse None\<rparr>))
                (GetOutput (abac_store ch ! ref)))
     | WaitInput \<Rightarrow>
         map_option (Pair ch) (recv_then pa_inputChan pa_inputChan_update (\<lambda>v. pa_pc_update (\<lambda>_. SendResponse (Some v))) p)
     | SendResponse res \<Rightarrow> map_option (Pair ch) (send_then pa_output pa_output_update res (pa_pc_update (\<lambda>_. Responded)) p)
     | Responded \<Rightarrow> None)"

section \<open>The invariant of an acceptor\<close>

text \<open>What the node's agreement channel keeps: references stay valid and outputs only grow.\<close>

definition store_grow :: "'pk AbaChannel \<Rightarrow> 'pk AbaChannel \<Rightarrow> bool" where
  "store_grow ch ch' \<longleftrightarrow> (\<forall>ref < length (abac_store ch). ref < length (abac_store ch')
     \<and> aba_id (abac_store ch' ! ref) = aba_id (abac_store ch ! ref)
     \<and> set (ch_sent (aba_output (abac_store ch ! ref))) \<subseteq> set (ch_sent (aba_output (abac_store ch' ! ref))))"

lemma store_grow_refl [simp]: "store_grow ch ch"
  by (simp add: store_grow_def)

lemma store_growD:
  assumes "store_grow ch ch'" and "ref < length (abac_store ch)"
  shows "ref < length (abac_store ch')" "aba_id (abac_store ch' ! ref) = aba_id (abac_store ch ! ref)"
    "v \<in> set (ch_sent (aba_output (abac_store ch ! ref))) \<Longrightarrow> v \<in> set (ch_sent (aba_output (abac_store ch' ! ref)))"
  using assms unfolding store_grow_def by blast+

lemma store_grow_trans:
  assumes "store_grow a b" and "store_grow b d"
  shows "store_grow a d"
  unfolding store_grow_def
proof (intro allI impI conjI subsetI)
  fix ref assume ref: "ref < length (abac_store a)"
  note b = store_growD [OF assms(1) ref]
  note d = store_growD [OF assms(2) b(1)]
  show "ref < length (abac_store d)" "aba_id (abac_store d ! ref) = aba_id (abac_store a ! ref)" using b d by simp_all
  show "v \<in> set (ch_sent (aba_output (abac_store d ! ref)))" if "v \<in> set (ch_sent (aba_output (abac_store a ! ref)))" for v
    using d(3) [OF b(3) [OF that]] .
qed

lemma store_grow_same: "abac_store ch' = abac_store ch \<Longrightarrow> store_grow ch ch'"
  by (simp add: store_grow_def)

lemma store_grow_inst:
  assumes "ref < length (abac_store ch)" and "aba_id a = aba_id (abac_store ch ! ref)"
    and "set (ch_sent (aba_output (abac_store ch ! ref))) \<subseteq> set (ch_sent (aba_output a))"
  shows "store_grow ch (on_inst ref (\<lambda>_. a) ch)"
  using assms by (auto simp: store_grow_def on_inst_def nth_list_update)

text \<open>The outputs of the agreement an acceptor refers to.\<close>

definition acc_outputs :: "'pk AbaChannel \<Rightarrow> proposalAcceptor \<Rightarrow> byte set" where
  "acc_outputs ch p = (case pa_aba p of None \<Rightarrow> {} | Some ref \<Rightarrow> set (ch_sent (aba_output (abac_store ch ! ref))))"

text \<open>A response is justified by the agreement's output, and an accepted value is the acceptor's input.\<close>

fun justified :: "'pk AbaChannel \<Rightarrow> proposalAcceptor \<Rightarrow> bytes option \<Rightarrow> bool" where
  "justified ch p None \<longleftrightarrow> (\<exists>v \<in> acc_outputs ch p. v \<noteq> accept)"
| "justified ch p (Some x) \<longleftrightarrow> accept \<in> acc_outputs ch p \<and> pa_input p = Some x"

definition acc_ref :: "uuid \<Rightarrow> 'pk AbaChannel \<Rightarrow> proposalAcceptor \<Rightarrow> bool" where
  "acc_ref i ch p \<longleftrightarrow> (\<exists>ref. pa_aba p = Some ref \<and> ref < length (abac_store ch) \<and> aba_id (abac_store ch ! ref) = i)"

definition acc_inv :: "uuid \<Rightarrow> 'pk AbaChannel \<Rightarrow> proposalAcceptor \<Rightarrow> bool" where
  "acc_inv i ch p \<longleftrightarrow> acc_ref i ch p
     \<and> ch_cap (pa_inputChan p) = 1 \<and> ch_sent (pa_inputChan p) = (case pa_input p of None \<Rightarrow> [] | Some x \<Rightarrow> [x])
     \<and> (pa_pc p = WaitInput \<longrightarrow> accept \<in> acc_outputs ch p)
     \<and> (\<forall>res. pa_pc p = SendResponse res \<longrightarrow> justified ch p res)
     \<and> (\<forall>res \<in> set (ch_sent (pa_output p)). justified ch p res)"

lemma acc_invD:
  assumes "acc_inv i ch p"
  shows "acc_ref i ch p" "ch_cap (pa_inputChan p) = 1"
    "ch_sent (pa_inputChan p) = (case pa_input p of None \<Rightarrow> [] | Some x \<Rightarrow> [x])"
    "pa_pc p = WaitInput \<Longrightarrow> accept \<in> acc_outputs ch p" "pa_pc p = SendResponse res \<Longrightarrow> justified ch p res"
    "res \<in> set (ch_sent (pa_output p)) \<Longrightarrow> justified ch p res"
  using assms by (auto simp: acc_inv_def)

lemma acc_outputs_grow: "store_grow ch ch' \<Longrightarrow> acc_ref i ch p \<Longrightarrow> acc_outputs ch p \<subseteq> acc_outputs ch' p"
  using store_growD(3) by (fastforce simp: acc_ref_def acc_outputs_def)

lemma justified_grow: "justified ch p res \<Longrightarrow> store_grow ch ch' \<Longrightarrow> acc_ref i ch p \<Longrightarrow> justified ch' p res"
  using acc_outputs_grow [of ch ch' i p] by (cases res) auto

lemma acc_ref_grow: "acc_ref i ch p \<Longrightarrow> store_grow ch ch' \<Longrightarrow> acc_ref i ch' p"
  using store_growD(1,2) by (fastforce simp: acc_ref_def)

lemma acc_inv_grow: "acc_inv i ch p \<Longrightarrow> store_grow ch ch' \<Longrightarrow> acc_inv i ch' p"
  unfolding acc_inv_def using acc_ref_grow [of i ch p ch'] acc_outputs_grow [of ch ch' i p] justified_grow [of ch p _ ch' i]
  by blast

section \<open>Operations keep the invariant\<close>

lemma aba_Propose_keeps: "aba_id (fst (aba_Propose est a)) = aba_id a" "aba_output (fst (aba_Propose est a)) = aba_output a"
  by (simp_all add: aba_Propose_def split: prod.split)

lemma Propose_ref_sel:
  "abac_store (fst (aba_Propose_ref ref est ch)) = (abac_store ch)[ref := fst (aba_Propose est (abac_store ch ! ref))]"
  "abac_proposed (fst (aba_Propose_ref ref est ch)) = abac_proposed ch @ [(aba_id (abac_store ch ! ref), est)]"
  using aba_Propose_keeps(1) [of est "abac_store ch ! ref"]
  by (cases "aba_Propose est (abac_store ch ! ref)"; simp add: aba_Propose_ref_def on_inst_def)+

lemma Propose_ref_grow: "store_grow ch (fst (aba_Propose_ref ref est ch))"
proof -
  have "aba_id ((abac_store ch)[ref := fst (aba_Propose est (abac_store ch ! ref))] ! k) = aba_id (abac_store ch ! k)
      \<and> aba_output ((abac_store ch)[ref := fst (aba_Propose est (abac_store ch ! ref))] ! k) = aba_output (abac_store ch ! k)" for k
    by (cases "k = ref"; cases "ref < length (abac_store ch)") (simp_all add: aba_Propose_keeps list_update_beyond)
  then show ?thesis by (simp add: store_grow_def Propose_ref_sel)
qed

text \<open>Fields the invariant does not read.\<close>

lemma acc_inv_proposed [simp]: "acc_inv i ch (p\<lparr>pa_proposed := b\<rparr>) = acc_inv i ch p"
proof -
  have "justified ch (p\<lparr>pa_proposed := b\<rparr>) res = justified ch p res" for res by (cases res) (simp_all add: acc_outputs_def)
  then show ?thesis by (simp add: acc_inv_def acc_ref_def acc_outputs_def)
qed

lemma proposeOnce_cases:
  assumes "proposeOnce est w (ch, p) = ((ch', p'), r)" and "acc_ref i ch p"
  obtains "pa_proposed p" "ch' = ch" "p' = p" "r = GoNil"
  | ref where "\<not> pa_proposed p" "ref < length (abac_store ch)" "aba_id (abac_store ch ! ref) = i"
      "ch' = fst (aba_Propose_ref ref est ch)" "p' = p\<lparr>pa_proposed := True\<rparr>"
proof (cases "pa_proposed p")
  case True
  then have "ch' = ch" "p' = p" "r = GoNil" using assms(1) by (simp_all add: proposeOnce_def)
  with True show ?thesis by (rule that(1))
next
  case False
  obtain ref where ref: "pa_aba p = Some ref" "ref < length (abac_store ch)" "aba_id (abac_store ch ! ref) = i"
    using assms(2) by (auto simp: acc_ref_def)
  obtain ch1 r1 where "aba_Propose_ref ref est ch = (ch1, r1)" by fastforce
  then have "fst (wrap_err w ((ch1, p\<lparr>pa_proposed := True\<rparr>), r1)) = (ch', p')" "ch1 = fst (aba_Propose_ref ref est ch)"
    using assms(1) False ref(1) by (auto simp: proposeOnce_def)
  then have "ch' = fst (aba_Propose_ref ref est ch)" "p' = p\<lparr>pa_proposed := True\<rparr>" by simp_all
  with False ref(2,3) show ?thesis by (intro that(2))
qed

lemma proposeOnce_inv:
  assumes "proposeOnce est w (ch, p) = ((ch', p'), r)" and "acc_inv i ch p"
  shows "acc_inv i ch' p'" "store_grow ch ch'" "pa_proposer p' = pa_proposer p" "pa_output p' = pa_output p" "pa_input p' = pa_input p"
    "set (abac_proposed ch') \<subseteq> insert (i, est) (set (abac_proposed ch))"
proof -
  have "acc_inv i ch' p' \<and> store_grow ch ch' \<and> pa_proposer p' = pa_proposer p \<and> pa_output p' = pa_output p \<and> pa_input p' = pa_input p
      \<and> set (abac_proposed ch') \<subseteq> insert (i, est) (set (abac_proposed ch))"
    using assms(1) acc_invD(1) [OF assms(2)]
  proof (cases rule: proposeOnce_cases)
    case (2 ref)
    then show ?thesis using acc_inv_grow [OF assms(2) Propose_ref_grow] Propose_ref_grow by (auto simp: Propose_ref_sel)
  qed (use assms(2) in auto)
  then show "acc_inv i ch' p'" "store_grow ch ch'" "pa_proposer p' = pa_proposer p" "pa_output p' = pa_output p" "pa_input p' = pa_input p"
    "set (abac_proposed ch') \<subseteq> insert (i, est) (set (abac_proposed ch))" by auto
qed

text \<open>The first input is kept: before it no response carries a value, so the invariant does not mind.\<close>

lemma acc_inv_input:
  assumes "acc_inv i ch p" and "pa_input p = None"
  shows "acc_inv i ch (p\<lparr>pa_input := Some x, pa_inputChan := (pa_inputChan p)\<lparr>ch_sent := [x]\<rparr>\<rparr>)"
proof -
  let ?p = "p\<lparr>pa_input := Some x, pa_inputChan := (pa_inputChan p)\<lparr>ch_sent := [x]\<rparr>\<rparr>"
  have "justified ch ?p res" if "justified ch p res" for res
    using that assms(2) by (cases res) (simp_all add: acc_outputs_def)
  then show ?thesis using assms by (auto simp: acc_inv_def acc_ref_def acc_outputs_def)
qed

lemma submitInput_inv:
  assumes st: "submitInput x (ch, p) = ((ch', p'), r)" and inv: "acc_inv i ch p"
  shows "acc_inv i ch' p'" "store_grow ch ch'" "pa_proposer p' = pa_proposer p" "pa_output p' = pa_output p"
    "pa_input p' = (case pa_input p of None \<Rightarrow> Some x | Some y \<Rightarrow> Some y)"
    "set (abac_proposed ch') \<subseteq> insert (i, accept) (set (abac_proposed ch))"
proof -
  have "acc_inv i ch' p' \<and> store_grow ch ch' \<and> pa_proposer p' = pa_proposer p \<and> pa_output p' = pa_output p
      \<and> pa_input p' = (case pa_input p of None \<Rightarrow> Some x | Some y \<Rightarrow> Some y)
      \<and> set (abac_proposed ch') \<subseteq> insert (i, accept) (set (abac_proposed ch))"
  proof (cases "pa_input p")
    case None
    let ?p = "p\<lparr>pa_input := Some x, pa_inputChan := (pa_inputChan p)\<lparr>ch_sent := [x]\<rparr>\<rparr>"
    have "ch_sent (pa_inputChan p) = []" "ch_cap (pa_inputChan p) = 1" using acc_invD(2,3) [OF inv] None by simp_all
    then have "chan_send x (pa_inputChan p) = Some ((pa_inputChan p)\<lparr>ch_sent := [x]\<rparr>)" by (simp add: chan_send_def)
    then have st': "proposeOnce accept UnableToAccept (ch, ?p) = ((ch', p'), r)" using st None by (simp add: submitInput_def)
    from proposeOnce_inv [OF st' acc_inv_input [OF inv None]] None show ?thesis by simp
  qed (use st inv in \<open>auto simp: submitInput_def\<close>)
  then show "acc_inv i ch' p'" "store_grow ch ch'" "pa_proposer p' = pa_proposer p" "pa_output p' = pa_output p"
    "pa_input p' = (case pa_input p of None \<Rightarrow> Some x | Some y \<Rightarrow> Some y)"
    "set (abac_proposed ch') \<subseteq> insert (i, accept) (set (abac_proposed ch))" by auto
qed

lemma rejectProposal_inv:
  assumes st: "rejectProposal (ch, p) = ((ch', p'), r)" and inv: "acc_inv i ch p"
  shows "acc_inv i ch' p'" "store_grow ch ch'" "pa_proposer p' = pa_proposer p" "pa_output p' = pa_output p" "pa_input p' = pa_input p"
    "set (abac_proposed ch') \<subseteq> insert (i, reject) (set (abac_proposed ch))"
proof -
  have "acc_inv i ch' p' \<and> store_grow ch ch' \<and> pa_proposer p' = pa_proposer p \<and> pa_output p' = pa_output p \<and> pa_input p' = pa_input p
      \<and> set (abac_proposed ch') \<subseteq> insert (i, reject) (set (abac_proposed ch))"
  proof (cases "pa_input p")
    case None
    then have "proposeOnce reject UnableToReject (ch, p) = ((ch', p'), r)" using st by (simp add: rejectProposal_def)
    from proposeOnce_inv [OF this inv] show ?thesis by simp
  qed (use st inv in \<open>auto simp: rejectProposal_def\<close>)
  then show "acc_inv i ch' p'" "store_grow ch ch'" "pa_proposer p' = pa_proposer p" "pa_output p' = pa_output p" "pa_input p' = pa_input p"
    "set (abac_proposed ch') \<subseteq> insert (i, reject) (set (abac_proposed ch))" by auto
qed

lemma acc_inv_pc:
  assumes "acc_inv i ch p" and "pc = WaitInput \<Longrightarrow> accept \<in> acc_outputs ch p" and "\<And>res. pc = SendResponse res \<Longrightarrow> justified ch p res"
  shows "acc_inv i ch (p\<lparr>pa_pc := pc\<rparr>)"
proof -
  have "justified ch (p\<lparr>pa_pc := pc\<rparr>) res = justified ch p res" for res by (cases res) (simp_all add: acc_outputs_def)
  then show ?thesis using assms by (auto simp: acc_inv_def acc_ref_def acc_outputs_def)
qed

lemma GetOutput_inst:
  assumes "GetOutput a = Some (v, a')"
  shows "aba_id a' = aba_id a" "ch_sent (aba_output a') = ch_sent (aba_output a)" "v \<in> set (ch_sent (aba_output a))" "aba_mmr a' = aba_mmr a"
  using assms by (auto simp: GetOutput_def chan_recv_Some)

lemma waitResponse_inv:
  assumes st: "waitResponse (ch, p) = Some (ch', p')" and inv: "acc_inv i ch p"
  shows "acc_inv i ch' p'" "store_grow ch ch'" "pa_proposer p' = pa_proposer p" "pa_input p' = pa_input p"
    "set (ch_sent (pa_output p)) \<subseteq> set (ch_sent (pa_output p'))" "abac_proposed ch' = abac_proposed ch"
proof -
  have "acc_inv i ch' p' \<and> store_grow ch ch' \<and> pa_proposer p' = pa_proposer p \<and> pa_input p' = pa_input p
      \<and> set (ch_sent (pa_output p)) \<subseteq> set (ch_sent (pa_output p')) \<and> abac_proposed ch' = abac_proposed ch"
  proof (cases "pa_pc p")
    case WaitOutput
    obtain ref where ref: "pa_aba p = Some ref" "ref < length (abac_store ch)" using acc_invD(1) [OF inv] by (auto simp: acc_ref_def)
    then obtain v a where v: "GetOutput (abac_store ch ! ref) = Some (v, a)" and ch': "ch' = on_inst ref (\<lambda>_. a) ch"
      and p': "p' = p\<lparr>pa_pc := if v = accept then WaitInput else SendResponse None\<rparr>"
      using st WaitOutput by (auto simp: waitResponse_def)
    have grow: "store_grow ch ch'" unfolding ch' by (rule store_grow_inst [OF ref(2)]) (use GetOutput_inst [OF v] in simp_all)
    have "v \<in> acc_outputs ch' p" using GetOutput_inst [OF v] ref by (simp add: acc_outputs_def ch' on_inst_def)
    then have "acc_inv i ch' p'" unfolding p' by (intro acc_inv_pc acc_inv_grow [OF inv grow]) (auto split: if_splits)
    with grow show ?thesis by (simp add: p' ch' on_inst_def)
  next
    case WaitInput
    define x where "x = ch_sent (pa_inputChan p) ! ch_taken (pa_inputChan p)"
    have x: "x \<in> set (ch_sent (pa_inputChan p))" and ch: "ch' = ch"
      and p': "p' = p\<lparr>pa_inputChan := (pa_inputChan p)\<lparr>ch_taken := Suc (ch_taken (pa_inputChan p))\<rparr>, pa_pc := SendResponse (Some x)\<rparr>"
      using st WaitInput by (auto simp: waitResponse_def recv_then_def chan_recv_Some x_def split: option.splits)
    have "pa_input p = Some x" using x acc_invD(3) [OF inv] by (cases "pa_input p") auto
    then have "justified ch p (Some x)" using acc_invD(4) [OF inv WaitInput] by simp
    then have "acc_inv i ch (p\<lparr>pa_pc := SendResponse (Some x)\<rparr>)" by (intro acc_inv_pc [OF inv]) (auto simp del: justified.simps)
    moreover have "justified ch p' res = justified ch (p\<lparr>pa_pc := SendResponse (Some x)\<rparr>) res" for res
      by (cases res) (simp_all add: acc_outputs_def p')
    ultimately have "acc_inv i ch p'" by (simp add: acc_inv_def acc_ref_def acc_outputs_def p')
    then show ?thesis by (simp add: ch) (simp add: p')
  next
    case (SendResponse res)
    then have ch: "ch' = ch" and p': "p' = p\<lparr>pa_output := (pa_output p)\<lparr>ch_sent := ch_sent (pa_output p) @ [res]\<rparr>, pa_pc := Responded\<rparr>"
      using st by (auto simp: waitResponse_def send_then_def chan_send_def split: option.splits if_splits)
    have "acc_inv i ch (p\<lparr>pa_pc := Responded\<rparr>)" by (intro acc_inv_pc [OF inv]) auto
    moreover have j: "justified ch p' r = justified ch p r" "justified ch (p\<lparr>pa_pc := Responded\<rparr>) r = justified ch p r" for r
      by (cases r; simp add: acc_outputs_def p')+
    moreover have "justified ch p res" by (rule acc_invD(5) [OF inv SendResponse])
    ultimately have "acc_inv i ch p'" by (auto simp: acc_inv_def acc_ref_def acc_outputs_def p')
    then show ?thesis by (auto simp: ch p')
  next
    case Responded
    then show ?thesis using st by (simp add: waitResponse_def)
  qed
  then show "acc_inv i ch' p'" "store_grow ch ch'" "pa_proposer p' = pa_proposer p" "pa_input p' = pa_input p"
    "set (ch_sent (pa_output p)) \<subseteq> set (ch_sent (pa_output p'))" "abac_proposed ch' = abac_proposed ch" by auto
qed

end
