(* ===== verification/MMR_Growth.thy ===== *)
theory MMR_Growth
  imports MMR_Properties
begin

text \<open>
  Every operation and every goroutine of the multi-round agreement only adds to what the node has handed
  to its delivery channels, so a message that was allowed once stays allowed.
\<close>

section \<open>What a node hands over only grows\<close>

definition mmr_grow :: "mmr \<Rightarrow> mmr \<Rightarrow> bool" where
  "mmr_grow m m' \<longleftrightarrow> set (deliverEcho m) \<subseteq> set (deliverEcho m') \<and> set (deliverVote m) \<subseteq> set (deliverVote m')
     \<and> set (deliverBind m) \<subseteq> set (deliverBind m') \<and> set (coinReq m) \<subseteq> set (coinReq m')
     \<and> set (deliverExternallyValid m) \<subseteq> set (deliverExternallyValid m')
     \<and> set (ch_sent (deliverDecision m)) \<subseteq> set (ch_sent (deliverDecision m'))
     \<and> ch_taken (deliverDecision m) \<le> ch_taken (deliverDecision m')"

lemma mmr_grow_refl [simp]: "mmr_grow m m"
  by (simp add: mmr_grow_def)

lemma mmr_grow_trans: "mmr_grow a b \<Longrightarrow> mmr_grow b d \<Longrightarrow> mmr_grow a d"
  by (auto simp: mmr_grow_def)

lemma getRound_grow: "mmr_grow m (fst (getRound r m))"
  by (simp add: getRound_def mmr_grow_def Let_def split: option.split)

lemma with_round_grow: "mmr_grow m (fst (with_round r oper m))"
proof -
  obtain m1 rd where g: "getRound r m = (m1, rd)" by fastforce
  show ?thesis using getRound_grow [of m r] by (simp add: with_round_def g mmr_grow_def split: prod.split)
qed

lemma submitCoin_grow: "mmr_grow m (fst (mmr_submitCoin k r m))"
proof -
  obtain m1 rd where g: "getRound r m = (m1, rd)" by fastforce
  obtain rd1 t oc where sc: "round_submitCoin k rd = ((rd1, t), oc)" by (metis prod.exhaust)
  define m2 where "m2 = m1\<lparr>rounds := (rounds m1)(r \<mapsto> rd1)\<rparr>"
  have m2: "mmr_grow m m2" using getRound_grow [of m r] g by (simp add: m2_def mmr_grow_def)
  have "mmr_grow m2 (fst (mmr_submitCoin k r m))"
  proof (cases "oc = GoNil \<and> t \<noteq> None \<and> decided (the t) \<and> \<not> hasDecided m2")
    case True
    then have "fst (mmr_submitCoin k r m) =
        fst (chan_put reachedDecision reachedDecision_update (estimate (the t)) (m2\<lparr>hasDecided := True\<rparr>) :: mmr \<times> mmr_error outcome)"
      by (auto simp: mmr_submitCoin_def g sc m2_def)
    then show ?thesis by (simp add: fst_chan_put mmr_grow_def)
  next
    case False
    then have "fst (mmr_submitCoin k r m) \<in> {m2, fst (with_round (r + 1) (bca_propose (estimate (the t)) k) m2)}"
      by (cases oc; cases t) (auto simp: mmr_submitCoin_def g sc Let_def m2_def mmr_propose_def)
    then show ?thesis using with_round_grow [of m2] by auto
  qed
  with m2 show ?thesis by (rule mmr_grow_trans)
qed

lemma reachDecision_coins:
  "reachDecision b m = Some m' \<Longrightarrow> coinReq m' = coinReq m \<and> deliverExternallyValid m' = deliverExternallyValid m
    \<and> ch_taken (deliverDecision m') = ch_taken (deliverDecision m)"
  by (cases "reach_pc m")
    (auto simp: reachDecision_def send_then_def recv_then_def chan_send_def split: option.splits if_splits)

lemma goroutine_grow: "mmr_goroutine m m' \<Longrightarrow> mmr_grow m m'"
proof -
  assume "mmr_goroutine m m'"
  then consider r where "bca_steps r m m'" | r where "mmr_execRound r m = Some m'"
    | q r where "listenRequests q r m = Some m'" | b where "reachDecision b m = Some m'"
    | w where "listenExternallyValid m = Some (w, m')" | v r where "m' = fst (mmr_submitExternallyValid v r m)"
    | "mmr_close m = m'" | d where "mmr_takeDecision m = Some (d, m')"
    unfolding mmr_goroutine_def by blast
  then show ?thesis
  proof cases
    case (3 q r)
    then show ?thesis by (cases q) (auto simp: listenRequests_def mmr_grow_def split: if_splits option.splits)
  next
    case (4 b)
    then show ?thesis using reach_out(4-6,11) [OF 4] reachDecision_coins [OF 4] by (simp add: mmr_grow_def)
  next
    case (5 w)
    then show ?thesis by (auto simp: listenExternallyValid_def mmr_grow_def split: if_splits)
  next
    case (6 v r)
    then show ?thesis using with_round_grow [of m "r + 1" "bca_submitExternallyValid v"] by (simp add: mmr_submitExternallyValid_def)
  qed (auto simp: mmr_grow_def bca_steps_def mmr_execRound_def mmr_close_def mmr_takeDecision_def chan_recv_Some
      split: option.splits)
qed

lemma aba_step_grow:
  assumes "aba_step c coin N M"
  shows "mmr_grow (mnode N q) (mnode M q)"
  using assms
proof cases
  case (propose p est)
  then show ?thesis using with_round_grow by (simp add: concurrent_propose_def mmr_propose_def set_node_def)
next
  case (echo p x v r)
  then show ?thesis using with_round_grow by (simp add: mmr_submitEcho_def set_node_def)
next
  case (vote p x v r)
  then show ?thesis using with_round_grow by (simp add: mmr_submitVote_def set_node_def)
next
  case (bind p x v r)
  then show ?thesis using with_round_grow by (simp add: mmr_submitBind_def set_node_def)
next
  case (coin p r m' res)
  then show ?thesis using submitCoin_grow [of "mnode N p" "coin r" r] by (simp add: set_node_def)
next
  case (decision p x v)
  then show ?thesis by (simp add: mmr_submitDecision_def mmr_grow_def set_node_def split: prod.split)
next
  case (goroutine p m')
  then show ?thesis using goroutine_grow [of "mnode N p" m'] by (simp add: set_node_def)
qed

end
