(* ===== verification/ABA_System.thy ===== *)
theory ABA_System
  imports ABA_Channel MMR_Growth
begin

text \<open>
  A system of nodes that each run a binary-agreement channel.  Bytes arrive in any order and any
  number of times; those that arrive from a correct node's key were handed to best-effort broadcast
  by that node's middleware.  The main result is a refinement: whatever the channels interleave, each
  identifier is one instance of the network of \<open>MMR_Network\<close>, so the agreement of that network
  is the agreement of what \<^verbatim>\<open>GetOutput\<close> returns.  In the step \<open>sends\<close> another component uses the
  overlay node, which it shares with the channel.
\<close>

section \<open>The system\<close>

record 'pk aba_sys =
  chan_of :: "uuid \<Rightarrow> 'pk AbaChannel"

definition sys_init :: "net_cfg \<Rightarrow> byte \<Rightarrow> byte \<Rightarrow> (uuid \<Rightarrow> 'pk node) \<Rightarrow> 'pk aba_sys" where
  "sys_init c mb tb nds =
     \<lparr>chan_of = (\<lambda>p. NewAbaChannel (cfg_n c) (cfg_f c) mb tb (nds p))\<rparr>"

definition set_chan :: "uuid \<Rightarrow> 'pk AbaChannel \<Rightarrow> 'pk aba_sys \<Rightarrow> 'pk aba_sys" where
  "set_chan p ch S = S\<lparr>chan_of := (chan_of S)(p := ch)\<rparr>"

text \<open>The bytes \<open>bs\<close> come in under \<open>code\<close> from the key \<open>pk\<close> of node \<open>x\<close>.\<close>

definition arrives ::
  "net_cfg \<Rightarrow> ('pk \<Rightarrow> bytes option) \<Rightarrow> 'pk aba_sys \<Rightarrow> byte \<Rightarrow> bytes \<Rightarrow> 'pk \<Rightarrow> uuid \<Rightarrow> bool"
where
  "arrives c serialize S code bs pk x \<longleftrightarrow> (\<exists>k. serialize pk = Some k \<and> BytesToUUID k = x) \<and> x \<in> procs c
     \<and> (x \<in> correct c \<longrightarrow> (code, bs) \<in> set (abac_aired (chan_of S x)))"

inductive sys_step ::
  "net_cfg \<Rightarrow> (bytes \<Rightarrow> bool) \<Rightarrow> ('pk \<Rightarrow> bytes option) \<Rightarrow> 'pk aba_sys \<Rightarrow> 'pk aba_sys \<Rightarrow> bool"
  for c toss serialize where
  msg: "\<lbrakk>p \<in> correct c; arrives c serialize S (mBeb (chan_of S p)) bs pk x; aba_parseMsg serialize bs pk = Inr m\<rbrakk>
    \<Longrightarrow> sys_step c toss serialize S (set_chan p (fst (processMiddlewareMsg m (chan_of S p))) S)"
| decision: "\<lbrakk>p \<in> correct c; arrives c serialize S (tBeb (chan_of S p)) bs pk x;
      (term_parseMsg bs x :: 'pk aba_mw_error + terminationMsg) = Inr t\<rbrakk>
    \<Longrightarrow> sys_step c toss serialize S (set_chan p (fst (processTermMsg t (chan_of S p))) S)"
| create: "p \<in> correct c \<Longrightarrow> sys_step c toss serialize S (set_chan p (fst (NewAbaInstance i (chan_of S p))) S)"
| propose: "\<lbrakk>p \<in> correct c; ref < length (abac_store (chan_of S p))\<rbrakk>
    \<Longrightarrow> sys_step c toss serialize S (set_chan p (fst (aba_Propose_ref ref est (chan_of S p))) S)"
| call: "\<lbrakk>p \<in> correct c; j < length (abac_calls (chan_of S p))\<rbrakk>
    \<Longrightarrow> sys_step c toss serialize S (set_chan p (aba_run_call j (chan_of S p)) S)"
| listen: "\<lbrakk>p \<in> correct c; ref < length (abac_store (chan_of S p)); aba_listener q ref (chan_of S p) = Some (ch, r)\<rbrakk>
    \<Longrightarrow> sys_step c toss serialize S (set_chan p ch S)"
| coin: "\<lbrakk>p \<in> correct c; ref < length (abac_store (chan_of S p)); aba_coin toss j ref (chan_of S p) = Some ch\<rbrakk>
    \<Longrightarrow> sys_step c toss serialize S (set_chan p ch S)"
| result: "\<lbrakk>p \<in> correct c; ref < length (abac_store (chan_of S p)); handleAsyncResultDelivery ref (chan_of S p) = Some ch\<rbrakk>
    \<Longrightarrow> sys_step c toss serialize S (set_chan p ch S)"
| read: "\<lbrakk>p \<in> correct c; ref < length (abac_store (chan_of S p)); GetOutput (abac_store (chan_of S p) ! ref) = Some (v, a)\<rbrakk>
    \<Longrightarrow> sys_step c toss serialize S (set_chan p (on_inst ref (\<lambda>_. a) (chan_of S p)) S)"
| inner: "\<lbrakk>p \<in> correct c; ref < length (abac_store (chan_of S p));
      mmr_goroutine (aba_mmr (abac_store (chan_of S p) ! ref)) m'\<rbrakk>
    \<Longrightarrow> sys_step c toss serialize S (set_chan p (on_inst ref (\<lambda>a. a\<lparr>aba_mmr := m'\<rparr>) (chan_of S p)) S)"
| sends: "p \<in> correct c \<Longrightarrow> sys_step c toss serialize S (set_chan p ((chan_of S p)\<lparr>abac_node := nd\<rparr>) S)"

inductive sys_reach ::
  "net_cfg \<Rightarrow> (bytes \<Rightarrow> bool) \<Rightarrow> ('pk \<Rightarrow> bytes option) \<Rightarrow> byte \<Rightarrow> byte \<Rightarrow> 'pk aba_sys \<Rightarrow> bool"
  for c toss serialize mb tb where
  init: "sys_reach c toss serialize mb tb (sys_init c mb tb nds)"
| step: "sys_reach c toss serialize mb tb S \<Longrightarrow> sys_step c toss serialize S T \<Longrightarrow> sys_reach c toss serialize mb tb T"

text \<open>The agreement of identifier \<open>i\<close> at a node, and the network of all nodes for that identifier.\<close>

definition mmr_of :: "'pk AbaChannel \<Rightarrow> uuid \<Rightarrow> mmr" where
  "mmr_of ch i = (case abac_instances ch i of
     Some ref \<Rightarrow> aba_mmr (abac_store ch ! ref) | None \<Rightarrow> newMMR (abac_n ch) (abac_f ch))"

definition inputs_of :: "'pk AbaChannel \<Rightarrow> uuid \<Rightarrow> byte set" where
  "inputs_of ch i = {v. (i, v) \<in> set (abac_proposed ch)}"

definition sys_view :: "'pk aba_sys \<Rightarrow> uuid \<Rightarrow> aba_net" where
  "sys_view S i = \<lparr>mnode = (\<lambda>p. mmr_of (chan_of S p) i), inputs = (\<lambda>p. inputs_of (chan_of S p) i)\<rparr>"

section \<open>Calls only add to what a node hands over\<close>

lemma aba_submit_grow: "mmr_grow m (fst (aba_submit call m))"
proof (cases call)
  case (CallMsg x)
  then show ?thesis using with_round_grow by (simp add: mmr_submitEcho_def mmr_submitVote_def mmr_submitBind_def)
next
  case (CallTerm t)
  then show ?thesis by (simp add: mmr_submitDecision_def mmr_grow_def split: prod.split)
qed

lemma aba_Propose_mmr:
  "aba_mmr (fst (aba_Propose est a)) = fst (concurrent_propose est (aba_mmr a))" "aba_id (fst (aba_Propose est a)) = aba_id a"
  by (simp_all add: aba_Propose_def split: prod.split)

lemma aba_Propose_grow: "mmr_grow (aba_mmr a) (aba_mmr (fst (aba_Propose est a)))"
  using with_round_grow by (simp add: aba_Propose_mmr concurrent_propose_def mmr_propose_def)

section \<open>The invariant of a channel\<close>

definition sentBy :: "byte \<Rightarrow> mmr \<Rightarrow> byte \<Rightarrow> uint16 \<Rightarrow> bool" where
  "sentBy kind m v r \<longleftrightarrow> kind = aba_echo \<and> (v, r) \<in> set (deliverEcho m) \<or> kind = aba_vote \<and> (v, r) \<in> set (deliverVote m)
     \<or> kind = aba_bind \<and> (v, r) \<in> set (deliverBind m)"

lemma sentBy_grow: "sentBy kind m v r \<Longrightarrow> mmr_grow m m' \<Longrightarrow> sentBy kind m' v r"
  by (auto simp: sentBy_def mmr_grow_def)

definition inst_ok :: "AbaInstance \<Rightarrow> bool" where
  "inst_ok a \<longleftrightarrow> set (coin_wait a) \<subseteq> set (coinReq (aba_mmr a))
     \<and> set (ch_sent (decisionChan a)) \<subseteq> set (ch_sent (deliverDecision (aba_mmr a)))
     \<and> (\<forall>d. result_pc a = RsOutput d \<longrightarrow> d \<in> set (ch_sent (decisionChan a)))
     \<and> set (ch_sent (aba_output a)) \<subseteq> set (ch_sent (decisionChan a))
     \<and> ch_sent (terminatedChan a) = [] \<and> result_pc a \<noteq> RsDone"

lemma inst_ok_grow: "inst_ok a \<Longrightarrow> mmr_grow (aba_mmr a) m' \<Longrightarrow> inst_ok (a\<lparr>aba_mmr := m'\<rparr>)"
  by (auto simp: inst_ok_def mmr_grow_def)

fun call_instance :: "aba_call \<Rightarrow> uuid" where
  "call_instance (CallMsg m) = abam_instance m"
| "call_instance (CallTerm t) = tm_instance t"

definition aired_ok :: "'pk AbaChannel \<Rightarrow> bool" where
  "aired_ok ch \<longleftrightarrow> (\<forall>(code, bs) \<in> set (abac_aired ch).
     code = mBeb ch \<and> (\<exists>i kind r v. bs = aba_wrap i kind r v \<and> sentBy kind (mmr_of ch i) v r)
     \<or> code = tBeb ch \<and> (\<exists>i d. bs = term_wrap i d \<and> d \<in> set (ch_sent (deliverDecision (mmr_of ch i)))))"

definition ch_inv :: "net_cfg \<Rightarrow> byte \<Rightarrow> byte \<Rightarrow> 'pk AbaChannel \<Rightarrow> bool" where
  "ch_inv c mb tb ch \<longleftrightarrow> abac_n ch = cfg_n c \<and> abac_f ch = cfg_f c \<and> mBeb ch = mb \<and> tBeb ch = tb \<and> abac_finished ch = {}
     \<and> (\<forall>i ref. abac_instances ch i = Some ref \<longleftrightarrow> ref < length (abac_store ch) \<and> aba_id (abac_store ch ! ref) = i)
     \<and> (\<forall>a \<in> set (abac_store ch). inst_ok a)
     \<and> (\<forall>(ref, call) \<in> set (abac_calls ch). ref < length (abac_store ch) \<and> aba_id (abac_store ch ! ref) = call_instance call)
     \<and> aired_ok ch"

lemma ch_invD:
  assumes "ch_inv c mb tb ch"
  shows "abac_n ch = cfg_n c" "abac_f ch = cfg_f c" "mBeb ch = mb" "tBeb ch = tb" "abac_finished ch = {}"
    "abac_instances ch i = Some ref \<longleftrightarrow> ref < length (abac_store ch) \<and> aba_id (abac_store ch ! ref) = i"
    "a \<in> set (abac_store ch) \<Longrightarrow> inst_ok a"
    "(ref, call) \<in> set (abac_calls ch) \<Longrightarrow> ref < length (abac_store ch) \<and> aba_id (abac_store ch ! ref) = call_instance call"
    "aired_ok ch"
  using assms unfolding ch_inv_def by auto

lemma aired_grow:
  assumes "aired_ok ch" and "abac_aired ch' = abac_aired ch" "mBeb ch' = mBeb ch" "tBeb ch' = tBeb ch"
    and "\<And>i. mmr_grow (mmr_of ch i) (mmr_of ch' i)"
  shows "aired_ok ch'"
proof -
  have "set (ch_sent (deliverDecision (mmr_of ch i))) \<subseteq> set (ch_sent (deliverDecision (mmr_of ch' i)))" for i
    using assms(5) by (simp add: mmr_grow_def)
  then show ?thesis using assms(1,2,3,4) sentBy_grow [OF _ assms(5)] unfolding aired_ok_def by fastforce
qed

lemma mmr_of_ref: "ch_inv c mb tb ch \<Longrightarrow> ref < length (abac_store ch) \<Longrightarrow>
    mmr_of ch (aba_id (abac_store ch ! ref)) = aba_mmr (abac_store ch ! ref)"
  using ch_invD(6) [of c mb tb ch "aba_id (abac_store ch ! ref)" ref] by (simp add: mmr_of_def)

lemma on_inst_const: "on_inst ref g ch = on_inst ref (\<lambda>_. g (abac_store ch ! ref)) ch"
  by (simp add: on_inst_def)

lemma mmr_of_on_inst:
  assumes "ch_inv c mb tb ch" and "ref < length (abac_store ch)"
  shows "mmr_of (on_inst ref (\<lambda>_. a') ch) = (mmr_of ch)(aba_id (abac_store ch ! ref) := aba_mmr a')"
proof
  fix i
  show "mmr_of (on_inst ref (\<lambda>_. a') ch) i = ((mmr_of ch)(aba_id (abac_store ch ! ref) := aba_mmr a')) i"
  proof (cases "i = aba_id (abac_store ch ! ref)")
    case True
    then have "abac_instances ch i = Some ref" using ch_invD(6) [OF assms(1)] assms(2) by blast
    then show ?thesis using assms(2) True by (simp add: mmr_of_def on_inst_def)
  next
    case False
    then have "abac_instances ch i \<noteq> Some ref" using ch_invD(6) [OF assms(1), of i ref] by blast
    then show ?thesis using False by (cases "abac_instances ch i") (auto simp: mmr_of_def on_inst_def)
  qed
qed

lemma on_inst_inv:
  assumes inv: "ch_inv c mb tb ch" and ref: "ref < length (abac_store ch)" and same: "aba_id a' = aba_id (abac_store ch ! ref)"
    and a': "inst_ok a'" and grow: "mmr_grow (aba_mmr (abac_store ch ! ref)) (aba_mmr a')"
  shows "ch_inv c mb tb (on_inst ref (\<lambda>_. a') ch)"
proof -
  let ?ch = "on_inst ref (\<lambda>_. a') ch"
  have store: "abac_store ?ch = (abac_store ch)[ref := a']" and rest: "abac_instances ?ch = abac_instances ch"
    "abac_calls ?ch = abac_calls ch" "abac_n ?ch = abac_n ch" "abac_f ?ch = abac_f ch" "mBeb ?ch = mBeb ch" "tBeb ?ch = tBeb ch"
    "abac_finished ?ch = abac_finished ch" "abac_aired ?ch = abac_aired ch" "abac_proposed ?ch = abac_proposed ch" by (simp_all add: on_inst_def)
  have ids: "aba_id (abac_store ?ch ! k) = aba_id (abac_store ch ! k)" for k
    using same ref by (simp add: store nth_list_update)
  have air: "aired_ok ?ch"
    by (rule aired_grow [OF ch_invD(9) [OF inv] rest(8,5,6)])
      (use grow mmr_of_ref [OF inv ref] in \<open>simp add: mmr_of_on_inst [OF inv ref]\<close>)
  have "inst_ok x" if "x \<in> set (abac_store ?ch)" for x
    using that a' ch_invD(7) [OF inv] set_update_subset_insert [of "abac_store ch" ref a'] by (auto simp: store)
  then show ?thesis unfolding ch_inv_def using air ids ch_invD(1-6,8) [OF inv] by (auto simp: rest store)
qed

lemma aba_getInstance_inv:
  assumes inv: "ch_inv c mb tb ch"
  obtains ch' ref where "aba_getInstance i ch = ((ch', Some ref), GoNil)" "ch_inv c mb tb ch'" "mmr_of ch' = mmr_of ch"
    "ref < length (abac_store ch')" "aba_id (abac_store ch' ! ref) = i" "abac_calls ch' = abac_calls ch"
    "mBeb ch' = mBeb ch" "abac_proposed ch' = abac_proposed ch" "abac_store ch' = abac_store ch \<or> abac_store ch' = abac_store ch @ [newAbaNetworkedInstance i (abac_n ch) (abac_f ch)]"
proof (cases "abac_instances ch i")
  case (Some ref)
  then have "aba_getInstance i ch = ((ch, Some ref), GoNil)" using ch_invD(5) [OF inv] by (simp add: aba_getInstance_def)
  moreover have "ref < length (abac_store ch) \<and> aba_id (abac_store ch ! ref) = i" using Some ch_invD(6) [OF inv] by blast
  ultimately show ?thesis using that [of ch ref] inv by blast
next
  case None
  let ?a = "newAbaNetworkedInstance i (abac_n ch) (abac_f ch)" and ?ch = "fst (newAbaInstance i ch)"
  have new: "aba_getInstance i ch = ((?ch, Some (length (abac_store ch))), GoNil)"
    using None ch_invD(5) [OF inv] by (simp add: aba_getInstance_def newAbaInstance_def)
  have sel: "abac_store ?ch = abac_store ch @ [?a]" "abac_instances ?ch = (abac_instances ch)(i \<mapsto> length (abac_store ch))"
    "abac_calls ?ch = abac_calls ch" "abac_n ?ch = abac_n ch" "abac_f ?ch = abac_f ch" "mBeb ?ch = mBeb ch" "tBeb ?ch = tBeb ch"
    "abac_finished ?ch = abac_finished ch" "abac_aired ?ch = abac_aired ch" "abac_proposed ?ch = abac_proposed ch" by (simp_all add: newAbaInstance_def)
  have a: "aba_id ?a = i" "aba_mmr ?a = newMMR (abac_n ch) (abac_f ch)" "inst_ok ?a"
    by (simp_all add: newAbaNetworkedInstance_def inst_ok_def)
  have fresh: "aba_id (abac_store ch ! k) \<noteq> i" if "k < length (abac_store ch)" for k
    using None that ch_invD(6) [OF inv, of i k] by auto
  have mmr: "mmr_of ?ch = mmr_of ch"
  proof
    fix j
    show "mmr_of ?ch j = mmr_of ch j"
    proof (cases "abac_instances ch j")
      case None
      then show ?thesis by (simp add: mmr_of_def sel a nth_append)
    next
      case (Some r)
      then have "r < length (abac_store ch)" using ch_invD(6) [OF inv] by blast
      then show ?thesis using Some None by (cases "j = i") (simp_all add: mmr_of_def sel nth_append)
    qed
  qed
  have "aired_ok ?ch" by (rule aired_grow [OF ch_invD(9) [OF inv] sel(9,6,7)]) (simp add: mmr)
  moreover have "abac_instances ?ch j = Some ref \<longleftrightarrow> ref < length (abac_store ?ch) \<and> aba_id (abac_store ?ch ! ref) = j" for j ref
    using ch_invD(6) [OF inv, of j ref] fresh [of ref] a(1) by (auto simp: sel nth_append less_Suc_eq)
  moreover have "ref < length (abac_store ?ch) \<and> aba_id (abac_store ?ch ! ref) = call_instance call"
    if "(ref, call) \<in> set (abac_calls ?ch)" for ref call
    using ch_invD(8) [OF inv] that by (fastforce simp: sel nth_append)
  moreover have "inst_ok x" if "x \<in> set (abac_store ?ch)" for x using ch_invD(7) [OF inv] a(3) that by (auto simp: sel)
  ultimately have "ch_inv c mb tb ?ch"
    unfolding ch_inv_def using ch_invD(1-5) [OF inv] sel(4-8) by auto
  with that [OF new] mmr a(1) sel show ?thesis by (simp add: nth_append)
qed

section \<open>The simulation\<close>

text \<open>A pending call of a correct node carries what its sender handed over, if the sender is correct.\<close>

fun call_ok :: "net_cfg \<Rightarrow> 'pk aba_sys \<Rightarrow> aba_call \<Rightarrow> bool" where
  "call_ok c S (CallMsg m) \<longleftrightarrow> abam_sender m \<in> procs c \<and> abam_kind m \<in> {aba_echo, aba_vote, aba_bind}
     \<and> (abam_sender m \<in> correct c \<longrightarrow>
          sentBy (abam_kind m) (mmr_of (chan_of S (abam_sender m)) (abam_instance m)) (abam_val m) (abam_round m))"
| "call_ok c S (CallTerm t) \<longleftrightarrow> tm_sender t \<in> procs c
     \<and> (tm_sender t \<in> correct c \<longrightarrow>
          tm_decision t \<in> set (ch_sent (deliverDecision (mmr_of (chan_of S (tm_sender t)) (tm_instance t)))))"

definition sys_ok :: "net_cfg \<Rightarrow> (bytes \<Rightarrow> bool) \<Rightarrow> byte \<Rightarrow> byte \<Rightarrow> 'pk aba_sys \<Rightarrow> bool" where
  "sys_ok c toss mb tb S \<longleftrightarrow> (\<forall>p. ch_inv c mb tb (chan_of S p))
     \<and> (\<forall>p \<in> correct c. \<forall>(ref, call) \<in> set (abac_calls (chan_of S p)). call_ok c S call)
     \<and> (\<forall>i. aba_reach c (getCoin toss i) (sys_view S i))"

lemma sys_okD:
  assumes "sys_ok c toss mb tb S"
  shows "ch_inv c mb tb (chan_of S p)" "p \<in> correct c \<Longrightarrow> (ref, call) \<in> set (abac_calls (chan_of S p)) \<Longrightarrow> call_ok c S call"
    "aba_reach c (getCoin toss i) (sys_view S i)"
  using assms unfolding sys_ok_def by auto

lemma chan_of_set [simp]: "chan_of (set_chan p ch S) q = (if q = p then ch else chan_of S q)"
  by (simp add: set_chan_def)

lemma call_ok_grow:
  assumes "call_ok c S call" and "\<And>q i. mmr_grow (mmr_of (chan_of S q) i) (mmr_of (chan_of T q) i)"
  shows "call_ok c T call"
proof (cases call)
  case (CallMsg m)
  then show ?thesis using assms(1) sentBy_grow [OF _ assms(2)] by auto
next
  case (CallTerm t)
  then show ?thesis using assms by (auto simp: mmr_grow_def)
qed

lemma mnode_view [simp]: "mnode (sys_view S i) p = mmr_of (chan_of S p) i" "inputs (sys_view S i) p = inputs_of (chan_of S p) i"
  by (simp_all add: sys_view_def)

lemma sys_view_set:
  "sys_view (set_chan p ch S) i = (set_node p (mmr_of ch i) (sys_view S i))\<lparr>inputs := (inputs (sys_view S i))(p := inputs_of ch i)\<rparr>"
  by (auto simp: sys_view_def set_chan_def set_node_def fun_eq_iff)

lemma sys_view_same:
  assumes "mmr_of ch i = mmr_of (chan_of S p) i" and "inputs_of ch i = inputs_of (chan_of S p) i"
  shows "sys_view (set_chan p ch S) i = sys_view S i"
  using assms by (auto simp: sys_view_def set_chan_def fun_eq_iff)

text \<open>One node's channel changes.\<close>

lemma sys_ok_change:
  assumes ok: "sys_ok c toss mb tb S" and inv: "ch_inv c mb tb ch"
    and grow: "\<And>i. mmr_grow (mmr_of (chan_of S p) i) (mmr_of ch i)"
    and calls: "\<And>ref call. (ref, call) \<in> set (abac_calls ch) \<Longrightarrow> (ref, call) \<in> set (abac_calls (chan_of S p)) \<or> call_ok c S call"
    and reach: "\<And>i. aba_reach c (getCoin toss i) (sys_view (set_chan p ch S) i)"
  shows "sys_ok c toss mb tb (set_chan p ch S)"
proof -
  let ?T = "set_chan p ch S"
  have g: "mmr_grow (mmr_of (chan_of S q) i) (mmr_of (chan_of ?T q) i)" for q i using grow by simp
  have "call_ok c ?T call" if "q \<in> correct c" "(ref, call) \<in> set (abac_calls (chan_of ?T q))" for q ref call
    using that calls sys_okD(2) [OF ok] call_ok_grow [OF _ g] by (metis chan_of_set)
  then show ?thesis using sys_okD(1) [OF ok] inv reach unfolding sys_ok_def by auto
qed

lemma sys_ok_quiet:
  assumes ok: "sys_ok c toss mb tb S" and inv: "ch_inv c mb tb ch" and same: "mmr_of ch = mmr_of (chan_of S p)"
    and ins: "abac_proposed ch = abac_proposed (chan_of S p)"
    and calls: "\<And>ref call. (ref, call) \<in> set (abac_calls ch) \<Longrightarrow> (ref, call) \<in> set (abac_calls (chan_of S p)) \<or> call_ok c S call"
  shows "sys_ok c toss mb tb (set_chan p ch S)"
proof (rule sys_ok_change [OF ok inv _ calls])
  fix i
  have "sys_view (set_chan p ch S) i = sys_view S i" by (rule sys_view_same) (simp_all add: same ins inputs_of_def)
  then show "aba_reach c (getCoin toss i) (sys_view (set_chan p ch S) i)" using sys_okD(3) [OF ok] by simp
qed (simp_all add: same)

lemma sys_ok_move:
  assumes ok: "sys_ok c toss mb tb S" and inv: "ch_inv c mb tb ch"
    and mmr: "mmr_of ch = (mmr_of (chan_of S p))(i := m')" and grow: "mmr_grow (mmr_of (chan_of S p) i) m'"
    and calls: "set (abac_calls ch) \<subseteq> set (abac_calls (chan_of S p))"
    and J: "\<And>j. j \<noteq> i \<Longrightarrow> inputs_of ch j = inputs_of (chan_of S p) j"
    and step: "aba_step c (getCoin toss i) (sys_view S i)
      ((set_node p m' (sys_view S i))\<lparr>inputs := (inputs (sys_view S i))(p := inputs_of ch i)\<rparr>)"
  shows "sys_ok c toss mb tb (set_chan p ch S)"
proof (rule sys_ok_change [OF ok inv])
  fix j
  show "mmr_grow (mmr_of (chan_of S p) j) (mmr_of ch j)" using grow by (simp add: mmr)
  show "aba_reach c (getCoin toss j) (sys_view (set_chan p ch S) j)"
  proof (cases "j = i")
    case True
    then show ?thesis using step aba_reach.step [OF sys_okD(3) [OF ok]] by (simp add: sys_view_set mmr)
  next
    case False
    then have "sys_view (set_chan p ch S) j = sys_view S j" by (intro sys_view_same) (simp_all add: mmr J)
    then show ?thesis using sys_okD(3) [OF ok] by simp
  qed
qed (use calls in blast)

text \<open>The same for a step that leaves the inputs alone and moves one instance.\<close>

lemma sys_ok_inst:
  assumes ok: "sys_ok c toss mb tb S" and ref: "ref < length (abac_store (chan_of S p))"
    and a: "a = abac_store (chan_of S p) ! ref" "aba_id a' = aba_id a" "inst_ok a'" "mmr_grow (aba_mmr a) (aba_mmr a')"
    and ch: "ch = on_inst ref (\<lambda>_. a') rest_ch" "ch_inv c mb tb rest_ch" "abac_store rest_ch = abac_store (chan_of S p)"
      "mmr_of rest_ch = mmr_of (chan_of S p)" "set (abac_calls rest_ch) \<subseteq> set (abac_calls (chan_of S p))"
      "abac_proposed rest_ch = abac_proposed (chan_of S p)"
    and step: "aba_mmr a' = aba_mmr a \<or> aba_step c (getCoin toss (aba_id a)) (sys_view S (aba_id a))
      (set_node p (aba_mmr a') (sys_view S (aba_id a)))"
  shows "sys_ok c toss mb tb (set_chan p ch S)"
proof -
  let ?i = "aba_id a"
  have inv: "ch_inv c mb tb ch" unfolding ch(1)
    by (rule on_inst_inv [OF ch(2)]) (use ref a ch(3) in simp_all)
  have mmr: "mmr_of ch = (mmr_of (chan_of S p))(?i := aba_mmr a')"
    unfolding ch(1) using mmr_of_on_inst [OF ch(2), of ref a'] ref by (simp add: ch(3,4) a(1))
  have old: "mmr_of (chan_of S p) ?i = aba_mmr a" using mmr_of_ref [OF sys_okD(1) [OF ok] ref] by (simp add: a(1))
  have calls: "set (abac_calls ch) \<subseteq> set (abac_calls (chan_of S p))" using ch(5) by (simp add: ch(1) on_inst_def)
  have ins: "abac_proposed ch = abac_proposed (chan_of S p)" using ch(6) by (simp add: ch(1) on_inst_def)
  show ?thesis
  proof (cases "aba_mmr a' = aba_mmr a")
    case True
    then have "mmr_of ch = mmr_of (chan_of S p)" using old by (simp add: mmr fun_upd_idem)
    then show ?thesis by (rule sys_ok_quiet [OF ok inv _ ins]) (use calls in blast)
  next
    case False
    then have st: "aba_step c (getCoin toss ?i) (sys_view S ?i) (set_node p (aba_mmr a') (sys_view S ?i))" using step by blast
    have J: "inputs_of ch j = inputs_of (chan_of S p) j" for j by (simp add: inputs_of_def ins)
    have "set_node p (aba_mmr a') (sys_view S ?i) =
        (set_node p (aba_mmr a') (sys_view S ?i))\<lparr>inputs := (inputs (sys_view S ?i))(p := inputs_of ch ?i)\<rparr>"
      unfolding J mnode_view(2) [symmetric] inputs_same ..
    with st show ?thesis by (intro sys_ok_move [OF ok inv mmr _ calls]) (use a old J in simp_all)
  qed
qed

section \<open>Steps of the channels\<close>

lemma mmr_of_calls [simp]: "mmr_of (ch\<lparr>abac_calls := cs\<rparr>) = mmr_of ch"
  by (intro ext) (simp add: mmr_of_def split: option.split)

lemma ch_inv_calls:
  assumes inv: "ch_inv c mb tb ch"
    and cs: "\<And>ref call. (ref, call) \<in> set cs \<Longrightarrow> ref < length (abac_store ch) \<and> aba_id (abac_store ch ! ref) = call_instance call"
  shows "ch_inv c mb tb (ch\<lparr>abac_calls := cs\<rparr>)"
proof -
  have "aired_ok (ch\<lparr>abac_calls := cs\<rparr>)" by (rule aired_grow [OF ch_invD(9) [OF inv]]) simp_all
  then show ?thesis using inv cs unfolding ch_inv_def by auto
qed

lemma add_call:
  assumes inv: "ch_inv c mb tb ch" and "ref < length (abac_store ch)" "aba_id (abac_store ch ! ref) = call_instance call"
  shows "ch_inv c mb tb (ch\<lparr>abac_calls := abac_calls ch @ [(ref, call)]\<rparr>)"
  by (rule ch_inv_calls [OF inv]) (use ch_invD(8) [OF inv] assms(2,3) in auto)

lemma inst_at: "sys_ok c toss mb tb S \<Longrightarrow> ref < length (abac_store (chan_of S p)) \<Longrightarrow> inst_ok (abac_store (chan_of S p) ! ref)"
  using ch_invD(7) [OF sys_okD(1)] nth_mem by metis

lemma aired_msg:
  assumes ok: "sys_ok c toss mb tb S" and codes: "mb \<noteq> tb"
    and arr: "arrives c serialize S mb bs pk x" and parse: "aba_parseMsg serialize bs pk = Inr m"
    and kind: "abam_kind m \<in> {aba_echo, aba_vote, aba_bind}"
  shows "call_ok c S (CallMsg m)"
proof -
  obtain k where k: "serialize pk = Some k" "BytesToUUID k = x" using arr by (auto simp: arrives_def)
  have x: "abam_sender m = x" using parse k
    by (auto simp: aba_parseMsg_def PkToUUID_def SerializePublicKey_def split: sum.splits prod.splits)
  have "sentBy (abam_kind m) (mmr_of (chan_of S x) (abam_instance m)) (abam_val m) (abam_round m)" if "x \<in> correct c"
  proof -
    have "(mb, bs) \<in> set (abac_aired (chan_of S x))" using arr that by (simp add: arrives_def)
    moreover have "aired_ok (chan_of S x)" "mBeb (chan_of S x) = mb" "tBeb (chan_of S x) = tb"
      using ch_invD(3,4,9) [OF sys_okD(1) [OF ok]] by auto
    ultimately obtain i kd r v where w: "bs = aba_wrap i kd r v" "sentBy kd (mmr_of (chan_of S x) i) v r"
      using codes by (fastforce simp: aired_ok_def)
    then show ?thesis using parse aba_parse_wrap [of serialize pk k i kd r v "[]"] k by auto
  qed
  then show ?thesis using arr x kind by (simp add: arrives_def)
qed

lemma aired_term:
  assumes ok: "sys_ok c toss mb tb S" and codes: "mb \<noteq> tb"
    and arr: "arrives c serialize S tb bs pk x" and parse: "(term_parseMsg bs x :: 'pk aba_mw_error + terminationMsg) = Inr t"
  shows "call_ok c S (CallTerm t)"
proof -
  have x: "tm_sender t = x" using parse by (auto simp: term_parseMsg_def split: sum.splits prod.splits)
  have "tm_decision t \<in> set (ch_sent (deliverDecision (mmr_of (chan_of S x) (tm_instance t))))" if "x \<in> correct c"
  proof -
    have "(tb, bs) \<in> set (abac_aired (chan_of S x))" using arr that by (simp add: arrives_def)
    moreover have "aired_ok (chan_of S x)" "mBeb (chan_of S x) = mb" "tBeb (chan_of S x) = tb"
      using ch_invD(3,4,9) [OF sys_okD(1) [OF ok]] by auto
    ultimately obtain i d where w: "bs = term_wrap i d" "d \<in> set (ch_sent (deliverDecision (mmr_of (chan_of S x) i)))"
      using codes by (fastforce simp: aired_ok_def)
    have "t = \<lparr>tm_sender = x, tm_instance = i, tm_decision = d\<rparr>"
      using parse by (simp add: w(1) term_parse_wrap [where junk = "[]", simplified])
    then show ?thesis using w(2) by simp
  qed
  then show ?thesis using arr x by (simp add: arrives_def)
qed

lemma route_ok:
  assumes ok: "sys_ok c toss mb tb S" and call: "call_ok c S call"
    and g: "aba_getInstance (call_instance call) (chan_of S p) = ((ch1, Some ref), GoNil)"
  shows "sys_ok c toss mb tb (set_chan p (ch1\<lparr>abac_calls := abac_calls ch1 @ [(ref, call)]\<rparr>) S)"
    and "sys_ok c toss mb tb (set_chan p ch1 S)"
proof -
  obtain ch' ref' where g': "aba_getInstance (call_instance call) (chan_of S p) = ((ch', Some ref'), GoNil)"
    and ch': "ch_inv c mb tb ch'" "mmr_of ch' = mmr_of (chan_of S p)"
    and r: "ref' < length (abac_store ch')" "aba_id (abac_store ch' ! ref') = call_instance call"
    and cs: "abac_calls ch' = abac_calls (chan_of S p)" "abac_proposed ch' = abac_proposed (chan_of S p)"
    using aba_getInstance_inv [OF sys_okD(1) [OF ok], of "call_instance call" p] by metis
  have eq: "ch1 = ch'" "ref = ref'" using g g' by auto
  note a = add_call [OF ch'(1) r]
  show "sys_ok c toss mb tb (set_chan p (ch1\<lparr>abac_calls := abac_calls ch1 @ [(ref, call)]\<rparr>) S)"
    unfolding eq by (rule sys_ok_quiet [OF ok a]) (use ch'(2) cs call in auto)
  show "sys_ok c toss mb tb (set_chan p ch1 S)"
    unfolding eq by (rule sys_ok_quiet [OF ok ch']) (use cs in auto)
qed

lemma create_ok:
  assumes ok: "sys_ok c toss mb tb S"
  shows "sys_ok c toss mb tb (set_chan p (fst (NewAbaInstance i (chan_of S p))) S)"
proof -
  obtain ch' ref where "aba_getInstance i (chan_of S p) = ((ch', Some ref), GoNil)" "ch_inv c mb tb ch'"
    "mmr_of ch' = mmr_of (chan_of S p)" "abac_calls ch' = abac_calls (chan_of S p)" "abac_proposed ch' = abac_proposed (chan_of S p)"
    using aba_getInstance_inv [OF sys_okD(1) [OF ok], of i p] by metis
  then show ?thesis using sys_ok_quiet [OF ok, of ch' p] by (simp add: NewAbaInstance_def)
qed

lemma msg_ok:
  assumes ok: "sys_ok c toss mb tb S" and codes: "mb \<noteq> tb"
    and arr: "arrives c serialize S (mBeb (chan_of S p)) bs pk x" and parse: "aba_parseMsg serialize bs pk = Inr m"
  shows "sys_ok c toss mb tb (set_chan p (fst (processMiddlewareMsg m (chan_of S p))) S)"
proof -
  have mb: "mBeb (chan_of S p) = mb" using ch_invD(3) [OF sys_okD(1) [OF ok]] .
  obtain ch' ref where g: "aba_getInstance (abam_instance m) (chan_of S p) = ((ch', Some ref), GoNil)"
    using aba_getInstance_inv [OF sys_okD(1) [OF ok], of "abam_instance m" p] by metis
  show ?thesis
  proof (cases "abam_kind m \<in> {aba_echo, aba_vote, aba_bind}")
    case True
    from route_ok(1) [OF ok aired_msg [OF ok codes arr [unfolded mb] parse True]] g True show ?thesis
      by (simp add: processMiddlewareMsg_def)
  next
    case False
    have "sys_ok c toss mb tb (set_chan p ch' S)"
      using create_ok [OF ok, of p "abam_instance m"] g by (simp add: NewAbaInstance_def)
    then show ?thesis using g False by (simp add: processMiddlewareMsg_def)
  qed
qed

lemma decision_ok:
  assumes ok: "sys_ok c toss mb tb S" and codes: "mb \<noteq> tb"
    and arr: "arrives c serialize S (tBeb (chan_of S p)) bs pk x"
    and parse: "(term_parseMsg bs x :: 'pk aba_mw_error + terminationMsg) = Inr t"
  shows "sys_ok c toss mb tb (set_chan p (fst (processTermMsg t (chan_of S p))) S)"
proof -
  have tb: "tBeb (chan_of S p) = tb" using ch_invD(4) [OF sys_okD(1) [OF ok]] .
  obtain ch' ref where g: "aba_getInstance (tm_instance t) (chan_of S p) = ((ch', Some ref), GoNil)"
    using aba_getInstance_inv [OF sys_okD(1) [OF ok], of "tm_instance t" p] by metis
  from route_ok(1) [OF ok aired_term [OF ok codes arr [unfolded tb] parse]] g show ?thesis
    by (simp add: processTermMsg_def)
qed

text \<open>A pending call runs: it is the delivery of its message in the network of its instance.\<close>

lemma submit_step:
  assumes p: "p \<in> correct c" and call: "call_ok c S call" and i: "i = call_instance call"
  shows "aba_step c (getCoin toss i) (sys_view S i)
    (set_node p (fst (aba_submit call (mmr_of (chan_of S p) i))) (sys_view S i))"
proof (cases call)
  case (CallMsg m)
  let ?N = "sys_view S i"
  have x: "abam_sender m \<in> procs c" "abam_kind m \<in> {aba_echo, aba_vote, aba_bind}"
    "abam_sender m \<in> correct c \<longrightarrow> sentBy (abam_kind m) (mnode ?N (abam_sender m)) (abam_val m) (abam_round m)"
    using call CallMsg i by auto
  consider "abam_kind m = aba_echo" | "abam_kind m = aba_vote" | "abam_kind m = aba_bind" using x(2) by blast
  then show ?thesis
  proof cases
    case 1
    then show ?thesis using aba_step.echo [OF p x(1), of "abam_val m" "abam_round m" ?N] x(3) CallMsg by (simp add: sentBy_def)
  next
    case 2
    then show ?thesis using aba_step.vote [OF p x(1), of "abam_val m" "abam_round m" ?N] x(3) CallMsg by (simp add: sentBy_def)
  next
    case 3
    then show ?thesis using aba_step.bind [OF p x(1), of "abam_val m" "abam_round m" ?N] x(3) CallMsg by (simp add: sentBy_def)
  qed
next
  case (CallTerm t)
  then show ?thesis using aba_step.decision [OF p, of "tm_sender t" "tm_decision t" "sys_view S i"] call i by simp
qed

lemma call_step_ok:
  assumes ok: "sys_ok c toss mb tb S" and p: "p \<in> correct c" and j: "j < length (abac_calls (chan_of S p))"
  shows "sys_ok c toss mb tb (set_chan p (aba_run_call j (chan_of S p)) S)"
proof -
  let ?ch = "chan_of S p"
  obtain ref call where rc: "abac_calls ?ch ! j = (ref, call)" by fastforce
  then have mem: "(ref, call) \<in> set (abac_calls ?ch)" using j by (metis nth_mem)
  note inv = sys_okD(1) [OF ok, of p]
  have ref: "ref < length (abac_store ?ch)" and i: "aba_id (abac_store ?ch ! ref) = call_instance call"
    using ch_invD(8) [OF inv mem] by auto
  let ?a = "abac_store ?ch ! ref" and ?rest = "?ch\<lparr>abac_calls := take j (abac_calls ?ch) @ drop (Suc j) (abac_calls ?ch)\<rparr>"
  let ?a' = "?a\<lparr>aba_mmr := fst (aba_submit call (aba_mmr ?a))\<rparr>"
  have sub: "set (abac_calls ?rest) \<subseteq> set (abac_calls ?ch)" by (auto dest: in_set_takeD in_set_dropD)
  have inv0: "ch_inv c mb tb ?rest" by (rule ch_inv_calls [OF inv], rule ch_invD(8) [OF inv]) (auto dest: in_set_takeD in_set_dropD)
  have mmr: "mmr_of ?ch (call_instance call) = aba_mmr ?a" using mmr_of_ref [OF inv ref] i by simp
  show ?thesis
  proof (rule sys_ok_inst [OF ok ref refl, where a' = ?a' and ch = "aba_run_call j ?ch" and rest_ch = ?rest])
    show "inst_ok ?a'" using inst_at [OF ok ref] by (simp add: inst_ok_grow aba_submit_grow)
    show "aba_run_call j ?ch = on_inst ref (\<lambda>_. ?a') ?rest" by (simp add: aba_run_call_def rc on_inst_def)
    show "aba_mmr ?a' = aba_mmr ?a \<or> aba_step c (getCoin toss (aba_id ?a)) (sys_view S (aba_id ?a))
        (set_node p (aba_mmr ?a') (sys_view S (aba_id ?a)))"
      using submit_step [OF p sys_okD(2) [OF ok p mem] refl, of toss] i mmr by simp
  qed (use sub inv0 in \<open>simp_all add: aba_submit_grow\<close>)
qed

text \<open>An instance changes on its own, and the channel with it.\<close>

lemma inst_step_ok:
  assumes ok: "sys_ok c toss mb tb S" and ref: "ref < length (abac_store (chan_of S p))"
    and a: "a = abac_store (chan_of S p) ! ref" "aba_id a' = aba_id a" "inst_ok a'" "mmr_grow (aba_mmr a) (aba_mmr a')"
    and step: "aba_mmr a' = aba_mmr a \<or> aba_step c (getCoin toss (aba_id a)) (sys_view S (aba_id a))
      (set_node p (aba_mmr a') (sys_view S (aba_id a)))"
  shows "sys_ok c toss mb tb (set_chan p (on_inst ref (\<lambda>_. a') (chan_of S p)) S)"
  by (rule sys_ok_inst [OF ok ref a refl sys_okD(1) [OF ok] refl refl subset_refl refl step])

lemma inner_step:
  assumes ok: "sys_ok c toss mb tb S" and p: "p \<in> correct c" and ref: "ref < length (abac_store (chan_of S p))"
    and a: "a = abac_store (chan_of S p) ! ref" and g: "mmr_goroutine (aba_mmr a) m'"
  shows "aba_step c (getCoin toss (aba_id a)) (sys_view S (aba_id a)) (set_node p m' (sys_view S (aba_id a)))"
  using aba_step.goroutine [OF p, of "sys_view S (aba_id a)" m'] g mmr_of_ref [OF sys_okD(1) [OF ok] ref] by (simp add: a)

lemma inner_ok:
  assumes ok: "sys_ok c toss mb tb S" and p: "p \<in> correct c" and ref: "ref < length (abac_store (chan_of S p))"
    and g: "mmr_goroutine (aba_mmr (abac_store (chan_of S p) ! ref)) m'"
  shows "sys_ok c toss mb tb (set_chan p (on_inst ref (\<lambda>a. a\<lparr>aba_mmr := m'\<rparr>) (chan_of S p)) S)"
  unfolding on_inst_const [of ref "\<lambda>a. a\<lparr>aba_mmr := m'\<rparr>"]
proof (rule inst_step_ok [OF ok ref refl])
  show "inst_ok ((abac_store (chan_of S p) ! ref)\<lparr>aba_mmr := m'\<rparr>)"
    using inst_at [OF ok ref] goroutine_grow [OF g] by (simp add: inst_ok_grow)
qed (use goroutine_grow [OF g] inner_step [OF ok p ref refl g] in simp_all)

lemma coin_ok:
  assumes ok: "sys_ok c toss mb tb S" and p: "p \<in> correct c" and ref: "ref < length (abac_store (chan_of S p))"
    and st: "aba_coin toss j ref (chan_of S p) = Some ch"
  shows "sys_ok c toss mb tb (set_chan p ch S)"
proof -
  let ?a = "abac_store (chan_of S p) ! ref"
  let ?r = "coin_wait ?a ! j"
  obtain m' res where j: "j < length (coin_wait ?a)" and op: "mmr_submitCoin (getCoin toss (aba_id ?a) ?r) ?r (aba_mmr ?a) = (m', res)"
    and ret: "res \<noteq> GoBlocked"
    and ch: "ch = on_inst ref (\<lambda>a. a\<lparr>aba_mmr := m', coin_wait := take j (coin_wait a) @ drop (Suc j) (coin_wait a)\<rparr>) (chan_of S p)"
    using st by (auto simp: aba_coin_def Let_def split: if_splits prod.splits)
  have old: "inst_ok ?a" by (rule inst_at [OF ok ref])
  then have "?r \<in> set (coinReq (aba_mmr ?a))" using j by (auto simp: inst_ok_def)
  then have step: "aba_step c (getCoin toss (aba_id ?a)) (sys_view S (aba_id ?a)) (set_node p m' (sys_view S (aba_id ?a)))"
    using aba_step.coin [OF p, of ?r "sys_view S (aba_id ?a)" "getCoin toss (aba_id ?a)" m' res] op ret
      mmr_of_ref [OF sys_okD(1) [OF ok] ref] by simp
  have grow: "mmr_grow (aba_mmr ?a) m'" using submitCoin_grow [of "aba_mmr ?a" "getCoin toss (aba_id ?a) ?r" ?r] op by simp
  let ?a' = "?a\<lparr>aba_mmr := m', coin_wait := take j (coin_wait ?a) @ drop (Suc j) (coin_wait ?a)\<rparr>"
  have "inst_ok ?a'" using inst_ok_grow [OF old grow] by (auto simp: inst_ok_def dest: in_set_takeD in_set_dropD)
  from inst_step_ok [OF ok ref refl, of ?a'] this grow step show ?thesis
    by (simp add: ch on_inst_def)
qed

lemma mmr_of_air [simp]: "mmr_of (ch\<lparr>abac_node := nd, abac_aired := h\<rparr>) = mmr_of ch"
  by (intro ext) (simp add: mmr_of_def split: option.split)

lemma air_ok:
  assumes ok: "sys_ok c toss mb tb (set_chan p ch S)"
    and new: "code = mBeb ch \<and> (\<exists>i kind r v. bs = aba_wrap i kind r v \<and> sentBy kind (mmr_of ch i) v r)
      \<or> code = tBeb ch \<and> (\<exists>i d. bs = term_wrap i d \<and> d \<in> set (ch_sent (deliverDecision (mmr_of ch i))))"
  shows "sys_ok c toss mb tb (set_chan p (fst (aba_air code bs bcast ch)) S)"
proof -
  obtain nd r where nd: "bcast (abac_node ch) = (nd, r)" by fastforce
  let ?ch = "ch\<lparr>abac_node := nd, abac_aired := abac_aired ch @ [(code, bs)]\<rparr>"
  have inv: "ch_inv c mb tb ch" using sys_okD(1) [OF ok, of p] by simp
  have "aired_ok ?ch" using ch_invD(9) [OF inv] new unfolding aired_ok_def by simp
  then have "ch_inv c mb tb ?ch" using inv unfolding ch_inv_def by simp
  from sys_ok_quiet [OF ok this, of p] have "sys_ok c toss mb tb (set_chan p ?ch (set_chan p ch S))" by simp
  then show ?thesis by (simp add: aba_air_def nd set_chan_def)
qed

lemma set_chan_twice: "set_chan p ch' (set_chan p ch S) = set_chan p ch' S"
  by (simp add: set_chan_def)

text \<open>A counter of the listener moves and the message it read goes out.\<close>

lemma counter_ok:
  assumes ok: "sys_ok c toss mb tb S" and ref: "ref < length (abac_store (chan_of S p))"
    and a: "a = abac_store (chan_of S p) ! ref"
    and upd: "\<And>x. aba_id (upd x) = aba_id x" "\<And>x. aba_mmr (upd x) = aba_mmr x" "\<And>x. inst_ok (upd x) = inst_ok x"
    and sent: "sentBy kind (aba_mmr a) v r"
  shows "sys_ok c toss mb tb (set_chan p (fst (aba_air (mBeb (chan_of S p)) (aba_wrap (aba_id a) kind r v) bcast
    (on_inst ref upd (chan_of S p)))) S)"
proof -
  let ?ch = "on_inst ref upd (chan_of S p)"
  have "sys_ok c toss mb tb (set_chan p (on_inst ref (\<lambda>_. upd a) (chan_of S p)) S)"
    by (rule inst_step_ok [OF ok ref a]) (use upd inst_at [OF ok ref] a in simp_all)
  then have ok1: "sys_ok c toss mb tb (set_chan p ?ch S)" by (simp add: on_inst_def a)
  have "mmr_of ?ch = (mmr_of (chan_of S p))(aba_id a := aba_mmr a)"
    using mmr_of_on_inst [OF sys_okD(1) [OF ok] ref, of "upd a"] upd(2) by (simp add: on_inst_def a)
  then have "sentBy kind (mmr_of ?ch (aba_id a)) v r" using sent by simp
  then show ?thesis by (intro air_ok [OF ok1]) (auto simp: on_inst_def)
qed

lemma outputDecision_ok:
  assumes ok: "sys_ok c toss mb tb S" and ref: "ref < length (abac_store (chan_of S p))"
    and d: "d \<in> set (ch_sent (deliverDecision (aba_mmr (abac_store (chan_of S p) ! ref))))"
  shows "sys_ok c toss mb tb (set_chan p (fst (aba_outputDecision ref d (chan_of S p))) S)"
proof (cases "chan_send d (decisionChan (abac_store (chan_of S p) ! ref))")
  case None
  then show ?thesis using sys_ok_quiet [OF ok sys_okD(1) [OF ok] refl] by (simp add: aba_outputDecision_def)
next
  case (Some k)
  let ?a = "abac_store (chan_of S p) ! ref"
  let ?ch = "on_inst ref (\<lambda>_. ?a\<lparr>decisionChan := k\<rparr>) (chan_of S p)"
  have k: "set (ch_sent k) = insert d (set (ch_sent (decisionChan ?a)))" using Some by (auto simp: chan_send_def split: if_splits)
  have "inst_ok (?a\<lparr>decisionChan := k\<rparr>)" using inst_at [OF ok ref] d by (auto simp: inst_ok_def k)
  then have ok1: "sys_ok c toss mb tb (set_chan p ?ch S)" by (intro inst_step_ok [OF ok ref refl]) simp_all
  have "mmr_of ?ch (aba_id ?a) = aba_mmr ?a" using mmr_of_on_inst [OF sys_okD(1) [OF ok] ref] by simp
  then have "sys_ok c toss mb tb (set_chan p (fst (aba_air (tBeb ?ch) (term_wrap (aba_id ?a) d) bcast ?ch)) S)" for bcast
    by (intro air_ok [OF ok1] disjI2 conjI exI [of _ "aba_id ?a"] exI [of _ d]) (use d in simp_all)
  then show ?thesis using Some by (simp add: aba_outputDecision_def on_inst_def Let_def)
qed

lemma listener_ok:
  assumes ok: "sys_ok c toss mb tb S" and p: "p \<in> correct c" and ref: "ref < length (abac_store (chan_of S p))"
    and st: "aba_listener q ref (chan_of S p) = Some (ch, res)"
  shows "sys_ok c toss mb tb (set_chan p ch S)"
proof -
  let ?a = "abac_store (chan_of S p) ! ref"
  let ?m = "aba_mmr ?a"
  show ?thesis
  proof (cases q)
    case LsEcho
    then obtain v r where "echo_taken ?a < length (deliverEcho ?m)" "deliverEcho ?m ! echo_taken ?a = (v, r)"
      "ch = fst (aba_air (mBeb (chan_of S p)) (aba_wrap (aba_id ?a) aba_echo r v)
        (aba_broadcastEcho (mBeb (chan_of S p)) (aba_id ?a) r v) (on_inst ref (echo_taken_update Suc) (chan_of S p)))"
      using st by (auto simp: aba_listener_def Let_def split: if_splits prod.splits)
    then show ?thesis using counter_ok [OF ok ref refl, of "echo_taken_update Suc" aba_echo v r]
      by (simp add: inst_ok_def sentBy_def) (metis nth_mem)
  next
    case LsVote
    then obtain v r where "vote_taken ?a < length (deliverVote ?m)" "deliverVote ?m ! vote_taken ?a = (v, r)"
      "ch = fst (aba_air (mBeb (chan_of S p)) (aba_wrap (aba_id ?a) aba_vote r v)
        (aba_broadcastVote (mBeb (chan_of S p)) (aba_id ?a) r v) (on_inst ref (vote_taken_update Suc) (chan_of S p)))"
      using st by (auto simp: aba_listener_def Let_def split: if_splits prod.splits)
    then show ?thesis using counter_ok [OF ok ref refl, of "vote_taken_update Suc" aba_vote v r]
      by (simp add: inst_ok_def sentBy_def) (metis nth_mem)
  next
    case LsBind
    then obtain v r where "bind_taken ?a < length (deliverBind ?m)" "deliverBind ?m ! bind_taken ?a = (v, r)"
      "ch = fst (aba_air (mBeb (chan_of S p)) (aba_wrap (aba_id ?a) aba_bind r v)
        (aba_broadcastBind (mBeb (chan_of S p)) (aba_id ?a) r v) (on_inst ref (bind_taken_update Suc) (chan_of S p)))"
      using st by (auto simp: aba_listener_def Let_def split: if_splits prod.splits)
    then show ?thesis using counter_ok [OF ok ref refl, of "bind_taken_update Suc" aba_bind v r]
      by (simp add: inst_ok_def sentBy_def) (metis nth_mem)
  next
    case LsDecision
    then obtain d m' where t: "mmr_takeDecision ?m = Some (d, m')"
      and ch: "ch = fst (aba_outputDecision ref d (on_inst ref (aba_mmr_update (\<lambda>_. m')) (chan_of S p)))"
      using st by (auto simp: aba_listener_def Let_def split: if_splits option.splits)
    let ?S = "set_chan p (on_inst ref (aba_mmr_update (\<lambda>_. m')) (chan_of S p)) S"
    have ok1: "sys_ok c toss mb tb ?S" using inner_ok [OF ok p ref mmr_goroutineI(7) [OF t]] .
    have d: "d \<in> set (ch_sent (deliverDecision m'))"
      using t by (auto simp: mmr_takeDecision_def chan_recv_Some split: option.splits)
    from outputDecision_ok [OF ok1, of ref p d] d ref show ?thesis by (simp add: ch set_chan_twice on_inst_def)
  next
    case LsCoin
    let ?a' = "?a\<lparr>coin_taken := Suc (coin_taken ?a), coin_wait := coin_wait ?a @ [coinReq ?m ! coin_taken ?a]\<rparr>"
    have lt: "coin_taken ?a < length (coinReq ?m)" and ch: "ch = on_inst ref (\<lambda>_. ?a') (chan_of S p)"
      using st LsCoin by (auto simp: aba_listener_def on_inst_def Let_def split: if_splits)
    have "inst_ok ?a'" using inst_at [OF ok ref] lt by (auto simp: inst_ok_def)
    then show ?thesis unfolding ch by (intro inst_step_ok [OF ok ref refl]) simp_all
  qed
qed

lemma result_ok:
  assumes ok: "sys_ok c toss mb tb S" and ref: "ref < length (abac_store (chan_of S p))"
    and st: "handleAsyncResultDelivery ref (chan_of S p) = Some ch"
  shows "sys_ok c toss mb tb (set_chan p ch S)"
proof -
  let ?a = "abac_store (chan_of S p) ! ref"
  have old: "inst_ok ?a" by (rule inst_at [OF ok ref])
  obtain a' where ch: "ch = on_inst ref (\<lambda>_. a') (chan_of S p)" and a': "aba_id a' = aba_id ?a" "aba_mmr a' = aba_mmr ?a" "inst_ok a'"
  proof (cases "result_pc ?a")
    case RsDecision
    then obtain a' where "ch = on_inst ref (\<lambda>_. a') (chan_of S p)"
      "recv_then decisionChan decisionChan_update (\<lambda>d. result_pc_update (\<lambda>_. RsOutput d)) ?a = Some a'"
      using st by (auto simp: handleAsyncResultDelivery_def)
    then show ?thesis using old that [of a']
      by (auto simp: recv_then_def chan_recv_Some inst_ok_def split: option.splits)
  next
    case (RsOutput d)
    then obtain a' where "ch = on_inst ref (\<lambda>_. a') (chan_of S p)"
      "send_then aba_output aba_output_update d (result_pc_update (\<lambda>_. RsTerm)) ?a = Some a'"
      using st by (auto simp: handleAsyncResultDelivery_def)
    then show ?thesis using old that [of a'] RsOutput
      by (auto simp: send_then_def chan_send_def inst_ok_def split: option.splits if_splits)
  next
    case RsTerm
    then have "chan_recv (terminatedChan ?a) = None" using old by (simp add: inst_ok_def chan_recv_def)
    then show ?thesis using st RsTerm by (simp add: handleAsyncResultDelivery_def recv_then_def)
  next
    case RsDone
    then show ?thesis using old by (simp add: inst_ok_def)
  qed
  show ?thesis unfolding ch by (rule inst_step_ok [OF ok ref refl]) (use a' in simp_all)
qed

lemma read_ok:
  assumes ok: "sys_ok c toss mb tb S" and ref: "ref < length (abac_store (chan_of S p))"
    and st: "GetOutput (abac_store (chan_of S p) ! ref) = Some (v, a)"
  shows "sys_ok c toss mb tb (set_chan p (on_inst ref (\<lambda>_. a) (chan_of S p)) S)"
  by (rule inst_step_ok [OF ok ref refl])
    (use st inst_at [OF ok ref] in \<open>auto simp: GetOutput_def chan_recv_Some inst_ok_def\<close>)

lemma mmr_of_proposed [simp]: "mmr_of (ch\<lparr>abac_proposed := h\<rparr>) = mmr_of ch"
  by (intro ext) (simp add: mmr_of_def split: option.split)

lemma mmr_of_node [simp]: "mmr_of (ch\<lparr>abac_node := nd\<rparr>) = mmr_of ch"
  by (intro ext) (simp add: mmr_of_def split: option.split)

lemma ch_inv_proposed: "ch_inv c mb tb ch \<Longrightarrow> ch_inv c mb tb (ch\<lparr>abac_proposed := h\<rparr>)"
  using aired_grow [of ch "ch\<lparr>abac_proposed := h\<rparr>"] unfolding ch_inv_def by simp

lemma sends_ok:
  assumes ok: "sys_ok c toss mb tb S"
  shows "sys_ok c toss mb tb (set_chan p ((chan_of S p)\<lparr>abac_node := nd\<rparr>) S)"
proof (rule sys_ok_quiet [OF ok])
  show "ch_inv c mb tb ((chan_of S p)\<lparr>abac_node := nd\<rparr>)"
    using sys_okD(1) [OF ok, of p] aired_grow [of "chan_of S p" "(chan_of S p)\<lparr>abac_node := nd\<rparr>"] unfolding ch_inv_def by simp
qed simp_all

lemma propose_sys_ok:
  assumes ok: "sys_ok c toss mb tb S" and p: "p \<in> correct c" and ref: "ref < length (abac_store (chan_of S p))"
  shows "sys_ok c toss mb tb (set_chan p (fst (aba_Propose_ref ref est (chan_of S p))) S)"
proof -
  let ?a = "abac_store (chan_of S p) ! ref"
  let ?i = "aba_id ?a" and ?a' = "fst (aba_Propose est ?a)"
  let ?ch = "(on_inst ref (\<lambda>_. ?a') (chan_of S p))\<lparr>abac_proposed := abac_proposed (chan_of S p) @ [(?i, est)]\<rparr>"
  note inv = sys_okD(1) [OF ok, of p]
  have ch: "fst (aba_Propose_ref ref est (chan_of S p)) = ?ch"
    using aba_Propose_mmr(2) [of est ?a] by (cases "aba_Propose est ?a") (simp add: aba_Propose_ref_def)
  have old: "mmr_of (chan_of S p) ?i = aba_mmr ?a" by (rule mmr_of_ref [OF inv ref])
  have "?a' = ?a\<lparr>aba_mmr := aba_mmr ?a'\<rparr>" by (simp add: aba_Propose_def split: prod.split)
  then have ok': "inst_ok ?a'" using inst_ok_grow [OF inst_at [OF ok ref] aba_Propose_grow] by metis
  have inv': "ch_inv c mb tb (on_inst ref (\<lambda>_. ?a') (chan_of S p))"
    by (rule on_inst_inv [OF inv ref _ ok']) (simp_all add: aba_Propose_mmr(2) aba_Propose_grow)
  show ?thesis unfolding ch
  proof (rule sys_ok_move [OF ok ch_inv_proposed [OF inv']])
    show "mmr_of ?ch = (mmr_of (chan_of S p))(?i := aba_mmr ?a')" using mmr_of_on_inst [OF inv ref] by simp
    have J: "inputs_of ?ch ?i = insert est (inputs_of (chan_of S p) ?i)" by (auto simp: inputs_of_def)
    show "aba_step c (getCoin toss ?i) (sys_view S ?i) ((set_node p (aba_mmr ?a') (sys_view S ?i))
        \<lparr>inputs := (inputs (sys_view S ?i))(p := inputs_of ?ch ?i)\<rparr>)"
      using aba_step.propose [OF p, of "getCoin toss ?i" "sys_view S ?i" est] old by (simp add: aba_Propose_mmr J)
  qed (simp_all add: old aba_Propose_grow on_inst_def inputs_of_def)
qed

lemma sys_ok_init: "sys_ok c toss mb tb (sys_init c mb tb nds)"
proof -
  have "sys_view (sys_init c mb tb nds) i = aba_init c" for i
    by (simp add: sys_view_def sys_init_def aba_init_def mmr_of_def inputs_of_def NewAbaChannel_def)
  then show ?thesis
    by (simp add: sys_ok_def aba_reach.init) (simp add: sys_init_def ch_inv_def NewAbaChannel_def aired_ok_def)
qed

lemma sys_reach_ok:
  assumes "mb \<noteq> tb" and "sys_reach c toss serialize mb tb S"
  shows "sys_ok c toss mb tb S"
  using assms(2)
proof (induction rule: sys_reach.induct)
  case (init nds)
  show ?case by (rule sys_ok_init)
next
  case (step S T)
  note ok = step.IH
  from step.hyps(2) show ?case
    by cases (simp_all add: msg_ok [OF ok assms(1)] decision_ok [OF ok assms(1)] create_ok [OF ok] propose_sys_ok [OF ok]
        call_step_ok [OF ok] listener_ok [OF ok] coin_ok [OF ok] result_ok [OF ok] read_ok [OF ok] inner_ok [OF ok] sends_ok [OF ok])
qed

section \<open>Results\<close>




text \<open>
  C34. No instance is ever closed: the goroutine that would close it waits for \<^verbatim>\<open>terminatedChan\<close>, which
  nothing writes, so the map of finished instances stays empty.
\<close>

theorem aba_never_finishes:
  assumes "mb \<noteq> tb" and "sys_reach c toss serialize mb tb S"
  shows "abac_finished (chan_of S p) = {}
    \<and> (\<forall>a \<in> set (abac_store (chan_of S p)). ch_sent (terminatedChan a) = [] \<and> result_pc a \<noteq> RsDone)"
  using ch_invD(5,7) [OF sys_okD(1) [OF sys_reach_ok [OF assms], of p]] by (auto simp: inst_ok_def)

end
