(* ===== verification/ACS_BKR.thy ===== *)
theory ACS_BKR
  imports ACS_Acceptor ABA_System
begin

text \<open>
  One instance of agreement on a common subset (\<^verbatim>\<open>agreementCommonSubset/bkr.go\<close>): an acceptor per
  proposer, a goroutine \<^verbatim>\<open>waitAcceptorResponse\<close> per acceptor, and the goroutine \<^verbatim>\<open>processResponses\<close>, which
  collects the responses and, once \<open>n - f\<close> proposals are accepted, votes against the others.  The
  goroutines are program counters; the test \<^verbatim>\<open>hasProposed\<close> and the call of \<^verbatim>\<open>rejectProposal\<close> that follows
  it are two steps.  In \<^verbatim>\<open>results\<close> the nil slice is \<open>None\<close>: an accepted proposal is a slice of the
  broadcast content and is never nil.
\<close>

section \<open>State\<close>

datatype forward_pc = AwaitAcceptor | ForwardResponse "bytes option" | Forwarded

datatype process_pc = PrRecv nat | PrCheck nat nat | PrReject nat nat | PrDone

record bkr =
  bkr_id :: uuid
  bkr_f :: uint
  acceptors :: "proposalAcceptor list"
  resultsChan :: "(bytes option \<times> nat) chan"
  results :: "bytes option list"
  bkr_output :: "bytes list chan"
  forward_pcs :: "forward_pc list"
  process_pc :: process_pc

datatype bkr_error = UnableToFindAcceptor uuid | AcceptorError acceptor_error

section \<open>Operations\<close>

definition abaIdOf :: "uuid \<Rightarrow> uuid \<Rightarrow> uuid" where
  "abaIdOf bkrId proposer = BytesToUUID (uuid_bytes bkrId @ uuid_bytes proposer)"

fun computeAcceptors :: "uuid \<Rightarrow> uuid list \<Rightarrow> 'pk AbaChannel \<Rightarrow> 'pk AbaChannel \<times> proposalAcceptor list" where
  "computeAcceptors bkrId [] ch = (ch, [])"
| "computeAcceptors bkrId (proposer # proposers) ch =
     (let (ch1, a) = newProposalAcceptor (abaIdOf bkrId proposer) proposer ch;
          (ch2, as) = computeAcceptors bkrId proposers ch1
      in (ch2, a # as))"

definition newBKR :: "uuid \<Rightarrow> uint \<Rightarrow> uuid list \<Rightarrow> 'pk AbaChannel \<Rightarrow> 'pk AbaChannel \<times> bkr" where
  "newBKR i f proposers abaChan =
     (case computeAcceptors i proposers abaChan of
        (ch, as) \<Rightarrow> (ch, \<lparr>bkr_id = i, bkr_f = f, acceptors = as, resultsChan = make_chan (length proposers),
                      results = replicate (length proposers) None, bkr_output = make_chan 1,
                      forward_pcs = replicate (length proposers) AwaitAcceptor, process_pc = PrRecv 0\<rparr>))"

definition waitAcceptorResponse :: "nat \<Rightarrow> bkr \<Rightarrow> bkr option" where
  "waitAcceptorResponse idx b =
     (case forward_pcs b ! idx of
        AwaitAcceptor \<Rightarrow>
          (let a = acceptors b ! idx
           in map_option (\<lambda>(response, ch). b\<lparr>acceptors := (acceptors b)[idx := a\<lparr>pa_output := ch\<rparr>],
                  forward_pcs := (forward_pcs b)[idx := ForwardResponse response]\<rparr>) (chan_recv (pa_output a)))
      | ForwardResponse response \<Rightarrow>
          send_then resultsChan resultsChan_update (response, idx) (forward_pcs_update (\<lambda>pcs. pcs[idx := Forwarded])) b
      | Forwarded \<Rightarrow> None)"

definition getAccepted :: "bkr \<Rightarrow> bytes list" where
  "getAccepted b = map the (filter (\<lambda>r. r \<noteq> None) (results b))"

definition processResponses :: "'pk AbaChannel \<times> bkr \<Rightarrow> ('pk AbaChannel \<times> bkr) option" where
  "processResponses = (\<lambda>(ch, b).
     case process_pc b of
       PrRecv i \<Rightarrow>
         if i < length (acceptors b)
         then (case chan_recv (resultsChan b) of
                 None \<Rightarrow> None
               | Some ((proposal, idx), rc) \<Rightarrow>
                   (let b1 = b\<lparr>resultsChan := rc, results := (results b)[idx := proposal]\<rparr>
                    in Some (ch, b1\<lparr>process_pc :=
                         if proposal \<noteq> None \<and> int (length (getAccepted b1)) = int (length (acceptors b1)) - int_of_uint (bkr_f b1)
                         then PrCheck i 0 else PrRecv (Suc i)\<rparr>)))
         else map_option (Pair ch) (send_then bkr_output bkr_output_update (getAccepted b) (process_pc_update (\<lambda>_. PrDone)) b)
     | PrCheck i j \<Rightarrow>
         Some (ch, b\<lparr>process_pc :=
           if j < length (acceptors b)
           then (if hasProposed (acceptors b ! j) then PrCheck i (Suc j) else PrReject i j)
           else PrRecv (Suc i)\<rparr>)
     | PrReject i j \<Rightarrow>
         (case fst (rejectProposal (ch, acceptors b ! j)) of
            (ch1, a) \<Rightarrow> Some (ch1, b\<lparr>acceptors := (acceptors b)[j := a], process_pc := PrCheck i (Suc j)\<rparr>))
     | PrDone \<Rightarrow> None)"

definition getAcceptor :: "uuid \<Rightarrow> bkr \<Rightarrow> nat option" where
  "getAcceptor proposer b = List.find (\<lambda>j. pa_proposer (acceptors b ! j) = proposer) [0..<length (acceptors b)]"

definition receiveInput :: "bytes \<Rightarrow> uuid \<Rightarrow> 'pk AbaChannel \<times> bkr \<Rightarrow> ('pk AbaChannel \<times> bkr) \<times> bkr_error outcome" where
  "receiveInput input proposer = (\<lambda>(ch, b).
     case getAcceptor proposer b of
       None \<Rightarrow> ((ch, b), GoErr (UnableToFindAcceptor proposer))
     | Some j \<Rightarrow>
         (case submitInput input (ch, acceptors b ! j) of
            ((ch1, a), r) \<Rightarrow> wrap_err AcceptorError ((ch1, b\<lparr>acceptors := (acceptors b)[j := a]\<rparr>), r)))"

text \<open>A step of the goroutine \<^verbatim>\<open>waitResponse\<close> of the acceptor \<open>j\<close>.\<close>

definition acceptor_step :: "nat \<Rightarrow> 'pk AbaChannel \<times> bkr \<Rightarrow> ('pk AbaChannel \<times> bkr) option" where
  "acceptor_step j = (\<lambda>(ch, b).
     map_option (\<lambda>(ch1, a). (ch1, b\<lparr>acceptors := (acceptors b)[j := a]\<rparr>)) (waitResponse (ch, acceptors b ! j)))"

section \<open>The invariant\<close>

definition processed :: "bkr \<Rightarrow> (bytes option \<times> nat) list" where
  "processed b = take (ch_taken (resultsChan b)) (ch_sent (resultsChan b))"

text \<open>The instance has accepted at least \<open>n - f\<close> proposals, which allows it to vote against the others.\<close>

definition enough :: "bkr \<Rightarrow> bool" where
  "enough b \<longleftrightarrow> int (length (acceptors b)) - int_of_uint (bkr_f b) \<le> int (length (getAccepted b))"

definition acceptors_ok :: "uuid list \<Rightarrow> 'pk AbaChannel \<Rightarrow> bkr \<Rightarrow> bool" where
  "acceptors_ok P ch b \<longleftrightarrow> length (acceptors b) = length P
     \<and> (\<forall>j < length P. acc_inv (abaIdOf (bkr_id b) (P ! j)) ch (acceptors b ! j) \<and> pa_proposer (acceptors b ! j) = P ! j)"

definition responses_ok :: "uuid list \<Rightarrow> bkr \<Rightarrow> bool" where
  "responses_ok P b \<longleftrightarrow> length (forward_pcs b) = length P \<and> distinct (map snd (ch_sent (resultsChan b)))
     \<and> (\<forall>(r, j) \<in> set (ch_sent (resultsChan b)). j < length P \<and> r \<in> set (ch_sent (pa_output (acceptors b ! j))))
     \<and> (\<forall>j < length P. (forward_pcs b ! j = Forwarded \<longleftrightarrow> j \<in> snd ` set (ch_sent (resultsChan b)))
          \<and> (\<forall>r. forward_pcs b ! j = ForwardResponse r \<longrightarrow> r \<in> set (ch_sent (pa_output (acceptors b ! j)))))"

definition results_ok :: "uuid list \<Rightarrow> bkr \<Rightarrow> bool" where
  "results_ok P b \<longleftrightarrow> length (results b) = length P \<and> ch_taken (resultsChan b) \<le> length (ch_sent (resultsChan b))
     \<and> (\<forall>(r, j) \<in> set (processed b). results b ! j = r)
     \<and> (\<forall>j < length P. j \<notin> snd ` set (processed b) \<longrightarrow> results b ! j = None)"

fun process_ok :: "uuid list \<Rightarrow> process_pc \<Rightarrow> bkr \<Rightarrow> bool" where
  "process_ok P (PrRecv i) b \<longleftrightarrow> ch_taken (resultsChan b) = i \<and> i \<le> length P \<and> ch_sent (bkr_output b) = []"
| "process_ok P (PrCheck i j) b \<longleftrightarrow> ch_taken (resultsChan b) = Suc i \<and> i < length P \<and> enough b \<and> ch_sent (bkr_output b) = []"
| "process_ok P (PrReject i j) b \<longleftrightarrow>
     ch_taken (resultsChan b) = Suc i \<and> i < length P \<and> j < length P \<and> enough b \<and> ch_sent (bkr_output b) = []"
| "process_ok P PrDone b \<longleftrightarrow> ch_taken (resultsChan b) = length P \<and> ch_sent (bkr_output b) = [getAccepted b]"

definition bkr_inv :: "uuid list \<Rightarrow> 'pk AbaChannel \<Rightarrow> bkr \<Rightarrow> bool" where
  "bkr_inv P ch b \<longleftrightarrow> acceptors_ok P ch b \<and> responses_ok P b \<and> results_ok P b \<and> process_ok P (process_pc b) b"

lemma bkr_invD:
  assumes "bkr_inv P ch b"
  shows "acceptors_ok P ch b" "responses_ok P b" "results_ok P b" "process_ok P (process_pc b) b"
    "length (acceptors b) = length P"
    "j < length P \<Longrightarrow> acc_inv (abaIdOf (bkr_id b) (P ! j)) ch (acceptors b ! j)"
    "j < length P \<Longrightarrow> pa_proposer (acceptors b ! j) = P ! j"
  using assms by (auto simp: bkr_inv_def acceptors_ok_def)

lemma bkr_inv_grow: "bkr_inv P ch b \<Longrightarrow> store_grow ch ch' \<Longrightarrow> bkr_inv P ch' b"
  unfolding bkr_inv_def acceptors_ok_def using acc_inv_grow by blast

text \<open>What the operations keep: the identity of the instance, and acceptance.\<close>

definition bkr_le :: "bkr \<Rightarrow> bkr \<Rightarrow> bool" where
  "bkr_le b b' \<longleftrightarrow> bkr_id b' = bkr_id b \<and> bkr_f b' = bkr_f b \<and> length (acceptors b') = length (acceptors b)
     \<and> length (getAccepted b) \<le> length (getAccepted b')"

lemma bkr_le_refl [simp]: "bkr_le b b"
  by (simp add: bkr_le_def)

lemma enough_le: "enough b \<Longrightarrow> bkr_le b b' \<Longrightarrow> enough b'"
  by (simp add: enough_def bkr_le_def)

lemma getAccepted_fill:
  assumes "j < length (results b)" and "results b ! j = None"
  shows "length (filter (\<lambda>r. r \<noteq> None) (results b)) \<le> length (filter (\<lambda>r. r \<noteq> None) ((results b)[j := r]))"
proof -
  have "{k. k < length (results b) \<and> results b ! k \<noteq> None} \<subseteq>
      {k. k < length ((results b)[j := r]) \<and> (results b)[j := r] ! k \<noteq> None}"
    using assms by (auto simp: nth_list_update)
  then show ?thesis by (simp only: length_filter_conv_card) (rule card_mono, simp_all)
qed

lemma responses_okD:
  assumes "responses_ok P b"
  shows "length (forward_pcs b) = length P" "distinct (map snd (ch_sent (resultsChan b)))"
    "(r, j) \<in> set (ch_sent (resultsChan b)) \<Longrightarrow> j < length P \<and> r \<in> set (ch_sent (pa_output (acceptors b ! j)))"
    "j < length P \<Longrightarrow> forward_pcs b ! j = Forwarded \<longleftrightarrow> j \<in> snd ` set (ch_sent (resultsChan b))"
    "j < length P \<Longrightarrow> forward_pcs b ! j = ForwardResponse r \<Longrightarrow> r \<in> set (ch_sent (pa_output (acceptors b ! j)))"
  using assms unfolding responses_ok_def by blast+

lemma responses_ok_out:
  assumes "responses_ok P b" and "forward_pcs b' = forward_pcs b" "ch_sent (resultsChan b') = ch_sent (resultsChan b)"
    and "\<And>r j. r \<in> set (ch_sent (pa_output (acceptors b ! j))) \<Longrightarrow> r \<in> set (ch_sent (pa_output (acceptors b' ! j)))"
  shows "responses_ok P b'"
  unfolding responses_ok_def assms(2,3)
  using responses_okD(1,2,4) [OF assms(1)] assms(4) [OF conjunct2 [OF responses_okD(3) [OF assms(1)]]]
    responses_okD(3) [OF assms(1)] assms(4) [OF responses_okD(5) [OF assms(1)]] by blast

lemma acceptor_moves:
  assumes inv: "bkr_inv P ch b" and j: "j < length P" and grow: "store_grow ch ch'"
    and a: "acc_inv (abaIdOf (bkr_id b) (P ! j)) ch' a" "pa_proposer a = P ! j"
      "set (ch_sent (pa_output (acceptors b ! j))) \<subseteq> set (ch_sent (pa_output a))"
  shows "bkr_inv P ch' (b\<lparr>acceptors := (acceptors b)[j := a]\<rparr>)" "bkr_le b (b\<lparr>acceptors := (acceptors b)[j := a]\<rparr>)"
proof -
  let ?b = "b\<lparr>acceptors := (acceptors b)[j := a]\<rparr>"
  note old = bkr_invD [OF bkr_inv_grow [OF inv grow]]
  have out: "r \<in> set (ch_sent (pa_output (acceptors ?b ! k)))" if "r \<in> set (ch_sent (pa_output (acceptors b ! k)))" for r k
    using that a(3) j old(5) by (cases "k = j") auto
  have "acceptors_ok P ch' ?b" using old(5-7) a(1,2) j by (simp add: acceptors_ok_def nth_list_update)
  moreover have "responses_ok P ?b" by (rule responses_ok_out [OF old(2)]) (use out in simp_all)
  moreover have "results_ok P ?b" using old(3) by (simp add: results_ok_def processed_def)
  moreover have "process_ok P (process_pc ?b) ?b" using old(4)
    by (cases "process_pc b") (simp_all add: enough_def getAccepted_def)
  ultimately show "bkr_inv P ch' ?b" by (simp add: bkr_inv_def)
  show "bkr_le b ?b" by (simp add: bkr_le_def getAccepted_def)
qed

section \<open>Operations keep the invariant\<close>

lemma acceptor_step_inv:
  assumes st: "acceptor_step j (ch, b) = Some (ch', b')" and inv: "bkr_inv P ch b" and j: "j < length P"
  shows "bkr_inv P ch' b'" "store_grow ch ch'" "bkr_le b b'" "abac_proposed ch' = abac_proposed ch"
    "bkr_id b' = bkr_id b \<and> (\<forall>k < length P. pa_input (acceptors b' ! k) = pa_input (acceptors b ! k))"
proof -
  obtain a where a: "waitResponse (ch, acceptors b ! j) = Some (ch', a)" and b': "b' = b\<lparr>acceptors := (acceptors b)[j := a]\<rparr>"
    using st by (auto simp: acceptor_step_def)
  note w = waitResponse_inv [OF a bkr_invD(6) [OF inv j]]
  show "store_grow ch ch'" "abac_proposed ch' = abac_proposed ch" using w by simp_all
  show "bkr_inv P ch' b'" "bkr_le b b'"
    unfolding b' by (rule acceptor_moves [OF inv j w(2,1)], use w(3,5) bkr_invD(7) [OF inv j] in simp_all)+
  show "bkr_id b' = bkr_id b \<and> (\<forall>k < length P. pa_input (acceptors b' ! k) = pa_input (acceptors b ! k))"
    using w(4) bkr_invD(5) [OF inv] j by (simp add: b' nth_list_update)
qed

text \<open>A value was sent to the other channel of an acceptor or taken from it.\<close>

lemma acc_inv_taken:
  assumes "acc_inv i ch a" and "ch_sent k = ch_sent (pa_output a)"
  shows "acc_inv i ch (a\<lparr>pa_output := k\<rparr>)"
proof -
  have "justified ch (a\<lparr>pa_output := k\<rparr>) res = justified ch a res" for res by (cases res) (simp_all add: acc_outputs_def)
  then show ?thesis using assms by (simp add: acc_inv_def acc_ref_def acc_outputs_def)
qed

lemma waitAcceptorResponse_inv:
  assumes st: "waitAcceptorResponse j b = Some b'" and inv: "bkr_inv P ch b" and j: "j < length P"
  shows "bkr_inv P ch b'" "bkr_le b b'" "\<forall>k < length P. pa_input (acceptors b' ! k) = pa_input (acceptors b ! k)"
proof -
  have "bkr_inv P ch b' \<and> bkr_le b b' \<and> (\<forall>k < length P. pa_input (acceptors b' ! k) = pa_input (acceptors b ! k))"
  proof (cases "forward_pcs b ! j")
    case AwaitAcceptor
    let ?a = "acceptors b ! j"
    obtain r k where r: "chan_recv (pa_output ?a) = Some (r, k)"
      and b': "b' = b\<lparr>acceptors := (acceptors b)[j := ?a\<lparr>pa_output := k\<rparr>], forward_pcs := (forward_pcs b)[j := ForwardResponse r]\<rparr>"
      using st AwaitAcceptor by (auto simp: waitAcceptorResponse_def Let_def)
    have k: "ch_sent k = ch_sent (pa_output ?a)" "r \<in> set (ch_sent (pa_output ?a))" using r by (auto simp: chan_recv_Some)
    define b1 where "b1 = b\<lparr>acceptors := (acceptors b)[j := ?a\<lparr>pa_output := k\<rparr>]\<rparr>"
    have b1: "bkr_inv P ch b1" "bkr_le b b1" unfolding b1_def
      by (rule acceptor_moves [OF inv j store_grow_refl acc_inv_taken [OF bkr_invD(6) [OF inv j] k(1)]];
          simp add: bkr_invD(7) [OF inv j] k)+
    have b1': "b' = b1\<lparr>forward_pcs := (forward_pcs b1)[j := ForwardResponse r]\<rparr>" by (simp add: b' b1_def)
    have len: "j < length (acceptors b)" "length (acceptors b) = length P" using bkr_invD(5) [OF inv] j by simp_all
    have "j \<notin> snd ` set (ch_sent (resultsChan b1))"
      using responses_okD(4) [OF bkr_invD(2) [OF inv] j] AwaitAcceptor by (simp add: b1_def)
    moreover have "r \<in> set (ch_sent (pa_output (acceptors b1 ! j)))" using k len by (simp add: b1_def)
    ultimately have "responses_ok P b'"
      using responses_okD [OF bkr_invD(2) [OF b1(1)]] j by (auto simp: responses_ok_def b1' nth_list_update split: if_splits)
    moreover have "process_ok P (process_pc b') b'"
      using bkr_invD(4) [OF b1(1)] by (cases "process_pc b1") (simp_all add: b1' enough_def getAccepted_def)
    ultimately have "bkr_inv P ch b'"
      using bkr_invD(1,3) [OF b1(1)] by (simp add: bkr_inv_def acceptors_ok_def results_ok_def processed_def b1')
    moreover have "bkr_le b b'" using b1(2) by (simp add: bkr_le_def b1' getAccepted_def)
    ultimately show ?thesis using len by (simp add: b' nth_list_update)
  next
    case (ForwardResponse r)
    let ?rc = "(resultsChan b)\<lparr>ch_sent := ch_sent (resultsChan b) @ [(r, j)]\<rparr>"
    have b': "b' = b\<lparr>resultsChan := ?rc, forward_pcs := (forward_pcs b)[j := Forwarded]\<rparr>"
      using st ForwardResponse by (auto simp: waitAcceptorResponse_def send_then_def chan_send_def split: if_splits)
    note resp = responses_okD [OF bkr_invD(2) [OF inv]]
    have "j \<notin> snd ` set (ch_sent (resultsChan b))" using resp(4) [OF j] ForwardResponse by simp
    then have "distinct (map snd (ch_sent ?rc))" using resp(2) by simp
    moreover have "r \<in> set (ch_sent (pa_output (acceptors b ! j)))" by (rule resp(5) [OF j ForwardResponse])
    ultimately have "responses_ok P b'"
      using resp(1,3-5) j by (auto simp: responses_ok_def b' nth_list_update split: if_splits)
    moreover have "processed b' = processed b" using bkr_invD(3) [OF inv] by (simp add: results_ok_def processed_def b')
    moreover have "process_ok P (process_pc b') b'"
      using bkr_invD(4) [OF inv] by (cases "process_pc b") (simp_all add: b' enough_def getAccepted_def)
    ultimately have "bkr_inv P ch b'"
      using bkr_invD(1,3) [OF inv] by (simp add: bkr_inv_def acceptors_ok_def results_ok_def) (simp add: b')
    then show ?thesis by (simp add: b' bkr_le_def getAccepted_def)
  next
    case Forwarded
    then show ?thesis using st by (simp add: waitAcceptorResponse_def)
  qed
  then show "bkr_inv P ch b'" "bkr_le b b'" "\<forall>k < length P. pa_input (acceptors b' ! k) = pa_input (acceptors b ! k)" by auto
qed

text \<open>One turn of the loop of \<^verbatim>\<open>processResponses\<close>.\<close>

lemma process_recv_inv:
  assumes inv: "bkr_inv P ch b" and i: "process_pc b = PrRecv i" "i < length P"
    and rc: "chan_recv (resultsChan b) = Some ((r, j), rc)"
    and pc: "process_ok P pc (b\<lparr>resultsChan := rc, results := (results b)[j := r], process_pc := pc\<rparr>)"
  shows "bkr_inv P ch (b\<lparr>resultsChan := rc, results := (results b)[j := r], process_pc := pc\<rparr>)" (is "bkr_inv P ch ?b")
    and "bkr_le b (b\<lparr>resultsChan := rc, results := (results b)[j := r], process_pc := pc\<rparr>)"
proof -
  note resp = responses_okD [OF bkr_invD(2) [OF inv]]
  let ?sent = "ch_sent (resultsChan b)"
  have t: "ch_taken (resultsChan b) = i" using bkr_invD(4) [OF inv] i by simp
  have sent: "ch_sent rc = ?sent" "ch_taken rc = Suc i" "i < length ?sent" "?sent ! i = (r, j)"
    using rc t by (auto simp: chan_recv_Some)
  have mem: "(r, j) \<in> set ?sent" using sent(3,4) by (metis nth_mem)
  have j: "j < length P" using resp(3) [OF mem] by simp
  have pr: "processed ?b = processed b @ [(r, j)]" using sent t by (simp add: processed_def take_Suc_conv_app_nth)
  have "distinct (map snd (take (Suc i) ?sent))" using resp(2) by (metis distinct_take take_map)
  then have fresh: "j \<notin> snd ` set (processed b)" using sent(3,4) t by (simp add: take_Suc_conv_app_nth processed_def)
  have res: "length (results b) = length P" "\<And>q k. (q, k) \<in> set (processed b) \<Longrightarrow> results b ! k = q"
    "\<And>k. k < length P \<Longrightarrow> k \<notin> snd ` set (processed b) \<Longrightarrow> results b ! k = None"
    using bkr_invD(3) [OF inv] by (auto simp: results_ok_def)
  have "results ?b ! k = q" if "(q, k) \<in> set (processed ?b)" for q k
    using that res(1,2) j fresh by (cases "k = j") (auto simp: pr image_iff)
  moreover have "results ?b ! k = None" if "k < length P" "k \<notin> snd ` set (processed ?b)" for k
    using that res(3) [OF that(1)] by (cases "k = j") (auto simp: pr)
  ultimately have "results_ok P ?b" unfolding results_ok_def using res(1) sent by auto
  moreover have "responses_ok P ?b" by (rule responses_ok_out [OF bkr_invD(2) [OF inv]]) (simp_all add: sent)
  moreover have "acceptors_ok P ch ?b" using bkr_invD(1) [OF inv] by (simp add: acceptors_ok_def)
  ultimately show "bkr_inv P ch ?b" using pc by (simp add: bkr_inv_def)
  show "bkr_le b ?b" using getAccepted_fill [of j b r] j res(1) res(3) [OF j fresh] by (simp add: bkr_le_def getAccepted_def)
qed

lemma processResponses_inv:
  assumes st: "processResponses (ch, b) = Some (ch', b')" and inv: "bkr_inv P ch b"
  shows "bkr_inv P ch' b'" "store_grow ch ch'" "bkr_le b b'" "\<forall>k < length P. pa_input (acceptors b' ! k) = pa_input (acceptors b ! k)"
    "(i, v) \<in> set (abac_proposed ch') \<Longrightarrow>
      (i, v) \<in> set (abac_proposed ch) \<or> enough b \<and> (\<exists>x \<in> set P. i = abaIdOf (bkr_id b) x)"
proof -
  note len = bkr_invD(5) [OF inv]
  have "bkr_inv P ch' b' \<and> store_grow ch ch' \<and> bkr_le b b' \<and> (\<forall>k < length P. pa_input (acceptors b' ! k) = pa_input (acceptors b ! k))
    \<and> (\<forall>i v. (i, v) \<in> set (abac_proposed ch') \<longrightarrow>
      (i, v) \<in> set (abac_proposed ch) \<or> enough b \<and> (\<exists>x \<in> set P. i = abaIdOf (bkr_id b) x))"
  proof (cases "process_pc b")
    case (PrRecv n)
    note ok = bkr_invD(4) [OF inv, unfolded PrRecv]
    show ?thesis
    proof (cases "n < length P")
      case True
      then obtain r j rc where rc: "chan_recv (resultsChan b) = Some ((r, j), rc)"
        using st PrRecv len by (auto simp: processResponses_def split: option.splits)
      define b1 where "b1 = b\<lparr>resultsChan := rc, results := (results b)[j := r]\<rparr>"
      let ?hit = "r \<noteq> None \<and> int (length (getAccepted b1)) = int (length (acceptors b1)) - int_of_uint (bkr_f b1)"
      define pc where "pc = (if ?hit then PrCheck n 0 else PrRecv (Suc n))"
      have b': "b' = b\<lparr>resultsChan := rc, results := (results b)[j := r], process_pc := pc\<rparr>" and ch: "ch' = ch"
        using st PrRecv len True rc by (auto simp: processResponses_def b1_def pc_def Let_def)
      have "ch_taken rc = Suc n" using rc ok by (auto simp: chan_recv_Some)
      then have "process_ok P pc b'" using ok True by (auto simp: b' pc_def b1_def enough_def getAccepted_def)
      from process_recv_inv [OF inv PrRecv True rc, of pc] this show ?thesis by (simp add: b' ch)
    next
      case False
      then have b': "b' = b\<lparr>bkr_output := (bkr_output b)\<lparr>ch_sent := ch_sent (bkr_output b) @ [getAccepted b]\<rparr>, process_pc := PrDone\<rparr>" and ch: "ch' = ch"
        using st PrRecv len by (auto simp: processResponses_def send_then_def chan_send_def split: if_splits)
      have "process_ok P PrDone b'" using ok False by (simp add: b' getAccepted_def)
      moreover have "responses_ok P b'" by (rule responses_ok_out [OF bkr_invD(2) [OF inv]]) (simp_all add: b')
      ultimately show ?thesis using bkr_invD(1,3) [OF inv]
        by (simp add: ch bkr_inv_def acceptors_ok_def results_ok_def processed_def bkr_le_def getAccepted_def) (simp add: b' getAccepted_def)
    qed
  next
    case (PrCheck n j)
    define pc where "pc = (if j < length P then (if hasProposed (acceptors b ! j) then PrCheck n (Suc j) else PrReject n j) else PrRecv (Suc n))"
    have b': "b' = b\<lparr>process_pc := pc\<rparr>" and ch: "ch' = ch" using st PrCheck len by (auto simp: processResponses_def pc_def)
    have "process_ok P pc b'" using bkr_invD(4) [OF inv, unfolded PrCheck] by (auto simp: b' pc_def enough_def getAccepted_def)
    moreover have "responses_ok P b'" by (rule responses_ok_out [OF bkr_invD(2) [OF inv]]) (simp_all add: b')
    ultimately show ?thesis using bkr_invD(1,3) [OF inv]
      by (simp add: ch b' bkr_inv_def acceptors_ok_def results_ok_def processed_def bkr_le_def getAccepted_def)
  next
    case (PrReject n j)
    have ok: "j < length P" "enough b" "process_ok P (PrCheck n (Suc j)) b" using bkr_invD(4) [OF inv, unfolded PrReject] by simp_all
    obtain a r where rej: "rejectProposal (ch, acceptors b ! j) = ((ch', a), r)"
      and b': "b' = (b\<lparr>acceptors := (acceptors b)[j := a]\<rparr>)\<lparr>process_pc := PrCheck n (Suc j)\<rparr>"
      using st PrReject by (cases "rejectProposal (ch, acceptors b ! j)") (auto simp: processResponses_def split: prod.splits)
    note w = rejectProposal_inv [OF rej bkr_invD(6) [OF inv ok(1)]]
    define b1 where "b1 = b\<lparr>acceptors := (acceptors b)[j := a]\<rparr>"
    have b1: "bkr_inv P ch' b1" "bkr_le b b1"
      unfolding b1_def by (rule acceptor_moves [OF inv ok(1) w(2,1)]; simp add: w(3,4) bkr_invD(7) [OF inv ok(1)])+
    have b1': "b' = b1\<lparr>process_pc := PrCheck n (Suc j)\<rparr>" by (simp add: b' b1_def)
    have "process_ok P (PrCheck n (Suc j)) b'" using ok(3) by (simp add: b' enough_def getAccepted_def)
    moreover have "responses_ok P b'" by (rule responses_ok_out [OF bkr_invD(2) [OF b1(1)]]) (simp_all add: b1')
    ultimately have "bkr_inv P ch' b'" using bkr_invD(1,3) [OF b1(1)]
      by (simp add: b1' bkr_inv_def acceptors_ok_def results_ok_def processed_def)
    moreover have "bkr_le b b'" using b1(2) by (simp add: bkr_le_def b1' getAccepted_def)
    moreover have "P ! j \<in> set P" using ok(1) by simp
    ultimately show ?thesis using w(2,5,6) ok(1,2) len by (auto simp: b' nth_list_update)
  next
    case PrDone
    then show ?thesis using st by (simp add: processResponses_def)
  qed
  then show "bkr_inv P ch' b'" "store_grow ch ch'" "bkr_le b b'" "\<forall>k < length P. pa_input (acceptors b' ! k) = pa_input (acceptors b ! k)"
    "(i, v) \<in> set (abac_proposed ch') \<Longrightarrow>
      (i, v) \<in> set (abac_proposed ch) \<or> enough b \<and> (\<exists>x \<in> set P. i = abaIdOf (bkr_id b) x)" by blast+
qed

lemma getAcceptor_Some: "bkr_inv P ch b \<Longrightarrow> getAcceptor x b = Some j \<Longrightarrow> j < length P \<and> P ! j = x"
  using bkr_invD(5,7) [of P ch b] by (auto simp: getAcceptor_def find_Some_iff)

lemma receiveInput_inv:
  assumes st: "receiveInput input x (ch, b) = ((ch', b'), r)" and inv: "bkr_inv P ch b"
  shows "bkr_inv P ch' b'" "store_grow ch ch'" "bkr_le b b'"
    "k < length P \<Longrightarrow> pa_input (acceptors b' ! k) = Some y \<Longrightarrow> pa_input (acceptors b ! k) = Some y \<or> P ! k = x \<and> y = input"
    "(i, v) \<in> set (abac_proposed ch') \<Longrightarrow> (i, v) \<in> set (abac_proposed ch) \<or> v = accept"
proof -
  have "bkr_inv P ch' b' \<and> store_grow ch ch' \<and> bkr_le b b'
    \<and> (\<forall>k y. k < length P \<longrightarrow> pa_input (acceptors b' ! k) = Some y \<longrightarrow> pa_input (acceptors b ! k) = Some y \<or> P ! k = x \<and> y = input)
    \<and> (\<forall>i v. (i, v) \<in> set (abac_proposed ch') \<longrightarrow> (i, v) \<in> set (abac_proposed ch) \<or> v = accept)"
  proof (cases "getAcceptor x b")
    case None
    then show ?thesis using st inv by (auto simp: receiveInput_def)
  next
    case (Some j)
    note j = getAcceptor_Some [OF inv Some]
    obtain ch1 a r1 where sub: "submitInput input (ch, acceptors b ! j) = ((ch1, a), r1)" by (metis prod.exhaust)
    have "fst (wrap_err AcceptorError ((ch1, b\<lparr>acceptors := (acceptors b)[j := a]\<rparr>), r1)) = (ch', b')"
      using st Some sub by (simp add: receiveInput_def)
    then have ch: "ch1 = ch'" and b': "b' = b\<lparr>acceptors := (acceptors b)[j := a]\<rparr>" by simp_all
    note w = submitInput_inv [OF sub [unfolded ch] bkr_invD(6) [OF inv conjunct1 [OF j]]]
    have "bkr_inv P ch' b'" "bkr_le b b'" unfolding b'
      by (rule acceptor_moves [OF inv conjunct1 [OF j] w(2,1)]; simp add: w(3,4) bkr_invD(7) [OF inv conjunct1 [OF j]])+
    then show ?thesis using w(2,5,6) j bkr_invD(5) [OF inv] by (auto simp: b' nth_list_update split: option.splits if_splits)
  qed
  then show "bkr_inv P ch' b'" "store_grow ch ch'" "bkr_le b b'"
    "k < length P \<Longrightarrow> pa_input (acceptors b' ! k) = Some y \<Longrightarrow> pa_input (acceptors b ! k) = Some y \<or> P ! k = x \<and> y = input"
    "(i, v) \<in> set (abac_proposed ch') \<Longrightarrow> (i, v) \<in> set (abac_proposed ch) \<or> v = accept" by blast+
qed

lemma newProposalAcceptor_inv:
  assumes st: "newProposalAcceptor i x ch = (ch', a)" and inv: "ch_inv c mb tb ch"
  shows "ch_inv c mb tb ch'" "store_grow ch ch'" "abac_proposed ch' = abac_proposed ch" "ch' = fst (NewAbaInstance i ch)"
    "acc_inv i ch' a" "pa_proposer a = x" "pa_input a = None"
proof -
  obtain ch1 ref where g: "aba_getInstance i ch = ((ch1, Some ref), GoNil)" "ch_inv c mb tb ch1" "ref < length (abac_store ch1)"
    "aba_id (abac_store ch1 ! ref) = i" "abac_proposed ch1 = abac_proposed ch"
    "abac_store ch1 = abac_store ch \<or> abac_store ch1 = abac_store ch @ [newAbaNetworkedInstance i (abac_n ch) (abac_f ch)]"
    using aba_getInstance_inv [OF inv] by metis
  have eq: "ch' = ch1" "a = \<lparr>pa_proposer = x, pa_aba = Some ref, pa_input = None, pa_inputChan = make_chan 1,
      pa_proposed = False, pa_output = make_chan 1, pa_pc = WaitOutput\<rparr>"
    using st g(1) by (simp_all add: newProposalAcceptor_def NewAbaInstance_def)
  show "ch_inv c mb tb ch'" "abac_proposed ch' = abac_proposed ch" "pa_proposer a = x" "pa_input a = None" using g eq by simp_all
  show "ch' = fst (NewAbaInstance i ch)" using g(1) eq(1) by (simp add: NewAbaInstance_def)
  show "store_grow ch ch'" using g(6) eq by (auto simp: store_grow_def nth_append)
  show "acc_inv i ch' a" using g(3,4) by (simp add: eq acc_inv_def acc_ref_def)
qed

lemma computeAcceptors_inv:
  assumes "computeAcceptors i xs ch = (ch', as)" and "ch_inv c mb tb ch"
  shows "ch_inv c mb tb ch' \<and> store_grow ch ch' \<and> abac_proposed ch' = abac_proposed ch \<and> length as = length xs
    \<and> (\<forall>j < length xs. acc_inv (abaIdOf i (xs ! j)) ch' (as ! j) \<and> pa_proposer (as ! j) = xs ! j \<and> pa_input (as ! j) = None)"
  using assms
proof (induction xs arbitrary: ch as)
  case (Cons x xs)
  obtain ch1 a where a: "newProposalAcceptor (abaIdOf i x) x ch = (ch1, a)" by fastforce
  obtain bs where bs: "computeAcceptors i xs ch1 = (ch', bs)" and as: "as = a # bs"
    using Cons.prems(1) a by (auto split: prod.splits)
  note w = newProposalAcceptor_inv [OF a Cons.prems(2)]
  note IH = Cons.IH [OF bs w(1)]
  have "acc_inv (abaIdOf i x) ch' a" using acc_inv_grow [OF w(5)] IH by blast
  then show ?case using IH w store_grow_trans [OF w(2)] by (auto simp: as nth_Cons split: nat.split)
qed auto

lemma newBKR_inv:
  assumes st: "newBKR i f P ch = (ch', b)" and inv: "ch_inv c mb tb ch"
  shows "ch_inv c mb tb ch'" "store_grow ch ch'" "abac_proposed ch' = abac_proposed ch" "bkr_inv P ch' b" "bkr_id b = i" "bkr_f b = f"
    "k < length P \<Longrightarrow> pa_input (acceptors b ! k) = None" "ch' = fst (computeAcceptors i P ch)" "ch_sent (bkr_output b) = []"
proof -
  obtain as where c: "computeAcceptors i P ch = (ch', as)"
    and b: "b = \<lparr>bkr_id = i, bkr_f = f, acceptors = as, resultsChan = make_chan (length P), results = replicate (length P) None,
      bkr_output = make_chan 1, forward_pcs = replicate (length P) AwaitAcceptor, process_pc = PrRecv 0\<rparr>"
    using st by (auto simp: newBKR_def split: prod.splits)
  note w = computeAcceptors_inv [OF c inv]
  show "ch_inv c mb tb ch'" "store_grow ch ch'" "abac_proposed ch' = abac_proposed ch" "bkr_id b = i" "bkr_f b = f"
    "ch_sent (bkr_output b) = []" "ch' = fst (computeAcceptors i P ch)"
    using w c by (simp_all add: b)
  show "pa_input (acceptors b ! k) = None" if "k < length P" using w that by (simp add: b)
  show "bkr_inv P ch' b" using w
    by (simp add: b bkr_inv_def acceptors_ok_def responses_ok_def results_ok_def processed_def)
qed

section \<open>What the results mean\<close>

lemma result_accepted:
  assumes inv: "bkr_inv P ch b" and j: "j < length P" and x: "results b ! j = Some x"
  shows "accept \<in> acc_outputs ch (acceptors b ! j)" "pa_input (acceptors b ! j) = Some x"
proof -
  have "j \<in> snd ` set (processed b)" using bkr_invD(3) [OF inv] j x unfolding results_ok_def by fastforce
  then obtain r where r: "(r, j) \<in> set (processed b)" by auto
  then have "r = Some x" using bkr_invD(3) [OF inv] x by (fastforce simp: results_ok_def)
  moreover have "r \<in> set (ch_sent (pa_output (acceptors b ! j)))"
    using r responses_okD(3) [OF bkr_invD(2) [OF inv]] by (auto simp: processed_def dest: in_set_takeD)
  ultimately have "justified ch (acceptors b ! j) (Some x)" using acc_invD(6) [OF bkr_invD(6) [OF inv j]] by blast
  then show "accept \<in> acc_outputs ch (acceptors b ! j)" "pa_input (acceptors b ! j) = Some x" by simp_all
qed

text \<open>When the output is there, every acceptor has responded.\<close>

lemma all_processed:
  assumes inv: "bkr_inv P ch b" and out: "ch_sent (bkr_output b) \<noteq> []" and j: "j < length P"
  shows "j \<in> snd ` set (processed b)"
proof -
  have t: "ch_taken (resultsChan b) = length P" using bkr_invD(4) [OF inv] out by (cases "process_pc b") simp_all
  note resp = responses_okD [OF bkr_invD(2) [OF inv]]
  have "length (processed b) = length P" using bkr_invD(3) [OF inv] t by (simp add: results_ok_def processed_def)
  moreover have "distinct (map snd (processed b))" using resp(2) by (metis processed_def distinct_take take_map)
  ultimately have "card (snd ` set (processed b)) = length P" by (metis distinct_card length_map set_map)
  moreover have "snd ` set (processed b) \<subseteq> {..<length P}" using resp(3) by (auto simp: processed_def dest: in_set_takeD)
  ultimately have "snd ` set (processed b) = {..<length P}" by (intro card_subset_eq) auto
  then show ?thesis using j by simp
qed

lemma result_rejected:
  assumes inv: "bkr_inv P ch b" and out: "ch_sent (bkr_output b) \<noteq> []" and j: "j < length P" and x: "results b ! j = None"
  shows "\<exists>v \<in> acc_outputs ch (acceptors b ! j). v \<noteq> accept"
proof -
  obtain r where r: "(r, j) \<in> set (processed b)" using all_processed [OF inv out j] by auto
  then have "r = None" using bkr_invD(3) [OF inv] x by (fastforce simp: results_ok_def)
  moreover have "r \<in> set (ch_sent (pa_output (acceptors b ! j)))"
    using r responses_okD(3) [OF bkr_invD(2) [OF inv]] by (auto simp: processed_def dest: in_set_takeD)
  ultimately have "justified ch (acceptors b ! j) None" using acc_invD(6) [OF bkr_invD(6) [OF inv j]] by blast
  then show ?thesis by simp
qed

lemma output_is_accepted:
  assumes "bkr_inv P ch b" and "out \<in> set (ch_sent (bkr_output b))"
  shows "out = getAccepted b" "ch_sent (bkr_output b) = [out]"
  using bkr_invD(4) [OF assms(1)] assms(2) by (cases "process_pc b"; simp)+

lemma getAccepted_mono:
  assumes "length (results b) = length (results b')" and "\<And>j. j < length (results b) \<Longrightarrow> results b ! j \<noteq> None \<Longrightarrow> results b' ! j \<noteq> None"
  shows "length (getAccepted b) \<le> length (getAccepted b')"
  unfolding getAccepted_def length_map length_filter_conv_card using assms by (intro card_mono) auto

end
