(* ===== verification/ACS_Channel.thy ===== *)
theory ACS_Channel
  imports ACS_BKR BRB_Middleware BRB_Instance
begin

text \<open>
  The common-subset channel of a node (\<^verbatim>\<open>agreementCommonSubset/bkrChannel.go\<close>): proposals go out by
  reliable broadcast, arriving ones are routed to the instance they name, which is created on first use.
  Instances are objects: \<open>bkr_store\<close> is the heap and the map \<^verbatim>\<open>instances\<close> holds references into it.  A
  goroutine of \<^verbatim>\<open>processBroadcast\<close> that waits to hand its command to the invoker is an entry of
  \<open>bkr_commands\<close>.  The operations change the node's agreement channel, which they share.
\<close>

section \<open>Proposals on the wire\<close>

record bkrProposalMsg =
  bpm_bkrId :: uuid
  bpm_proposal :: bytes

datatype 'pk bkrc_error =
    DataTooShort nat
  | UnableToUnmarshal "'pk bkrc_error"
  | BkrFinished uuid
  | UnableToSubmitProposal bkr_error
  | UnableToBroadcastProposal "'pk net_error"

definition bkr_marshal :: "bkrProposalMsg \<Rightarrow> bytes" where
  "bkr_marshal m = uuid_bytes (bpm_bkrId m) @ bpm_proposal m"

definition bkr_unmarshal :: "bytes \<Rightarrow> 'pk bkrc_error + bkrProposalMsg" where
  "bkr_unmarshal bs =
     (if length bs < 16 then Inl (DataTooShort (length bs))
      else Inr \<lparr>bpm_bkrId = uuid_of (take 16 bs), bpm_proposal = drop 16 bs\<rparr>)"

lemma unmarshal_marshal_bkr: "bkr_unmarshal (bkr_marshal m) = Inr m"
  by (simp add: bkr_marshal_def bkr_unmarshal_def)

interpretation bkr_wire: wire_format bkr_marshal bkr_unmarshal "\<lambda>_. True"
  by unfold_locales (simp add: unmarshal_marshal_bkr)

lemma unmarshal_bkr_Inr: "bkr_unmarshal bs = Inr m \<Longrightarrow> bkr_marshal m = bs"
  by (auto simp: bkr_unmarshal_def bkr_marshal_def split: if_splits)

section \<open>The channel\<close>

record BKRChannel =
  bkrc_f :: uint
  participants :: "uuid list"
  bkr_instances :: "uuid \<rightharpoonup> nat"
  bkrc_finished :: "uuid set"
  bkr_store :: "bkr list"
  bkr_commands :: "(bkrProposalMsg \<times> uuid) list"

definition NewBKRChannel :: "uint \<Rightarrow> uuid list \<Rightarrow> BKRChannel" where
  "NewBKRChannel f ps = \<lparr>bkrc_f = f, participants = ps, bkr_instances = Map.empty, bkrc_finished = {},
     bkr_store = [], bkr_commands = []\<rparr>"

definition createNewInstance :: "uuid \<Rightarrow> 'pk AbaChannel \<times> BKRChannel \<Rightarrow> ('pk AbaChannel \<times> BKRChannel) \<times> nat" where
  "createNewInstance i = (\<lambda>(ch, c).
     case bkr_instances c i of
       Some ref \<Rightarrow> ((ch, c), ref)
     | None \<Rightarrow>
         (case newBKR i (bkrc_f c) (participants c) ch of
            (ch1, b) \<Rightarrow> ((ch1, c\<lparr>bkr_store := bkr_store c @ [b], bkr_instances := (bkr_instances c)(i \<mapsto> length (bkr_store c))\<rparr>),
                         length (bkr_store c))))"

definition bkr_getInstance :: "uuid \<Rightarrow> 'pk AbaChannel \<times> BKRChannel \<Rightarrow> ('pk AbaChannel \<times> BKRChannel) \<times> nat" where
  "bkr_getInstance i = (\<lambda>(ch, c).
     case bkr_instances c i of Some ref \<Rightarrow> ((ch, c), ref) | None \<Rightarrow> createNewInstance i (ch, c))"

definition on_bkr :: "nat \<Rightarrow> bkr \<Rightarrow> BKRChannel \<Rightarrow> BKRChannel" where
  "on_bkr ref b c = c\<lparr>bkr_store := (bkr_store c)[ref := b]\<rparr>"

definition submitProposal ::
  "uuid \<Rightarrow> bytes \<Rightarrow> uuid \<Rightarrow> 'pk AbaChannel \<times> BKRChannel \<Rightarrow> ('pk AbaChannel \<times> BKRChannel) \<times> 'pk bkrc_error outcome"
where
  "submitProposal i proposal sender = (\<lambda>(ch, c).
     if i \<in> bkrc_finished c then ((ch, c), GoErr (BkrFinished i))
     else case bkr_getInstance i (ch, c) of
       ((ch1, c1), ref) \<Rightarrow>
         (case receiveInput proposal sender (ch1, bkr_store c1 ! ref) of
            ((ch2, b), r) \<Rightarrow> wrap_err UnableToSubmitProposal ((ch2, on_bkr ref b c1), r)))"

definition processBroadcast :: "BRBMsg \<Rightarrow> BKRChannel \<Rightarrow> BKRChannel \<times> 'pk bkrc_error outcome" where
  "processBroadcast m c =
     (case bkr_unmarshal (Content m) of
        Inl e \<Rightarrow> (c, GoErr (UnableToUnmarshal e))
      | Inr bm \<Rightarrow> (c\<lparr>bkr_commands := bkr_commands c @ [(bm, Sender m)]\<rparr>, GoNil))"

text \<open>The invoker runs the command of a waiting goroutine; its error is logged.\<close>

definition bkr_run_command :: "nat \<Rightarrow> 'pk AbaChannel \<times> BKRChannel \<Rightarrow> 'pk AbaChannel \<times> BKRChannel" where
  "bkr_run_command j = (\<lambda>(ch, c).
     let (bm, sender) = bkr_commands c ! j
     in fst (submitProposal (bpm_bkrId bm) (bpm_proposal bm) sender
          (ch, c\<lparr>bkr_commands := take j (bkr_commands c) @ drop (Suc j) (bkr_commands c)\<rparr>)))"

definition BRBroadcast :: "byte \<Rightarrow> uint32 \<Rightarrow> bytes \<Rightarrow> 'pk node \<Rightarrow> 'pk node \<times> 'pk net_error outcome" where
  "BRBroadcast beb nonce msg nd = broadcastSend beb nonce msg nd"

text \<open>\<^verbatim>\<open>Propose\<close> returns a reference to the instance, whose output channel the caller reads.\<close>

definition bkr_Propose ::
  "byte \<Rightarrow> uint32 \<Rightarrow> uuid \<Rightarrow> bytes \<Rightarrow> 'pk AbaChannel \<times> BKRChannel
    \<Rightarrow> (('pk AbaChannel \<times> BKRChannel) \<times> nat option) \<times> 'pk bkrc_error outcome"
where
  "bkr_Propose beb nonce i proposal = (\<lambda>(ch, c).
     case BRBroadcast beb nonce (bkr_marshal \<lparr>bpm_bkrId = i, bpm_proposal = proposal\<rparr>) (abac_node ch) of
       (nd, GoNil) \<Rightarrow>
         (case bkr_getInstance i (ch\<lparr>abac_node := nd\<rparr>, c) of (s, ref) \<Rightarrow> ((s, Some ref), GoNil))
     | (nd, r) \<Rightarrow> wrap_err UnableToBroadcastProposal (((ch\<lparr>abac_node := nd\<rparr>, c), None), r))"

text \<open>Steps of the goroutines of the instance at \<open>ref\<close>.\<close>

definition bkr_respond :: "nat \<Rightarrow> nat \<Rightarrow> 'pk AbaChannel \<times> BKRChannel \<Rightarrow> ('pk AbaChannel \<times> BKRChannel) option" where
  "bkr_respond ref j = (\<lambda>(ch, c). map_option (\<lambda>(ch1, b). (ch1, on_bkr ref b c)) (acceptor_step j (ch, bkr_store c ! ref)))"

definition bkr_forward :: "nat \<Rightarrow> nat \<Rightarrow> 'pk AbaChannel \<times> BKRChannel \<Rightarrow> ('pk AbaChannel \<times> BKRChannel) option" where
  "bkr_forward ref j = (\<lambda>(ch, c). map_option (\<lambda>b. (ch, on_bkr ref b c)) (waitAcceptorResponse j (bkr_store c ! ref)))"

definition bkr_process :: "nat \<Rightarrow> 'pk AbaChannel \<times> BKRChannel \<Rightarrow> ('pk AbaChannel \<times> BKRChannel) option" where
  "bkr_process ref = (\<lambda>(ch, c). map_option (\<lambda>(ch1, b). (ch1, on_bkr ref b c)) (processResponses (ch, bkr_store c ! ref)))"

section \<open>The invariant of a node\<close>

text \<open>\<open>got\<close> are the messages reliable broadcast has delivered at the node, with their senders.\<close>

definition bkr_from :: "uuid list \<Rightarrow> (uuid \<times> bytes) set \<Rightarrow> bkr \<Rightarrow> bool" where
  "bkr_from P got b \<longleftrightarrow> (\<forall>k < length P. \<forall>y. pa_input (acceptors b ! k) = Some y \<longrightarrow> (P ! k, uuid_bytes (bkr_id b) @ y) \<in> got)"

definition rejects_ok :: "uuid list \<Rightarrow> 'pk AbaChannel \<Rightarrow> bkr set \<Rightarrow> bool" where
  "rejects_ok P ch bs \<longleftrightarrow> (\<forall>i. (i, reject) \<in> set (abac_proposed ch) \<longrightarrow>
     (\<exists>b \<in> bs. enough b \<and> (\<exists>x \<in> set P. i = abaIdOf (bkr_id b) x)))"

definition bkrc_inv :: "uuid list \<Rightarrow> uint \<Rightarrow> (uuid \<times> bytes) set \<Rightarrow> 'pk AbaChannel \<Rightarrow> BKRChannel \<Rightarrow> bool" where
  "bkrc_inv P f got ch c \<longleftrightarrow> participants c = P \<and> bkrc_f c = f \<and> bkrc_finished c = {}
     \<and> (\<forall>i ref. bkr_instances c i = Some ref \<longleftrightarrow> ref < length (bkr_store c) \<and> bkr_id (bkr_store c ! ref) = i)
     \<and> (\<forall>b \<in> set (bkr_store c). bkr_inv P ch b \<and> bkr_f b = f \<and> bkr_from P got b)
     \<and> rejects_ok P ch (set (bkr_store c))
     \<and> (\<forall>(bm, x) \<in> set (bkr_commands c). (x, bkr_marshal bm) \<in> got)"

lemma bkrc_invD:
  assumes "bkrc_inv P f got ch c"
  shows "participants c = P" "bkrc_f c = f" "bkrc_finished c = {}"
    "bkr_instances c i = Some ref \<longleftrightarrow> ref < length (bkr_store c) \<and> bkr_id (bkr_store c ! ref) = i"
    "b \<in> set (bkr_store c) \<Longrightarrow> bkr_inv P ch b" "b \<in> set (bkr_store c) \<Longrightarrow> bkr_f b = f" "b \<in> set (bkr_store c) \<Longrightarrow> bkr_from P got b"
    "rejects_ok P ch (set (bkr_store c))" "(bm, x) \<in> set (bkr_commands c) \<Longrightarrow> (x, bkr_marshal bm) \<in> got"
  using assms unfolding bkrc_inv_def by blast+

lemma bkr_at:
  assumes "bkrc_inv P f got ch c" and "ref < length (bkr_store c)"
  shows "bkr_inv P ch (bkr_store c ! ref)" "bkr_f (bkr_store c ! ref) = f" "bkr_from P got (bkr_store c ! ref)"
  using bkrc_invD(5,6,7) [OF assms(1)] nth_mem [OF assms(2)] by auto

lemma bkr_le_in: "b \<in> A \<Longrightarrow> \<exists>b' \<in> A. bkr_le b b'"
  by (rule bexI [of _ b]) simp_all

lemma rejects_mono:
  assumes "rejects_ok P ch bs" and "\<And>b. b \<in> bs \<Longrightarrow> \<exists>b' \<in> bs'. bkr_le b b'"
    and "\<And>i. (i, reject) \<in> set (abac_proposed ch') \<Longrightarrow>
      (i, reject) \<in> set (abac_proposed ch) \<or> (\<exists>b \<in> bs. enough b \<and> (\<exists>x \<in> set P. i = abaIdOf (bkr_id b) x))"
  shows "rejects_ok P ch' bs'"
  unfolding rejects_ok_def
proof (intro allI impI)
  fix i assume "(i, reject) \<in> set (abac_proposed ch')"
  then obtain b x where "b \<in> bs" "enough b" "x \<in> set P" "i = abaIdOf (bkr_id b) x"
    using assms(1,3) unfolding rejects_ok_def by blast
  with assms(2) [OF this(1)] enough_le [of b] show "\<exists>b \<in> bs'. enough b \<and> (\<exists>x \<in> set P. i = abaIdOf (bkr_id b) x)"
    unfolding bkr_le_def by metis
qed

text \<open>The agreement channel changed on its own; more messages were delivered.\<close>

lemma bkrc_inv_grow:
  assumes "bkrc_inv P f got ch c" and "store_grow ch ch'" and "abac_proposed ch' = abac_proposed ch" and "got \<subseteq> got'"
  shows "bkrc_inv P f got' ch' c"
proof -
  have "rejects_ok P ch' (set (bkr_store c))" by (rule rejects_mono [OF bkrc_invD(8) [OF assms(1)]]) (simp_all add: assms(3) bkr_le_in)
  moreover have "bkr_inv P ch' b \<and> bkr_f b = f \<and> bkr_from P got' b" if "b \<in> set (bkr_store c)" for b
    using bkrc_invD(5-7) [OF assms(1) that] bkr_inv_grow [OF _ assms(2)] assms(4) unfolding bkr_from_def by blast
  ultimately show ?thesis using assms(1,4) unfolding bkrc_inv_def by blast
qed

lemma on_bkr_inv:
  assumes inv: "bkrc_inv P f got ch c" and ref: "ref < length (bkr_store c)" and grow: "store_grow ch ch'"
    and b: "bkr_inv P ch' b" "bkr_le (bkr_store c ! ref) b" "bkr_from P got b"
    and rej: "\<And>i. (i, reject) \<in> set (abac_proposed ch') \<Longrightarrow> (i, reject) \<in> set (abac_proposed ch)
      \<or> enough (bkr_store c ! ref) \<and> (\<exists>x \<in> set P. i = abaIdOf (bkr_id (bkr_store c ! ref)) x)"
  shows "bkrc_inv P f got ch' (on_bkr ref b c)"
proof -
  have st: "set (bkr_store (on_bkr ref b c)) \<subseteq> insert b (set (bkr_store c))" "b \<in> set (bkr_store (on_bkr ref b c))"
    using set_update_subset_insert [of "bkr_store c" ref b] set_update_memI [OF ref] by (auto simp: on_bkr_def)
  have "\<exists>b' \<in> set (bkr_store (on_bkr ref b c)). bkr_le x b'" if x: "x \<in> set (bkr_store c)" for x
  proof -
    obtain k where k: "k < length (bkr_store c)" "x = bkr_store c ! k" using x by (auto simp: in_set_conv_nth)
    then have "bkr_store (on_bkr ref b c) ! k \<in> set (bkr_store (on_bkr ref b c))" by (simp add: on_bkr_def)
    moreover have "bkr_le x (bkr_store (on_bkr ref b c) ! k)" using k b(2) by (cases "k = ref") (simp_all add: on_bkr_def)
    ultimately show ?thesis by blast
  qed
  then have "rejects_ok P ch' (set (bkr_store (on_bkr ref b c)))"
  proof (rule rejects_mono [OF bkrc_invD(8) [OF inv]])
    fix i assume "(i, reject) \<in> set (abac_proposed ch')"
    from rej [OF this] nth_mem [OF ref] show "(i, reject) \<in> set (abac_proposed ch)
        \<or> (\<exists>b \<in> set (bkr_store c). enough b \<and> (\<exists>x \<in> set P. i = abaIdOf (bkr_id b) x))" by blast
  qed
  moreover have "bkr_inv P ch' x \<and> bkr_f x = f \<and> bkr_from P got x" if "x \<in> set (bkr_store (on_bkr ref b c))" for x
    using that st(1) b bkr_at(2) [OF inv ref] bkrc_invD(5-7) [OF inv] bkr_inv_grow [OF _ grow] unfolding bkr_le_def by (metis insertE subsetD)
  moreover have "bkr_id (bkr_store (on_bkr ref b c) ! k) = bkr_id (bkr_store c ! k)" for k
    using b(2) ref by (cases "k = ref") (simp_all add: on_bkr_def bkr_le_def)
  ultimately show ?thesis using bkrc_invD(1-4,9) [OF inv] unfolding bkrc_inv_def by (auto simp: on_bkr_def)
qed

section \<open>Operations keep the invariant\<close>

lemma bkr_getInstance_inv:
  assumes inv: "bkrc_inv P f got ch c" and ch: "ch_inv cfg mb tb ch" and st: "bkr_getInstance i (ch, c) = ((ch', c'), ref)"
  shows "bkrc_inv P f got ch' c'" "ch_inv cfg mb tb ch'" "store_grow ch ch'" "abac_proposed ch' = abac_proposed ch"
    "ref < length (bkr_store c')" "bkr_id (bkr_store c' ! ref) = i" "bkr_commands c' = bkr_commands c"
    "ch' = ch \<or> ch' = fst (computeAcceptors i P ch)"
proof -
  have "bkrc_inv P f got ch' c' \<and> ch_inv cfg mb tb ch' \<and> store_grow ch ch' \<and> abac_proposed ch' = abac_proposed ch
    \<and> ref < length (bkr_store c') \<and> bkr_id (bkr_store c' ! ref) = i \<and> bkr_commands c' = bkr_commands c
    \<and> (ch' = ch \<or> ch' = fst (computeAcceptors i P ch))"
  proof (cases "bkr_instances c i")
    case (Some r)
    then have "ch' = ch" "c' = c" "ref = r" using st by (simp_all add: bkr_getInstance_def)
    moreover have "r < length (bkr_store c)" "bkr_id (bkr_store c ! r) = i" using Some bkrc_invD(4) [OF inv, of i r] by simp_all
    ultimately show ?thesis using inv ch by simp
  next
    case None
    obtain ch1 b where b1: "newBKR i f P ch = (ch1, b)" by fastforce
    let ?c = "c\<lparr>bkr_store := bkr_store c @ [b], bkr_instances := (bkr_instances c)(i \<mapsto> length (bkr_store c))\<rparr>"
    have "bkr_getInstance i (ch, c) = ((ch1, ?c), length (bkr_store c))"
      by (simp add: bkr_getInstance_def createNewInstance_def None bkrc_invD(1,2) [OF inv] b1)
    from trans [OF sym [OF st] this] have ch1: "ch1 = ch'" and c': "c' = c\<lparr>bkr_store := bkr_store c @ [b], bkr_instances := (bkr_instances c)(i \<mapsto> length (bkr_store c))\<rparr>"
      and ref: "ref = length (bkr_store c)" by simp_all
    note b = b1 [unfolded ch1]
    note w = newBKR_inv [OF b ch]
    note old = bkrc_inv_grow [OF inv w(2,3) subset_refl]
    have "rejects_ok P ch' (set (bkr_store c'))"
      by (rule rejects_mono [OF bkrc_invD(8) [OF inv]]) (use bkr_le_in in \<open>simp_all add: c' w(3)\<close>)
    moreover have "bkr_id (bkr_store c ! k) \<noteq> i" if "k < length (bkr_store c)" for k
      using None that bkrc_invD(4) [OF inv, of i k] by auto
    then have "bkr_instances c' j = Some r \<longleftrightarrow> r < length (bkr_store c') \<and> bkr_id (bkr_store c' ! r) = j" for j r
      using bkrc_invD(4) [OF inv, of j r] w(5) by (auto simp: c' nth_append less_Suc_eq)
    moreover have "bkr_from P got b" using w(7) by (simp add: bkr_from_def)
    ultimately have "bkrc_inv P f got ch' c'"
      using bkrc_invD(1-3,5-7,9) [OF old] w(4,6) unfolding bkrc_inv_def by (auto simp: c')
    then show ?thesis using w by (simp add: c' ref)
  qed
  then show "bkrc_inv P f got ch' c'" "ch_inv cfg mb tb ch'" "store_grow ch ch'" "abac_proposed ch' = abac_proposed ch"
    "ref < length (bkr_store c')" "bkr_id (bkr_store c' ! ref) = i" "bkr_commands c' = bkr_commands c"
    "ch' = ch \<or> ch' = fst (computeAcceptors i P ch)" by auto
qed

lemma bkr_commands_inv:
  assumes "bkrc_inv P f got ch c" and "\<And>bm x. (bm, x) \<in> set cs \<Longrightarrow> (x, bkr_marshal bm) \<in> got"
  shows "bkrc_inv P f got ch (c\<lparr>bkr_commands := cs\<rparr>)"
  using assms unfolding bkrc_inv_def by auto

lemma submitProposal_cases:
  assumes inv: "bkrc_inv P f got ch c" and st: "submitProposal i y x (ch, c) = ((ch', c'), r)"
  obtains ch1 c1 ref b res where "bkr_getInstance i (ch, c) = ((ch1, c1), ref)"
    "receiveInput y x (ch1, bkr_store c1 ! ref) = ((ch', b), res)" "c' = on_bkr ref b c1"
proof -
  obtain ch1 c1 ref where g: "bkr_getInstance i (ch, c) = ((ch1, c1), ref)" by (metis prod.exhaust)
  obtain ch2 b res where r: "receiveInput y x (ch1, bkr_store c1 ! ref) = ((ch2, b), res)" by (metis prod.exhaust)
  have "(ch', c') = fst (submitProposal i y x (ch, c))" using st by simp
  also have "\<dots> = (ch2, on_bkr ref b c1)" using bkrc_invD(3) [OF inv] by (simp add: submitProposal_def g r)
  finally show ?thesis using that [OF g] r by simp
qed

lemma submitProposal_inv:
  assumes inv: "bkrc_inv P f got ch c" and ch: "ch_inv cfg mb tb ch" and got: "(x, uuid_bytes i @ y) \<in> got"
    and st: "submitProposal i y x (ch, c) = ((ch', c'), r)"
  shows "bkrc_inv P f got ch' c'"
proof -
  obtain ch1 c1 ref b res where g: "bkr_getInstance i (ch, c) = ((ch1, c1), ref)"
    and rc: "receiveInput y x (ch1, bkr_store c1 ! ref) = ((ch', b), res)" and c': "c' = on_bkr ref b c1"
    by (rule submitProposal_cases [OF inv st])
  note w = bkr_getInstance_inv [OF inv ch g]
  note v = receiveInput_inv [OF rc bkr_at(1) [OF w(1,5)]]
  have "bkr_from P got b" unfolding bkr_from_def
  proof (intro allI impI)
    fix k z assume "k < length P" and "pa_input (acceptors b ! k) = Some z"
    with v(4) [OF this] bkr_at(3) [OF w(1,5)] v(3) w(6) got show "(P ! k, uuid_bytes (bkr_id b) @ z) \<in> got"
      by (auto simp: bkr_from_def bkr_le_def)
  qed
  then show ?thesis unfolding c' by (rule on_bkr_inv [OF w(1,5) v(2,1,3)]) (use v(5) in fastforce)
qed

lemma bkr_run_command_inv:
  assumes inv: "bkrc_inv P f got ch c" and ch: "ch_inv cfg mb tb ch" and j: "j < length (bkr_commands c)"
    and st: "bkr_run_command j (ch, c) = (ch', c')"
  shows "bkrc_inv P f got ch' c'"
proof -
  obtain bm x where m: "bkr_commands c ! j = (bm, x)" by fastforce
  then have "(bm, x) \<in> set (bkr_commands c)" using j by (metis nth_mem)
  then have got: "(x, uuid_bytes (bpm_bkrId bm) @ bpm_proposal bm) \<in> got"
    using bkrc_invD(9) [OF inv] by (fastforce simp: bkr_marshal_def)
  let ?c = "c\<lparr>bkr_commands := take j (bkr_commands c) @ drop (Suc j) (bkr_commands c)\<rparr>"
  have "bkrc_inv P f got ch ?c"
    by (rule bkr_commands_inv [OF inv]) (use bkrc_invD(9) [OF inv] in \<open>auto dest: in_set_takeD in_set_dropD\<close>)
  moreover obtain r where "submitProposal (bpm_bkrId bm) (bpm_proposal bm) x (ch, ?c) = ((ch', c'), r)"
    using st m by (cases "submitProposal (bpm_bkrId bm) (bpm_proposal bm) x (ch, ?c)") (simp add: bkr_run_command_def)
  ultimately show ?thesis using submitProposal_inv [OF _ ch got] by blast
qed

lemma processBroadcast_inv:
  assumes "bkrc_inv P f got ch c"
  shows "bkrc_inv P f (insert (Sender m, Content m) got) ch (fst (processBroadcast m c :: BKRChannel \<times> 'pk bkrc_error outcome))"
proof -
  let ?got = "insert (Sender m, Content m) got"
  have inv: "bkrc_inv P f ?got ch c" by (rule bkrc_inv_grow [OF assms store_grow_refl refl]) auto
  show ?thesis
  proof (cases "bkr_unmarshal (Content m) :: 'pk bkrc_error + bkrProposalMsg")
    case (Inr bm)
    then have "bkr_marshal bm = Content m" by (rule unmarshal_bkr_Inr)
    then have "bkrc_inv P f ?got ch (c\<lparr>bkr_commands := bkr_commands c @ [(bm, Sender m)]\<rparr>)"
      by (intro bkr_commands_inv [OF inv]) (use bkrc_invD(9) [OF inv] in auto)
    then show ?thesis using Inr by (simp add: processBroadcast_def)
  qed (use inv in \<open>simp add: processBroadcast_def\<close>)
qed

lemma bkr_respond_inv:
  assumes inv: "bkrc_inv P f got ch c" and ref: "ref < length (bkr_store c)" and j: "j < length P"
    and st: "bkr_respond ref j (ch, c) = Some (ch', c')"
  shows "bkrc_inv P f got ch' c'"
proof -
  obtain b where b: "acceptor_step j (ch, bkr_store c ! ref) = Some (ch', b)" and c': "c' = on_bkr ref b c"
    using st by (auto simp: bkr_respond_def)
  note w = acceptor_step_inv [OF b bkr_at(1) [OF inv ref] j]
  have "bkr_from P got b" using w(5) bkr_at(3) [OF inv ref] by (simp add: bkr_from_def)
  then show ?thesis unfolding c' by (rule on_bkr_inv [OF inv ref w(2,1,3)]) (simp add: w(4))
qed

lemma bkr_forward_inv:
  assumes inv: "bkrc_inv P f got ch c" and ref: "ref < length (bkr_store c)" and j: "j < length P"
    and st: "bkr_forward ref j (ch, c) = Some (ch', c')"
  shows "bkrc_inv P f got ch' c'" "ch' = ch"
proof -
  obtain b where b: "waitAcceptorResponse j (bkr_store c ! ref) = Some b" and c': "c' = on_bkr ref b c" and ch: "ch' = ch"
    using st by (auto simp: bkr_forward_def)
  note w = waitAcceptorResponse_inv [OF b bkr_at(1) [OF inv ref] j]
  have "bkr_from P got b" using w(2,3) bkr_at(3) [OF inv ref] by (simp add: bkr_from_def bkr_le_def)
  then show "bkrc_inv P f got ch' c'" unfolding c' ch by (intro on_bkr_inv [OF inv ref store_grow_refl w(1,2)]) simp_all
  show "ch' = ch" by (rule ch)
qed

lemma bkr_process_inv:
  assumes inv: "bkrc_inv P f got ch c" and ref: "ref < length (bkr_store c)"
    and st: "bkr_process ref (ch, c) = Some (ch', c')"
  shows "bkrc_inv P f got ch' c'"
proof -
  obtain b where b: "processResponses (ch, bkr_store c ! ref) = Some (ch', b)" and c': "c' = on_bkr ref b c"
    using st by (auto simp: bkr_process_def)
  note w = processResponses_inv [OF b bkr_at(1) [OF inv ref]]
  have "bkr_from P got b" using w(3,4) bkr_at(3) [OF inv ref] by (simp add: bkr_from_def bkr_le_def)
  then show ?thesis unfolding c' by (intro on_bkr_inv [OF inv ref w(2,1,3)] w(5))
qed

end
