(* ===== verification/ACS_System.thy ===== *)
theory ACS_System
  imports ACS_Channel
begin

text \<open>
  A system of nodes that each run a common-subset channel over an agreement channel.  Binary
  agreement takes the steps of \<open>ABA_System\<close>, except that proposals come from the acceptors.  Reliable
  broadcast delivers any message under any sender, except that what it delivers from a correct sender
  was broadcast by it, which is the integrity of reliable broadcast.
\<close>

section \<open>The system\<close>

record 'pk acs_sys =
  abas :: "'pk aba_sys"
  bkr_of :: "uuid \<Rightarrow> BKRChannel"
  brb_sent :: "uuid \<Rightarrow> bytes set"
  brb_got :: "uuid \<Rightarrow> (uuid \<times> bytes) set"

definition acs_init :: "net_cfg \<Rightarrow> uuid list \<Rightarrow> 'pk aba_sys \<Rightarrow> 'pk acs_sys" where
  "acs_init c P A = \<lparr>abas = A, bkr_of = (\<lambda>_. NewBKRChannel (cfg_f c) P), brb_sent = (\<lambda>_. {}), brb_got = (\<lambda>_. {})\<rparr>"

definition node_at :: "'pk acs_sys \<Rightarrow> uuid \<Rightarrow> 'pk AbaChannel \<times> BKRChannel" where
  "node_at S p = (chan_of (abas S) p, bkr_of S p)"

definition put_node :: "uuid \<Rightarrow> 'pk AbaChannel \<times> BKRChannel \<Rightarrow> 'pk acs_sys \<Rightarrow> 'pk acs_sys" where
  "put_node p s S = S\<lparr>abas := set_chan p (fst s) (abas S), bkr_of := (bkr_of S)(p := snd s)\<rparr>"

inductive acs_step ::
  "net_cfg \<Rightarrow> (bytes \<Rightarrow> bool) \<Rightarrow> ('pk \<Rightarrow> bytes option) \<Rightarrow> 'pk acs_sys \<Rightarrow> 'pk acs_sys \<Rightarrow> bool"
  for c toss serialize where
  agreement: "\<lbrakk>sys_step c toss serialize (abas S) A; \<And>q. abac_proposed (chan_of A q) = abac_proposed (chan_of (abas S) q)\<rbrakk>
    \<Longrightarrow> acs_step c toss serialize S (S\<lparr>abas := A\<rparr>)"
| propose: "\<lbrakk>p \<in> correct c; bkr_Propose beb nonce i v (node_at S p) = ((s, ref), r)\<rbrakk>
    \<Longrightarrow> acs_step c toss serialize S ((put_node p s S)
      \<lparr>brb_sent := (brb_sent S)(p := insert (bkr_marshal \<lparr>bpm_bkrId = i, bpm_proposal = v\<rparr>) (brb_sent S p))\<rparr>)"
| deliver: "\<lbrakk>p \<in> correct c; Sender m \<in> correct c \<longrightarrow> Content m \<in> brb_sent S (Sender m)\<rbrakk>
    \<Longrightarrow> acs_step c toss serialize S (S
      \<lparr>bkr_of := (bkr_of S)(p := fst (processBroadcast m (bkr_of S p) :: BKRChannel \<times> 'pk bkrc_error outcome)),
       brb_got := (brb_got S)(p := insert (Sender m, Content m) (brb_got S p))\<rparr>)"
| command: "\<lbrakk>p \<in> correct c; j < length (bkr_commands (bkr_of S p))\<rbrakk>
    \<Longrightarrow> acs_step c toss serialize S (put_node p (bkr_run_command j (node_at S p)) S)"
| respond: "\<lbrakk>p \<in> correct c; ref < length (bkr_store (bkr_of S p)); j < length (participants (bkr_of S p));
      bkr_respond ref j (node_at S p) = Some s\<rbrakk> \<Longrightarrow> acs_step c toss serialize S (put_node p s S)"
| forward: "\<lbrakk>p \<in> correct c; ref < length (bkr_store (bkr_of S p)); j < length (participants (bkr_of S p));
      bkr_forward ref j (node_at S p) = Some s\<rbrakk> \<Longrightarrow> acs_step c toss serialize S (put_node p s S)"
| process: "\<lbrakk>p \<in> correct c; ref < length (bkr_store (bkr_of S p)); bkr_process ref (node_at S p) = Some s\<rbrakk>
    \<Longrightarrow> acs_step c toss serialize S (put_node p s S)"

inductive acs_reach ::
  "net_cfg \<Rightarrow> (bytes \<Rightarrow> bool) \<Rightarrow> ('pk \<Rightarrow> bytes option) \<Rightarrow> byte \<Rightarrow> byte \<Rightarrow> uuid list \<Rightarrow> 'pk acs_sys \<Rightarrow> bool"
  for c toss serialize mb tb P where
  init: "acs_reach c toss serialize mb tb P (acs_init c P (sys_init c mb tb nds))"
| step: "acs_reach c toss serialize mb tb P S \<Longrightarrow> acs_step c toss serialize S T \<Longrightarrow> acs_reach c toss serialize mb tb P T"

section \<open>Steps of agreement keep references and outputs\<close>

lemma on_inst_grow:
  assumes "\<And>a. aba_id (g a) = aba_id a" and "\<And>a. set (ch_sent (aba_output a)) \<subseteq> set (ch_sent (aba_output (g a)))"
  shows "store_grow ch (on_inst ref g ch)"
proof -
  have "aba_id ((abac_store ch)[ref := g (abac_store ch ! ref)] ! k) = aba_id (abac_store ch ! k)
      \<and> set (ch_sent (aba_output (abac_store ch ! k))) \<subseteq> set (ch_sent (aba_output ((abac_store ch)[ref := g (abac_store ch ! ref)] ! k)))" for k
    using assms by (cases "k = ref"; cases "ref < length (abac_store ch)") (simp_all add: list_update_beyond)
  then show ?thesis by (simp add: store_grow_def on_inst_def)
qed

lemma getInstance_grow:
  assumes "aba_getInstance i ch = ((ch', ref), r)"
  shows "store_grow ch ch'"
  using assms by (auto simp: aba_getInstance_def newAbaInstance_def store_grow_def nth_append split: if_splits option.splits)

lemma route_grow:
  "store_grow ch (fst (processMiddlewareMsg m ch))" "store_grow ch (fst (processTermMsg t ch))" "store_grow ch (fst (NewAbaInstance i ch))"
proof -
  have calls: "store_grow ch (ch1\<lparr>abac_calls := cs\<rparr>)" if "store_grow ch ch1" for ch1 :: "'a AbaChannel" and cs
    using that by (simp add: store_grow_def)
  obtain ch1 r1 o1 where 1: "aba_getInstance (abam_instance m) ch = ((ch1, r1), o1)" by (metis prod.exhaust)
  obtain ch2 r2 o2 where 2: "aba_getInstance (tm_instance t) ch = ((ch2, r2), o2)" by (metis prod.exhaust)
  obtain ch3 r3 o3 where 3: "aba_getInstance i ch = ((ch3, r3), o3)" by (metis prod.exhaust)
  show "store_grow ch (fst (processMiddlewareMsg m ch))" using getInstance_grow [OF 1] calls
    by (simp add: processMiddlewareMsg_def 1 split: option.split outcome.split)
  show "store_grow ch (fst (processTermMsg t ch))" using getInstance_grow [OF 2] calls
    by (simp add: processTermMsg_def 2 split: option.split outcome.split)
  show "store_grow ch (fst (NewAbaInstance i ch))" using getInstance_grow [OF 3] by (simp add: NewAbaInstance_def 3)
qed

lemma air_grow: "store_grow ch ch1 \<Longrightarrow> store_grow ch (fst (aba_air code bs bcast ch1))"
  by (simp add: aba_air_def store_grow_def split: prod.split)

lemma outputDecision_grow: "store_grow ch (fst (aba_outputDecision ref d ch))"
  unfolding aba_outputDecision_def Let_def
  by (auto split: option.split intro!: air_grow on_inst_grow)

lemma listener_grow:
  assumes "aba_listener q ref ch = Some (ch', r)"
  shows "store_grow ch ch'"
proof (cases q)
  case LsDecision
  then obtain d m' where d: "aba_outputDecision ref d (on_inst ref (aba_mmr_update (\<lambda>_. m')) ch) = (ch', r)"
    using assms by (auto simp: aba_listener_def Let_def split: if_splits option.splits)
  have "store_grow ch (fst (aba_outputDecision ref d (on_inst ref (aba_mmr_update (\<lambda>_. m')) ch)))"
    by (rule store_grow_trans [OF on_inst_grow outputDecision_grow]) simp_all
  then show ?thesis by (simp add: d)
next
  case LsCoin
  then show ?thesis using assms by (auto simp: aba_listener_def Let_def split: if_splits intro!: on_inst_grow)
qed (use assms in \<open>auto simp: aba_listener_def Let_def split: if_splits prod.splits dest!: arg_cong [where f = fst]
    intro!: air_grow on_inst_grow\<close>)

lemma result_grow:
  assumes "handleAsyncResultDelivery ref ch = Some ch'" and "ref < length (abac_store ch)"
  shows "store_grow ch ch'"
proof (cases "result_pc (abac_store ch ! ref)")
  case RsDecision
  then show ?thesis using assms
    by (auto simp: handleAsyncResultDelivery_def Let_def recv_then_def split: option.splits intro!: store_grow_inst)
next
  case (RsOutput d)
  then show ?thesis using assms
    by (auto simp: handleAsyncResultDelivery_def Let_def send_then_def chan_send_def split: option.splits if_splits intro!: store_grow_inst)
next
  case RsTerm
  then obtain a where a: "recv_then terminatedChan terminatedChan_update (\<lambda>_. result_pc_update (\<lambda>_. RsDone)) (abac_store ch ! ref) = Some a"
    and ch': "ch' = fst (closeWrappedInstance (aba_id (abac_store ch ! ref)) (on_inst ref (\<lambda>_. a) ch))"
    using assms by (auto simp: handleAsyncResultDelivery_def Let_def)
  have 1: "store_grow ch (on_inst ref (\<lambda>_. a) ch)"
    by (rule store_grow_inst [OF assms(2)]) (use a in \<open>auto simp: recv_then_def split: option.splits\<close>)
  have "store_grow k (fst (closeWrappedInstance i k))" for i and k :: "'a AbaChannel"
    unfolding closeWrappedInstance_def by (auto split: option.split intro!: store_grow_trans [OF store_grow_same on_inst_grow])
  with store_grow_trans [OF 1] show ?thesis by (simp add: ch')
qed (use assms in \<open>simp add: handleAsyncResultDelivery_def\<close>)

lemma sys_step_grow: "sys_step c toss serialize S T \<Longrightarrow> store_grow (chan_of S q) (chan_of T q)"
proof (induction rule: sys_step.induct)
  case (coin p ref S j ch)
  then show ?case by (auto simp: aba_coin_def Let_def split: if_splits prod.splits intro!: on_inst_grow)
next
  case (read p ref S v a)
  then show ?case using GetOutput_inst [OF read(3)] by (auto intro!: store_grow_inst)
next
  case (call p j S)
  then show ?case
    by (auto simp: aba_run_call_def Let_def split: prod.split intro!: store_grow_trans [OF store_grow_same on_inst_grow])
next
  case (sends p S nd)
  then show ?case by (simp add: store_grow_same)
qed (auto intro: route_grow Propose_ref_grow listener_grow result_grow on_inst_grow)

section \<open>What the components do to the agreement channel are steps of agreement\<close>

definition chan_moves ::
  "net_cfg \<Rightarrow> (bytes \<Rightarrow> bool) \<Rightarrow> ('pk \<Rightarrow> bytes option) \<Rightarrow> byte \<Rightarrow> byte \<Rightarrow> uuid \<Rightarrow> 'pk AbaChannel \<Rightarrow> 'pk AbaChannel \<Rightarrow> bool"
where
  "chan_moves c toss serialize mb tb p ch ch' \<longleftrightarrow>
     (\<forall>S. sys_reach c toss serialize mb tb (set_chan p ch S) \<longrightarrow> sys_reach c toss serialize mb tb (set_chan p ch' S))"

lemma moves_refl [simp]: "chan_moves c toss serialize mb tb p ch ch"
  by (simp add: chan_moves_def)

lemma moves_trans: "chan_moves c toss serialize mb tb p a b \<Longrightarrow> chan_moves c toss serialize mb tb p b d \<Longrightarrow>
    chan_moves c toss serialize mb tb p a d"
  by (simp add: chan_moves_def)

lemma moves_step:
  assumes "\<And>S. chan_of S p = ch \<Longrightarrow> sys_step c toss serialize S (set_chan p ch' S)"
  shows "chan_moves c toss serialize mb tb p ch ch'"
  unfolding chan_moves_def
proof (intro allI impI)
  fix S assume "sys_reach c toss serialize mb tb (set_chan p ch S)"
  from sys_reach.step [OF this assms] show "sys_reach c toss serialize mb tb (set_chan p ch' S)" by (simp add: set_chan_twice)
qed

lemma moves_create: "p \<in> correct c \<Longrightarrow> chan_moves c toss serialize mb tb p ch (fst (NewAbaInstance i ch))"
  by (rule moves_step) (use sys_step.create in blast)

lemma moves_propose:
  "p \<in> correct c \<Longrightarrow> ref < length (abac_store ch) \<Longrightarrow> chan_moves c toss serialize mb tb p ch (fst (aba_Propose_ref ref est ch))"
  by (rule moves_step) (use sys_step.propose in blast)

lemma moves_read:
  "p \<in> correct c \<Longrightarrow> ref < length (abac_store ch) \<Longrightarrow> GetOutput (abac_store ch ! ref) = Some (v, a) \<Longrightarrow>
    chan_moves c toss serialize mb tb p ch (on_inst ref (\<lambda>_. a) ch)"
  by (rule moves_step) (use sys_step.read in blast)

lemma moves_sends: "p \<in> correct c \<Longrightarrow> chan_moves c toss serialize mb tb p ch (ch\<lparr>abac_node := nd\<rparr>)"
  by (rule moves_step) (use sys_step.sends in blast)

lemma moves_compute: "p \<in> correct c \<Longrightarrow> chan_moves c toss serialize mb tb p ch (fst (computeAcceptors i xs ch))"
proof (induction xs arbitrary: ch)
  case (Cons x xs)
  obtain ch1 a where a: "newProposalAcceptor (abaIdOf i x) x ch = (ch1, a)" by fastforce
  then have "ch1 = fst (NewAbaInstance (abaIdOf i x) ch)" by (auto simp: newProposalAcceptor_def split: prod.splits)
  then have "chan_moves c toss serialize mb tb p ch ch1" using moves_create [OF Cons.prems] by simp
  from moves_trans [OF this Cons.IH [OF Cons.prems]] show ?case
    by (cases "computeAcceptors i xs ch1") (simp add: a)
qed simp

lemma moves_proposeOnce:
  assumes p: "p \<in> correct c" and a: "acc_ref i ch a" and st: "proposeOnce est w (ch, a) = ((ch', a'), r)"
  shows "chan_moves c toss serialize mb tb p ch ch'"
  using st a by (cases rule: proposeOnce_cases) (auto intro: moves_propose [OF p])

lemma moves_submitInput:
  assumes p: "p \<in> correct c" and a: "acc_inv i ch a" and st: "submitInput x (ch, a) = ((ch', a'), r)"
  shows "chan_moves c toss serialize mb tb p ch ch'"
proof (cases "pa_input a = None \<and> chan_send x (pa_inputChan a) \<noteq> None")
  case True
  then obtain k where "proposeOnce accept UnableToAccept (ch, a\<lparr>pa_input := Some x, pa_inputChan := k\<rparr>) = ((ch', a'), r)"
    using st by (auto simp: submitInput_def)
  then show ?thesis by (rule moves_proposeOnce [OF p, rotated]) (use acc_invD(1) [OF a] in \<open>simp add: acc_ref_def\<close>)
qed (use st in \<open>auto simp: submitInput_def split: if_splits option.splits\<close>)

lemma moves_rejectProposal:
  assumes p: "p \<in> correct c" and a: "acc_inv i ch a" and st: "rejectProposal (ch, a) = ((ch', a'), r)"
  shows "chan_moves c toss serialize mb tb p ch ch'"
proof (cases "pa_input a")
  case None
  then have "proposeOnce reject UnableToReject (ch, a) = ((ch', a'), r)" using st by (simp add: rejectProposal_def)
  then show ?thesis by (rule moves_proposeOnce [OF p acc_invD(1) [OF a]])
qed (use st in \<open>auto simp: rejectProposal_def\<close>)

lemma moves_waitResponse:
  assumes p: "p \<in> correct c" and a: "acc_inv i ch a" and st: "waitResponse (ch, a) = Some (ch', a')"
  shows "chan_moves c toss serialize mb tb p ch ch'"
proof (cases "pa_pc a")
  case WaitOutput
  obtain ref where ref: "pa_aba a = Some ref" "ref < length (abac_store ch)" using acc_invD(1) [OF a] by (auto simp: acc_ref_def)
  then obtain v x where "GetOutput (abac_store ch ! ref) = Some (v, x)" "ch' = on_inst ref (\<lambda>_. x) ch"
    using st WaitOutput by (auto simp: waitResponse_def)
  then show ?thesis using moves_read [OF p ref(2)] by simp
qed (use st in \<open>auto simp: waitResponse_def\<close>)

lemma moves_getInstance:
  assumes p: "p \<in> correct c" and inv: "bkrc_inv P f got ch d" "ch_inv cfg mb' tb' ch"
    and st: "bkr_getInstance i (ch, d) = ((ch', d'), ref)"
  shows "chan_moves c toss serialize mb tb p ch ch'"
  using bkr_getInstance_inv(8) [OF inv st] moves_compute [OF p] by auto

lemma moves_command:
  assumes p: "p \<in> correct c" and inv: "bkrc_inv P f got ch d" "ch_inv cfg mb' tb' ch" and j: "j < length (bkr_commands d)"
    and st: "bkr_run_command j (ch, d) = (ch', d')"
  shows "chan_moves c toss serialize mb tb p ch ch'"
proof -
  obtain bm x where m: "bkr_commands d ! j = (bm, x)" by fastforce
  let ?d = "d\<lparr>bkr_commands := take j (bkr_commands d) @ drop (Suc j) (bkr_commands d)\<rparr>"
  have inv': "bkrc_inv P f got ch ?d"
    by (rule bkr_commands_inv [OF inv(1)]) (use bkrc_invD(9) [OF inv(1)] in \<open>auto dest: in_set_takeD in_set_dropD\<close>)
  obtain r where "submitProposal (bpm_bkrId bm) (bpm_proposal bm) x (ch, ?d) = ((ch', d'), r)"
    using st m by (cases "submitProposal (bpm_bkrId bm) (bpm_proposal bm) x (ch, ?d)") (simp add: bkr_run_command_def)
  then obtain ch1 d1 ref b res where g: "bkr_getInstance (bpm_bkrId bm) (ch, ?d) = ((ch1, d1), ref)"
    and rc: "receiveInput (bpm_proposal bm) x (ch1, bkr_store d1 ! ref) = ((ch', b), res)"
    by (rule submitProposal_cases [OF inv'])
  note w = bkr_getInstance_inv [OF inv' inv(2) g]
  have "chan_moves c toss serialize mb tb p ch1 ch'"
  proof (cases "getAcceptor x (bkr_store d1 ! ref)")
    case None
    then show ?thesis using rc by (simp add: receiveInput_def)
  next
    case (Some k)
    obtain a r1 where s: "submitInput (bpm_proposal bm) (ch1, acceptors (bkr_store d1 ! ref) ! k) = ((ch', a), r1)"
    proof -
      obtain ch2 a r1 where s: "submitInput (bpm_proposal bm) (ch1, acceptors (bkr_store d1 ! ref) ! k) = ((ch2, a), r1)"
        by (metis prod.exhaust)
      have "fst (fst (receiveInput (bpm_proposal bm) x (ch1, bkr_store d1 ! ref))) = ch2" by (simp add: receiveInput_def Some s)
      then show thesis using that s rc by simp
    qed
    show ?thesis by (rule moves_submitInput [OF p bkr_invD(6) [OF bkr_at(1) [OF w(1,5)]] s])
      (use getAcceptor_Some [OF bkr_at(1) [OF w(1,5)] Some] in simp)
  qed
  with moves_getInstance [OF p inv' inv(2) g] show ?thesis by (rule moves_trans)
qed

lemma moves_process:
  assumes p: "p \<in> correct c" and inv: "bkr_inv P ch b" and st: "processResponses (ch, b) = Some (ch', b')"
  shows "chan_moves c toss serialize mb tb p ch ch'"
proof (cases "process_pc b")
  case (PrReject i j)
  then have j: "j < length P" using bkr_invD(4) [OF inv] by simp
  obtain a r where "rejectProposal (ch, acceptors b ! j) = ((ch', a), r)"
    using st PrReject by (cases "rejectProposal (ch, acceptors b ! j)") (auto simp: processResponses_def split: prod.splits)
  then show ?thesis by (rule moves_rejectProposal [OF p bkr_invD(6) [OF inv j]])
qed (use st in \<open>auto simp: processResponses_def Let_def split: if_splits option.splits prod.splits\<close>)

section \<open>The invariant of the system\<close>

definition acs_ok ::
  "net_cfg \<Rightarrow> (bytes \<Rightarrow> bool) \<Rightarrow> ('pk \<Rightarrow> bytes option) \<Rightarrow> byte \<Rightarrow> byte \<Rightarrow> uuid list \<Rightarrow> 'pk acs_sys \<Rightarrow> bool"
where
  "acs_ok c toss serialize mb tb P S \<longleftrightarrow> sys_reach c toss serialize mb tb (abas S)
     \<and> (\<forall>p. bkrc_inv P (cfg_f c) (brb_got S p) (chan_of (abas S) p) (bkr_of S p))
     \<and> (\<forall>p. \<forall>(x, bs) \<in> brb_got S p. x \<in> correct c \<longrightarrow> bs \<in> brb_sent S x)"

lemma acs_okD:
  assumes "acs_ok c toss serialize mb tb P S"
  shows "sys_reach c toss serialize mb tb (abas S)" "bkrc_inv P (cfg_f c) (brb_got S p) (chan_of (abas S) p) (bkr_of S p)"
    "(x, bs) \<in> brb_got S p \<Longrightarrow> x \<in> correct c \<Longrightarrow> bs \<in> brb_sent S x"
  using assms unfolding acs_ok_def by blast+

lemma put_node_sel [simp]:
  "abas (put_node p s S) = set_chan p (fst s) (abas S)" "bkr_of (put_node p s S) = (bkr_of S)(p := snd s)"
  "brb_sent (put_node p s S) = brb_sent S" "brb_got (put_node p s S) = brb_got S"
  by (simp_all add: put_node_def)

lemma set_chan_same: "set_chan p (chan_of S p) S = S"
  by (simp add: set_chan_def)

lemma put_node_ok:
  assumes ok: "acs_ok c toss serialize mb tb P S"
    and inv: "bkrc_inv P (cfg_f c) (brb_got S p) ch d" and moves: "chan_moves c toss serialize mb tb p (chan_of (abas S) p) ch"
  shows "acs_ok c toss serialize mb tb P (put_node p (ch, d) S)"
proof -
  have "sys_reach c toss serialize mb tb (set_chan p (chan_of (abas S) p) (abas S))"
    using acs_okD(1) [OF ok] by (simp add: set_chan_same)
  then have "sys_reach c toss serialize mb tb (set_chan p ch (abas S))" using moves unfolding chan_moves_def by blast
  moreover have "bkrc_inv P (cfg_f c) (brb_got S q) (chan_of (abas (put_node p (ch, d) S)) q) (bkr_of (put_node p (ch, d) S) q)" for q
    using inv acs_okD(2) [OF ok, of q] by (cases "q = p") simp_all
  ultimately show ?thesis using ok unfolding acs_ok_def by simp
qed

lemma acs_ok_sent: "acs_ok c toss serialize mb tb P S \<Longrightarrow> acs_ok c toss serialize mb tb P (S\<lparr>brb_sent := (brb_sent S)(p := insert bs (brb_sent S p))\<rparr>)"
  using acs_okD [of c toss serialize mb tb P S] unfolding acs_ok_def by fastforce

lemma Propose_cases:
  assumes "bkr_Propose beb nonce i v (ch, d) = ((s, ref), r)"
  obtains nd where "s = (ch\<lparr>abac_node := nd\<rparr>, d)" | nd k where "bkr_getInstance i (ch\<lparr>abac_node := nd\<rparr>, d) = (s, k)"
proof -
  obtain nd q where b: "BRBroadcast beb nonce (bkr_marshal \<lparr>bpm_bkrId = i, bpm_proposal = v\<rparr>) (abac_node ch) = (nd, q)" by fastforce
  show ?thesis
  proof (cases "q = GoNil")
    case True
    obtain s1 k where g: "bkr_getInstance i (ch\<lparr>abac_node := nd\<rparr>, d) = (s1, k)" by fastforce
    then have "s1 = s" using assms b True by (simp add: bkr_Propose_def)
    with g that(2) show ?thesis by blast
  next
    case False
    then have "s = (ch\<lparr>abac_node := nd\<rparr>, d)" using assms b by (cases q) (auto simp: bkr_Propose_def)
    then show ?thesis by (rule that(1))
  qed
qed

lemma propose_acs_ok:
  assumes ok: "acs_ok c toss serialize mb tb P S" and codes: "mb \<noteq> tb" and p: "p \<in> correct c"
    and st: "bkr_Propose beb nonce i v (node_at S p) = ((s, ref), r)"
  shows "acs_ok c toss serialize mb tb P (put_node p s S)"
proof -
  let ?ch = "chan_of (abas S) p" and ?d = "bkr_of S p"
  obtain ch' d' where s: "s = (ch', d')" by fastforce
  have nd: "bkrc_inv P (cfg_f c) (brb_got S p) (?ch\<lparr>abac_node := nd\<rparr>) ?d" for nd
    by (rule bkrc_inv_grow [OF acs_okD(2) [OF ok] store_grow_same]) simp_all
  have "ch_inv c mb tb ?ch" by (rule sys_okD(1) [OF sys_reach_ok [OF codes acs_okD(1) [OF ok]]])
  then have ci: "ch_inv c mb tb (?ch\<lparr>abac_node := nd\<rparr>)" for nd
    using aired_grow [of ?ch "?ch\<lparr>abac_node := nd\<rparr>"] unfolding ch_inv_def by simp
  from st [unfolded node_at_def] show ?thesis
  proof (cases rule: Propose_cases)
    case (1 nd)
    then show ?thesis using put_node_ok [OF ok nd moves_sends [OF p]] by simp
  next
    case (2 nd k)
    note g = 2 [unfolded s]
    have "chan_moves c toss serialize mb tb p ?ch ch'"
      by (rule moves_trans [OF moves_sends [OF p] moves_getInstance [OF p nd ci g]])
    then show ?thesis unfolding s using put_node_ok [OF ok bkr_getInstance_inv(1) [OF nd ci g]] by blast
  qed
qed

lemma acs_step_ok:
  assumes "acs_step c toss serialize S T" and ok: "acs_ok c toss serialize mb tb P S" and codes: "mb \<noteq> tb"
  shows "acs_ok c toss serialize mb tb P T"
  using assms(1)
proof cases
  case (agreement A)
  have "bkrc_inv P (cfg_f c) (brb_got S q) (chan_of A q) (bkr_of S q)" for q
    by (rule bkrc_inv_grow [OF acs_okD(2) [OF ok] sys_step_grow [OF agreement(2)] agreement(3) subset_refl])
  then show ?thesis using ok sys_reach.step [OF acs_okD(1) [OF ok] agreement(2)] agreement(1) unfolding acs_ok_def by simp
next
  case (propose p beb nonce i v s ref r)
  show ?thesis unfolding propose(1)
    using acs_ok_sent [OF propose_acs_ok [OF ok codes propose(2,3)]] by simp
next
  case (deliver p m)
  have "bkrc_inv P (cfg_f c) (brb_got T q) (chan_of (abas T) q) (bkr_of T q)" for q
    using acs_okD(2) [OF ok, of q] processBroadcast_inv [OF acs_okD(2) [OF ok, of p], of m] by (cases "q = p") (simp_all add: deliver(1))
  then show ?thesis using ok deliver unfolding acs_ok_def by auto
next
  case (command p j)
  note inv = acs_okD(2) [OF ok, of p] sys_okD(1) [OF sys_reach_ok [OF codes acs_okD(1) [OF ok]], of p]
  obtain ch d where st: "bkr_run_command j (chan_of (abas S) p, bkr_of S p) = (ch, d)" by fastforce
  show ?thesis unfolding command(1) node_at_def st
    by (rule put_node_ok [OF ok bkr_run_command_inv [OF inv command(3) st] moves_command [OF command(2) inv command(3) st]])
next
  case (respond p ref j s)
  obtain ch d where s: "s = (ch, d)" by fastforce
  note inv = acs_okD(2) [OF ok, of p]
  have j: "j < length P" using respond(4) bkrc_invD(1) [OF inv] by simp
  have st: "bkr_respond ref j (chan_of (abas S) p, bkr_of S p) = Some (ch, d)" using respond(5) by (simp add: node_at_def s)
  then obtain a where "waitResponse (chan_of (abas S) p, acceptors (bkr_store (bkr_of S p) ! ref) ! j) = Some (ch, a)"
    by (auto simp: bkr_respond_def acceptor_step_def)
  then have "chan_moves c toss serialize mb tb p (chan_of (abas S) p) ch"
    by (rule moves_waitResponse [OF respond(2) bkr_invD(6) [OF bkr_at(1) [OF inv respond(3)] j]])
  then show ?thesis unfolding respond(1) s by (rule put_node_ok [OF ok bkr_respond_inv [OF inv respond(3) j st]])
next
  case (forward p ref j s)
  obtain ch d where s: "s = (ch, d)" by fastforce
  note inv = acs_okD(2) [OF ok, of p]
  have j: "j < length P" using forward(4) bkrc_invD(1) [OF inv] by simp
  have st: "bkr_forward ref j (chan_of (abas S) p, bkr_of S p) = Some (ch, d)" using forward(5) by (simp add: node_at_def s)
  note w = bkr_forward_inv [OF inv forward(3) j st]
  show ?thesis unfolding forward(1) s by (rule put_node_ok [OF ok w(1)]) (simp add: w(2))
next
  case (process p ref s)
  obtain ch d where s: "s = (ch, d)" by fastforce
  note inv = acs_okD(2) [OF ok, of p]
  have st: "bkr_process ref (chan_of (abas S) p, bkr_of S p) = Some (ch, d)" using process(4) by (simp add: node_at_def s)
  then obtain b where "processResponses (chan_of (abas S) p, bkr_store (bkr_of S p) ! ref) = Some (ch, b)" by (auto simp: bkr_process_def)
  then have "chan_moves c toss serialize mb tb p (chan_of (abas S) p) ch"
    by (rule moves_process [OF process(2) bkr_at(1) [OF inv process(3)]])
  then show ?thesis unfolding process(1) s by (rule put_node_ok [OF ok bkr_process_inv [OF inv process(3) st]])
qed

lemma acs_init_ok: "acs_ok c toss serialize mb tb P (acs_init c P (sys_init c mb tb nds))"
  by (simp add: acs_ok_def acs_init_def sys_reach.init)
    (simp add: bkrc_inv_def NewBKRChannel_def rejects_ok_def sys_init_def NewAbaChannel_def)

lemma acs_reach_ok: "acs_reach c toss serialize mb tb P S \<Longrightarrow> mb \<noteq> tb \<Longrightarrow> acs_ok c toss serialize mb tb P S"
  by (induction rule: acs_reach.induct) (simp_all add: acs_init_ok acs_step_ok)

end
