(* ===== verification/ACS_Properties.thy ===== *)
theory ACS_Properties
  imports ACS_System
begin





lemma results_length: "bkr_inv P ch b \<Longrightarrow> length (results b) = length P"
  using bkr_invD(3) [of P ch b] by (simp add: results_ok_def)




lemma accepted_got:
  assumes ok: "acs_ok c toss serialize mb tb P S" and b: "b \<in> set (bkr_store (bkr_of S p))" and j: "j < length P"
    and y: "results b ! j = Some y"
  shows "(P ! j, uuid_bytes (bkr_id b) @ y) \<in> brb_got S p"
proof -
  note inv = acs_okD(2) [OF ok, of p]
  have "pa_input (acceptors b ! j) = Some y" by (rule result_accepted(2) [OF bkrc_invD(5) [OF inv b] j y])
  then show ?thesis using bkrc_invD(7) [OF inv b] j by (simp add: bkr_from_def)
qed


text \<open>
  C9. Validity: every value in the output of a correct node was delivered to it from a participant under
  the instance's identifier, and a correct participant gave it to \<^verbatim>\<open>Propose\<close> of that instance.
\<close>

theorem acs_validity:
  assumes "mb \<noteq> tb" and "acs_reach c toss serialize mb tb P S" and "b \<in> set (bkr_store (bkr_of S p))"
    and "out \<in> set (ch_sent (bkr_output b))" and "y \<in> set out"
  shows "\<exists>x \<in> set P. (x, bkr_marshal \<lparr>bpm_bkrId = bkr_id b, bpm_proposal = y\<rparr>) \<in> brb_got S p
    \<and> (x \<in> correct c \<longrightarrow> bkr_marshal \<lparr>bpm_bkrId = bkr_id b, bpm_proposal = y\<rparr> \<in> brb_sent S x)"
proof -
  note ok = acs_reach_ok [OF assms(2,1)]
  note inv = bkrc_invD(5) [OF acs_okD(2) [OF ok] assms(3)]
  have "Some y \<in> set (results b)" using assms(5) by (auto simp: output_is_accepted(1) [OF inv assms(4)] getAccepted_def)
  then obtain j where j: "j < length P" "results b ! j = Some y" by (auto simp: in_set_conv_nth results_length [OF inv])
  have got: "(P ! j, bkr_marshal \<lparr>bpm_bkrId = bkr_id b, bpm_proposal = y\<rparr>) \<in> brb_got S p"
    using accepted_got [OF ok assms(3) j] by (simp add: bkr_marshal_def)
  then show ?thesis using acs_okD(3) [OF ok got] nth_mem [OF j(1)] by blast
qed


text \<open>
  Only the first input of an acceptor counts: when a Byzantine proposer has two proposals for one instance
  broadcast, the order in which they arrive decides which one a node may accept.
\<close>

theorem acceptor_first_input:
  assumes "acc_inv i ch a" and "pa_input a = None"
  shows "pa_input (snd (fst (submitInput y (fst (submitInput x (ch, a)))))) = Some x
    \<and> pa_input (snd (fst (submitInput x (fst (submitInput y (ch, a)))))) = Some y
    \<and> snd (submitInput y (fst (submitInput x (ch, a)))) = GoErr InputAlreadySubmitted"
proof -
  have first: "pa_input (snd (fst (submitInput z (ch, a)))) = Some z" for z
  proof -
    obtain ch' a' r where s: "submitInput z (ch, a) = ((ch', a'), r)" by (metis prod.exhaust)
    show ?thesis using submitInput_inv(5) [OF s assms(1)] assms(2) s by simp
  qed
  have "submitInput w (fst (submitInput z (ch, a))) = (fst (submitInput z (ch, a)), GoErr InputAlreadySubmitted)" for z w
    using first [of z] by (cases "fst (submitInput z (ch, a))") (simp add: submitInput_def)
  then show ?thesis using first by simp
qed

text \<open>
  The wire format of proposals: unmarshalling inverts marshalling, and it fails exactly on data shorter than an
  identifier.
\<close>

theorem bkr_proposal_format:
  "bkr_unmarshal (bkr_marshal m) = (Inr m :: 'pk bkrc_error + bkrProposalMsg)
    \<and> (bkr_unmarshal bs = (Inr m :: 'pk bkrc_error + bkrProposalMsg)) = (bs = bkr_marshal m)
    \<and> (\<exists>e. bkr_unmarshal bs = (Inl e :: 'pk bkrc_error + bkrProposalMsg)) = (length bs < 16)"
proof (intro conjI)
  show "(bkr_unmarshal bs = (Inr m :: 'pk bkrc_error + bkrProposalMsg)) = (bs = bkr_marshal m)"
    using unmarshal_bkr_Inr [of bs m] unmarshal_marshal_bkr [of m] by metis
  show "(\<exists>e. bkr_unmarshal bs = (Inl e :: 'pk bkrc_error + bkrProposalMsg)) = (length bs < 16)"
    by (simp add: bkr_unmarshal_def)
qed (rule unmarshal_marshal_bkr)

end
