(* ===== verification/MMR_Run.thy ===== *)
theory MMR_Run
  imports MMR_Properties
begin

text \<open>
  A complete run of the binary agreement in the configuration of \<^verbatim>\<open>config.properties\<close>: the correct nodes
  run in lock step, all proposing 1, until each has handed over its decision.  It is the concrete
  input of the witnesses.
\<close>

section \<open>Lock step\<close>

datatype bca_thread = TVote | TBind | TDecide

datatype lock_event =
    LPropose byte
  | LEcho byte uuid uint16
  | LVote byte uuid uint16
  | LBind byte uuid uint16
  | LCoin uint16
  | LDecision byte uuid
  | LThread bca_thread bool uint16
  | LExec uint16
  | LListen request uint16
  | LReach bool

fun iv_thread :: "bca_thread \<Rightarrow> bool \<Rightarrow> ivbca \<Rightarrow> ivbca option" where
  "iv_thread TVote b s = iv_waitToVote b s"
| "iv_thread TBind b s = iv_waitToBind b s"
| "iv_thread TDecide b s = iv_waitToDecide b s"

fun ev_thread :: "bca_thread \<Rightarrow> bool \<Rightarrow> evbca \<Rightarrow> evbca option" where
  "ev_thread TVote b e = ev_waitToVote b e"
| "ev_thread TBind b e = ev_waitToBind b e"
| "ev_thread TDecide b e = ev_waitToDecide b e"

fun bca_run_thread :: "bca_thread \<Rightarrow> bool \<Rightarrow> bca \<Rightarrow> bca option" where
  "bca_run_thread t b (IV s) = map_option IV (iv_thread t b s)"
| "bca_run_thread t b (EV e) = map_option EV (ev_thread t b e)"

lemma bca_run_thread_goroutine: "bca_run_thread t b s = Some s' \<Longrightarrow> bca_goroutine s s'"
  by (cases s; cases t) (auto simp: iv_run_def ev_run_def)

text \<open>The event as node \<open>p\<close> takes it when every correct node is in the same state.\<close>

fun lock_apply :: "(uint16 \<Rightarrow> byte) \<Rightarrow> lock_event \<Rightarrow> mmr \<Rightarrow> mmr option" where
  "lock_apply coin (LPropose v) m = Some (fst (concurrent_propose v m))"
| "lock_apply coin (LEcho v x r) m =
     (if (v, r) \<in> set (deliverEcho m) then Some (fst (mmr_submitEcho v x r m)) else None)"
| "lock_apply coin (LVote v x r) m =
     (if (v, r) \<in> set (deliverVote m) then Some (fst (mmr_submitVote v x r m)) else None)"
| "lock_apply coin (LBind v x r) m =
     (if (v, r) \<in> set (deliverBind m) then Some (fst (mmr_submitBind v x r m)) else None)"
| "lock_apply coin (LCoin r) m =
     (if r \<in> set (coinReq m)
      then (case mmr_submitCoin (coin r) r m of (m', res) \<Rightarrow> if res = GoBlocked then None else Some m') else None)"
| "lock_apply coin (LDecision v x) m =
     (if v \<in> set (ch_sent (deliverDecision m)) then Some (fst (mmr_submitDecision v x m)) else None)"
| "lock_apply coin (LThread t b r) m =
     (case rounds m r of None \<Rightarrow> None
      | Some rd \<Rightarrow> map_option (\<lambda>s. m\<lparr>rounds := (rounds m)(r \<mapsto> rd\<lparr>round_bca := s\<rparr>)\<rparr>) (bca_run_thread t b (round_bca rd)))"
| "lock_apply coin (LExec r) m = mmr_execRound r m"
| "lock_apply coin (LListen q r) m = listenRequests q r m"
| "lock_apply coin (LReach b) m = reachDecision b m"

fun lock_inputs :: "lock_event \<Rightarrow> byte set \<Rightarrow> byte set" where
  "lock_inputs (LPropose v) I = insert v I"
| "lock_inputs _ I = I"

fun lock_sender :: "lock_event \<Rightarrow> uuid option" where
  "lock_sender (LEcho v x r) = Some x"
| "lock_sender (LVote v x r) = Some x"
| "lock_sender (LBind v x r) = Some x"
| "lock_sender (LDecision v x) = Some x"
| "lock_sender _ = None"

definition lock_net :: "net_cfg \<Rightarrow> uuid set \<Rightarrow> mmr \<Rightarrow> byte set \<Rightarrow> mmr \<Rightarrow> byte set \<Rightarrow> aba_net" where
  "lock_net c A m' I' m I =
     \<lparr>mnode = (\<lambda>p. if p \<in> A then m' else if p \<in> correct c then m else newMMR (cfg_n c) (cfg_f c)),
      inputs = (\<lambda>p. if p \<in> A then I' else if p \<in> correct c then I else {})\<rparr>"

lemma mmr_submit_rest:
  "same_rest m (fst (mmr_submitEcho v x r m))" "same_rest m (fst (mmr_submitVote v x r m))"
  "same_rest m (fst (mmr_submitBind v x r m))"
  using with_round_at(3) [OF surjective_pairing]
  by (simp_all add: mmr_submitEcho_def mmr_submitVote_def mmr_submitBind_def)

lemma lock_thread: "lock_apply coin (LThread t b r) m = Some m' \<Longrightarrow> bca_steps r m m'"
  by (auto simp: bca_steps_def split: option.splits intro: bca_run_thread_goroutine)

text \<open>The events that are steps of the node's own goroutines.\<close>

definition inner_event :: "lock_event \<Rightarrow> bool" where
  "inner_event e = (case e of LThread _ _ _ \<Rightarrow> True | LExec _ \<Rightarrow> True | LListen _ _ \<Rightarrow> True | LReach _ \<Rightarrow> True | _ \<Rightarrow> False)"

lemma inner_event_goroutine: "inner_event e \<Longrightarrow> lock_apply coin e m = Some m' \<Longrightarrow> mmr_goroutine m m'"
  by (cases e) (auto simp: inner_event_def simp del: lock_apply.simps(7) dest: lock_thread intro: mmr_goroutineI(1-4))

lemma lock_one:
  assumes e: "lock_apply coin e m = Some m'" and x: "\<And>x. lock_sender e = Some x \<Longrightarrow> x \<in> procs c"
    and A: "A \<subseteq> correct c" and p: "p \<in> correct c" "p \<notin> A"
  shows "aba_step c coin (lock_net c A m' (lock_inputs e I) m I) (lock_net c (insert p A) m' (lock_inputs e I) m I)"
proof -
  let ?N = "lock_net c A m' (lock_inputs e I) m I"
  have mp: "mnode ?N p = m" and ip: "inputs ?N p = I" using p by (simp_all add: lock_net_def)
  have all: "mnode ?N q = m \<or> mnode ?N q = m'" if "q \<in> correct c" for q using that by (simp add: lock_net_def)
  have M: "lock_net c (insert p A) m' (lock_inputs e I) m I = (set_node p m' ?N)\<lparr>inputs := (inputs ?N)(p := lock_inputs e I)\<rparr>"
    by (auto simp: lock_net_def set_node_def fun_eq_iff)
  have M0: "lock_inputs e I = I \<Longrightarrow> lock_net c (insert p A) m' (lock_inputs e I) m I = set_node p m' ?N"
    by (auto simp: lock_net_def set_node_def fun_eq_iff p)
  show ?thesis
  proof (cases e)
    case (LPropose v)
    then show ?thesis using aba_step.propose [OF p(1), of coin ?N v] e M mp ip by simp
  next
    case (LEcho v x r)
    then have m': "m' = fst (mmr_submitEcho v x r m)" "(v, r) \<in> set (deliverEcho m)" using e by (auto split: if_splits)
    then have "(v, r) \<in> set (deliverEcho m')" using mmr_submit_rest(1) [of m v x r] by (simp add: same_rest_def)
    then show ?thesis using aba_step.echo [OF p(1), of x v r ?N coin] all x LEcho M0 m' mp by fastforce
  next
    case (LVote v x r)
    then have m': "m' = fst (mmr_submitVote v x r m)" "(v, r) \<in> set (deliverVote m)" using e by (auto split: if_splits)
    then have "(v, r) \<in> set (deliverVote m')" using mmr_submit_rest(2) [of m v x r] by (simp add: same_rest_def)
    then show ?thesis using aba_step.vote [OF p(1), of x v r ?N coin] all x LVote M0 m' mp by fastforce
  next
    case (LBind v x r)
    then have m': "m' = fst (mmr_submitBind v x r m)" "(v, r) \<in> set (deliverBind m)" using e by (auto split: if_splits)
    then have "(v, r) \<in> set (deliverBind m')" using mmr_submit_rest(3) [of m v x r] by (simp add: same_rest_def)
    then show ?thesis using aba_step.bind [OF p(1), of x v r ?N coin] all x LBind M0 m' mp by fastforce
  next
    case (LCoin r)
    then obtain res where "r \<in> set (coinReq m)" "mmr_submitCoin (coin r) r m = (m', res)" "res \<noteq> GoBlocked"
      using e by (auto split: if_splits prod.splits)
    then show ?thesis using aba_step.coin [OF p(1), of r ?N coin m' res] LCoin M0 mp by simp
  next
    case (LDecision v x)
    then have m': "m' = fst (mmr_submitDecision v x m)" "v \<in> set (ch_sent (deliverDecision m))" using e by (auto split: if_splits)
    then have "v \<in> set (ch_sent (deliverDecision m'))" by (simp add: mmr_submitDecision_def split: prod.split)
    then show ?thesis using aba_step.decision [OF p(1), of x v ?N coin] all x LDecision M0 m' mp by fastforce
  next
    case (LThread t b r)
    then have "bca_steps r m m'" using e lock_thread by blast
    then show ?thesis using aba_step.goroutine [OF p(1), of ?N m' coin] LThread M0 mp mmr_goroutineI(1) by fastforce
  qed (use aba_step.goroutine [OF p(1), of ?N m' coin] M0 mp e mmr_goroutineI(2-4) in fastforce)+
qed

lemma lock_all:
  assumes e: "lock_apply coin e m = Some m'" and x: "\<And>x. lock_sender e = Some x \<Longrightarrow> x \<in> procs c"
    and r: "aba_reach c coin (lock_net c {} m0 I0 m I)"
  shows "aba_reach c coin (lock_net c {} m1 I1 m' (lock_inputs e I))"
proof -
  have none: "lock_net c {} m0 I0 m I = lock_net c {} m' (lock_inputs e I) m I" by (simp add: lock_net_def)
  have "A \<subseteq> correct c \<Longrightarrow> aba_reach c coin (lock_net c A m' (lock_inputs e I) m I)" if "finite A" for A
    using that
  proof (induction rule: finite_induct)
    case empty
    then show ?case using r none by simp
  next
    case (insert p A)
    then show ?case using lock_one [OF e x, of A p I] by (auto intro: aba_reach.step)
  qed
  from this [of "correct c"] have "aba_reach c coin (lock_net c (correct c) m' (lock_inputs e I) m I)" by simp
  moreover have "lock_net c (correct c) m' (lock_inputs e I) m I = lock_net c {} m1 I1 m' (lock_inputs e I)"
    by (simp add: lock_net_def cong: if_cong)
  ultimately show ?thesis by simp
qed

fun lock_run :: "(uint16 \<Rightarrow> byte) \<Rightarrow> lock_event list \<Rightarrow> mmr \<Rightarrow> mmr option" where
  "lock_run coin [] m = Some m"
| "lock_run coin (e # es) m = (case lock_apply coin e m of None \<Rightarrow> None | Some m' \<Rightarrow> lock_run coin es m')"

definition lock_state :: "net_cfg \<Rightarrow> mmr \<Rightarrow> byte set \<Rightarrow> aba_net" where
  "lock_state c m I = lock_net c {} m I m I"

lemma lock_run_reach:
  "aba_reach c coin (lock_state c m I) \<Longrightarrow> lock_run coin es m = Some m' \<Longrightarrow>
    (\<And>e x. e \<in> set es \<Longrightarrow> lock_sender e = Some x \<Longrightarrow> x \<in> procs c) \<Longrightarrow>
    aba_reach c coin (lock_state c m' (fold lock_inputs es I))"
proof (induction es arbitrary: m I)
  case (Cons e es)
  then obtain m1 where m1: "lock_apply coin e m = Some m1" "lock_run coin es m1 = Some m'"
    by (auto split: option.splits)
  have "aba_reach c coin (lock_state c m1 (lock_inputs e I))"
    unfolding lock_state_def
    by (rule lock_all [OF m1(1)]) (use Cons.prems(1,3) in \<open>auto simp: lock_state_def\<close>)
  then have "aba_reach c coin (lock_state c m' (fold lock_inputs es (lock_inputs e I)))"
    by (rule Cons.IH [OF _ m1(2)]) (use Cons.prems(3) in auto)
  then show ?case by simp
qed simp

lemma lock_init: "aba_reach c coin (lock_state c (newMMR (cfg_n c) (cfg_f c)) {})"
proof -
  have "lock_state c (newMMR (cfg_n c) (cfg_f c)) {} = aba_init c"
    by (auto simp: lock_state_def lock_net_def aba_init_def)
  then show ?thesis by (simp add: aba_reach.init)
qed

section \<open>The run\<close>

definition demo_coin :: "uint16 \<Rightarrow> byte" where
  "demo_coin r = 1"

definition demo_events :: "lock_event list" where
  "demo_events =
     [LPropose 1, LListen ReqEcho 0] @ map (\<lambda>x. LEcho 1 x 0) [uid 1, uid 2, uid 3]
     @ [LThread TVote False 0, LThread TVote False 0, LListen ReqVote 0] @ map (\<lambda>x. LVote 1 x 0) [uid 1, uid 2, uid 3]
     @ [LThread TBind False 0, LThread TBind False 0, LListen ReqBind 0] @ map (\<lambda>x. LBind 1 x 0) [uid 1, uid 2, uid 3]
     @ [LThread TDecide False 0, LThread TDecide False 0, LExec 0, LExec 0, LListen ReqCoin 0, LCoin 0, LReach True, LReach True]
     @ map (LDecision 1) [uid 1, uid 2, uid 3]"

definition demo_final :: mmr where
  "demo_final = the (lock_run demo_coin demo_events (newMMR 4 1))"

definition demo_aba :: aba_net where
  "demo_aba = lock_state default_cfg demo_final {1}"

lemma demo_run:
  "map_option (\<lambda>m. (ch_sent (deliverDecision m), deliverBind m, bca_decided (round_bca (round_at m 0))))
    (lock_run demo_coin demo_events (newMMR 4 1)) = Some ([1], [(1, 0)], {1})"
  by code_simp

lemma demo_final_run: "lock_run demo_coin demo_events (newMMR 4 1) = Some demo_final"
  using demo_run by (auto simp: demo_final_def)

lemma demo_final_sel:
  "ch_sent (deliverDecision demo_final) = [1]" "deliverBind demo_final = [(1, 0)]"
  "bca_decided (round_bca (round_at demo_final 0)) = {1}"
  using demo_run by (auto simp: demo_final_run)

lemma demo_senders: "\<forall>e \<in> set demo_events. \<forall>x. lock_sender e = Some x \<longrightarrow> x \<in> procs default_cfg"
  by (simp add: demo_events_def)

lemma demo_inputs: "fold lock_inputs demo_events {} = {1}"
  by (simp add: demo_events_def)

lemma demo_aba_reach: "aba_reach default_cfg demo_coin demo_aba"
  using lock_run_reach [OF lock_init [of default_cfg demo_coin, simplified] demo_final_run] demo_senders
  by (simp add: demo_aba_def demo_inputs)

lemma demo_aba_node: "p \<in> correct default_cfg \<Longrightarrow> mnode demo_aba p = demo_final"
  by (simp only: demo_aba_def lock_state_def lock_net_def) auto

section \<open>Witnesses\<close>

theorem aba_agreement_witness:
  "hd (ch_sent (deliverDecision (mnode demo_aba (uid 1)))) = hd (ch_sent (deliverDecision (mnode demo_aba (uid 2))))"
  by (rule aba_agreement [OF default_cfg_ok demo_aba_reach, of "uid 2" "uid 1"]) (simp_all add: demo_aba_node demo_final_sel)

theorem aba_validity_witness:
  "1 \<in> set (ch_sent (deliverDecision (mnode demo_aba (uid 3)))) \<and> (\<exists>q \<in> {uid 1, uid 2, uid 3}. 1 \<in> inputs demo_aba q)"
  using aba_validity [OF default_cfg_ok demo_aba_reach, of "uid 3" 1] by (simp add: demo_aba_node demo_final_sel)

theorem aba_integrity_witness: "length (ch_sent (deliverDecision (mnode demo_aba (uid 2)))) \<le> 1"
  by (rule aba_integrity [OF demo_aba_reach])

theorem round_crusader_agreement_witness: "1 \<in> round_decided demo_aba (uid 1) 0 \<and> isInputValid 1"
  using round_crusader_agreement [OF default_cfg_ok demo_aba_reach, of "uid 1" "uid 2" 1 0 1]
  by (simp add: round_decided_def demo_aba_node demo_final_sel bot_def)

theorem first_round_binding_witness:
  "fst (hd (deliverBind (mnode demo_aba (uid 1)))) = fst (hd (deliverBind (mnode demo_aba (uid 3))))"
  using first_round_binding [OF default_cfg_ok demo_aba_reach, of "uid 1" "uid 3" 1 1]
  by (simp add: demo_aba_node demo_final_sel bot_def)

theorem aba_value_types_witness:
  "1 \<in> set (ch_sent (deliverDecision (mnode demo_aba (uid 1)))) \<and> (1, 0) \<in> set (deliverBind (mnode demo_aba (uid 1))) \<and> 1 \<le> bot"
proof -
  have n: "ch_sent (deliverDecision (mnode demo_aba (uid 1))) = [1]" "deliverBind (mnode demo_aba (uid 1)) = [(1, 0)]"
    by (simp_all add: demo_aba_node demo_final_sel)
  show ?thesis using aba_value_types [OF default_cfg_ok demo_aba_reach, of "uid 1"] unfolding n by auto
qed

end
