(* ===== verification/ABA_Run.thy ===== *)
theory ABA_Run
  imports ABA_System MMR_Run
begin

text \<open>
  A complete run of the channels of \<open>ABA_System\<close>, down to the bytes on the wire, in the smallest
  configuration the fault model admits: one node and no faults.  It creates an instance, proposes 1,
  exchanges its messages with itself and obtains the output.
\<close>

section \<open>Executable steps of a single node\<close>

datatype solo_event =
    SMsg bytes
  | SCreate uuid
  | SPropose nat byte
  | SCall nat
  | SListen listen_case nat
  | SCoin nat nat
  | SResult nat
  | SInner lock_event nat

fun solo_apply :: "(bytes \<Rightarrow> bool) \<Rightarrow> (bytes \<Rightarrow> bytes option) \<Rightarrow> bytes \<Rightarrow> solo_event \<Rightarrow> bytes AbaChannel \<Rightarrow> bytes AbaChannel option"
where
  "solo_apply toss serialize pk (SMsg bs) ch =
     (if (mBeb ch, bs) \<in> set (abac_aired ch)
      then (case aba_parseMsg serialize bs pk of Inl e \<Rightarrow> None | Inr m \<Rightarrow> Some (fst (processMiddlewareMsg m ch))) else None)"
| "solo_apply toss serialize pk (SCreate i) ch = Some (fst (NewAbaInstance i ch))"
| "solo_apply toss serialize pk (SPropose ref est) ch =
     (if ref < length (abac_store ch) then Some (fst (aba_Propose_ref ref est ch)) else None)"
| "solo_apply toss serialize pk (SCall j) ch = (if j < length (abac_calls ch) then Some (aba_run_call j ch) else None)"
| "solo_apply toss serialize pk (SListen q ref) ch =
     (if ref < length (abac_store ch) then map_option fst (aba_listener q ref ch) else None)"
| "solo_apply toss serialize pk (SCoin j ref) ch = (if ref < length (abac_store ch) then aba_coin toss j ref ch else None)"
| "solo_apply toss serialize pk (SResult ref) ch =
     (if ref < length (abac_store ch) then handleAsyncResultDelivery ref ch else None)"
| "solo_apply toss serialize pk (SInner e ref) ch =
     (if ref < length (abac_store ch) \<and> inner_event e
      then map_option (\<lambda>m. on_inst ref (\<lambda>a. a\<lparr>aba_mmr := m\<rparr>) ch) (lock_apply (\<lambda>_. 0) e (aba_mmr (abac_store ch ! ref))) else None)"

fun solo_run :: "(bytes \<Rightarrow> bool) \<Rightarrow> (bytes \<Rightarrow> bytes option) \<Rightarrow> bytes \<Rightarrow> solo_event list \<Rightarrow> bytes AbaChannel \<Rightarrow> bytes AbaChannel option"
where
  "solo_run toss serialize pk [] ch = Some ch"
| "solo_run toss serialize pk (e # es) ch =
     (case solo_apply toss serialize pk e ch of None \<Rightarrow> None | Some ch' \<Rightarrow> solo_run toss serialize pk es ch')"

lemma solo_step:
  assumes p: "serialize pk = Some k" "p = BytesToUUID k" "p \<in> correct c" "p \<in> procs c"
    and e: "solo_apply toss serialize pk e (chan_of S p) = Some ch"
  shows "sys_step c toss serialize S (set_chan p ch S)"
proof (cases e)
  case (SMsg bs)
  then obtain m where "(mBeb (chan_of S p), bs) \<in> set (abac_aired (chan_of S p))" "aba_parseMsg serialize bs pk = Inr m"
    "ch = fst (processMiddlewareMsg m (chan_of S p))"
    using e by (auto split: if_splits sum.splits)
  then show ?thesis using sys_step.msg [OF p(3), of serialize S bs pk p m toss] p by (auto simp: arrives_def)
next
  case (SListen q ref)
  then obtain r where "ref < length (abac_store (chan_of S p))" "aba_listener q ref (chan_of S p) = Some (ch, r)"
    using e by (auto split: if_splits)
  then show ?thesis using sys_step.listen [OF p(3)] by blast
next
  case (SInner le ref)
  let ?m = "aba_mmr (abac_store (chan_of S p) ! ref)"
  from SInner e have ref: "ref < length (abac_store (chan_of S p))" and le: "inner_event le"
    by (simp_all split: if_splits)
  obtain z where z: "lock_apply (\<lambda>_. 0) le ?m = Some z" using SInner e ref le by auto
  then have ch: "ch = on_inst ref (\<lambda>a. a\<lparr>aba_mmr := z\<rparr>) (chan_of S p)" using SInner e ref le by simp
  show ?thesis using sys_step.inner [OF p(3) ref inner_event_goroutine [OF le z]] by (simp add: ch)
qed (use e in \<open>auto split: if_splits intro: sys_step.intros p(3)\<close>)

lemma solo_run_reach:
  assumes p: "serialize pk = Some k" "p = BytesToUUID k" "p \<in> correct c" "p \<in> procs c"
  shows "solo_run toss serialize pk es (chan_of S p) = Some ch \<Longrightarrow> sys_reach c toss serialize mb tb S \<Longrightarrow>
    sys_reach c toss serialize mb tb (set_chan p ch S)"
proof (induction es arbitrary: S)
  case Nil
  then have "set_chan p ch S = S" by (auto simp: set_chan_def)
  with Nil show ?case by simp
next
  case (Cons e es)
  then obtain ch1 where e: "solo_apply toss serialize pk e (chan_of S p) = Some ch1" and es: "solo_run toss serialize pk es ch1 = Some ch"
    by (auto split: option.splits)
  have "sys_reach c toss serialize mb tb (set_chan p ch1 S)" by (rule sys_reach.step [OF Cons.prems(2) solo_step [OF p e]])
  from Cons.IH [OF _ this] es show ?case by (simp add: set_chan_twice)
qed

section \<open>The run\<close>

definition me :: uuid where "me = BytesToUUID [1]"

definition solo_cfg :: net_cfg where
  "solo_cfg = \<lparr>procs = {me}, correct = {me}, cfg_n = 1, cfg_f = 0\<rparr>"

lemma solo_cfg_ok: "byz_ok solo_cfg"
  by (simp add: byz_ok_def solo_cfg_def)

definition solo_events :: "solo_event list" where
  "solo_events =
     [SCreate (uid 7), SPropose 0 1, SInner (LListen ReqEcho 0) 0, SListen LsEcho 0, SMsg (aba_wrap (uid 7) aba_echo 0 1), SCall 0,
      SInner (LThread TVote False 0) 0, SInner (LThread TVote False 0) 0, SInner (LListen ReqVote 0) 0, SListen LsVote 0,
      SMsg (aba_wrap (uid 7) aba_vote 0 1), SCall 0,
      SInner (LThread TBind False 0) 0, SInner (LThread TBind False 0) 0, SInner (LListen ReqBind 0) 0, SListen LsBind 0,
      SMsg (aba_wrap (uid 7) aba_bind 0 1), SCall 0,
      SInner (LThread TDecide False 0) 0, SInner (LThread TDecide False 0) 0, SInner (LExec 0) 0, SInner (LExec 0) 0,
      SInner (LListen ReqCoin 0) 0, SListen LsCoin 0, SCoin 0 0, SInner (LReach True) 0, SInner (LReach True) 0,
      SListen LsDecision 0, SResult 0, SResult 0]"

definition solo_node :: "bytes node" where
  "solo_node = (newNode [] [] [1])\<lparr>hasJoined := True\<rparr>"

lemmas run_defs = concurrent_propose_def mmr_propose_def with_round_def getRound_def newMMR_def initFirstRound_def
  firstRound_def newFirstRound_def newBCA_def make_chan_def bca_defs Let_def chan_put_def chan_send_def chan_recv_def
  newMmrTermination_def listenRequests_def mmr_submitEcho_def mmr_submitVote_def mmr_submitBind_def int_of_uint_code
  mmr_execRound_def execRound_def mmr_submitCoin_def round_submitCoin_def transition_def bot_def reachDecision_def
  mmr_submitDecision_def term_submitDecision_def

lemmas chan_defs = NewAbaChannel_def NewAbaInstance_def aba_getInstance_def newAbaInstance_def newAbaNetworkedInstance_def
  on_inst_def aba_Propose_def aba_Propose_ref_def inner_event_def aba_listener_def aba_air_def aba_outputDecision_def aba_coin_def
  handleAsyncResultDelivery_def aba_run_call_def processMiddlewareMsg_def mmr_takeDecision_def getCoin_def
  aba_broadcastEcho_def aba_broadcastVote_def aba_broadcastBind_def aba_broadcastMsg_def broadcastDecision_def
  BEBroadcast_def unicastSelf_def solo_node_def newNode_def getPeers_def logged_def

lemma parse_solo: "aba_parseMsg Some (aba_wrap i kd r v) pk =
    Inr \<lparr>abam_sender = BytesToUUID pk, abam_instance = i, abam_kind = kd, abam_round = r, abam_val = v\<rparr>"
  using aba_parse_wrap [of Some pk pk i kd r v "[]"] by simp

lemma execRoundN_numeral:
  "execRoundN (numeral k) r = (case execRound r of None \<Rightarrow> r | Some r' \<Rightarrow> execRoundN (pred_numeral k) r')"
  by (simp add: numeral_eq_Suc)

lemma solo_ok:
  "\<exists>ch. solo_run (\<lambda>_. True) Some [1] solo_events (NewAbaChannel 1 0 109 116 solo_node) = Some ch
    \<and> length (abac_store ch) = 1 \<and> aba_id (abac_store ch ! 0) = uid 7 \<and> ch_sent (aba_output (abac_store ch ! 0)) = [1]
    \<and> abac_proposed ch = [(uid 7, 1)]"
  by (simp add: solo_events_def parse_solo run_defs chan_defs aba_wrap_inj execRoundN_numeral)

definition solo_final :: "bytes AbaChannel" where
  "solo_final = the (solo_run (\<lambda>_. True) Some [1] solo_events (NewAbaChannel 1 0 109 116 solo_node))"

lemma solo_final_sel:
  "solo_run (\<lambda>_. True) Some [1] solo_events (NewAbaChannel 1 0 109 116 solo_node) = Some solo_final"
  "length (abac_store solo_final) = 1" "aba_id (abac_store solo_final ! 0) = uid 7" "ch_sent (aba_output (abac_store solo_final ! 0)) = [1]"
  using solo_ok by (auto simp: solo_final_def)

definition solo_sys :: "bytes aba_sys" where
  "solo_sys = set_chan me solo_final (sys_init solo_cfg 109 116 (\<lambda>_. solo_node))"

lemma solo_reach: "sys_reach solo_cfg (\<lambda>_. True) Some 109 116 solo_sys"
  unfolding solo_sys_def
proof (rule solo_run_reach)
  show "me = BytesToUUID [1]" by (simp add: me_def)
  show "sys_reach solo_cfg (\<lambda>_. True) Some 109 116 (sys_init solo_cfg 109 116 (\<lambda>_. solo_node))" by (rule sys_reach.init)
  show "solo_run (\<lambda>_. True) Some [1] solo_events (chan_of (sys_init solo_cfg 109 116 (\<lambda>_. solo_node)) me) = Some solo_final"
    using solo_final_sel(1) by (simp add: sys_init_def solo_cfg_def)
qed (simp_all add: solo_cfg_def)

lemma solo_sys_sel:
  "chan_of solo_sys me = solo_final" "byz_ok solo_cfg" "me \<in> correct solo_cfg" "(109 :: byte) \<noteq> 116"
  using solo_cfg_ok by (simp_all add: solo_sys_def) (simp add: solo_cfg_def)

section \<open>Witnesses\<close>



theorem aba_never_finishes_witness:
  "ch_sent (aba_output (abac_store (chan_of solo_sys me) ! 0)) = [1] \<and> abac_finished (chan_of solo_sys me) = {}"
  using aba_never_finishes [OF solo_sys_sel(4) solo_reach, of me] solo_final_sel(4) by (simp add: solo_sys_sel)

end
