(* ===== verification/ACS_Run.thy ===== *)
theory ACS_Run
  imports ACS_Properties ABA_Run
begin

text \<open>
  A complete run of agreement on a common subset in the configuration of \<open>ABA_Run\<close>: the node proposes,
  its proposal is delivered back to it, it votes for it, the agreement decides and the output appears.
\<close>

section \<open>Executable steps of a single node\<close>

datatype acs_event =
    AAba solo_event
  | APropose byte uint32 uuid bytes
  | ADeliver BRBMsg
  | ACommand nat
  | ARespond nat nat
  | AForward nat nat
  | AProcess nat

record solo_acs =
  so_chan :: "bytes AbaChannel"
  so_bkr :: BKRChannel
  so_sent :: "bytes set"
  so_got :: "(uuid \<times> bytes) set"

definition so_put :: "bytes AbaChannel \<times> BKRChannel \<Rightarrow> solo_acs \<Rightarrow> solo_acs" where
  "so_put s t = t\<lparr>so_chan := fst s, so_bkr := snd s\<rparr>"

fun acs_apply :: "acs_event \<Rightarrow> solo_acs \<Rightarrow> solo_acs option" where
  "acs_apply (AAba e) t =
     (case solo_apply (\<lambda>_. True) Some [1] e (so_chan t) of
        None \<Rightarrow> None
      | Some ch \<Rightarrow> if abac_proposed ch = abac_proposed (so_chan t) then Some (t\<lparr>so_chan := ch\<rparr>) else None)"
| "acs_apply (APropose beb nonce i v) t =
     (case bkr_Propose beb nonce i v (so_chan t, so_bkr t) of
        ((s, ref), r) \<Rightarrow> Some ((so_put s t)\<lparr>so_sent := insert (bkr_marshal \<lparr>bpm_bkrId = i, bpm_proposal = v\<rparr>) (so_sent t)\<rparr>))"
| "acs_apply (ADeliver m) t =
     (if Sender m = me \<and> Content m \<in> so_sent t
      then Some (t\<lparr>so_bkr := fst (processBroadcast m (so_bkr t) :: BKRChannel \<times> bytes bkrc_error outcome),
        so_got := insert (Sender m, Content m) (so_got t)\<rparr>) else None)"
| "acs_apply (ACommand j) t =
     (if j < length (bkr_commands (so_bkr t)) then Some (so_put (bkr_run_command j (so_chan t, so_bkr t)) t) else None)"
| "acs_apply (ARespond ref j) t =
     (if ref < length (bkr_store (so_bkr t)) \<and> j < length (participants (so_bkr t))
      then map_option (\<lambda>s. so_put s t) (bkr_respond ref j (so_chan t, so_bkr t)) else None)"
| "acs_apply (AForward ref j) t =
     (if ref < length (bkr_store (so_bkr t)) \<and> j < length (participants (so_bkr t))
      then map_option (\<lambda>s. so_put s t) (bkr_forward ref j (so_chan t, so_bkr t)) else None)"
| "acs_apply (AProcess ref) t =
     (if ref < length (bkr_store (so_bkr t)) then map_option (\<lambda>s. so_put s t) (bkr_process ref (so_chan t, so_bkr t)) else None)"

fun acs_run :: "acs_event list \<Rightarrow> solo_acs \<Rightarrow> solo_acs option" where
  "acs_run [] t = Some t"
| "acs_run (e # es) t = (case acs_apply e t of None \<Rightarrow> None | Some t' \<Rightarrow> acs_run es t')"

text \<open>The system in which the node \<open>me\<close> is in the given state.\<close>

definition acs_of :: "solo_acs \<Rightarrow> bytes acs_sys" where
  "acs_of t = \<lparr>abas = set_chan me (so_chan t) (sys_init solo_cfg 109 116 (\<lambda>_. solo_node)),
     bkr_of = (\<lambda>_. NewBKRChannel 0 [me])(me := so_bkr t), brb_sent = (\<lambda>_. {})(me := so_sent t), brb_got = (\<lambda>_. {})(me := so_got t)\<rparr>"

lemma acs_of_sel [simp]:
  "chan_of (abas (acs_of t)) me = so_chan t" "bkr_of (acs_of t) me = so_bkr t" "brb_sent (acs_of t) me = so_sent t"
  "brb_got (acs_of t) me = so_got t" "node_at (acs_of t) me = (so_chan t, so_bkr t)"
  by (simp_all add: acs_of_def node_at_def)

lemma acs_of_put [simp]: "acs_of (so_put s t) = put_node me s (acs_of t)"
  by (simp add: acs_of_def put_node_def so_put_def set_chan_twice)

lemma me_correct: "me \<in> correct solo_cfg" "me \<in> procs solo_cfg"
  by (simp_all add: solo_cfg_def)

lemma acs_apply_step:
  assumes "acs_apply e t = Some t'"
  shows "acs_step solo_cfg (\<lambda>_. True) Some (acs_of t) (acs_of t')"
proof (cases e)
  case (AAba x)
  then obtain ch where x: "solo_apply (\<lambda>_. True) Some [1] x (so_chan t) = Some ch" "abac_proposed ch = abac_proposed (so_chan t)"
    and t': "t' = t\<lparr>so_chan := ch\<rparr>" using assms by (auto split: option.splits if_splits)
  have "sys_step solo_cfg (\<lambda>_. True) Some (abas (acs_of t)) (set_chan me ch (abas (acs_of t)))"
    by (rule solo_step [where serialize = Some and pk = "[1]" and k = "[1]" and e = x, OF refl me_def me_correct]) (simp add: x(1))
  then have "acs_step solo_cfg (\<lambda>_. True) Some (acs_of t) ((acs_of t)\<lparr>abas := set_chan me ch (abas (acs_of t))\<rparr>)"
    by (rule acs_step.agreement) (simp add: x(2))
  then show ?thesis by (simp add: t' acs_of_def set_chan_twice)
next
  case (APropose beb nonce i v)
  obtain s ref r where p: "bkr_Propose beb nonce i v (so_chan t, so_bkr t) = ((s, ref), r)" by (metis prod.exhaust)
  have "acs_of t' = (put_node me s (acs_of t))\<lparr>brb_sent := (brb_sent (acs_of t))
      (me := insert (bkr_marshal \<lparr>bpm_bkrId = i, bpm_proposal = v\<rparr>) (brb_sent (acs_of t) me))\<rparr>"
    using assms APropose p by (auto simp: acs_of_def put_node_def so_put_def set_chan_twice)
  then show ?thesis using acs_step.propose [OF me_correct(1), of beb nonce i v "acs_of t" s ref r] p by simp
next
  case (ADeliver m)
  then have "Sender m = me" "Content m \<in> so_sent t" and "acs_of t' = (acs_of t)
      \<lparr>bkr_of := (bkr_of (acs_of t))(me := fst (processBroadcast m (bkr_of (acs_of t) me) :: BKRChannel \<times> bytes bkrc_error outcome)),
       brb_got := (brb_got (acs_of t))(me := insert (Sender m, Content m) (brb_got (acs_of t) me))\<rparr>"
    using assms by (auto simp: acs_of_def split: if_splits)
  then show ?thesis using acs_step.deliver [OF me_correct(1), of m "acs_of t"] by simp
next
  case (ACommand j)
  then show ?thesis using assms acs_step.command [OF me_correct(1), of j "acs_of t"] by (auto split: if_splits)
next
  case (ARespond ref j)
  then show ?thesis using assms acs_step.respond [OF me_correct(1), of ref "acs_of t" j] by (auto split: if_splits)
next
  case (AForward ref j)
  then show ?thesis using assms acs_step.forward [OF me_correct(1), of ref "acs_of t" j] by (auto split: if_splits)
next
  case (AProcess ref)
  then show ?thesis using assms acs_step.process [OF me_correct(1), of ref "acs_of t"] by (auto split: if_splits)
qed

lemma acs_run_reach:
  "acs_run es t = Some t' \<Longrightarrow> acs_reach solo_cfg (\<lambda>_. True) Some 109 116 [me] (acs_of t) \<Longrightarrow>
    acs_reach solo_cfg (\<lambda>_. True) Some 109 116 [me] (acs_of t')"
proof (induction es arbitrary: t)
  case (Cons e es)
  then show ?case using acs_reach.step [OF Cons.prems(2) acs_apply_step] by (auto split: option.splits)
qed auto

section \<open>The run\<close>

definition acs_start :: solo_acs where
  "acs_start = \<lparr>so_chan = NewAbaChannel 1 0 109 116 solo_node, so_bkr = NewBKRChannel 0 [me], so_sent = {}, so_got = {}\<rparr>"

abbreviation solo_aba :: uuid where "solo_aba \<equiv> abaIdOf (uid 7) me"

definition acs_events :: "acs_event list" where
  "acs_events =
     [APropose 98 5 (uid 7) [42], ADeliver \<lparr>Content = bkr_marshal \<lparr>bpm_bkrId = uid 7, bpm_proposal = [42]\<rparr>, Sender = me\<rparr>, ACommand 0]
     @ map AAba
     [SInner (LListen ReqEcho 0) 0, SListen LsEcho 0, SMsg (aba_wrap solo_aba aba_echo 0 1), SCall 0,
      SInner (LThread TVote False 0) 0, SInner (LThread TVote False 0) 0, SInner (LListen ReqVote 0) 0, SListen LsVote 0,
      SMsg (aba_wrap solo_aba aba_vote 0 1), SCall 0,
      SInner (LThread TBind False 0) 0, SInner (LThread TBind False 0) 0, SInner (LListen ReqBind 0) 0, SListen LsBind 0,
      SMsg (aba_wrap solo_aba aba_bind 0 1), SCall 0,
      SInner (LThread TDecide False 0) 0, SInner (LThread TDecide False 0) 0, SInner (LExec 0) 0, SInner (LExec 0) 0,
      SInner (LListen ReqCoin 0) 0, SListen LsCoin 0, SCoin 0 0, SInner (LReach True) 0, SInner (LReach True) 0,
      SListen LsDecision 0, SResult 0, SResult 0]
     @ [ARespond 0 0, ARespond 0 0, ARespond 0 0, AForward 0 0, AForward 0 0, AProcess 0, AProcess 0, AProcess 0, AProcess 0]"

lemmas acs_defs = so_put_def acs_start_def NewBKRChannel_def bkr_Propose_def BRBroadcast_def broadcastSend_def bkr_getInstance_def
  createNewInstance_def newBKR_def newProposalAcceptor_def processBroadcast_def unmarshal_marshal_bkr bkr_run_command_def
  submitProposal_def receiveInput_def getAcceptor_def submitInput_def proposeOnce_def on_bkr_def bkr_respond_def bkr_forward_def
  bkr_process_def acceptor_step_def waitResponse_def waitAcceptorResponse_def processResponses_def GetOutput_def recv_then_def
  send_then_def hasProposed_def getAccepted_def accept_def

lemma acs_solo_run:
  "\<exists>t. acs_run acs_events acs_start = Some t \<and> length (bkr_store (so_bkr t)) = 1 \<and> bkr_id (bkr_store (so_bkr t) ! 0) = uid 7
    \<and> ch_sent (bkr_output (bkr_store (so_bkr t) ! 0)) = [[[42]]]
    \<and> so_got t = {(me, bkr_marshal \<lparr>bpm_bkrId = uid 7, bpm_proposal = [42]\<rparr>)}"
  by (simp add: acs_events_def acs_defs parse_solo run_defs chan_defs aba_wrap_inj execRoundN_numeral)

definition acs_final :: solo_acs where
  "acs_final = the (acs_run acs_events acs_start)"

definition acs_demo :: "bytes acs_sys" where
  "acs_demo = acs_of acs_final"

definition demo_bkr :: bkr where
  "demo_bkr = bkr_store (bkr_of acs_demo me) ! 0"

lemma acs_final_sel:
  "acs_run acs_events acs_start = Some acs_final" "length (bkr_store (so_bkr acs_final)) = 1"
  "bkr_id (bkr_store (so_bkr acs_final) ! 0) = uid 7" "ch_sent (bkr_output (bkr_store (so_bkr acs_final) ! 0)) = [[[42]]]"
  "so_got acs_final = {(me, bkr_marshal \<lparr>bpm_bkrId = uid 7, bpm_proposal = [42]\<rparr>)}"
proof -
  from acs_solo_run obtain t where "acs_run acs_events acs_start = Some t" "length (bkr_store (so_bkr t)) = 1"
    "bkr_id (bkr_store (so_bkr t) ! 0) = uid 7" "ch_sent (bkr_output (bkr_store (so_bkr t) ! 0)) = [[[42]]]"
    "so_got t = {(me, bkr_marshal \<lparr>bpm_bkrId = uid 7, bpm_proposal = [42]\<rparr>)}" by blast
  moreover from this(1) have "acs_final = t" by (simp add: acs_final_def)
  ultimately show "acs_run acs_events acs_start = Some acs_final" "length (bkr_store (so_bkr acs_final)) = 1"
    "bkr_id (bkr_store (so_bkr acs_final) ! 0) = uid 7" "ch_sent (bkr_output (bkr_store (so_bkr acs_final) ! 0)) = [[[42]]]"
    "so_got acs_final = {(me, bkr_marshal \<lparr>bpm_bkrId = uid 7, bpm_proposal = [42]\<rparr>)}" by simp_all
qed

lemma acs_demo_reach: "acs_reach solo_cfg (\<lambda>_. True) Some 109 116 [me] acs_demo"
  unfolding acs_demo_def
proof (rule acs_run_reach [OF acs_final_sel(1)])
  have "acs_of acs_start = acs_init solo_cfg [me] (sys_init solo_cfg 109 116 (\<lambda>_. solo_node))"
    by (auto simp: acs_of_def acs_start_def acs_init_def sys_init_def set_chan_def solo_cfg_def fun_eq_iff)
  then show "acs_reach solo_cfg (\<lambda>_. True) Some 109 116 [me] (acs_of acs_start)" using acs_reach.init by metis
qed

lemma demo_bkr_sel:
  "bkr_store (bkr_of acs_demo me) = [demo_bkr]" "demo_bkr \<in> set (bkr_store (bkr_of acs_demo me))" "bkr_id demo_bkr = uid 7"
  "ch_sent (bkr_output demo_bkr) = [[[42]]]" "brb_got acs_demo me = {(me, bkr_marshal \<lparr>bpm_bkrId = uid 7, bpm_proposal = [42]\<rparr>)}"
  using acs_final_sel(2-5) by (auto simp: demo_bkr_def acs_demo_def length_Suc_conv)


section \<open>Witnesses\<close>

lemmas demo_facts = solo_sys_sel(2,4) acs_demo_reach




theorem acs_validity_witness:
  "(me, bkr_marshal \<lparr>bpm_bkrId = uid 7, bpm_proposal = [42]\<rparr>) \<in> brb_got acs_demo me
    \<and> bkr_marshal \<lparr>bpm_bkrId = uid 7, bpm_proposal = [42]\<rparr> \<in> brb_sent acs_demo me"
  using acs_validity [OF demo_facts(2,3) demo_bkr_sel(2), of "[[42]]" "[42]"] me_correct(1) by (simp add: demo_bkr_sel(3,4))


definition demo_acceptor :: "bytes AbaChannel \<times> proposalAcceptor" where
  "demo_acceptor = newProposalAcceptor (uid 1) (uid 2) (NewAbaChannel 1 0 109 116 solo_node)"

theorem acceptor_first_input_witness:
  "pa_input (snd (fst (submitInput [2] (fst (submitInput [1] demo_acceptor))))) = Some [1]
    \<and> pa_input (snd (fst (submitInput [1] (fst (submitInput [2] demo_acceptor))))) = Some [2]
    \<and> snd (submitInput [2] (fst (submitInput [1] demo_acceptor))) = GoErr InputAlreadySubmitted"
proof -
  obtain ch a where a: "demo_acceptor = (ch, a)" by fastforce
  have "acc_inv (uid 1) ch a" "pa_input a = None"
    using a by (auto simp: demo_acceptor_def newProposalAcceptor_def NewAbaInstance_def aba_getInstance_def newAbaInstance_def
        NewAbaChannel_def newAbaNetworkedInstance_def acc_inv_def acc_ref_def)
  from acceptor_first_input [OF this, of "[2]" "[1]"] show ?thesis by (simp add: a)
qed

end
