(* ===== verification/Coin_Lagrange.thy ===== *)
theory Coin_Lagrange
  imports Complex_Main
begin

text \<open>
  Interpolation at zero in a field: a polynomial with fewer than \<open>n\<close> coefficients is determined at
  zero by its values at \<open>n\<close> points, with the coefficients the coin tosser computes.  The proof goes
  through divided differences, which vanish for polynomials of smaller degree.
\<close>

section \<open>Divided differences\<close>

definition ddiff :: "('a :: field) set \<Rightarrow> ('a \<Rightarrow> 'a) \<Rightarrow> 'a" where
  "ddiff X p = (\<Sum>x \<in> X. p x / (\<Prod>y \<in> X - {x}. x - y))"

definition poly_at :: "(nat \<Rightarrow> 'a :: field) \<Rightarrow> nat \<Rightarrow> 'a \<Rightarrow> 'a" where
  "poly_at a n x = (\<Sum>i < n. a i * x ^ i)"

lemma ddiff_remove:
  assumes "finite X" and "a \<in> X"
  shows "ddiff X (\<lambda>x. (x - a) * p x) = ddiff (X - {a}) p"
proof -
  have "(x - a) * p x / (\<Prod>y \<in> X - {x}. x - y) = p x / (\<Prod>y \<in> X - {a} - {x}. x - y)" if "x \<in> X - {a}" for x
  proof -
    have "X - {x} = insert a (X - {a} - {x})" using assms(2) that by auto
    then have "(\<Prod>y \<in> X - {x}. x - y) = (x - a) * (\<Prod>y \<in> X - {a} - {x}. x - y)" using assms(1) by simp
    then show ?thesis using that by simp
  qed
  then have "(\<Sum>x \<in> X - {a}. (x - a) * p x / (\<Prod>y \<in> X - {x}. x - y)) = ddiff (X - {a}) p"
    unfolding ddiff_def by (intro sum.cong) auto
  then show ?thesis
    using sum.remove [OF assms, of "\<lambda>x. (x - a) * p x / (\<Prod>y \<in> X - {x}. x - y)"] by (simp add: ddiff_def)
qed

lemma ddiff_add: "ddiff X (\<lambda>x. p x + q x) = ddiff X p + ddiff X q"
  by (simp add: ddiff_def add_divide_distrib sum.distrib)

lemma ddiff_cmult: "ddiff X (\<lambda>x. k * p x) = k * ddiff X p"
  by (simp add: ddiff_def sum_distrib_left)

text \<open>The divided difference of a constant on at least two points is zero.\<close>

lemma ddiff_one: "finite X \<Longrightarrow> 2 \<le> card X \<Longrightarrow> ddiff X (\<lambda>_. 1) = (0 :: 'a :: field)"
proof (induction "card X" arbitrary: X rule: less_induct)
  case less
  obtain a b where ab: "a \<in> X" "b \<in> X" "a \<noteq> b"
  proof -
    obtain a where a: "a \<in> X" using less.prems by fastforce
    moreover have "X - {a} \<noteq> {}" using less.prems a by (metis card_Diff_singleton card.empty diff_is_0_eq not_less_eq_eq numeral_2_eq_2 One_nat_def)
    ultimately show thesis using that by blast
  qed
  have one: "ddiff (X - {z}) (\<lambda>_. 1) = (if card X = 2 then 1 else 0)" if z: "z \<in> X" for z
  proof (cases "card X = 2")
    case True
    then have "card (X - {z}) = 1" using less.prems z by simp
    then obtain w where "X - {z} = {w}" by (auto simp: card_1_singleton_iff)
    then show ?thesis using True by (simp add: ddiff_def)
  next
    case False
    have "card (X - {z}) < card X" "2 \<le> card (X - {z})" using less.prems z False by simp_all
    then show ?thesis using less.hyps [of "X - {z}"] less.prems(1) False by simp
  qed
  have shift: "ddiff X (\<lambda>x. x - z) = ddiff (X - {z}) (\<lambda>_. 1)" if "z \<in> X" for z
    using ddiff_remove [OF less.prems(1) that, of "\<lambda>_. 1"] by simp
  have "ddiff X (\<lambda>x. (x - a) + (b - a) * - 1) = ddiff X (\<lambda>x. x - b)" by (simp add: algebra_simps)
  then have "ddiff X (\<lambda>x. x - a) + (b - a) * ddiff X (\<lambda>_. - 1) = ddiff X (\<lambda>x. x - b)"
    by (simp only: ddiff_add ddiff_cmult)
  moreover have "ddiff X (\<lambda>_. - 1) = - ddiff X (\<lambda>_. 1)" using ddiff_cmult [of X "- 1" "\<lambda>_. 1"] by simp
  ultimately have "(b - a) * ddiff X (\<lambda>_. 1) = 0" using shift [OF ab(1)] shift [OF ab(2)] one [OF ab(1)] one [OF ab(2)] by simp
  then show ?case using ab(3) by simp
qed

lemma ddiff_poly: "finite X \<Longrightarrow> card X = Suc n \<Longrightarrow> ddiff X (poly_at a n) = (0 :: 'a :: field)"
proof (induction n arbitrary: X a)
  case 0
  then show ?case by (simp add: ddiff_def poly_at_def)
next
  case (Suc n)
  have "X \<noteq> {}" using Suc.prems by auto
  then obtain z where z: "z \<in> X" by blast
  obtain b where b: "\<forall>x. (\<Sum>i \<le> n. a i * x ^ i) = (x - z) * (\<Sum>i < n. b i * x ^ i) + (\<Sum>i \<le> n. a i * z ^ i)"
    using polyfun_linear_factor [of a n z] by blast
  have p: "poly_at a (Suc n) = (\<lambda>x. (x - z) * poly_at b n x + poly_at a (Suc n) z * 1)"
  proof
    fix x
    show "poly_at a (Suc n) x = (x - z) * poly_at b n x + poly_at a (Suc n) z * 1"
      using b [rule_format, of x] by (simp only: poly_at_def lessThan_Suc_atMost mult_1_right)
  qed
  have "ddiff X (poly_at a (Suc n)) = ddiff (X - {z}) (poly_at b n) + poly_at a (Suc n) z * ddiff X (\<lambda>_. 1)"
    by (subst p) (simp only: ddiff_add ddiff_cmult ddiff_remove [OF Suc.prems(1) z])
  also have "\<dots> = 0" using Suc.IH [of "X - {z}" b] ddiff_one [of X] Suc.prems z by simp
  finally show ?case .
qed

section \<open>Interpolation at zero\<close>

definition lagrange0 :: "('a :: field) set \<Rightarrow> 'a \<Rightarrow> 'a" where
  "lagrange0 X x = (\<Prod>y \<in> X - {x}. - y) * inverse (\<Prod>y \<in> X - {x}. x - y)"

lemma interpolate_zero:
  assumes fin: "finite X" and card: "card X = n"
  shows "(\<Sum>x \<in> X. lagrange0 X x * poly_at a n x) = poly_at a n (0 :: 'a :: field)"
proof (cases "0 \<in> X")
  case True
  have "lagrange0 X x = 0" if "x \<in> X - {0}" for x
    using that True fin by (auto simp: lagrange0_def intro: bexI [of _ 0])
  moreover have "lagrange0 X 0 = 1"
  proof -
    have "(\<Prod>y \<in> X - {0}. - y) \<noteq> 0" using fin by simp
    then show ?thesis by (simp add: lagrange0_def)
  qed
  ultimately show ?thesis using sum.remove [OF fin True, of "\<lambda>x. lagrange0 X x * poly_at a n x"] by simp
next
  case False
  let ?P = "\<Prod>y \<in> X. - y"
  have P: "?P \<noteq> 0" using False fin by auto
  have summand: "?P * (poly_at a n x / (\<Prod>y \<in> insert 0 X - {x}. x - y)) = - (lagrange0 X x * poly_at a n x)" if x: "x \<in> X" for x
  proof -
    have "x \<noteq> 0" using x False by auto
    have "insert 0 X - {x} = insert 0 (X - {x})" using x False by auto
    then have "(\<Prod>y \<in> insert 0 X - {x}. x - y) = x * (\<Prod>y \<in> X - {x}. x - y)" using False fin by simp
    moreover have "?P = - x * (\<Prod>y \<in> X - {x}. - y)" using prod.remove [OF fin x, of uminus] by simp
    ultimately show ?thesis using \<open>x \<noteq> 0\<close> by (simp add: lagrange0_def divide_simps)
  qed
  have "ddiff (insert 0 X) (poly_at a n) = 0" by (rule ddiff_poly) (use fin card False in simp_all)
  then have "0 = ?P * (poly_at a n 0 / (\<Prod>y \<in> insert 0 X - {0}. 0 - y) + (\<Sum>x \<in> X. poly_at a n x / (\<Prod>y \<in> insert 0 X - {x}. x - y)))"
    unfolding ddiff_def using sum.insert [OF fin False, of "\<lambda>x. poly_at a n x / (\<Prod>y \<in> insert 0 X - {x}. x - y)"] by simp
  also have "\<dots> = poly_at a n 0 - (\<Sum>x \<in> X. lagrange0 X x * poly_at a n x)"
  proof -
    have "?P * (\<Sum>x \<in> X. poly_at a n x / (\<Prod>y \<in> insert 0 X - {x}. x - y)) = (\<Sum>x \<in> X. - (lagrange0 X x * poly_at a n x))"
      unfolding sum_distrib_left using summand by (intro sum.cong) auto
    moreover have "insert 0 X - {0} = X" using False by auto
    ultimately show ?thesis using P by (simp add: distrib_left sum_negf)
  qed
  finally show ?thesis by simp
qed

end
