(* ===== verification/Coin_Shares.thy ===== *)
theory Coin_Shares
  imports Utils Coin_Lagrange
begin

text \<open>
  The shares of the coin tosser: \<^verbatim>\<open>coinTosser/arithmetic.go\<close>, \<^verbatim>\<open>pointShare.go\<close>, \<^verbatim>\<open>ctShare.go\<close> and \<^verbatim>\<open>ss.go\<close>.
  The group, its scalars and the equality proofs come from the package \<^verbatim>\<open>circl\<close>: they are the
  record \<open>circl\<close> of operations, an argument of every definition.  Marshalling may fail, which is
  \<open>None\<close> there.  \<open>circl_codec\<close> and \<open>circl_field\<close> state what the package documents: marshalling is
  invertible and of fixed size, and the scalars are a field that acts on the group.
\<close>

record ('s, 'g, 'p) circl =
  cMulS :: "'s \<Rightarrow> 's \<Rightarrow> 's"
  cSetUint64 :: "uint \<Rightarrow> 's"
  cSub :: "'s \<Rightarrow> 's \<Rightarrow> 's"
  cNeg :: "'s \<Rightarrow> 's"
  cInv :: "'s \<Rightarrow> 's"
  cIsEqual :: "'s \<Rightarrow> 's \<Rightarrow> bool"
  cMulP :: "'g \<Rightarrow> 's \<Rightarrow> 'g"
  cAddP :: "'g \<Rightarrow> 'g \<Rightarrow> 'g"
  cNewScalar :: 's
  cNewElement :: 'g
  cPutS :: "'s \<Rightarrow> bytes option"
  cGetS :: "bytes \<Rightarrow> 's option"
  cPutP :: "'g \<Rightarrow> bytes option"
  cGetP :: "bytes \<Rightarrow> 'g option"
  cHashToElement :: "bytes \<Rightarrow> string \<Rightarrow> 'g"
  cHashToScalar :: "bytes \<Rightarrow> string \<Rightarrow> 's"
  cProve :: "'s \<Rightarrow> 'g \<Rightarrow> 'g \<Rightarrow> 'g \<Rightarrow> 'g \<Rightarrow> 's \<Rightarrow> 'p option"
  cVerify :: "'g \<Rightarrow> 'g \<Rightarrow> 'g \<Rightarrow> 'g \<Rightarrow> 'p \<Rightarrow> bool"
  cPutProof :: "'p \<Rightarrow> bytes option"
  cGetProof :: "bytes \<Rightarrow> 'p option"

datatype coin_error =
    CannotMarshal
  | CannotUnmarshal
  | WrongSize nat nat
  | ShortData nat nat
  | CannotRead read_error
  | CommitNotFound
  | CannotProve
  | InvalidShareFrom uuid
  | AlreadySentShare uuid
  | TossNotFound
  | DealError
  | Wrapped string coin_error

text \<open>The result of a call that may also panic.\<close>

datatype 'a parsed = Parsed 'a | Failed coin_error | Panicked

section \<open>Arithmetic\<close>

definition mulScalar :: "('s, 'g, 'p) circl \<Rightarrow> 's \<Rightarrow> 's \<Rightarrow> 's" where
  "mulScalar C a b = cMulS C a b"

definition newScalar :: "('s, 'g, 'p) circl \<Rightarrow> uint \<Rightarrow> 's" where
  "newScalar C n = cSetUint64 C n"

definition scalar_sub :: "('s, 'g, 'p) circl \<Rightarrow> 's \<Rightarrow> 's \<Rightarrow> 's" where
  "scalar_sub C a b = cSub C a b"

definition scalar_neg :: "('s, 'g, 'p) circl \<Rightarrow> 's \<Rightarrow> 's" where
  "scalar_neg C a = cNeg C a"

definition scalar_inv :: "('s, 'g, 'p) circl \<Rightarrow> 's \<Rightarrow> 's" where
  "scalar_inv C a = cInv C a"

definition mulPoint :: "('s, 'g, 'p) circl \<Rightarrow> 'g \<Rightarrow> 's \<Rightarrow> 'g" where
  "mulPoint C a b = cMulP C a b"

definition addPoint :: "('s, 'g, 'p) circl \<Rightarrow> 'g \<Rightarrow> 'g \<Rightarrow> 'g" where
  "addPoint C a b = cAddP C a b"

lemmas arith_defs = mulScalar_def newScalar_def scalar_sub_def scalar_neg_def scalar_inv_def mulPoint_def addPoint_def

section \<open>Shares and their bytes\<close>

record 's Share =
  ss_ID :: 's
  ss_Value :: 's

record ('s, 'g) pointShare =
  ps_id :: 's
  ps_point :: 'g

record ('s, 'g, 'p) ctShare =
  cts_pt :: "('s, 'g) pointShare"
  cts_proof :: 'p

definition shareToPoint :: "('s, 'g, 'p) circl \<Rightarrow> 's Share \<Rightarrow> 'g \<Rightarrow> ('s, 'g) pointShare" where
  "shareToPoint C share base = \<lparr>ps_id = ss_ID share, ps_point = mulPoint C base (ss_Value share)\<rparr>"

definition GetScalarSize :: "('s, 'g, 'p) circl \<Rightarrow> coin_error + nat" where
  "GetScalarSize C =
     (case cPutS C (cNewScalar C) of None \<Rightarrow> Inl (Wrapped ''unable to marshal scalar'' CannotMarshal) | Some bs \<Rightarrow> Inr (length bs))"

definition getElementSize :: "('s, 'g, 'p) circl \<Rightarrow> coin_error + nat" where
  "getElementSize C =
     (case cPutP C (cNewElement C) of None \<Rightarrow> Inl (Wrapped ''unable to marshal element'' CannotMarshal) | Some bs \<Rightarrow> Inr (length bs))"

definition getPointShareSize :: "('s, 'g, 'p) circl \<Rightarrow> coin_error + nat" where
  "getPointShareSize C =
     (case GetScalarSize C of
        Inl e \<Rightarrow> Inl (Wrapped ''unable to get scalar size'' e)
      | Inr k \<Rightarrow> (case getElementSize C of Inl e \<Rightarrow> Inl (Wrapped ''unable to get element size'' e) | Inr l \<Rightarrow> Inr (k + l)))"

definition ps_marshalBinary :: "('s, 'g, 'p) circl \<Rightarrow> ('s, 'g) pointShare \<Rightarrow> coin_error + bytes" where
  "ps_marshalBinary C ps =
     (case cPutS C (ps_id ps) of
        None \<Rightarrow> Inl (Wrapped ''unable to marshal share ID'' CannotMarshal)
      | Some idBytes \<Rightarrow>
          (case cPutP C (ps_point ps) of
             None \<Rightarrow> Inl (Wrapped ''unable to marshal share value'' CannotMarshal)
           | Some pointBytes \<Rightarrow> Inr (idBytes @ pointBytes)))"

definition ps_unmarshalBinary :: "('s, 'g, 'p) circl \<Rightarrow> bytes \<Rightarrow> coin_error + ('s, 'g) pointShare" where
  "ps_unmarshalBinary C bs =
     (case GetScalarSize C of
        Inl e \<Rightarrow> Inl (Wrapped ''unable to get scalar size'' e)
      | Inr idSize \<Rightarrow>
          (case getElementSize C of
             Inl e \<Rightarrow> Inl (Wrapped ''unable to get element size'' e)
           | Inr pointSize \<Rightarrow>
               if length bs \<noteq> idSize + pointSize then Inl (WrongSize (length bs) (idSize + pointSize))
               else (case cGetS C (take idSize bs) of
                 None \<Rightarrow> Inl (Wrapped ''unable to unmarshal share ID'' CannotUnmarshal)
               | Some i \<Rightarrow>
                   (case cGetP C (drop idSize bs) of
                      None \<Rightarrow> Inl (Wrapped ''unable to unmarshal share value'' CannotUnmarshal)
                    | Some pt \<Rightarrow> Inr \<lparr>ps_id = i, ps_point = pt\<rparr>))))"

text \<open>The slice \<^verbatim>\<open>data[:ptSize]\<close> panics when the data is shorter.\<close>

definition cts_unmarshalBinary :: "('s, 'g, 'p) circl \<Rightarrow> bytes \<Rightarrow> ('s, 'g, 'p) ctShare parsed" where
  "cts_unmarshalBinary C bs =
     (case getPointShareSize C of
        Inl e \<Rightarrow> Failed (Wrapped ''unable to get point share size'' e)
      | Inr ptSize \<Rightarrow>
          if length bs < ptSize then Panicked
          else (case ps_unmarshalBinary C (take ptSize bs) of
            Inl e \<Rightarrow> Failed (Wrapped ''unable to unmarshal point share'' e)
          | Inr pt \<Rightarrow>
              (case cGetProof C (drop ptSize bs) of
                 None \<Rightarrow> Failed (Wrapped ''unable to unmarshal proof'' CannotUnmarshal)
               | Some proof \<Rightarrow> Parsed \<lparr>cts_pt = pt, cts_proof = proof\<rparr>)))"

definition cts_marshalBinary :: "('s, 'g, 'p) circl \<Rightarrow> ('s, 'g, 'p) ctShare \<Rightarrow> coin_error + bytes" where
  "cts_marshalBinary C s =
     (case ps_marshalBinary C (cts_pt s) of
        Inl e \<Rightarrow> Inl (Wrapped ''unable to marshal point share'' e)
      | Inr ptBytes \<Rightarrow>
          (case cPutProof C (cts_proof s) of
             None \<Rightarrow> Inl (Wrapped ''unable to marshal proof'' CannotMarshal)
           | Some proofBytes \<Rightarrow> Inr (ptBytes @ proofBytes)))"

definition marshalShare :: "('s, 'g, 'p) circl \<Rightarrow> 's Share \<Rightarrow> coin_error + bytes" where
  "marshalShare C share =
     (case cPutS C (ss_ID share) of
        None \<Rightarrow> Inl (Wrapped ''unable to marshal share ID'' CannotMarshal)
      | Some idBytes \<Rightarrow>
          (case cPutS C (ss_Value share) of
             None \<Rightarrow> Inl (Wrapped ''unable to marshal share value'' CannotMarshal)
           | Some valueBytes \<Rightarrow> Inr (idBytes @ valueBytes)))"

definition unmarshalShare :: "('s, 'g, 'p) circl \<Rightarrow> bytes \<Rightarrow> coin_error + 's Share" where
  "unmarshalShare C bs =
     (case GetScalarSize C of
        Inl e \<Rightarrow> Inl (Wrapped ''unable to get scalar size'' e)
      | Inr scalarSize \<Rightarrow>
          if length bs \<noteq> scalarSize * 2 then Inl (WrongSize (length bs) (scalarSize * 2))
          else (case cGetS C (take scalarSize bs) of
            None \<Rightarrow> Inl (Wrapped ''unable to unmarshal share ID'' CannotUnmarshal)
          | Some i \<Rightarrow>
              (case cGetS C (drop scalarSize bs) of
                 None \<Rightarrow> Inl (Wrapped ''unable to unmarshal share value'' CannotUnmarshal)
               | Some v \<Rightarrow> Inr \<lparr>ss_ID = i, ss_Value = v\<rparr>)))"

section \<open>Recovering the secret\<close>

definition lagrangeCoefficient :: "('s, 'g, 'p) circl \<Rightarrow> 's \<Rightarrow> 's list \<Rightarrow> 's" where
  "lagrangeCoefficient C i indices =
     (let filteredIndices = filter (\<lambda>j. \<not> cIsEqual C i j) indices;
          numerators = foldl (\<lambda>acc j. mulScalar C (scalar_neg C j) acc) (newScalar C 1) filteredIndices;
          denominators = foldl (\<lambda>acc j. mulScalar C acc (scalar_sub C i j)) (newScalar C 1) filteredIndices
      in mulScalar C numerators (scalar_inv C denominators))"

text \<open>\<open>None\<close> is the panic of \<^verbatim>\<open>terms[1:]\<close> on an empty list of shares.\<close>

definition recoverSecretFromPoints :: "('s, 'g, 'p) circl \<Rightarrow> ('s, 'g) pointShare list \<Rightarrow> 'g option" where
  "recoverSecretFromPoints C shares =
     (let indices = map ps_id shares;
          coefficients = map (\<lambda>i. lagrangeCoefficient C i indices) indices;
          summands = map2 (\<lambda>share coeff. mulPoint C (ps_point share) coeff) shares coefficients
      in case summands of [] \<Rightarrow> None | t # ts \<Rightarrow> Some (foldl (addPoint C) t ts))"

definition hashPointToBool :: "('s, 'g, 'p) circl \<Rightarrow> 'g \<Rightarrow> coin_error + bool" where
  "hashPointToBool C point =
     (case cPutP C point of
        None \<Rightarrow> Inl (Wrapped ''unable to generate bytes from point'' CannotMarshal)
      | Some pointMarshal \<Rightarrow> Inr (foldl (\<lambda>acc b. acc + uint b) 0 (sum256 pointMarshal) mod 2 = 0))"

definition areScalarEquals :: "('s, 'g, 'p) circl \<Rightarrow> 's \<Rightarrow> 's \<Rightarrow> coin_error + bool" where
  "areScalarEquals C a b =
     (case cPutS C a of
        None \<Rightarrow> Inl (Wrapped ''unable to marshal scalar'' CannotMarshal)
      | Some aBytes \<Rightarrow>
          (case cPutS C b of
             None \<Rightarrow> Inl (Wrapped ''unable to marshal scalar'' CannotMarshal)
           | Some bBytes \<Rightarrow> Inr (aBytes = bBytes)))"

section \<open>What the package documents\<close>

definition circl_codec :: "('s, 'g, 'p) circl \<Rightarrow> nat \<Rightarrow> nat \<Rightarrow> bool" where
  "circl_codec C ks kg \<longleftrightarrow>
     (\<forall>a. \<exists>bs. cPutS C a = Some bs \<and> length bs = ks \<and> cGetS C bs = Some a)
     \<and> (\<forall>g. \<exists>bs. cPutP C g = Some bs \<and> length bs = kg \<and> cGetP C bs = Some g)
     \<and> (\<forall>p. \<exists>bs. cPutProof C p = Some bs \<and> cGetProof C bs = Some p)"

definition circl_field :: "('s, 'g, 'p) circl \<Rightarrow> ('s \<Rightarrow> 'f :: field) \<Rightarrow> bool" where
  "circl_field C rep \<longleftrightarrow> bij rep \<and> (\<forall>a b. cIsEqual C a b = (a = b)) \<and> rep (cSetUint64 C 1) = 1
     \<and> (\<forall>a b. rep (cMulS C a b) = rep a * rep b) \<and> (\<forall>a b. rep (cSub C a b) = rep a - rep b)
     \<and> (\<forall>a. rep (cNeg C a) = - rep a) \<and> (\<forall>a. rep (cInv C a) = inverse (rep a))
     \<and> (\<forall>g a b. cMulP C (cMulP C g a) b = cMulP C g (cMulS C a b))
     \<and> (\<forall>g a b d. rep d = rep a + rep b \<longrightarrow> cAddP C (cMulP C g a) (cMulP C g b) = cMulP C g d)"

lemma codec_scalar: "circl_codec C ks kg \<Longrightarrow> \<exists>bs. cPutS C a = Some bs \<and> length bs = ks \<and> cGetS C bs = Some a"
  and codec_point: "circl_codec C ks kg \<Longrightarrow> \<exists>bs. cPutP C g = Some bs \<and> length bs = kg \<and> cGetP C bs = Some g"
  and codec_proof: "circl_codec C ks kg \<Longrightarrow> \<exists>bs. cPutProof C p = Some bs \<and> cGetProof C bs = Some p"
  by (simp_all add: circl_codec_def)

lemma share_sizes:
  assumes "circl_codec C ks kg"
  shows "GetScalarSize C = Inr ks" "getElementSize C = Inr kg" "getPointShareSize C = Inr (ks + kg)"
  using codec_scalar [OF assms, of "cNewScalar C"] codec_point [OF assms, of "cNewElement C"]
  by (auto simp: GetScalarSize_def getElementSize_def getPointShareSize_def)

lemma ps_roundtrip:
  assumes "circl_codec C ks kg"
  obtains bs where "ps_marshalBinary C ps = Inr bs" "length bs = ks + kg" "ps_unmarshalBinary C bs = Inr ps"
proof -
  obtain a b where "cPutS C (ps_id ps) = Some a" "length a = ks" "cGetS C a = Some (ps_id ps)"
    "cPutP C (ps_point ps) = Some b" "length b = kg" "cGetP C b = Some (ps_point ps)"
    using codec_scalar [OF assms, of "ps_id ps"] codec_point [OF assms, of "ps_point ps"] by blast
  then show ?thesis using that [of "a @ b"] by (simp add: ps_marshalBinary_def ps_unmarshalBinary_def share_sizes [OF assms])
qed

lemma cts_roundtrip:
  assumes "circl_codec C ks kg"
  obtains bs where "cts_marshalBinary C s = Inr bs" "ks + kg \<le> length bs" "cts_unmarshalBinary C bs = Parsed s"
proof -
  obtain a where a: "ps_marshalBinary C (cts_pt s) = Inr a" "length a = ks + kg" "ps_unmarshalBinary C a = Inr (cts_pt s)"
    using ps_roundtrip [OF assms, of "cts_pt s"] by blast
  obtain b where "cPutProof C (cts_proof s) = Some b" "cGetProof C b = Some (cts_proof s)" using codec_proof [OF assms] by blast
  with a show ?thesis using that [of "a @ b"]
    by (simp add: cts_marshalBinary_def cts_unmarshalBinary_def share_sizes [OF assms])
qed

lemma share_roundtrip:
  assumes "circl_codec C ks kg"
  obtains bs where "marshalShare C sh = Inr bs" "unmarshalShare C bs = Inr sh"
proof -
  obtain a b where "cPutS C (ss_ID sh) = Some a" "length a = ks" "cGetS C a = Some (ss_ID sh)"
    "cPutS C (ss_Value sh) = Some b" "length b = ks" "cGetS C b = Some (ss_Value sh)"
    using codec_scalar [OF assms, of "ss_ID sh"] codec_scalar [OF assms, of "ss_Value sh"] by blast
  then show ?thesis using that [of "a @ b"] by (simp add: marshalShare_def unmarshalShare_def share_sizes [OF assms])
qed

lemma areScalarEquals_iff: "circl_codec C ks kg \<Longrightarrow> areScalarEquals C a b = Inr (a = b)"
  using codec_scalar [of C ks kg a] codec_scalar [of C ks kg b] by (auto simp: areScalarEquals_def)

section \<open>Recovery is interpolation at zero\<close>

lemma circl_fieldD:
  assumes "circl_field C rep"
  shows "bij rep" "cIsEqual C a b = (a = b)" "rep (newScalar C 1) = 1" "rep (mulScalar C a b) = rep a * rep b"
    "rep (scalar_sub C a b) = rep a - rep b" "rep (scalar_neg C a) = - rep a" "rep (scalar_inv C a) = inverse (rep a)"
    "mulPoint C (mulPoint C g a) b = mulPoint C g (mulScalar C a b)"
    "rep d = rep a + rep b \<Longrightarrow> addPoint C (mulPoint C g a) (mulPoint C g b) = mulPoint C g d"
  using assms unfolding circl_field_def arith_defs by blast+

lemma rep_eq: "circl_field C rep \<Longrightarrow> rep a = rep b \<longleftrightarrow> a = b"
  using circl_fieldD(1) by (metis bij_is_inj inj_eq)

lemma rep_products:
  assumes "circl_field C rep"
  shows "rep (foldl (\<lambda>acc j. mulScalar C (scalar_neg C j) acc) z js) = rep z * (\<Prod>j \<leftarrow> js. - rep j)"
    and "rep (foldl (\<lambda>acc j. mulScalar C acc (scalar_sub C i j)) z js) = rep z * (\<Prod>j \<leftarrow> js. rep i - rep j)"
  by (induction js arbitrary: z) (simp_all add: circl_fieldD [OF assms])

lemma rep_lagrange:
  fixes rep :: "'s \<Rightarrow> 'f :: field"
  assumes C: "circl_field C rep" and "distinct is"
  shows "rep (lagrangeCoefficient C i is) = lagrange0 (rep ` set is) (rep i)"
proof -
  have fin: "distinct (filter ((\<noteq>) i) is)" "set (filter ((\<noteq>) i) is) = set is - {i}" using assms(2) by auto
  have inj: "inj_on rep (set is - {i})" using rep_eq [OF C] by (simp add: inj_on_def)
  have img: "rep ` set is - {rep i} = rep ` (set is - {i})" using rep_eq [OF C] by auto
  have prods: "(\<Prod>j \<leftarrow> filter ((\<noteq>) i) is. g (rep j)) = (\<Prod>y \<in> rep ` set is - {rep i}. g y)" for g :: "'f \<Rightarrow> 'f"
    unfolding img prod.reindex [OF inj] using prod.distinct_set_conv_list [OF fin(1), of "\<lambda>j. g (rep j)"]
    by (simp only: fin(2) comp_def)
  show ?thesis using prods [of uminus] prods [of "\<lambda>y. rep i - y"]
    by (simp add: lagrangeCoefficient_def Let_def circl_fieldD [OF C] rep_products [OF C] lagrange0_def)
qed

lemma sum_points:
  assumes C: "circl_field C rep"
  shows "\<exists>w. foldl (addPoint C) (mulPoint C g v) (map (mulPoint C g) vs) = mulPoint C g w \<and> rep w = rep v + (\<Sum>u \<leftarrow> vs. rep u)"
proof (induction vs arbitrary: v)
  case (Cons u vs)
  obtain d where d: "rep d = rep v + rep u" using circl_fieldD(1) [OF C] by (metis bij_pointE)
  then have "addPoint C (mulPoint C g v) (mulPoint C g u) = mulPoint C g d" by (rule circl_fieldD(9) [OF C])
  then show ?case using Cons.IH [of d] d by (auto simp: add.assoc)
qed auto

lemma map2_map_self: "map2 g xs (map h xs) = map (\<lambda>x. g x (h x)) xs"
  by (induction xs) auto

text \<open>The shares are the values of a polynomial, hidden in the group by the base \<open>g\<close>.\<close>

definition hidden_shares :: "('s, 'g, 'p) circl \<Rightarrow> ('s \<Rightarrow> 'f :: field) \<Rightarrow> (nat \<Rightarrow> 'f) \<Rightarrow> nat \<Rightarrow> 'g \<Rightarrow> ('s, 'g) pointShare set" where
  "hidden_shares C rep a n g = {ps. \<exists>v. rep v = poly_at a n (rep (ps_id ps)) \<and> ps_point ps = mulPoint C g v}"

lemma recover_hidden:
  assumes C: "circl_field C rep" and sh: "set shares \<subseteq> hidden_shares C rep a n g" and dist: "distinct (map ps_id shares)"
    and len: "length shares = n" and n: "0 < n" and s: "rep s = poly_at a n 0"
  shows "recoverSecretFromPoints C shares = Some (mulPoint C g s)"
proof -
  let ?is = "map ps_id shares" and ?X = "rep ` set (map ps_id shares)"
  have "\<forall>ps \<in> set shares. \<exists>v. rep v = poly_at a n (rep (ps_id ps)) \<and> ps_point ps = mulPoint C g v"
    using sh by (auto simp: hidden_shares_def)
  from bchoice [OF this] obtain val where
    "\<forall>ps \<in> set shares. rep (val ps) = poly_at a n (rep (ps_id ps)) \<and> ps_point ps = mulPoint C g (val ps)" by blast
  then have val: "rep (val ps) = poly_at a n (rep (ps_id ps))" "ps_point ps = mulPoint C g (val ps)" if "ps \<in> set shares" for ps
    using that by blast+
  let ?w = "\<lambda>ps. mulScalar C (val ps) (lagrangeCoefficient C (ps_id ps) ?is)"
  have "map2 (\<lambda>share coeff. mulPoint C (ps_point share) coeff) shares (map (\<lambda>i. lagrangeCoefficient C i ?is) ?is)
      = map (\<lambda>ps. mulPoint C (ps_point ps) (lagrangeCoefficient C (ps_id ps) ?is)) shares"
    by (simp add: map2_map_self comp_def)
  also have "\<dots> = map (mulPoint C g) (map ?w shares)" by (simp add: val circl_fieldD(8) [OF C])
  finally have summands: "map2 (\<lambda>share coeff. mulPoint C (ps_point share) coeff) shares (map (\<lambda>i. lagrangeCoefficient C i ?is) ?is)
      = map (mulPoint C g) (map ?w shares)" .
  obtain p ps where sps: "shares = p # ps" using len n by (cases shares) auto
  obtain w where w: "foldl (addPoint C) (mulPoint C g (?w p)) (map (mulPoint C g) (map ?w ps)) = mulPoint C g w"
    "rep w = (\<Sum>u \<leftarrow> map ?w shares. rep u)" using sum_points [OF C, of g "?w p" "map ?w ps"] sps by auto
  have "rep (?w ps) = lagrange0 ?X (rep (ps_id ps)) * poly_at a n (rep (ps_id ps))" if "ps \<in> set shares" for ps
    using val(1) [OF that] rep_lagrange [OF C dist] by (simp add: circl_fieldD(4) [OF C])
  then have "rep w = (\<Sum>i \<leftarrow> ?is. lagrange0 ?X (rep i) * poly_at a n (rep i))"
    unfolding w(2) by (simp add: comp_def cong: map_cong)
  also have "\<dots> = (\<Sum>i \<in> set ?is. lagrange0 ?X (rep i) * poly_at a n (rep i))" using dist by (rule sum_list_distinct_conv_sum_set)
  also have "\<dots> = (\<Sum>x \<in> ?X. lagrange0 ?X x * poly_at a n x)"
    by (subst sum.reindex) (simp_all add: inj_on_def rep_eq [OF C])
  also have "\<dots> = poly_at a n 0"
  proof (rule interpolate_zero)
    have "card (set ?is) = n" using dist len by (metis distinct_card length_map)
    then show "card ?X = n" by (subst card_image) (simp_all add: inj_on_def rep_eq [OF C])
  qed simp
  finally have "w = s" using s rep_eq [OF C] by metis
  then show ?thesis using w(1) summands sps by (simp add: recoverSecretFromPoints_def Let_def)
qed

end
