(* ===== verification/Coin_Deal.thy ===== *)
theory Coin_Deal
  imports Coin_Shares Overlay_Network
begin

text \<open>
  Dealing the secret of the coin: the commitments of \<^verbatim>\<open>coinTosser/dealer.go\<close> and the secret-sharing
  channel \<^verbatim>\<open>overlayNetwork/ssChannel.go\<close> that carries a share to every node.  The polynomial shares
  (\<^verbatim>\<open>ss.New(rand, threshold, secret).Share(n)\<close>, which returns \<open>n\<close> shares) and the random base are
  arguments.  Writes to a memory buffer never fail.
\<close>

section \<open>Commitments\<close>

definition writeCommitment :: "bytes \<Rightarrow> bytes list \<Rightarrow> bytes" where
  "writeCommitment base commits = base @ put_uint32 (of_nat (length commits)) @ concat commits"

fun marshalCommits :: "('s, 'g, 'p) circl \<Rightarrow> ('s, 'g) pointShare list \<Rightarrow> coin_error + bytes list" where
  "marshalCommits C [] = Inr []"
| "marshalCommits C (commit # commits) =
     (case ps_marshalBinary C commit of
        Inl e \<Rightarrow> Inl (Wrapped ''unable to marshal commit'' e)
      | Inr bs \<Rightarrow> (case marshalCommits C commits of Inl e \<Rightarrow> Inl e | Inr bss \<Rightarrow> Inr (bs # bss)))"

definition marshalCommitment :: "('s, 'g, 'p) circl \<Rightarrow> 'g \<Rightarrow> ('s, 'g) pointShare list \<Rightarrow> coin_error + bytes" where
  "marshalCommitment C base commits =
     (case cPutP C base of
        None \<Rightarrow> Inl (Wrapped ''unable to marshal base'' CannotMarshal)
      | Some baseBytes \<Rightarrow>
          (case marshalCommits C commits of Inl e \<Rightarrow> Inl e | Inr commitsBytes \<Rightarrow> Inr (writeCommitment baseBytes commitsBytes)))"

definition computeCommitment :: "('s, 'g, 'p) circl \<Rightarrow> 'g \<Rightarrow> 's Share list \<Rightarrow> coin_error + bytes" where
  "computeCommitment C base shares = marshalCommitment C base (map (\<lambda>share. shareToPoint C share base) shares)"

definition unmarshalBase :: "('s, 'g, 'p) circl \<Rightarrow> bytes \<Rightarrow> coin_error + 'g \<times> bytes" where
  "unmarshalBase C dataIn =
     (case getElementSize C of
        Inl e \<Rightarrow> Inl (Wrapped ''unable to get element length'' e)
      | Inr baseLen \<Rightarrow>
          if length dataIn < baseLen then Inl (ShortData (length dataIn) baseLen)
          else (case cGetP C (take baseLen dataIn) of
            None \<Rightarrow> Inl (Wrapped ''unable to unmarshal base'' CannotUnmarshal)
          | Some base \<Rightarrow> Inr (base, drop baseLen dataIn)))"

definition unmarshalCommitLen :: "bytes \<Rightarrow> coin_error + uint32 \<times> bytes" where
  "unmarshalCommitLen dataIn =
     (if length dataIn < 4 then Inl (ShortData (length dataIn) 4) else Inr (get_uint32 (take 4 dataIn), drop 4 dataIn))"

fun readPointShares :: "('s, 'g, 'p) circl \<Rightarrow> nat \<Rightarrow> nat \<Rightarrow> bytes \<Rightarrow> coin_error + ('s, 'g) pointShare list" where
  "readPointShares C len 0 dataIn = Inr []"
| "readPointShares C len (Suc num) dataIn =
     (case ps_unmarshalBinary C (take len dataIn) of
        Inl e \<Rightarrow> Inl (Wrapped ''unable to unmarshal point share'' e)
      | Inr ps \<Rightarrow> (case readPointShares C len num (drop len dataIn) of Inl e \<Rightarrow> Inl e | Inr pss \<Rightarrow> Inr (ps # pss)))"

definition unmarshalPointShares :: "('s, 'g, 'p) circl \<Rightarrow> bytes \<Rightarrow> nat \<Rightarrow> coin_error + ('s, 'g) pointShare list" where
  "unmarshalPointShares C dataIn num =
     (case getPointShareSize C of
        Inl e \<Rightarrow> Inl (Wrapped ''unable to get point share length'' e)
      | Inr pointShareLen \<Rightarrow>
          if length dataIn \<noteq> num * pointShareLen then Inl (WrongSize (length dataIn) (num * pointShareLen))
          else readPointShares C pointShareLen num dataIn)"

definition unmarshalCommitment :: "('s, 'g, 'p) circl \<Rightarrow> bytes \<Rightarrow> coin_error + 'g \<times> ('s, 'g) pointShare list" where
  "unmarshalCommitment C bs =
     (case unmarshalBase C bs of
        Inl e \<Rightarrow> Inl (Wrapped ''unable to unmarshal base'' e)
      | Inr (base, bs1) \<Rightarrow>
          (case unmarshalCommitLen bs1 of
             Inl e \<Rightarrow> Inl (Wrapped ''unable to unmarshal commitment length'' e)
           | Inr (commitLen, bs2) \<Rightarrow>
               (case unmarshalPointShares C bs2 (unat commitLen) of
                  Inl e \<Rightarrow> Inl (Wrapped ''unable to unmarshal point shares'' e)
                | Inr pss \<Rightarrow> Inr (base, pss))))"

record ('s, 'g) deal =
  deal_base :: 'g
  deal_share :: "'s Share"
  deal_commits :: "('s, 'g) pointShare list"

section \<open>The secret-sharing channel\<close>

datatype ('s, 'pk) SSMsg = SSMsg "'s Share" bytes 'pk | SSErr coin_error

definition listenDeal :: "('s, 'g, 'p) circl \<Rightarrow> ('s, 'pk) SSMsg \<Rightarrow> coin_error + ('s, 'g) deal" where
  "listenDeal C ssMsg =
     (case ssMsg of
        SSErr e \<Rightarrow> Inl (Wrapped ''received error message'' e)
      | SSMsg share commitment sender \<Rightarrow>
          (case unmarshalCommitment C commitment of
             Inl e \<Rightarrow> Inl (Wrapped ''unable to unmarshal commitment'' e)
           | Inr (base, commits) \<Rightarrow> Inr \<lparr>deal_base = base, deal_share = share, deal_commits = commits\<rparr>))"

definition ss_wrapMsg :: "('s, 'g, 'p) circl \<Rightarrow> byte \<Rightarrow> 's Share \<Rightarrow> bytes \<Rightarrow> coin_error + bytes" where
  "ss_wrapMsg C lcode share commitment =
     (case cPutS C (ss_ID share) of
        None \<Rightarrow> Inl (Wrapped ''unable to marshal ID'' CannotMarshal)
      | Some idBytes \<Rightarrow>
          (case cPutS C (ss_Value share) of
             None \<Rightarrow> Inl (Wrapped ''unable to marshal value'' CannotMarshal)
           | Some contentBytes \<Rightarrow> Inr (lcode # idBytes @ contentBytes @ commitment)))"

fun ss_wrapAll :: "('s, 'g, 'p) circl \<Rightarrow> byte \<Rightarrow> 's Share list \<Rightarrow> bytes \<Rightarrow> coin_error + bytes list" where
  "ss_wrapAll C lcode [] commitment = Inr []"
| "ss_wrapAll C lcode (share # shares) commitment =
     (case ss_wrapMsg C lcode share commitment of
        Inl e \<Rightarrow> Inl e
      | Inr m \<Rightarrow> (case ss_wrapAll C lcode shares commitment of Inl e \<Rightarrow> Inl e | Inr ms \<Rightarrow> Inr (m # ms)))"

text \<open>One message per peer; errors are logged, a peer without a connection is a nil dereference.\<close>

fun unicastEach :: "('pk peer \<times> bytes) list \<Rightarrow> 'pk node \<Rightarrow> 'pk node \<times> 'pk net_error outcome" where
  "unicastEach [] nd = (nd, GoNil)"
| "unicastEach ((p, msg) # rest) nd =
     (case peer_conn p of
        None \<Rightarrow> if hasJoined nd then (nd, GoPanic) else unicastEach rest nd
      | Some k \<Rightarrow> unicastEach rest (fst (unicast msg k nd)))"

definition SSBroadcast ::
  "('s, 'g, 'p) circl \<Rightarrow> byte \<Rightarrow> (nat \<Rightarrow> 's Share list) \<Rightarrow> ('s Share list \<Rightarrow> coin_error + bytes) \<Rightarrow> 'pk node
    \<Rightarrow> 'pk node \<times> 'pk net_error outcome"
where
  "SSBroadcast C lcode secretSharing commitMaker nd =
     (let ps = getPeers nd; shares = secretSharing (length ps + 1)
      in case commitMaker shares of
           Inl e \<Rightarrow> (nd, GoErr UnableToMakeCommitment)
         | Inr commitment \<Rightarrow>
             (case ss_wrapAll C lcode shares commitment of
                Inl e \<Rightarrow> (nd, GoErr UnableToWrapMessage)
              | Inr [] \<Rightarrow> (nd, GoPanic)
              | Inr (m # ms) \<Rightarrow> and_then (wrap_err UnableToUnicastSelf (unicastSelf m nd)) (unicastEach (zip ps ms))))"

definition DealSecret ::
  "('s, 'g, 'p) circl \<Rightarrow> byte \<Rightarrow> 'g \<Rightarrow> (nat \<Rightarrow> 's Share list) \<Rightarrow> 'pk node \<Rightarrow> 'pk node \<times> 'pk net_error outcome"
where
  "DealSecret C lcode base secretSharing nd = SSBroadcast C lcode secretSharing (computeCommitment C base) nd"

text \<open>What the channel hands to its reader for a message, if anything.\<close>

definition ss_bebDeliver ::
  "('s, 'g, 'p) circl \<Rightarrow> byte \<Rightarrow> bytes \<Rightarrow> 'pk \<Rightarrow> ('s, 'pk) SSMsg option \<times> coin_error outcome"
where
  "ss_bebDeliver C lcode msg sender =
     (case msg of
        [] \<Rightarrow> (None, GoPanic)
      | code # m \<Rightarrow>
          if code \<noteq> lcode then (None, GoNil)
          else (Some (case GetScalarSize C of
              Inl e \<Rightarrow> SSErr (Wrapped ''unable to get scalar size'' e)
            | Inr scalarSize \<Rightarrow>
                if length m < 2 * scalarSize then SSErr (ShortData (length m) (2 * scalarSize))
                else (case cGetS C (take scalarSize m) of
                  None \<Rightarrow> SSErr (Wrapped ''unable to unmarshal ID'' CannotUnmarshal)
                | Some i \<Rightarrow>
                    (case cGetS C (take scalarSize (drop scalarSize m)) of
                       None \<Rightarrow> SSErr (Wrapped ''unable to unmarshal value'' CannotUnmarshal)
                     | Some v \<Rightarrow> SSMsg \<lparr>ss_ID = i, ss_Value = v\<rparr> (drop (2 * scalarSize) m) sender))), GoNil))"

section \<open>Round trips\<close>

lemma marshalCommits_roundtrip:
  assumes "circl_codec C ks kg"
  obtains bss where "marshalCommits C pss = Inr bss" "length bss = length pss" "length (concat bss) = length pss * (ks + kg)"
    "\<And>r. readPointShares C (ks + kg) (length pss) (concat bss @ r) = Inr pss"
proof (induction pss arbitrary: thesis)
  case Nil
  then show ?case by simp
next
  case (Cons ps pss)
  obtain bss where IH: "marshalCommits C pss = Inr bss" "length bss = length pss" "length (concat bss) = length pss * (ks + kg)"
    "\<And>r. readPointShares C (ks + kg) (length pss) (concat bss @ r) = Inr pss" using Cons.IH by blast
  obtain bs where bs: "ps_marshalBinary C ps = Inr bs" "length bs = ks + kg" "ps_unmarshalBinary C bs = Inr ps"
    by (rule ps_roundtrip [OF assms])
  show ?case by (rule Cons.prems [of "bs # bss"]) (use IH bs in simp_all)
qed

lemma commitment_roundtrip:
  assumes C: "circl_codec C ks kg" and len: "length pss < 2 ^ 32"
  obtains bs where "marshalCommitment C base pss = Inr bs" "unmarshalCommitment C bs = Inr (base, pss)"
proof -
  obtain bb where bb: "cPutP C base = Some bb" "length bb = kg" "cGetP C bb = Some base" using codec_point [OF C] by blast
  obtain bss where bss: "marshalCommits C pss = Inr bss" "length bss = length pss" "length (concat bss) = length pss * (ks + kg)"
    "\<And>r. readPointShares C (ks + kg) (length pss) (concat bss @ r) = Inr pss" using marshalCommits_roundtrip [OF C] by blast
  let ?n = "put_uint32 (of_nat (length pss))"
  have n: "unat (get_uint32 ?n) = length pss"
    using len get_put_uint32 [of "of_nat (length pss)" "[]"] by (simp add: unat_of_nat)
  have "unmarshalPointShares C (concat bss) (length pss) = Inr pss"
    using bss(3) bss(4) [of "[]"] by (simp add: unmarshalPointShares_def share_sizes [OF C])
  then have "unmarshalCommitment C (bb @ ?n @ concat bss) = Inr (base, pss)"
    using bb n by (simp add: unmarshalCommitment_def unmarshalBase_def unmarshalCommitLen_def share_sizes [OF C])
  then show ?thesis using that [of "bb @ ?n @ concat bss"] bb bss(1,2) by (simp add: marshalCommitment_def writeCommitment_def)
qed

lemma ss_wrap_deliver:
  assumes C: "circl_codec C ks kg"
  obtains m where "ss_wrapMsg C code sh com = Inr m" "ss_bebDeliver C code m pk = (Some (SSMsg sh com pk), GoNil)"
proof -
  obtain a b where "cPutS C (ss_ID sh) = Some a" "length a = ks" "cGetS C a = Some (ss_ID sh)"
    "cPutS C (ss_Value sh) = Some b" "length b = ks" "cGetS C b = Some (ss_Value sh)"
    using codec_scalar [OF C, of "ss_ID sh"] codec_scalar [OF C, of "ss_Value sh"] by blast
  then show ?thesis using that [of "code # a @ b @ com"] by (simp add: ss_wrapMsg_def ss_bebDeliver_def share_sizes [OF C])
qed

text \<open>
  The deal arrives: the share and the commitments that the dealer wraps into a message are
  the share and the commitments of the deal that the receiver reads from it.
\<close>

theorem deal_roundtrip:
  assumes "circl_codec C ks kg" and "length shares < 2 ^ 32"
  shows "\<exists>com m. computeCommitment C base shares = Inr com \<and> ss_wrapMsg C code sh com = Inr m
    \<and> ss_bebDeliver C code m pk = (Some (SSMsg sh com pk), GoNil)
    \<and> listenDeal C (SSMsg sh com pk) =
        Inr \<lparr>deal_base = base, deal_share = sh, deal_commits = map (\<lambda>s. shareToPoint C s base) shares\<rparr>"
proof -
  obtain com where com: "computeCommitment C base shares = Inr com"
    "unmarshalCommitment C com = Inr (base, map (\<lambda>s. shareToPoint C s base) shares)"
    unfolding computeCommitment_def by (rule commitment_roundtrip [OF assms(1)]) (use assms(2) in auto)
  moreover obtain m where "ss_wrapMsg C code sh com = Inr m" "ss_bebDeliver C code m pk = (Some (SSMsg sh com pk), GoNil)"
    by (rule ss_wrap_deliver [OF assms(1)])
  ultimately show ?thesis by (simp add: listenDeal_def)
qed

end
