(* ===== verification/Coin_Toss.thy ===== *)
theory Coin_Toss
  imports Coin_Deal
begin

text \<open>
  One coin toss: \<^verbatim>\<open>coinTosser/instance.go\<close>.  A node's share of the coin is its share of the secret,
  hidden by the base of the toss, with a proof that it is the share the dealer committed to; the
  share processor collects \<open>t + 1\<close> shares and hashes the point they recover.  The commands of the
  processor run one at a time in its goroutine.  \<open>sp_stopped\<close> says that this goroutine takes no more
  commands: it has left its loop, or it waits for ever to send a second value to a caller that has
  received the first.  \<open>sp_outputs\<close> are the coins handed to the goroutines that send on
  \<^verbatim>\<open>outputChan\<close>.
\<close>

section \<open>The share processor\<close>

record ('s, 'g) shareProcessor =
  sp_t :: uint
  sp_shares :: "('s, 'g) pointShare list"
  sp_receivedFrom :: "uuid set"
  sp_outputs :: "bool list"
  sp_stopped :: bool

definition newShareProcessor :: "uint \<Rightarrow> ('s, 'g) shareProcessor" where
  "newShareProcessor t = \<lparr>sp_t = t, sp_shares = [], sp_receivedFrom = {}, sp_outputs = [], sp_stopped = False\<rparr>"

text \<open>
  What is left of the command once the sender is known not to be new: it goes on, and its last send
  has no receiver.  For a new sender only a failed hash leaves it so.
\<close>

definition processShare ::
  "('s, 'g, 'p) circl \<Rightarrow> ('s, 'g) pointShare \<Rightarrow> uuid \<Rightarrow> ('s, 'g) shareProcessor
    \<Rightarrow> ('s, 'g) shareProcessor \<times> coin_error outcome"
where
  "processShare C share senderId sp =
     (if sp_stopped sp then (sp, GoBlocked)
      else
        let dup = senderId \<in> sp_receivedFrom sp;
            sp1 = sp\<lparr>sp_receivedFrom := insert senderId (sp_receivedFrom sp), sp_shares := sp_shares sp @ [share]\<rparr>;
            told = (if dup then GoErr (AlreadySentShare senderId) else GoNil)
        in if int (length (sp_shares sp1)) = int_of_uint (sp_t sp1 + 1)
           then (case recoverSecretFromPoints C (sp_shares sp1) of
                   None \<Rightarrow> (sp1, GoPanic)
                 | Some secretPoint \<Rightarrow>
                     (case hashPointToBool C secretPoint of
                        Inl e \<Rightarrow>
                          if dup then (sp1\<lparr>sp_stopped := True\<rparr>, told)
                          else (sp1\<lparr>sp_outputs := sp_outputs sp1 @ [False], sp_stopped := True\<rparr>,
                                GoErr (Wrapped ''unable to hash point to bool'' e))
                      | Inr coin \<Rightarrow> (sp1\<lparr>sp_outputs := sp_outputs sp1 @ [coin], sp_stopped := dup\<rparr>, told)))
           else (sp1\<lparr>sp_stopped := dup\<rparr>, told))"

definition sp_close :: "('s, 'g) shareProcessor \<Rightarrow> ('s, 'g) shareProcessor \<times> coin_error outcome" where
  "sp_close sp = (if sp_stopped sp then (sp, GoBlocked) else (sp\<lparr>sp_stopped := True\<rparr>, GoNil))"

section \<open>The toss\<close>

record ('s, 'g) coinToss =
  ct_base :: 'g
  ct_deal :: "('s, 'g) deal"
  ct_sp :: "('s, 'g) shareProcessor"

definition newCoinToss :: "uint \<Rightarrow> 'g \<Rightarrow> ('s, 'g) deal \<Rightarrow> ('s, 'g) coinToss" where
  "newCoinToss threshold base d = \<lparr>ct_base = base, ct_deal = d, ct_sp = newShareProcessor threshold\<rparr>"

fun findCommit :: "('s, 'g, 'p) circl \<Rightarrow> 's \<Rightarrow> ('s, 'g) pointShare list \<Rightarrow> coin_error + 'g" where
  "findCommit C idx [] = Inl CommitNotFound"
| "findCommit C idx (commit # commits) =
     (case areScalarEquals C (ps_id commit) idx of
        Inl e \<Rightarrow> Inl (Wrapped ''unable to compare scalars'' e)
      | Inr ok \<Rightarrow> if ok then Inr (ps_point commit) else findCommit C idx commits)"

definition getCommit :: "('s, 'g, 'p) circl \<Rightarrow> 's \<Rightarrow> ('s, 'g) deal \<Rightarrow> coin_error + 'g" where
  "getCommit C idx d = findCommit C idx (deal_commits d)"

text \<open>The random number \<open>r\<close> is an argument.\<close>

definition computeProofSeed :: "('s, 'g, 'p) circl \<Rightarrow> uint32 \<Rightarrow> 's" where
  "computeProofSeed C r = cHashToScalar C (put_uint32 r) ''dleqSeed''"

definition genProof :: "('s, 'g, 'p) circl \<Rightarrow> uint32 \<Rightarrow> 'g \<Rightarrow> ('s, 'g) coinToss \<Rightarrow> coin_error + 'p" where
  "genProof C r valToProve ct =
     (let seed = computeProofSeed C r; d = ct_deal ct
      in case getCommit C (ss_ID (deal_share d)) d of
           Inl e \<Rightarrow> Inl (Wrapped ''unable to get my commitment'' e)
         | Inr myCommit \<Rightarrow>
             (case cProve C (ss_Value (deal_share d)) (ct_base ct) valToProve (deal_base d) myCommit seed of
                None \<Rightarrow> Inl (Wrapped ''unable to generate proof'' CannotProve)
              | Some pf \<Rightarrow> Inr pf))"

definition tossCoin :: "('s, 'g, 'p) circl \<Rightarrow> uint32 \<Rightarrow> ('s, 'g) coinToss \<Rightarrow> coin_error + ('s, 'g, 'p) ctShare" where
  "tossCoin C r ct =
     (let share = shareToPoint C (deal_share (ct_deal ct)) (ct_base ct)
      in case genProof C r (ps_point share) ct of
           Inl e \<Rightarrow> Inl (Wrapped ''unable to generate proof'' e)
         | Inr pf \<Rightarrow> Inr \<lparr>cts_pt = share, cts_proof = pf\<rparr>)"

definition isTossValid :: "('s, 'g, 'p) circl \<Rightarrow> ('s, 'g, 'p) ctShare \<Rightarrow> ('s, 'g) coinToss \<Rightarrow> coin_error + bool" where
  "isTossValid C share ct =
     (case getCommit C (ps_id (cts_pt share)) (ct_deal ct) of
        Inl e \<Rightarrow> Inl (Wrapped ''unable to get peer commitment'' e)
      | Inr peerCommit \<Rightarrow>
          Inr (cVerify C (ct_base ct) (ps_point (cts_pt share)) (deal_base (ct_deal ct)) peerCommit (cts_proof share)))"

definition ct_submitShare ::
  "('s, 'g, 'p) circl \<Rightarrow> ('s, 'g, 'p) ctShare \<Rightarrow> uuid \<Rightarrow> ('s, 'g) coinToss \<Rightarrow> ('s, 'g) coinToss \<times> coin_error outcome"
where
  "ct_submitShare C share senderId ct =
     (case isTossValid C share ct of
        Inl e \<Rightarrow> (ct, GoErr (Wrapped ''unable to validate share'' e))
      | Inr isValid \<Rightarrow>
          if \<not> isValid then (ct, GoErr (InvalidShareFrom senderId))
          else (case processShare C (cts_pt share) senderId (ct_sp ct) of (sp, r) \<Rightarrow> (ct\<lparr>ct_sp := sp\<rparr>, r)))"

definition ct_close :: "('s, 'g) coinToss \<Rightarrow> ('s, 'g) coinToss \<times> coin_error outcome" where
  "ct_close ct = (case sp_close (ct_sp ct) of (sp, r) \<Rightarrow> (ct\<lparr>ct_sp := sp\<rparr>, r))"

section \<open>What the proofs of the package promise\<close>

text \<open>
  A proof that verifies shows that one exponent links both pairs of points, and the proof of a true
  statement can be made and verifies.
\<close>

definition dleq_sound :: "('s, 'g, 'p) circl \<Rightarrow> bool" where
  "dleq_sound C \<longleftrightarrow> (\<forall>k kp b bp pf. cVerify C k kp b bp pf \<longrightarrow> (\<exists>x. kp = cMulP C k x \<and> bp = cMulP C b x))"

definition dleq_complete :: "('s, 'g, 'p) circl \<Rightarrow> bool" where
  "dleq_complete C \<longleftrightarrow> (\<forall>x k b rnd. \<exists>pf. cProve C x k (cMulP C k x) b (cMulP C b x) rnd = Some pf
     \<and> cVerify C k (cMulP C k x) b (cMulP C b x) pf)"

text \<open>
  A deal of the values of a polynomial with \<open>n\<close> coefficients: the commitments hide values under a
  base that determines exponents, one for each identifier.
\<close>

definition good_deal :: "('s, 'g, 'p) circl \<Rightarrow> ('s \<Rightarrow> 'f :: field) \<Rightarrow> (nat \<Rightarrow> 'f) \<Rightarrow> nat \<Rightarrow> 's Share list \<Rightarrow> ('s, 'g) deal \<Rightarrow> bool" where
  "good_deal C rep a n shares d \<longleftrightarrow> inj (cMulP C (deal_base d)) \<and> distinct (map ss_ID shares)
     \<and> (\<forall>sh \<in> set shares. rep (ss_Value sh) = poly_at a n (rep (ss_ID sh)))
     \<and> deal_commits d = map (\<lambda>sh. shareToPoint C sh (deal_base d)) shares \<and> deal_share d \<in> set shares"

section \<open>Valid shares\<close>

lemma findCommit_dealt:
  assumes "circl_codec C ks kg" and "distinct (map ss_ID shares)" and "sh \<in> set shares"
  shows "findCommit C (ss_ID sh) (map (\<lambda>sh. shareToPoint C sh b) shares) = Inr (mulPoint C b (ss_Value sh))"
  using assms(2,3)
proof (induction shares)
  case (Cons s ss)
  show ?case
  proof (cases "s = sh")
    case True
    then show ?thesis by (simp add: areScalarEquals_iff [OF assms(1)] shareToPoint_def)
  next
    case False
    then have "ss_ID s \<noteq> ss_ID sh" using Cons.prems by (metis distinct.simps(2) image_eqI list.map(2) list.set_map set_ConsD)
    then show ?thesis using Cons False by (simp add: areScalarEquals_iff [OF assms(1)] shareToPoint_def)
  qed
qed simp

lemma findCommit_found:
  assumes "circl_codec C ks kg" and "findCommit C i (map (\<lambda>sh. shareToPoint C sh b) shares) = Inr p"
  obtains sh where "sh \<in> set shares" "ss_ID sh = i" "p = mulPoint C b (ss_Value sh)"
  using assms(2)
proof (induction shares)
  case (Cons s ss)
  then show ?case by (cases "ss_ID s = i") (auto simp: areScalarEquals_iff [OF assms(1)] shareToPoint_def)
qed simp

text \<open>A share that passes the check is the value of the polynomial hidden by the base of the toss.\<close>

lemma valid_share_hidden:
  assumes "circl_codec C ks kg" and "dleq_sound C" and d: "good_deal C rep a n shares (ct_deal ct)"
    and v: "isTossValid C share ct = Inr True"
  shows "cts_pt share \<in> hidden_shares C rep a n (ct_base ct)"
proof -
  let ?d = "ct_deal ct"
  obtain pc where pc: "getCommit C (ps_id (cts_pt share)) ?d = Inr pc"
    "cVerify C (ct_base ct) (ps_point (cts_pt share)) (deal_base ?d) pc (cts_proof share)"
    using v by (auto simp: isTossValid_def split: sum.splits)
  obtain x where x: "ps_point (cts_pt share) = cMulP C (ct_base ct) x" "pc = cMulP C (deal_base ?d) x"
    using pc(2) assms(2) unfolding dleq_sound_def by blast
  have commits: "deal_commits ?d = map (\<lambda>sh. shareToPoint C sh (deal_base ?d)) shares" using d by (simp add: good_deal_def)
  obtain sh where sh: "sh \<in> set shares" "ss_ID sh = ps_id (cts_pt share)" "pc = mulPoint C (deal_base ?d) (ss_Value sh)"
    by (rule findCommit_found [OF assms(1) pc(1) [unfolded getCommit_def commits]])
  have "x = ss_Value sh" using x(2) sh(3) d by (simp add: good_deal_def mulPoint_def inj_eq)
  then have "rep x = poly_at a n (rep (ps_id (cts_pt share)))" using d sh(1,2) by (simp add: good_deal_def)
  then show ?thesis using x(1) by (auto simp: hidden_shares_def mulPoint_def)
qed

text \<open>The share that a node makes passes the check at every node that has the same commitments.\<close>

lemma own_share_valid:
  assumes "circl_codec C ks kg" and "dleq_complete C" and d: "good_deal C rep a n shares (ct_deal ct)"
    and b: "ct_base other = ct_base ct" "deal_base (ct_deal other) = deal_base (ct_deal ct)"
      "deal_commits (ct_deal other) = deal_commits (ct_deal ct)"
  shows "\<exists>share. tossCoin C r ct = Inr share \<and> cts_pt share = shareToPoint C (deal_share (ct_deal ct)) (ct_base ct)
    \<and> isTossValid C share other = Inr True"
proof -
  let ?d = "ct_deal ct" and ?sh = "deal_share (ct_deal ct)"
  have "findCommit C (ss_ID ?sh) (deal_commits ?d) = Inr (mulPoint C (deal_base ?d) (ss_Value ?sh))"
    using d findCommit_dealt [OF assms(1)] by (auto simp: good_deal_def)
  moreover obtain pf where
    "cProve C (ss_Value ?sh) (ct_base ct) (cMulP C (ct_base ct) (ss_Value ?sh)) (deal_base ?d)
       (cMulP C (deal_base ?d) (ss_Value ?sh)) (computeProofSeed C r) = Some pf"
    "cVerify C (ct_base ct) (cMulP C (ct_base ct) (ss_Value ?sh)) (deal_base ?d) (cMulP C (deal_base ?d) (ss_Value ?sh)) pf"
    using assms(2) unfolding dleq_complete_def by blast
  ultimately show ?thesis
    by (simp add: tossCoin_def genProof_def isTossValid_def getCommit_def Let_def shareToPoint_def mulPoint_def b)
qed

section \<open>The processor outputs one coin\<close>

definition sp_need :: "('s, 'g) shareProcessor \<Rightarrow> nat" where
  "sp_need sp = unat (sp_t sp) + 1"

definition sp_inv :: "('s, 'g, 'p) circl \<Rightarrow> ('s, 'g) shareProcessor \<Rightarrow> bool" where
  "sp_inv C sp \<longleftrightarrow> unat (sp_t sp) + 1 < 2 ^ 63 \<and>
     (if length (sp_shares sp) < sp_need sp then sp_outputs sp = []
      else \<exists>pt b. recoverSecretFromPoints C (take (sp_need sp) (sp_shares sp)) = Some pt
             \<and> hashPointToBool C pt = Inr b \<and> sp_outputs sp = [b])"

lemma sp_inv_init: "unat t + 1 < 2 ^ 63 \<Longrightarrow> sp_inv C (newShareProcessor t)"
  by (simp add: sp_inv_def sp_need_def newShareProcessor_def)

lemma hash_total: "circl_codec C ks kg \<Longrightarrow> \<exists>b. hashPointToBool C pt = Inr b"
  using codec_point [of C ks kg pt] by (auto simp: hashPointToBool_def)

lemma need_int:
  assumes "unat t + 1 < 2 ^ 63"
  shows "int_of_uint (t + 1) = int (unat t + 1)"
  using assms by (simp add: int_of_uint_def unat_word_ariths)

lemma recover_nonempty: "shares \<noteq> [] \<Longrightarrow> \<exists>pt. recoverSecretFromPoints C shares = Some pt"
  by (cases shares) (auto simp: recoverSecretFromPoints_def Let_def)

text \<open>The command of a running processor: the share is appended, the coin is output at the threshold.\<close>

lemma processShare_eq:
  assumes "circl_codec C ks kg" and "unat (sp_t sp) + 1 < 2 ^ 63" and "\<not> sp_stopped sp"
  shows "\<exists>out. processShare C share sender sp =
     (sp\<lparr>sp_receivedFrom := insert sender (sp_receivedFrom sp), sp_shares := sp_shares sp @ [share],
         sp_outputs := sp_outputs sp @ out, sp_stopped := sender \<in> sp_receivedFrom sp\<rparr>,
      if sender \<in> sp_receivedFrom sp then GoErr (AlreadySentShare sender) else GoNil)
     \<and> (if Suc (length (sp_shares sp)) = sp_need sp
        then \<exists>pt b. recoverSecretFromPoints C (sp_shares sp @ [share]) = Some pt \<and> hashPointToBool C pt = Inr b \<and> out = [b]
        else out = [])"
proof (cases "Suc (length (sp_shares sp)) = sp_need sp")
  case True
  obtain pt where pt: "recoverSecretFromPoints C (sp_shares sp @ [share]) = Some pt"
    using recover_nonempty [of "sp_shares sp @ [share]" C] by auto
  obtain b where b: "hashPointToBool C pt = Inr b" using hash_total [OF assms(1)] by blast
  have hit: "int (length (sp_shares sp @ [share])) = int_of_uint (sp_t sp + 1)"
    using True need_int [OF assms(2)] by (simp add: sp_need_def)
  show ?thesis by (rule exI [of _ "[b]"]) (use assms(3) True hit pt b in \<open>simp add: processShare_def Let_def\<close>)
next
  case False
  then have miss: "int (length (sp_shares sp @ [share])) \<noteq> int_of_uint (sp_t sp + 1)"
    unfolding need_int [OF assms(2)] of_nat_eq_iff by (simp add: sp_need_def)
  show ?thesis by (rule exI [of _ "[]"]) (use assms(3) False miss in \<open>simp add: processShare_def Let_def\<close>)
qed

lemma processShare_inv:
  assumes C: "circl_codec C ks kg" and inv: "sp_inv C sp"
  shows "sp_inv C (fst (processShare C share sender sp))"
proof (cases "sp_stopped sp")
  case True
  then show ?thesis using inv by (simp add: processShare_def)
next
  case False
  have t: "unat (sp_t sp) + 1 < 2 ^ 63" using inv by (simp add: sp_inv_def)
  obtain out where out: "fst (processShare C share sender sp) =
      sp\<lparr>sp_receivedFrom := insert sender (sp_receivedFrom sp), sp_shares := sp_shares sp @ [share],
         sp_outputs := sp_outputs sp @ out, sp_stopped := sender \<in> sp_receivedFrom sp\<rparr>"
    and o: "if Suc (length (sp_shares sp)) = sp_need sp
        then \<exists>pt b. recoverSecretFromPoints C (sp_shares sp @ [share]) = Some pt \<and> hashPointToBool C pt = Inr b \<and> out = [b]
        else out = []" using processShare_eq [OF C t False, of share sender] by auto
  consider "Suc (length (sp_shares sp)) < sp_need sp" | "Suc (length (sp_shares sp)) = sp_need sp"
    | "sp_need sp < Suc (length (sp_shares sp))" by linarith
  then show ?thesis unfolding out
    by cases (use inv o in \<open>auto simp: sp_inv_def sp_need_def\<close>)
qed

lemma processShare_sel:
  assumes "circl_codec C ks kg" and "sp_inv C sp"
  shows "sp_shares (fst (processShare C share sender sp)) = sp_shares sp @ (if sp_stopped sp then [] else [share])"
    "sp_t (fst (processShare C share sender sp)) = sp_t sp"
    "sender \<notin> sp_receivedFrom sp \<Longrightarrow> \<not> sp_stopped sp \<Longrightarrow> snd (processShare C share sender sp) = GoNil
       \<and> \<not> sp_stopped (fst (processShare C share sender sp))
       \<and> sp_receivedFrom (fst (processShare C share sender sp)) = insert sender (sp_receivedFrom sp)"
    "snd (processShare C share sender sp) = GoBlocked \<longleftrightarrow> sp_stopped sp"
    "snd (processShare C share sender sp) \<noteq> GoPanic"
proof -
  have t: "unat (sp_t sp) + 1 < 2 ^ 63" using assms(2) by (simp add: sp_inv_def)
  note eq = processShare_eq [OF assms(1) t, of share sender]
  consider "sp_stopped sp" "processShare C share sender sp = (sp, GoBlocked)"
    | out where "\<not> sp_stopped sp" "processShare C share sender sp =
       (sp\<lparr>sp_receivedFrom := insert sender (sp_receivedFrom sp), sp_shares := sp_shares sp @ [share],
         sp_outputs := sp_outputs sp @ out, sp_stopped := sender \<in> sp_receivedFrom sp\<rparr>,
        if sender \<in> sp_receivedFrom sp then GoErr (AlreadySentShare sender) else GoNil)"
    using eq by (cases "sp_stopped sp") (auto simp: processShare_def)
  note cases = this
  show "sp_shares (fst (processShare C share sender sp)) = sp_shares sp @ (if sp_stopped sp then [] else [share])"
    by (rule cases) simp_all
  show "sp_t (fst (processShare C share sender sp)) = sp_t sp" by (rule cases) simp_all
  show "snd (processShare C share sender sp) = GoBlocked \<longleftrightarrow> sp_stopped sp" by (rule cases) simp_all
  show "snd (processShare C share sender sp) \<noteq> GoPanic" by (rule cases) simp_all
  show "snd (processShare C share sender sp) = GoNil
       \<and> \<not> sp_stopped (fst (processShare C share sender sp))
       \<and> sp_receivedFrom (fst (processShare C share sender sp)) = insert sender (sp_receivedFrom sp)"
    if "sender \<notin> sp_receivedFrom sp" "\<not> sp_stopped sp" by (rule cases) (use that in simp_all)
qed

section \<open>The invariant of a toss\<close>

text \<open>The processor is sound, and every share it keeps is a hidden share of the secret.\<close>

definition ct_inv :: "('s, 'g, 'p) circl \<Rightarrow> ('s \<Rightarrow> 'f :: field) \<Rightarrow> (nat \<Rightarrow> 'f) \<Rightarrow> nat \<Rightarrow> ('s, 'g) coinToss \<Rightarrow> bool" where
  "ct_inv C rep a n ct \<longleftrightarrow> sp_inv C (ct_sp ct) \<and> sp_need (ct_sp ct) = n
     \<and> set (sp_shares (ct_sp ct)) \<subseteq> hidden_shares C rep a n (ct_base ct)"

lemma ct_inv_init: "unat t + 1 < 2 ^ 63 \<Longrightarrow> ct_inv C rep a (unat t + 1) (newCoinToss t base d)"
  by (simp add: ct_inv_def newCoinToss_def sp_inv_init) (simp add: sp_need_def newShareProcessor_def)

lemma ct_submit_cases:
  obtains "isTossValid C share ct \<noteq> Inr True" "fst (ct_submitShare C share sender ct) = ct"
      "\<exists>e. snd (ct_submitShare C share sender ct) = GoErr e"
  | "isTossValid C share ct = Inr True"
    "fst (ct_submitShare C share sender ct) = ct\<lparr>ct_sp := fst (processShare C (cts_pt share) sender (ct_sp ct))\<rparr>"
    "snd (ct_submitShare C share sender ct) = snd (processShare C (cts_pt share) sender (ct_sp ct))"
proof (cases "isTossValid C share ct = Inr True")
  case True
  then show ?thesis using that(2) by (simp add: ct_submitShare_def split: prod.splits)
next
  case False
  then show ?thesis using that(1) by (auto simp: ct_submitShare_def split: sum.splits)
qed

lemma ct_submit_sel [simp]:
  "ct_base (fst (ct_submitShare C share sender ct)) = ct_base ct" "ct_deal (fst (ct_submitShare C share sender ct)) = ct_deal ct"
  by (rule ct_submit_cases [of C share ct sender]; simp)+

lemma isTossValid_sp [simp]: "isTossValid C share (ct\<lparr>ct_sp := sp\<rparr>) = isTossValid C share ct"
  by (simp add: isTossValid_def cong: sum.case_cong)

lemma ct_submit_inv:
  assumes "circl_codec C ks kg" and "dleq_sound C" and "good_deal C rep a n shares (ct_deal ct)" and inv: "ct_inv C rep a n ct"
  shows "ct_inv C rep a n (fst (ct_submitShare C share sender ct))"
proof (rule ct_submit_cases [of C share ct sender])
  assume v: "isTossValid C share ct = Inr True"
    and eq: "fst (ct_submitShare C share sender ct) = ct\<lparr>ct_sp := fst (processShare C (cts_pt share) sender (ct_sp ct))\<rparr>"
  have sp: "sp_inv C (ct_sp ct)" using inv by (simp add: ct_inv_def)
  have h: "cts_pt share \<in> hidden_shares C rep a n (ct_base ct)" by (rule valid_share_hidden [OF assms(1-3) v])
  show ?thesis unfolding eq
    using inv h processShare_inv [OF assms(1) sp] processShare_sel(1,2) [OF assms(1) sp, of "cts_pt share" sender]
    by (auto simp: ct_inv_def sp_need_def)
qed (use inv in simp)

text \<open>The coin of a toss whose first shares have different identifiers is the coin of the secret.\<close>

lemma ct_inv_coin:
  assumes C: "circl_field C rep" "circl_codec C ks kg" and inv: "ct_inv C rep a n ct" and s: "rep s = poly_at a n 0"
    and dist: "distinct (map ps_id (take n (sp_shares (ct_sp ct))))"
  obtains b where "hashPointToBool C (mulPoint C (ct_base ct) s) = Inr b"
    "sp_outputs (ct_sp ct) = (if length (sp_shares (ct_sp ct)) < n then [] else [b])"
proof (cases "length (sp_shares (ct_sp ct)) < n")
  case True
  then show ?thesis using that hash_total [OF C(2)] inv by (fastforce simp: ct_inv_def sp_inv_def)
next
  case False
  let ?sp = "ct_sp ct"
  have n: "sp_need ?sp = n" "sp_inv C ?sp" using inv by (simp_all add: ct_inv_def)
  then obtain pt c where pt: "recoverSecretFromPoints C (take n (sp_shares ?sp)) = Some pt" "hashPointToBool C pt = Inr c"
    "sp_outputs ?sp = [c]" using False by (auto simp: sp_inv_def)
  have "set (take n (sp_shares ?sp)) \<subseteq> hidden_shares C rep a n (ct_base ct)"
    using inv set_take_subset by (fastforce simp: ct_inv_def)
  then have "recoverSecretFromPoints C (take n (sp_shares ?sp)) = Some (mulPoint C (ct_base ct) s)"
    using False n(1) by (intro recover_hidden [OF C(1) _ dist _ _ s]) (auto simp: sp_need_def)
  then show ?thesis using that pt False by simp
qed

end
