(* ===== verification/Coin_Channel.thy ===== *)
theory Coin_Channel
  imports Coin_Toss
begin

text \<open>
  The coin-tosser channel: \<^verbatim>\<open>coinTosser/middleware.go\<close>, which puts shares on the wire, and
  \<^verbatim>\<open>coinTosser/channel.go\<close>, which keeps one toss per seed and holds back the shares that arrive before
  their toss.  The commands of the channel run one at a time in its goroutine, which starts when the
  deal arrives; \<open>ctc_halted\<close> says that it has left its loop or waits for ever inside a command.  A
  goroutine that will broadcast a share is an entry of \<open>ctc_casts\<close>.
\<close>

section \<open>Middleware\<close>

record ('s, 'g, 'p) ctMsg =
  ctm_id :: uuid
  ctm_sender :: uuid
  ctm_share :: "('s, 'g, 'p) ctShare"

definition ct_wrap :: "('s, 'g, 'p) circl \<Rightarrow> uuid \<Rightarrow> ('s, 'g, 'p) ctShare \<Rightarrow> coin_error + bytes" where
  "ct_wrap C i share =
     (case cts_marshalBinary C share of
        Inl e \<Rightarrow> Inl (Wrapped ''unable to marshal share'' e)
      | Inr shareBytes \<Rightarrow> Inr (uuid_bytes i @ shareBytes))"

definition broadcastCTShare ::
  "('s, 'g, 'p) circl \<Rightarrow> byte \<Rightarrow> uuid \<Rightarrow> ('s, 'g, 'p) ctShare \<Rightarrow> 'pk node \<Rightarrow> 'pk node \<times> 'pk net_error outcome"
where
  "broadcastCTShare C beb i share nd =
     (case ct_wrap C i share of Inl e \<Rightarrow> (nd, GoErr UnableToWrapMessage) | Inr msgBytes \<Rightarrow> BEBroadcast beb msgBytes nd)"

definition ct_processMsg ::
  "('s, 'g, 'p) circl \<Rightarrow> ('pk \<Rightarrow> bytes option) \<Rightarrow> bytes \<Rightarrow> 'pk \<Rightarrow> ('s, 'g, 'p) ctMsg parsed"
where
  "ct_processMsg C serialize content sender =
     (case ExtractIdFromMessage content of
        Inl e \<Rightarrow> Failed (Wrapped ''unable to extract id from message'' (CannotRead e))
      | Inr (i, reader) \<Rightarrow>
          (case PkToUUID serialize sender of
             Inl e \<Rightarrow> Failed (Wrapped ''unable to convert sender public key to UUID'' CannotMarshal)
           | Inr senderId \<Rightarrow>
               (case read_rest reader of
                  Inl e \<Rightarrow> Failed (Wrapped ''unable to read share bytes'' (CannotRead e))
                | Inr shareBytes \<Rightarrow>
                    (case cts_unmarshalBinary C shareBytes of
                       Panicked \<Rightarrow> Panicked
                     | Failed e \<Rightarrow> Failed (Wrapped ''unable to unmarshal share'' e)
                     | Parsed share \<Rightarrow> Parsed \<lparr>ctm_id = i, ctm_sender = senderId, ctm_share = share\<rparr>))))"

text \<open>
  The delivery loop hands over the message.  After an error the message is nil, and the log line
  that follows reads its fields.
\<close>

definition ct_mw_bebDeliver ::
  "('s, 'g, 'p) circl \<Rightarrow> ('pk \<Rightarrow> bytes option) \<Rightarrow> bytes \<Rightarrow> 'pk \<Rightarrow> ('s, 'g, 'p) ctMsg list
    \<Rightarrow> ('s, 'g, 'p) ctMsg list \<times> coin_error outcome"
where
  "ct_mw_bebDeliver C serialize content sender deliverChan =
     (case ct_processMsg C serialize content sender of
        Parsed m \<Rightarrow> (deliverChan @ [m], GoNil)
      | Failed e \<Rightarrow> (deliverChan, GoPanic)
      | Panicked \<Rightarrow> (deliverChan, GoPanic))"

section \<open>The channel\<close>

record ('s, 'g, 'p, 'pk) CTChannel =
  ctc_instances :: "uuid \<rightharpoonup> ('s, 'g) coinToss"
  ctc_finished :: "uuid set"
  ctc_unordered :: "uuid \<rightharpoonup> ('s, 'g, 'p) ctMsg list"
  ctc_t :: uint
  ctc_deal :: "('s, 'g) deal option"
  ctc_beb :: byte
  ctc_node :: "'pk node"
  ctc_casts :: "(uuid \<times> ('s, 'g, 'p) ctShare) list"
  ctc_closeCommands :: "unit chan"
  ctc_closeDeliver :: "unit chan"
  ctc_halted :: bool

definition NewCoinTosserChannel :: "byte \<Rightarrow> 'pk node \<Rightarrow> uint \<Rightarrow> ('s, 'g, 'p, 'pk) CTChannel" where
  "NewCoinTosserChannel beb nd t = \<lparr>ctc_instances = Map.empty, ctc_finished = {}, ctc_unordered = Map.empty, ctc_t = t,
     ctc_deal = None, ctc_beb = beb, ctc_node = nd, ctc_casts = [], ctc_closeCommands = make_chan 1,
     ctc_closeDeliver = make_chan 1, ctc_halted = False\<rparr>"

definition initializeChannel ::
  "('s, 'g, 'p) circl \<Rightarrow> ('s, 'pk) SSMsg \<Rightarrow> ('s, 'g, 'p, 'pk) CTChannel \<Rightarrow> ('s, 'g, 'p, 'pk) CTChannel"
where
  "initializeChannel C ssMsg c = (case listenDeal C ssMsg of Inl e \<Rightarrow> c | Inr d \<Rightarrow> c\<lparr>ctc_deal := Some d\<rparr>)"

definition ctc_submitShare ::
  "('s, 'g, 'p) circl \<Rightarrow> ('s, 'g, 'p) ctMsg \<Rightarrow> ('s, 'g, 'p, 'pk) CTChannel \<Rightarrow> ('s, 'g, 'p, 'pk) CTChannel \<times> coin_error outcome"
where
  "ctc_submitShare C m c =
     (if ctm_id m \<in> ctc_finished c then (c, GoNil)
      else case ctc_instances c (ctm_id m) of
        None \<Rightarrow> (c, GoErr TossNotFound)
      | Some ct \<Rightarrow>
          wrap_err (Wrapped ''unable to submit share'')
            (case ct_submitShare C (ctm_share m) (ctm_sender m) ct of
               (ct1, r) \<Rightarrow> (c\<lparr>ctc_instances := (ctc_instances c)(ctm_id m \<mapsto> ct1)\<rparr>, r)))"

text \<open>
  The loop over the shares that were held back.  An error is sent on a channel that is nil, by a
  goroutine of its own, which then waits for ever; a command that waits for ever keeps the loop.
\<close>

fun runUnordered ::
  "('s, 'g, 'p) circl \<Rightarrow> ('s, 'g, 'p) ctMsg list \<Rightarrow> ('s, 'g, 'p, 'pk) CTChannel \<Rightarrow> ('s, 'g, 'p, 'pk) CTChannel \<times> coin_error outcome"
where
  "runUnordered C [] c = (c, GoNil)"
| "runUnordered C (m # ms) c =
     (case ctc_submitShare C m c of
        (c1, GoNil) \<Rightarrow> runUnordered C ms c1
      | (c1, GoErr e) \<Rightarrow> runUnordered C ms c1
      | (c1, r) \<Rightarrow> (c1, r))"

definition processUnordered ::
  "('s, 'g, 'p) circl \<Rightarrow> uuid \<Rightarrow> ('s, 'g, 'p, 'pk) CTChannel \<Rightarrow> ('s, 'g, 'p, 'pk) CTChannel \<times> coin_error outcome"
where
  "processUnordered C i c =
     and_then (runUnordered C (case ctc_unordered c i of None \<Rightarrow> [] | Some ms \<Rightarrow> ms) c)
       (\<lambda>c. (c\<lparr>ctc_unordered := (ctc_unordered c)(i := None)\<rparr>, GoNil))"

text \<open>
  The goroutine of the channel runs a command.  Before the deal, or when it is halted, the caller
  waits; a command that waits halts it.  An error of the command is logged.
\<close>

definition ctc_invoke ::
  "(('s, 'g, 'p, 'pk) CTChannel \<Rightarrow> ('s, 'g, 'p, 'pk) CTChannel \<times> coin_error outcome)
    \<Rightarrow> ('s, 'g, 'p, 'pk) CTChannel \<Rightarrow> ('s, 'g, 'p, 'pk) CTChannel \<times> coin_error outcome"
where
  "ctc_invoke command c =
     (if ctc_halted c \<or> ctc_deal c = None then (c, GoBlocked)
      else case command c of
        (c1, GoBlocked) \<Rightarrow> (c1\<lparr>ctc_halted := True\<rparr>, GoNil)
      | (c1, GoPanic) \<Rightarrow> (c1, GoPanic)
      | (c1, _) \<Rightarrow> (c1, GoNil))"

definition toss_command ::
  "('s, 'g, 'p) circl \<Rightarrow> uint32 \<Rightarrow> bytes \<Rightarrow> ('s, 'g, 'p, 'pk) CTChannel \<Rightarrow> ('s, 'g, 'p, 'pk) CTChannel \<times> coin_error outcome"
where
  "toss_command C r seed c =
     (case ctc_deal c of
        None \<Rightarrow> (c, GoPanic)
      | Some d \<Rightarrow>
          let i = BytesToUUID seed; base = cHashToElement C seed ''coin_toss''; ct = newCoinToss (ctc_t c) base d;
              c1 = c\<lparr>ctc_instances := (ctc_instances c)(i \<mapsto> ct)\<rparr>
          in case tossCoin C r ct of
               Inl e \<Rightarrow> (c1, GoErr (Wrapped ''unable to create toss coin share'' e))
             | Inr share \<Rightarrow> processUnordered C i (c1\<lparr>ctc_casts := ctc_casts c1 @ [(i, share)]\<rparr>))"

definition TossCoin ::
  "('s, 'g, 'p) circl \<Rightarrow> uint32 \<Rightarrow> bytes \<Rightarrow> ('s, 'g, 'p, 'pk) CTChannel \<Rightarrow> ('s, 'g, 'p, 'pk) CTChannel \<times> coin_error outcome"
where
  "TossCoin C r seed c = ctc_invoke (toss_command C r seed) c"

definition schedule_command ::
  "('s, 'g, 'p) circl \<Rightarrow> ('s, 'g, 'p) ctMsg \<Rightarrow> ('s, 'g, 'p, 'pk) CTChannel \<Rightarrow> ('s, 'g, 'p, 'pk) CTChannel \<times> coin_error outcome"
where
  "schedule_command C m c =
     (let i = ctm_id m
      in if i \<in> ctc_finished c then (c, GoNil)
         else if ctc_instances c i = None
         then (c\<lparr>ctc_unordered := (ctc_unordered c)(i \<mapsto> (case ctc_unordered c i of None \<Rightarrow> [] | Some ms \<Rightarrow> ms) @ [m])\<rparr>, GoNil)
         else ctc_submitShare C m c)"

definition scheduleShareSubmission ::
  "('s, 'g, 'p) circl \<Rightarrow> ('s, 'g, 'p) ctMsg \<Rightarrow> ('s, 'g, 'p, 'pk) CTChannel \<Rightarrow> ('s, 'g, 'p, 'pk) CTChannel \<times> coin_error outcome"
where
  "scheduleShareSubmission C m c = ctc_invoke (schedule_command C m) c"

text \<open>One turn of the delivery loop of the channel, and the goroutine that broadcasts a share.\<close>

definition ctc_bebDeliver ::
  "('s, 'g, 'p) circl \<Rightarrow> ('s, 'g, 'p) ctMsg \<Rightarrow> ('s, 'g, 'p, 'pk) CTChannel \<Rightarrow> ('s, 'g, 'p, 'pk) CTChannel \<times> coin_error outcome"
where
  "ctc_bebDeliver C m c = scheduleShareSubmission C m c"

definition run_cast ::
  "('s, 'g, 'p) circl \<Rightarrow> nat \<Rightarrow> ('s, 'g, 'p, 'pk) CTChannel \<Rightarrow> ('s, 'g, 'p, 'pk) CTChannel \<times> 'pk net_error outcome"
where
  "run_cast C j c =
     (let (i, share) = ctc_casts c ! j; (nd, r) = broadcastCTShare C (ctc_beb c) i share (ctc_node c)
      in (c\<lparr>ctc_node := nd, ctc_casts := take j (ctc_casts c) @ drop (Suc j) (ctc_casts c)\<rparr>,
          case r of GoErr e \<Rightarrow> GoNil | _ \<Rightarrow> r))"

definition ctc_Close :: "('s, 'g, 'p, 'pk) CTChannel \<Rightarrow> ('s, 'g, 'p, 'pk) CTChannel \<times> coin_error outcome" where
  "ctc_Close c =
     and_then (chan_put ctc_closeDeliver ctc_closeDeliver_update () c) (chan_put ctc_closeCommands ctc_closeCommands_update ())"

text \<open>The goroutine of the channel takes the closing signal.\<close>

definition ctc_stop :: "('s, 'g, 'p, 'pk) CTChannel \<Rightarrow> ('s, 'g, 'p, 'pk) CTChannel option" where
  "ctc_stop c =
     (if ctc_halted c \<or> ctc_deal c = None then None
      else map_option (\<lambda>(_, ch). c\<lparr>ctc_closeCommands := ch, ctc_halted := True\<rparr>) (chan_recv (ctc_closeCommands c)))"

section \<open>The wire format\<close>

text \<open>
  A share of the coin, put on the wire and parsed by a receiver, arrives with its toss, its
  sender and its proof.
\<close>

theorem ct_wire_roundtrip:
  assumes "circl_codec C ks kg" and "0 < ks" and "PkToUUID serialize pk = Inr sender"
  shows "\<exists>bs. ct_wrap C i share = Inr bs
    \<and> ct_mw_bebDeliver C serialize bs pk q = (q @ [\<lparr>ctm_id = i, ctm_sender = sender, ctm_share = share\<rparr>], GoNil)"
proof -
  obtain bs where bs: "cts_marshalBinary C share = Inr bs" "ks + kg \<le> length bs" "cts_unmarshalBinary C bs = Parsed share"
    by (rule cts_roundtrip [OF assms(1)])
  then have "bs \<noteq> []" using assms(2) by auto
  with bs assms(3) show ?thesis
    by (simp add: ct_wrap_def ct_mw_bebDeliver_def ct_processMsg_def ExtractId_append read_rest_def)
qed

lemma ps_unmarshal_fails:
  assumes "circl_codec C ks kg" and "length bs = ks + kg"
  shows "(\<exists>e. ps_unmarshalBinary C bs = Inl e) \<longleftrightarrow> cGetS C (take ks bs) = None \<or> cGetP C (drop ks bs) = None"
  using assms(2) by (auto simp: ps_unmarshalBinary_def share_sizes [OF assms(1)] split: option.splits)

text \<open>
  C36. The messages that crash the coin tosser: one too short for an identifier and a point share, one
  from a key that cannot be encoded, and one whose identifier, point or proof does not decode.  The
  rest are handed over.
\<close>

theorem ct_bebDeliver_panics_iff:
  assumes C: "circl_codec C ks kg" and k: "0 < ks"
  shows "snd (ct_mw_bebDeliver C serialize content pk q) = GoPanic \<longleftrightarrow>
    length content < 16 + ks + kg \<or> serialize pk = None \<or> cGetS C (take ks (drop 16 content)) = None
    \<or> cGetP C (take kg (drop (16 + ks) content)) = None \<or> cGetProof C (drop (16 + ks + kg) content) = None"
proof (cases "length content < 16 + ks + kg")
  case True
  then show ?thesis
    by (auto simp: ct_mw_bebDeliver_def ct_processMsg_def ExtractIdFromMessage_def read_rest_def cts_unmarshalBinary_def
        share_sizes [OF C] split: sum.splits)
next
  case False
  let ?bs = "drop 16 content"
  have len: "16 \<le> length content" "?bs \<noteq> []" "length (take (ks + kg) ?bs) = ks + kg" "\<not> length ?bs < ks + kg"
    using False k by auto
  have parts: "take ks (take (ks + kg) ?bs) = take ks ?bs" "drop ks (take (ks + kg) ?bs) = take kg (drop (16 + ks) content)"
    "drop (ks + kg) ?bs = drop (16 + ks + kg) content" by (simp_all add: drop_take add.commute add.left_commute add.assoc)
  have ps: "(\<exists>e. ps_unmarshalBinary C (take (ks + kg) ?bs) = Inl e)
    \<longleftrightarrow> cGetS C (take ks ?bs) = None \<or> cGetP C (take kg (drop (16 + ks) content)) = None"
    using ps_unmarshal_fails [OF C len(3)] unfolding parts .
  have "content \<noteq> []" using len(1) by auto
  then have "ct_processMsg C serialize content pk =
     (case PkToUUID serialize pk of
        Inl e \<Rightarrow> Failed (Wrapped ''unable to convert sender public key to UUID'' CannotMarshal)
      | Inr senderId \<Rightarrow>
          (case cts_unmarshalBinary C ?bs of
             Panicked \<Rightarrow> Panicked
           | Failed e \<Rightarrow> Failed (Wrapped ''unable to unmarshal share'' e)
           | Parsed share \<Rightarrow> Parsed \<lparr>ctm_id = uuid_of (take 16 content), ctm_sender = senderId, ctm_share = share\<rparr>))"
    using len by (simp add: ct_processMsg_def ExtractIdFromMessage_def read_rest_def split: sum.split)
  moreover have "cts_unmarshalBinary C ?bs =
     (case ps_unmarshalBinary C (take (ks + kg) ?bs) of
        Inl e \<Rightarrow> Failed (Wrapped ''unable to unmarshal point share'' e)
      | Inr pt \<Rightarrow>
          (case cGetProof C (drop (16 + ks + kg) content) of
             None \<Rightarrow> Failed (Wrapped ''unable to unmarshal proof'' CannotUnmarshal)
           | Some proof \<Rightarrow> Parsed \<lparr>cts_pt = pt, cts_proof = proof\<rparr>))"
    using len unfolding parts(3) [symmetric] by (simp only: cts_unmarshalBinary_def share_sizes [OF C]) simp
  ultimately show ?thesis using ps False
    by (auto simp: ct_mw_bebDeliver_def PkToUUID_def SerializePublicKey_def split: sum.splits option.splits)
qed

end
