(* ===== verification/Coin_Properties.thy ===== *)
theory Coin_Properties
  imports Coin_Channel
begin

text \<open>
  What the coin tosser guarantees: the coin is a function of the secret and of the seed, whichever
  shares arrive and in whatever order, as long as the shares that are combined have different
  identifiers; enough shares give a coin; and what happens when a sender repeats itself or repeats
  the share of another.
\<close>

section \<open>Commands of the channel\<close>

definition ctc_running :: "('s, 'g, 'p, 'pk) CTChannel \<Rightarrow> bool" where
  "ctc_running c \<longleftrightarrow> \<not> ctc_halted c \<and> ctc_deal c \<noteq> None"

lemma invoke_waits: "\<not> ctc_running c \<Longrightarrow> ctc_invoke cmd c = (c, GoBlocked)"
  by (auto simp: ctc_invoke_def ctc_running_def)

lemma invoke_runs:
  "ctc_running c \<Longrightarrow> cmd c = (c1, r) \<Longrightarrow> r \<noteq> GoPanic \<Longrightarrow>
     ctc_invoke cmd c = (c1\<lparr>ctc_halted := ctc_halted c1 \<or> r = GoBlocked\<rparr>, GoNil)"
  by (auto simp: ctc_invoke_def ctc_running_def split: outcome.splits)

lemma processShare_no_panic: "snd (processShare C share sender sp) \<noteq> GoPanic"
proof -
  obtain pt where "recoverSecretFromPoints C (sp_shares sp @ [share]) = Some pt" using recover_nonempty [of "sp_shares sp @ [share]" C] by auto
  then show ?thesis by (auto simp: processShare_def Let_def split: sum.split)
qed

lemma ct_submit_no_panic: "snd (ct_submitShare C share sender ct) \<noteq> GoPanic"
  by (rule ct_submit_cases [of C share ct sender]) (auto simp: processShare_no_panic)

definition put_ct :: "uuid \<Rightarrow> ('s, 'g) coinToss \<Rightarrow> ('s, 'g, 'p, 'pk) CTChannel \<Rightarrow> ('s, 'g, 'p, 'pk) CTChannel" where
  "put_ct i ct c = c\<lparr>ctc_instances := (ctc_instances c)(i \<mapsto> ct)\<rparr>"

lemma put_ct_sel [simp]:
  "ctc_instances (put_ct i ct c) = (ctc_instances c)(i \<mapsto> ct)" "ctc_finished (put_ct i ct c) = ctc_finished c"
  "ctc_unordered (put_ct i ct c) = ctc_unordered c" "ctc_deal (put_ct i ct c) = ctc_deal c" "ctc_t (put_ct i ct c) = ctc_t c"
  "ctc_casts (put_ct i ct c) = ctc_casts c" "ctc_halted (put_ct i ct c) = ctc_halted c"
  "put_ct i ct (put_ct i ct0 c) = put_ct i ct c" "ctc_running (put_ct i ct c) = ctc_running c"
  by (simp_all add: put_ct_def ctc_running_def)

lemma put_ct_same: "ctc_instances c i = Some ct \<Longrightarrow> put_ct i ct c = c"
  by (simp add: put_ct_def fun_upd_idem)

lemma ctc_submit_eq:
  assumes "ctm_id m \<notin> ctc_finished c" and "ctc_instances c (ctm_id m) = Some ct"
  shows "fst (ctc_submitShare C m c) = put_ct (ctm_id m) (fst (ct_submitShare C (ctm_share m) (ctm_sender m) ct)) c"
    "snd (ctc_submitShare C m c) \<noteq> GoPanic"
    "snd (ctc_submitShare C m c) = GoBlocked \<longleftrightarrow> snd (ct_submitShare C (ctm_share m) (ctm_sender m) ct) = GoBlocked"
  using assms ct_submit_no_panic [of C "ctm_share m" "ctm_sender m" ct]
  by (simp_all add: ctc_submitShare_def put_ct_def split_beta)

lemma deliver_known:
  assumes "ctc_running c" and "ctm_id m \<notin> ctc_finished c" and "ctc_instances c (ctm_id m) = Some ct"
  shows "ctc_bebDeliver C m c =
     ((fst (ctc_submitShare C m c))\<lparr>ctc_halted := snd (ctc_submitShare C m c) = GoBlocked\<rparr>, GoNil)"
proof -
  obtain c1 r where cr: "ctc_submitShare C m c = (c1, r)" by fastforce
  have "schedule_command C m c = (c1, r)" using assms cr by (simp add: schedule_command_def Let_def)
  moreover have "r \<noteq> GoPanic" "\<not> ctc_halted c1"
    using ctc_submit_eq(1,2) [OF assms(2,3), of C] cr assms(1) by (auto simp: ctc_running_def)
  ultimately show ?thesis using invoke_runs [OF assms(1), of "schedule_command C m"] cr
    by (simp add: ctc_bebDeliver_def scheduleShareSubmission_def)
qed

lemma deliver_held:
  assumes "ctc_running c" and "ctm_id m \<notin> ctc_finished c" and "ctc_instances c (ctm_id m) = None"
  shows "ctc_bebDeliver C m c = (c\<lparr>ctc_unordered := (ctc_unordered c)(ctm_id m \<mapsto>
      (case ctc_unordered c (ctm_id m) of None \<Rightarrow> [] | Some ms \<Rightarrow> ms) @ [m])\<rparr>, GoNil)"
  using assms by (simp add: ctc_bebDeliver_def scheduleShareSubmission_def schedule_command_def Let_def ctc_invoke_def ctc_running_def)

definition deliver_all :: "('s, 'g, 'p) circl \<Rightarrow> ('s, 'g, 'p) ctMsg list \<Rightarrow> ('s, 'g, 'p, 'pk) CTChannel \<Rightarrow> ('s, 'g, 'p, 'pk) CTChannel" where
  "deliver_all C ms c = fold (\<lambda>m c. fst (ctc_bebDeliver C m c)) ms c"

lemma deliver_all_simps [simp]:
  "deliver_all C [] c = c" "deliver_all C (m # ms) c = deliver_all C ms (fst (ctc_bebDeliver C m c))"
  by (simp_all add: deliver_all_def)

lemma deliver_halted: "\<not> ctc_running c \<Longrightarrow> deliver_all C ms c = c"
  by (induction ms) (simp_all add: ctc_bebDeliver_def scheduleShareSubmission_def invoke_waits)

section \<open>Shares may arrive before their toss\<close>

text \<open>Running the held-back shares is delivering them to the toss, up to the mark of a halted channel.\<close>

lemma runUnordered_deliver:
  assumes "ctc_running c" and "\<forall>m \<in> set ms. ctm_id m = i" and "i \<notin> ctc_finished c" and "ctc_instances c i = Some ct"
  shows "\<exists>ct'. runUnordered C ms c = (put_ct i ct' c, GoNil) \<and> deliver_all C ms c = put_ct i ct' c
      \<or> runUnordered C ms c = (put_ct i ct' c, GoBlocked) \<and> deliver_all C ms c = (put_ct i ct' c)\<lparr>ctc_halted := True\<rparr>"
  using assms
proof (induction ms arbitrary: c ct)
  case Nil
  then show ?case using put_ct_same by (metis deliver_all_simps(1) runUnordered.simps(1))
next
  case (Cons m ms)
  let ?ct = "fst (ct_submitShare C (ctm_share m) (ctm_sender m) ct)"
  let ?c = "put_ct i ?ct c"
  have i: "ctm_id m = i" using Cons.prems by simp
  obtain r where sub: "ctc_submitShare C m c = (?c, r)" "r \<noteq> GoPanic"
    using ctc_submit_eq(1,2) [of m c ct C] Cons.prems i by (metis prod.collapse)
  have del: "fst (ctc_bebDeliver C m c) = ?c\<lparr>ctc_halted := r = GoBlocked\<rparr>"
    using deliver_known [of c m ct C] Cons.prems i sub(1) by simp
  show ?case
  proof (cases "r = GoBlocked")
    case True
    then show ?thesis using sub del by (intro exI [of _ ?ct]) (simp add: deliver_halted ctc_running_def)
  next
    case False
    have same: "?c\<lparr>ctc_halted := r = GoBlocked\<rparr> = ?c" using False Cons.prems(1) by (simp add: ctc_running_def put_ct_def)
    have "runUnordered C (m # ms) c = runUnordered C ms ?c" using sub False by (cases r) auto
    moreover have "deliver_all C (m # ms) c = deliver_all C ms ?c" using del same by simp
    moreover note Cons.IH [of ?c ?ct] Cons.prems
    ultimately show ?thesis by simp
  qed
qed

lemma deliver_all_held:
  assumes "ctc_running c" and "\<forall>m \<in> set ms. ctm_id m = i" and "i \<notin> ctc_finished c" and "ctc_instances c i = None"
  shows "deliver_all C ms c = c\<lparr>ctc_unordered := (ctc_unordered c)(i :=
     (if ms = [] then ctc_unordered c i else Some ((case ctc_unordered c i of None \<Rightarrow> [] | Some us \<Rightarrow> us) @ ms)))\<rparr>"
  using assms
proof (induction ms arbitrary: c)
  case (Cons m ms)
  let ?c = "c\<lparr>ctc_unordered := (ctc_unordered c)(i \<mapsto> (case ctc_unordered c i of None \<Rightarrow> [] | Some us \<Rightarrow> us) @ [m])\<rparr>"
  have "fst (ctc_bebDeliver C m c) = ?c" using deliver_held [of c m C] Cons.prems by simp
  then show ?case using Cons.IH [of ?c] Cons.prems by (cases "ms = []") (simp_all add: ctc_running_def fun_upd_def cong: if_cong)
qed simp

lemma runUnordered_unordered:
  "runUnordered C ms (c\<lparr>ctc_unordered := u\<rparr>) = apfst (\<lambda>c. c\<lparr>ctc_unordered := u\<rparr>) (runUnordered C ms c)"
proof (induction ms arbitrary: c)
  case (Cons m ms)
  have "ctc_submitShare C m (c\<lparr>ctc_unordered := u\<rparr>) = apfst (\<lambda>c. c\<lparr>ctc_unordered := u\<rparr>) (ctc_submitShare C m c)"
    by (cases "ctc_instances c (ctm_id m)"; cases "snd (ct_submitShare C (ctm_share m) (ctm_sender m) (the (ctc_instances c (ctm_id m))))")
      (auto simp: ctc_submitShare_def split: prod.splits)
  then show ?case using Cons.IH by (auto split: prod.splits outcome.splits)
qed simp

text \<open>
  C30. Shares that reach a node before it tosses the coin count as if they had arrived afterwards:
  the tosses, the shares to broadcast and the state of the goroutine are the same in both orders.
\<close>

theorem shares_before_toss:
  assumes run: "ctc_running c" "ctc_deal c = Some d" and ms: "\<forall>m \<in> set ms. ctm_id m = BytesToUUID seed"
    and new: "BytesToUUID seed \<notin> ctc_finished c" "ctc_instances c (BytesToUUID seed) = None" "ctc_unordered c (BytesToUUID seed) = None"
    and toss: "tossCoin C r (newCoinToss (ctc_t c) (cHashToElement C seed ''coin_toss'') d) = Inr share"
  shows "ctc_instances (fst (TossCoin C r seed (deliver_all C ms c))) = ctc_instances (deliver_all C ms (fst (TossCoin C r seed c)))
    \<and> ctc_casts (fst (TossCoin C r seed (deliver_all C ms c))) = ctc_casts (deliver_all C ms (fst (TossCoin C r seed c)))
    \<and> ctc_halted (fst (TossCoin C r seed (deliver_all C ms c))) = ctc_halted (deliver_all C ms (fst (TossCoin C r seed c)))"
proof -
  let ?i = "BytesToUUID seed" and ?ct = "newCoinToss (ctc_t c) (cHashToElement C seed ''coin_toss'') d"
  let ?c = "c\<lparr>ctc_instances := (ctc_instances c)(?i \<mapsto> ?ct), ctc_casts := ctc_casts c @ [(?i, share)]\<rparr>"
  let ?u = "(ctc_unordered c)(?i := if ms = [] then None else Some ms)"
  have run': "ctc_running ?c" using run by (simp add: ctc_running_def)
  have "fst (TossCoin C r seed c) = ?c\<lparr>ctc_unordered := (ctc_unordered c)(?i := None)\<rparr>"
    using run new toss by (simp add: TossCoin_def ctc_invoke_def ctc_running_def toss_command_def processUnordered_def Let_def)
  moreover have "(ctc_unordered c)(?i := None) = ctc_unordered c" using new(3) by (simp add: fun_upd_idem)
  ultimately have after: "fst (TossCoin C r seed c) = ?c" by simp
  have before: "deliver_all C ms c = c\<lparr>ctc_unordered := ?u\<rparr>" using deliver_all_held [OF run(1) ms new(1,2), of C] new(3) by simp
  have "c\<lparr>ctc_unordered := u, ctc_instances := ins, ctc_casts := cs\<rparr> = c\<lparr>ctc_instances := ins, ctc_casts := cs, ctc_unordered := u\<rparr>"
    for u ins cs by (cases c) simp
  then have "toss_command C r seed (c\<lparr>ctc_unordered := ?u\<rparr>) = processUnordered C ?i (?c\<lparr>ctc_unordered := ?u\<rparr>)"
    using run(2) toss by (simp only: toss_command_def Let_def) simp
  also have "\<dots> = and_then (apfst (\<lambda>c. c\<lparr>ctc_unordered := ?u\<rparr>) (runUnordered C ms ?c))
       (\<lambda>c. (c\<lparr>ctc_unordered := (ctc_unordered c)(?i := None)\<rparr>, GoNil))"
    unfolding processUnordered_def runUnordered_unordered by simp
  finally have cmd: "toss_command C r seed (c\<lparr>ctc_unordered := ?u\<rparr>) =
     and_then (apfst (\<lambda>c. c\<lparr>ctc_unordered := ?u\<rparr>) (runUnordered C ms ?c))
       (\<lambda>c. (c\<lparr>ctc_unordered := (ctc_unordered c)(?i := None)\<rparr>, GoNil))" .
  have halt: "\<not> ctc_halted c" using run(1) by (simp add: ctc_running_def)
  obtain ct' where "runUnordered C ms ?c = (put_ct ?i ct' ?c, GoNil) \<and> deliver_all C ms ?c = put_ct ?i ct' ?c
      \<or> runUnordered C ms ?c = (put_ct ?i ct' ?c, GoBlocked) \<and> deliver_all C ms ?c = (put_ct ?i ct' ?c)\<lparr>ctc_halted := True\<rparr>"
    using runUnordered_deliver [OF run' ms, of ?ct C] new(1) by auto
  then show ?thesis unfolding after before
    by (elim disjE conjE) (simp_all add: TossCoin_def ctc_invoke_def run(2) halt cmd)
qed

section \<open>Reachable channels\<close>

text \<open>
  A node's channel from its start: the deal arrives once, then coins are tossed, any shares arrive
  (the senders may be Byzantine), shares go out, and the channel may be closed.
\<close>

inductive ctc_reach :: "('s, 'g, 'p) circl \<Rightarrow> ('s, 'g) deal \<Rightarrow> uint \<Rightarrow> ('s, 'g, 'p, 'pk) CTChannel \<Rightarrow> bool"
  for C d t where
  start: "ctc_reach C d t (NewCoinTosserChannel beb nd t)"
| dealt: "ctc_reach C d t c \<Longrightarrow> ctc_deal c = None \<Longrightarrow> listenDeal C msg = Inr d \<Longrightarrow> ctc_reach C d t (initializeChannel C msg c)"
| toss: "ctc_reach C d t c \<Longrightarrow> ctc_reach C d t (fst (TossCoin C r seed c))"
| share: "ctc_reach C d t c \<Longrightarrow> ctc_reach C d t (fst (ctc_bebDeliver C m c))"
| cast: "ctc_reach C d t c \<Longrightarrow> j < length (ctc_casts c) \<Longrightarrow> ctc_reach C d t (fst (run_cast C j c))"
| close: "ctc_reach C d t c \<Longrightarrow> ctc_reach C d t (fst (ctc_Close c))"
| stop: "ctc_reach C d t c \<Longrightarrow> ctc_stop c = Some c' \<Longrightarrow> ctc_reach C d t c'"

text \<open>Every toss is for the base of a seed with its identifier and satisfies the invariant of a toss.\<close>

definition toss_ok ::
  "('s, 'g, 'p) circl \<Rightarrow> ('s \<Rightarrow> 'f :: field) \<Rightarrow> (nat \<Rightarrow> 'f) \<Rightarrow> nat \<Rightarrow> ('s, 'g) deal \<Rightarrow> uuid \<Rightarrow> ('s, 'g) coinToss \<Rightarrow> bool"
where
  "toss_ok C rep a n d i ct \<longleftrightarrow> ct_deal ct = d \<and> ct_inv C rep a n ct
     \<and> (\<exists>seed. BytesToUUID seed = i \<and> ct_base ct = cHashToElement C seed ''coin_toss'')"

definition ctc_inv ::
  "('s, 'g, 'p) circl \<Rightarrow> ('s \<Rightarrow> 'f :: field) \<Rightarrow> (nat \<Rightarrow> 'f) \<Rightarrow> uint \<Rightarrow> ('s, 'g) deal \<Rightarrow> ('s, 'g, 'p, 'pk) CTChannel \<Rightarrow> bool"
where
  "ctc_inv C rep a t d c \<longleftrightarrow> ctc_t c = t \<and> (ctc_deal c = None \<or> ctc_deal c = Some d) \<and> ctc_finished c = {}
     \<and> (\<forall>i ct. ctc_instances c i = Some ct \<longrightarrow> toss_ok C rep a (unat t + 1) d i ct)"

text \<open>The hypotheses about the package and the deal that the theorems share.\<close>

definition coin_setup ::
  "('s, 'g, 'p) circl \<Rightarrow> ('s \<Rightarrow> 'f :: field) \<Rightarrow> nat \<Rightarrow> nat \<Rightarrow> (nat \<Rightarrow> 'f) \<Rightarrow> uint \<Rightarrow> 's Share list \<Rightarrow> ('s, 'g) deal \<Rightarrow> bool"
where
  "coin_setup C rep ks kg a t shares d \<longleftrightarrow> circl_codec C ks kg \<and> circl_field C rep \<and> dleq_sound C
     \<and> unat t + 1 < 2 ^ 63 \<and> good_deal C rep a (unat t + 1) shares d"

lemma coin_setupD:
  assumes "coin_setup C rep ks kg a t shares d"
  shows "circl_codec C ks kg" "circl_field C rep" "dleq_sound C" "unat t + 1 < 2 ^ 63" "good_deal C rep a (unat t + 1) shares d"
  using assms by (simp_all add: coin_setup_def)

lemma toss_ok_submit:
  assumes "coin_setup C rep ks kg a t shares d" and "toss_ok C rep a (unat t + 1) d i ct"
  shows "toss_ok C rep a (unat t + 1) d i (fst (ct_submitShare C share sender ct))"
  using assms(2) ct_submit_inv [OF coin_setupD(1,3) [OF assms(1)], of rep a "unat t + 1" shares ct] coin_setupD(5) [OF assms(1)]
  by (auto simp: toss_ok_def)

lemma submit_keeps:
  assumes "coin_setup C rep ks kg a t shares d" and "ctc_inv C rep a t d c"
  shows "ctc_inv C rep a t d (fst (ctc_submitShare C m c))"
proof (cases "ctc_instances c (ctm_id m)")
  case None
  then show ?thesis using assms(2) by (simp add: ctc_submitShare_def)
next
  case (Some ct)
  then have "toss_ok C rep a (unat t + 1) d (ctm_id m) ct" "ctm_id m \<notin> ctc_finished c" using assms(2) by (simp_all add: ctc_inv_def)
  then show ?thesis using ctc_submit_eq(1) [of m c ct C] Some toss_ok_submit [OF assms(1)] assms(2)
    by (auto simp: ctc_inv_def)
qed

lemma unordered_keeps:
  assumes "coin_setup C rep ks kg a t shares d" and "ctc_inv C rep a t d c"
  shows "ctc_inv C rep a t d (fst (runUnordered C ms c))"
  using assms(2)
proof (induction ms arbitrary: c)
  case (Cons m ms)
  obtain c1 r where cr: "ctc_submitShare C m c = (c1, r)" by fastforce
  then have "ctc_inv C rep a t d c1" using submit_keeps [OF assms(1) Cons.prems, of m] by simp
  then show ?case using cr Cons.IH by (cases r) auto
qed simp

lemma ctc_inv_cong:
  assumes "ctc_inv C rep a t d c" and "ctc_t c' = ctc_t c" "ctc_deal c' = ctc_deal c" "ctc_finished c' = ctc_finished c"
    "ctc_instances c' = ctc_instances c"
  shows "ctc_inv C rep a t d c'"
  using assms by (simp add: ctc_inv_def)

lemma invoke_keeps:
  assumes "ctc_inv C rep a t d c" and "ctc_running c \<Longrightarrow> ctc_inv C rep a t d (fst (cmd c))"
  shows "ctc_inv C rep a t d (fst (ctc_invoke cmd c))"
proof (cases "ctc_running c")
  case True
  obtain c1 r where cr: "cmd c = (c1, r)" by fastforce
  then have "fst (ctc_invoke cmd c) = c1 \<or> fst (ctc_invoke cmd c) = c1\<lparr>ctc_halted := True\<rparr>"
    using True by (cases r) (auto simp: ctc_invoke_def ctc_running_def)
  then show ?thesis using assms(2) [OF True] cr ctc_inv_cong [of C rep a t d c1 "c1\<lparr>ctc_halted := True\<rparr>"] by auto
qed (simp add: invoke_waits assms(1))

lemma toss_keeps:
  assumes S: "coin_setup C rep ks kg a t shares d" and inv: "ctc_inv C rep a t d c" and "ctc_running c"
  shows "ctc_inv C rep a t d (fst (toss_command C r seed c))"
proof -
  let ?i = "BytesToUUID seed" and ?ct = "newCoinToss t (cHashToElement C seed ''coin_toss'') d"
  have d: "ctc_deal c = Some d" "ctc_t c = t" using inv assms(3) by (auto simp: ctc_inv_def ctc_running_def)
  have "toss_ok C rep a (unat t + 1) d ?i ?ct" using ct_inv_init [OF coin_setupD(4) [OF S]] by (auto simp: toss_ok_def newCoinToss_def)
  then have inv1: "ctc_inv C rep a t d (put_ct ?i ?ct c)" using inv by (simp add: ctc_inv_def)
  show ?thesis
  proof (cases "tossCoin C r ?ct")
    case (Inl e)
    then show ?thesis using inv1 d by (simp add: toss_command_def Let_def put_ct_def)
  next
    case (Inr share)
    let ?c = "(put_ct ?i ?ct c)\<lparr>ctc_casts := ctc_casts c @ [(?i, share)]\<rparr>"
    have "ctc_inv C rep a t d ?c" by (rule ctc_inv_cong [OF inv1]) simp_all
    then have run: "ctc_inv C rep a t d (fst (runUnordered C ms ?c))" for ms by (rule unordered_keeps [OF S])
    then have "ctc_inv C rep a t d ((fst (runUnordered C ms ?c))\<lparr>ctc_unordered := u\<rparr>)" for ms u
      by (rule ctc_inv_cong) simp_all
    with run have "ctc_inv C rep a t d (fst (processUnordered C ?i ?c))" by (simp add: processUnordered_def fst_and_then)
    moreover have "toss_command C r seed c = processUnordered C ?i ?c" using Inr d by (simp add: toss_command_def Let_def put_ct_def)
    ultimately show ?thesis by simp
  qed
qed

lemma schedule_keeps:
  assumes "coin_setup C rep ks kg a t shares d" and "ctc_inv C rep a t d c"
  shows "ctc_inv C rep a t d (fst (schedule_command C m c))"
  using submit_keeps [OF assms] assms(2) by (auto simp: schedule_command_def Let_def intro: ctc_inv_cong [OF assms(2)])

lemma ctc_reach_inv:
  assumes S: "coin_setup C rep ks kg a t shares d" and "ctc_reach C d t c"
  shows "ctc_inv C rep a t d c"
  using assms(2)
proof induction
  case (start beb nd)
  show ?case by (simp add: ctc_inv_def NewCoinTosserChannel_def)
next
  case (dealt c msg)
  then show ?case by (simp add: ctc_inv_def initializeChannel_def)
next
  case (toss c r seed)
  then show ?case unfolding TossCoin_def by (intro invoke_keeps toss_keeps [OF S])
next
  case (share c m)
  then show ?case unfolding ctc_bebDeliver_def scheduleShareSubmission_def by (intro invoke_keeps schedule_keeps [OF S])
next
  case (cast c j)
  show ?case by (rule ctc_inv_cong [OF cast.IH]) (simp_all add: run_cast_def split_beta Let_def)
next
  case (close c)
  show ?case by (rule ctc_inv_cong [OF close.IH]) (simp_all add: ctc_Close_def fst_and_then fst_chan_put)
next
  case (stop c c')
  show ?case by (rule ctc_inv_cong [OF stop.IH]) (use stop.hyps in \<open>auto simp: ctc_stop_def split: if_splits\<close>)
qed

text \<open>
  C4. The coin is common: two nodes that received shares of the same secret output the same coin in
  tosses for the same base, namely the hash of the base raised to the secret, whatever shares
  arrived, when the shares each of them combined have different identifiers.
\<close>

theorem coin_common:
  assumes S: "coin_setup C rep ks kg a t shares d1" "coin_setup C rep ks kg a t shares d2" and s: "rep s = poly_at a (unat t + 1) 0"
    and c1: "ctc_reach C d1 t c1" "ctc_instances c1 i = Some ct1" "b1 \<in> set (sp_outputs (ct_sp ct1))"
    and c2: "ctc_reach C d2 t c2" "ctc_instances c2 i = Some ct2" "b2 \<in> set (sp_outputs (ct_sp ct2))"
    and base: "ct_base ct1 = ct_base ct2"
    and ids: "distinct (map ps_id (take (unat t + 1) (sp_shares (ct_sp ct1))))" "distinct (map ps_id (take (unat t + 1) (sp_shares (ct_sp ct2))))"
  shows "b1 = b2 \<and> hashPointToBool C (mulPoint C (ct_base ct1) s) = Inr b1
    \<and> (\<exists>seed. BytesToUUID seed = i \<and> ct_base ct1 = cHashToElement C seed ''coin_toss'')"
proof -
  have ok1: "toss_ok C rep a (unat t + 1) d1 i ct1" using ctc_reach_inv [OF S(1) c1(1)] c1(2) by (simp add: ctc_inv_def)
  have ok2: "toss_ok C rep a (unat t + 1) d2 i ct2" using ctc_reach_inv [OF S(2) c2(1)] c2(2) by (simp add: ctc_inv_def)
  have inv: "ct_inv C rep a (unat t + 1) ct1" "ct_inv C rep a (unat t + 1) ct2" using ok1 ok2 by (simp_all add: toss_ok_def)
  obtain b where b: "hashPointToBool C (mulPoint C (ct_base ct1) s) = Inr b" "b1 = b"
    by (rule ct_inv_coin [OF coin_setupD(2,1) [OF S(1)] inv(1) s ids(1)]) (use c1(3) in \<open>auto split: if_splits\<close>)
  have "hashPointToBool C (mulPoint C (ct_base ct2) s) = Inr b2"
    by (rule ct_inv_coin [OF coin_setupD(2,1) [OF S(2)] inv(2) s ids(2)]) (use c2(3) in \<open>auto split: if_splits\<close>)
  then show ?thesis using b base ok1 by (auto simp: toss_ok_def)
qed

section \<open>Enough shares give a coin\<close>

lemma deliver_valid:
  assumes C: "circl_codec C ks kg" and "ctc_running c" and "i \<notin> ctc_finished c" and "ctc_instances c i = Some ct" and "sp_inv C (ct_sp ct)"
    and "\<not> sp_stopped (ct_sp ct)" and "\<forall>m \<in> set ms. ctm_id m = i \<and> isTossValid C (ctm_share m) ct = Inr True"
    and "distinct (map ctm_sender ms)" and "ctm_sender ` set ms \<inter> sp_receivedFrom (ct_sp ct) = {}"
  shows "\<exists>ct'. deliver_all C ms c = put_ct i ct' c \<and> sp_inv C (ct_sp ct') \<and> ct_base ct' = ct_base ct
    \<and> sp_need (ct_sp ct') = sp_need (ct_sp ct) \<and> sp_shares (ct_sp ct') = sp_shares (ct_sp ct) @ map (cts_pt \<circ> ctm_share) ms"
  using assms(2-)
proof (induction ms arbitrary: c ct)
  case Nil
  then show ?case by (metis append_Nil2 deliver_all_simps(1) list.map(1) put_ct_same)
next
  case (Cons m ms)
  let ?sp = "fst (processShare C (cts_pt (ctm_share m)) (ctm_sender m) (ct_sp ct))"
  let ?ct = "ct\<lparr>ct_sp := ?sp\<rparr>"
  have m: "ctm_id m = i" "isTossValid C (ctm_share m) ct = Inr True" "ctm_sender m \<notin> sp_receivedFrom (ct_sp ct)" using Cons.prems by auto
  note sel = processShare_sel [OF C Cons.prems(4), where share = "cts_pt (ctm_share m)" and sender = "ctm_sender m"]
  have new: "snd (processShare C (cts_pt (ctm_share m)) (ctm_sender m) (ct_sp ct)) = GoNil" "\<not> sp_stopped ?sp"
    "sp_receivedFrom ?sp = insert (ctm_sender m) (sp_receivedFrom (ct_sp ct))" using sel(3) m(3) Cons.prems(5) by auto
  have "fst (ct_submitShare C (ctm_share m) (ctm_sender m) ct) = ?ct" "snd (ct_submitShare C (ctm_share m) (ctm_sender m) ct) = GoNil"
    using m(2) new(1) by (simp_all add: ct_submitShare_def split_beta)
  then have "fst (ctc_bebDeliver C m c) = (put_ct i ?ct c)\<lparr>ctc_halted := False\<rparr>"
    using deliver_known [of c m ct C] ctc_submit_eq [of m c ct C] Cons.prems(1-3) m(1) by simp
  moreover have "(put_ct i ?ct c)\<lparr>ctc_halted := False\<rparr> = put_ct i ?ct c" using Cons.prems(1) by (simp add: ctc_running_def put_ct_def)
  ultimately have del: "deliver_all C (m # ms) c = deliver_all C ms (put_ct i ?ct c)" by simp
  have inv: "sp_inv C (ct_sp ?ct)" using processShare_inv [OF C Cons.prems(4)] by simp
  have "\<exists>ct'. deliver_all C ms (put_ct i ?ct c) = put_ct i ct' (put_ct i ?ct c) \<and> sp_inv C (ct_sp ct') \<and> ct_base ct' = ct_base ?ct
    \<and> sp_need (ct_sp ct') = sp_need (ct_sp ?ct) \<and> sp_shares (ct_sp ct') = sp_shares (ct_sp ?ct) @ map (cts_pt \<circ> ctm_share) ms"
    by (rule Cons.IH [OF _ _ _ inv]) (use Cons.prems new in auto)
  then show ?case unfolding del using sel(1,2) Cons.prems(5) by (simp add: sp_need_def comp_def)
qed

text \<open>Shares that nodes of the deal make for a toss.\<close>

definition shares_for ::
  "('s, 'g, 'p) circl \<Rightarrow> ('s \<Rightarrow> 'f :: field) \<Rightarrow> (nat \<Rightarrow> 'f) \<Rightarrow> uint \<Rightarrow> 's Share list \<Rightarrow> 'g \<Rightarrow> bytes \<Rightarrow> ('s, 'g, 'p) ctMsg list \<Rightarrow> bool"
where
  "shares_for C rep a t shares dbase seed ms \<longleftrightarrow> distinct (map ctm_sender ms) \<and> distinct (map (ps_id \<circ> cts_pt \<circ> ctm_share) ms)
     \<and> unat t + 1 \<le> length ms
     \<and> (\<forall>m \<in> set ms. ctm_id m = BytesToUUID seed \<and>
          (\<exists>d r. good_deal C rep a (unat t + 1) shares d \<and> deal_base d = dbase
            \<and> tossCoin C r (newCoinToss t (cHashToElement C seed ''coin_toss'') d) = Inr (ctm_share m)))"

lemma toss_collects:
  assumes S: "coin_setup C rep ks kg a t shares d" "dleq_complete C" and s: "rep s = poly_at a (unat t + 1) 0"
    and run: "ctc_running c" "ctc_deal c = Some d" "ctc_t c = t"
    and new: "BytesToUUID seed \<notin> ctc_finished c" "ctc_unordered c (BytesToUUID seed) = None"
    and ms: "shares_for C rep a t shares (deal_base d) seed ms"
  obtains ct b where "ctc_instances (deliver_all C ms (fst (TossCoin C r seed c))) (BytesToUUID seed) = Some ct"
    "sp_outputs (ct_sp ct) = [b]" "hashPointToBool C (mulPoint C (cHashToElement C seed ''coin_toss'') s) = Inr b"
    "\<not> ctc_halted (deliver_all C ms (fst (TossCoin C r seed c)))" "sp_shares (ct_sp ct) = map (cts_pt \<circ> ctm_share) ms"
    "ct_base ct = cHashToElement C seed ''coin_toss''"
proof -
  define base where base: "base = cHashToElement C seed ''coin_toss''"
  let ?i = "BytesToUUID seed" and ?ct = "newCoinToss t base d"
  have len: "unat t + 1 \<le> length ms" and dist: "distinct (map ctm_sender ms)" "distinct (map (ps_id \<circ> cts_pt \<circ> ctm_share) ms)"
    using ms by (simp_all add: shares_for_def)
  note D = coin_setupD [OF S(1)]
  have own: "\<exists>share. tossCoin C r' (newCoinToss t base d') = Inr share \<and> isTossValid C share ?ct = Inr True"
    if "good_deal C rep a (unat t + 1) shares d'" "deal_base d' = deal_base d" for d' r'
    using own_share_valid [OF D(1) S(2), of rep a "unat t + 1" shares "newCoinToss t base d'" ?ct] that D(5)
    by (auto simp: newCoinToss_def good_deal_def)
  obtain share where share: "tossCoin C r ?ct = Inr share" using own [OF D(5) refl] by blast
  let ?c = "(put_ct ?i ?ct c)\<lparr>ctc_casts := ctc_casts c @ [(?i, share)], ctc_unordered := (ctc_unordered c)(?i := None)\<rparr>"
  have toss: "fst (TossCoin C r seed c) = ?c"
    using run new share base by (simp add: TossCoin_def ctc_invoke_def ctc_running_def toss_command_def processUnordered_def Let_def put_ct_def)
  have valid: "\<forall>m \<in> set ms. ctm_id m = ?i \<and> isTossValid C (ctm_share m) ?ct = Inr True"
    using ms own unfolding shares_for_def base [symmetric] by (metis Inr_inject)
  then obtain ct where ct: "deliver_all C ms ?c = put_ct ?i ct ?c" "sp_inv C (ct_sp ct)" "ct_base ct = base"
    "sp_need (ct_sp ct) = unat t + 1" "sp_shares (ct_sp ct) = map (cts_pt \<circ> ctm_share) ms"
    using deliver_valid [OF D(1), of ?c ?i ?ct ms] run new(1) dist(1) sp_inv_init [OF D(4)]
    by (auto simp: ctc_running_def newCoinToss_def newShareProcessor_def sp_need_def)
  have "set (map (cts_pt \<circ> ctm_share) ms) \<subseteq> hidden_shares C rep a (unat t + 1) base"
    using valid_share_hidden [OF D(1,3), of rep a "unat t + 1" shares ?ct] D(5) valid by (auto simp: newCoinToss_def)
  then have inv: "ct_inv C rep a (unat t + 1) ct" using ct by (simp add: ct_inv_def)
  have "distinct (map ps_id (take (unat t + 1) (sp_shares (ct_sp ct))))"
    using dist(2) by (simp add: ct(5) take_map [symmetric] distinct_take comp_assoc)
  then obtain b where "hashPointToBool C (mulPoint C base s) = Inr b" "sp_outputs (ct_sp ct) = [b]"
    by (rule ct_inv_coin [OF D(2,1) inv s]) (use ct(3,5) len in auto)
  moreover have "\<not> ctc_halted (put_ct ?i ct ?c)" using run(1) by (simp add: ctc_running_def)
  moreover have "ctc_instances (put_ct ?i ct ?c) ?i = Some ct" by simp
  ultimately show ?thesis using that [of ct b, unfolded toss [unfolded base] ct(1) [unfolded base]] ct(3,5) unfolding base by blast
qed

text \<open>
  C15. The coin arrives: when a node tosses a coin and receives the shares that \<open>t + 1\<close> nodes of the
  deal made for that toss, it outputs exactly one coin, the hash of the base raised to the secret,
  and its goroutine is not halted.
\<close>

theorem coin_output:
  assumes "coin_setup C rep ks kg a t shares d" and "dleq_complete C" and "rep s = poly_at a (unat t + 1) 0"
    and "ctc_running c" and "ctc_deal c = Some d" and "ctc_t c = t"
    and "BytesToUUID seed \<notin> ctc_finished c" and "ctc_unordered c (BytesToUUID seed) = None"
    and "shares_for C rep a t shares (deal_base d) seed ms"
  shows "\<exists>ct b. ctc_instances (deliver_all C ms (fst (TossCoin C r seed c))) (BytesToUUID seed) = Some ct
    \<and> sp_outputs (ct_sp ct) = [b] \<and> hashPointToBool C (mulPoint C (cHashToElement C seed ''coin_toss'') s) = Inr b
    \<and> \<not> ctc_halted (deliver_all C ms (fst (TossCoin C r seed c)))"
  using toss_collects [OF assms] by metis

section \<open>Recovery\<close>

text \<open>
  Any \<open>n\<close> shares with different identifiers of a polynomial with \<open>n\<close> coefficients, hidden by a
  base, recover that base raised to the value of the polynomial at zero; Lagrange interpolation in
  the exponent does not depend on which shares are used, nor on their order.
\<close>

theorem recover_secret:
  assumes "circl_field C rep" and "\<forall>sh \<in> set shares. rep (ss_Value sh) = poly_at a n (rep (ss_ID sh))"
    and "distinct (map ss_ID shares)" and "length shares = n" and "0 < n" and "rep s = poly_at a n 0"
  shows "recoverSecretFromPoints C (map (\<lambda>sh. shareToPoint C sh g) shares) = Some (mulPoint C g s)"
proof (rule recover_hidden [OF assms(1) _ _ _ assms(5,6)])
  show "set (map (\<lambda>sh. shareToPoint C sh g) shares) \<subseteq> hidden_shares C rep a n g"
    using assms(2) by (fastforce simp: hidden_shares_def shareToPoint_def)
  show "distinct (map ps_id (map (\<lambda>sh. shareToPoint C sh g) shares))"
    using assms(3) by (simp add: comp_def shareToPoint_def)
qed (simp add: assms(4))

section \<open>Repeated senders and repeated shares\<close>

lemma processShare_dup:
  assumes "sender \<in> sp_receivedFrom sp" and "\<not> sp_stopped sp"
  shows "snd (processShare C share sender sp) = GoErr (AlreadySentShare sender)" "sp_stopped (fst (processShare C share sender sp))"
    "sp_shares (fst (processShare C share sender sp)) = sp_shares sp @ [share]"
proof -
  obtain pt where "recoverSecretFromPoints C (sp_shares sp @ [share]) = Some pt" using recover_nonempty [of "sp_shares sp @ [share]" C] by auto
  then show "snd (processShare C share sender sp) = GoErr (AlreadySentShare sender)" "sp_stopped (fst (processShare C share sender sp))"
    "sp_shares (fst (processShare C share sender sp)) = sp_shares sp @ [share]"
    using assms by (auto simp: processShare_def Let_def split: sum.split)
qed

text \<open>
  C37. A sender that repeats itself stops the coin tosser: its second valid share for a toss is
  reported as an error and counted all the same, the next valid share for that toss halts the
  goroutine of the channel, and after that no coin can be tossed and no share is taken.
\<close>

theorem coin_duplicate_blocks:
  assumes run: "ctc_running c" and i: "ctm_id m = i" "ctm_id m' = i" "i \<notin> ctc_finished c"
    and ct: "ctc_instances c i = Some ct" "\<not> sp_stopped (ct_sp ct)" "ctm_sender m \<in> sp_receivedFrom (ct_sp ct)"
    and valid: "isTossValid C (ctm_share m) ct = Inr True" "isTossValid C (ctm_share m') ct = Inr True"
  shows "\<exists>ct1. ctc_instances (deliver_all C [m] c) i = Some ct1 \<and> sp_shares (ct_sp ct1) = sp_shares (ct_sp ct) @ [cts_pt (ctm_share m)]
    \<and> ctc_halted (deliver_all C [m, m'] c)
    \<and> (\<forall>r seed. TossCoin C r seed (deliver_all C [m, m'] c) = (deliver_all C [m, m'] c, GoBlocked))
    \<and> (\<forall>m2. ctc_bebDeliver C m2 (deliver_all C [m, m'] c) = (deliver_all C [m, m'] c, GoBlocked))"
proof -
  let ?sp = "fst (processShare C (cts_pt (ctm_share m)) (ctm_sender m) (ct_sp ct))"
  let ?ct = "ct\<lparr>ct_sp := ?sp\<rparr>"
  note dup = processShare_dup [OF ct(3,2), where C = C and share = "cts_pt (ctm_share m)"]
  have "fst (ct_submitShare C (ctm_share m) (ctm_sender m) ct) = ?ct" "snd (ct_submitShare C (ctm_share m) (ctm_sender m) ct) \<noteq> GoBlocked"
    using valid(1) dup(1) by (simp_all add: ct_submitShare_def split_beta)
  then have "fst (ctc_bebDeliver C m c) = (put_ct i ?ct c)\<lparr>ctc_halted := False\<rparr>"
    using deliver_known [OF run, of m ct C] ctc_submit_eq [of m c ct C] i ct(1) by simp
  then have del: "fst (ctc_bebDeliver C m c) = put_ct i ?ct c" using run by (simp add: ctc_running_def put_ct_def)
  have "isTossValid C (ctm_share m') ?ct = Inr True" using valid(2) by simp
  then have "snd (ct_submitShare C (ctm_share m') (ctm_sender m') ?ct) = GoBlocked"
    using dup(2) by (simp add: ct_submitShare_def processShare_def)
  then have "snd (ctc_submitShare C m' (put_ct i ?ct c)) = GoBlocked"
    using ctc_submit_eq(3) [of m' "put_ct i ?ct c" ?ct C] i by simp
  then have halt: "ctc_halted (deliver_all C [m, m'] c)"
    using deliver_known [of "put_ct i ?ct c" m' ?ct C] run i del by simp
  then have "\<not> ctc_running (deliver_all C [m, m'] c)" by (simp add: ctc_running_def)
  then show ?thesis using halt del dup(3)
    by (simp add: TossCoin_def ctc_bebDeliver_def scheduleShareSubmission_def invoke_waits)
qed

text \<open>
  A share is not bound to the node that made it: a share that was accepted from one sender is
  accepted from a second sender as well, and both copies are combined.
\<close>

theorem coin_replay_accepted:
  assumes "circl_codec C ks kg" and first: "ct_submitShare C share p ct = (ct1, GoNil)" and q: "q \<notin> sp_receivedFrom (ct_sp ct1)"
  shows "\<exists>ct2. ct_submitShare C share q ct1 = (ct2, GoNil) \<and> sp_shares (ct_sp ct2) = sp_shares (ct_sp ct) @ [cts_pt share, cts_pt share]"
proof -
  have v: "isTossValid C share ct = Inr True" and ct1: "ct1 = ct\<lparr>ct_sp := fst (processShare C (cts_pt share) p (ct_sp ct))\<rparr>"
    and nil: "snd (processShare C (cts_pt share) p (ct_sp ct)) = GoNil"
    using ct_submit_cases [of C share ct p] first by (metis fst_conv snd_conv outcome.distinct(1))+
  have sp1: "\<not> sp_stopped (ct_sp ct1)" "sp_shares (ct_sp ct1) = sp_shares (ct_sp ct) @ [cts_pt share]"
    using nil unfolding ct1 by (auto simp: processShare_def Let_def split: if_splits option.splits sum.splits)
  obtain pt where "recoverSecretFromPoints C (sp_shares (ct_sp ct1) @ [cts_pt share]) = Some pt"
    using recover_nonempty [of "sp_shares (ct_sp ct1) @ [cts_pt share]" C] by auto
  moreover obtain b where "hashPointToBool C pt = Inr b" using hash_total [OF assms(1)] by blast
  ultimately have "snd (processShare C (cts_pt share) q (ct_sp ct1)) = GoNil"
    "sp_shares (fst (processShare C (cts_pt share) q (ct_sp ct1))) = sp_shares (ct_sp ct) @ [cts_pt share, cts_pt share]"
    using sp1 q by (simp_all add: processShare_def Let_def)
  moreover have "isTossValid C share ct1 = Inr True" using v by (simp add: ct1)
  ultimately show ?thesis by (simp add: ct_submitShare_def split_beta)
qed

end
