(* ===== verification/Coin_Run.thy ===== *)
theory Coin_Run
  imports Coin_Properties
begin

text \<open>
  A deal and a toss with four nodes, threshold two: scalars and points are the field with five
  elements, an equality proof is the exponent itself, and each value is one byte on the wire.  This
  instance of the package satisfies every hypothesis of the theorems about the coin.
\<close>

section \<open>The field with five elements\<close>

datatype f5 = F0 | F1 | F2 | F3 | F4

primrec f5_nat :: "f5 \<Rightarrow> nat" where
  "f5_nat F0 = 0" | "f5_nat F1 = 1" | "f5_nat F2 = 2" | "f5_nat F3 = 3" | "f5_nat F4 = 4"

definition f5_of :: "nat \<Rightarrow> f5" where
  "f5_of k = [F0, F1, F2, F3, F4] ! (k mod 5)"

lemma f5_nat_less: "f5_nat a < 5"
  by (cases a) auto

lemma f5_of_nat [simp]: "f5_of (f5_nat a) = a"
  by (cases a) (simp_all add: f5_of_def)

lemma f5_nat_of: "f5_nat (f5_of k) = k mod 5"
proof -
  have "k mod 5 < 5" by simp
  then have "k mod 5 \<in> {0, 1, 2, 3, 4}" by auto
  then show ?thesis by (auto simp: f5_of_def)
qed

lemma f5_eqI: "f5_nat a = f5_nat b \<Longrightarrow> a = b"
  by (metis f5_of_nat)

instantiation f5 :: field
begin

definition zero_f5 :: f5 where "zero_f5 = F0"
definition one_f5 :: f5 where "one_f5 = F1"
definition plus_f5 :: "f5 \<Rightarrow> f5 \<Rightarrow> f5" where "plus_f5 a b = f5_of (f5_nat a + f5_nat b)"
definition times_f5 :: "f5 \<Rightarrow> f5 \<Rightarrow> f5" where "times_f5 a b = f5_of (f5_nat a * f5_nat b)"
definition uminus_f5 :: "f5 \<Rightarrow> f5" where "uminus_f5 a = f5_of (5 - f5_nat a)"
definition minus_f5 :: "f5 \<Rightarrow> f5 \<Rightarrow> f5" where "minus_f5 a b = a + - b"
definition inverse_f5 :: "f5 \<Rightarrow> f5" where "inverse_f5 a = a * a * a"
definition divide_f5 :: "f5 \<Rightarrow> f5 \<Rightarrow> f5" where "divide_f5 a b = a * inverse b"

instance
proof
  fix a b c :: f5
  show "a + b + c = a + (b + c)" "a * b * c = a * (b * c)" "(a + b) * c = a * c + b * c"
    by (rule f5_eqI; simp add: plus_f5_def times_f5_def f5_nat_of mod_simps algebra_simps)+
  show "a + b = b + a" "a * b = b * a" by (simp_all add: plus_f5_def times_f5_def algebra_simps)
  show "0 + a = a" "1 * a = a" by (simp_all add: plus_f5_def times_f5_def zero_f5_def one_f5_def)
  show "- a + a = 0" by (cases a) (simp_all add: plus_f5_def uminus_f5_def zero_f5_def f5_of_def)
  show "a - b = a + - b" "a div b = a * inverse b" by (simp_all add: minus_f5_def divide_f5_def)
  show "a \<noteq> 0 \<Longrightarrow> inverse a * a = 1" by (cases a) (simp_all add: inverse_f5_def times_f5_def zero_f5_def one_f5_def f5_of_def)
  show "(0 :: f5) \<noteq> 1" "inverse (0 :: f5) = 0" by (simp_all add: zero_f5_def one_f5_def inverse_f5_def times_f5_def f5_of_def)
qed

end

lemmas f5_arith = zero_f5_def one_f5_def plus_f5_def times_f5_def uminus_f5_def minus_f5_def inverse_f5_def divide_f5_def f5_of_def

section \<open>The package over that field\<close>

definition f5_put :: "f5 \<Rightarrow> bytes option" where
  "f5_put a = Some [of_nat (f5_nat a)]"

definition f5_get :: "bytes \<Rightarrow> f5 option" where
  "f5_get bs = (case bs of [b] \<Rightarrow> if unat b < 5 then Some (f5_of (unat b)) else None | _ \<Rightarrow> None)"

definition five :: "(f5, f5, f5) circl" where
  "five = \<lparr>cMulS = (*), cSetUint64 = (\<lambda>n. f5_of (unat n)), cSub = (-), cNeg = uminus, cInv = inverse, cIsEqual = (=),
     cMulP = (*), cAddP = (+), cNewScalar = 0, cNewElement = 0, cPutS = f5_put, cGetS = f5_get, cPutP = f5_put, cGetP = f5_get,
     cHashToElement = (\<lambda>_ _. F2), cHashToScalar = (\<lambda>_ _. F1), cProve = (\<lambda>x _ _ _ _ _. Some x),
     cVerify = (\<lambda>k kp b bp x. kp = k * x \<and> bp = b * x), cPutProof = f5_put, cGetProof = f5_get\<rparr>"

lemma f5_put_get: "f5_get [of_nat (f5_nat a)] = Some a"
  using f5_nat_less [of a] by (simp add: f5_get_def unat_of_nat)

lemma five_codec: "circl_codec five 1 1"
  by (simp add: circl_codec_def five_def f5_put_def f5_put_get)

lemma five_field: "circl_field five id"
  by (simp add: circl_field_def five_def algebra_simps) (simp add: one_f5_def f5_of_def)

lemma five_sound: "dleq_sound five" and five_complete: "dleq_complete five"
  by (auto simp: dleq_sound_def dleq_complete_def five_def)

section \<open>A deal\<close>

text \<open>The polynomial is \<open>3 + x + x\<^sup>2\<close>; the secret is three.\<close>

definition five_poly :: "nat \<Rightarrow> f5" where
  "five_poly i = [F3, F1, F1] ! i"

definition five_shares :: "f5 Share list" where
  "five_shares = [\<lparr>ss_ID = F1, ss_Value = F0\<rparr>, \<lparr>ss_ID = F2, ss_Value = F4\<rparr>, \<lparr>ss_ID = F3, ss_Value = F0\<rparr>, \<lparr>ss_ID = F4, ss_Value = F3\<rparr>]"

definition five_deal :: "nat \<Rightarrow> (f5, f5) deal" where
  "five_deal k = \<lparr>deal_base = F3, deal_share = five_shares ! k, deal_commits = map (\<lambda>sh. shareToPoint five sh F3) five_shares\<rparr>"

lemma five_poly_at: "poly_at five_poly 3 x = F3 + x + x * x"
proof -
  have one: "F1 = 1" by (simp add: one_f5_def)
  have "{..<3} = {0, 1, 2 :: nat}" by auto
  then show ?thesis by (simp add: poly_at_def five_poly_def one power2_eq_square algebra_simps)
qed

lemma inj_times_F3: "inj ((*) F3)"
proof (rule injI)
  fix x y
  assume "F3 * x = F3 * y"
  then show "x = y" by (cases x; cases y) (simp_all add: f5_arith)
qed

lemma five_good: "k < 4 \<Longrightarrow> good_deal five id five_poly 3 five_shares (five_deal k)"
proof -
  assume "k < 4"
  then have "five_shares ! k \<in> set five_shares" by (intro nth_mem) (simp add: five_shares_def)
  moreover have "\<forall>sh \<in> set five_shares. ss_Value sh = F3 + ss_ID sh + ss_ID sh * ss_ID sh" "distinct (map ss_ID five_shares)"
    by (simp_all add: five_shares_def f5_arith)
  ultimately show ?thesis using inj_times_F3 by (simp add: good_deal_def five_deal_def five_poly_at) (simp add: five_def)
qed

lemma unat_two: "unat (2 :: uint) + 1 = 3" by simp

lemma five_setup: "k < 4 \<Longrightarrow> coin_setup five id 1 1 five_poly 2 five_shares (five_deal k)"
  using five_codec five_field five_sound five_good [of k] by (simp add: coin_setup_def)

lemma five_secret: "id F3 = poly_at five_poly (unat (2 :: uint) + 1) 0"
  unfolding unat_two five_poly_at by (simp add: f5_arith)

section \<open>A toss\<close>

definition five_com :: bytes where
  "five_com = (case computeCommitment five F3 five_shares of Inl _ \<Rightarrow> [] | Inr com \<Rightarrow> com)"

lemma five_listen: "listenDeal five (SSMsg (five_shares ! k) five_com pk) = Inr (five_deal k)"
proof -
  have len: "length (map (\<lambda>sh. shareToPoint five sh F3) five_shares) < 2 ^ 32" by (simp add: five_shares_def)
  obtain com where com: "computeCommitment five F3 five_shares = Inr com"
    "unmarshalCommitment five com = Inr (F3, map (\<lambda>sh. shareToPoint five sh F3) five_shares)"
    unfolding computeCommitment_def by (rule commitment_roundtrip [OF five_codec len])
  show ?thesis by (simp add: listenDeal_def five_com_def com five_deal_def)
qed

definition five_chan :: "nat \<Rightarrow> (f5, f5, f5, byte) CTChannel" where
  "five_chan k = initializeChannel five (SSMsg (five_shares ! k) five_com 0) (NewCoinTosserChannel 9 (newNode [] [] 0) 2)"

lemma five_chan_sel:
  "ctc_running (five_chan k)" "ctc_deal (five_chan k) = Some (five_deal k)" "ctc_t (five_chan k) = 2" "ctc_finished (five_chan k) = {}"
  "ctc_unordered (five_chan k) = Map.empty" "ctc_instances (five_chan k) = Map.empty"
  by (simp_all add: five_chan_def initializeChannel_def five_listen NewCoinTosserChannel_def ctc_running_def)

lemma five_chan_reach: "ctc_reach five (five_deal k) 2 (five_chan k)"
  unfolding five_chan_def
  by (rule ctc_reach.dealt [OF ctc_reach.start _ five_listen]) (simp add: NewCoinTosserChannel_def)

definition five_share :: "nat \<Rightarrow> (f5, f5, f5) ctShare" where
  "five_share k = \<lparr>cts_pt = shareToPoint five (five_shares ! k) F2, cts_proof = ss_Value (five_shares ! k)\<rparr>"

text \<open>The seed of the first round of an agreement instance.\<close>

definition five_seed :: bytes where
  "five_seed = uuid_bytes (uid 7) @ put_uint16 0"

definition five_msg :: "nat \<Rightarrow> nat \<Rightarrow> (f5, f5, f5) ctMsg" where
  "five_msg j k = \<lparr>ctm_id = BytesToUUID five_seed, ctm_sender = uid (of_nat j), ctm_share = five_share k\<rparr>"

lemma five_sel [simp]: "cHashToElement five seed dst = F2" "deal_base (five_deal k) = F3" "deal_share (five_deal k) = five_shares ! k"
  by (simp_all add: five_def five_deal_def)

lemma five_commit: "k < 4 \<Longrightarrow> getCommit five (ss_ID (five_shares ! k)) (five_deal j) = Inr (F3 * ss_Value (five_shares ! k))"
  using findCommit_dealt [OF five_codec, of five_shares "five_shares ! k" F3] nth_mem [of k five_shares]
  by (simp add: getCommit_def five_deal_def five_shares_def mulPoint_def) (simp add: five_def)

lemma five_toss: "k < 4 \<Longrightarrow> tossCoin five r (newCoinToss 2 F2 (five_deal k)) = Inr (five_share k)"
  by (simp add: tossCoin_def genProof_def newCoinToss_def five_commit Let_def) (simp add: five_def five_share_def)

lemma five_valid: "k < 4 \<Longrightarrow> isTossValid five (five_share k) (newCoinToss t F2 (five_deal j)) = Inr True"
  by (simp add: isTossValid_def five_share_def newCoinToss_def shareToPoint_def five_commit mulPoint_def) (simp add: five_def)

lemma five_shares_for:
  assumes "js \<in> {[0, 1, 2], [1, 2, 3]}"
  shows "shares_for five id five_poly 2 five_shares F3 five_seed (map (\<lambda>k. five_msg k k) js)"
proof -
  have ks: "\<forall>k \<in> set js. k < 4" using assms by auto
  have "\<exists>d r. good_deal five id five_poly 3 five_shares d \<and> deal_base d = F3 \<and> tossCoin five r (newCoinToss 2 F2 d) = Inr (five_share k)"
    if "k < 4" for k using five_good [OF that] five_toss [OF that] five_sel(2) by blast
  then have "\<forall>m \<in> set (map (\<lambda>k. five_msg k k) js). ctm_id m = BytesToUUID five_seed \<and>
      (\<exists>d r. good_deal five id five_poly 3 five_shares d \<and> deal_base d = F3 \<and> tossCoin five r (newCoinToss 2 F2 d) = Inr (ctm_share m))"
    using ks by (auto simp: five_msg_def)
  moreover have "distinct (map ctm_sender (map (\<lambda>k. five_msg k k) js))" "distinct (map (ps_id \<circ> cts_pt \<circ> ctm_share) (map (\<lambda>k. five_msg k k) js))"
    "3 \<le> length js" using assms by (auto simp: five_msg_def five_share_def shareToPoint_def five_shares_def)
  ultimately show ?thesis by (simp only: shares_for_def unat_two five_sel length_map simp_thms)
qed

section \<open>The theorems at this toss\<close>

theorem coin_output_witness:
  "\<exists>ct b. ctc_instances (deliver_all five (map (\<lambda>k. five_msg k k) [0, 1, 2]) (fst (TossCoin five 5 five_seed (five_chan 0)))) (BytesToUUID five_seed) = Some ct
    \<and> sp_outputs (ct_sp ct) = [b] \<and> hashPointToBool five (mulPoint five F2 F3) = Inr b
    \<and> \<not> ctc_halted (deliver_all five (map (\<lambda>k. five_msg k k) [0, 1, 2]) (fst (TossCoin five 5 five_seed (five_chan 0))))"
proof -
  have ms: "shares_for five id five_poly 2 five_shares (deal_base (five_deal 0)) five_seed (map (\<lambda>k. five_msg k k) [0, 1, 2])"
    using five_shares_for [of "[0, 1, 2]"] by (simp only: five_sel) blast
  show ?thesis
    by (rule coin_output [OF five_setup five_complete five_secret five_chan_sel(1-3) _ _ ms, unfolded five_sel(1)]) (simp_all add: five_chan_sel)
qed

lemma deliver_all_reach: "ctc_reach C d t c \<Longrightarrow> ctc_reach C d t (deliver_all C ms c)"
  by (induction ms arbitrary: c) (auto intro: ctc_reach.share)

definition five_end :: "nat \<Rightarrow> nat list \<Rightarrow> (f5, f5, f5, byte) CTChannel" where
  "five_end k js = deliver_all five (map (\<lambda>k. five_msg k k) js) (fst (TossCoin five 5 five_seed (five_chan k)))"

lemma five_end_run:
  assumes "k < 4" and "js \<in> {[0, 1, 2], [1, 2, 3]}"
  obtains ct b where "ctc_reach five (five_deal k) 2 (five_end k js)" "ctc_instances (five_end k js) (BytesToUUID five_seed) = Some ct"
    "sp_outputs (ct_sp ct) = [b]" "ct_base ct = F2" "distinct (map ps_id (take (unat (2 :: uint) + 1) (sp_shares (ct_sp ct))))"
proof -
  have reach: "ctc_reach five (five_deal k) 2 (five_end k js)"
    unfolding five_end_def by (intro deliver_all_reach ctc_reach.toss five_chan_reach)
  have fin: "BytesToUUID five_seed \<notin> ctc_finished (five_chan k)" "ctc_unordered (five_chan k) (BytesToUUID five_seed) = None"
    by (simp_all add: five_chan_sel)
  have ms: "shares_for five id five_poly 2 five_shares (deal_base (five_deal k)) five_seed (map (\<lambda>k. five_msg k k) js)"
    using five_shares_for [OF assms(2)] by simp
  obtain ct b where ct: "ctc_instances (five_end k js) (BytesToUUID five_seed) = Some ct" "sp_outputs (ct_sp ct) = [b]"
    "sp_shares (ct_sp ct) = map (cts_pt \<circ> ctm_share) (map (\<lambda>k. five_msg k k) js)" "ct_base ct = F2"
    unfolding five_end_def
    by (rule toss_collects [OF five_setup [OF assms(1)] five_complete five_secret five_chan_sel(1-3) fin ms, of 5]) simp
  have "distinct (map ps_id (take (unat (2 :: uint) + 1) (sp_shares (ct_sp ct))))"
    unfolding ct(3) using assms(2) by (auto simp: five_msg_def five_share_def shareToPoint_def five_shares_def)
  then show ?thesis using that reach ct by blast
qed

theorem coin_common_witness:
  "\<exists>ct1 ct2 b. ctc_instances (five_end 0 [0, 1, 2]) (BytesToUUID five_seed) = Some ct1 \<and> sp_outputs (ct_sp ct1) = [b]
    \<and> ctc_instances (five_end 3 [1, 2, 3]) (BytesToUUID five_seed) = Some ct2 \<and> sp_outputs (ct_sp ct2) = [b]
    \<and> hashPointToBool five (mulPoint five F2 F3) = Inr b"
proof -
  obtain ct1 b1 where r1: "ctc_reach five (five_deal 0) 2 (five_end 0 [0, 1, 2])" "ctc_instances (five_end 0 [0, 1, 2]) (BytesToUUID five_seed) = Some ct1"
    "sp_outputs (ct_sp ct1) = [b1]" "ct_base ct1 = F2" "distinct (map ps_id (take (unat (2 :: uint) + 1) (sp_shares (ct_sp ct1))))"
    by (rule five_end_run [of 0 "[0, 1, 2]"]) auto
  obtain ct2 b2 where r2: "ctc_reach five (five_deal 3) 2 (five_end 3 [1, 2, 3])" "ctc_instances (five_end 3 [1, 2, 3]) (BytesToUUID five_seed) = Some ct2"
    "sp_outputs (ct_sp ct2) = [b2]" "ct_base ct2 = F2" "distinct (map ps_id (take (unat (2 :: uint) + 1) (sp_shares (ct_sp ct2))))"
    by (rule five_end_run [of 3 "[1, 2, 3]"]) auto
  have "b1 = b2 \<and> hashPointToBool five (mulPoint five (ct_base ct1) F3) = Inr b1
    \<and> (\<exists>seed. BytesToUUID seed = BytesToUUID five_seed \<and> ct_base ct1 = cHashToElement five seed ''coin_toss'')"
    by (rule coin_common [OF five_setup [of 0] five_setup [of 3] five_secret r1(1,2) _ r2(1,2) _ _ r1(5) r2(5)]) (use r1 r2 in auto)
  then show ?thesis using r1 r2 by auto
qed

theorem shares_before_toss_witness:
  "ctc_instances (fst (TossCoin five 5 five_seed (deliver_all five [five_msg 1 1] (five_chan 0))))
    = ctc_instances (deliver_all five [five_msg 1 1] (fst (TossCoin five 5 five_seed (five_chan 0))))"
  using shares_before_toss [OF five_chan_sel(1,2), of "[five_msg 1 1]" five_seed 0 five 5 "five_share 0"]
  by (simp add: five_chan_sel five_toss five_msg_def)

theorem recover_secret_witness:
  "recoverSecretFromPoints five (map (\<lambda>sh. shareToPoint five sh F2) (take 3 five_shares)) = Some (mulPoint five F2 F3)"
proof (rule recover_secret [OF five_field, of _ five_poly 3])
  show "\<forall>sh \<in> set (take 3 five_shares). id (ss_Value sh) = poly_at five_poly 3 (id (ss_ID sh))"
    by (simp add: five_poly_at) (simp add: five_shares_def f5_arith)
  show "id F3 = poly_at five_poly 3 0" using five_secret unfolding unat_two .
qed (simp_all add: five_shares_def)

theorem deal_roundtrip_witness:
  "\<exists>com m. computeCommitment five F3 five_shares = Inr com \<and> ss_wrapMsg five 7 (five_shares ! 1) com = Inr m
    \<and> ss_bebDeliver five 7 m (0 :: byte) = (Some (SSMsg (five_shares ! 1) com 0), GoNil)
    \<and> listenDeal five (SSMsg (five_shares ! 1) com (0 :: byte)) =
        Inr \<lparr>deal_base = F3, deal_share = five_shares ! 1, deal_commits = map (\<lambda>s. shareToPoint five s F3) five_shares\<rparr>"
  by (rule deal_roundtrip [OF five_codec]) (simp add: five_shares_def)

theorem ct_wire_roundtrip_witness:
  "\<exists>bs. ct_wrap five (uid 4) (five_share 1) = Inr bs
    \<and> ct_mw_bebDeliver five (\<lambda>k. Some [k]) bs (8 :: byte) []
      = ([\<lparr>ctm_id = uid 4, ctm_sender = BytesToUUID [8], ctm_share = five_share 1\<rparr>], GoNil)"
  using ct_wire_roundtrip [OF five_codec, of "\<lambda>k. Some [k]" "8 :: byte" "BytesToUUID [8]" "uid 4" "five_share 1" "[]"]
  by (simp add: PkToUUID_def SerializePublicKey_def)

theorem ct_bebDeliver_panics_iff_witness:
  "snd (ct_mw_bebDeliver five (\<lambda>k. Some [k]) [1, 2, 3] (8 :: byte) []) = GoPanic"
  using ct_bebDeliver_panics_iff [OF five_codec, of "\<lambda>k. Some [k]" "[1, 2, 3]" "8 :: byte" "[]"] by simp

definition five_once :: "(f5, f5, f5, byte) CTChannel" where
  "five_once = (five_chan 0)\<lparr>ctc_instances := [BytesToUUID five_seed \<mapsto>
     (newCoinToss 2 F2 (five_deal 0))\<lparr>ct_sp := \<lparr>sp_t = 2, sp_shares = [cts_pt (five_share 1)], sp_receivedFrom = {uid 1},
        sp_outputs = [], sp_stopped = False\<rparr>\<rparr>]\<rparr>"

theorem coin_duplicate_blocks_witness:
  "ctc_halted (deliver_all five [five_msg 1 1, five_msg 2 2] five_once)
    \<and> TossCoin five 0 [] (deliver_all five [five_msg 1 1, five_msg 2 2] five_once)
       = (deliver_all five [five_msg 1 1, five_msg 2 2] five_once, GoBlocked)"
proof -
  let ?i = "BytesToUUID five_seed"
  let ?ct = "(newCoinToss 2 F2 (five_deal 0))\<lparr>ct_sp := \<lparr>sp_t = 2, sp_shares = [cts_pt (five_share 1)],
    sp_receivedFrom = {uid 1}, sp_outputs = [], sp_stopped = False\<rparr>\<rparr>"
  have run: "ctc_running five_once" using five_chan_sel(1) [of 0] by (simp add: five_once_def ctc_running_def)
  have inst: "?i \<notin> ctc_finished five_once" "ctc_instances five_once ?i = Some ?ct" by (simp_all add: five_once_def five_chan_sel)
  have msg: "ctm_id (five_msg j k) = ?i" "ctm_share (five_msg j k) = five_share k" for j k by (simp_all add: five_msg_def)
  have "\<exists>ct1. ctc_instances (deliver_all five [five_msg 1 1] five_once) ?i = Some ct1
    \<and> sp_shares (ct_sp ct1) = sp_shares (ct_sp ?ct) @ [cts_pt (ctm_share (five_msg 1 1))]
    \<and> ctc_halted (deliver_all five [five_msg 1 1, five_msg 2 2] five_once)
    \<and> (\<forall>r seed. TossCoin five r seed (deliver_all five [five_msg 1 1, five_msg 2 2] five_once)
          = (deliver_all five [five_msg 1 1, five_msg 2 2] five_once, GoBlocked))
    \<and> (\<forall>m2. ctc_bebDeliver five m2 (deliver_all five [five_msg 1 1, five_msg 2 2] five_once)
          = (deliver_all five [five_msg 1 1, five_msg 2 2] five_once, GoBlocked))"
    by (rule coin_duplicate_blocks [OF run msg(1,1) inst]) (simp_all add: msg five_valid, simp add: five_msg_def)
  then show ?thesis by (simp del: deliver_all_simps) blast
qed

theorem coin_replay_accepted_witness:
  "\<exists>ct1 ct2. ct_submitShare five (five_share 1) (uid 1) (newCoinToss 2 F2 (five_deal 0)) = (ct1, GoNil)
    \<and> ct_submitShare five (five_share 1) (uid 2) ct1 = (ct2, GoNil)
    \<and> sp_shares (ct_sp ct2) = [cts_pt (five_share 1), cts_pt (five_share 1)]"
proof -
  let ?ct = "newCoinToss 2 F2 (five_deal 0)"
  let ?ct1 = "?ct\<lparr>ct_sp := \<lparr>sp_t = 2, sp_shares = [cts_pt (five_share 1)], sp_receivedFrom = {uid 1}, sp_outputs = [], sp_stopped = False\<rparr>\<rparr>"
  have first: "ct_submitShare five (five_share 1) (uid 1) ?ct = (?ct1, GoNil)"
    by (simp add: ct_submitShare_def five_valid) (simp add: processShare_def newCoinToss_def newShareProcessor_def int_of_uint_def)
  have "\<exists>ct2. ct_submitShare five (five_share 1) (uid 2) ?ct1 = (ct2, GoNil)
      \<and> sp_shares (ct_sp ct2) = sp_shares (ct_sp ?ct) @ [cts_pt (five_share 1), cts_pt (five_share 1)]"
    by (rule coin_replay_accepted [OF five_codec first]) simp
  then show ?thesis using first by (auto simp: newCoinToss_def newShareProcessor_def)
qed

end
