(* ===== verification/Coin_Agreement.thy ===== *)
theory Coin_Agreement
  imports Coin_Run ABA_Run
begin







section \<open>A run\<close>






end
