(* ===== verification/BCA_Network.thy ===== *)
theory BCA_Network
  imports BCA_Invariant
begin

text \<open>
  The first round's agreement (\<^verbatim>\<open>internalValidityBCA.go\<close>) run by all the correct nodes: every handler and
  every goroutine step of every node in any order, echoes, votes and binds of correct nodes delivered
  only after they were sent, and those of the others at will.  A value a node has put in one of its
  broadcast channels counts as sent, since the listeners of \<^verbatim>\<open>mmr.go\<close> empty these channels.  Beside
  the invariant of each node, \<open>iv_live\<close> says that no handler forgets to act: whatever a node has
  counted enough support for, it has passed on.
\<close>

section \<open>The network\<close>

record iv_net =
  ivnode :: "uuid \<Rightarrow> ivbca"
  ivprop :: "uuid \<Rightarrow> byte set"

definition iv_init :: "net_cfg \<Rightarrow> iv_net" where
  "iv_init c = \<lparr>ivnode = (\<lambda>_. newBCA (cfg_n c) (cfg_f c)), ivprop = (\<lambda>_. {})\<rparr>"

definition put_iv :: "uuid \<Rightarrow> ivbca \<Rightarrow> iv_net \<Rightarrow> iv_net" where
  "put_iv p s N = N\<lparr>ivnode := (ivnode N)(p := s)\<rparr>"

definition put_prop :: "uuid \<Rightarrow> byte \<Rightarrow> iv_net \<Rightarrow> iv_net" where
  "put_prop p v N = N\<lparr>ivprop := (ivprop N)(p := insert v (ivprop N p))\<rparr>"

lemma put_iv_sel [simp]:
  "ivnode (put_iv p s N) = (ivnode N)(p := s)" "ivprop (put_iv p s N) = ivprop N"
  "ivnode (put_prop p v N) = ivnode N" "ivprop (put_prop p v N) = (ivprop N)(p := insert v (ivprop N p))"
  by (simp_all add: put_iv_def put_prop_def)

inductive iv_step :: "net_cfg \<Rightarrow> iv_net \<Rightarrow> iv_net \<Rightarrow> bool" for c where
  propose: "\<lbrakk>p \<in> correct c; iv_propose v bot (ivnode N p) = (s', GoNil)\<rbrakk>
     \<Longrightarrow> iv_step c N (put_prop p v (put_iv p s' N))"
| echo: "\<lbrakk>p \<in> correct c; x \<in> procs c; x \<in> correct c \<longrightarrow> v \<in> set (ch_sent (bcastEchoChan (ivnode N x)));
     iv_submitEcho v x (ivnode N p) = (s', r)\<rbrakk> \<Longrightarrow> iv_step c N (put_iv p s' N)"
| vote: "\<lbrakk>p \<in> correct c; x \<in> procs c; x \<in> correct c \<longrightarrow> v \<in> set (ch_sent (bcastVoteChan (ivnode N x)));
     iv_submitVote v x (ivnode N p) = (s', r)\<rbrakk> \<Longrightarrow> iv_step c N (put_iv p s' N)"
| bind: "\<lbrakk>p \<in> correct c; x \<in> procs c; x \<in> correct c \<longrightarrow> v \<in> set (ch_sent (bcastBindChan (ivnode N x)));
     iv_submitBind v x (ivnode N p) = (s', r)\<rbrakk> \<Longrightarrow> iv_step c N (put_iv p s' N)"
| run: "\<lbrakk>p \<in> correct c; iv_run (ivnode N p) s'\<rbrakk> \<Longrightarrow> iv_step c N (put_iv p s' N)"

inductive iv_reach :: "net_cfg \<Rightarrow> iv_net \<Rightarrow> bool" for c where
  init: "iv_reach c (iv_init c)"
| step: "iv_reach c N \<Longrightarrow> iv_step c N M \<Longrightarrow> iv_reach c M"

section \<open>Nothing is forgotten\<close>

text \<open>
  The thresholds are compared as Go \<^verbatim>\<open>int\<close> values; with fewer than \<open>2\<^sup>6\<^sup>3\<close> nodes the conversion is exact.
\<close>

definition int_sized :: "net_cfg \<Rightarrow> bool" where
  "int_sized c \<longleftrightarrow> unat (cfg_n c) < 2 ^ 63"

lemma int_of_small: "unat u < 2 ^ 63 \<Longrightarrow> int_of_uint u = int (unat u)"
  unfolding int_of_uint_def by (simp only: if_True)

lemma threshold_hits:
  assumes "byz_ok c" and "int_sized c"
  shows "int k = int_of_uint (cfg_n c - cfg_f c) \<longleftrightarrow> k = unat (cfg_n c - cfg_f c)"
    and "int k < int_of_uint (cfg_n c - cfg_f c) \<longleftrightarrow> k < unat (cfg_n c - cfg_f c)"
    and "int k = int_of_uint (cfg_f c + 1) \<longleftrightarrow> k = unat (cfg_f c + 1)"
proof -
  have "unat (cfg_n c - cfg_f c) < 2 ^ 63" "unat (cfg_f c + 1) < 2 ^ 63"
    using unat_thresholds [OF assms(1)] assms unfolding int_sized_def byz_ok_def by linarith+
  then show "int k = int_of_uint (cfg_n c - cfg_f c) \<longleftrightarrow> k = unat (cfg_n c - cfg_f c)"
    and "int k < int_of_uint (cfg_n c - cfg_f c) \<longleftrightarrow> k < unat (cfg_n c - cfg_f c)"
    and "int k = int_of_uint (cfg_f c + 1) \<longleftrightarrow> k = unat (cfg_f c + 1)"
    by (simp_all only: int_of_small of_nat_eq_iff of_nat_less_iff)
qed

lemma strong_hit:
  "x \<notin> A \<Longrightarrow> strong_quorum c (insert x A) \<Longrightarrow> \<not> strong_quorum c A \<Longrightarrow> card (insert x A) = unat (cfg_n c - cfg_f c)"
  by (simp add: strong_quorum_def)

lemma weak_hit:
  "x \<notin> A \<Longrightarrow> weak_quorum c (insert x A) \<Longrightarrow> \<not> weak_quorum c A \<Longrightarrow> card (insert x A) = unat (cfg_f c + 1)"
  by (simp add: weak_quorum_def)

definition live_echo :: "net_cfg \<Rightarrow> byte set \<Rightarrow> 'a ivbca_scheme \<Rightarrow> bool" where
  "live_echo c P s \<longleftrightarrow> (\<forall>v \<in> P. isInputValid v \<and> sentEchoes s v)
     \<and> (\<forall>v. isInputValid v \<longrightarrow> weak_quorum c (bca_echoes s v) \<longrightarrow> sentEchoes s v)
     \<and> (\<forall>v. isInputValid v \<longrightarrow> strong_quorum c (bca_echoes s v) \<longrightarrow> v \<in> set (ch_sent (approveValChan s)))"

definition live_vote :: "net_cfg \<Rightarrow> 'a ivbca_scheme \<Rightarrow> bool" where
  "live_vote c s \<longleftrightarrow> (\<forall>v. isInputValid v \<longrightarrow> strong_quorum c (bca_voted s v) \<longrightarrow> ch_sent (bindValChan s) \<noteq> [])
     \<and> (bind_pc s = BWait \<longrightarrow> ch_taken (bindBotChan s) = 0 \<and> ch_taken (bindValChan s) = 0)"

definition live_bind :: "net_cfg \<Rightarrow> bool \<Rightarrow> 'a ivbca_scheme \<Rightarrow> bool" where
  "live_bind c tok s \<longleftrightarrow> (\<forall>v. strong_quorum c (bca_bound s v) \<longrightarrow> v \<in> set (ch_sent (terminateValChan s)))
     \<and> of_bool tok \<le> length (ch_sent (terminateBotChan s))
     \<and> (strong_quorum c (all_bound s) \<longrightarrow>
          ch_sent (terminateValChan s) \<noteq> [] \<or> of_bool tok + 1 \<le> length (ch_sent (terminateBotChan s)))"

definition live_done :: "'a ivbca_scheme \<Rightarrow> bool" where
  "live_done s \<longleftrightarrow> (vote_pc s = VDone \<longrightarrow> ch_sent (bindBotChan s) = [] \<longrightarrow> ch_sent (outputDecision s) \<noteq> [])"

definition iv_live :: "net_cfg \<Rightarrow> byte set \<Rightarrow> ivbca \<Rightarrow> bool" where
  "iv_live c P s \<longleftrightarrow> live_echo c P s \<and> live_vote c s \<and> live_bind c (vote_token s) s \<and> live_done s"

lemmas live_parts = live_echo_def live_vote_def live_bind_def live_done_def

lemma strong_pos: "byz_ok c \<Longrightarrow> \<not> strong_quorum c {}" "byz_ok c \<Longrightarrow> \<not> weak_quorum c {}"
  using unat_thresholds [of c] by (auto simp: byz_ok_def strong_quorum_def weak_quorum_def)

lemma iv_live_init: "byz_ok c \<Longrightarrow> iv_live c {} (newBCA (cfg_n c) (cfg_f c))"
  by (simp add: iv_live_def live_parts newBCA_def vote_token_def all_bound_def strong_pos)

lemma iv_propose_live:
  assumes "iv_inv c P s" and "iv_live c Q s" and "iv_propose v coin s = (s', GoNil)"
  shows "iv_live c (insert v Q) s'"
proof -
  have "inv_echo c P s" using assms(1) by (simp add: iv_inv_def)
  from iv_propose_eq [OF this, of v coin] assms(2,3) show ?thesis
    by (auto simp: iv_live_def live_parts all_bound_def vote_token_def split: if_splits)
qed

lemma iv_submitEcho_live:
  assumes inv: "iv_inv c P s" and live: "iv_live c Q s" and ok: "byz_ok c" "int_sized c"
    and op: "iv_submitEcho v x s = (s', r)"
  shows "iv_live c Q s'"
proof (cases "isInputValid v \<and> x \<notin> bca_echoes s v")
  case False
  then show ?thesis using op live by (auto simp: iv_submitEcho_def split: if_splits)
next
  case True
  let ?e = "card (insert x (bca_echoes s v)) = unat (cfg_f c + 1) \<and> \<not> sentEchoes s v"
  let ?a = "card (insert x (bca_echoes s v)) = unat (cfg_n c - cfg_f c)"
  have s': "s' = count_echo v x ?e ?a s"
    using iv_submitEcho_eq [OF inv, of v x] True op unfolding threshold_hits [OF ok] by simp
  have "live_echo c Q s'"
    using live True strong_hit [of x "bca_echoes s v" c] weak_hit [of x "bca_echoes s v" c] unfolding s'
    by (auto simp: iv_live_def live_echo_def count_echo_def)
  then show ?thesis using live unfolding s'
    by (simp add: iv_live_def live_vote_def live_bind_def live_done_def count_echo_def all_bound_def vote_token_def)
qed

lemma iv_submitVote_live:
  assumes inv: "iv_inv c P s" and live: "iv_live c Q s" and ok: "byz_ok c" "int_sized c"
    and op: "iv_submitVote v x s = (s', r)"
  shows "iv_live c Q s'"
proof (cases "isInputValid v \<and> x \<notin> bca_voted s 0 \<and> x \<notin> bca_voted s 1")
  case False
  then show ?thesis using op live by (auto simp: iv_submitVote_def split: if_splits)
next
  case True
  have xv: "x \<notin> bca_voted s v" and o: "isInputValid (1 - v)" using True by (auto simp: isInputValid_def)
  obtain b where s': "s' = s\<lparr>bca_voted := (bca_voted s)(v := insert x (bca_voted s v)),
      bindValChan := (bindValChan s)\<lparr>ch_sent := ch_sent (bindValChan s) @ emit b v\<rparr>\<rparr>"
    and b: "b \<longleftrightarrow> card (insert x (bca_voted s v)) = unat (cfg_n c - cfg_f c)
      \<and> card (bca_voted s (1 - v)) < unat (cfg_n c - cfg_f c)"
    using iv_submitVote_iff [OF inv, of v x] True op unfolding threshold_hits [OF ok] by auto
  have "ch_sent (bindValChan s') \<noteq> []" if "strong_quorum c (insert x (bca_voted s v))"
  proof (cases "strong_quorum c (bca_voted s v) \<or> strong_quorum c (bca_voted s (1 - v))")
    case True
    then show ?thesis using live o \<open>isInputValid v \<and> _\<close> s' by (auto simp: iv_live_def live_vote_def)
  next
    case False
    then have b using strong_hit [OF xv that] by (simp add: b strong_quorum_def)
    then show ?thesis using s' by simp
  qed
  then have "live_vote c s'" using live unfolding s' by (auto simp: iv_live_def live_vote_def)
  then show ?thesis using live unfolding s'
    by (simp add: iv_live_def live_echo_def live_bind_def live_done_def all_bound_def vote_token_def)
qed

lemma iv_submitBind_live:
  assumes inv: "iv_inv c P s" and live: "iv_live c Q s" and ok: "byz_ok c" "int_sized c"
    and x: "x \<in> procs c" and op: "iv_submitBind v x s = (s', r)"
  shows "iv_live c Q s'"
proof (cases "v \<le> bot \<and> x \<notin> bca_bound s 0 \<and> x \<notin> bca_bound s 1 \<and> x \<notin> bca_bound s bot")
  case False
  then show ?thesis using op live by (auto simp: iv_submitBind_def not_less split: if_splits)
next
  case True
  have parts: "inv_sets c s" "inv_term c (vote_token s) s" using inv by (simp_all add: iv_inv_def)
  have xv: "x \<notin> bca_bound s v" and xa: "x \<notin> all_bound s" using True bot_cases by (auto simp: all_bound_def)
  obtain t b where s': "s' = count_bind v x t b s"
    and t: "t \<longleftrightarrow> card (insert x (bca_bound s v)) = unat (cfg_n c - cfg_f c)"
    and b: "b \<longleftrightarrow> \<not> t \<and> card (insert x (all_bound s)) = unat (cfg_n c - cfg_f c)"
    using submitBind_iff [OF ok(1) parts x, of v] True op unfolding threshold_hits [OF ok] by auto
  have all: "all_bound s' = insert x (all_bound s)"
    using all_bound_insert [of v s x] True unfolding s' by (simp add: all_bound_def count_bind_def)
  have "u \<in> set (ch_sent (terminateValChan s'))" if "strong_quorum c (bca_bound s' u)" for u
  proof (cases "strong_quorum c (bca_bound s u)")
    case True
    then show ?thesis using live s' by (auto simp: iv_live_def live_bind_def count_bind_def)
  next
    case False
    then have "u = v" using that s' by (auto simp: count_bind_def split: if_splits)
    then have t using strong_hit [OF xv] that False s' by (simp add: t count_bind_def)
    then show ?thesis using \<open>u = v\<close> s' by (simp add: count_bind_def)
  qed
  moreover have "ch_sent (terminateValChan s') \<noteq> []
      \<or> of_bool (vote_token s') + 1 \<le> length (ch_sent (terminateBotChan s'))" if "strong_quorum c (all_bound s')"
  proof (cases "strong_quorum c (all_bound s)")
    case True
    then show ?thesis using live s' by (auto simp: iv_live_def live_bind_def count_bind_def)
  next
    case False
    then have "t \<or> b" using strong_hit [OF xa] that by (auto simp: b all)
    then show ?thesis using live s' by (auto simp: iv_live_def live_bind_def count_bind_def)
  qed
  moreover have "of_bool (vote_token s') \<le> length (ch_sent (terminateBotChan s'))"
    using live s' by (simp add: iv_live_def live_bind_def count_bind_def)
  ultimately have "live_bind c (vote_token s') s'" by (simp add: live_bind_def)
  then show ?thesis using live s' by (simp add: iv_live_def live_echo_def live_vote_def live_done_def count_bind_def)
qed

section \<open>Goroutines\<close>

lemma iv_waitToVote_unblocked:
  assumes "iv_waitToVote b s = Some s'" and "vote_pc s' = VDone" and "ch_sent (bindBotChan s') = []" and "inv_vote s"
  shows "ch_sent (unblockChan s) \<noteq> []"
  using assms
  by (auto simp: iv_waitToVote_def inv_vote_def send_then_def recv_then_def chan_send_def chan_recv_def
      split: vote_pc.splits if_splits)

lemma iv_waitToVote_live:
  assumes inv: "iv_inv c P s" and live: "iv_live c Q s" and op: "iv_waitToVote b s = Some s'"
  shows "iv_live c Q s'"
proof -
  have dec: "ch_sent (outputDecision s) \<noteq> []" if "ch_sent (unblockChan s) \<noteq> []"
    using inv that by (auto simp: iv_inv_def inv_dec_def split: decide_pc.splits)
  have d: "live_done s'"
    using iv_waitToVote_unblocked [OF op] inv dec
      iv_waitToVote_cases [OF op, where thesis = "outputDecision s' = outputDecision s"]
    by (auto simp: live_done_def iv_inv_def)
  have "live_echo c Q s' \<and> live_vote c s' \<and> live_bind c (vote_token s') s'"
    using op
  proof (cases rule: iv_waitToVote_cases)
    case termbot
    then show ?thesis using live inv
      by (auto simp: iv_live_def live_parts iv_inv_def inv_vote_def all_bound_def vote_token_def)
  qed (use live inv in \<open>auto simp: iv_live_def live_parts iv_inv_def inv_vote_def all_bound_def vote_token_def\<close>)
  with d show ?thesis by (simp add: iv_live_def)
qed

lemma iv_waitToBind_cases:
  assumes "iv_waitToBind b s = Some s'"
  obtains (bot) "bind_pc s = BWait"
      "s' = s\<lparr>bindBotChan := (bindBotChan s)\<lparr>ch_taken := Suc (ch_taken (bindBotChan s))\<rparr>, bind_pc := BBcast bot\<rparr>"
  | (val) v where "bind_pc s = BWait"
      "s' = s\<lparr>bindValChan := (bindValChan s)\<lparr>ch_taken := Suc (ch_taken (bindValChan s))\<rparr>, bind_pc := BBcast v\<rparr>"
  | (bcast) v where "bind_pc s = BBcast v"
      "s' = s\<lparr>bcastBindChan := (bcastBindChan s)\<lparr>ch_sent := ch_sent (bcastBindChan s) @ [v]\<rparr>, bind_pc := BDone\<rparr>"
proof (cases "bind_pc s")
  case BWait
  show thesis
  proof (cases b)
    case True
    with BWait assms have "recv_then bindBotChan bindBotChan_update (\<lambda>_. bind_pc_update (\<lambda>_. BBcast BCA_Spec.bot)) s = Some s'"
      by (simp add: iv_waitToBind_def)
    from recv_thenE(2) [OF this] show thesis by (intro bot BWait) simp
  next
    case False
    with BWait assms have "recv_then bindValChan bindValChan_update (\<lambda>v. bind_pc_update (\<lambda>_. BBcast v)) s = Some s'"
      by (simp add: iv_waitToBind_def)
    from recv_thenE(2) [OF this] show thesis by (intro val BWait) simp
  qed
next
  case (BBcast v)
  with assms have "send_then bcastBindChan bcastBindChan_update v (bind_pc_update (\<lambda>_. BDone)) s = Some s'"
    by (simp add: iv_waitToBind_def)
  from BBcast send_thenE [OF this] show thesis by (rule bcast)
next
  case BDone
  with assms show thesis by (simp add: iv_waitToBind_def)
qed

lemma iv_waitToBind_live:
  assumes live: "iv_live c P s" and op: "iv_waitToBind b s = Some s'"
  shows "iv_live c P s'"
  using op by (cases rule: iv_waitToBind_cases) (use live in \<open>simp_all add: iv_live_def live_parts all_bound_def vote_token_def\<close>)

lemma iv_waitToDecide_live:
  assumes live: "iv_live c P s" and op: "iv_waitToDecide b s = Some s'"
  shows "iv_live c P s'"
  using op by (cases rule: iv_waitToDecide_cases) (use live in \<open>auto simp: iv_live_def live_parts all_bound_def vote_token_def\<close>)

lemma iv_run_live:
  assumes "iv_inv c P s" and "iv_live c Q s" and "iv_run s s'"
  shows "iv_live c Q s'"
  using assms iv_waitToVote_live iv_waitToBind_live iv_waitToDecide_live unfolding iv_run_def by blast

section \<open>Reachable networks\<close>

definition iv_view :: "iv_net \<Rightarrow> uuid \<Rightarrow> bca_view" where
  "iv_view N p = bca_view_of (ivprop N p) {} (ivnode N p)"

lemma iv_view_sel [simp]:
  "v_proposed (iv_view N p) = ivprop N p" "v_fast (iv_view N p) = {}" "v_echoes (iv_view N p) = bca_echoes (ivnode N p)"
  "v_votes (iv_view N p) = bca_voted (ivnode N p)" "v_binds (iv_view N p) = bca_bound (ivnode N p)"
  "v_sentEcho (iv_view N p) = set (ch_sent (bcastEchoChan (ivnode N p)))"
  "v_sentVote (iv_view N p) = set (ch_sent (bcastVoteChan (ivnode N p)))"
  "v_sentBind (iv_view N p) = set (ch_sent (bcastBindChan (ivnode N p)))"
  "v_decided (iv_view N p) = set (ch_sent (outputDecision (ivnode N p)))"
  by (simp_all add: iv_view_def bca_view_of_def)

lemma iv_view_put:
  "iv_view (put_iv p s N) = (iv_view N)(p := bca_view_of (ivprop N p) {} s)"
  "iv_view (put_prop p v (put_iv p s N)) = (iv_view N)(p := bca_view_of (insert v (ivprop N p)) {} s)"
  by (auto simp: iv_view_def fun_eq_iff)

lemma iv_step_inv:
  assumes "iv_step c N M" and ok: "byz_ok c" and inv: "\<And>p. iv_inv c (ivprop N p) (ivnode N p)"
  shows "iv_inv c (ivprop M p) (ivnode M p)"
  using assms(1)
proof cases
  case (propose q v s')
  then show ?thesis using iv_propose_inv(1) [OF inv ok propose(3)] inv by simp
next
  case (echo q x v s' r)
  then show ?thesis using iv_submitEcho_inv(1) [OF inv ok echo(3,5)] inv by simp
next
  case (vote q x v s' r)
  then show ?thesis using iv_submitVote_inv(1) [OF inv ok vote(3,5)] inv by simp
next
  case (bind q x v s' r)
  then show ?thesis using iv_submitBind_inv(1) [OF inv ok bind(3,5)] inv by simp
next
  case (run q s')
  then show ?thesis using iv_run_inv [OF inv run(3)] inv by simp
qed

lemma iv_step_live:
  assumes "iv_step c N M" and ok: "byz_ok c" "int_sized c"
    and inv: "\<And>p. iv_inv c (ivprop N p) (ivnode N p)" and live: "\<And>p. iv_live c (ivprop N p) (ivnode N p)"
  shows "iv_live c (ivprop M p) (ivnode M p)"
  using assms(1)
proof cases
  case (propose q v s')
  then show ?thesis using iv_propose_live [OF inv live propose(3)] live by simp
next
  case (echo q x v s' r)
  then show ?thesis using iv_submitEcho_live [OF inv live ok echo(5)] live by simp
next
  case (vote q x v s' r)
  then show ?thesis using iv_submitVote_live [OF inv live ok vote(5)] live by simp
next
  case (bind q x v s' r)
  then show ?thesis using iv_submitBind_live [OF inv live ok bind(3,5)] live by simp
next
  case (run q s')
  then show ?thesis using iv_run_live [OF inv live run(3)] live by simp
qed

lemma iv_step_vstep:
  assumes "iv_step c N M" and ok: "byz_ok c" and inv: "\<And>p. iv_inv c (ivprop N p) (ivnode N p)"
    and h: "\<And>p. heard c (iv_view N) (iv_view N p)"
  shows "bca_vstep c (iv_view N) (iv_view M)"
  using assms(1)
proof cases
  case (propose q v s')
  have "isInputValid v" using propose(3) by (auto simp: iv_propose_def split: if_splits)
  with propose show ?thesis
    using ivb.propose_vstep [OF ok propose(2) iv_view_def _ h propose(3)] inv by (simp add: iv_view_put)
next
  case (echo q x v s' r)
  then show ?thesis using ivb.submitEcho_vstep [OF ok echo(2) iv_view_def _ h echo(3,5)] inv by (simp add: iv_view_put)
next
  case (vote q x v s' r)
  then show ?thesis using ivb.submitVote_vstep [OF ok vote(2) iv_view_def _ h vote(3,5)] inv by (simp add: iv_view_put)
next
  case (bind q x v s' r)
  then show ?thesis using ivb.submitBind_vstep [OF ok bind(2) iv_view_def _ h bind(3,5)] inv by (simp add: iv_view_put)
next
  case (run q s')
  then show ?thesis using ivb.run_vstep [OF ok run(2) iv_view_def _ h run(3)] inv by (simp add: iv_view_put)
qed

lemma iv_reach_inv:
  assumes "iv_reach c N" and ok: "byz_ok c"
  shows "iv_inv c (ivprop N p) (ivnode N p)" and "bca_vreach c (iv_view N)"
proof -
  have "(\<forall>p. iv_inv c (ivprop N p) (ivnode N p)) \<and> bca_vreach c (iv_view N)"
    using assms(1)
  proof (induction rule: iv_reach.induct)
    case init
    have "iv_view (iv_init c) = (\<lambda>_. init_view)"
      by (auto simp: iv_view_def iv_init_def bca_view_of_def init_view_def newBCA_def fun_eq_iff)
    then show ?case using iv_inv_init [OF ok] bca_vreach.init [of c] by (simp add: iv_init_def)
  next
    case (step N M)
    then have inv: "\<And>p. iv_inv c (ivprop N p) (ivnode N p)" and r: "bca_vreach c (iv_view N)" by auto
    have h: "\<And>p. heard c (iv_view N) (iv_view N p)" using vreach_evidence [OF r ok] by blast
    show ?case
      using iv_step_inv [OF step.hyps(2) ok inv] bca_vreach.step [OF r iv_step_vstep [OF step.hyps(2) ok inv h]] by blast
  qed
  then show "iv_inv c (ivprop N p) (ivnode N p)" and "bca_vreach c (iv_view N)" by auto
qed

lemma iv_reach_live:
  assumes "iv_reach c N" and ok: "byz_ok c" "int_sized c"
  shows "iv_live c (ivprop N p) (ivnode N p)"
  using assms(1)
proof (induction arbitrary: p rule: iv_reach.induct)
  case init
  then show ?case using iv_live_init [OF ok(1)] by (simp add: iv_init_def)
next
  case (step N M)
  show ?case using iv_step_live [OF step.hyps(2) ok iv_reach_inv(1) [OF step.hyps(1) ok(1)] step.IH] .
qed

end
