(* ===== verification/BCA_Liveness.thy ===== *)
theory BCA_Liveness
  imports BCA_Network
begin

text \<open>
  When does the first round's agreement end?  In a state where everything the correct nodes sent to
  each other has arrived and no goroutine can move, every correct node has decided, unless one of
  them decided without ever binding a value.
\<close>

section \<open>Settled states\<close>

definition iv_idle :: "'a ivbca_scheme \<Rightarrow> bool" where
  "iv_idle s \<longleftrightarrow> iv_waitToVote True s = None \<and> iv_waitToVote False s = None \<and> iv_waitToBind True s = None
     \<and> iv_waitToBind False s = None \<and> iv_waitToDecide True s = None \<and> iv_waitToDecide False s = None"

lemma iv_idle_run: "iv_idle s \<longleftrightarrow> (\<forall>s'. \<not> iv_run s s')"
proof
  assume idle: "iv_idle s"
  show "\<forall>s'. \<not> iv_run s s'"
  proof
    fix s'
    have "iv_waitToVote b s = None \<and> iv_waitToBind b s = None \<and> iv_waitToDecide b s = None" for b
      using idle by (cases b) (simp_all add: iv_idle_def)
    then show "\<not> iv_run s s'" by (simp add: iv_run_def)
  qed
next
  assume stuck: "\<forall>s'. \<not> iv_run s s'"
  have "iv_waitToVote b s = None \<and> iv_waitToBind b s = None \<and> iv_waitToDecide b s = None" for b
  proof (intro conjI; rule ccontr)
  qed (use stuck in \<open>auto simp: iv_run_def\<close>)
  then show "iv_idle s" by (simp add: iv_idle_def)
qed

definition iv_delivered :: "net_cfg \<Rightarrow> iv_net \<Rightarrow> bool" where
  "iv_delivered c N \<longleftrightarrow> (\<forall>p \<in> correct c. \<forall>x \<in> correct c.
     (\<forall>v \<in> set (ch_sent (bcastEchoChan (ivnode N x))). x \<in> bca_echoes (ivnode N p) v)
     \<and> (\<forall>v \<in> set (ch_sent (bcastVoteChan (ivnode N x))). x \<in> bca_voted (ivnode N p) v)
     \<and> (\<forall>v \<in> set (ch_sent (bcastBindChan (ivnode N x))). x \<in> bca_bound (ivnode N p) v))"

definition iv_settled :: "net_cfg \<Rightarrow> iv_net \<Rightarrow> bool" where
  "iv_settled c N \<longleftrightarrow> iv_delivered c N \<and> (\<forall>p \<in> correct c. iv_idle (ivnode N p))"

section \<open>An idle node has done what it was asked to\<close>

lemma idle_pcs:
  assumes "iv_inv c P s" and "iv_idle s"
  shows "vote_pc s \<in> {VFirst, VSecond, VDone}" "bind_pc s \<in> {BWait, BDone}" "decide_pc s \<in> {DWait, DWaitVal, DDone}"
proof -
  have none: "iv_waitToVote True s = None" "iv_waitToBind True s = None" "iv_waitToDecide True s = None"
    using assms(2) by (simp_all add: iv_idle_def)
  show "vote_pc s \<in> {VFirst, VSecond, VDone}" using iv_sends_never_wait(1) [OF assms(1)] none(1) by blast
  show "bind_pc s \<in> {BWait, BDone}" using iv_sends_never_wait(2) [OF assms(1)] none(2) by blast
  show "decide_pc s \<in> {DWait, DWaitVal, DDone}" using iv_sends_never_wait(3) [OF assms(1)] none(3) by blast
qed

lemma idle_votes:
  assumes "iv_inv c P s" and "iv_idle s" and "ch_sent (approveValChan s) \<noteq> []"
  shows "\<exists>v. ch_sent (bcastVoteChan s) = [v] \<and> v \<in> set (ch_sent (approveValChan s))"
proof -
  have "vote_pc s \<in> {VFirst, VSecond, VDone}" using idle_pcs(1) [OF assms(1,2)] .
  moreover have "vote_pc s \<noteq> VFirst"
  proof
    assume "vote_pc s = VFirst"
    then have "chan_recv (approveValChan s) = None" "ch_taken (approveValChan s) = 0"
      using assms(1,2) by (auto simp: iv_idle_def iv_waitToVote_def recv_then_def iv_inv_def inv_vote_def split: option.splits)
    then show False using assms(3) by (simp add: chan_recv_None)
  qed
  ultimately show ?thesis using assms(1) by (auto simp: iv_inv_def inv_vote_def)
qed

lemma idle_both:
  assumes "iv_inv c P s" and "iv_live c Q s" and "iv_idle s" and "{0, 1} \<subseteq> set (ch_sent (approveValChan s))"
  shows "vote_token s \<or> ch_sent (outputDecision s) \<noteq> []"
proof -
  have "card {0, 1 :: byte} \<le> card (set (ch_sent (approveValChan s)))" using assms(4) by (intro card_mono) simp_all
  then have len: "2 \<le> length (ch_sent (approveValChan s))" using card_length order_trans by fastforce
  then have "ch_sent (approveValChan s) \<noteq> []" by auto
  then have "ch_sent (bcastVoteChan s) \<noteq> []" using idle_votes [OF assms(1,3)] by auto
  then have "vote_pc s \<in> {VSecond, VDone}" using idle_pcs(1) [OF assms(1,3)] assms(1) by (auto simp: iv_inv_def inv_vote_def)
  moreover have "vote_pc s \<noteq> VSecond"
  proof
    assume "vote_pc s = VSecond"
    then have "chan_recv (approveValChan s) = None" "ch_taken (approveValChan s) = 1"
      using assms(1,3) by (auto simp: iv_idle_def iv_waitToVote_def recv_then_def iv_inv_def inv_vote_def split: option.splits)
    then show False using len by (simp add: chan_recv_None)
  qed
  ultimately show ?thesis using assms(2) by (auto simp: vote_token_def iv_live_def live_done_def)
qed

lemma idle_binds:
  assumes "iv_inv c P s" and "iv_live c Q s" and "iv_idle s" and "ch_sent (bindValChan s) \<noteq> [] \<or> ch_sent (bindBotChan s) \<noteq> []"
  shows "ch_sent (bcastBindChan s) \<noteq> []"
proof -
  have "bind_pc s \<in> {BWait, BDone}" using idle_pcs(2) [OF assms(1,3)] .
  moreover have "bind_pc s \<noteq> BWait"
  proof
    assume w: "bind_pc s = BWait"
    then have "chan_recv (bindValChan s) = None" "chan_recv (bindBotChan s) = None"
      using assms(3) by (auto simp: iv_idle_def iv_waitToBind_def recv_then_def split: option.splits)
    then show False using assms(2,4) w by (simp add: chan_recv_None iv_live_def live_vote_def)
  qed
  ultimately show ?thesis using assms(1) by (auto simp: iv_inv_def inv_bind_def)
qed

lemma idle_decides:
  assumes "iv_inv c P s" and "iv_idle s"
    and "ch_sent (terminateValChan s) \<noteq> [] \<or> 2 \<le> length (ch_sent (terminateBotChan s))"
  shows "ch_sent (outputDecision s) \<noteq> []"
proof -
  have pc: "decide_pc s \<in> {DWait, DWaitVal, DDone}" using idle_pcs(3) [OF assms(1,2)] .
  have "decide_pc s \<noteq> DWait \<and> decide_pc s \<noteq> DWaitVal"
  proof (rule ccontr)
    assume w: "\<not> ?thesis"
    then have "chan_recv (terminateValChan s) = None" "chan_recv (terminateBotChan s) = None"
      using assms(2) by (auto simp: iv_idle_def iv_waitToDecide_def recv_then_def split: option.splits)
    moreover have "ch_taken (terminateValChan s) = 0" "ch_taken (terminateBotChan s) \<le> 1"
      using assms(1) w by (auto simp: iv_inv_def inv_dec_def)
    ultimately show False using assms(3) by (auto simp: chan_recv_None)
  qed
  then show ?thesis using pc assms(1) by (auto simp: iv_inv_def inv_dec_def)
qed

section \<open>The argument\<close>

text \<open>What is assumed of the state, collected once.\<close>

definition iv_final :: "net_cfg \<Rightarrow> iv_net \<Rightarrow> bool" where
  "iv_final c N \<longleftrightarrow> byz_ok c \<and> int_sized c \<and> iv_reach c N \<and> iv_settled c N"

lemma final_node:
  assumes "iv_final c N" and "p \<in> correct c"
  shows "iv_inv c (ivprop N p) (ivnode N p)" "iv_live c (ivprop N p) (ivnode N p)" "iv_idle (ivnode N p)"
  using assms iv_reach_inv(1) [of c N p] iv_reach_live [of c N p] by (simp_all add: iv_final_def iv_settled_def)

lemma final_views:
  assumes "iv_final c N"
  shows "bca_evidence c (iv_view N p)" "heard c (iv_view N) (iv_view N p)"
  using assms vreach_evidence [OF iv_reach_inv(2), of c N p] by (simp_all add: iv_final_def)

definition echoers :: "net_cfg \<Rightarrow> iv_net \<Rightarrow> byte \<Rightarrow> uuid set" where
  "echoers c N v = {p \<in> correct c. v \<in> set (ch_sent (bcastEchoChan (ivnode N p)))}"

definition everywhere :: "net_cfg \<Rightarrow> iv_net \<Rightarrow> byte \<Rightarrow> bool" where
  "everywhere c N v \<longleftrightarrow> (\<forall>p \<in> correct c. v \<in> set (ch_sent (approveValChan (ivnode N p))))"

text \<open>A value echoed by \<open>f + 1\<close> correct nodes is approved by all of them.\<close>

lemma amplified:
  assumes fin: "iv_final c N" and v: "isInputValid v" and w: "weak_quorum c (echoers c N v)"
  shows "everywhere c N v"
proof -
  have ok: "byz_ok c" using fin by (simp add: iv_final_def)
  have sub: "bca_echoes (ivnode N p) v \<subseteq> procs c" for p
    using final_views(1) [OF fin, of p] by (simp add: bca_evidence_def)
  have got: "echoers c N v \<subseteq> bca_echoes (ivnode N p) v" if "p \<in> correct c" for p
    using fin that by (auto simp: iv_final_def iv_settled_def iv_delivered_def echoers_def)
  have "v \<in> set (ch_sent (bcastEchoChan (ivnode N p)))" if p: "p \<in> correct c" for p
  proof -
    have "weak_quorum c (bca_echoes (ivnode N p) v)" by (rule byzq.weak_mono [OF ok w got [OF p] sub])
    then have "sentEchoes (ivnode N p) v" using final_node(2) [OF fin p] v by (simp add: iv_live_def live_echo_def)
    then show ?thesis using final_node(1) [OF fin p] by (simp add: iv_inv_def)
  qed
  then have "echoers c N v = correct c" by (auto simp: echoers_def)
  then have "strong_quorum c (bca_echoes (ivnode N p) v)" if "p \<in> correct c" for p
    using byzq.strong_mono [OF ok byzq.correct_strong [OF ok] _ sub] got [OF that] by simp
  then show ?thesis using final_node(2) [OF fin] v by (simp add: everywhere_def iv_live_def live_echo_def)
qed

lemma approved_everywhere:
  assumes fin: "iv_final c N" and v: "isInputValid v" and s: "strong_quorum c (bca_echoes (ivnode N p) v)"
  shows "everywhere c N v"
proof (rule amplified [OF fin v])
  have ok: "byz_ok c" using fin by (simp add: iv_final_def)
  have sub: "bca_echoes (ivnode N p) v \<subseteq> procs c" using final_views(1) [OF fin, of p] by (simp add: bca_evidence_def)
  have "bca_echoes (ivnode N p) v \<inter> correct c \<subseteq> echoers c N v"
    using final_views(2) [OF fin, of p] by (auto simp: heard_def echoers_def)
  then show "weak_quorum c (echoers c N v)"
    using byzq.weak_mono [OF ok byzq.strong_weak [OF ok s sub]] byzq.correct_procs [OF ok] by (auto simp: echoers_def)
qed

lemma some_everywhere:
  assumes fin: "iv_final c N" and pr: "\<forall>p \<in> correct c. ivprop N p \<noteq> {}"
  shows "\<exists>v. isInputValid v \<and> everywhere c N v"
proof -
  have ok: "byz_ok c" using fin by (simp add: iv_final_def)
  have "p \<in> echoers c N 0 \<union> echoers c N 1" if p: "p \<in> correct c" for p
  proof -
    obtain v where "v \<in> ivprop N p" using pr p by blast
    then have "isInputValid v" "v \<in> set (ch_sent (bcastEchoChan (ivnode N p)))"
      using final_node(1,2) [OF fin p] by (auto simp: iv_live_def live_echo_def iv_inv_def)
    then show ?thesis using p by (auto simp: isInputValid_def echoers_def)
  qed
  then have "card (correct c) \<le> card (echoers c N 0 \<union> echoers c N 1)" by (intro card_mono) auto
  also have "\<dots> \<le> card (echoers c N 0) + card (echoers c N 1)" by (rule card_Un_le)
  finally have "weak_quorum c (echoers c N 0) \<or> weak_quorum c (echoers c N 1)"
    using correct_count [OF ok] unat_thresholds [OF ok] ok unfolding weak_quorum_def byz_ok_def by linarith
  then show ?thesis using amplified [OF fin] isInputValid_simps by blast
qed

lemma final_vote:
  assumes fin: "iv_final c N" and pr: "\<forall>p \<in> correct c. ivprop N p \<noteq> {}" and p: "p \<in> correct c"
  shows "\<exists>v. ch_sent (bcastVoteChan (ivnode N p)) = [v] \<and> isInputValid v \<and> everywhere c N v"
proof -
  have "ch_sent (approveValChan (ivnode N p)) \<noteq> []" using some_everywhere [OF fin pr] p by (auto simp: everywhere_def)
  then obtain v where v: "ch_sent (bcastVoteChan (ivnode N p)) = [v]" "v \<in> set (ch_sent (approveValChan (ivnode N p)))"
    using idle_votes [OF final_node(1,3) [OF fin p]] by blast
  then have "isInputValid v \<and> strong_quorum c (bca_echoes (ivnode N p) v)"
    using final_node(1) [OF fin p] by (simp add: iv_inv_def inv_approve_def)
  with v show ?thesis using approved_everywhere [OF fin] by blast
qed

lemma both_everywhere:
  assumes fin: "iv_final c N" and p: "p \<in> correct c" and "everywhere c N 0" "everywhere c N 1"
  shows "vote_token (ivnode N p) \<or> ch_sent (outputDecision (ivnode N p)) \<noteq> []"
  using idle_both [OF final_node [OF fin p]] assms by (simp add: everywhere_def)

lemma final_bind:
  assumes fin: "iv_final c N" and pr: "\<forall>p \<in> correct c. ivprop N p \<noteq> {}" and p: "p \<in> correct c"
    and bound: "ch_sent (outputDecision (ivnode N p)) \<noteq> [] \<Longrightarrow> ch_sent (bcastBindChan (ivnode N p)) \<noteq> []"
  shows "ch_sent (bcastBindChan (ivnode N p)) \<noteq> []"
proof -
  have ok: "byz_ok c" using fin by (simp add: iv_final_def)
  note binds = idle_binds [OF final_node [OF fin p]]
  obtain v where v: "ch_sent (bcastVoteChan (ivnode N p)) = [v]" "isInputValid v" "everywhere c N v"
    using final_vote [OF fin pr p] by blast
  show ?thesis
  proof (cases "\<forall>q \<in> correct c. ch_sent (bcastVoteChan (ivnode N q)) = [v]")
    case True
    then have "correct c \<subseteq> bca_voted (ivnode N p) v"
      using fin p by (auto simp: iv_final_def iv_settled_def iv_delivered_def)
    moreover have "bca_voted (ivnode N p) v \<subseteq> procs c" using final_views(1) [OF fin, of p] by (simp add: bca_evidence_def)
    ultimately have "strong_quorum c (bca_voted (ivnode N p) v)"
      using byzq.strong_mono [OF ok byzq.correct_strong [OF ok]] by blast
    then show ?thesis using binds final_node(2) [OF fin p] v(2) by (auto simp: iv_live_def live_vote_def)
  next
    case False
    then obtain u where "isInputValid u" "u \<noteq> v" "everywhere c N u" using final_vote [OF fin pr] by blast
    then have "everywhere c N 0" "everywhere c N 1" using v by (auto simp: isInputValid_def)
    then show ?thesis using both_everywhere [OF fin p] bound binds by (auto simp: vote_token_def)
  qed
qed

lemma mixed_binds:
  assumes fin: "iv_final c N" and q: "q \<in> correct c" "q' \<in> correct c"
    and u: "u \<in> set (ch_sent (bcastBindChan (ivnode N q)))" and w: "w \<in> set (ch_sent (bcastBindChan (ivnode N q')))"
    and "u \<noteq> w"
  shows "everywhere c N 0 \<and> everywhere c N 1"
proof -
  have ok: "byz_ok c" and r: "bca_vreach c (iv_view N)" using fin iv_reach_inv(2) by (auto simp: iv_final_def)
  have "u = bot \<or> w = bot"
    using vreach_binding [OF r ok q(2) q(1), of w u] u w \<open>u \<noteq> w\<close> by auto
  then obtain x where "bot \<in> v_sentBind (iv_view N x)" using u w by auto
  then have "approved c (iv_view N x) 0" "approved c (iv_view N x) 1"
    using final_views(1) [OF fin, of x] unfolding bca_evidence_def by metis+
  then show ?thesis using approved_everywhere [OF fin] by (auto simp: approved_def)
qed

lemma all_bind_all_decide:
  assumes fin: "iv_final c N" and p: "p \<in> correct c"
    and bind: "\<forall>q \<in> correct c. ch_sent (bcastBindChan (ivnode N q)) \<noteq> []"
  shows "ch_sent (outputDecision (ivnode N p)) \<noteq> []"
proof -
  have ok: "byz_ok c" using fin by (simp add: iv_final_def)
  have dec: ?thesis if "ch_sent (terminateValChan (ivnode N p)) \<noteq> [] \<or> 2 \<le> length (ch_sent (terminateBotChan (ivnode N p)))"
    using idle_decides [OF final_node(1,3) [OF fin p] that] .
  have live: "live_bind c (vote_token (ivnode N p)) (ivnode N p)" using final_node(2) [OF fin p] by (simp add: iv_live_def)
  have got: "q \<in> bca_bound (ivnode N p) v" if "q \<in> correct c" "v \<in> set (ch_sent (bcastBindChan (ivnode N q)))" for q v
    using fin p that by (auto simp: iv_final_def iv_settled_def iv_delivered_def)
  have sub: "bca_bound (ivnode N p) v \<subseteq> procs c" for v using final_views(1) [OF fin, of p] by (simp add: bca_evidence_def)
  have sets: "inv_sets c (ivnode N p)" using final_node(1) [OF fin p] by (simp add: iv_inv_def)
  obtain v where v: "v \<in> set (ch_sent (bcastBindChan (ivnode N p)))" using bind p by (meson list.set_sel(1))
  show ?thesis
  proof (cases "\<forall>q \<in> correct c. v \<in> set (ch_sent (bcastBindChan (ivnode N q)))")
    case True
    then have "strong_quorum c (bca_bound (ivnode N p) v)"
      using byzq.strong_mono [OF ok byzq.correct_strong [OF ok] _ sub] got by blast
    then have "v \<in> set (ch_sent (terminateValChan (ivnode N p)))" using live by (simp add: live_bind_def)
    then show ?thesis using dec by fastforce
  next
    case False
    then obtain q u where "q \<in> correct c" "u \<in> set (ch_sent (bcastBindChan (ivnode N q)))" "u \<noteq> v"
      using bind by (metis list.set_sel(1))
    then have both: "vote_token (ivnode N p) \<or> ch_sent (outputDecision (ivnode N p)) \<noteq> []"
      using mixed_binds [OF fin _ p _ v] both_everywhere [OF fin p] by blast
    have "q \<in> all_bound (ivnode N p)" if q: "q \<in> correct c" for q
    proof -
      have "hd (ch_sent (bcastBindChan (ivnode N q))) \<in> set (ch_sent (bcastBindChan (ivnode N q)))" using bind q by simp
      then obtain w where "q \<in> bca_bound (ivnode N p) w" using got q by blast
      then show ?thesis using sets bot_cases [of w] by (auto simp: inv_sets_def all_bound_def)
    qed
    then have "strong_quorum c (all_bound (ivnode N p))"
      using sub by (intro byzq.strong_mono [OF ok byzq.correct_strong [OF ok]]) (auto simp: all_bound_def)
    then show ?thesis using live both dec by (auto simp: live_bind_def)
  qed
qed

text \<open>
  C22. Suppose every correct node has proposed in the first round, everything the correct nodes sent
  each other has been delivered, and no goroutine of theirs can take another step.  If every correct
  node that has decided has also broadcast its bind, then every correct node has decided.
\<close>

theorem first_round_decides:
  assumes "byz_ok c" and "int_sized c" and "iv_reach c N" and "iv_settled c N"
    and "\<forall>p \<in> correct c. ivprop N p \<noteq> {}"
    and "\<forall>p \<in> correct c. ch_sent (outputDecision (ivnode N p)) \<noteq> [] \<longrightarrow> ch_sent (bcastBindChan (ivnode N p)) \<noteq> []"
  shows "\<forall>p \<in> correct c. \<exists>v. ch_sent (outputDecision (ivnode N p)) = [v]"
proof
  fix p assume p: "p \<in> correct c"
  have fin: "iv_final c N" using assms(1-4) by (simp add: iv_final_def)
  have "\<forall>q \<in> correct c. ch_sent (bcastBindChan (ivnode N q)) \<noteq> []" using final_bind [OF fin assms(5)] assms(6) by blast
  then have "ch_sent (outputDecision (ivnode N p)) \<noteq> []" using all_bind_all_decide [OF fin p] by blast
  moreover have "length (ch_sent (outputDecision (ivnode N p))) \<le> 1"
    using inv_dec_sent final_node(1) [OF fin p] by (auto simp: iv_inv_def)
  ultimately show "\<exists>v. ch_sent (outputDecision (ivnode N p)) = [v]"
    by (cases "ch_sent (outputDecision (ivnode N p))") auto
qed

end
