(* ===== verification/BCA_Progress.thy ===== *)
theory BCA_Progress
  imports BCA_Liveness
begin

text \<open>
  The first round's agreement does finitely much work: \<open>iv_work\<close> bounds the steps that change a node, so
  every run comes to a settled state.
\<close>

section \<open>The work left\<close>

fun vote_rank :: "vote_pc \<Rightarrow> nat" where
  "vote_rank VFirst = 5"
| "vote_rank (VBcast _) = 4"
| "vote_rank VSecond = 3"
| "vote_rank VBindBot = 2"
| "vote_rank VTermBot = 1"
| "vote_rank VDone = 0"

fun bind_rank :: "bind_pc \<Rightarrow> nat" where
  "bind_rank BWait = 2"
| "bind_rank (BBcast _) = 1"
| "bind_rank BDone = 0"

fun decide_rank :: "decide_pc \<Rightarrow> nat" where
  "decide_rank DWait = 4"
| "decide_rank DWaitVal = 3"
| "decide_rank (DOut _) = 2"
| "decide_rank DUnblock = 1"
| "decide_rank DDone = 0"

definition pc_rank :: "ivbca \<Rightarrow> nat" where
  "pc_rank s = vote_rank (vote_pc s) + bind_rank (bind_pc s) + decide_rank (decide_pc s)"

definition msgs_left :: "net_cfg \<Rightarrow> ivbca \<Rightarrow> nat" where
  "msgs_left c s = (2 - length (ch_sent (bcastEchoChan s)))
     + card (procs c - bca_echoes s 0) + card (procs c - bca_echoes s 1)
     + card (procs c - bca_voted s 0) + card (procs c - bca_voted s 1)
     + card (procs c - bca_bound s 0) + card (procs c - bca_bound s 1) + card (procs c - bca_bound s bot)"

definition node_work :: "net_cfg \<Rightarrow> ivbca \<Rightarrow> nat" where
  "node_work c s = pc_rank s + msgs_left c s"

definition iv_work :: "net_cfg \<Rightarrow> iv_net \<Rightarrow> nat" where
  "iv_work c N = (\<Sum>p \<in> correct c. node_work c (ivnode N p))"

lemma card_diff_insert: "x \<in> P \<Longrightarrow> x \<notin> A \<Longrightarrow> card (P - insert x A) < card (P - A)" for P :: "uuid set"
  by (rule psubset_card_mono) auto

lemma run_work:
  assumes "iv_run s s'"
  shows "node_work c s' < node_work c s"
proof -
  consider b where "iv_waitToVote b s = Some s'" | b where "iv_waitToBind b s = Some s'" | b where "iv_waitToDecide b s = Some s'"
    using assms unfolding iv_run_def by blast
  then show ?thesis
  proof cases
    case 1
    then show ?thesis by (cases rule: iv_waitToVote_cases) (simp_all add: node_work_def pc_rank_def msgs_left_def)
  next
    case 2
    then show ?thesis by (cases rule: iv_waitToBind_cases) (simp_all add: node_work_def pc_rank_def msgs_left_def)
  next
    case 3
    then show ?thesis by (cases rule: iv_waitToDecide_cases) (auto simp: node_work_def pc_rank_def msgs_left_def)
  qed
qed

lemma propose_work:
  assumes "iv_inv c P s" and "iv_propose v coin s = (s', GoNil)"
  shows "s' = s \<or> node_work c s' < node_work c s"
proof -
  have e: "inv_echo c P s" and v: "isInputValid v" using assms by (auto simp: iv_inv_def iv_propose_def split: if_splits)
  show ?thesis
  proof (cases "sentEchoes s v")
    case True
    then show ?thesis using assms(2) v by (auto simp: iv_propose_def split: if_splits)
  next
    case False
    then have "length (ch_sent (bcastEchoChan s)) < 2"
      using e v by (intro valid_distinct_new [of v]) (auto simp: inv_echo_def)
    then show ?thesis using iv_propose_eq [OF e, of v coin] assms(2) v False
      by (auto simp: node_work_def pc_rank_def msgs_left_def split: if_splits)
  qed
qed

lemma echo_work:
  assumes "iv_inv c P s" and "x \<in> procs c" and "iv_submitEcho v x s = (s', r)"
  shows "s' = s \<or> node_work c s' < node_work c s"
proof (cases "isInputValid v \<and> x \<notin> bca_echoes s v")
  case True
  then obtain e a where s': "s' = count_echo v x e a s" using iv_submitEcho_eq [OF assms(1), of v x] assms(3) by auto
  have "length (ch_sent (bcastEchoChan s) @ emit e v) \<ge> length (ch_sent (bcastEchoChan s))" by simp
  moreover have "v = 0 \<or> v = 1" using True by (simp add: isInputValid_def)
  ultimately show ?thesis using card_diff_insert [OF assms(2), of "bca_echoes s v"] True unfolding s'
    by (auto simp: node_work_def pc_rank_def msgs_left_def count_echo_def)
qed (use assms(3) in \<open>auto simp: iv_submitEcho_def split: if_splits\<close>)

lemma vote_work:
  assumes "iv_inv c P s" and "x \<in> procs c" and "iv_submitVote v x s = (s', r)"
  shows "s' = s \<or> node_work c s' < node_work c s"
proof (cases "isInputValid v \<and> x \<notin> bca_voted s 0 \<and> x \<notin> bca_voted s 1")
  case True
  then obtain b where s': "s' = s\<lparr>bca_voted := (bca_voted s)(v := insert x (bca_voted s v)),
      bindValChan := (bindValChan s)\<lparr>ch_sent := ch_sent (bindValChan s) @ emit b v\<rparr>\<rparr>"
    using iv_submitVote_eq [OF assms(1), of v x] assms(3) by auto
  have "v = 0 \<or> v = 1" using True by (simp add: isInputValid_def)
  then show ?thesis using card_diff_insert [OF assms(2), of "bca_voted s v"] True unfolding s'
    by (auto simp: node_work_def pc_rank_def msgs_left_def)
qed (use assms(3) in \<open>auto simp: iv_submitVote_def split: if_splits\<close>)

lemma bind_work:
  assumes "iv_inv c P s" and "byz_ok c" and "x \<in> procs c" and "iv_submitBind v x s = (s', r)"
  shows "s' = s \<or> node_work c s' < node_work c s"
proof (cases "v \<le> bot \<and> x \<notin> bca_bound s 0 \<and> x \<notin> bca_bound s 1 \<and> x \<notin> bca_bound s bot")
  case True
  have "inv_sets c s" "inv_term c (vote_token s) s" using assms(1) by (simp_all add: iv_inv_def)
  then obtain t b where "iv_submitBind v x s = (count_bind v x t b s, GoNil)"
    using submitBind_eq [OF assms(2) _ _ assms(3)] True by blast
  then have s': "s' = count_bind v x t b s" using assms(4) by simp
  have "v = 0 \<or> v = 1 \<or> v = bot" using True bot_cases by blast
  then show ?thesis using card_diff_insert [OF assms(3), of "bca_bound s v"] True unfolding s'
    by (auto simp: node_work_def pc_rank_def msgs_left_def count_bind_def)
qed (use assms(4) in \<open>auto simp: iv_submitBind_def not_less split: if_splits\<close>)

lemma step_node_work:
  assumes "iv_step c N M" and ok: "byz_ok c" and inv: "\<And>p. iv_inv c (ivprop N p) (ivnode N p)"
  shows "\<exists>p s'. p \<in> correct c \<and> ivnode M = (ivnode N)(p := s')
    \<and> (s' = ivnode N p \<or> node_work c s' < node_work c (ivnode N p))"
  using assms(1)
proof cases
  case (propose p v s')
  then show ?thesis using propose_work [OF inv propose(3)] by auto
next
  case (echo p x v s' r)
  then show ?thesis using echo_work [OF inv echo(3,5)] by auto
next
  case (vote p x v s' r)
  then show ?thesis using vote_work [OF inv vote(3,5)] by auto
next
  case (bind p x v s' r)
  then show ?thesis using bind_work [OF inv ok bind(3,5)] by auto
next
  case (run p s')
  then show ?thesis using run_work [OF run(3)] by auto
qed

lemma step_work:
  assumes "iv_step c N M" and ok: "byz_ok c" and "iv_reach c N" and "ivnode M \<noteq> ivnode N"
  shows "iv_work c M < iv_work c N"
proof -
  obtain p s' where p: "p \<in> correct c" "ivnode M = (ivnode N)(p := s')"
    and s': "s' = ivnode N p \<or> node_work c s' < node_work c (ivnode N p)"
    using step_node_work [OF assms(1) ok iv_reach_inv(1) [OF assms(3) ok]] by blast
  have "s' \<noteq> ivnode N p" using p(2) assms(4) by auto
  with s' have less: "node_work c s' < node_work c (ivnode N p)" by simp
  show ?thesis unfolding iv_work_def
    by (rule sum_strict_mono_ex1) (use p less in auto)
qed

section \<open>Unsettled networks can move\<close>

lemma undelivered_moves:
  assumes "iv_reach c N" and ok: "byz_ok c" and "\<not> iv_delivered c N"
  shows "\<exists>M. iv_step c N M \<and> ivnode M \<noteq> ivnode N"
proof -
  obtain p x v where px: "p \<in> correct c" "x \<in> correct c"
    and undel: "v \<in> set (ch_sent (bcastEchoChan (ivnode N x))) \<and> x \<notin> bca_echoes (ivnode N p) v
      \<or> v \<in> set (ch_sent (bcastVoteChan (ivnode N x))) \<and> x \<notin> bca_voted (ivnode N p) v
      \<or> v \<in> set (ch_sent (bcastBindChan (ivnode N x))) \<and> x \<notin> bca_bound (ivnode N p) v"
    using assms(3) unfolding iv_delivered_def by blast
  have xp: "x \<in> procs c" using byzq.correct_procs [OF ok] px by blast
  note inv = iv_reach_inv(1) [OF assms(1) ok]
  note ev = vreach_evidence [OF iv_reach_inv(2) [OF assms(1) ok] ok]
  have h: "heard c (iv_view N) (iv_view N p)" using ev by blast
  consider (e) "v \<in> set (ch_sent (bcastEchoChan (ivnode N x)))" "x \<notin> bca_echoes (ivnode N p) v"
    | (vo) "v \<in> set (ch_sent (bcastVoteChan (ivnode N x)))" "x \<notin> bca_voted (ivnode N p) v"
    | (b) "v \<in> set (ch_sent (bcastBindChan (ivnode N x)))" "x \<notin> bca_bound (ivnode N p) v"
    using undel by blast
  then show ?thesis
  proof cases
    case e
    then have "isInputValid v" using inv [of x] by (simp add: iv_inv_def inv_echo_def)
    then obtain e a where op: "iv_submitEcho v x (ivnode N p) = (count_echo v x e a (ivnode N p), GoNil)"
      using iv_submitEcho_eq [OF inv _ e(2)] by blast
    have "bca_echoes (count_echo v x e a (ivnode N p)) v \<noteq> bca_echoes (ivnode N p) v" using e by (auto simp: count_echo_def)
    then show ?thesis using iv_step.echo [OF px(1) xp _ op] e(1)
      by (intro exI [of _ "put_iv p (count_echo v x e a (ivnode N p)) N"]) (auto simp: fun_upd_idem_iff)
  next
    case vo
    have "isInputValid v" using ev [of x] vo(1) unfolding bca_evidence_def by (metis iv_view_sel(7))
    moreover have "x \<notin> bca_voted (ivnode N p) u" if "u \<noteq> v" for u
      using h px(2) ev [of x] vo(1) that unfolding heard_def bca_evidence_def by (metis iv_view_sel(4,7))
    ultimately have new: "isInputValid v" "x \<notin> bca_voted (ivnode N p) 0" "x \<notin> bca_voted (ivnode N p) 1" using vo(2) by metis+
    then obtain s' where op: "iv_submitVote v x (ivnode N p) = (s', GoNil)" "bca_voted s' v = insert x (bca_voted (ivnode N p) v)"
      using iv_submitVote_eq [OF inv new] by auto
    then show ?thesis using iv_step.vote [OF px(1) xp _ op(1)] vo
      by (intro exI [of _ "put_iv p s' N"]) (auto simp: fun_upd_idem_iff)
  next
    case b
    have "u = v" if "x \<in> bca_bound (ivnode N p) u" for u
      using h px(2) ev [of x] b(1) that unfolding heard_def bca_evidence_def by (metis iv_view_sel(5,8))
    then have new: "x \<notin> bca_bound (ivnode N p) 0" "x \<notin> bca_bound (ivnode N p) 1" "x \<notin> bca_bound (ivnode N p) bot"
      using b(2) by metis+
    have le: "v \<le> bot" using ev [of x] b(1) by (auto simp: bca_evidence_def isInputValid_def bot_def split: if_splits)
    have "inv_sets c (ivnode N p)" "inv_term c (vote_token (ivnode N p)) (ivnode N p)" using inv [of p] by (simp_all add: iv_inv_def)
    then obtain t b' where op: "iv_submitBind v x (ivnode N p) = (count_bind v x t b' (ivnode N p), GoNil)"
      using submitBind_eq [OF ok _ _ xp le new] by blast
    have "bca_bound (count_bind v x t b' (ivnode N p)) v \<noteq> bca_bound (ivnode N p) v" using b by (auto simp: count_bind_def)
    then show ?thesis using iv_step.bind [OF px(1) xp _ op] b(1)
      by (intro exI [of _ "put_iv p (count_bind v x t b' (ivnode N p)) N"]) (auto simp: fun_upd_idem_iff)
  qed
qed

lemma unsettled_moves:
  assumes "iv_reach c N" and "byz_ok c" and "\<not> iv_settled c N"
  shows "\<exists>M. iv_step c N M \<and> ivnode M \<noteq> ivnode N"
proof (cases "iv_delivered c N")
  case True
  then obtain p s' where p: "p \<in> correct c" "iv_run (ivnode N p) s'"
    using assms(3) iv_idle_run unfolding iv_settled_def by blast
  then have "s' \<noteq> ivnode N p" using run_work [of "ivnode N p" s'] by (metis less_irrefl)
  then show ?thesis using iv_step.run [OF p] by (intro exI [of _ "put_iv p s' N"]) (auto simp: fun_upd_idem_iff)
qed (rule undelivered_moves [OF assms(1,2)])

lemma moves_wf: "byz_ok c \<Longrightarrow> wf {(M, N). iv_reach c N \<and> iv_step c N M \<and> ivnode M \<noteq> ivnode N}"
  by (rule wf_subset [OF wf_measure [of "iv_work c"]]) (auto intro: step_work)

text \<open>
  C23. No run of the first round's agreement changes the nodes' state for ever: the steps that change
  a node form a well-founded relation on the reachable states.
\<close>

theorem first_round_terminates:
  assumes "byz_ok c"
  shows "wf {(M, N). iv_reach c N \<and> iv_step c N M \<and> ivnode M \<noteq> ivnode N}"
  by (rule moves_wf [OF assms])

text \<open>
  C24. From every reachable state of the first round's agreement the network can go on to a settled
  one, by steps of the correct nodes and deliveries of their messages.
\<close>

theorem first_round_settles:
  assumes "byz_ok c" and "iv_reach c N"
  shows "\<exists>M. (iv_step c)\<^sup>*\<^sup>* N M \<and> iv_settled c M"
  using assms(2)
proof (induction N rule: wf_induct_rule [OF moves_wf [OF assms(1)]])
  case (1 N)
  show ?case
  proof (cases "iv_settled c N")
    case False
    then obtain M where M: "iv_step c N M" "ivnode M \<noteq> ivnode N" using unsettled_moves [OF 1(2) assms(1)] by blast
    then show ?thesis using 1 iv_reach.step [OF 1(2) M(1)] converse_rtranclp_into_rtranclp [of "iv_step c" N M] by blast
  qed blast
qed

end
