(* ===== verification/BCA_Run.thy ===== *)
theory BCA_Run
  imports BCA_Progress
begin

text \<open>
  Concrete runs of the first round's agreement in the configuration of \<^verbatim>\<open>config.properties\<close>, given as
  lists of events: one in which the correct nodes agree at once, and one in which a Byzantine node
  makes one correct node decide before it binds, and the others then wait for ever.
\<close>

datatype iv_event =
    IPropose uuid byte
  | IEcho uuid byte uuid
  | IVote uuid byte uuid
  | IBind uuid byte uuid
  | IVoter uuid bool
  | IBinder uuid bool
  | IDecider uuid bool

text \<open>The state after an event, or \<open>None\<close> when the network does not allow it.\<close>

fun iv_apply :: "net_cfg \<Rightarrow> iv_event \<Rightarrow> iv_net \<Rightarrow> iv_net option" where
  "iv_apply c (IPropose p v) N =
     (if p \<in> correct c \<and> snd (iv_propose v bot (ivnode N p)) = GoNil
      then Some (put_prop p v (put_iv p (fst (iv_propose v bot (ivnode N p))) N)) else None)"
| "iv_apply c (IEcho p v x) N =
     (if p \<in> correct c \<and> x \<in> procs c \<and> (x \<in> correct c \<longrightarrow> v \<in> set (ch_sent (bcastEchoChan (ivnode N x))))
      then Some (put_iv p (fst (iv_submitEcho v x (ivnode N p))) N) else None)"
| "iv_apply c (IVote p v x) N =
     (if p \<in> correct c \<and> x \<in> procs c \<and> (x \<in> correct c \<longrightarrow> v \<in> set (ch_sent (bcastVoteChan (ivnode N x))))
      then Some (put_iv p (fst (iv_submitVote v x (ivnode N p))) N) else None)"
| "iv_apply c (IBind p v x) N =
     (if p \<in> correct c \<and> x \<in> procs c \<and> (x \<in> correct c \<longrightarrow> v \<in> set (ch_sent (bcastBindChan (ivnode N x))))
      then Some (put_iv p (fst (iv_submitBind v x (ivnode N p))) N) else None)"
| "iv_apply c (IVoter p b) N =
     (if p \<in> correct c then map_option (\<lambda>s. put_iv p s N) (iv_waitToVote b (ivnode N p)) else None)"
| "iv_apply c (IBinder p b) N =
     (if p \<in> correct c then map_option (\<lambda>s. put_iv p s N) (iv_waitToBind b (ivnode N p)) else None)"
| "iv_apply c (IDecider p b) N =
     (if p \<in> correct c then map_option (\<lambda>s. put_iv p s N) (iv_waitToDecide b (ivnode N p)) else None)"

fun iv_exec :: "net_cfg \<Rightarrow> iv_event list \<Rightarrow> iv_net \<Rightarrow> iv_net option" where
  "iv_exec c [] N = Some N"
| "iv_exec c (e # es) N = Option.bind (iv_apply c e N) (iv_exec c es)"

lemma iv_apply_step: "iv_apply c e N = Some M \<Longrightarrow> iv_step c N M"
proof (cases e)
  case (IPropose p v)
  assume "iv_apply c e N = Some M"
  with IPropose show ?thesis using iv_step.propose [of p c v N "fst (iv_propose v bot (ivnode N p))"]
    by (auto simp: prod_eq_iff split: if_splits)
next
  case (IEcho p v x)
  assume "iv_apply c e N = Some M"
  with IEcho show ?thesis using iv_step.echo [OF _ _ _ surjective_pairing] by (auto split: if_splits)
next
  case (IVote p v x)
  assume "iv_apply c e N = Some M"
  with IVote show ?thesis using iv_step.vote [OF _ _ _ surjective_pairing] by (auto split: if_splits)
next
  case (IBind p v x)
  assume "iv_apply c e N = Some M"
  with IBind show ?thesis using iv_step.bind [OF _ _ _ surjective_pairing] by (auto split: if_splits)
qed (auto simp: iv_run_def intro!: iv_step.run split: if_splits)

lemma iv_exec_reach: "iv_exec c es N = Some M \<Longrightarrow> iv_reach c N \<Longrightarrow> iv_reach c M"
  by (induction es arbitrary: N) (auto simp: Option.bind_eq_Some_conv dest: iv_apply_step intro: iv_reach.step)

abbreviation nA :: uuid where "nA \<equiv> uid 1"
abbreviation nB :: uuid where "nB \<equiv> uid 2"
abbreviation nC :: uuid where "nC \<equiv> uid 3"
abbreviation nD :: uuid where "nD \<equiv> uid 4"

definition to_all :: "(uuid \<Rightarrow> uuid \<Rightarrow> iv_event) \<Rightarrow> iv_event list" where
  "to_all f = concat (map (\<lambda>p. map (f p) [nA, nB, nC]) [nA, nB, nC])"

definition each :: "(uuid \<Rightarrow> iv_event) \<Rightarrow> iv_event list" where
  "each f = map f [nA, nB, nC]"

definition unanimous_events :: "iv_event list" where
  "unanimous_events = each (\<lambda>p. IPropose p 1) @ to_all (\<lambda>p x. IEcho p 1 x)
     @ each (\<lambda>p. IVoter p False) @ each (\<lambda>p. IVoter p False) @ to_all (\<lambda>p x. IVote p 1 x)
     @ each (\<lambda>p. IBinder p False) @ each (\<lambda>p. IBinder p False) @ to_all (\<lambda>p x. IBind p 1 x)
     @ each (\<lambda>p. IDecider p False) @ each (\<lambda>p. IDecider p False) @ each (\<lambda>p. IDecider p False)
     @ each (\<lambda>p. IVoter p True)"

definition stall_events :: "iv_event list" where
  "stall_events =
    \<comment> \<open>node 1 proposes 1, the others 0; the faulty node echoes both to everyone\<close>
    [IPropose nA 1, IPropose nB 0, IPropose nC 0, IEcho nB 1 nA, IEcho nB 1 nD,
     IEcho nA 1 nA, IEcho nA 1 nB, IEcho nA 1 nD, IVoter nA False, IVoter nA False,
     IEcho nB 0 nB, IEcho nB 0 nC, IEcho nB 0 nD, IVoter nB False, IVoter nB False,
     IEcho nC 0 nB, IEcho nC 0 nC, IEcho nC 0 nD, IVoter nC False, IVoter nC False,
    \<comment> \<open>the faulty node votes 0 at nodes 2 and 3 only, and binds 0 at node 1 only\<close>
     IVote nB 0 nB, IVote nB 0 nC, IVote nB 0 nD, IBinder nB False, IBinder nB False,
     IVote nC 0 nB, IVote nC 0 nC, IVote nC 0 nD, IBinder nC False, IBinder nC False,
     IBind nA 0 nB, IBind nA 0 nC, IBind nA 0 nD,
     IDecider nA False, IDecider nA False, IDecider nA False, IVoter nA True,
    \<comment> \<open>everything else the correct nodes have sent is delivered\<close>
     IEcho nA 0 nB, IEcho nA 0 nC, IEcho nA 0 nA, IEcho nB 0 nA, IEcho nC 0 nA,
     IEcho nC 1 nA, IEcho nC 1 nB, IEcho nC 1 nC, IEcho nB 1 nB, IEcho nB 1 nC, IEcho nA 1 nC,
     IVoter nB False, IVoter nB False, IVoter nB False, IVoter nC False, IVoter nC False, IVoter nC False,
     IVote nA 1 nA, IVote nA 0 nB, IVote nA 0 nC, IVote nB 1 nA, IVote nC 1 nA,
     IBind nB 0 nB, IBind nB 0 nC, IBind nC 0 nB, IBind nC 0 nC,
     IDecider nB True, IDecider nC True]"

definition run_ends :: "iv_event list \<Rightarrow> (iv_net \<Rightarrow> bool) \<Rightarrow> bool" where
  "run_ends es Q = (case iv_exec default_cfg es (iv_init default_cfg) of None \<Rightarrow> False | Some N \<Rightarrow> Q N)"

lemma run_ends_reach:
  assumes "run_ends es Q"
  shows "\<exists>N. iv_reach default_cfg N \<and> Q N"
  using assms iv_exec_reach [OF _ iv_reach.init, of default_cfg es] by (auto simp: run_ends_def split: option.splits)

text \<open>The conditions on the final states of the two runs.\<close>

definition all_decided :: "byte \<Rightarrow> iv_net \<Rightarrow> bool" where
  "all_decided v N \<longleftrightarrow> iv_settled default_cfg N \<and> (\<forall>p \<in> {nA, nB, nC}. ivprop N p \<noteq> {}
     \<and> ch_sent (outputDecision (ivnode N p)) = [v] \<and> ch_sent (bcastBindChan (ivnode N p)) = [v])"

definition one_decided :: "byte \<Rightarrow> iv_net \<Rightarrow> bool" where
  "one_decided v N \<longleftrightarrow> iv_settled default_cfg N \<and> (\<forall>p \<in> {nA, nB, nC}. ivprop N p \<noteq> {})
     \<and> ch_sent (outputDecision (ivnode N nA)) = [v] \<and> ch_sent (bcastBindChan (ivnode N nA)) = []
     \<and> ch_sent (outputDecision (ivnode N nB)) = [] \<and> ch_sent (outputDecision (ivnode N nC)) = []"

lemma unanimous_run: "run_ends unanimous_events (all_decided 1)"
  by code_simp

lemma stall_run: "run_ends stall_events (one_decided 0)"
  by code_simp

lemma default_int_sized [simp]: "int_sized default_cfg"
  by (simp add: int_sized_def)

text \<open>Witness: the three correct nodes propose 1 and everything is delivered; all of them decide.\<close>

theorem first_round_decides_witness:
  "\<exists>N. iv_reach default_cfg N \<and> iv_settled default_cfg N
     \<and> (\<exists>v. ch_sent (outputDecision (ivnode N nA)) = [v]) \<and> (\<exists>v. ch_sent (outputDecision (ivnode N nB)) = [v])
     \<and> (\<exists>v. ch_sent (outputDecision (ivnode N nC)) = [v])"
proof -
  obtain N where N: "iv_reach default_cfg N" "all_decided 1 N" using run_ends_reach [OF unanimous_run] by blast
  then show ?thesis using first_round_decides [OF default_cfg_ok default_int_sized N(1)]
    by (intro exI [of _ N]) (simp add: all_decided_def)
qed

text \<open>Witnesses for termination and settling: the configuration of four nodes, from its initial state.\<close>

theorem first_round_terminates_witness:
  "wf {(M, N). iv_reach default_cfg N \<and> iv_step default_cfg N M \<and> ivnode M \<noteq> ivnode N}"
  using first_round_terminates [OF default_cfg_ok] .

theorem first_round_settles_witness:
  "\<exists>M. (iv_step default_cfg)\<^sup>*\<^sup>* (iv_init default_cfg) M \<and> iv_settled default_cfg M"
  using first_round_settles [OF default_cfg_ok iv_reach.init] .

text \<open>
  C38. The first round's agreement need not end.  With four nodes, one of them Byzantine, there is a
  run in which every correct node has proposed, every message between correct nodes has been
  delivered and no goroutine can move, and yet only one correct node has decided: it decided on the
  binds of the others and of the faulty node, \<^verbatim>\<open>waitToVote\<close> then took \<^verbatim>\<open>unblockChan\<close> instead of its
  second approved value, so it never binds, and the two other correct nodes wait for its bind.
\<close>

theorem first_round_can_stall:
  "\<exists>N. iv_reach default_cfg N \<and> iv_settled default_cfg N \<and> ivprop N nA \<noteq> {} \<and> ivprop N nB \<noteq> {} \<and> ivprop N nC \<noteq> {}
     \<and> ch_sent (outputDecision (ivnode N nA)) = [0] \<and> ch_sent (bcastBindChan (ivnode N nA)) = []
     \<and> ch_sent (outputDecision (ivnode N nB)) = [] \<and> ch_sent (outputDecision (ivnode N nC)) = []"
proof -
  obtain N where N: "iv_reach default_cfg N" "one_decided 0 N" using run_ends_reach [OF stall_run] by blast
  then show ?thesis by (intro exI [of _ N]) (simp add: one_decided_def)
qed

end
