(* ===== verification/MMR_Queue.thy ===== *)
theory MMR_Queue
  imports MMR_Growth
begin

text \<open>
  The command queue of one binary agreement, \<^verbatim>\<open>concurrentMMR.go\<close>.  A call hands its command to the unbuffered
  channel \<^verbatim>\<open>commands\<close> and waits; the invoker takes any waiting command and runs it to its end before it takes
  the next.  The listener turns externally valid values into commands, and \<^verbatim>\<open>close\<close> stops both after a
  delay.  Decisions of other nodes go past the queue.  The refinement shows that a network of such nodes
  does nothing that the network of \<open>MMR_Network\<close> does not do.
\<close>

section \<open>State\<close>

datatype mmr_cmd =
    CmdPropose byte
  | CmdEcho byte uuid uint16
  | CmdVote byte uuid uint16
  | CmdBind byte uuid uint16
  | CmdCoin byte uint16
  | CmdExt byte uint16

datatype close_pc = CloseListener | CloseInvoker | CloseDone

text \<open>
  \<open>cm_commands\<close> are the commands that wait to be taken, \<open>cm_busy\<close> the one the invoker is running,
  \<open>cm_returned\<close> what the callers were answered, \<open>cm_closers\<close> the goroutines started by \<^verbatim>\<open>close\<close>.
\<close>

record concurrentMMR =
  cm_mmr :: mmr
  cm_commands :: "mmr_cmd list"
  cm_busy :: "mmr_cmd option"
  cm_returned :: "(mmr_cmd \<times> mmr_error outcome) list"
  closeListenerChan :: "unit chan"
  closeInvokerChan :: "unit chan"
  cm_listening :: bool
  cm_invoking :: bool
  cm_closers :: "close_pc list"

definition newConcurrentMMR :: "uint \<Rightarrow> uint \<Rightarrow> concurrentMMR" where
  "newConcurrentMMR n f = \<lparr>cm_mmr = newMMR n f, cm_commands = [], cm_busy = None, cm_returned = [],
     closeListenerChan = make_chan 1, closeInvokerChan = make_chan 1, cm_listening = True, cm_invoking = True,
     cm_closers = []\<rparr>"

section \<open>Calls\<close>

definition cm_schedule :: "mmr_cmd \<Rightarrow> concurrentMMR \<Rightarrow> concurrentMMR" where
  "cm_schedule cmd s = s\<lparr>cm_commands := cm_commands s @ [cmd]\<rparr>"

definition cm_propose :: "byte \<Rightarrow> concurrentMMR \<Rightarrow> concurrentMMR" where
  "cm_propose est = cm_schedule (CmdPropose est)"

definition cm_submitEcho :: "byte \<Rightarrow> uuid \<Rightarrow> uint16 \<Rightarrow> concurrentMMR \<Rightarrow> concurrentMMR" where
  "cm_submitEcho echo sender r = cm_schedule (CmdEcho echo sender r)"

definition cm_submitVote :: "byte \<Rightarrow> uuid \<Rightarrow> uint16 \<Rightarrow> concurrentMMR \<Rightarrow> concurrentMMR" where
  "cm_submitVote vote sender r = cm_schedule (CmdVote vote sender r)"

definition cm_submitBind :: "byte \<Rightarrow> uuid \<Rightarrow> uint16 \<Rightarrow> concurrentMMR \<Rightarrow> concurrentMMR" where
  "cm_submitBind bind sender r = cm_schedule (CmdBind bind sender r)"

definition cm_submitCoin :: "byte \<Rightarrow> uint16 \<Rightarrow> concurrentMMR \<Rightarrow> concurrentMMR" where
  "cm_submitCoin coin r = cm_schedule (CmdCoin coin r)"

definition cm_submitDecision :: "byte \<Rightarrow> uuid \<Rightarrow> concurrentMMR \<Rightarrow> concurrentMMR \<times> mmr_error outcome" where
  "cm_submitDecision decision sender s =
     (case mmr_submitDecision decision sender (cm_mmr s) of (m, r) \<Rightarrow> (s\<lparr>cm_mmr := m\<rparr>, r))"

definition cm_close :: "concurrentMMR \<Rightarrow> concurrentMMR" where
  "cm_close s = s\<lparr>cm_closers := cm_closers s @ [CloseListener]\<rparr>"

section \<open>Goroutines\<close>

fun run_command :: "mmr_cmd \<Rightarrow> mmr \<Rightarrow> mmr \<times> mmr_error outcome" where
  "run_command (CmdPropose est) m = mmr_propose est bot firstRound m"
| "run_command (CmdEcho v x r) m = mmr_submitEcho v x r m"
| "run_command (CmdVote v x r) m = mmr_submitVote v x r m"
| "run_command (CmdBind v x r) m = mmr_submitBind v x r m"
| "run_command (CmdCoin v r) m = mmr_submitCoin v r m"
| "run_command (CmdExt v r) m = (case mmr_submitExternallyValid v r m of
     (m', res) \<Rightarrow> (m', if res = GoBlocked then GoBlocked else GoNil))"

text \<open>The invoker takes the waiting command \<open>k\<close>; it runs it when that can return, and answers the caller.\<close>

definition cm_take :: "nat \<Rightarrow> concurrentMMR \<Rightarrow> concurrentMMR option" where
  "cm_take k s =
     (if cm_invoking s \<and> cm_busy s = None \<and> k < length (cm_commands s)
      then Some (s\<lparr>cm_busy := Some (cm_commands s ! k),
             cm_commands := take k (cm_commands s) @ drop (Suc k) (cm_commands s)\<rparr>)
      else None)"

definition cm_run :: "concurrentMMR \<Rightarrow> concurrentMMR option" where
  "cm_run s =
     (case cm_busy s of
        None \<Rightarrow> None
      | Some cmd \<Rightarrow>
          (case run_command cmd (cm_mmr s) of
             (m, r) \<Rightarrow> if r = GoBlocked then None
                        else Some (s\<lparr>cm_mmr := m, cm_busy := None, cm_returned := cm_returned s @ [(cmd, r)]\<rparr>)))"

definition cm_invoker_close :: "concurrentMMR \<Rightarrow> concurrentMMR option" where
  "cm_invoker_close s =
     (if cm_invoking s \<and> cm_busy s = None
      then recv_then closeInvokerChan closeInvokerChan_update
             (\<lambda>_ s. s\<lparr>cm_mmr := mmr_close (cm_mmr s), cm_invoking := False\<rparr>) s
      else None)"

definition cm_listen :: "concurrentMMR \<Rightarrow> concurrentMMR option" where
  "cm_listen s =
     (if cm_listening s
      then map_option (\<lambda>((v, r), m). cm_schedule (CmdExt v r) (s\<lparr>cm_mmr := m\<rparr>)) (listenExternallyValid (cm_mmr s))
      else None)"

definition cm_listener_close :: "concurrentMMR \<Rightarrow> concurrentMMR option" where
  "cm_listener_close s =
     (if cm_listening s
      then recv_then closeListenerChan closeListenerChan_update (\<lambda>_. cm_listening_update (\<lambda>_. False)) s else None)"

text \<open>The \<open>j\<close>-th goroutine of \<^verbatim>\<open>close\<close>, after its delay: it signals the listener, then the invoker.\<close>

definition cm_closer :: "nat \<Rightarrow> concurrentMMR \<Rightarrow> concurrentMMR option" where
  "cm_closer j s =
     (if j < length (cm_closers s)
      then (case cm_closers s ! j of
              CloseListener \<Rightarrow> send_then closeListenerChan closeListenerChan_update ()
                (cm_closers_update (\<lambda>pcs. pcs[j := CloseInvoker])) s
            | CloseInvoker \<Rightarrow> send_then closeInvokerChan closeInvokerChan_update ()
                (cm_closers_update (\<lambda>pcs. pcs[j := CloseDone])) s
            | CloseDone \<Rightarrow> None)
      else None)"

text \<open>The goroutines of the agreement itself: of its rounds, its listeners and \<^verbatim>\<open>reachDecision\<close>.\<close>

definition cm_inner :: "concurrentMMR \<Rightarrow> concurrentMMR \<Rightarrow> bool" where
  "cm_inner s s' \<longleftrightarrow> (\<exists>m'. s' = s\<lparr>cm_mmr := m'\<rparr> \<and>
     ((\<exists>r. bca_steps r (cm_mmr s) m') \<or> (\<exists>r. mmr_execRound r (cm_mmr s) = Some m')
      \<or> (\<exists>q r. listenRequests q r (cm_mmr s) = Some m') \<or> (\<exists>b. reachDecision b (cm_mmr s) = Some m')
      \<or> (\<exists>d. mmr_takeDecision (cm_mmr s) = Some (d, m'))))"

definition cm_goroutine :: "concurrentMMR \<Rightarrow> concurrentMMR \<Rightarrow> bool" where
  "cm_goroutine s s' \<longleftrightarrow> (\<exists>k. cm_take k s = Some s') \<or> cm_invoker_close s = Some s' \<or> cm_listen s = Some s'
     \<or> cm_listener_close s = Some s' \<or> (\<exists>j. cm_closer j s = Some s') \<or> cm_inner s s'"

section \<open>A network of queues\<close>

record cm_net =
  cnode :: "uuid \<Rightarrow> concurrentMMR"
  cinputs :: "uuid \<Rightarrow> byte set"

definition cm_init :: "net_cfg \<Rightarrow> cm_net" where
  "cm_init c = \<lparr>cnode = (\<lambda>_. newConcurrentMMR (cfg_n c) (cfg_f c)), cinputs = (\<lambda>_. {})\<rparr>"

definition put_cm :: "uuid \<Rightarrow> concurrentMMR \<Rightarrow> cm_net \<Rightarrow> cm_net" where
  "put_cm p s N = N\<lparr>cnode := (cnode N)(p := s)\<rparr>"

definition cm_note :: "uuid \<Rightarrow> mmr_cmd option \<Rightarrow> cm_net \<Rightarrow> cm_net" where
  "cm_note p cmd N = (case cmd of
     Some (CmdPropose est) \<Rightarrow> N\<lparr>cinputs := (cinputs N)(p := insert est (cinputs N p))\<rparr> | _ \<Rightarrow> N)"

text \<open>The calls the owner of a queue makes: what a correct sender has sent, and coins that were requested.\<close>

fun allowed :: "net_cfg \<Rightarrow> (uint16 \<Rightarrow> byte) \<Rightarrow> (uuid \<Rightarrow> mmr) \<Rightarrow> uuid \<Rightarrow> mmr_cmd \<Rightarrow> bool" where
  "allowed c coin M p (CmdPropose est) = True"
| "allowed c coin M p (CmdEcho v x r) = (x \<in> procs c \<and> (x \<in> correct c \<longrightarrow> (v, r) \<in> set (deliverEcho (M x))))"
| "allowed c coin M p (CmdVote v x r) = (x \<in> procs c \<and> (x \<in> correct c \<longrightarrow> (v, r) \<in> set (deliverVote (M x))))"
| "allowed c coin M p (CmdBind v x r) = (x \<in> procs c \<and> (x \<in> correct c \<longrightarrow> (v, r) \<in> set (deliverBind (M x))))"
| "allowed c coin M p (CmdCoin v r) = (v = coin r \<and> r \<in> set (coinReq (M p)))"
| "allowed c coin M p (CmdExt v r) = ((v, r) \<in> set (deliverExternallyValid (M p)))"

definition cm_mmrs :: "cm_net \<Rightarrow> uuid \<Rightarrow> mmr" where
  "cm_mmrs N p = cm_mmr (cnode N p)"

inductive cm_step :: "net_cfg \<Rightarrow> (uint16 \<Rightarrow> byte) \<Rightarrow> cm_net \<Rightarrow> cm_net \<Rightarrow> bool" for c coin where
  call: "\<lbrakk>p \<in> correct c; allowed c coin (cm_mmrs N) p cmd\<rbrakk>
     \<Longrightarrow> cm_step c coin N (put_cm p (cm_schedule cmd (cnode N p)) N)"
| decision: "\<lbrakk>p \<in> correct c; x \<in> procs c; x \<in> correct c \<longrightarrow> v \<in> set (ch_sent (deliverDecision (cm_mmrs N x)))\<rbrakk>
     \<Longrightarrow> cm_step c coin N (put_cm p (fst (cm_submitDecision v x (cnode N p))) N)"
| run: "\<lbrakk>p \<in> correct c; cm_run (cnode N p) = Some s'\<rbrakk>
     \<Longrightarrow> cm_step c coin N (cm_note p (cm_busy (cnode N p)) (put_cm p s' N))"
| goroutine: "\<lbrakk>p \<in> correct c; cm_goroutine (cnode N p) s'\<rbrakk> \<Longrightarrow> cm_step c coin N (put_cm p s' N)"
| close: "p \<in> correct c \<Longrightarrow> cm_step c coin N (put_cm p (cm_close (cnode N p)) N)"

inductive cm_reach :: "net_cfg \<Rightarrow> (uint16 \<Rightarrow> byte) \<Rightarrow> cm_net \<Rightarrow> bool" for c coin where
  init: "cm_reach c coin (cm_init c)"
| step: "cm_reach c coin N \<Longrightarrow> cm_step c coin N M \<Longrightarrow> cm_reach c coin M"

definition cm_abs :: "cm_net \<Rightarrow> aba_net" where
  "cm_abs N = \<lparr>mnode = cm_mmrs N, inputs = cinputs N\<rparr>"

section \<open>Refinement\<close>

definition cm_cmds :: "concurrentMMR \<Rightarrow> mmr_cmd set" where
  "cm_cmds s = set (cm_commands s) \<union> set_option (cm_busy s)"

definition cm_ok :: "net_cfg \<Rightarrow> (uint16 \<Rightarrow> byte) \<Rightarrow> cm_net \<Rightarrow> bool" where
  "cm_ok c coin N \<longleftrightarrow> (\<forall>p. \<forall>cmd \<in> cm_cmds (cnode N p). allowed c coin (cm_mmrs N) p cmd)"

lemma allowed_mono:
  assumes "\<And>q. mmr_grow (M q) (M' q)" and "allowed c coin M p cmd"
  shows "allowed c coin M' p cmd"
proof -
  have "set (deliverEcho (M q)) \<subseteq> set (deliverEcho (M' q))" "set (deliverVote (M q)) \<subseteq> set (deliverVote (M' q))"
    "set (deliverBind (M q)) \<subseteq> set (deliverBind (M' q))" "set (coinReq (M q)) \<subseteq> set (coinReq (M' q))"
    "set (deliverExternallyValid (M q)) \<subseteq> set (deliverExternallyValid (M' q))" for q
    using assms(1) [of q] by (simp_all add: mmr_grow_def)
  from subsetD [OF this(1)] subsetD [OF this(2)] subsetD [OF this(3)] subsetD [OF this(4)] subsetD [OF this(5)]
  show ?thesis using assms(2) by (cases cmd) simp_all
qed

lemma run_command_abs:
  assumes p: "p \<in> correct c" and a: "allowed c coin (cm_mmrs N) p cmd" and r: "run_command cmd (cm_mmrs N p) = (m', r)"
    and nb: "r \<noteq> GoBlocked"
  shows "aba_step c coin (cm_abs N) (cm_abs (cm_note p (Some cmd) (put_cm p ((cnode N p)\<lparr>cm_mmr := m'\<rparr>) N)))"
proof -
  have abs: "cm_abs (put_cm p ((cnode N p)\<lparr>cm_mmr := m'\<rparr>) N) = set_node p m' (cm_abs N)"
    by (auto simp: cm_abs_def put_cm_def cm_mmrs_def set_node_def fun_eq_iff)
  have m: "mnode (cm_abs N) q = cm_mmrs N q" for q by (simp add: cm_abs_def)
  show ?thesis
  proof (cases cmd)
    case (CmdPropose est)
    then have "m' = fst (concurrent_propose est (cm_mmrs N p))" using r by (simp add: concurrent_propose_def)
    moreover have "cm_abs (cm_note p (Some cmd) (put_cm p ((cnode N p)\<lparr>cm_mmr := m'\<rparr>) N)) =
        (set_node p m' (cm_abs N))\<lparr>inputs := (inputs (cm_abs N))(p := insert est (inputs (cm_abs N) p))\<rparr>"
      using CmdPropose by (auto simp: cm_note_def cm_abs_def put_cm_def cm_mmrs_def set_node_def fun_eq_iff)
    ultimately show ?thesis using aba_step.propose [OF p, of coin "cm_abs N" est] by (simp add: m)
  next
    case (CmdEcho v x k)
    then show ?thesis using aba_step.echo [OF p, of x v k "cm_abs N" coin] a r abs by (simp add: m cm_note_def)
  next
    case (CmdVote v x k)
    then show ?thesis using aba_step.vote [OF p, of x v k "cm_abs N" coin] a r abs by (simp add: m cm_note_def)
  next
    case (CmdBind v x k)
    then show ?thesis using aba_step.bind [OF p, of x v k "cm_abs N" coin] a r abs by (simp add: m cm_note_def)
  next
    case (CmdCoin v k)
    then show ?thesis using aba_step.coin [OF p, of k "cm_abs N" coin m' r] a r nb abs by (simp add: m cm_note_def)
  next
    case (CmdExt v k)
    have "fst (run_command cmd (cm_mmrs N p)) = fst (mmr_submitExternallyValid v k (cm_mmrs N p))" using CmdExt by (simp split: prod.split)
    then have "m' = fst (mmr_submitExternallyValid v k (cm_mmrs N p))" using r by simp
    then show ?thesis using aba_step.goroutine [OF p, of "cm_abs N" m' coin] mmr_goroutineI(8) [of v k "cm_mmrs N p"] CmdExt a abs
      by (simp add: m cm_note_def)
  qed
qed

text \<open>Every step of a queue is a step of its agreement or leaves the agreement as it was.\<close>

definition cm_moves :: "net_cfg \<Rightarrow> (uint16 \<Rightarrow> byte) \<Rightarrow> cm_net \<Rightarrow> cm_net \<Rightarrow> bool" where
  "cm_moves c coin N M \<longleftrightarrow> cm_abs M = cm_abs N \<or> aba_step c coin (cm_abs N) (cm_abs M)"

lemma cm_abs_put: "cm_abs (put_cm p s N) = set_node p (cm_mmr s) (cm_abs N)"
  by (auto simp: cm_abs_def put_cm_def cm_mmrs_def set_node_def fun_eq_iff)

lemma cm_abs_quiet: "cm_mmr s = cm_mmr (cnode N p) \<Longrightarrow> cm_abs (put_cm p s N) = cm_abs N"
  by (auto simp: put_cm_def cm_abs_def cm_mmrs_def fun_eq_iff)

lemma cm_abs_goroutine:
  assumes "p \<in> correct c" and "mmr_goroutine (cm_mmr (cnode N p)) (cm_mmr s')"
  shows "cm_moves c coin N (put_cm p s' N)"
  using aba_step.goroutine [OF assms(1), of "cm_abs N" "cm_mmr s'" coin] assms(2)
  by (simp add: cm_moves_def cm_abs_put) (simp add: cm_abs_def cm_mmrs_def)

lemma cm_goroutine_abs:
  assumes p: "p \<in> correct c" and g: "cm_goroutine (cnode N p) s'"
  shows "cm_moves c coin N (put_cm p s' N)"
proof -
  consider (take) k where "cm_take k (cnode N p) = Some s'" | (iclose) "cm_invoker_close (cnode N p) = Some s'"
    | (listen) "cm_listen (cnode N p) = Some s'" | (lclose) "cm_listener_close (cnode N p) = Some s'"
    | (closer) j where "cm_closer j (cnode N p) = Some s'" | (inner) "cm_inner (cnode N p) s'"
    using g unfolding cm_goroutine_def by blast
  then show ?thesis
  proof cases
    case take
    then show ?thesis using cm_abs_quiet [of s' N p] by (auto simp: cm_moves_def cm_take_def split: if_splits)
  next
    case iclose
    then have "cm_mmr s' = mmr_close (cm_mmr (cnode N p))"
      by (auto simp: cm_invoker_close_def split: if_splits dest: recv_thenD)
    then show ?thesis using cm_abs_goroutine [OF p] mmr_goroutineI(6) by simp
  next
    case listen
    then obtain v r m where "listenExternallyValid (cm_mmr (cnode N p)) = Some ((v, r), m)" "cm_mmr s' = m"
      by (auto simp: cm_listen_def cm_schedule_def split: if_splits)
    then show ?thesis using cm_abs_goroutine [OF p] mmr_goroutineI(5) by simp
  next
    case lclose
    then show ?thesis using cm_abs_quiet [of s' N p]
      by (auto simp: cm_moves_def cm_listener_close_def split: if_splits dest: recv_thenD)
  next
    case closer
    then show ?thesis using cm_abs_quiet [of s' N p]
      by (auto simp: cm_moves_def cm_closer_def split: if_splits close_pc.splits dest: send_thenE)
  next
    case inner
    then have "mmr_goroutine (cm_mmr (cnode N p)) (cm_mmr s')"
      unfolding cm_inner_def mmr_goroutine_def by auto
    then show ?thesis by (rule cm_abs_goroutine [OF p])
  qed
qed

lemma cm_step_abs:
  assumes "cm_step c coin N M" and "cm_ok c coin N"
  shows "cm_moves c coin N M"
  using assms(1)
proof cases
  case (call p cmd)
  then show ?thesis by (simp add: cm_moves_def cm_abs_quiet cm_schedule_def)
next
  case (decision p x v)
  have "cm_mmr (fst (cm_submitDecision v x (cnode N p))) = fst (mmr_submitDecision v x (cm_mmrs N p))"
    by (simp add: cm_submitDecision_def cm_mmrs_def split: prod.split)
  then show ?thesis using aba_step.decision [OF decision(2,3), of v "cm_abs N" coin] decision
    by (simp add: cm_moves_def cm_abs_put) (simp add: cm_abs_def)
next
  case (run p s')
  obtain cmd m r where b: "cm_busy (cnode N p) = Some cmd" "run_command cmd (cm_mmrs N p) = (m, r)" "r \<noteq> GoBlocked"
    and s': "cm_mmr s' = m"
    using run(3) by (auto simp: cm_run_def cm_mmrs_def split: option.splits prod.splits if_splits)
  have "allowed c coin (cm_mmrs N) p cmd" using assms(2) b(1) by (auto simp: cm_ok_def cm_cmds_def)
  from run_command_abs [OF run(2) this b(2,3)]
  have "aba_step c coin (cm_abs N) (cm_abs (cm_note p (Some cmd) (put_cm p ((cnode N p)\<lparr>cm_mmr := m\<rparr>) N)))" .
  moreover have "cm_abs (cm_note p (Some cmd) (put_cm p ((cnode N p)\<lparr>cm_mmr := m\<rparr>) N)) = cm_abs (cm_note p (Some cmd) (put_cm p s' N))"
    by (cases cmd) (auto simp: cm_note_def cm_abs_def put_cm_def cm_mmrs_def s' fun_eq_iff)
  ultimately show ?thesis using run(1) b(1) by (simp add: cm_moves_def)
next
  case (goroutine p s')
  then show ?thesis using cm_goroutine_abs by blast
next
  case (close p)
  then show ?thesis by (simp add: cm_moves_def cm_abs_quiet cm_close_def)
qed

lemma cm_moves_grow: "cm_moves c coin N M \<Longrightarrow> mmr_grow (cm_mmrs N q) (cm_mmrs M q)"
  using aba_step_grow [of c coin "cm_abs N" "cm_abs M" q] by (auto simp: cm_moves_def cm_abs_def)

text \<open>A step brings only commands that are allowed.\<close>

lemma cm_goroutine_cmds:
  assumes "cm_goroutine s s'" and "cmd \<in> cm_cmds s'"
  shows "cmd \<in> cm_cmds s \<or> (\<exists>v r. cmd = CmdExt v r \<and> (v, r) \<in> set (deliverExternallyValid (cm_mmr s)))"
proof -
  consider (take) k where "cm_take k s = Some s'" | (iclose) "cm_invoker_close s = Some s'"
    | (listen) "cm_listen s = Some s'" | (lclose) "cm_listener_close s = Some s'"
    | (closer) j where "cm_closer j s = Some s'" | (inner) "cm_inner s s'"
    using assms(1) unfolding cm_goroutine_def by blast
  then show ?thesis
  proof cases
    case (take k)
    then show ?thesis using assms(2) by (auto simp: cm_take_def cm_cmds_def split: if_splits dest: in_set_takeD in_set_dropD)
  next
    case listen
    then obtain v r m where l: "listenExternallyValid (cm_mmr s) = Some ((v, r), m)" "s' = cm_schedule (CmdExt v r) (s\<lparr>cm_mmr := m\<rparr>)"
      by (auto simp: cm_listen_def split: if_splits)
    then have "(v, r) \<in> set (deliverExternallyValid (cm_mmr s))"
      by (auto simp: listenExternallyValid_def split: if_splits) (metis nth_mem)
    then show ?thesis using assms(2) l(2) by (auto simp: cm_schedule_def cm_cmds_def)
  next
    case iclose
    then show ?thesis using assms(2) by (auto simp: cm_invoker_close_def cm_cmds_def split: if_splits dest: recv_thenD)
  next
    case lclose
    then show ?thesis using assms(2) by (auto simp: cm_listener_close_def cm_cmds_def split: if_splits dest: recv_thenD)
  next
    case closer
    then show ?thesis using assms(2) by (auto simp: cm_closer_def cm_cmds_def split: if_splits close_pc.splits dest: send_thenE)
  next
    case inner
    then show ?thesis using assms(2) by (auto simp: cm_inner_def cm_cmds_def)
  qed
qed

lemma cm_step_cmds:
  assumes "cm_step c coin N M" and "cmd \<in> cm_cmds (cnode M q)"
  shows "cmd \<in> cm_cmds (cnode N q) \<or> allowed c coin (cm_mmrs N) q cmd"
  using assms(1)
proof cases
  case (call p cmd')
  then show ?thesis using assms(2) by (auto simp: put_cm_def cm_schedule_def cm_cmds_def split: if_splits)
next
  case (decision p x v)
  then show ?thesis using assms(2) by (auto simp: put_cm_def cm_submitDecision_def cm_cmds_def split: if_splits prod.splits)
next
  case (run p s')
  have "cnode M = (cnode N)(p := s')" using run(1) by (auto simp: cm_note_def put_cm_def split: option.split mmr_cmd.split)
  then show ?thesis using run(3) assms(2) by (auto simp: cm_run_def cm_cmds_def split: option.splits prod.splits if_splits)
next
  case (goroutine p s')
  then show ?thesis using cm_goroutine_cmds [OF goroutine(3), of cmd] assms(2) by (auto simp: put_cm_def cm_mmrs_def split: if_splits)
next
  case (close p)
  then show ?thesis using assms(2) by (auto simp: put_cm_def cm_close_def cm_cmds_def split: if_splits)
qed

lemma cm_reach_abs:
  assumes "cm_reach c coin N"
  shows "aba_reach c coin (cm_abs N) \<and> cm_ok c coin N"
  using assms
proof (induction rule: cm_reach.induct)
  case init
  have "cm_abs (cm_init c) = aba_init c" by (auto simp: cm_abs_def cm_init_def aba_init_def cm_mmrs_def newConcurrentMMR_def fun_eq_iff)
  then show ?case using aba_reach.init [of c coin] by (simp add: cm_ok_def cm_cmds_def cm_init_def newConcurrentMMR_def)
next
  case (step N M)
  have mv: "cm_moves c coin N M" using cm_step_abs [OF step.hyps(2)] step.IH by blast
  then have "aba_reach c coin (cm_abs M)" using step.IH aba_reach.step by (auto simp: cm_moves_def)
  moreover have "allowed c coin (cm_mmrs M) p cmd" if "cmd \<in> cm_cmds (cnode M p)" for p cmd
  proof (rule allowed_mono)
    show "mmr_grow (cm_mmrs N q) (cm_mmrs M q)" for q by (rule cm_moves_grow [OF mv])
    show "allowed c coin (cm_mmrs N) p cmd" using cm_step_cmds [OF step.hyps(2) that] step.IH by (auto simp: cm_ok_def)
  qed
  then have "cm_ok c coin M" by (simp add: cm_ok_def)
  ultimately show ?case by blast
qed

text \<open>
  C21. Whatever order the invokers take the waiting commands in, and whenever queues are closed, the
  agreements behind the queues form a reachable network of \<open>MMR_Network\<close>: the commands that wait
  are still allowed when they run.
\<close>

theorem queue_refines:
  assumes "cm_reach c coin N"
  shows "aba_reach c coin (cm_abs N) \<and> (\<forall>p cmd. cmd \<in> set (cm_commands (cnode N p)) \<longrightarrow> allowed c coin (mnode (cm_abs N)) p cmd)"
  using cm_reach_abs [OF assms] by (auto simp: cm_ok_def cm_cmds_def cm_abs_def)

end
