(* ===== verification/MMR_Coin.thy ===== *)
theory MMR_Coin
  imports MMR_Queue
begin

text \<open>
  \<^verbatim>\<open>submitCoin\<close> runs on the invoker of an agreement and waits there for \<^verbatim>\<open>execRound\<close>; nothing else is
  processed meanwhile.  It does not wait in vain: a round asks for its coin only once its agreement has
  decided, so the coin that answers the request gives the transition at once.
\<close>

section \<open>A round and its coin\<close>

definition unused :: "'a chan \<Rightarrow> bool" where
  "unused ch \<longleftrightarrow> ch_cap ch = 1 \<and> ch_sent ch = [] \<and> ch_taken ch = 0"

lemma unused_ops: "unused ch \<Longrightarrow> chan_recv ch = None" "unused ch \<Longrightarrow> chan_send x ch = Some (ch\<lparr>ch_sent := [x]\<rparr>)"
  by (simp_all add: unused_def chan_recv_def chan_send_def)

fun coin_ready :: "exec_pc \<Rightarrow> mmrRound \<Rightarrow> bool" where
  "coin_ready XDec rd \<longleftrightarrow> unused (coinReqChan rd) \<and> unused (coinReceiveChan rd) \<and> unused (internalTransition rd)"
| "coin_ready (XReq d) rd \<longleftrightarrow> unused (coinReqChan rd) \<and> unused (coinReceiveChan rd) \<and> unused (internalTransition rd)"
| "coin_ready (XCoin d) rd \<longleftrightarrow> unused (coinReceiveChan rd) \<and> unused (internalTransition rd)"
| "coin_ready (XOut d k) rd \<longleftrightarrow> False"
| "coin_ready XDone rd \<longleftrightarrow> True"

definition round_ready :: "mmrRound \<Rightarrow> bool" where
  "round_ready rd \<longleftrightarrow> coin_ready (exec_pc rd) rd"

definition asked :: "mmrRound \<Rightarrow> bool" where
  "asked rd \<longleftrightarrow> (\<exists>d. exec_pc rd = XCoin d) \<or> exec_pc rd = XDone"

lemma round_ready_new: "round_ready (newRound n f)" "round_ready (newFirstRound n f)"
  by (simp_all add: round_ready_def newRound_def newFirstRound_def unused_def)

lemma round_ready_frame [simp]:
  "round_ready (rd\<lparr>round_bca := b\<rparr>) = round_ready rd" "asked (rd\<lparr>round_bca := b\<rparr>) = asked rd"
  "asked (rd\<lparr>coinReqChan := ch\<rparr>) = asked rd"
  by (cases "exec_pc rd"; simp add: round_ready_def asked_def)+

lemma execRound_ready:
  assumes "round_ready rd" and "execRound rd = Some rd'"
  shows "round_ready rd' \<and> (asked rd \<longrightarrow> asked rd')"
proof (cases "exec_pc rd")
  case XDec
  then show ?thesis using assms by (auto simp: execRound_def round_ready_def asked_def split: option.splits)
next
  case (XReq d)
  then have "send_then coinReqChan coinReqChan_update () (exec_pc_update (\<lambda>_. XCoin d)) rd = Some rd'"
    using assms(2) by (simp add: execRound_def)
  from send_thenE [OF this] show ?thesis using assms(1) XReq by (simp add: round_ready_def asked_def)
next
  case (XCoin d)
  then show ?thesis using assms by (auto simp: execRound_def round_ready_def recv_then_def unused_ops)
qed (use assms in \<open>auto simp: execRound_def round_ready_def\<close>)

text \<open>From the request on, two steps give the transition.\<close>

lemma exec_from_coin:
  assumes "exec_pc rd = XCoin d" and "coinReceiveChan rd = ch\<lparr>ch_sent := [k]\<rparr>" and "unused ch"
    and "unused (internalTransition rd)"
  shows "execRoundN (Suc (Suc j)) rd = rd\<lparr>coinReceiveChan := ch\<lparr>ch_sent := [k], ch_taken := 1\<rparr>,
    internalTransition := (internalTransition rd)\<lparr>ch_sent := [transition d k]\<rparr>, exec_pc := XDone\<rparr>"
proof -
  have t: "ch_taken ch = 0" and i: "ch_cap (internalTransition rd) = 1" "ch_sent (internalTransition rd) = []"
    "ch_taken (internalTransition rd) = 0" using assms(3,4) by (simp_all add: unused_def)
  let ?r1 = "rd\<lparr>coinReceiveChan := ch\<lparr>ch_sent := [k], ch_taken := 1\<rparr>, exec_pc := XOut d k\<rparr>"
  have 1: "execRound rd = Some ?r1" using assms(1,2) t by (simp add: execRound_def recv_then_def chan_recv_def)
  have 2: "execRound ?r1 = Some (?r1\<lparr>internalTransition := (internalTransition rd)\<lparr>ch_sent := [transition d k]\<rparr>, exec_pc := XDone\<rparr>)"
    using i by (simp add: execRound_def send_then_def chan_send_def)
  have 3: "exec_pc r = XDone \<Longrightarrow> execRoundN j r = r" for r by (cases j) (simp_all add: execRound_def)
  show ?thesis using 1 2 3 by simp
qed

lemma asked_submitCoin:
  assumes "round_ready rd" and "exec_pc rd = XCoin d" and "isInputValid k"
  shows "\<exists>rd'. round_submitCoin k rd = ((rd', Some (transition d k)), GoNil) \<and> exec_pc rd' = XDone"
proof -
  have u: "unused (coinReceiveChan rd)" "unused (internalTransition rd)" using assms(1,2) by (simp_all add: round_ready_def)
  let ?rd = "rd\<lparr>coinReceiveChan := (coinReceiveChan rd)\<lparr>ch_sent := [k]\<rparr>\<rparr>"
  have "execRoundN 4 ?rd = ?rd\<lparr>coinReceiveChan := (coinReceiveChan rd)\<lparr>ch_sent := [k], ch_taken := 1\<rparr>,
    internalTransition := (internalTransition rd)\<lparr>ch_sent := [transition d k]\<rparr>, exec_pc := XDone\<rparr>"
    using exec_from_coin [where rd = ?rd and d = d and ch = "coinReceiveChan rd" and k = k and j = 2] assms(2) u by (simp add: numeral_eq_Suc)
  moreover have "ch_taken (internalTransition rd) = 0" using u(2) by (simp add: unused_def)
  ultimately show ?thesis using assms(3) u(1) by (simp add: round_submitCoin_def unused_ops(2) Let_def chan_recv_def)
qed

text \<open>Whatever the state of the round, a call that returns leaves it finished or as it was.\<close>

lemma execRoundN_end:
  assumes "chan_recv (internalTransition (execRoundN j rd)) \<noteq> None" and "unused (internalTransition rd)"
  shows "exec_pc (execRoundN j rd) = XDone"
  using assms
proof (induction j arbitrary: rd)
  case (Suc j)
  show ?case
  proof (cases "execRound rd")
    case (Some rd')
    show ?thesis
    proof (cases "exec_pc rd' = XDone")
      case True
      then have "execRoundN j rd' = rd'" by (cases j) (simp_all add: execRound_def)
      then show ?thesis using Some True by simp
    next
      case False
      then have "internalTransition rd' = internalTransition rd"
        using Some by (auto simp: execRound_def send_then_def recv_then_def split: exec_pc.splits option.splits)
      then show ?thesis using Suc Some by simp
    qed
  next
    case None
    then show ?thesis using Suc.prems by (auto simp: unused_ops)
  qed
qed (simp add: unused_ops)

lemma round_submitCoin_ready:
  assumes "round_ready rd" and "round_submitCoin k rd = ((rd', t), oc)" and "oc \<noteq> GoBlocked"
  shows "round_ready rd' \<and> (asked rd \<longrightarrow> asked rd')"
proof (cases "oc = GoNil \<and> exec_pc rd \<noteq> XDone")
  case True
  then have i: "unused (internalTransition rd)" using assms(1) by (cases "exec_pc rd") (auto simp: round_ready_def)
  obtain ch where ch: "chan_send k (coinReceiveChan rd) = Some ch"
    using assms(2) True by (auto simp: round_submitCoin_def split: if_splits option.splits)
  let ?r1 = "execRoundN 4 (rd\<lparr>coinReceiveChan := ch\<rparr>)"
  have "chan_recv (internalTransition ?r1) \<noteq> None" and pc: "exec_pc rd' = exec_pc ?r1"
    using assms(2) True ch by (auto simp: round_submitCoin_def Let_def split: if_splits option.splits)
  then have "exec_pc rd' = XDone" using execRoundN_end [of 4 "rd\<lparr>coinReceiveChan := ch\<rparr>"] i by simp
  then show ?thesis by (simp add: round_ready_def asked_def)
next
  case False
  have "exec_pc rd = XDone \<Longrightarrow> execRoundN j (rd\<lparr>coinReceiveChan := ch\<rparr>) = rd\<lparr>coinReceiveChan := ch\<rparr>" for j ch
    by (cases j) (simp_all add: execRound_def)
  then show ?thesis using False assms
    by (auto simp: round_submitCoin_def Let_def round_ready_def asked_def split: if_splits option.splits)
qed

section \<open>In every reachable network\<close>

definition node_ready :: "mmr \<Rightarrow> bool" where
  "node_ready m \<longleftrightarrow> (\<forall>r. round_ready (round_at m r) \<and> (r \<in> set (coinReq m) \<longrightarrow> asked (round_at m r)))"

lemma node_ready_new: "node_ready (newMMR n f)"
  by (simp add: node_ready_def round_at_def newMMR_def initFirstRound_def round_ready_new)

text \<open>An operation that changes one round only, and keeps it ready.\<close>

lemma node_ready_round:
  assumes "node_ready m" and "round_at m' = (round_at m)(r := rd)" and "coinReq m' = coinReq m"
    and "round_ready rd" and "asked (round_at m r) \<longrightarrow> asked rd"
  shows "node_ready m'"
  using assms by (auto simp: node_ready_def)

lemma node_ready_same: "node_ready m \<Longrightarrow> round_at m' = round_at m \<Longrightarrow> coinReq m' = coinReq m \<Longrightarrow> node_ready m'"
  by (simp add: node_ready_def)

lemma getRound_coins: "coinReq (fst (getRound r m)) = coinReq m"
  by (simp add: getRound_def Let_def split: option.split)

lemma with_round_ready:
  assumes "node_ready m"
  shows "node_ready (fst (with_round r oper m))"
proof -
  obtain m' res where w: "with_round r oper m = (m', res)" by fastforce
  have "coinReq m' = coinReq m" using w getRound_coins [of r m] by (auto simp: with_round_def split: prod.splits)
  then have "node_ready m'"
    by (rule node_ready_round [OF assms with_round_at(2) [OF w]]) (use assms in \<open>simp_all add: node_ready_def\<close>)
  then show ?thesis using w by simp
qed

lemma submitCoin_ready:
  assumes rdy: "node_ready m" and op: "mmr_submitCoin k r m = (m', res)" and nb: "res \<noteq> GoBlocked"
  shows "node_ready m'"
proof -
  obtain m1 rd where g: "getRound r m = (m1, rd)" by fastforce
  obtain rd1 t oc where sc: "round_submitCoin k rd = ((rd1, t), oc)" by (metis prod.exhaust)
  define m2 where "m2 = m1\<lparr>rounds := (rounds m1)(r \<mapsto> rd1)\<rparr>"
  have oc: "oc \<noteq> GoBlocked" using op nb by (auto simp: mmr_submitCoin_def g sc Let_def)
  have rd: "rd = round_at m r" and m1: "rounds m1 = (rounds m)(r \<mapsto> rd)" "same_rest m m1" "coinReq m1 = coinReq m"
    using getRound_at [of r m] getRound_rest [of m r] getRound_coins [of r m] g by simp_all
  have at: "round_at m2 = (round_at m)(r := rd1)"
    by (rule round_at_upd) (use m1 in \<open>simp_all add: m2_def same_rest_def\<close>)
  have "round_ready rd1 \<and> (asked rd \<longrightarrow> asked rd1)"
    by (rule round_submitCoin_ready [OF _ sc oc]) (use rdy rd in \<open>simp add: node_ready_def\<close>)
  then have m2: "node_ready m2" using rd m1 by (intro node_ready_round [OF rdy at]) (simp_all add: m2_def)
  have d: "node_ready (m2\<lparr>hasDecided := True\<rparr>)" by (rule node_ready_same [OF m2]) (simp_all add: round_at_def fun_eq_iff split: option.split)
  have p: "node_ready (fst (chan_put reachedDecision reachedDecision_update e (m2\<lparr>hasDecided := True\<rparr>) :: mmr \<times> mmr_error outcome))" for e
    unfolding fst_chan_put by (rule node_ready_same [OF d]) (simp_all add: round_at_def fun_eq_iff split: option.split)
  have "m' = m2 \<or> (\<exists>e. m' = fst (chan_put reachedDecision reachedDecision_update e (m2\<lparr>hasDecided := True\<rparr>) :: mmr \<times> mmr_error outcome))
      \<or> (\<exists>q oper. m' = fst (with_round q oper m2))"
    using op by (cases oc; cases t) (auto simp: mmr_submitCoin_def g sc Let_def m2_def mmr_propose_def prod_eq_iff split: if_splits)
  then show ?thesis using m2 p with_round_ready [OF m2] by auto
qed

lemma listenRequests_ready:
  assumes rdy: "node_ready m" and st: "listenRequests q r m = Some m'"
  shows "node_ready m'"
proof -
  obtain rd where rd: "rounds m r = Some rd" using st by (auto simp: listenRequests_def split: if_splits option.splits)
  have at: "round_at m r = rd" using rd by (simp add: round_at_def)
  show ?thesis
  proof (cases "q = ReqCoin")
    case True
    then obtain ch where ch: "chan_recv (coinReqChan rd) = Some ((), ch)"
      "m' = m\<lparr>rounds := (rounds m)(r \<mapsto> rd\<lparr>coinReqChan := ch\<rparr>), coinReq := coinReq m @ [r]\<rparr>"
      using st rd by (auto simp: listenRequests_def split: if_splits)
    have a: "asked rd" "round_ready (rd\<lparr>coinReqChan := ch\<rparr>)"
      using ch(1) rdy at by (cases "exec_pc rd"; auto simp: node_ready_def round_ready_def asked_def unused_ops dest: spec [of _ r])+
    have "round_at m' = (round_at m)(r := rd\<lparr>coinReqChan := ch\<rparr>)" using ch(2) by (auto simp: round_at_def fun_eq_iff split: option.split)
    then show ?thesis using rdy a at ch(2) by (auto simp: node_ready_def)
  next
    case False
    then obtain b where b: "rounds m' = (rounds m)(r \<mapsto> rd\<lparr>round_bca := b\<rparr>)" "coinReq m' = coinReq m"
        "mmr_n m' = mmr_n m" "mmr_f m' = mmr_f m"
      using st rd by (cases q) (auto simp: listenRequests_def split: if_splits)
    then have "round_at m' = (round_at m)(r := rd\<lparr>round_bca := b\<rparr>)" by (auto simp: round_at_def fun_eq_iff split: option.split)
    then show ?thesis by (rule node_ready_round [OF rdy]) (use rdy at b in \<open>auto simp: node_ready_def\<close>)
  qed
qed

lemma goroutine_ready:
  assumes rdy: "node_ready m" and "mmr_goroutine m m'"
  shows "node_ready m'"
proof -
  consider r where "bca_steps r m m'" | r where "mmr_execRound r m = Some m'"
    | q r where "listenRequests q r m = Some m'" | b where "reachDecision b m = Some m'"
    | w where "listenExternallyValid m = Some (w, m')" | v r where "m' = fst (mmr_submitExternallyValid v r m)"
    | "mmr_close m = m'" | d where "mmr_takeDecision m = Some (d, m')"
    using assms(2) unfolding mmr_goroutine_def by blast
  then show ?thesis
  proof cases
    case (1 r)
    then obtain rd b where rd: "rounds m r = Some rd" and m': "m' = m\<lparr>rounds := (rounds m)(r \<mapsto> rd\<lparr>round_bca := b\<rparr>)\<rparr>"
      by (auto simp: bca_steps_def)
    have "round_ready rd" using rdy round_at_Some [OF rd] by (auto simp: node_ready_def dest: spec [of _ r])
    then show ?thesis using round_at_Some [OF rd] node_ready_round [OF rdy round_at_put, of r "rd\<lparr>round_bca := b\<rparr>"] by (simp add: m')
  next
    case (2 r)
    then obtain rd rd' where rd: "rounds m r = Some rd" "execRound rd = Some rd'" "m' = m\<lparr>rounds := (rounds m)(r \<mapsto> rd')\<rparr>"
      by (auto simp: mmr_execRound_def split: option.splits)
    then have "round_ready rd" using rdy round_at_Some [OF rd(1)] by (auto simp: node_ready_def dest: spec [of _ r])
    then show ?thesis using execRound_ready [OF _ rd(2)] rd(3) round_at_Some [OF rd(1)] node_ready_round [OF rdy round_at_put] by auto
  next
    case (3 q r)
    then show ?thesis by (rule listenRequests_ready [OF rdy])
  next
    case (4 b)
    have "round_at m' = round_at m" by (rule round_at_same) (use reach_out [OF 4] in simp_all)
    then show ?thesis using reachDecision_coins [OF 4] node_ready_same [OF rdy] by blast
  next
    case (6 v r)
    then show ?thesis using with_round_ready [OF rdy] by (simp add: mmr_submitExternallyValid_def)
  qed (use rdy in \<open>auto intro!: node_ready_same [OF rdy] simp: listenExternallyValid_def mmr_close_def mmr_takeDecision_def
      round_at_def fun_eq_iff split: if_splits option.splits\<close>)
qed

lemma aba_step_ready:
  assumes "aba_step c coin N M" and rdy: "\<And>q. node_ready (mnode N q)"
  shows "node_ready (mnode M q)"
  using assms(1)
proof cases
  case (propose p est)
  then show ?thesis using with_round_ready rdy by (simp add: concurrent_propose_def mmr_propose_def)
next
  case (echo p x v r)
  then show ?thesis using with_round_ready rdy by (simp add: mmr_submitEcho_def)
next
  case (vote p x v r)
  then show ?thesis using with_round_ready rdy by (simp add: mmr_submitVote_def)
next
  case (bind p x v r)
  then show ?thesis using with_round_ready rdy by (simp add: mmr_submitBind_def)
next
  case (coin p r m' res)
  then show ?thesis using submitCoin_ready [OF rdy coin(4,5)] rdy by simp
next
  case (decision p x v)
  have "node_ready (fst (mmr_submitDecision v x (mnode N p)))"
    by (rule node_ready_same [OF rdy [of p]]) (simp_all add: mmr_submitDecision_def round_at_def fun_eq_iff split: prod.split option.split)
  then show ?thesis using decision rdy by simp
next
  case (goroutine p m')
  then show ?thesis using goroutine_ready [OF rdy goroutine(3)] rdy by simp
qed

lemma aba_reach_ready: "aba_reach c coin N \<Longrightarrow> node_ready (mnode N q)"
proof (induction arbitrary: q rule: aba_reach.induct)
  case init
  then show ?case by (simp add: aba_init_def node_ready_new)
next
  case (step N M)
  show ?case by (rule aba_step_ready [OF step.hyps(2) step.IH])
qed

text \<open>
  The coin a round has asked for never keeps the invoker waiting: until it has been submitted, the
  goroutine of the round holds the decision of the round's agreement and waits for it, and \<^verbatim>\<open>submitCoin\<close>
  returns the transition that decision and coin give.
\<close>

theorem requested_coin_returns:
  assumes "aba_reach c coin N" and "r \<in> set (coinReq (mnode N p))" and "exec_pc (round_at (mnode N p) r) \<noteq> XDone"
    and "isInputValid (coin r)"
  shows "\<exists>d rd. exec_pc (round_at (mnode N p) r) = XCoin d
    \<and> round_submitCoin (coin r) (round_at (mnode N p) r) = ((rd, Some (transition d (coin r))), GoNil)"
proof -
  have "round_ready (round_at (mnode N p) r)" "asked (round_at (mnode N p) r)"
    using aba_reach_ready [OF assms(1), of p] assms(2) by (simp_all add: node_ready_def)
  then show ?thesis using asked_submitCoin assms(3,4) unfolding asked_def by blast
qed

end
