(* ===== verification/MMR_Queue_Run.thy ===== *)
theory MMR_Queue_Run
  imports MMR_Coin MMR_Run
begin

text \<open>Concrete inputs for the properties of the queue: a proposal that passes through it, and a coin that is due.\<close>

definition q0 :: concurrentMMR where
  "q0 = newConcurrentMMR 4 1"

definition q1 :: concurrentMMR where
  "q1 = cm_propose 0 (cm_propose 1 q0)"

definition q2 :: concurrentMMR where
  "q2 = the (cm_take 1 q1)"

definition q3 :: concurrentMMR where
  "q3 = the (cm_run q2)"

lemma queue_steps:
  "cm_take 1 q1 = Some q2" "cm_busy q2 = Some (CmdPropose 0)" "cm_commands q3 = [CmdPropose 1]" "cm_run q2 = Some q3"
  "cm_returned q3 = [(CmdPropose 0, GoNil)]"
proof -
  have t: "cm_take 1 q1 = Some (q1\<lparr>cm_busy := Some (CmdPropose 0), cm_commands := [CmdPropose 1]\<rparr>)"
    by (simp add: cm_take_def q1_def q0_def cm_propose_def cm_schedule_def newConcurrentMMR_def)
  then show "cm_take 1 q1 = Some q2" by (simp add: q2_def)
  have q2: "q2 = q1\<lparr>cm_busy := Some (CmdPropose 0), cm_commands := [CmdPropose 1]\<rparr>" using t by (simp add: q2_def)
  show "cm_busy q2 = Some (CmdPropose 0)" unfolding q2 by simp
  have nil: "snd (mmr_propose 0 bot firstRound (newMMR 4 1)) = GoNil" by code_simp
  have "cm_mmr q2 = newMMR 4 1" by (simp add: q2 q1_def q0_def cm_propose_def cm_schedule_def newConcurrentMMR_def)
  then have r: "cm_run q2 = Some (q2\<lparr>cm_mmr := fst (mmr_propose 0 bot firstRound (newMMR 4 1)), cm_busy := None,
      cm_returned := [(CmdPropose 0, GoNil)]\<rparr>)"
    using nil by (auto simp: cm_run_def q2 q1_def q0_def cm_propose_def cm_schedule_def newConcurrentMMR_def split: prod.split)
  then show "cm_run q2 = Some q3" "cm_commands q3 = [CmdPropose 1]" "cm_returned q3 = [(CmdPropose 0, GoNil)]"
    by (simp_all add: q3_def q2)
qed

definition queue_net :: cm_net where
  "queue_net = cm_note (uid 1) (Some (CmdPropose 0)) (put_cm (uid 1) q3 (cm_init default_cfg))"

lemma put_cm_twice: "put_cm p s (put_cm p t N) = put_cm p s N"
  by (simp add: put_cm_def)

lemma queue_net_reach: "cm_reach default_cfg demo_coin queue_net"
proof -
  have p: "uid 1 \<in> correct default_cfg" by simp
  have i: "cnode (cm_init default_cfg) p = q0" for p by (simp add: cm_init_def q0_def)
  let ?N = "cm_init default_cfg"
  have 1: "cm_reach default_cfg demo_coin (put_cm (uid 1) (cm_propose 1 q0) ?N)"
    using cm_reach.step [OF cm_reach.init cm_step.call [OF p, of demo_coin ?N "CmdPropose 1"]] by (simp add: i cm_propose_def)
  have 2: "cm_reach default_cfg demo_coin (put_cm (uid 1) q1 ?N)"
    using cm_reach.step [OF 1 cm_step.call [OF p, of demo_coin _ "CmdPropose 0"]] by (simp add: q1_def cm_propose_def put_cm_def)
  have "cm_goroutine q1 q2" using queue_steps(1) unfolding cm_goroutine_def by blast
  then have 3: "cm_reach default_cfg demo_coin (put_cm (uid 1) q2 ?N)"
    using cm_reach.step [OF 2 cm_step.goroutine [OF p, of _ q2]] by (simp add: put_cm_def)
  show ?thesis
    using cm_reach.step [OF 3 cm_step.run [OF p, of _ q3]] queue_steps(2,4) by (simp add: queue_net_def put_cm_def)
qed

text \<open>Witness: two proposals wait, the later one is taken first and runs.\<close>

theorem queue_refines_witness:
  "aba_reach default_cfg demo_coin (cm_abs queue_net) \<and> cm_commands (cnode queue_net (uid 1)) = [CmdPropose 1]
    \<and> inputs (cm_abs queue_net) (uid 1) = {0}"
  using queue_refines [OF queue_net_reach] queue_steps(3)
  by (simp add: queue_net_def cm_abs_def cm_note_def put_cm_def cm_init_def)

text \<open>The run of \<open>MMR_Run\<close> up to the request for the coin of the first round.\<close>

definition asking_final :: mmr where
  "asking_final = the (lock_run demo_coin (take 22 demo_events) (newMMR 4 1))"

definition asking_aba :: aba_net where
  "asking_aba = lock_state default_cfg asking_final {1}"

lemma asking_run:
  "map_option (\<lambda>m. (coinReq m, exec_pc (round_at m 0))) (lock_run demo_coin (take 22 demo_events) (newMMR 4 1))
    = Some ([0], XCoin 1)"
  by code_simp

lemma asking_final_run: "lock_run demo_coin (take 22 demo_events) (newMMR 4 1) = Some asking_final"
  using asking_run by (auto simp: asking_final_def)

lemma asking_reach: "aba_reach default_cfg demo_coin asking_aba"
proof -
  have "fold lock_inputs (take 22 demo_events) {} = {1}" by (simp add: demo_events_def)
  then show ?thesis
    using lock_run_reach [OF lock_init [of default_cfg demo_coin, simplified] asking_final_run] demo_senders
    by (auto simp: asking_aba_def dest: in_set_takeD)
qed

text \<open>Witness: the first round has asked for its coin.\<close>

theorem requested_coin_returns_witness:
  "\<exists>d rd. exec_pc (round_at (mnode asking_aba (uid 1)) 0) = XCoin d
    \<and> round_submitCoin 1 (round_at (mnode asking_aba (uid 1)) 0) = ((rd, Some (transition d 1)), GoNil)"
proof -
  have "mnode asking_aba (uid 1) = asking_final" by (simp add: asking_aba_def lock_state_def lock_net_def)
  then show ?thesis using requested_coin_returns [OF asking_reach, of 0 "uid 1"] asking_run
    by (auto simp: asking_final_run demo_coin_def)
qed

end
