(* ===== verification/Participants.thy ===== *)
theory Participants
  imports Overlay_Network "HOL-Library.Char_ord" "HOL-Library.Multiset"
begin

text \<open>
  The list of participants of the common subset (\<^verbatim>\<open>getParticipantIds\<close> of \<^verbatim>\<open>main.go\<close>): the identifiers of
  the node and of its peers, in the order of their printed form, which every node computes for itself.
  Printing and parsing an identifier (\<^verbatim>\<open>UUID.String\<close> and \<^verbatim>\<open>uuid.MustParse\<close> of the package
  \<^verbatim>\<open>google/uuid\<close>) are parameters; \<open>uuid_text\<close> states that parsing inverts printing.
\<close>

datatype 'pk main_error = UnableToGetPeerIds "'pk key_error" | UnableToGetMyId "'pk key_error"

definition getParticipantIds ::
  "(uuid \<Rightarrow> string) \<Rightarrow> (string \<Rightarrow> uuid) \<Rightarrow> ('pk \<Rightarrow> bytes option) \<Rightarrow> 'pk node \<Rightarrow> uuid list \<times> 'pk main_error outcome"
where
  "getParticipantIds toString mustParse serialize nd =
     (case GetPeerIds serialize nd of
        (unsortedIds, GoNil) \<Rightarrow>
          (case GetId serialize nd of
             Inl e \<Rightarrow> ([], GoErr (UnableToGetMyId e))
           | Inr i \<Rightarrow> (map mustParse (sort (map toString (unsortedIds @ [i]))), GoNil))
      | (_, GoErr e) \<Rightarrow> ([], GoErr (UnableToGetPeerIds e))
      | (_, GoPanic) \<Rightarrow> ([], GoPanic)
      | (_, GoBlocked) \<Rightarrow> ([], GoBlocked))"

definition uuid_text :: "(uuid \<Rightarrow> string) \<Rightarrow> (string \<Rightarrow> uuid) \<Rightarrow> bool" where
  "uuid_text toString mustParse \<longleftrightarrow> (\<forall>u. mustParse (toString u) = u)"

text \<open>The keys of the members a node knows, itself last.\<close>

definition member_keys :: "'pk node \<Rightarrow> 'pk option list" where
  "member_keys nd = map peer_pk (peers nd) @ [Some (node_pk nd)]"

definition key_id :: "('pk \<Rightarrow> bytes option) \<Rightarrow> 'pk option \<Rightarrow> uuid" where
  "key_id serialize k = BytesToUUID (the (serialize (the k)))"

lemma peerIds_known:
  "\<forall>p \<in> set ps. \<exists>k b. peer_pk p = Some k \<and> serialize k = Some b \<Longrightarrow>
     peerIds serialize ps = (map (key_id serialize \<circ> peer_pk) ps, GoNil)"
  by (induction ps) (auto simp: PkToUUID_def SerializePublicKey_def key_id_def)

lemma participants_known:
  assumes "\<forall>k \<in> set (member_keys nd). \<exists>pk b. k = Some pk \<and> serialize pk = Some b"
  shows "getParticipantIds toString mustParse serialize nd =
    (map mustParse (sort (map (toString \<circ> key_id serialize) (member_keys nd))), GoNil)"
proof -
  have "\<forall>p \<in> set (peers nd). \<exists>k b. peer_pk p = Some k \<and> serialize k = Some b" using assms by (auto simp: member_keys_def)
  moreover obtain b where "serialize (node_pk nd) = Some b" using assms by (auto simp: member_keys_def)
  ultimately show ?thesis using peerIds_known [of "peers nd" serialize]
    by (simp add: getParticipantIds_def GetPeerIds_def GetId_def PkToUUID_def SerializePublicKey_def member_keys_def key_id_def comp_assoc)
qed

text \<open>
  Nodes with the same members, each counting itself, compute the same list of participants,
  however their peers are ordered; it contains the identifier of every member exactly as often as
  the member occurs.
\<close>

theorem participants_agree:
  assumes "uuid_text toString mustParse" and "mset (member_keys nd1) = mset (member_keys nd2)"
    and "\<forall>k \<in> set (member_keys nd1). \<exists>pk b. k = Some pk \<and> serialize pk = Some b"
  shows "\<exists>ids. getParticipantIds toString mustParse serialize nd1 = (ids, GoNil)
    \<and> getParticipantIds toString mustParse serialize nd2 = (ids, GoNil)
    \<and> mset ids = image_mset (key_id serialize) (mset (member_keys nd1))"
proof -
  have set: "set (member_keys nd2) = set (member_keys nd1)" using assms(2) by (metis set_mset_mset)
  let ?ss = "\<lambda>nd. sort (map (toString \<circ> key_id serialize) (member_keys nd))"
  have "mset (map (toString \<circ> key_id serialize) (member_keys nd1)) = mset (map (toString \<circ> key_id serialize) (member_keys nd2))"
    using assms(2) by simp
  then have "?ss nd1 = ?ss nd2" by (metis properties_for_sort mset_sort sorted_sort)
  moreover have "mset (map mustParse (?ss nd1)) = image_mset (key_id serialize) (mset (member_keys nd1))"
    using assms(1) by (simp add: uuid_text_def image_mset.compositionality comp_def)
  ultimately show ?thesis using participants_known [of nd1 serialize] participants_known [of nd2 serialize] assms(3) set by simp
qed

definition text_of_uuid :: "uuid \<Rightarrow> string" where
  "text_of_uuid u = map (\<lambda>b. char_of (unat b)) (uuid_bytes u)"

definition uuid_of_text :: "string \<Rightarrow> uuid" where
  "uuid_of_text s = uuid_of (map (\<lambda>ch. of_nat (of_char ch)) s)"

lemma uuid_text_raw: "uuid_text text_of_uuid uuid_of_text"
proof -
  have "of_nat (of_char (char_of (unat b))) = b" for b :: byte
    using unat_bounds(1) [of b] by (simp add: of_char_of)
  then show ?thesis by (simp add: uuid_text_def text_of_uuid_def uuid_of_text_def comp_def)
qed

definition member_node :: "byte \<Rightarrow> byte list \<Rightarrow> byte node" where
  "member_node me others = (newNode [] [] me)\<lparr>peers := map (\<lambda>k. \<lparr>peer_conn = Some (unat k), peer_name = [k], peer_pk = Some k, peer_pkId = uid k\<rparr>) others\<rparr>"

theorem participants_agree_witness:
  "\<exists>ids. getParticipantIds text_of_uuid uuid_of_text (\<lambda>k. Some [k]) (member_node 1 [2, 3]) = (ids, GoNil)
    \<and> getParticipantIds text_of_uuid uuid_of_text (\<lambda>k. Some [k]) (member_node 3 [1, 2]) = (ids, GoNil)
    \<and> mset ids = {# BytesToUUID [1], BytesToUUID [2], BytesToUUID [3] #}"
  using participants_agree [OF uuid_text_raw, of "member_node 1 [2, 3]" "member_node 3 [1, 2]" "\<lambda>k. Some [k]"]
  by (simp add: member_node_def member_keys_def newNode_def key_id_def add_mset_commute)

end
