(* ===== verification/Main_Program.thy ===== *)
theory Main_Program
  imports Participants ACS_Channel BRB_Channel Coin_Channel
begin

text \<open>
  The main program, \<^verbatim>\<open>main.go\<close>: the channels of a node are created in order from the configuration, the
  node joins the network and waits for its peers, the contact deals the secret, and the user's inputs
  are proposed in one common-subset instance after the other.  The configuration library is the record
  \<open>props\<close> (\<open>None\<close> where its \<^verbatim>\<open>Must\<close> functions panic); the key pair, the secret sharing and the random
  base are arguments, and so is what the other goroutines of the node do while the main goroutine waits.
  The channels hold the node they send on; they are all created from the node at the end of the setup.
\<close>

section \<open>Creating the channels\<close>

record props =
  getUint :: "string \<Rightarrow> uint option"
  getString :: "string \<Rightarrow> bytes option"

text \<open>\<^verbatim>\<open>props.MustGetString(key)[0]\<close>: it panics without the key and on an empty string.\<close>

definition mustCode :: "props \<Rightarrow> string \<Rightarrow> byte option" where
  "mustCode P key = (case getString P key of Some (b # _) \<Rightarrow> Some b | _ \<Rightarrow> None)"

text \<open>
  The secret-sharing channel is an observer of the node like the others: what arrives under its code
  is recorded, and \<open>ss_delivered\<close> is what its \<^verbatim>\<open>bebDeliver\<close> hands to the reader for it.
\<close>

definition NewSSChannel :: "byte \<Rightarrow> 'pk node \<Rightarrow> 'pk node" where
  "NewSSChannel code nd = attachMessageObserver \<lparr>listenCode = code, bebChan = []\<rparr> nd"

definition ss_delivered :: "('s, 'g, 'p) circl \<Rightarrow> 'pk BEBChannel \<Rightarrow> ('s, 'pk) SSMsg list" where
  "ss_delivered C obs = List.map_filter
     (\<lambda>m. fst (ss_bebDeliver C (listenCode obs) (listenCode obs # beb_Content m) (beb_Sender m))) (bebChan obs)"

record codes =
  dealCode :: byte
  ctCode :: byte
  abaCode :: byte
  tCode :: byte
  bkrCode :: byte

definition openChannels :: "props \<Rightarrow> 'pk node \<Rightarrow> ('pk node \<times> codes) option" where
  "openChannels P nd =
     Option.bind (mustCode P ''deal_code'') (\<lambda>dc.
       let nd = NewSSChannel dc nd in
     Option.bind (mustCode P ''ct_code'') (\<lambda>cc.
       let nd = NewBEBChannel cc nd in
     Option.bind (mustCode P ''aba_code'') (\<lambda>ac.
       let nd = NewBEBChannel ac nd in
     Option.bind (mustCode P ''t_code'') (\<lambda>tc.
       let nd = NewBEBChannel tc nd in
     Option.bind (mustCode P ''bkr_code'') (\<lambda>bc.
       let nd = NewBEBChannel bc nd in
     Some (nd, \<lparr>dealCode = dc, ctCode = cc, abaCode = ac, tCode = tc, bkrCode = bc\<rparr>))))))"

text \<open>\<^verbatim>\<open>aba.NewAbaChannel\<close> creates the coin tosser with threshold \<open>2 f\<close> and the agreement channel over it.\<close>

definition NewAbaChannel_ct ::
  "uint \<Rightarrow> uint \<Rightarrow> byte \<Rightarrow> byte \<Rightarrow> byte \<Rightarrow> 'pk node \<Rightarrow> ('s, 'g, 'p, 'pk) CTChannel \<times> 'pk AbaChannel"
where
  "NewAbaChannel_ct n f ctBeb mb tb nd = (NewCoinTosserChannel ctBeb nd (2 * f), NewAbaChannel n f mb tb nd)"

record ('s, 'g, 'p, 'pk) bkr_system =
  sys_codes :: codes
  sys_ct :: "('s, 'g, 'p, 'pk) CTChannel"
  sys_aba :: "'pk AbaChannel"
  sys_brb :: BRBChannel
  sys_bkr :: BKRChannel

datatype 'pk setup_error =
    UnableToJoin
  | UnableToDealSecret "'pk net_error"
  | UnableToGetParticipants "'pk main_error"

text \<open>
  \<open>network\<close> is what the goroutines of the node (accepting connections, reading messages) do to it between
  the return of \<^verbatim>\<open>Join\<close> and the return of \<^verbatim>\<open>WaitForPeers\<close>; \<open>sharing t\<close> are the shares of the random secret
  with threshold \<open>t\<close>.
\<close>

definition computeBkrChannel ::
  "props \<Rightarrow> ('pk \<Rightarrow> bytes option) \<Rightarrow> 'pk dial \<Rightarrow> (uuid \<Rightarrow> string) \<Rightarrow> (string \<Rightarrow> uuid)
    \<Rightarrow> ('s, 'g, 'p) circl \<Rightarrow> 'g \<Rightarrow> (uint \<Rightarrow> nat \<Rightarrow> 's Share list) \<Rightarrow> ('pk node \<Rightarrow> 'pk node) \<Rightarrow> bool \<Rightarrow> 'pk node
    \<Rightarrow> ('pk node \<times> ('s, 'g, 'p, 'pk) bkr_system option) \<times> 'pk setup_error outcome"
where
  "computeBkrChannel P serialize dial toString mustParse C base sharing network amContact nd =
     (case (getUint P ''num_nodes'', getUint P ''faulty'', openChannels P nd) of
        (Some numNodes, Some faulty, Some (nd1, cs)) \<Rightarrow>
          (case Join serialize dial nd1 of
             (nd2, GoErr e) \<Rightarrow> ((nd2, None), GoErr UnableToJoin)
           | (nd2, GoPanic) \<Rightarrow> ((nd2, None), GoPanic)
           | (nd2, GoBlocked) \<Rightarrow> ((nd2, None), GoBlocked)
           | (nd2, GoNil) \<Rightarrow>
               (case WaitForPeers (numNodes - 1) (network nd2) of
                  (nd3, GoNil) \<Rightarrow>
                    (case (if amContact then DealSecret C (dealCode cs) base (sharing (2 * faulty)) nd3 else (nd3, GoNil)) of
                       (nd4, GoErr e) \<Rightarrow> ((nd4, None), GoErr (UnableToDealSecret e))
                     | (nd4, GoPanic) \<Rightarrow> ((nd4, None), GoPanic)
                     | (nd4, GoBlocked) \<Rightarrow> ((nd4, None), GoBlocked)
                     | (nd4, GoNil) \<Rightarrow>
                         (let (ct, aba) = NewAbaChannel_ct numNodes faulty (ctCode cs) (abaCode cs) (tCode cs) nd4
                          in case getParticipantIds toString mustParse serialize nd4 of
                               (ids, GoNil) \<Rightarrow>
                                 ((nd4, Some \<lparr>sys_codes = cs, sys_ct = ct, sys_aba = aba,
                                     sys_brb = NewBRBChannel numNodes faulty, sys_bkr = NewBKRChannel faulty ids\<rparr>), GoNil)
                             | (_, GoErr e) \<Rightarrow> ((nd4, None), GoErr (UnableToGetParticipants e))
                             | (_, GoPanic) \<Rightarrow> ((nd4, None), GoPanic)
                             | (_, GoBlocked) \<Rightarrow> ((nd4, None), GoBlocked)))
                | (nd3, _) \<Rightarrow> ((nd3, None), GoBlocked)))
      | _ \<Rightarrow> ((nd, None), GoPanic))"

section \<open>The input loop\<close>

text \<open>The name and the identifier of the \<open>i\<close>-th instance.\<close>

definition bkrName :: "nat \<Rightarrow> bytes" where
  "bkrName i = [98, 107, 114, 45] @ decimal i"

definition bkrInstanceId :: "nat \<Rightarrow> uuid" where
  "bkrInstanceId i = BytesToUUID (bkrName i)"

datatype 'pk input_error = UnableToReadInput | UnableToPropose "'pk bkrc_error"

text \<open>
  One entry of the list per turn of the loop: what \<^verbatim>\<open>Scanln\<close> reads (\<open>None\<close> for an error, which an empty line
  is too), the nonce of the broadcast, and what the rest of the node does until the output is read.
  The result lists the outputs printed.  Without a further entry the loop waits for input.
\<close>

fun participateBKR ::
  "byte \<Rightarrow> nat \<Rightarrow> (bytes option \<times> uint32 \<times> ('pk AbaChannel \<times> BKRChannel \<Rightarrow> 'pk AbaChannel \<times> BKRChannel)) list
    \<Rightarrow> 'pk AbaChannel \<times> BKRChannel \<Rightarrow> (('pk AbaChannel \<times> BKRChannel) \<times> bytes list list) \<times> 'pk input_error outcome"
where
  "participateBKR beb i [] s = ((s, []), GoBlocked)"
| "participateBKR beb i ((input, nonce, others) # rest) s =
     (case input of
        None \<Rightarrow> ((s, []), GoErr UnableToReadInput)
      | Some proposal \<Rightarrow>
          (case bkr_Propose beb nonce (bkrInstanceId i) proposal s of
             ((s1, Some ref), GoNil) \<Rightarrow>
               (case others s1 of
                  (ch, c) \<Rightarrow>
                    (case chan_recv (bkr_output (bkr_store c ! ref)) of
                       None \<Rightarrow> (((ch, c), []), GoBlocked)
                     | Some (out, oc) \<Rightarrow>
                         (case participateBKR beb (Suc i) rest (ch, on_bkr ref ((bkr_store c ! ref)\<lparr>bkr_output := oc\<rparr>) c) of
                            ((s2, outs), r) \<Rightarrow> ((s2, out # outs), r))))
           | ((s1, _), GoErr e) \<Rightarrow> ((s1, []), GoErr (UnableToPropose e))
           | ((s1, _), GoPanic) \<Rightarrow> ((s1, []), GoPanic)
           | ((s1, _), _) \<Rightarrow> ((s1, []), GoBlocked)))"

text \<open>\<^verbatim>\<open>main\<close>: the key pair is \<open>None\<close> when it cannot be made; every error becomes a panic.\<close>

definition main ::
  "props \<Rightarrow> bytes \<Rightarrow> 'pk option \<Rightarrow> ('pk \<Rightarrow> bytes option) \<Rightarrow> 'pk dial \<Rightarrow> (uuid \<Rightarrow> string) \<Rightarrow> (string \<Rightarrow> uuid)
    \<Rightarrow> ('s, 'g, 'p) circl \<Rightarrow> 'g \<Rightarrow> (uint \<Rightarrow> nat \<Rightarrow> 's Share list) \<Rightarrow> ('pk node \<Rightarrow> 'pk node)
    \<Rightarrow> (bytes option \<times> uint32 \<times> ('pk AbaChannel \<times> BKRChannel \<Rightarrow> 'pk AbaChannel \<times> BKRChannel)) list
    \<Rightarrow> bytes list list \<times> 'pk input_error outcome"
where
  "main P addr keyPair serialize dial toString mustParse C base sharing network entered =
     (case (getString P ''contact'', keyPair) of
        (Some cont, Some pk) \<Rightarrow>
          (case computeBkrChannel P serialize dial toString mustParse C base sharing network (addr = cont) (newNode addr cont pk) of
             ((nd, Some sys), GoNil) \<Rightarrow>
               (case participateBKR (bkrCode (sys_codes sys)) 0 entered (sys_aba sys, sys_bkr sys) of
                  ((s, outs), GoNil) \<Rightarrow> (outs, GoNil)
                | ((s, outs), GoErr e) \<Rightarrow> (outs, GoPanic)
                | ((s, outs), r) \<Rightarrow> (outs, r))
           | (_, GoBlocked) \<Rightarrow> ([], GoBlocked)
           | _ \<Rightarrow> ([], GoPanic))
      | _ \<Rightarrow> ([], GoPanic))"

section \<open>The names of the instances\<close>

fun undecimal :: "bytes \<Rightarrow> nat" where
  "undecimal ds = foldl (\<lambda>v d. 10 * v + (unat d - 48)) 0 ds"

lemma unat_digit: "d < 10 \<Longrightarrow> unat (48 + of_nat d :: byte) - 48 = d"
proof -
  assume "d < 10"
  then have "unat (48 + of_nat d :: byte) = 48 + d"
    by (subst unat_add_lem [THEN iffD1]) (simp_all add: unat_of_nat)
  then show ?thesis by simp
qed

lemma undecimal_decimal: "undecimal (decimal n) = n"
proof (induction n rule: decimal.induct)
  case (1 n)
  show ?case
  proof (cases "n < 10")
    case True
    then show ?thesis by (simp add: decimal.simps unat_digit)
  next
    case False
    then show ?thesis using "1.IH" by (subst decimal.simps) (simp add: unat_digit)
  qed
qed

lemma bkrName_inj: "bkrName i = bkrName j \<longleftrightarrow> i = j"
  using undecimal_decimal by (metis bkrName_def same_append_eq)

section \<open>What the setup gives\<close>


lemma computeBkrChannel_returns:
  assumes "computeBkrChannel P serialize dial toString mustParse C base sharing network amContact nd = ((nd', Some sys), GoNil)"
  obtains numNodes faulty nd1 nd2 nd3 ids where
    "getUint P ''num_nodes'' = Some numNodes" "getUint P ''faulty'' = Some faulty"
    "openChannels P nd = Some (nd1, sys_codes sys)" "Join serialize dial nd1 = (nd2, GoNil)"
    "WaitForPeers (numNodes - 1) (network nd2) = (nd3, GoNil)"
    "(if amContact then DealSecret C (dealCode (sys_codes sys)) base (sharing (2 * faulty)) nd3 else (nd3, GoNil)) = (nd', GoNil)"
    "getParticipantIds toString mustParse serialize nd' = (ids, GoNil)"
    "sys_brb sys = NewBRBChannel numNodes faulty" "sys_bkr sys = NewBKRChannel faulty ids"
    "sys_ct sys = NewCoinTosserChannel (ctCode (sys_codes sys)) nd' (2 * faulty)"
    "sys_aba sys = NewAbaChannel numNodes faulty (abaCode (sys_codes sys)) (tCode (sys_codes sys)) nd'"
  using assms
  by (auto simp: computeBkrChannel_def NewAbaChannel_ct_def split: option.splits prod.splits outcome.splits)

lemma unat_double_uint: "2 * unat (f :: uint) < 2 ^ 64 \<Longrightarrow> unat (2 * f) = 2 * unat f"
  by (simp add: unat_word_ariths)




text \<open>
  C29. Where the configuration names \<open>n\<close> and \<open>f\<close> of an admissible system, the threshold \<open>2 f\<close> of the
  coin does not wrap around, the correct nodes have enough shares to toss it, and the faulty nodes
  together do not.
\<close>

theorem main_coin_threshold:
  assumes "computeBkrChannel P serialize dial toString mustParse C base sharing network amContact nd = ((nd', Some sys), GoNil)"
    and "byz_ok c" and "getUint P ''num_nodes'' = Some (cfg_n c)" and "getUint P ''faulty'' = Some (cfg_f c)"
  shows "unat (ctc_t (sys_ct sys)) = 2 * unat (cfg_f c) \<and> unat (ctc_t (sys_ct sys)) + 1 \<le> card (correct c)
    \<and> card (procs c - correct c) < unat (ctc_t (sys_ct sys)) + 1"
proof -
  have t: "ctc_t (sys_ct sys) = 2 * cfg_f c"
    using assms(1) by (cases rule: computeBkrChannel_returns) (use assms(4) in \<open>simp add: NewCoinTosserChannel_def\<close>)
  have f: "3 * unat (cfg_f c) < unat (cfg_n c)" "card (procs c - correct c) \<le> unat (cfg_f c)" using assms(2) by (simp_all add: byz_ok_def)
  have "unat (cfg_n c) < 2 ^ 64" by (rule order.strict_trans2 [OF unsigned_less]) simp
  then have "unat (2 * cfg_f c) = 2 * unat (cfg_f c)" using f by (intro unat_double_uint) simp
  then show ?thesis using t f correct_count [OF assms(2)] by simp
qed

lemma participate_not_nil: "snd (participateBKR beb i entered s) \<noteq> GoNil"
proof (induction entered arbitrary: i s)
  case (Cons e rest)
  have "participateBKR beb j rest t \<noteq> (q, GoNil)" for j t q using Cons.IH [of j t] by auto
  then show ?case by (cases e; cases s) (auto split: option.splits prod.splits outcome.splits)
qed simp

text \<open>
  The program never returns: whatever the configuration, the network and the user do, it waits
  for ever or ends in a panic.
\<close>

theorem main_never_returns:
  "snd (main P addr keyPair serialize dial toString mustParse C base sharing network entered) \<in> {GoPanic, GoBlocked}"
proof -
  have "snd (participateBKR beb i entered s) \<noteq> GoNil" for beb i s by (rule participate_not_nil)
  then show ?thesis
    by (auto simp: main_def split: option.splits prod.splits outcome.splits) (metis snd_conv)+
qed

end
