(* ===== verification/Main_Run.thy ===== *)
theory Main_Run
  imports Main_Program Coin_Run
begin

text \<open>
  The setup of the contact node with the values of \<^verbatim>\<open>config/config.properties\<close>, over the small group of
  \<open>Coin_Run\<close>; the three other nodes have connected when \<^verbatim>\<open>WaitForPeers\<close> returns.
\<close>

definition default_props :: props where
  "default_props = \<lparr>getUint = [''num_nodes'' \<mapsto> 4, ''faulty'' \<mapsto> 1],
     getString = [''deal_code'' \<mapsto> [68], ''ct_code'' \<mapsto> [67], ''aba_code'' \<mapsto> [65], ''t_code'' \<mapsto> [84], ''bkr_code'' \<mapsto> [66]]\<rparr>"

definition three_connected :: "byte node \<Rightarrow> byte node" where
  "three_connected nd = nd\<lparr>memChan := 3, peers := map (\<lambda>k. \<lparr>peer_conn = Some (unat k), peer_name = [k],
     peer_pk = Some k, peer_pkId = uid k\<rparr>) [2, 3, 4]\<rparr>"

definition contact_setup ::
  "(byte node \<times> (f5, f5, f5, byte) bkr_system option) \<times> byte setup_error outcome"
where
  "contact_setup = computeBkrChannel default_props (\<lambda>k. Some [k]) (\<lambda>_. None) text_of_uuid uuid_of_text
     five F3 (\<lambda>_ _. five_shares) three_connected True (newNode [1] [1] 1)"

lemma unicastEach_ok:
  assumes "hasJoined nd" and "\<forall>(p, m) \<in> set L. peer_conn p \<noteq> None"
  shows "\<exists>nd'. unicastEach L nd = (nd', GoNil) \<and> peers nd' = peers nd \<and> node_pk nd' = node_pk nd"
  using assms
proof (induction L arbitrary: nd)
  case (Cons x L)
  obtain p m k where x: "x = (p, m)" "peer_conn p = Some k" using Cons.prems(2) by (cases x) auto
  let ?nd = "fst (unicast m k nd)"
  have "hasJoined ?nd \<and> peers ?nd = peers nd \<and> node_pk ?nd = node_pk nd"
    using Cons.prems(1) by (simp add: unicast_def sendOn_def split: prod.split)
  then show ?case using Cons.IH [of ?nd] Cons.prems(2) x by simp
qed simp

lemma five_deal_ok:
  assumes "hasJoined nd" and "\<forall>p \<in> set (peers nd). peer_conn p \<noteq> None"
  shows "\<exists>nd'. DealSecret five code F3 (\<lambda>_. five_shares) nd = (nd', GoNil) \<and> peers nd' = peers nd \<and> node_pk nd' = node_pk nd"
proof -
  have len: "length (map (\<lambda>sh. shareToPoint five sh F3) five_shares) < 2 ^ 32" by (simp add: five_shares_def)
  obtain com where com: "computeCommitment five F3 five_shares = Inr com"
    unfolding computeCommitment_def by (rule commitment_roundtrip [OF five_codec len])
  obtain m ms where ms: "ss_wrapAll five code five_shares com = Inr (m # ms)"
    by (simp add: five_shares_def ss_wrapMsg_def five_def f5_put_def)
  let ?nd = "nd\<lparr>tasks := tasks nd @ [(generic # m, node_pk nd)]\<rparr>"
  have "\<exists>nd'. unicastEach (zip (peers nd) ms) ?nd = (nd', GoNil) \<and> peers nd' = peers ?nd \<and> node_pk nd' = node_pk ?nd"
    using assms by (intro unicastEach_ok) (auto dest: set_zip_leftD)
  then show ?thesis using assms(1) com ms by (simp add: DealSecret_def SSBroadcast_def unicastSelf_def getPeers_def)
qed

lemma contact_setup_ok: "\<exists>nd sys. contact_setup = ((nd, Some sys), GoNil) \<and> length (peers nd) = 3"
proof -
  define nd1 where "nd1 = (newNode [1] [1] (1 :: byte))\<lparr>msgObservers := map (\<lambda>b. \<lparr>listenCode = b, bebChan = []\<rparr>) [68, 67, 65, 84, 66]\<rparr>"
  define cs where "cs = \<lparr>dealCode = 68, ctCode = 67, abaCode = 65, tCode = 84, bkrCode = 66\<rparr>"
  define nd2 where "nd2 = three_connected (nd1\<lparr>hasJoined := True\<rparr>)\<lparr>memChan := 0\<rparr>"
  have ch: "openChannels default_props (newNode [1] [1] (1 :: byte)) = Some (nd1, cs)"
    by (simp add: openChannels_def default_props_def mustCode_def nd1_def cs_def NewSSChannel_def NewBEBChannel_def attachMessageObserver_def newNode_def)
  have jn: "Join (\<lambda>k. Some [k]) (\<lambda>_. None) nd1 = (nd1\<lparr>hasJoined := True\<rparr>, GoNil)" by (simp add: Join_def newNode_def nd1_def)
  have wt: "WaitForPeers 3 (three_connected (nd1\<lparr>hasJoined := True\<rparr>)) = (nd2, GoNil)"
    by (simp add: WaitForPeers_def three_connected_def nd2_def)
  obtain nd where nd: "DealSecret five 68 F3 (\<lambda>_. five_shares) nd2 = (nd, GoNil)" "peers nd = peers nd2" "node_pk nd = node_pk nd2"
    using five_deal_ok [of nd2 68] by (auto simp: nd2_def nd1_def three_connected_def newNode_def)
  have "\<forall>k \<in> set (member_keys nd). \<exists>pk b. k = Some pk \<and> Some [pk] = Some b" using nd by (auto simp: member_keys_def nd2_def three_connected_def)
  from participants_known [OF this] obtain ids where ids: "getParticipantIds text_of_uuid uuid_of_text (\<lambda>k. Some [k]) nd = (ids, GoNil)" by blast
  have nums: "getUint default_props ''num_nodes'' = Some 4" "getUint default_props ''faulty'' = Some 1" by (simp_all add: default_props_def)
  have "length (peers nd2) = 3" by (simp add: nd2_def three_connected_def)
  then show ?thesis using nd(1,2) ch
    by (simp add: contact_setup_def computeBkrChannel_def nums jn wt ids NewAbaChannel_ct_def cs_def)
qed


text \<open>Witness: the same node among four, one of them faulty.\<close>

theorem main_coin_threshold_witness:
  "\<exists>nd sys. contact_setup = ((nd, Some sys), GoNil) \<and> unat (ctc_t (sys_ct sys)) = 2
    \<and> unat (ctc_t (sys_ct sys)) + 1 \<le> card (correct default_cfg)"
proof -
  obtain nd sys where s: "contact_setup = ((nd, Some sys), GoNil)" using contact_setup_ok by blast
  show ?thesis using main_coin_threshold [OF s [unfolded contact_setup_def] default_cfg_ok] s
    by (intro exI [of _ nd] exI [of _ sys]) (simp add: default_props_def)
qed

end
