(* ===== verification/Round_Progress.thy ===== *)
theory Round_Progress
  imports BCA_Liveness MMR_Round
begin

text \<open>
  What an implementation of a round must do for the round to end.  The locale \<open>bca_progress\<close> extends the
  contract \<open>bca_impl\<close>: an operation never forgets to act on what it has counted, and once no goroutine can
  move the node has voted, bound and decided whatever a quorum supports.  Both crusader agreements and
  their union keep it.  From the contract follows progress for unanimous rounds: when every correct
  node has echoed one value, and nothing else was proposed, every correct node decides it.
\<close>

section \<open>Settled views\<close>

definition settled_view :: "net_cfg \<Rightarrow> bca_view \<Rightarrow> bool" where
  "settled_view c w \<longleftrightarrow> (\<forall>v. isInputValid v \<longrightarrow>
     (strong_quorum c (v_echoes w v) \<longrightarrow> v_sentVote w \<noteq> {})
     \<and> (strong_quorum c (v_votes w v) \<longrightarrow> v_sentBind w \<noteq> {})
     \<and> (strong_quorum c (v_binds w v) \<longrightarrow> v_decided w \<noteq> {}))"

definition views_delivered :: "net_cfg \<Rightarrow> (uuid \<Rightarrow> bca_view) \<Rightarrow> bool" where
  "views_delivered c V \<longleftrightarrow> (\<forall>p \<in> correct c. \<forall>x \<in> correct c. \<forall>v.
     (v \<in> v_sentEcho (V x) \<longrightarrow> x \<in> v_echoes (V p) v)
     \<and> (v \<in> v_sentVote (V x) \<longrightarrow> x \<in> v_votes (V p) v)
     \<and> (v \<in> v_sentBind (V x) \<longrightarrow> x \<in> v_binds (V p) v))"

lemma settled_init: "byz_ok c \<Longrightarrow> settled_view c init_view"
  by (simp add: settled_view_def init_view_def strong_pos)

text \<open>If every correct node echoed \<open>v\<close> and none proposed anything else, all of them decide \<open>v\<close>.\<close>

lemma echoed_decides:
  assumes ok: "byz_ok c" and r: "bca_vreach c V" and only: "only_proposed c V v" and v: "isInputValid v"
    and echo: "\<And>p. p \<in> correct c \<Longrightarrow> v \<in> v_sentEcho (V p)"
    and del: "views_delivered c V" and settled: "\<And>p. p \<in> correct c \<Longrightarrow> settled_view c (V p)"
    and p: "p \<in> correct c"
  shows "v_decided (V p) = {v}"
proof -
  have sub: "v_echoes (V q) u \<subseteq> procs c" "v_votes (V q) u \<subseteq> procs c" "v_binds (V q) u \<subseteq> procs c" for q u
    using vreach_evidence [OF r ok, of q] by (auto simp: bca_evidence_def)
  have sent: "only_sent (V q) v" if "q \<in> correct c" for q by (rule vreach_unanimity [OF r ok only v that])
  have full: "strong_quorum c A" if "correct c \<subseteq> A" "A \<subseteq> procs c" for A
    by (rule byzq.strong_mono [OF ok byzq.correct_strong [OF ok] that])
  have vote: "v \<in> v_sentVote (V q)" if q: "q \<in> correct c" for q
  proof -
    have "correct c \<subseteq> v_echoes (V q) v" using del echo q by (auto simp: views_delivered_def)
    then have "v_sentVote (V q) \<noteq> {}" using settled [OF q] v full [OF _ sub(1)] by (auto simp: settled_view_def)
    then show ?thesis using sent [OF q] by (auto simp: only_sent_def)
  qed
  have bind: "v \<in> v_sentBind (V q)" if q: "q \<in> correct c" for q
  proof -
    have "correct c \<subseteq> v_votes (V q) v" using del vote q by (auto simp: views_delivered_def)
    then have "v_sentBind (V q) \<noteq> {}" using settled [OF q] v full [OF _ sub(2)] by (auto simp: settled_view_def)
    then show ?thesis using sent [OF q] by (auto simp: only_sent_def)
  qed
  have "correct c \<subseteq> v_binds (V p) v" using del bind p by (auto simp: views_delivered_def)
  then have "v_decided (V p) \<noteq> {}" using settled [OF p] v full [OF _ sub(3)] by (auto simp: settled_view_def)
  then show ?thesis using sent [OF p] by (auto simp: only_sent_def)
qed

section \<open>The contract\<close>

text \<open>\<open>live c k s\<close>: the node has acted on everything it counted; \<open>k\<close> is the coin of the round before.\<close>

locale bca_progress = bca_impl fresh propose submitEcho submitVote submitBind run fast view inv
  for fresh :: "net_cfg \<Rightarrow> 's \<Rightarrow> bool"
    and propose :: "byte \<Rightarrow> byte \<Rightarrow> 's \<Rightarrow> 's \<times> 'e outcome"
    and submitEcho submitVote submitBind :: "byte \<Rightarrow> uuid \<Rightarrow> 's \<Rightarrow> 's \<times> 'e outcome"
    and run :: "'s \<Rightarrow> 's \<Rightarrow> bool"
    and fast :: "byte \<Rightarrow> byte \<Rightarrow> 's \<Rightarrow> bool"
    and view :: "byte set \<Rightarrow> byte set \<Rightarrow> 's \<Rightarrow> bca_view"
    and inv :: "net_cfg \<Rightarrow> byte set \<Rightarrow> byte set \<Rightarrow> 's \<Rightarrow> bool" +
  fixes live :: "net_cfg \<Rightarrow> byte \<Rightarrow> 's \<Rightarrow> bool"
  assumes fresh_live: "byz_ok c \<Longrightarrow> fresh c s \<Longrightarrow> live c k s"
    and propose_live: "\<lbrakk>byz_ok c; inv c P F s; live c k s; propose est k s = (s', r); isInputValid est\<rbrakk> \<Longrightarrow> live c k s'"
    and propose_echoes: "\<lbrakk>byz_ok c; inv c P F s; live c k s; propose est k s = (s', GoNil); isInputValid est; est \<noteq> k\<rbrakk>
      \<Longrightarrow> est \<in> v_sentEcho (view P' F' s')"
    and submitEcho_live: "\<lbrakk>byz_ok c; int_sized c; inv c P F s; live c k s; submitEcho v x s = (s', r)\<rbrakk> \<Longrightarrow> live c k s'"
    and submitVote_live: "\<lbrakk>byz_ok c; int_sized c; inv c P F s; live c k s; submitVote v x s = (s', r)\<rbrakk> \<Longrightarrow> live c k s'"
    and submitBind_live: "\<lbrakk>byz_ok c; int_sized c; inv c P F s; live c k s; x \<in> procs c; submitBind v x s = (s', r)\<rbrakk>
      \<Longrightarrow> live c k s'"
    and run_live: "\<lbrakk>inv c P F s; live c k s; run s s'\<rbrakk> \<Longrightarrow> live c k s'"
    and stuck_settled: "\<lbrakk>inv c P F s; live c k s; \<And>s'. \<not> run s s'\<rbrakk> \<Longrightarrow> settled_view c (view P F s)"
begin

text \<open>A round whose correct nodes all hold such a state, are stuck and have echoed one value, has decided it.\<close>

lemma stuck_decides:
  assumes "byz_ok c" and "bca_vreach c V" and "only_proposed c V v" and "isInputValid v"
    and node: "\<And>p. p \<in> correct c \<Longrightarrow> V p = view (P p) (F p) (st p) \<and> inv c (P p) (F p) (st p) \<and> live c k (st p)
      \<and> (\<forall>s'. \<not> run (st p) s') \<and> v \<in> v_sentEcho (V p)"
    and "views_delivered c V" and "p \<in> correct c"
  shows "v_decided (V p) = {v}"
proof (rule echoed_decides [OF assms(1-4) _ assms(6) _ assms(7)])
  show "v \<in> v_sentEcho (V q)" if "q \<in> correct c" for q using node [OF that] by blast
  show "settled_view c (V q)" if "q \<in> correct c" for q using node [OF that] stuck_settled by metis
qed

end

section \<open>The agreement of the first round\<close>

lemma iv_live_less: "iv_live c Q s \<Longrightarrow> iv_live c {} s"
  by (simp add: iv_live_def live_echo_def)

lemma iv_propose_outcome:
  assumes "iv_inv c P s" and "iv_propose v k s = (s', r)"
  shows "s' = s \<or> r = GoNil"
proof -
  have "inv_echo c P s" using assms(1) by (simp add: iv_inv_def)
  from iv_propose_eq [OF this, of v k] assms(2) show ?thesis by (auto split: if_splits)
qed

lemma iv_stuck_settled:
  assumes inv: "iv_inv c P s" and live: "iv_live c Q s" and stuck: "\<And>s'. \<not> iv_run s s'"
  shows "settled_view c (bca_view_of P F s)"
proof -
  have idle: "iv_idle s" using stuck iv_idle_run by blast
  have "ch_sent (bcastVoteChan s) \<noteq> []" if "isInputValid v" "strong_quorum c (bca_echoes s v)" for v
  proof -
    have "v \<in> set (ch_sent (approveValChan s))" using live that by (auto simp: iv_live_def live_echo_def)
    then have "ch_sent (approveValChan s) \<noteq> []" by auto
    from idle_votes [OF inv idle this] show ?thesis by auto
  qed
  moreover have "ch_sent (bcastBindChan s) \<noteq> []" if "isInputValid v" "strong_quorum c (bca_voted s v)" for v
    using idle_binds [OF inv live idle] live that by (auto simp: iv_live_def live_vote_def)
  moreover have "ch_sent (outputDecision s) \<noteq> []" if "strong_quorum c (bca_bound s v)" for v
  proof -
    have "v \<in> set (ch_sent (terminateValChan s))" using live that by (auto simp: iv_live_def live_bind_def)
    then have "ch_sent (terminateValChan s) \<noteq> []" by auto
    with idle_decides [OF inv idle] show ?thesis by blast
  qed
  ultimately show ?thesis by (simp add: settled_view_def bca_view_of_def)
qed

interpretation ivp: bca_progress "\<lambda>c s. s = newBCA (cfg_n c) (cfg_f c)" iv_propose iv_submitEcho iv_submitVote
  iv_submitBind iv_run "\<lambda>_ _ _. False" bca_view_of "\<lambda>c P F s. F = {} \<and> iv_inv c P s" "\<lambda>c k s. iv_live c {} s"
proof (unfold_locales, goal_cases)
  case (1 c s k)
  then show ?case by (simp add: iv_live_init)
next
  case (2 c P F s k est s' r)
  then show ?case using iv_propose_outcome iv_propose_live iv_live_less by metis
next
  case (3 c P F s k est s' P' F')
  then have "iv_live c (insert est {}) s'" "iv_inv c (insert est P) s'" using iv_propose_live [of c P s "{}" est k s'] ivb.propose_inv by auto
  then show ?case by (auto simp: iv_live_def live_echo_def iv_inv_def bca_view_of_def)
next
  case (4 c P F s k v x s' r)
  then show ?case using iv_submitEcho_live by blast
next
  case (5 c P F s k v x s' r)
  then show ?case using iv_submitVote_live by blast
next
  case (6 c P F s k x v s' r)
  then show ?case using iv_submitBind_live by blast
next
  case (7 c P F s k s')
  then show ?case using iv_run_live by blast
next
  case (8 c P F s k)
  then show ?case using iv_stuck_settled by blast
qed

section \<open>The agreement of later rounds\<close>

text \<open>
  An echo is withheld only for the value of the coin before, which \<^verbatim>\<open>fastForward\<close> marks as sent.  A full
  buffer makes a handler wait, but then the buffer is not empty, and that is all that progress needs.
\<close>

definition ev_acts :: "net_cfg \<Rightarrow> byte \<Rightarrow> evbca \<Rightarrow> bool" where
  "ev_acts c k e \<longleftrightarrow> ch_cap (approveValChan e) > 0 \<and> ch_cap (bindValChan e) > 0
     \<and> (\<forall>v. isInputValid v \<longrightarrow> v \<noteq> k \<longrightarrow> sentEchoes e v \<longrightarrow> v \<in> set (ch_sent (bcastEchoChan e)))
     \<and> (\<forall>v. isInputValid v \<longrightarrow> strong_quorum c (bca_echoes e v) \<longrightarrow> ch_sent (approveValChan e) \<noteq> [])
     \<and> live_vote c e
     \<and> (\<forall>v. isInputValid v \<longrightarrow> strong_quorum c (bca_bound e v) \<longrightarrow> ch_sent (terminateValChan e) \<noteq> [])"

definition ev_starts :: "evbca \<Rightarrow> bool" where
  "ev_starts e \<longleftrightarrow> ch_cap (outputExternalValidChan e) > 0 \<and> ch_cap (bcastVoteChan e) > 0
     \<and> (ev_pc e = EFirst \<longrightarrow> ch_taken (approveValChan e) = 0)
     \<and> (ev_pc e = EFirst \<or> (\<exists>v. ev_pc e = EExt v) \<longrightarrow> ch_sent (outputExternalValidChan e) = [])"

definition ev_live :: "net_cfg \<Rightarrow> byte \<Rightarrow> evbca \<Rightarrow> bool" where
  "ev_live c k e \<longleftrightarrow> ev_acts c k e \<and> ev_starts e"

lemma ev_live_init: "byz_ok c \<Longrightarrow> ev_live c k (newEVBCA (cfg_n c) (cfg_f c))"
  by (simp add: ev_live_def ev_acts_def ev_starts_def newEVBCA_def live_vote_def strong_pos)

lemma full_nonempty: "0 < ch_cap ch \<Longrightarrow> chan_send v ch = None \<Longrightarrow> ch_sent ch \<noteq> []"
  by (auto simp: chan_send_def split: if_splits)

lemma put_approve_live:
  assumes "ev_live c k e"
  shows "ev_live c k (fst (chan_put approveValChan approveValChan_update v e :: evbca \<times> bca_error outcome))"
    and "ch_sent (approveValChan (fst (chan_put approveValChan approveValChan_update v e :: evbca \<times> bca_error outcome))) \<noteq> []"
  using assms full_nonempty [of "approveValChan e" v]
  by (auto simp: chan_put_def ev_live_def ev_acts_def ev_starts_def live_vote_def chan_send_def split: option.splits if_splits)

lemma put_bindval_live:
  assumes "ev_live c k e"
  shows "ev_live c k (fst (chan_put bindValChan bindValChan_update v e :: evbca \<times> bca_error outcome))"
    and "ch_sent (bindValChan (fst (chan_put bindValChan bindValChan_update v e :: evbca \<times> bca_error outcome))) \<noteq> []"
  using assms full_nonempty [of "bindValChan e" v]
  by (auto simp: chan_put_def ev_live_def ev_acts_def ev_starts_def live_vote_def chan_send_def split: option.splits if_splits)

lemma put_prevcoin_live:
  "ev_live c k e \<Longrightarrow> ev_live c k (fst (chan_put prevCoinChan prevCoinChan_update v e :: evbca \<times> bca_error outcome))"
  by (simp add: chan_put_def ev_live_def ev_acts_def ev_starts_def live_vote_def split: option.split)

lemma broadcast_live:
  assumes "inv_echo c P e" and "isInputValid v" and "\<not> sentEchoes e v" and "ev_live c k e"
  shows "ev_live c k (fst (broadcastEcho v e)) \<and> v \<in> set (ch_sent (bcastEchoChan (fst (broadcastEcho v e))))"
  using broadcastEcho_eq [OF assms(1-3)] assms(4)
  by (auto simp: ev_live_def ev_acts_def ev_starts_def live_vote_def)

lemma ev_propose_live:
  assumes inv: "ev_inv c P F e" and live: "ev_live c k e" and op: "ev_propose est k e = (e', r)" and v: "isInputValid est"
  shows "ev_live c k e'" and "r = GoNil \<Longrightarrow> est \<noteq> k \<Longrightarrow> est \<in> set (ch_sent (bcastEchoChan e'))"
proof -
  have ie: "inv_echo c P e" using inv by (simp add: ev_inv_def)
  have nbot: "\<not> est > bot" "est \<noteq> bot" using v by (auto simp: isInputValid_def bot_def)
  have flag: "ev_live c k (e\<lparr>sentEchoes := (sentEchoes e)(est := True)\<rparr>)" if "est = k"
    using live that by (simp add: ev_live_def ev_acts_def ev_starts_def live_vote_def)
  have ff: "ev_live c k (fst (fastForward est e))" if "est = k"
    using put_approve_live(1) [OF flag [OF that], of est] put_bindval_live(1) by (auto simp: fastForward_def fst_and_then)
  let ?m = "if sentEchoes e est then (e, GoNil) else ev_broadcastEcho est e"
  have m: "ev_live c k (fst ?m)" "est \<noteq> k \<Longrightarrow> est \<in> set (ch_sent (bcastEchoChan (fst ?m)))"
    using broadcast_live [OF ie v _ live] live v by (auto simp: ev_same_as_iv ev_live_def ev_acts_def)
  have e': "e' = e \<or> est = k \<and> e' = fst (fastForward est e)
      \<or> est \<noteq> k \<and> e' = fst (and_then ?m (chan_put prevCoinChan prevCoinChan_update k))"
    using op nbot by (auto simp: ev_propose_def split: if_splits dest: arg_cong [of _ _ fst])
  moreover have slow: "ev_live c k (fst (and_then ?m (chan_put prevCoinChan prevCoinChan_update k)))"
    using m(1) put_prevcoin_live by (auto simp: fst_and_then)
  ultimately show "ev_live c k e'" using live ff by auto
  show "est \<in> set (ch_sent (bcastEchoChan e'))" if "r = GoNil" "est \<noteq> k"
  proof -
    have "isInputValid k" "e' = fst (and_then ?m (chan_put prevCoinChan prevCoinChan_update k))"
      using op nbot that by (auto simp: ev_propose_def split: if_splits dest: arg_cong [of _ _ fst])
    then show ?thesis using m(2) [OF that(2)]
      by (auto simp: fst_and_then chan_put_def split: option.splits if_splits)
  qed
qed

lemma ev_submitEcho_live:
  assumes inv: "ev_inv c P F e" and live: "ev_live c k e" and ok: "byz_ok c" "int_sized c"
    and op: "ev_submitEcho v x e = (e', r)"
  shows "ev_live c k e'"
proof (cases "isInputValid v \<and> x \<notin> bca_echoes e v")
  case False
  then show ?thesis using live op by (auto simp: ev_submitEcho_def split: if_splits)
next
  case True
  let ?A = "insert x (bca_echoes e v)"
  let ?e1 = "e\<lparr>bca_echoes := (bca_echoes e)(v := ?A)\<rparr>"
  let ?m = "if int (card ?A) = int_of_uint (bca_f e + 1) \<and> \<not> sentEchoes e v then broadcastEcho v ?e1 else (?e1, GoNil)"
  let ?put = "\<lambda>e2. chan_put approveValChan approveValChan_update v e2 :: evbca \<times> bca_error outcome"
  have nf: "bca_n e = cfg_n c" "bca_f e = cfg_f c" using inv by (simp_all add: ev_inv_def inv_sets_def)
  have hit: "int (card ?A) = int_of_uint (cfg_n c - cfg_f c)" if "strong_quorum c ?A" "\<not> strong_quorum c (bca_echoes e v)"
    using strong_hit [OF conjunct2 [OF True] that] threshold_hits(1) [OF ok] by blast
  have almost: "ev_live c k (e0\<lparr>bca_echoes := (bca_echoes e)(v := ?A)\<rparr>)"
    if "ev_live c k e0" "bca_echoes e0 = bca_echoes e" "ch_sent (approveValChan e0) \<noteq> [] \<or> \<not> strong_quorum c ?A" for e0
    using that by (auto simp: ev_live_def ev_acts_def ev_starts_def live_vote_def)
  define e0 where "e0 = (if int (card ?A) = int_of_uint (bca_f e + 1) \<and> \<not> sentEchoes e v then fst (broadcastEcho v e) else e)"
  have e0: "ev_live c k e0" "bca_echoes e0 = bca_echoes e" "approveValChan e0 = approveValChan e"
    using live broadcast_live [OF _ _ _ live, of P v] inv True
    by (auto simp: e0_def ev_inv_def broadcastEcho_def fst_chan_put)
  have m: "fst ?m = e0\<lparr>bca_echoes := (bca_echoes e)(v := ?A)\<rparr>"
    by (auto simp: e0_def broadcastEcho_def chan_put_def split: option.split)
  have nfm: "bca_n (fst ?m) = cfg_n c" "bca_f (fst ?m) = cfg_f c"
    using nf by (auto simp: broadcastEcho_def fst_chan_put)
  have "ev_submitEcho v x e = and_then ?m (\<lambda>e2. if int (card ?A) = int_of_uint (bca_n e2 - bca_f e2) then ?put e2 else (e2, GoNil))"
    unfolding ev_submitEcho_def Let_def ev_same_as_iv using True by simp
  moreover have nb: "snd ?m = GoNil"
    using broadcastEcho_eq [of c UNIV ?e1 v] inv True by (auto simp: ev_inv_def inv_echo_def)
  ultimately have e': "e' = (if int (card ?A) = int_of_uint (cfg_n c - cfg_f c) then fst (?put (fst ?m)) else fst ?m)"
    using op nfm by (cases ?m) (auto simp: fst_and_then dest: arg_cong [of _ _ fst] split: if_splits)
  show ?thesis
  proof (cases "int (card ?A) = int_of_uint (cfg_n c - cfg_f c)")
    case True
    note p = put_approve_live [OF e0(1), of v]
    have "fst (?put (fst ?m)) = (fst (?put e0))\<lparr>bca_echoes := (bca_echoes e)(v := ?A)\<rparr>"
      unfolding m by (auto simp: chan_put_def split: option.split)
    moreover have "bca_echoes (fst (?put e0)) = bca_echoes e" using e0(2) by (simp add: fst_chan_put)
    ultimately show ?thesis using e' True almost [OF p(1)] p(2) by simp
  next
    case False
    then have "ch_sent (approveValChan e0) \<noteq> [] \<or> \<not> strong_quorum c ?A"
      using hit live True \<open>isInputValid v \<and> _\<close> by (auto simp: e0(3) ev_live_def ev_acts_def)
    then show ?thesis using e' False almost [OF e0(1,2)] m by simp
  qed
qed

lemma ev_submitVote_live:
  assumes inv: "ev_inv c P F e" and live: "ev_live c k e" and ok: "byz_ok c" "int_sized c"
    and op: "ev_submitVote v x e = (e', r)"
  shows "ev_live c k e'"
proof (cases "isInputValid v \<and> x \<notin> bca_voted e 0 \<and> x \<notin> bca_voted e 1")
  case False
  then show ?thesis using live op by (auto simp: ev_submitVote_def split: if_splits)
next
  case True
  let ?A = "insert x (bca_voted e v)"
  let ?set = "\<lambda>e0. e0\<lparr>bca_voted := (bca_voted e)(v := ?A)\<rparr>"
  let ?put = "\<lambda>e2. chan_put bindValChan bindValChan_update v e2 :: evbca \<times> bca_error outcome"
  have xv: "x \<notin> bca_voted e v" and o: "isInputValid (1 - v)" "1 - v \<noteq> v" using True by (auto simp: isInputValid_def)
  have nf: "bca_n e = cfg_n c" "bca_f e = cfg_f c" using inv by (simp_all add: ev_inv_def inv_sets_def)
  let ?hit = "card ?A = unat (cfg_n c - cfg_f c) \<and> card (bca_voted e (1 - v)) < unat (cfg_n c - cfg_f c)"
  have e': "e' = (if ?hit then fst (?put (?set e)) else ?set e)"
    using op True nf o(2) by (auto simp: ev_submitVote_def Let_def threshold_hits [OF ok] dest: arg_cong [of _ _ fst] split: if_splits)
  have almost: "ev_live c k (?set e0)"
    if "ev_live c k e0" "bca_voted e0 = bca_voted e" "ch_sent (bindValChan e0) \<noteq> [] \<or> \<not> strong_quorum c ?A" for e0
    using that by (auto simp: ev_live_def ev_acts_def ev_starts_def live_vote_def)
  show ?thesis
  proof (cases ?hit)
    case hit: True
    note p = put_bindval_live [OF live, of v]
    have "fst (?put (?set e)) = ?set (fst (?put e))" by (auto simp: chan_put_def split: option.split)
    moreover have "bca_voted (fst (?put e)) = bca_voted e" by (simp add: fst_chan_put)
    ultimately show ?thesis using e' hit almost [OF p(1)] p(2) by metis
  next
    case no: False
    have "ch_sent (bindValChan e) \<noteq> []" if "strong_quorum c ?A"
    proof (cases "strong_quorum c (bca_voted e v) \<or> strong_quorum c (bca_voted e (1 - v))")
      case True
      then show ?thesis using live o \<open>isInputValid v \<and> _\<close> by (auto simp: ev_live_def ev_acts_def live_vote_def)
    next
      case False
      then show ?thesis using strong_hit [OF xv that] no by (simp add: strong_quorum_def)
    qed
    then show ?thesis using e' no almost [OF live] by auto
  qed
qed

lemma ev_submitBind_live:
  assumes inv: "ev_inv c P F e" and live: "ev_live c k e" and ok: "byz_ok c" "int_sized c"
    and x: "x \<in> procs c" and op: "ev_submitBind v x e = (e', r)"
  shows "ev_live c k e'"
proof (cases "isInputValid v \<and> x \<notin> bca_bound e 0 \<and> x \<notin> bca_bound e 1 \<and> x \<notin> bca_bound e bot")
  case False
  then show ?thesis using live op by (auto simp: ev_submitBind_def split: if_splits)
next
  case True
  have parts: "inv_sets c e" "inv_term c (ev_token e) e" using inv by (simp_all add: ev_inv_def)
  have v: "v \<le> bot" and xv: "x \<notin> bca_bound e v" using True by (auto simp: isInputValid_def bot_def)
  obtain t b where e': "e' = count_bind v x t b e"
    and t: "t \<longleftrightarrow> card (insert x (bca_bound e v)) = unat (cfg_n c - cfg_f c)"
    using submitBind_iff [OF ok(1) parts x v] True op unfolding threshold_hits [OF ok] by (auto simp: ev_submitBind_valid)
  have "ch_sent (terminateValChan e') \<noteq> []" if "isInputValid u" "strong_quorum c (bca_bound e' u)" for u
  proof (cases "strong_quorum c (bca_bound e u)")
    case True
    then show ?thesis using live that e' by (auto simp: ev_live_def ev_acts_def count_bind_def)
  next
    case False
    then have "u = v" using that e' by (auto simp: count_bind_def split: if_splits)
    then have t using strong_hit [OF xv] that False e' by (simp add: t count_bind_def)
    then show ?thesis using e' by (simp add: count_bind_def)
  qed
  then show ?thesis using live e' by (auto simp: ev_live_def ev_acts_def ev_starts_def live_vote_def count_bind_def)
qed

lemma ev_waitToVote_live:
  assumes "ev_live c k e" and "ev_waitToVote b e = Some e'"
  shows "ev_live c k e'"
  using assms(2)
  by (cases rule: ev_waitToVote_cases) (use assms(1) in \<open>auto simp: ev_live_def ev_acts_def ev_starts_def live_vote_def\<close>)

lemma ev_run_live:
  assumes live: "ev_live c k e" and "ev_run e e'"
  shows "ev_live c k e'"
proof -
  obtain b where "ev_waitToVote b e = Some e' \<or> iv_waitToBind b e = Some e' \<or> iv_waitToDecide b e = Some e'"
    using assms(2) by (auto simp: ev_run_def ev_same_as_iv)
  then show ?thesis
  proof (elim disjE)
    assume "iv_waitToBind b e = Some e'"
    then show ?thesis
      by (cases rule: iv_waitToBind_cases) (use live in \<open>auto simp: ev_live_def ev_acts_def ev_starts_def live_vote_def\<close>)
  next
    assume "iv_waitToDecide b e = Some e'"
    then show ?thesis
      by (cases rule: iv_waitToDecide_cases) (use live in \<open>auto simp: ev_live_def ev_acts_def ev_starts_def live_vote_def\<close>)
  qed (rule ev_waitToVote_live [OF live])
qed

lemma ev_stuck_votes:
  assumes inv: "ev_inv c P F e" and live: "ev_live c k e" and stuck: "ev_waitToVote False e = None"
    and "ch_sent (approveValChan e) \<noteq> []"
  shows "ch_sent (bcastVoteChan e) \<noteq> []"
proof (rule ccontr)
  assume none: "\<not> ?thesis"
  have v: "ev_votes e" and st: "ev_starts e" using inv live by (simp_all add: ev_inv_def ev_live_def)
  have "ev_pc e = EFirst \<or> (\<exists>u. ev_pc e = EExt u) \<or> (\<exists>u. ev_pc e = EBcast u)"
    using v none by (cases "ev_pc e") (auto simp: ev_votes_def)
  then show False using stuck st none assms(4)
    by (auto simp: ev_waitToVote_def ev_starts_def recv_then_def send_then_def chan_recv_def chan_send_def split: if_splits)
qed

lemma ev_stuck_settled:
  assumes inv: "ev_inv c P F e" and live: "ev_live c k e" and stuck: "\<And>e'. \<not> ev_run e e'"
  shows "settled_view c (bca_view_of P F e)"
proof -
  have w: "ev_waitToVote b e = None" "iv_waitToBind b e = None" "iv_waitToDecide b e = None" for b
    using stuck unfolding ev_run_def ev_same_as_iv by (meson not_Some_eq)+
  have acts: "ev_acts c k e" and b: "inv_bind e" and d: "inv_dec e" using inv live by (simp_all add: ev_inv_def ev_live_def)
  have "ch_sent (bcastVoteChan e) \<noteq> []" if "isInputValid v" "strong_quorum c (bca_echoes e v)" for v
    using ev_stuck_votes [OF inv live w(1)] acts that by (auto simp: ev_acts_def)
  moreover have "ch_sent (bcastBindChan e) \<noteq> []" if "isInputValid v" "strong_quorum c (bca_voted e v)" for v
  proof (cases "bind_pc e")
    case BWait
    then have "chan_recv (bindValChan e) = None" using w(2) [of False] by (auto simp: iv_waitToBind_def recv_then_def split: option.splits)
    then show ?thesis using acts that BWait by (auto simp: ev_acts_def live_vote_def chan_recv_None)
  next
    case (BBcast u)
    then show ?thesis using w(2) [of False] b by (auto simp: iv_waitToBind_def send_then_def chan_send_def inv_bind_def split: if_splits)
  next
    case BDone
    then show ?thesis using b by (auto simp: inv_bind_def)
  qed
  moreover have "ch_sent (outputDecision e) \<noteq> []" if "isInputValid v" "strong_quorum c (bca_bound e v)" for v
  proof (cases "decide_pc e \<in> {DWait, DWaitVal}")
    case True
    then have "chan_recv (terminateValChan e) = None" "ch_taken (terminateValChan e) = 0"
      using w(3) [of False] d by (auto simp: iv_waitToDecide_def recv_then_def inv_dec_def split: option.splits)
    then show ?thesis using acts that by (auto simp: ev_acts_def chan_recv_None)
  next
    case False
    then show ?thesis using w(3) [of False] d
      by (cases "decide_pc e") (auto simp: iv_waitToDecide_def send_then_def chan_send_def inv_dec_def split: if_splits)
  qed
  ultimately show ?thesis by (simp add: settled_view_def bca_view_of_def)
qed

interpretation evp: bca_progress "\<lambda>c e. e = newEVBCA (cfg_n c) (cfg_f c)" ev_propose ev_submitEcho ev_submitVote
  ev_submitBind ev_run "\<lambda>est coin _. est = coin" bca_view_of ev_inv ev_live
proof (unfold_locales, goal_cases)
  case (1 c s k)
  then show ?case by (simp add: ev_live_init)
next
  case (2 c P F s k est s' r)
  then show ?case using ev_propose_live(1) by blast
next
  case (3 c P F s k est s' P' F')
  then show ?case using ev_propose_live(2) by (simp add: bca_view_of_def)
next
  case (4 c P F s k v x s' r)
  then show ?case using ev_submitEcho_live by blast
next
  case (5 c P F s k v x s' r)
  then show ?case using ev_submitVote_live by blast
next
  case (6 c P F s k x v s' r)
  then show ?case using ev_submitBind_live by blast
next
  case (7 c P F s k s')
  then show ?case using ev_run_live by blast
next
  case (8 c P F s k)
  then show ?case using ev_stuck_settled by blast
qed

section \<open>Either agreement behind the interface\<close>

fun bca_live :: "net_cfg \<Rightarrow> byte \<Rightarrow> bca \<Rightarrow> bool" where
  "bca_live c k (IV s) \<longleftrightarrow> iv_live c {} s"
| "bca_live c k (EV e) \<longleftrightarrow> ev_live c k e"

lemma bca_stuck_settled:
  assumes "bca_inv c P F b" and "bca_live c k b" and "\<And>b'. \<not> bca_goroutine b b'"
  shows "settled_view c (bca_view P F b)"
proof (cases b)
  case (IV s)
  then have "\<not> iv_run s s'" for s' using assms(3) [of "IV s'"] by auto
  then show ?thesis using iv_stuck_settled assms(1,2) IV by auto
next
  case (EV e)
  then have "\<not> ev_run e e'" for e' using assms(3) [of "EV e'"] by auto
  then show ?thesis using ev_stuck_settled assms(1,2) EV by auto
qed

lemma bca_split:
  "bca_propose est k b = (b', r) \<Longrightarrow> (\<exists>s s'. b = IV s \<and> b' = IV s' \<and> iv_propose est k s = (s', r))
     \<or> (\<exists>e e'. b = EV e \<and> b' = EV e' \<and> ev_propose est k e = (e', r))"
  "bca_submitEcho v x b = (b', r) \<Longrightarrow> (\<exists>s s'. b = IV s \<and> b' = IV s' \<and> iv_submitEcho v x s = (s', r))
     \<or> (\<exists>e e'. b = EV e \<and> b' = EV e' \<and> ev_submitEcho v x e = (e', r))"
  "bca_submitVote v x b = (b', r) \<Longrightarrow> (\<exists>s s'. b = IV s \<and> b' = IV s' \<and> iv_submitVote v x s = (s', r))
     \<or> (\<exists>e e'. b = EV e \<and> b' = EV e' \<and> ev_submitVote v x e = (e', r))"
  "bca_submitBind v x b = (b', r) \<Longrightarrow> (\<exists>s s'. b = IV s \<and> b' = IV s' \<and> iv_submitBind v x s = (s', r))
     \<or> (\<exists>e e'. b = EV e \<and> b' = EV e' \<and> ev_submitBind v x e = (e', r))"
  "bca_goroutine b b' \<Longrightarrow> (\<exists>s s'. b = IV s \<and> b' = IV s' \<and> iv_run s s') \<or> (\<exists>e e'. b = EV e \<and> b' = EV e' \<and> ev_run e e')"
  by (cases b; auto simp: apfst_eq)+

interpretation rp: bca_progress bca_fresh bca_propose bca_submitEcho bca_submitVote bca_submitBind bca_goroutine
  bca_fast bca_view bca_inv bca_live
proof (unfold_locales, goal_cases)
  case (1 c s k)
  then show ?case by (cases s) (auto simp: iv_live_init ev_live_init)
next
  case (2 c P F s k est s' r)
  then show ?case using bca_split(1) [OF 2(4)] by (elim disjE exE conjE; simp; blast intro: ivp.propose_live evp.propose_live)
next
  case (3 c P F s k est s' P' F')
  then show ?case using bca_split(1) [OF 3(4)] by (elim disjE exE conjE; simp; blast intro: ivp.propose_echoes evp.propose_echoes)
next
  case (4 c P F s k v x s' r)
  then show ?case using bca_split(2) [OF 4(5)] by (elim disjE exE conjE; simp; blast intro: ivp.submitEcho_live evp.submitEcho_live)
next
  case (5 c P F s k v x s' r)
  then show ?case using bca_split(3) [OF 5(5)] by (elim disjE exE conjE; simp; blast intro: ivp.submitVote_live evp.submitVote_live)
next
  case (6 c P F s k x v s' r)
  then show ?case using bca_split(4) [OF 6(6)] by (elim disjE exE conjE; simp; blast intro: ivp.submitBind_live evp.submitBind_live)
next
  case (7 c P F s k s')
  then show ?case using bca_split(5) [OF 7(3)] by (elim disjE exE conjE; simp; blast intro: ivp.run_live evp.run_live)
next
  case (8 c P F s k)
  then show ?case by (rule bca_stuck_settled)
qed

text \<open>Reading a broadcast channel or the decision from outside, or storing a value nothing reads, changes nothing.\<close>

lemma iv_live_taken [simp]:
  "iv_live c Q (s\<lparr>bcastEchoChan := (bcastEchoChan s)\<lparr>ch_taken := t0\<rparr>\<rparr>) = iv_live c Q s"
  "iv_live c Q (s\<lparr>bcastVoteChan := (bcastVoteChan s)\<lparr>ch_taken := t1\<rparr>\<rparr>) = iv_live c Q s"
  "iv_live c Q (s\<lparr>bcastBindChan := (bcastBindChan s)\<lparr>ch_taken := t2\<rparr>\<rparr>) = iv_live c Q s"
  "iv_live c Q (s\<lparr>outputDecision := (outputDecision s)\<lparr>ch_taken := t3\<rparr>\<rparr>) = iv_live c Q s"
  "iv_live c Q (s\<lparr>outputExternalValidChan := (outputExternalValidChan s)\<lparr>ch_taken := t4\<rparr>\<rparr>) = iv_live c Q s"
  by (simp_all add: iv_live_def live_parts vote_token_def all_bound_def)

lemma ev_live_taken [simp]:
  "ev_live c k (e\<lparr>bcastEchoChan := (bcastEchoChan e)\<lparr>ch_taken := t0\<rparr>\<rparr>) = ev_live c k e"
  "ev_live c k (e\<lparr>bcastVoteChan := (bcastVoteChan e)\<lparr>ch_taken := t1\<rparr>\<rparr>) = ev_live c k e"
  "ev_live c k (e\<lparr>bcastBindChan := (bcastBindChan e)\<lparr>ch_taken := t2\<rparr>\<rparr>) = ev_live c k e"
  "ev_live c k (e\<lparr>outputDecision := (outputDecision e)\<lparr>ch_taken := t3\<rparr>\<rparr>) = ev_live c k e"
  "ev_live c k (e\<lparr>outputExternalValidChan := (outputExternalValidChan e)\<lparr>ch_taken := t4\<rparr>\<rparr>) = ev_live c k e"
  by (simp_all add: ev_live_def ev_acts_def ev_starts_def live_vote_def)

lemma takes_live:
  "takeDecision b = Some (v, b') \<Longrightarrow> bca_live c k b' = bca_live c k b" "takeEcho b = Some (v, b') \<Longrightarrow> bca_live c k b' = bca_live c k b"
  "takeVote b = Some (v, b') \<Longrightarrow> bca_live c k b' = bca_live c k b" "takeBind b = Some (v, b') \<Longrightarrow> bca_live c k b' = bca_live c k b"
  "takeExternalValid b = Some (v, b') \<Longrightarrow> bca_live c k b' = bca_live c k b"
  by (cases b; auto simp: chan_recv_Some)+

lemma externallyValid_live: "bca_submitExternallyValid v b = (b', r) \<Longrightarrow> bca_live c k b' = bca_live c k b"
  by (cases b)
    (auto simp: ev_submitExternallyValid_def chan_put_def chan_send_def ev_live_def ev_acts_def ev_starts_def live_vote_def
      split: option.splits if_splits)

section \<open>The channels read from outside\<close>

fun getOutputDecision :: "bca \<Rightarrow> byte chan" where
  "getOutputDecision (IV s) = outputDecision s"
| "getOutputDecision (EV e) = outputDecision e"

fun getBcastEchoChan :: "bca \<Rightarrow> byte chan" where
  "getBcastEchoChan (IV s) = bcastEchoChan s"
| "getBcastEchoChan (EV e) = bcastEchoChan e"

fun getBcastVoteChan :: "bca \<Rightarrow> byte chan" where
  "getBcastVoteChan (IV s) = bcastVoteChan s"
| "getBcastVoteChan (EV e) = bcastVoteChan e"

fun getBcastBindChan :: "bca \<Rightarrow> byte chan" where
  "getBcastBindChan (IV s) = bcastBindChan s"
| "getBcastBindChan (EV e) = bcastBindChan e"

fun getOutputExternalValidChan :: "bca \<Rightarrow> byte chan" where
  "getOutputExternalValidChan (IV s) = outputExternalValidChan s"
| "getOutputExternalValidChan (EV e) = outputExternalValidChan e"

lemma getters_view:
  "v_decided (bca_view P F b) = set (ch_sent (getOutputDecision b))"
  "v_sentEcho (bca_view P F b) = set (ch_sent (getBcastEchoChan b))"
  "v_sentVote (bca_view P F b) = set (ch_sent (getBcastVoteChan b))"
  "v_sentBind (bca_view P F b) = set (ch_sent (getBcastBindChan b))"
  by (cases b; simp add: bca_view_of_def)+

text \<open>A read is a receive from the channel the getter returns.\<close>

lemma take_getters:
  "takeDecision b = Some (v, b') \<Longrightarrow> chan_recv (getOutputDecision b) = Some (v, getOutputDecision b')"
  "takeEcho b = Some (v, b') \<Longrightarrow> chan_recv (getBcastEchoChan b) = Some (v, getBcastEchoChan b')"
  "takeVote b = Some (v, b') \<Longrightarrow> chan_recv (getBcastVoteChan b) = Some (v, getBcastVoteChan b')"
  "takeBind b = Some (v, b') \<Longrightarrow> chan_recv (getBcastBindChan b) = Some (v, getBcastBindChan b')"
  by (cases b; auto)+

lemma take_None:
  "takeDecision b = None \<longleftrightarrow> chan_recv (getOutputDecision b) = None"
  "takeEcho b = None \<longleftrightarrow> chan_recv (getBcastEchoChan b) = None"
  "takeVote b = None \<longleftrightarrow> chan_recv (getBcastVoteChan b) = None"
  "takeBind b = None \<longleftrightarrow> chan_recv (getBcastBindChan b) = None"
  by (cases b; simp)+

text \<open>The agreement itself only sends on these channels.\<close>

definition ch_ext :: "'a chan \<Rightarrow> 'a chan \<Rightarrow> bool" where
  "ch_ext ch ch' \<longleftrightarrow> ch_taken ch' = ch_taken ch \<and> (\<exists>xs. ch_sent ch' = ch_sent ch @ xs)"

lemma ch_ext_refl [simp]: "ch_ext ch ch"
  by (simp add: ch_ext_def)

lemma ch_ext_app [simp]: "ch_ext ch (ch\<lparr>ch_sent := ch_sent ch @ xs\<rparr>)"
  by (simp add: ch_ext_def)

definition outs_ext :: "'a ivbca_scheme \<Rightarrow> 'a ivbca_scheme \<Rightarrow> bool" where
  "outs_ext s s' \<longleftrightarrow> ch_ext (outputDecision s) (outputDecision s') \<and> ch_ext (bcastEchoChan s) (bcastEchoChan s')
     \<and> ch_ext (bcastVoteChan s) (bcastVoteChan s') \<and> ch_ext (bcastBindChan s) (bcastBindChan s')"

definition bca_ext :: "bca \<Rightarrow> bca \<Rightarrow> bool" where
  "bca_ext b b' \<longleftrightarrow> ch_ext (getOutputDecision b) (getOutputDecision b') \<and> ch_ext (getBcastEchoChan b) (getBcastEchoChan b')
     \<and> ch_ext (getBcastVoteChan b) (getBcastVoteChan b') \<and> ch_ext (getBcastBindChan b) (getBcastBindChan b')"

lemma iv_ops_ext:
  "iv_propose est k s = (s', r) \<Longrightarrow> outs_ext s s'" "iv_submitEcho v x s = (s', r) \<Longrightarrow> outs_ext s s'"
  "iv_submitVote v x s1 = (s1', r) \<Longrightarrow> outs_ext s1 s1'" "iv_submitBind v x s1 = (s1', r) \<Longrightarrow> outs_ext s1 s1'"
  by (auto simp: iv_propose_def iv_submitEcho_def iv_submitVote_def iv_submitBind_def broadcastEcho_def Let_def outs_ext_def
      chan_put_def chan_send_def split: if_splits option.splits)

lemma ev_ops_ext:
  "ev_propose est k e = (e', r) \<Longrightarrow> outs_ext e e'" "ev_submitEcho v x e = (e', r) \<Longrightarrow> outs_ext e e'"
  "ev_submitVote v x e = (e', r) \<Longrightarrow> outs_ext e e'" "ev_submitBind v x e = (e', r) \<Longrightarrow> outs_ext e e'"
  "ev_submitExternallyValid v e = (e', r) \<Longrightarrow> outs_ext e e'"
  by (auto simp: ev_propose_def fastForward_def voteOnCoin_def ev_submitEcho_def ev_submitVote_def ev_submitBind_def
      ev_submitExternallyValid_def ev_broadcastEcho_def Let_def outs_ext_def chan_put_def chan_send_def
      split: if_splits option.splits)

lemma bind_decide_ext:
  "iv_waitToBind b s = Some s' \<Longrightarrow> outs_ext s s'" "iv_waitToDecide b s = Some s' \<Longrightarrow> outs_ext s s'"
proof -
  show "outs_ext s s'" if "iv_waitToBind b s = Some s'"
    using that by (cases rule: iv_waitToBind_cases) (auto simp: outs_ext_def)
  show "outs_ext s s'" if "iv_waitToDecide b s = Some s'"
    using that by (cases rule: iv_waitToDecide_cases) (auto simp: outs_ext_def)
qed

lemma votes_ext:
  "iv_waitToVote b s = Some s' \<Longrightarrow> outs_ext s s'" "ev_waitToVote b e = Some e' \<Longrightarrow> outs_ext e e'"
proof -
  show "outs_ext s s'" if "iv_waitToVote b s = Some s'"
    using that by (cases rule: iv_waitToVote_cases) (auto simp: outs_ext_def)
  show "outs_ext e e'" if "ev_waitToVote b e = Some e'"
    using that by (cases rule: ev_waitToVote_cases) (auto simp: outs_ext_def)
qed

lemma run_ext: "iv_run s s' \<Longrightarrow> outs_ext s s'" "ev_run e e' \<Longrightarrow> outs_ext e e'"
  using bind_decide_ext votes_ext unfolding iv_run_def ev_run_def ev_same_as_iv by blast+

lemma bca_ext_outs: "bca_ext (IV s) (IV s') = outs_ext s s'" "bca_ext (EV e) (EV e') = outs_ext e e'"
  by (simp_all add: bca_ext_def outs_ext_def)

lemma bca_ops_ext:
  "bca_propose est k b = (b', r) \<Longrightarrow> bca_ext b b'" "bca_submitEcho v x b = (b', r) \<Longrightarrow> bca_ext b b'"
  "bca_submitVote v x b = (b', r) \<Longrightarrow> bca_ext b b'" "bca_submitBind v x b = (b', r) \<Longrightarrow> bca_ext b b'"
  "bca_goroutine b b' \<Longrightarrow> bca_ext b b'" "bca_submitExternallyValid v b = (b', r) \<Longrightarrow> bca_ext b b'"
proof -
  show "bca_ext b b'" if "bca_propose est k b = (b', r)" using bca_split(1) [OF that] iv_ops_ext(1) ev_ops_ext(1) by (auto simp: bca_ext_outs)
  show "bca_ext b b'" if "bca_submitEcho v x b = (b', r)" using bca_split(2) [OF that] iv_ops_ext(2) ev_ops_ext(2) by (auto simp: bca_ext_outs)
  show "bca_ext b b'" if "bca_submitVote v x b = (b', r)" using bca_split(3) [OF that] iv_ops_ext(3) ev_ops_ext(3) by (auto simp: bca_ext_outs)
  show "bca_ext b b'" if "bca_submitBind v x b = (b', r)" using bca_split(4) [OF that] iv_ops_ext(4) ev_ops_ext(4) by (auto simp: bca_ext_outs)
  show "bca_ext b b'" if "bca_goroutine b b'" using bca_split(5) [OF that] run_ext by (auto simp: bca_ext_outs)
  show "bca_ext b b'" if "bca_submitExternallyValid v b = (b', r)"
    using that ev_ops_ext(5) by (cases b) (auto simp: bca_ext_outs apfst_eq, simp add: outs_ext_def)
qed

lemma bca_ext_sent:
  assumes "bca_ext b b'"
  shows "v_sentEcho (bca_view P F b) \<subseteq> v_sentEcho (bca_view P F b')" "v_decided (bca_view P F b) \<subseteq> v_decided (bca_view P F b')"
  using assms by (auto simp: getters_view bca_ext_def ch_ext_def)

end
