(* ===== verification/MMR_Liveness.thy ===== *)
theory MMR_Liveness
  imports MMR_Coin Round_Progress
begin

text \<open>
  When does the multi-round agreement end?  A network is settled when the messages, coins and decisions
  of the correct nodes have arrived and no goroutine of theirs can move.  If all correct nodes proposed
  the same value, a settled network in which the coin of some round is that value has decided it
  everywhere.  And in every settled network the termination gadget has spread a decision that \<open>f + 1\<close>
  correct nodes reached.  Beside the invariant of \<open>MMR_Node\<close>, \<open>node_live\<close> says that a node acts on what it
  has: the round's agreements do (\<open>bca_live\<close>), what the listener takes it hands over, a decided round asks
  for its coin, and a coin leads to a decision or to an echo in the next round.
\<close>

section \<open>A node acts on what it has\<close>

definition prevCoin :: "(uint16 \<Rightarrow> byte) \<Rightarrow> uint16 \<Rightarrow> byte" where
  "prevCoin coin r = (if r = 0 then bot else coin (r - 1))"

definition handed :: "uint16 \<Rightarrow> byte chan \<Rightarrow> (byte \<times> uint16) list \<Rightarrow> bool" where
  "handed r ch L \<longleftrightarrow> ch_taken ch \<le> length (ch_sent ch) \<and> (\<forall>v \<in> set (take (ch_taken ch) (ch_sent ch)). (v, r) \<in> set L)"

definition hands :: "mmr \<Rightarrow> uint16 \<Rightarrow> bca \<Rightarrow> bool" where
  "hands m r b \<longleftrightarrow> handed r (getBcastEchoChan b) (deliverEcho m) \<and> handed r (getBcastVoteChan b) (deliverVote m)
     \<and> handed r (getBcastBindChan b) (deliverBind m)"

definition echoed :: "mmr \<Rightarrow> uint16 \<Rightarrow> byte set" where
  "echoed m r = set (ch_sent (getBcastEchoChan (round_bca (round_at m r))))"

text \<open>What the coin of round \<open>r\<close> led to, when the round's agreement decided \<open>d\<close>.\<close>

definition after_coin :: "(uint16 \<Rightarrow> byte) \<Rightarrow> mmr \<Rightarrow> uint16 \<Rightarrow> byte \<Rightarrow> bool" where
  "after_coin coin m r d \<longleftrightarrow> (decided (transition d (coin r)) \<longrightarrow> hasDecided m)
     \<and> (\<not> decided (transition d (coin r)) \<and> estimate (transition d (coin r)) \<noteq> coin r \<and> r + 1 \<noteq> 0
        \<longrightarrow> estimate (transition d (coin r)) \<in> echoed m (r + 1))"

definition exec_live :: "(uint16 \<Rightarrow> byte) \<Rightarrow> mmr \<Rightarrow> uint16 \<Rightarrow> mmrRound \<Rightarrow> bool" where
  "exec_live coin m r rd \<longleftrightarrow>
     (exec_pc rd = XDec \<longrightarrow> ch_taken (getOutputDecision (round_bca rd)) = 0)
     \<and> (\<forall>d. exec_pc rd = XCoin d \<longrightarrow>
          ch_sent (coinReqChan rd) \<noteq> [] \<and> (ch_taken (coinReqChan rd) = 0 \<or> r \<in> set (coinReq m)))
     \<and> (exec_pc rd = XDone \<longrightarrow> (\<exists>d \<in> bca_decided (round_bca rd). after_coin coin m r d))"

definition round_live :: "net_cfg \<Rightarrow> (uint16 \<Rightarrow> byte) \<Rightarrow> mmr \<Rightarrow> uint16 \<Rightarrow> bool" where
  "round_live c coin m r \<longleftrightarrow> bca_live c (prevCoin coin r) (round_bca (round_at m r))
     \<and> hands m r (round_bca (round_at m r)) \<and> exec_live coin m r (round_at m r)"

definition term_live :: "net_cfg \<Rightarrow> mmrTermination \<Rightarrow> bool" where
  "term_live c t \<longleftrightarrow> ch_cap (term_deliverDecision t) > 0
     \<and> (\<forall>v. isInputValid v \<longrightarrow> unat (cfg_f c) < unat (results t v) \<longrightarrow> ch_sent (term_deliverDecision t) \<noteq> [])"

definition top_live :: "net_cfg \<Rightarrow> mmr \<Rightarrow> bool" where
  "top_live c m \<longleftrightarrow> (hasDecided m \<longrightarrow> ch_sent (reachedDecision m) \<noteq> [])
     \<and> (reach_pc m = RWait \<longrightarrow> ch_taken (reachedDecision m) = 0 \<and> ch_taken (term_deliverDecision (termGadget m)) = 0)
     \<and> ch_cap (deliverDecision m) > 0 \<and> length (ch_sent (deliverDecision m)) = (if reach_pc m = RDone then 1 else 0)
     \<and> term_live c (termGadget m)"

definition node_acts :: "net_cfg \<Rightarrow> (uint16 \<Rightarrow> byte) \<Rightarrow> byte set \<Rightarrow> mmr \<Rightarrow> bool" where
  "node_acts c coin I m \<longleftrightarrow> (\<forall>r. bca_live c (prevCoin coin r) (round_bca (round_at m r)) \<and> hands m r (round_bca (round_at m r)))
     \<and> top_live c m \<and> (\<forall>v \<in> I. isInputValid v \<longrightarrow> v \<in> echoed m 0)"

definition node_live :: "net_cfg \<Rightarrow> (uint16 \<Rightarrow> byte) \<Rightarrow> byte set \<Rightarrow> mmr \<Rightarrow> bool" where
  "node_live c coin I m \<longleftrightarrow> (\<forall>r. round_live c coin m r) \<and> top_live c m \<and> (\<forall>v \<in> I. isInputValid v \<longrightarrow> v \<in> echoed m 0)"

lemma node_live_iff: "node_live c coin I m \<longleftrightarrow> node_acts c coin I m \<and> (\<forall>r. exec_live coin m r (round_at m r))"
  by (auto simp: node_live_def node_acts_def round_live_def)

lemma node_liveD:
  assumes "node_live c coin I m"
  shows "bca_live c (prevCoin coin r) (round_bca (round_at m r))" "hands m r (round_bca (round_at m r))"
    "exec_live coin m r (round_at m r)" "top_live c m" "v \<in> I \<Longrightarrow> isInputValid v \<Longrightarrow> v \<in> echoed m 0" "round_live c coin m r"
  using assms by (auto simp: node_live_def round_live_def)

section \<open>What stays true when a node moves on\<close>

definition node_le :: "mmr \<Rightarrow> mmr \<Rightarrow> bool" where
  "node_le m m' \<longleftrightarrow> set (deliverEcho m) \<subseteq> set (deliverEcho m') \<and> set (deliverVote m) \<subseteq> set (deliverVote m')
     \<and> set (deliverBind m) \<subseteq> set (deliverBind m') \<and> set (coinReq m) \<subseteq> set (coinReq m')
     \<and> (hasDecided m \<longrightarrow> hasDecided m')
     \<and> (\<forall>r. echoed m r \<subseteq> echoed m' r \<and> bca_decided (round_bca (round_at m r)) \<subseteq> bca_decided (round_bca (round_at m' r)))"

lemma node_le_refl [simp]: "node_le m m"
  by (simp add: node_le_def)

lemma node_leD: "node_le m m' \<Longrightarrow> v \<in> echoed m r \<Longrightarrow> v \<in> echoed m' r"
  unfolding node_le_def by blast

lemma node_le_trans: "node_le a b \<Longrightarrow> node_le b d \<Longrightarrow> node_le a d"
  unfolding node_le_def by (meson order_trans)

lemma after_le: "after_coin coin m r d \<Longrightarrow> node_le m m' \<Longrightarrow> after_coin coin m' r d"
  unfolding after_coin_def node_le_def by blast

lemma handed_le: "handed r ch L \<Longrightarrow> set L \<subseteq> set L' \<Longrightarrow> handed r ch L'"
  by (auto simp: handed_def)

lemma hands_le: "hands m r b \<Longrightarrow> node_le m m' \<Longrightarrow> hands m' r b"
  by (auto simp: hands_def node_le_def intro: handed_le)

lemma exec_le: "exec_live coin m r rd \<Longrightarrow> node_le m m' \<Longrightarrow> exec_live coin m' r rd"
proof -
  assume e: "exec_live coin m r rd" and le: "node_le m m'"
  have "r \<in> set (coinReq m) \<Longrightarrow> r \<in> set (coinReq m')" using le by (auto simp: node_le_def)
  then show ?thesis using e after_le [OF _ le, of coin r] unfolding exec_live_def by blast
qed

lemma round_live_keep:
  "round_live c coin m r \<Longrightarrow> node_le m m' \<Longrightarrow> round_at m' r = round_at m r \<Longrightarrow> round_live c coin m' r"
  unfolding round_live_def using hands_le exec_le by metis

lemma handed_ext: "handed r ch L \<Longrightarrow> ch_ext ch ch' \<Longrightarrow> handed r ch' L"
  by (auto simp: handed_def ch_ext_def)

lemma bca_decided_chan: "bca_decided b = set (ch_sent (getOutputDecision b))"
  using getters_view(1) [of "{}" "{}" b] by simp

lemma bca_ext_chans:
  "bca_ext b b' \<Longrightarrow> set (ch_sent (getBcastEchoChan b)) \<subseteq> set (ch_sent (getBcastEchoChan b'))"
  "bca_ext b b' \<Longrightarrow> bca_decided b \<subseteq> bca_decided b'"
  by (auto simp: bca_ext_def ch_ext_def bca_decided_chan)

text \<open>The agreement of one round takes a step.\<close>

lemma round_live_bca:
  assumes "round_live c coin m r" and le: "node_le m m'" and at: "round_at m' r = (round_at m r)\<lparr>round_bca := b\<rparr>"
    and "bca_live c (prevCoin coin r) b" and ext: "bca_ext (round_bca (round_at m r)) b"
  shows "round_live c coin m' r"
proof -
  have old: "hands m r (round_bca (round_at m r))" "exec_live coin m r (round_at m r)" using assms(1) by (simp_all add: round_live_def)
  have h: "hands m' r b" using hands_le [OF old(1) le] ext by (auto simp: hands_def bca_ext_def intro: handed_ext)
  have "ch_taken (getOutputDecision b) = ch_taken (getOutputDecision (round_bca (round_at m r)))"
    using ext by (simp add: bca_ext_def ch_ext_def)
  then have "exec_live coin m' r ((round_at m r)\<lparr>round_bca := b\<rparr>)"
    using exec_le [OF old(2) le] bca_ext_chans(2) [OF ext] by (auto simp: exec_live_def)
  with h show ?thesis using assms(4) at by (simp add: round_live_def)
qed

lemma node_le_bca:
  assumes "same_rest m m'" and "coinReq m' = coinReq m" and "round_at m' = (round_at m)(q := (round_at m q)\<lparr>round_bca := b\<rparr>)"
    and "bca_ext (round_bca (round_at m q)) b"
  shows "node_le m m'"
  using assms bca_ext_chans [OF assms(4)] by (auto simp: node_le_def same_rest_def echoed_def)

lemma top_rest: "same_rest m m' \<Longrightarrow> top_live c m \<Longrightarrow> top_live c m'"
  by (simp add: top_live_def same_rest_def)

lemma node_live_bca:
  assumes live: "node_live c coin I m" and rest: "same_rest m m'" and co: "coinReq m' = coinReq m"
    and at: "round_at m' = (round_at m)(q := (round_at m q)\<lparr>round_bca := b\<rparr>)"
    and b: "bca_live c (prevCoin coin q) b" "bca_ext (round_bca (round_at m q)) b"
  shows "node_live c coin I m'"
proof -
  have le: "node_le m m'" by (rule node_le_bca [OF rest co at b(2)])
  have "round_live c coin m' r" for r
  proof (cases "r = q")
    case True
    then show ?thesis using round_live_bca [OF node_liveD(6) [OF live] le _ b] at by simp
  next
    case False
    then show ?thesis using round_live_keep [OF node_liveD(6) [OF live] le] at by simp
  qed
  moreover have "v \<in> echoed m' 0" if "v \<in> I" "isInputValid v" for v
    using node_liveD(5) [OF live that] le by (auto simp: node_le_def)
  ultimately show ?thesis using top_rest [OF rest node_liveD(4) [OF live]] by (simp add: node_live_def)
qed

section \<open>Messages, proposals and goroutines of the agreements\<close>

lemma with_round_coins: "with_round r oper m = (m', res) \<Longrightarrow> coinReq m' = coinReq m"
  using getRound_coins [of r m] by (auto simp: with_round_def split: prod.splits)

lemma with_round_live:
  assumes "node_live c coin I m" and w: "with_round r oper m = (m', res)"
    and "\<And>b. oper (round_bca (round_at m r)) = (b, res) \<Longrightarrow> bca_live c (prevCoin coin r) b \<and> bca_ext (round_bca (round_at m r)) b"
  shows "node_live c coin I m'"
  using node_live_bca [OF assms(1) with_round_at(3) [OF w] with_round_coins [OF w] with_round_at(2) [OF w]]
    assms(3) [OF with_round_at(1) [OF w]] by blast

lemma messages_live:
  assumes ok: "byz_ok c" "int_sized c" and live: "node_live c coin I m" and inv: "\<And>r. bca_inv c (P r) (F r) (round_bca (round_at m r))"
    and x: "x \<in> procs c"
  shows "node_live c coin I (fst (mmr_submitEcho v x r m))" "node_live c coin I (fst (mmr_submitVote v x r m))"
    "node_live c coin I (fst (mmr_submitBind v x r m))"
proof -
  note l = node_liveD(1) [OF live, of r]
  show "node_live c coin I (fst (mmr_submitEcho v x r m))" unfolding mmr_submitEcho_def fst_wrap_err
    by (rule with_round_live [OF live surjective_pairing]) (use rp.submitEcho_live [OF ok inv l] bca_ops_ext(2) in blast)
  show "node_live c coin I (fst (mmr_submitVote v x r m))" unfolding mmr_submitVote_def fst_wrap_err
    by (rule with_round_live [OF live surjective_pairing]) (use rp.submitVote_live [OF ok inv l] bca_ops_ext(3) in blast)
  show "node_live c coin I (fst (mmr_submitBind v x r m))" unfolding mmr_submitBind_def fst_wrap_err
    by (rule with_round_live [OF live surjective_pairing]) (use rp.submitBind_live [OF ok inv l x] bca_ops_ext(4) in blast)
qed

lemma ext_live:
  assumes live: "node_live c coin I m"
  shows "node_live c coin I (fst (mmr_submitExternallyValid v r m))"
  unfolding mmr_submitExternallyValid_def
  by (rule with_round_live [OF live surjective_pairing]) (use externallyValid_live node_liveD(1) [OF live] bca_ops_ext(6) in blast)

lemma acts_bca:
  assumes acts: "node_acts c coin I m" and rest: "same_rest m m'" and le: "node_le m m'"
    and at: "round_at m' = (round_at m)(q := (round_at m q)\<lparr>round_bca := b\<rparr>)"
    and b: "bca_live c (prevCoin coin q) b" "bca_ext (round_bca (round_at m q)) b"
  shows "node_acts c coin I m'"
proof -
  have "hands m' r (round_bca (round_at m' r))" for r
  proof -
    have "hands m' r (round_bca (round_at m r))" using acts hands_le [OF _ le] by (simp add: node_acts_def)
    then show ?thesis using b(2) at by (cases "r = q") (auto simp: hands_def bca_ext_def intro: handed_ext)
  qed
  moreover have "v \<in> echoed m' 0" if "v \<in> I" "isInputValid v" for v using acts that node_leD [OF le] by (simp add: node_acts_def)
  ultimately show ?thesis using acts at b(1) top_rest [OF rest] by (auto simp: node_acts_def)
qed

lemma propose_round_acts:
  assumes ok: "byz_ok c" and live: "node_acts c coin I m" and inv: "bca_inv c P F (round_bca (round_at m r))"
    and w: "with_round r (bca_propose est (prevCoin coin r)) m = (m', res)" and v: "isInputValid est"
  shows "node_acts c coin I m'" and "res = GoNil \<Longrightarrow> est \<noteq> prevCoin coin r \<Longrightarrow> est \<in> echoed m' r" and "node_le m m'"
proof -
  note o = with_round_at(1) [OF w]
  have l: "bca_live c (prevCoin coin r) (round_bca (round_at m r))" using live by (simp add: node_acts_def)
  show "est \<in> echoed m' r" if "res = GoNil" "est \<noteq> prevCoin coin r"
    using rp.propose_echoes [OF ok inv l _ v that(2)] o that(1) getters_view(2) unfolding echoed_def by metis
  show le: "node_le m m'" by (rule node_le_bca [OF with_round_at(3) [OF w] with_round_coins [OF w] with_round_at(2) [OF w] bca_ops_ext(1) [OF o]])
  show "node_acts c coin I m'"
    by (rule acts_bca [OF live with_round_at(3) [OF w] le with_round_at(2) [OF w] rp.propose_live [OF ok inv l o v] bca_ops_ext(1) [OF o]])
qed

text \<open>The executors of the rounds while the agreement of one of them takes a step.\<close>

lemma exec_bca:
  assumes "exec_live coin m r rd" and le: "node_le m m'" and ext: "bca_ext (round_bca rd) b"
  shows "exec_live coin m' r (rd\<lparr>round_bca := b\<rparr>)"
proof -
  have "ch_taken (getOutputDecision b) = ch_taken (getOutputDecision (round_bca rd))"
    using ext by (simp add: bca_ext_def ch_ext_def)
  then show ?thesis using exec_le [OF assms(1) le] bca_ext_chans(2) [OF ext] by (auto simp: exec_live_def)
qed

lemma exec_with_round:
  assumes live: "exec_live coin m r (round_at m r)" and w: "with_round q oper m = (m', res)" and le: "node_le m m'"
    and ext: "bca_ext (round_bca (round_at m q)) (round_bca (round_at m' q))"
  shows "exec_live coin m' r (round_at m' r)"
proof (cases "r = q")
  case True
  have "round_at m' q = (round_at m q)\<lparr>round_bca := round_bca (round_at m' q)\<rparr>"
    using fun_cong [OF with_round_at(2) [OF w], of q] by simp
  then show ?thesis using exec_bca [OF live le] ext True by metis
next
  case False
  then have "round_at m' r = round_at m r" using fun_cong [OF with_round_at(2) [OF w], of r] by simp
  then show ?thesis using exec_le [OF live le] by simp
qed

lemma concurrent_propose_live:
  assumes ok: "byz_ok c" and live: "node_live c coin I m" and inv: "bca_inv c P F (round_bca (round_at m 0))"
    and kind: "round_kind 0 (round_bca (round_at m 0))"
  shows "node_live c coin (insert est I) (fst (concurrent_propose est m))"
proof -
  obtain m' res where w: "with_round 0 (bca_propose est bot) m = (m', res)" by fastforce
  have k: "prevCoin coin 0 = bot" by (simp add: prevCoin_def)
  obtain s where s: "round_bca (round_at m 0) = IV s" using kind by (cases "round_bca (round_at m 0)") auto
  have "node_live c coin (insert est I) m'"
  proof (cases "isInputValid est")
    case True
    have acts: "node_acts c coin I m" using live by (simp add: node_live_iff)
    note p = propose_round_acts [OF ok acts inv _ True, unfolded k, OF w]
    have "exec_live coin m' r (round_at m' r)" for r
      by (rule exec_with_round [OF node_liveD(3) [OF live] w p(3) bca_ops_ext(1) [OF with_round_at(1) [OF w]]])
    with p(1) have live': "node_live c coin I m'" by (simp add: node_live_iff)
    have "inv_echo c P s" using inv s by (simp add: iv_inv_def)
    then have "res = GoNil"
      using with_round_at(1) [OF w] s True iv_propose_eq [of c P s est bot] by (auto simp: apfst_eq split: if_splits)
    moreover have "est \<noteq> bot" using True by auto
    ultimately have "est \<in> echoed m' 0" using p(2) by blast
    then show ?thesis using live' by (simp add: node_live_def)
  next
    case False
    then have "round_bca (round_at m' 0) = IV s" using with_round_at(1) [OF w] s by (auto simp: apfst_eq iv_propose_def split: if_splits)
    then have "node_live c coin I m'"
      using node_live_bca [OF live with_round_at(3) [OF w] with_round_coins [OF w] with_round_at(2) [OF w]] node_liveD(1) [OF live, of 0] s
      by (simp add: bca_ext_def)
    then show ?thesis using False by (simp add: node_live_def)
  qed
  then show ?thesis by (simp add: concurrent_propose_def mmr_propose_def firstRound_def w)
qed

lemma bca_steps_live:
  assumes live: "node_live c coin I m" and inv: "bca_inv c P F (round_bca (round_at m r))" and st: "bca_steps r m m'"
  shows "node_live c coin I m'"
proof -
  obtain rd b where rd: "rounds m r = Some rd" "bca_goroutine (round_bca rd) b" "m' = m\<lparr>rounds := (rounds m)(r \<mapsto> rd\<lparr>round_bca := b\<rparr>)\<rparr>"
    using st by (auto simp: bca_steps_def)
  note at = round_at_Some [OF rd(1)]
  show ?thesis
  proof (rule node_live_bca [OF live])
    show "round_at m' = (round_at m)(r := (round_at m r)\<lparr>round_bca := b\<rparr>)" using rd(3) at by (simp add: round_at_put)
    show "bca_live c (prevCoin coin r) b" using rp.run_live [OF inv node_liveD(1) [OF live]] rd(2) at by simp
    show "bca_ext (round_bca (round_at m r)) b" using bca_ops_ext(5) rd(2) at by simp
  qed (use rd(3) in \<open>simp_all add: same_rest_def\<close>)
qed

section \<open>The goroutines of the node\<close>

text \<open>A change of the node that leaves its rounds as they are.\<close>

lemma node_live_rest:
  assumes "node_live c coin I m" and "round_at m' = round_at m" and "node_le m m'" and "top_live c m'"
  shows "node_live c coin I m'"
  using assms round_live_keep [OF node_liveD(6) [OF assms(1)] assms(3)] by (simp add: node_live_def echoed_def)

lemma node_le_same:
  assumes "round_at m' = round_at m" and "deliverEcho m' = deliverEcho m" and "deliverVote m' = deliverVote m"
    and "deliverBind m' = deliverBind m" and "coinReq m' = coinReq m" and "hasDecided m \<Longrightarrow> hasDecided m'"
  shows "node_le m m'"
  using assms by (simp add: node_le_def echoed_def)

text \<open>A change of one round that is not a step of its agreement.\<close>

lemma node_le_round:
  assumes "round_at m' = (round_at m)(q := rd)"
    and "ch_sent (getBcastEchoChan (round_bca rd)) = ch_sent (getBcastEchoChan (round_bca (round_at m q)))"
    and "bca_decided (round_bca rd) = bca_decided (round_bca (round_at m q))"
    and "set (deliverEcho m) \<subseteq> set (deliverEcho m')" "set (deliverVote m) \<subseteq> set (deliverVote m')"
      "set (deliverBind m) \<subseteq> set (deliverBind m')" "set (coinReq m) \<subseteq> set (coinReq m')" "hasDecided m' = hasDecided m"
  shows "node_le m m'"
  using assms by (auto simp: node_le_def echoed_def)

lemma node_live_round:
  assumes live: "node_live c coin I m" and le: "node_le m m'" and at: "round_at m' = (round_at m)(q := rd)"
    and top: "top_live c m'"
    and rd: "bca_live c (prevCoin coin q) (round_bca rd)" "hands m' q (round_bca rd)" "exec_live coin m' q rd"
  shows "node_live c coin I m'"
proof -
  have "round_live c coin m' r" for r
    using rd round_live_keep [OF node_liveD(6) [OF live] le] at by (cases "r = q") (simp_all add: round_live_def)
  moreover have "v \<in> echoed m' 0" if "v \<in> I" "isInputValid v" for v
    using node_liveD(5) [OF live that] le by (auto simp: node_le_def)
  ultimately show ?thesis using top by (simp add: node_live_def)
qed

lemma handed_take:
  assumes "handed r ch L" and "chan_recv ch = Some (v, ch')"
  shows "handed r ch' (L @ [(v, r)])"
  using assms by (auto simp: handed_def chan_recv_Some take_Suc_conv_app_nth)

lemma take_others:
  "takeEcho b = Some (v, b') \<Longrightarrow> getOutputDecision b' = getOutputDecision b \<and> getBcastVoteChan b' = getBcastVoteChan b \<and> getBcastBindChan b' = getBcastBindChan b"
  "takeVote b = Some (v, b') \<Longrightarrow> getOutputDecision b' = getOutputDecision b \<and> getBcastEchoChan b' = getBcastEchoChan b \<and> getBcastBindChan b' = getBcastBindChan b"
  "takeBind b = Some (v, b') \<Longrightarrow> getOutputDecision b' = getOutputDecision b \<and> getBcastEchoChan b' = getBcastEchoChan b \<and> getBcastVoteChan b' = getBcastVoteChan b"
  "takeExternalValid b = Some (v, b') \<Longrightarrow> getOutputDecision b' = getOutputDecision b \<and> getBcastEchoChan b' = getBcastEchoChan b
     \<and> getBcastVoteChan b' = getBcastVoteChan b \<and> getBcastBindChan b' = getBcastBindChan b"
  "takeDecision b = Some (v, b') \<Longrightarrow> getBcastEchoChan b' = getBcastEchoChan b
     \<and> getBcastVoteChan b' = getBcastVoteChan b \<and> getBcastBindChan b' = getBcastBindChan b"
  by (cases b; auto simp: chan_recv_Some)+

lemma listen_cases:
  assumes "listenRequests q r m = Some m'"
  obtains (read) rd b Le Lv Lb where "rounds m r = Some rd" "rounds m' = (rounds m)(r \<mapsto> rd\<lparr>round_bca := b\<rparr>)"
      "deliverEcho m' = deliverEcho m @ Le" "deliverVote m' = deliverVote m @ Lv" "deliverBind m' = deliverBind m @ Lb"
      "coinReq m' = coinReq m" "getOutputDecision b = getOutputDecision (round_bca rd)"
      "\<And>c k. bca_live c k b = bca_live c k (round_bca rd)"
      "ch_sent (getBcastEchoChan b) = ch_sent (getBcastEchoChan (round_bca rd))"
      "hands m r (round_bca rd) \<Longrightarrow> hands m' r b" "mmr_n m' = mmr_n m" "mmr_f m' = mmr_f m" "hasDecided m' = hasDecided m"
      "\<And>c. top_live c m' = top_live c m"
    | (coin) rd ch where "rounds m r = Some rd" "chan_recv (coinReqChan rd) = Some ((), ch)"
      "m' = m\<lparr>rounds := (rounds m)(r \<mapsto> rd\<lparr>coinReqChan := ch\<rparr>), coinReq := coinReq m @ [r]\<rparr>"
proof -
  obtain rd where rd: "rounds m r = Some rd" and l: "r \<in> listening m"
    using assms by (auto simp: listenRequests_def split: if_splits option.splits)
  show thesis
  proof (cases q)
    case ReqEcho
    then obtain v b where t: "takeEcho (round_bca rd) = Some (v, b)"
      and m': "m' = m\<lparr>rounds := (rounds m)(r \<mapsto> rd\<lparr>round_bca := b\<rparr>), deliverEcho := deliverEcho m @ [(v, r)]\<rparr>"
      using assms rd l by (auto simp: listenRequests_def)
    note g = take_getters(2) [OF t]
    show ?thesis by (rule read [OF rd, where b = b and Le = "[(v, r)]" and Lv = "[]" and Lb = "[]"])
        (use m' g take_others(1) [OF t] takes_live(2) [OF t] handed_take [OF _ g] in \<open>auto simp: hands_def chan_recv_Some top_live_def\<close>)
  next
    case ReqVote
    then obtain v b where t: "takeVote (round_bca rd) = Some (v, b)"
      and m': "m' = m\<lparr>rounds := (rounds m)(r \<mapsto> rd\<lparr>round_bca := b\<rparr>), deliverVote := deliverVote m @ [(v, r)]\<rparr>"
      using assms rd l by (auto simp: listenRequests_def)
    note g = take_getters(3) [OF t]
    show ?thesis by (rule read [OF rd, where b = b and Le = "[]" and Lv = "[(v, r)]" and Lb = "[]"])
        (use m' g take_others(2) [OF t] takes_live(3) [OF t] handed_take [OF _ g] in \<open>auto simp: hands_def chan_recv_Some top_live_def\<close>)
  next
    case ReqBind
    then obtain v b where t: "takeBind (round_bca rd) = Some (v, b)"
      and m': "m' = m\<lparr>rounds := (rounds m)(r \<mapsto> rd\<lparr>round_bca := b\<rparr>), deliverBind := deliverBind m @ [(v, r)]\<rparr>"
      using assms rd l by (auto simp: listenRequests_def)
    note g = take_getters(4) [OF t]
    show ?thesis by (rule read [OF rd, where b = b and Le = "[]" and Lv = "[]" and Lb = "[(v, r)]"])
        (use m' g take_others(3) [OF t] takes_live(4) [OF t] handed_take [OF _ g] in \<open>auto simp: hands_def chan_recv_Some top_live_def\<close>)
  next
    case ReqExt
    then obtain v b where t: "takeExternalValid (round_bca rd) = Some (v, b)"
      and m': "m' = m\<lparr>rounds := (rounds m)(r \<mapsto> rd\<lparr>round_bca := b\<rparr>), deliverExternallyValid := deliverExternallyValid m @ [(v, r)]\<rparr>"
      using assms rd l by (auto simp: listenRequests_def)
    show ?thesis by (rule read [OF rd, where b = b and Le = "[]" and Lv = "[]" and Lb = "[]"])
        (use m' take_others(4) [OF t] takes_live(5) [OF t] in \<open>auto simp: hands_def top_live_def\<close>)
  next
    case ReqCoin
    then show ?thesis using assms rd l by (auto simp: listenRequests_def intro!: coin [OF rd])
  qed
qed

lemma listenRequests_live:
  assumes live: "node_live c coin I m" and st: "listenRequests q r m = Some m'"
  shows "node_live c coin I m'"
  using st
proof (cases rule: listen_cases)
  case (read rd b Le Lv Lb)
  note rd = round_at_Some [OF read(1)]
  have at: "round_at m' = (round_at m)(r := rd\<lparr>round_bca := b\<rparr>)"
    using read by (auto simp: round_at_def fun_eq_iff split: option.split)
  have le: "node_le m m'" by (rule node_le_round [OF at]) (use read rd in \<open>auto simp: bca_decided_chan\<close>)
  have ex: "exec_live coin m' r (rd\<lparr>round_bca := b\<rparr>)"
    using exec_le [OF node_liveD(3) [OF live, of r] le] read(7) rd by (simp add: exec_live_def bca_decided_chan)
  show ?thesis by (rule node_live_round [OF live le at])
      (use read(8,10,14) node_liveD(1,2) [OF live, of r] node_liveD(4) [OF live] rd ex in simp_all)
next
  case (coin rd ch)
  note rd = round_at_Some [OF coin(1)]
  have at: "round_at m' = (round_at m)(r := rd\<lparr>coinReqChan := ch\<rparr>)"
    using coin(3) by (auto simp: round_at_def fun_eq_iff split: option.split)
  have le: "node_le m m'" by (rule node_le_round [OF at]) (use coin rd in auto)
  have ex: "exec_live coin m' r (rd\<lparr>coinReqChan := ch\<rparr>)"
    using exec_le [OF node_liveD(3) [OF live, of r] le] rd coin(2,3) by (auto simp: exec_live_def chan_recv_Some)
  show ?thesis by (rule node_live_round [OF live le at])
      (use coin(3) node_liveD(1) [OF live, of r] node_liveD(4) [OF live] hands_le [OF node_liveD(2) [OF live, of r] le] rd ex in \<open>simp_all add: top_live_def\<close>)
qed

lemma execRound_live:
  assumes live: "node_live c coin I m" and rdy: "node_ready m" and st: "mmr_execRound r m = Some m'"
  shows "node_live c coin I m'"
proof -
  obtain rd rd' where rd: "rounds m r = Some rd" "execRound rd = Some rd'" "m' = m\<lparr>rounds := (rounds m)(r \<mapsto> rd')\<rparr>"
    using st by (auto simp: mmr_execRound_def split: option.splits)
  note at0 = round_at_Some [OF rd(1)]
  have ready: "round_ready rd" using rdy at0 by (auto simp: node_ready_def dest: spec [of _ r])
  have at: "round_at m' = (round_at m)(r := rd')" using rd(3) by (simp add: round_at_put)
  have top: "top_live c m'" using node_liveD(4) [OF live] rd(3) by (simp add: top_live_def)
  note l = node_liveD(1-3) [OF live, of r, unfolded at0]
  show ?thesis
  proof (cases "exec_pc rd")
    case XDec
    then obtain d b where t: "takeDecision (round_bca rd) = Some (d, b)" "rd' = rd\<lparr>round_bca := b, exec_pc := XReq d\<rparr>"
      using rd(2) by (auto simp: execRound_def split: option.splits)
    note g = take_getters(1) [OF t(1)] take_others(5) [OF t(1)]
    have le: "node_le m m'" by (rule node_le_round [OF at]) (use rd(3) at0 t g in \<open>auto simp: bca_decided_chan chan_recv_Some\<close>)
    have "hands m' r b" using hands_le [OF l(2) le] g(2) by (simp add: hands_def)
    then show ?thesis using l(1) t takes_live(1) [OF t(1)]
      by (intro node_live_round [OF live le at top]) (simp_all add: exec_live_def)
  next
    case (XReq d)
    with rd(2) have s: "send_then coinReqChan coinReqChan_update () (exec_pc_update (\<lambda>_. XCoin d)) rd = Some rd'"
      by (simp add: execRound_def)
    have u: "unused (coinReqChan rd)" using ready XReq by (simp add: round_ready_def)
    have r': "rd' = rd\<lparr>coinReqChan := (coinReqChan rd)\<lparr>ch_sent := ch_sent (coinReqChan rd) @ [()]\<rparr>, exec_pc := XCoin d\<rparr>"
      by (rule send_thenE [OF s])
    have le: "node_le m m'" by (rule node_le_round [OF at]) (use rd(3) at0 r' in auto)
    show ?thesis using l r' u hands_le [OF l(2) le]
      by (intro node_live_round [OF live le at top]) (simp_all add: exec_live_def unused_def)
  qed (use rd(2) ready in \<open>auto simp: execRound_def round_ready_def recv_then_def unused_ops\<close>)
qed

lemma reachDecision_live:
  assumes live: "node_live c coin I m" and st: "reachDecision b m = Some m'"
  shows "node_live c coin I m'"
proof -
  note r = reach_out [OF st]
  have at: "round_at m' = round_at m" by (rule round_at_same) (use r in simp_all)
  have h: "hasDecided m' = hasDecided m"
    using st by (cases "reach_pc m") (auto simp: reachDecision_def recv_then_def send_then_def split: if_splits option.splits)
  have "top_live c m'" using node_liveD(4) [OF live] st
    by (cases "reach_pc m") (auto simp: reachDecision_def top_live_def term_live_def recv_then_def send_then_def chan_send_def
        chan_recv_Some split: if_splits option.splits)
  then show ?thesis using r(4-6) reachDecision_coins [OF st] h
    by (intro node_live_rest [OF live at node_le_same [OF at]]) simp_all
qed

section \<open>Decisions and coins\<close>

lemma term_submitDecision_live:
  assumes ok: "byz_ok c" and live: "term_live c t" and f: "term_f t = cfg_f c" and op: "term_submitDecision v x t = (t', r)"
  shows "term_live c t'" and "ch_taken (term_deliverDecision t') = ch_taken (term_deliverDecision t)"
proof -
  let ?t1 = "t\<lparr>term_received := insert x (term_received t), results := (results t)(v := results t v + 1)\<rparr>"
  define m :: "mmrTermination \<times> term_error outcome" where
    "m = (if results t v + 1 = term_f t + 1
      then chan_put term_deliverDecision term_deliverDecision_update v ?t1 else (?t1, GoNil))"
  have t': "t' = t \<or> results t' = results (fst m) \<and> term_deliverDecision t' = term_deliverDecision (fst m)"
  proof (cases "x \<in> term_received t \<or> v \<ge> bot")
    case True
    then show ?thesis using op by (auto simp: term_submitDecision_def split: if_splits)
  next
    case False
    then have "t' = fst (and_then m (\<lambda>t2. if results t2 0 + results t2 1 = term_n t2 - term_f t2
        then chan_put notifyTermination notifyTermination_update () t2 else (t2, GoNil)))"
      using arg_cong [OF op, of fst] by (simp add: term_submitDecision_def Let_def m_def)
    then have "t' = fst m \<or> t' = fst (chan_put notifyTermination notifyTermination_update () (fst m) :: mmrTermination \<times> term_error outcome)"
      by (simp add: fst_and_then split: if_splits)
    then show ?thesis by (auto simp: fst_chan_put split: if_splits)
  qed
  have f1: "unat (cfg_f c + 1) = Suc (unat (cfg_f c))" using unat_thresholds [OF ok] by simp
  have "ch_sent (term_deliverDecision (fst m)) \<noteq> []" if u: "isInputValid u" "unat (cfg_f c) < unat (results (fst m) u)" for u
  proof (cases "u = v \<and> \<not> unat (cfg_f c) < unat (results t v)")
    case True
    have res: "results (fst m) u = results t v + 1" using True by (simp add: m_def fst_chan_put)
    have "unat (results t v + 1) \<le> Suc (unat (results t v))" using unatSuc [of "results t v"] by (cases "1 + results t v = 0") (simp_all add: add.commute)
    then have "unat (results t v + 1) = unat (cfg_f c + 1)" using u(2) True f1 res by simp
    then have "results t v + 1 = cfg_f c + 1" by (simp only: word_unat_eq_iff)
    then have "results t v + 1 = term_f t + 1" using f by simp
    then have "fst m = fst (chan_put term_deliverDecision term_deliverDecision_update v ?t1 :: mmrTermination \<times> term_error outcome)"
      by (simp add: m_def)
    then show ?thesis using live full_nonempty [of "term_deliverDecision t" v] by (auto simp: chan_put_def chan_send_def term_live_def split: if_splits option.splits)
  next
    case False
    then have "unat (cfg_f c) < unat (results t u)" using u(2) by (cases "u = v") (auto simp: m_def fst_chan_put split: if_splits)
    then show ?thesis using live u(1) by (auto simp: term_live_def m_def fst_chan_put)
  qed
  then have "term_live c (fst m)" using live by (auto simp: term_live_def m_def fst_chan_put)
  then show "term_live c t'" using t' live by (auto simp: term_live_def)
  show "ch_taken (term_deliverDecision t') = ch_taken (term_deliverDecision t)" using t' by (auto simp: m_def fst_chan_put)
qed

lemma submitDecision_live:
  assumes ok: "byz_ok c" and live: "node_live c coin I m" and f: "term_f (termGadget m) = cfg_f c"
  shows "node_live c coin I (fst (mmr_submitDecision v x m))"
proof -
  obtain t r where t: "term_submitDecision v x (termGadget m) = (t, r)" by fastforce
  have m': "fst (mmr_submitDecision v x m) = m\<lparr>termGadget := t\<rparr>" by (simp add: mmr_submitDecision_def t)
  have at: "round_at (m\<lparr>termGadget := t\<rparr>) = round_at m" by (rule round_at_same) simp_all
  have tl: "term_live c (termGadget m)" using node_liveD(4) [OF live] by (simp add: top_live_def)
  have "top_live c (m\<lparr>termGadget := t\<rparr>)"
    using node_liveD(4) [OF live] term_submitDecision_live [OF ok tl f t] by (simp add: top_live_def)
  then show ?thesis unfolding m' by (intro node_live_rest [OF live at node_le_same [OF at]]) simp_all
qed

text \<open>The round that asked for its coin gets it.\<close>

lemma asked_result:
  assumes "round_ready rd" and "exec_pc rd = XCoin d" and "isInputValid k"
  shows "\<exists>rd'. round_submitCoin k rd = ((rd', Some (transition d k)), GoNil) \<and> round_bca rd' = round_bca rd \<and> exec_pc rd' = XDone"
proof -
  have u: "unused (coinReceiveChan rd)" "unused (internalTransition rd)" using assms(1,2) by (simp_all add: round_ready_def)
  let ?rd = "rd\<lparr>coinReceiveChan := (coinReceiveChan rd)\<lparr>ch_sent := [k]\<rparr>\<rparr>"
  have "execRoundN 4 ?rd = ?rd\<lparr>coinReceiveChan := (coinReceiveChan rd)\<lparr>ch_sent := [k], ch_taken := 1\<rparr>,
    internalTransition := (internalTransition rd)\<lparr>ch_sent := [transition d k]\<rparr>, exec_pc := XDone\<rparr>"
    using exec_from_coin [where rd = ?rd and d = d and ch = "coinReceiveChan rd" and k = k and j = 2] assms(2) u by (simp add: numeral_eq_Suc)
  moreover have "ch_taken (internalTransition rd) = 0" using u(2) by (simp add: unused_def)
  ultimately show ?thesis using assms(3) u(1) by (simp add: round_submitCoin_def unused_ops(2) Let_def chan_recv_def)
qed

text \<open>A finished round takes no further coin, except to keep it in the buffer.\<close>

lemma done_result:
  assumes "exec_pc rd = XDone" and "round_submitCoin k rd = ((rd', t), oc)"
  shows "round_bca rd' = round_bca rd \<and> exec_pc rd' = XDone"
proof -
  have "execRoundN j (rd\<lparr>coinReceiveChan := ch\<rparr>) = rd\<lparr>coinReceiveChan := ch\<rparr>" for j ch
    using assms(1) by (cases j) (simp_all add: execRound_def)
  then show ?thesis using assms by (auto simp: round_submitCoin_def Let_def split: if_splits option.splits)
qed

lemma later_propose_accepts:
  assumes "round_kind r b" and "r \<noteq> 0" and "isInputValid est" and "isInputValid k" and "bca_propose est k b = (b', res)"
  shows "res = GoNil \<or> res = GoBlocked"
proof -
  obtain e where e: "b = EV e" using assms(1,2) by (cases b) auto
  have n: "\<not> est > bot" "est \<noteq> bot" using assms(3) by (auto simp: isInputValid_def bot_def)
  let ?c = "chan_put prevCoinChan prevCoinChan_update k :: evbca \<Rightarrow> evbca \<times> bca_error outcome"
  have put: "snd (chan_put sel upd y z :: evbca \<times> bca_error outcome) \<in> {GoNil, GoBlocked}" for sel upd z and y :: byte
    by (simp add: chan_put_def split: option.split)
  have thn: "snd (and_then q g) \<in> {GoNil, GoBlocked}" if "snd q \<in> {GoNil, GoBlocked}" "\<And>z. snd (g z) \<in> {GoNil, GoBlocked}"
    for q :: "evbca \<times> bca_error outcome" and g :: "evbca \<Rightarrow> evbca \<times> bca_error outcome"
    using that(1) that(2) [of "fst q"] by (cases q) auto
  have "snd (fastForward est e) \<in> {GoNil, GoBlocked}" unfolding fastForward_def by (intro thn put)
  moreover have "snd (and_then (if sentEchoes e est then (e, GoNil) else ev_broadcastEcho est e) ?c) \<in> {GoNil, GoBlocked}"
    by (rule thn) (use put in \<open>simp_all add: ev_broadcastEcho_def\<close>)
  ultimately show ?thesis using assms(4,5) e n by (auto simp: ev_propose_def apfst_eq split: if_splits)
qed

text \<open>
  The state \<open>m2\<close> between the coin of round \<open>r\<close> and its consequences: only the executor of round \<open>r\<close> has
  not acted yet.
\<close>

lemma coin_consequence:
  assumes ok: "byz_ok c" and acts: "node_acts c coin I m2"
    and others: "\<And>q. q \<noteq> r \<Longrightarrow> exec_live coin m2 q (round_at m2 q)"
    and inv: "\<And>r. bca_inv c (P r) (F r) (round_bca (round_at m2 r))" and kind: "\<And>r. round_kind r (round_bca (round_at m2 r))"
    and pc: "exec_pc (round_at m2 r) = XDone" and d: "d \<in> bca_decided (round_bca (round_at m2 r))" "d \<noteq> bot \<Longrightarrow> isInputValid d"
    and k: "isInputValid (coin r)" and t: "t = transition d (coin r)"
    and m': "(m', res) = (if decided t \<and> \<not> hasDecided m2
        then chan_put reachedDecision reachedDecision_update (estimate t) (m2\<lparr>hasDecided := True\<rparr>) :: mmr \<times> mmr_error outcome
        else wrap_err (UnableToProposeNext (r + 1)) (mmr_propose (estimate t) (coin r) (r + 1) m2))"
    and ret: "res \<noteq> GoBlocked"
  shows "node_live c coin I m'"
proof (cases "decided t \<and> \<not> hasDecided m2")
  case True
  then have put: "m' = m2\<lparr>hasDecided := True, reachedDecision := (reachedDecision m2)\<lparr>ch_sent := ch_sent (reachedDecision m2) @ [estimate t]\<rparr>\<rparr>"
    using m' ret by (auto simp: chan_put_def chan_send_def split: if_splits option.splits)
  have at: "round_at m' = round_at m2" by (rule round_at_same) (simp_all add: put)
  have le: "node_le m2 m'" by (rule node_le_same [OF at]) (simp_all add: put)
  have top: "top_live c m'" using acts by (simp add: put node_acts_def top_live_def)
  have "hands m' q (round_bca (round_at m' q))" for q using acts hands_le [OF _ le] by (simp add: node_acts_def at)
  then have "node_acts c coin I m'" using acts top node_leD [OF le] by (simp add: node_acts_def at)
  moreover have "exec_live coin m' q (round_at m' q)" for q
  proof (cases "q = r")
    case True
    have "after_coin coin m' r d" using \<open>decided t \<and> _\<close> by (simp add: after_coin_def t put)
    then show ?thesis using True pc d(1) by (auto simp: exec_live_def at)
  next
    case False
    then show ?thesis using exec_le [OF others le] by (simp add: at)
  qed
  ultimately show ?thesis by (simp add: node_live_iff)
next
  case False
  have est: "isInputValid (estimate t)" using d(2) k by (auto simp: t transition_def)
  obtain r3 where w: "with_round (r + 1) (bca_propose (estimate t) (coin r)) m2 = (m', r3)"
    and r3: "r3 \<noteq> GoBlocked"
  proof -
    obtain m3 r3 where wr: "with_round (r + 1) (bca_propose (estimate t) (coin r)) m2 = (m3, r3)" by fastforce
    then have "m' = m3" "r3 \<noteq> GoBlocked" using m' ret unfolding if_not_P [OF False] mmr_propose_def wr by (cases r3; simp)+
    with wr that show thesis by blast
  qed
  have at: "round_at m' r = round_at m2 r" using fun_cong [OF with_round_at(2) [OF w], of r] by simp
  have facts: "node_acts c coin I m' \<and> node_le m2 m' \<and> bca_ext (round_bca (round_at m2 (r + 1))) (round_bca (round_at m' (r + 1)))
    \<and> (estimate t \<noteq> coin r \<and> r + 1 \<noteq> 0 \<longrightarrow> estimate t \<in> echoed m' (r + 1))"
  proof (cases "r + 1 = 0")
    case True
    have kk: "coin r \<noteq> bot" using k by auto
    obtain s where s: "round_bca (round_at m2 0) = IV s" using kind [of 0] by (cases "round_bca (round_at m2 0)") auto
    have same: "round_bca (round_at m' (r + 1)) = round_bca (round_at m2 (r + 1))"
      using with_round_at(1) [OF w] True s kk by (auto simp: apfst_eq iv_propose_def split: if_splits)
    then have ext: "bca_ext (round_bca (round_at m2 (r + 1))) (round_bca (round_at m' (r + 1)))" by (simp add: bca_ext_def)
    have le: "node_le m2 m'" by (rule node_le_bca [OF with_round_at(3) [OF w] with_round_coins [OF w] with_round_at(2) [OF w] ext])
    have l: "bca_live c (prevCoin coin (r + 1)) (round_bca (round_at m' (r + 1)))" using acts same by (simp add: node_acts_def)
    show ?thesis using acts_bca [OF acts with_round_at(3) [OF w] le with_round_at(2) [OF w] l ext] le ext True by blast
  next
    case next0: False
    have prev: "prevCoin coin (r + 1) = coin r" using next0 by (simp add: prevCoin_def)
    note p = propose_round_acts [OF ok acts inv _ est, of "r + 1", unfolded prev, OF w]
    have "r3 = GoNil" using later_propose_accepts [OF kind next0 est k with_round_at(1) [OF w]] r3 by blast
    then show ?thesis using p bca_ops_ext(1) [OF with_round_at(1) [OF w]] by blast
  qed
  then have le: "node_le m2 m'" and ext: "bca_ext (round_bca (round_at m2 (r + 1))) (round_bca (round_at m' (r + 1)))" by blast+
  have "after_coin coin m' r d" using facts False le by (auto simp: after_coin_def t node_le_def)
  then have "exec_live coin m' q (round_at m' q)" for q
  proof (cases "q = r")
    case True
    then show ?thesis using pc d(1) \<open>after_coin coin m' r d\<close> by (auto simp: exec_live_def at)
  next
    case False
    then show ?thesis by (intro exec_with_round [OF others w le ext])
  qed
  then show ?thesis using facts by (simp add: node_live_iff)
qed

lemma submitCoin_live:
  assumes ok: "byz_ok c" and live: "node_live c coin I m" and rdy: "node_ready m"
    and inv: "\<And>r. bca_inv c (P r) (F r) (round_bca (round_at m r))" and kind: "\<And>r. round_kind r (round_bca (round_at m r))"
    and dec: "\<And>r d. d \<in> bca_decided (round_bca (round_at m r)) \<Longrightarrow> d \<noteq> bot \<Longrightarrow> isInputValid d"
    and ex: "exec_ok (coin r) (round_at m r)"
    and asked: "r \<in> set (coinReq m)" and op: "mmr_submitCoin (coin r) r m = (m', res)" and ret: "res \<noteq> GoBlocked"
  shows "node_live c coin I m'"
proof -
  let ?rd = "round_at m r"
  obtain m1 rd0 where g: "getRound r m = (m1, rd0)" by fastforce
  obtain rd1 t oc where sc: "round_submitCoin (coin r) ?rd = ((rd1, t), oc)" by (metis prod.exhaust)
  have rd0: "rd0 = ?rd" using getRound_at(1) [of r m] g by simp
  define m2 where "m2 = m1\<lparr>rounds := (rounds m1)(r \<mapsto> rd1)\<rparr>"
  have m1: "rounds m1 = (rounds m)(r \<mapsto> ?rd)" "same_rest m m1" "coinReq m1 = coinReq m"
    using getRound_at(2) [of r m] getRound_rest [of m r] getRound_coins [of r m] g by simp_all
  have rest: "same_rest m m2" and co: "coinReq m2 = coinReq m" using m1 by (simp_all add: m2_def same_rest_def)
  have at: "round_at m2 = (round_at m)(r := rd1)" by (rule round_at_upd [OF rest]) (simp add: m2_def m1(1))
  have ready: "round_ready ?rd" "asked ?rd" using rdy assms(8) by (simp_all add: node_ready_def)
  have same: "round_bca rd1 = round_bca ?rd \<and> (rd1 = ?rd \<or> exec_pc rd1 = XDone)"
    using done_result [OF _ sc] asked_result [OF ready(1), of _ "coin r"] ready(2) sc
    by (cases "isInputValid (coin r)") (auto simp: asked_def, auto simp: round_submitCoin_def)
  have le: "node_le m m2" by (rule node_le_round [OF at]) (use same rest co in \<open>auto simp: same_rest_def\<close>)
  have acts: "node_acts c coin I m2"
    using live hands_le [OF node_liveD(2) [OF live] le] same at top_rest [OF rest node_liveD(4) [OF live]] node_leD [OF le]
    by (auto simp: node_acts_def node_live_def round_live_def)
  have others: "exec_live coin m2 q (round_at m2 q)" if "q \<noteq> r \<or> rd1 = ?rd" for q
    using exec_le [OF node_liveD(3) [OF live, of q] le] that at by auto
  show ?thesis
  proof (cases "oc = GoNil \<and> t \<noteq> None")
    case False
    then have "m' = m2" "oc \<noteq> GoBlocked" using op ret by (cases oc; cases t; simp add: mmr_submitCoin_def g sc rd0 Let_def m2_def)+
    have "exec_live coin m2 r rd1"
    proof (cases "rd1 = ?rd")
      case True
      then show ?thesis using others [of r] at by simp
    next
      case False
      have v: "isInputValid (coin r)" using False sc by (auto simp: round_submitCoin_def split: if_splits)
      have "exec_pc ?rd = XDone"
        using asked_result [OF ready(1) _ v] ready(2) sc \<open>\<not> (oc = GoNil \<and> t \<noteq> None)\<close> by (fastforce simp: asked_def)
      then show ?thesis
        using done_result [OF _ sc] exec_le [OF node_liveD(3) [OF live, of r] le] by (auto simp: exec_live_def)
    qed
    then have "exec_live coin m2 q (round_at m2 q)" for q using others [of q] at by (cases "q = r") simp_all
    then show ?thesis using acts \<open>m' = m2\<close> by (simp add: node_live_iff)
  next
    case True
    then obtain x where x: "t = Some x" by blast
    obtain d where d: "d \<in> bca_decided (round_bca rd1)" "x = transition d (coin r)" using round_submitCoin_ok [OF ex sc] x by blast
    have v: "isInputValid (coin r)" using round_submitCoin_valid sc x by blast
    have pc: "exec_pc (round_at m2 r) = XDone"
      using asked_result [OF ready(1) _ v] done_result [OF _ sc] ready(2) sc at by (fastforce simp: asked_def)
    have bcas: "round_bca (round_at m2 q) = round_bca (round_at m q)" for q using same at by simp
    have m': "(m', res) = (if decided x \<and> \<not> hasDecided m2
        then chan_put reachedDecision reachedDecision_update (estimate x) (m2\<lparr>hasDecided := True\<rparr>) :: mmr \<times> mmr_error outcome
        else wrap_err (UnableToProposeNext (r + 1)) (mmr_propose (estimate x) (coin r) (r + 1) m2))"
      using op True x by (simp add: mmr_submitCoin_def g sc rd0 Let_def m2_def eq_commute)
    show ?thesis
    proof (rule coin_consequence [OF ok acts _ _ _ pc _ _ v d(2) m' ret])
      show "bca_inv c (P q) (F q) (round_bca (round_at m2 q))" "round_kind q (round_bca (round_at m2 q))" for q
        using inv kind by (simp_all add: bcas)
      show "exec_live coin m2 q (round_at m2 q)" if "q \<noteq> r" for q using others that by blast
      show "d \<in> bca_decided (round_bca (round_at m2 r))" using d(1) at by simp
      show "isInputValid d" if "d \<noteq> bot" using dec [of d r] d(1) same that by simp
    qed
  qed
qed

section \<open>Every reachable node is live\<close>

lemma goroutine_live:
  assumes live: "node_live c coin I m" and rdy: "node_ready m" and go: "mmr_goroutine m m'"
    and inv: "\<And>r. bca_inv c (P r) (F r) (round_bca (round_at m r))"
  shows "node_live c coin I m'"
proof -
  have top: "top_live c m" by (rule node_liveD(4) [OF live])
  have rest: "node_live c coin I m'"
    if "m' = m\<lparr>ext_taken := k\<rparr> \<or> m' = m\<lparr>listening := {}\<rparr> \<or> m' = m\<lparr>deliverDecision := ch\<rparr>
      \<and> ch_cap ch = ch_cap (deliverDecision m) \<and> ch_sent ch = ch_sent (deliverDecision m)" for k ch
  proof -
    have at: "round_at m' = round_at m" by (rule round_at_same) (use that in auto)
    show ?thesis by (rule node_live_rest [OF live at node_le_same [OF at]]) (use that top in \<open>auto simp: top_live_def\<close>)
  qed
  consider r where "bca_steps r m m'" | r where "mmr_execRound r m = Some m'"
    | q r where "listenRequests q r m = Some m'" | b where "reachDecision b m = Some m'"
    | w where "listenExternallyValid m = Some (w, m')" | v r where "m' = fst (mmr_submitExternallyValid v r m)"
    | "mmr_close m = m'" | d where "mmr_takeDecision m = Some (d, m')"
    using go unfolding mmr_goroutine_def by blast
  then show ?thesis
  proof cases
    case (1 r)
    then show ?thesis by (rule bca_steps_live [OF live inv])
  next
    case (2 r)
    then show ?thesis by (rule execRound_live [OF live rdy])
  next
    case (3 q r)
    then show ?thesis by (rule listenRequests_live [OF live])
  next
    case (4 b)
    then show ?thesis by (rule reachDecision_live [OF live])
  next
    case (5 w)
    then show ?thesis using rest by (auto simp: listenExternallyValid_def split: if_splits)
  next
    case (6 v r)
    then show ?thesis using ext_live [OF live] by simp
  next
    case 7
    then show ?thesis using rest by (auto simp: mmr_close_def)
  next
    case (8 d)
    then show ?thesis using rest [of _ "(deliverDecision m)\<lparr>ch_taken := Suc (ch_taken (deliverDecision m))\<rparr>"]
      by (auto simp: mmr_takeDecision_def chan_recv_Some split: option.splits)
  qed
qed

lemma node_live_new:
  assumes ok: "byz_ok c"
  shows "node_live c coin {} (newMMR (cfg_n c) (cfg_f c))"
proof -
  let ?m = "newMMR (cfg_n c) (cfg_f c)"
  have "bca_fresh c (round_bca (round_at ?m r))" for r by (simp add: newMMR_round)
  note l = rp.fresh_live [OF ok this]
  have "hands ?m r (round_bca (round_at ?m r))" for r
    by (simp add: newMMR_round hands_def handed_def newBCA_def newEVBCA_def)
  moreover have "exec_live coin ?m r (round_at ?m r)" for r
    by (simp add: exec_live_def round_at_def newMMR_def initFirstRound_def newFirstRound_def newRound_def newBCA_def newEVBCA_def)
  moreover have "top_live c ?m"
    by (simp add: top_live_def term_live_def newMMR_def initFirstRound_def newMmrTermination_def)
  ultimately show ?thesis using l by (simp add: node_live_def round_live_def)
qed

lemma aba_step_live:
  assumes ok: "byz_ok c" "int_sized c" and reach: "aba_reach c coin N" and st: "aba_step c coin N M"
    and live: "\<And>q. node_live c coin (inputs N q) (mnode N q)"
  shows "node_live c coin (inputs M q) (mnode M q)"
proof -
  obtain PP FF DD where i: "aba_inv c coin N PP FF DD" using reach_net_ok [OF ok(1) reach] by (rule net_okE)
  have node: "node_inv c coin (inputs N x) (mnode N x) (PP x) (FF x) (DD x)" for x using i by (simp add: aba_inv_def)
  note inv = node_invD(3) [OF node] and kind = node_invD(5) [OF node] and rdy = aba_reach_ready [OF reach]
  from st show ?thesis
  proof cases
    case (propose p est)
    then show ?thesis using live concurrent_propose_live [OF ok(1) live inv kind] by (simp add: set_node_def)
  next
    case (echo p x v r)
    then show ?thesis using live messages_live(1) [OF ok live inv] by (simp add: set_node_def)
  next
    case (vote p x v r)
    then show ?thesis using live messages_live(2) [OF ok live inv] by (simp add: set_node_def)
  next
    case (bind p x v r)
    then show ?thesis using live messages_live(3) [OF ok live inv] by (simp add: set_node_def)
  next
    case (coin p r m' res)
    have "isInputValid d" if "d \<in> bca_decided (round_bca (round_at (mnode N p) q))" "d \<noteq> bot" for q d
      by (rule decided_valid [OF ok(1) i that])
    from submitCoin_live [OF ok(1) live rdy inv kind this node_invD(4) [OF node] coin(3,4,5)]
    show ?thesis using live coin by (simp add: set_node_def)
  next
    case (decision p x v)
    have "term_f (termGadget (mnode N p)) = cfg_f c" using node_invD(12) [OF node] by (simp add: term_inv_def)
    then show ?thesis using live submitDecision_live [OF ok(1) live] decision by (simp add: set_node_def)
  next
    case (goroutine p m')
    then show ?thesis using live goroutine_live [OF live rdy goroutine(3) inv] by (simp add: set_node_def)
  qed
qed

lemma aba_reach_live:
  assumes ok: "byz_ok c" "int_sized c" and "aba_reach c coin N"
  shows "node_live c coin (inputs N q) (mnode N q)"
  using assms(3)
proof (induction arbitrary: q rule: aba_reach.induct)
  case init
  show ?case using node_live_new [OF ok(1)] by (simp add: aba_init_def)
next
  case (step N M)
  show ?case by (rule aba_step_live [OF ok step.hyps step.IH])
qed

section \<open>Settled networks\<close>

definition mmr_idle :: "mmr \<Rightarrow> bool" where
  "mmr_idle m \<longleftrightarrow> (\<forall>r. (\<forall>m'. \<not> bca_steps r m m') \<and> mmr_execRound r m = None \<and> (\<forall>q. listenRequests q r m = None))
     \<and> (\<forall>b. reachDecision b m = None)"

definition mmr_open :: "mmr \<Rightarrow> bool" where
  "mmr_open m \<longleftrightarrow> (\<forall>r. rounds m r \<noteq> None \<longrightarrow> r \<in> listening m)"

definition counts :: "(bca_view \<Rightarrow> byte \<Rightarrow> uuid set) \<Rightarrow> mmr \<Rightarrow> uint16 \<Rightarrow> byte \<Rightarrow> uuid set" where
  "counts sel m r v = sel (bca_view {} {} (round_bca (round_at m r))) v"

text \<open>What the correct nodes sent has arrived: messages, decisions and the coins of the rounds that asked.\<close>

definition aba_delivered :: "net_cfg \<Rightarrow> aba_net \<Rightarrow> bool" where
  "aba_delivered c N \<longleftrightarrow> (\<forall>p \<in> correct c.
     (\<forall>x \<in> correct c.
        (\<forall>(v, r) \<in> set (deliverEcho (mnode N x)). x \<in> counts v_echoes (mnode N p) r v)
        \<and> (\<forall>(v, r) \<in> set (deliverVote (mnode N x)). x \<in> counts v_votes (mnode N p) r v)
        \<and> (\<forall>(v, r) \<in> set (deliverBind (mnode N x)). x \<in> counts v_binds (mnode N p) r v)
        \<and> (ch_sent (deliverDecision (mnode N x)) \<noteq> [] \<longrightarrow> x \<in> term_received (termGadget (mnode N p))))
     \<and> (\<forall>r \<in> set (coinReq (mnode N p)). exec_pc (round_at (mnode N p) r) = XDone))"

definition aba_settled :: "net_cfg \<Rightarrow> aba_net \<Rightarrow> bool" where
  "aba_settled c N \<longleftrightarrow> aba_delivered c N \<and> (\<forall>p \<in> correct c. mmr_idle (mnode N p) \<and> mmr_open (mnode N p))"

section \<open>What an idle node has done\<close>

lemma handed_all:
  assumes "handed r ch L" and "chan_recv ch = None" and "v \<in> set (ch_sent ch)"
  shows "(v, r) \<in> set L"
  using assms by (auto simp: handed_def chan_recv_def split: if_splits)

lemma new_round_empty:
  "ch_sent (getOutputDecision (round_bca (newRound n f))) = []" "ch_sent (getBcastEchoChan (round_bca (newRound n f))) = []"
  "ch_sent (getBcastVoteChan (round_bca (newRound n f))) = []" "ch_sent (getBcastBindChan (round_bca (newRound n f))) = []"
  by (simp_all add: newRound_def newEVBCA_def)

lemma idle_listened:
  assumes "mmr_idle m" and "mmr_open m" and rd: "rounds m r = Some rd"
  shows "chan_recv (getBcastEchoChan (round_bca rd)) = None" "chan_recv (getBcastVoteChan (round_bca rd)) = None"
    "chan_recv (getBcastBindChan (round_bca rd)) = None" "chan_recv (coinReqChan rd) = None"
proof -
  have l: "r \<in> listening m" using assms(2) rd by (auto simp: mmr_open_def)
  have q: "listenRequests q r m = None" for q using assms(1) by (simp add: mmr_idle_def)
  show "chan_recv (getBcastEchoChan (round_bca rd)) = None"
    using q [of ReqEcho] l rd unfolding take_None [symmetric] by (simp add: listenRequests_def split: option.splits)
  show "chan_recv (getBcastVoteChan (round_bca rd)) = None"
    using q [of ReqVote] l rd unfolding take_None [symmetric] by (simp add: listenRequests_def split: option.splits)
  show "chan_recv (getBcastBindChan (round_bca rd)) = None"
    using q [of ReqBind] l rd unfolding take_None [symmetric] by (simp add: listenRequests_def split: option.splits)
  show "chan_recv (coinReqChan rd) = None" using q [of ReqCoin] l rd by (simp add: listenRequests_def split: option.splits)
qed

text \<open>Whatever the agreement of a round broadcasts has been handed over.\<close>

lemma idle_handed:
  assumes live: "node_live c coin I m" and idle: "mmr_idle m" "mmr_open m"
  shows "v \<in> set (ch_sent (getBcastEchoChan (round_bca (round_at m r)))) \<Longrightarrow> (v, r) \<in> set (deliverEcho m)"
    "v \<in> set (ch_sent (getBcastVoteChan (round_bca (round_at m r)))) \<Longrightarrow> (v, r) \<in> set (deliverVote m)"
    "v \<in> set (ch_sent (getBcastBindChan (round_bca (round_at m r)))) \<Longrightarrow> (v, r) \<in> set (deliverBind m)"
proof -
  have h: "hands m r (round_bca (round_at m r))" by (rule node_liveD(2) [OF live])
  show "v \<in> set (ch_sent (getBcastEchoChan (round_bca (round_at m r)))) \<Longrightarrow> (v, r) \<in> set (deliverEcho m)"
    "v \<in> set (ch_sent (getBcastVoteChan (round_bca (round_at m r)))) \<Longrightarrow> (v, r) \<in> set (deliverVote m)"
    "v \<in> set (ch_sent (getBcastBindChan (round_bca (round_at m r)))) \<Longrightarrow> (v, r) \<in> set (deliverBind m)"
    using h idle_listened [OF idle, of r] handed_all
    by (cases "rounds m r"; fastforce simp: round_at_def new_round_empty hands_def)+
qed

lemma idle_settled:
  assumes ok: "byz_ok c" and live: "node_live c coin I m" and inv: "bca_inv c P F (round_bca (round_at m r))"
    and n: "mmr_n m = cfg_n c" "mmr_f m = cfg_f c" and idle: "mmr_idle m"
  shows "settled_view c (bca_view P F (round_bca (round_at m r)))"
proof (cases "rounds m r")
  case None
  then have "bca_view {} {} (round_bca (round_at m r)) = init_view"
    using n by (intro rb.fresh_view [of c]) (simp add: round_at_def newRound_def)
  then have "settled_view c (bca_view {} {} (round_bca (round_at m r)))" using settled_init [OF ok] by simp
  then show ?thesis by (cases "round_bca (round_at m r)") (simp_all add: settled_view_def bca_view_of_def)
next
  case (Some rd)
  then have "bca_steps r m (m\<lparr>rounds := (rounds m)(r \<mapsto> rd\<lparr>round_bca := b\<rparr>)\<rparr>)" if "bca_goroutine (round_bca (round_at m r)) b" for b
    using that round_at_Some [OF Some] by (auto simp: bca_steps_def)
  then have "\<not> bca_goroutine (round_bca (round_at m r)) b" for b using idle by (auto simp: mmr_idle_def)
  then show ?thesis by (rule rp.stuck_settled [OF inv node_liveD(1) [OF live]])
qed

text \<open>A round whose agreement decided has got its coin and acted on it.\<close>

lemma idle_after_coin:
  assumes live: "node_live c coin I m" and rdy: "node_ready m" and idle: "mmr_idle m" "mmr_open m"
    and coins: "\<And>r. r \<in> set (coinReq m) \<Longrightarrow> exec_pc (round_at m r) = XDone"
    and d: "bca_decided (round_bca (round_at m r)) \<noteq> {}"
  shows "\<exists>d \<in> bca_decided (round_bca (round_at m r)). after_coin coin m r d"
proof -
  obtain rd where rd: "rounds m r = Some rd"
    using d by (cases "rounds m r") (auto simp: round_at_def bca_decided_chan new_round_empty)
  note at = round_at_Some [OF rd]
  have ex: "exec_live coin m r rd" using node_liveD(3) [OF live, of r] by (simp add: at)
  have ready: "round_ready rd" using rdy at by (auto simp: node_ready_def dest: spec [of _ r])
  have none: "execRound rd = None"
    using idle(1) rd by (auto simp: mmr_idle_def mmr_execRound_def split: option.splits dest: spec [of _ r])
  have "exec_pc rd = XDone"
  proof (cases "exec_pc rd")
    case XDec
    then have "takeDecision (round_bca rd) = None" using none by (auto simp: execRound_def split: option.splits)
    then show ?thesis using XDec ex d at by (simp add: take_None exec_live_def bca_decided_chan chan_recv_def split: if_splits)
  next
    case (XReq d)
    then show ?thesis using none ready by (simp add: execRound_def round_ready_def send_then_def unused_ops)
  next
    case (XCoin d)
    then show ?thesis using ex idle_listened(4) [OF idle rd] coins [of r] at by (auto simp: exec_live_def chan_recv_def split: if_splits)
  qed (use ready in \<open>simp_all add: round_ready_def\<close>)
  then show ?thesis using ex at by (simp add: exec_live_def)
qed

text \<open>A node that reached a decision, or was told one often enough, has handed it over.\<close>

lemma idle_hands_over:
  assumes live: "node_live c coin I m" and idle: "mmr_idle m"
    and "hasDecided m \<or> ch_sent (term_deliverDecision (termGadget m)) \<noteq> []"
  shows "\<exists>v. ch_sent (deliverDecision m) = [v]"
proof -
  have top: "top_live c m" by (rule node_liveD(4) [OF live])
  have none: "reachDecision b m = None" for b using idle by (simp add: mmr_idle_def)
  have "reach_pc m = RDone"
  proof (cases "reach_pc m")
    case RWait
    then show ?thesis using none [of True] none [of False] top assms(3)
      by (auto simp: reachDecision_def top_live_def recv_then_def chan_recv_def split: if_splits option.splits)
  next
    case (ROut d)
    then show ?thesis using none top by (auto simp: reachDecision_def top_live_def send_then_def chan_send_def split: if_splits option.splits)
  qed
  then have "length (ch_sent (deliverDecision m)) = 1" using top by (simp add: top_live_def)
  then show ?thesis by (auto simp: length_Suc_conv)
qed

section \<open>Agreement that was there from the start\<close>

lemma settledD:
  assumes "aba_settled c N" and "p \<in> correct c"
  shows "mmr_idle (mnode N p)" "mmr_open (mnode N p)" "r \<in> set (coinReq (mnode N p)) \<Longrightarrow> exec_pc (round_at (mnode N p) r) = XDone"
  using assms by (auto simp: aba_settled_def aba_delivered_def)

lemma deliveredD:
  assumes "aba_settled c N" and "p \<in> correct c" "x \<in> correct c"
  shows "(v, r) \<in> set (deliverEcho (mnode N x)) \<Longrightarrow> x \<in> counts v_echoes (mnode N p) r v"
    "(v, r) \<in> set (deliverVote (mnode N x)) \<Longrightarrow> x \<in> counts v_votes (mnode N p) r v"
    "(v, r) \<in> set (deliverBind (mnode N x)) \<Longrightarrow> x \<in> counts v_binds (mnode N p) r v"
    "ch_sent (deliverDecision (mnode N x)) \<noteq> [] \<Longrightarrow> x \<in> term_received (termGadget (mnode N p))"
  using assms by (fastforce simp: aba_settled_def aba_delivered_def)+

lemma settled_views:
  assumes ok: "byz_ok c" "int_sized c" and reach: "aba_reach c coin N" and s: "aba_settled c N"
  shows "views_delivered c (net_view N PP FF r)"
proof -
  have "x \<in> counts v_echoes (mnode N p) r v" if "p \<in> correct c" "x \<in> correct c" "v \<in> v_sentEcho (net_view N PP FF r x)" for p x v
  proof -
    have "(v, r) \<in> set (deliverEcho (mnode N x))"
      using idle_handed(1) [OF aba_reach_live [OF ok reach] settledD(1,2) [OF s that(2)]] that(3)
      by (simp add: net_view_def node_view_def getters_view)
    then show ?thesis by (rule deliveredD [OF s that(1,2)])
  qed
  moreover have "x \<in> counts v_votes (mnode N p) r v" if "p \<in> correct c" "x \<in> correct c" "v \<in> v_sentVote (net_view N PP FF r x)" for p x v
  proof -
    have "(v, r) \<in> set (deliverVote (mnode N x))"
      using idle_handed(2) [OF aba_reach_live [OF ok reach] settledD(1,2) [OF s that(2)]] that(3)
      by (simp add: net_view_def node_view_def getters_view)
    then show ?thesis by (rule deliveredD [OF s that(1,2)])
  qed
  moreover have "x \<in> counts v_binds (mnode N p) r v" if "p \<in> correct c" "x \<in> correct c" "v \<in> v_sentBind (net_view N PP FF r x)" for p x v
  proof -
    have "(v, r) \<in> set (deliverBind (mnode N x))"
      using idle_handed(3) [OF aba_reach_live [OF ok reach] settledD(1,2) [OF s that(2)]] that(3)
      by (simp add: net_view_def node_view_def getters_view)
    then show ?thesis by (rule deliveredD [OF s that(1,2)])
  qed
  moreover have "counts sel (mnode N p) r v = sel (net_view N PP FF r p) v" if "sel \<in> {v_echoes, v_votes, v_binds}" for sel p v
    using that by (cases "round_bca (round_at (mnode N p) r)") (auto simp: counts_def net_view_def node_view_def bca_view_of_def)
  ultimately show ?thesis by (simp add: views_delivered_def)
qed

text \<open>In a settled network a round in which every correct node echoed \<open>v\<close>, and nothing else was proposed, decided \<open>v\<close>.\<close>

lemma settled_round_decides:
  assumes ok: "byz_ok c" "int_sized c" and reach: "aba_reach c coin N" and s: "aba_settled c N"
    and i: "aba_inv c coin N PP FF DD" and v: "isInputValid v" and all: "all_propose c PP r v"
    and echo: "\<And>p. p \<in> correct c \<Longrightarrow> v \<in> echoed (mnode N p) r" and p: "p \<in> correct c"
  shows "round_decided N p r = {v}"
proof -
  have node: "node_inv c coin (inputs N x) (mnode N x) (PP x) (FF x) (DD x)" for x using i by (simp add: aba_inv_def)
  have "v_decided (net_view N PP FF r p) = {v}"
  proof (rule echoed_decides [OF ok(1) _ _ v _ settled_views [OF ok reach s] _ p])
    show "bca_vreach c (net_view N PP FF r)" using i by (simp add: aba_inv_def)
    show "only_proposed c (net_view N PP FF r) v"
      using all by (simp add: only_proposed_def all_propose_def net_view_def node_view_def rb.view_proposed)
    show "v \<in> v_sentEcho (net_view N PP FF r q)" if "q \<in> correct c" for q
      using echo [OF that] by (simp add: net_view_def node_view_def getters_view echoed_def)
    show "settled_view c (net_view N PP FF r q)" if "q \<in> correct c" for q
      using idle_settled [OF ok(1) aba_reach_live [OF ok reach] node_invD(3,1,2) [OF node] settledD(1) [OF s that]]
      by (simp add: net_view_def node_view_def)
  qed
  then show ?thesis by (simp add: round_decided_view [of N p r PP FF])
qed

text \<open>Until the coin shows the common value, the rounds carry it on.\<close>

lemma unanimous_rounds:
  assumes ok: "byz_ok c" "int_sized c" and reach: "aba_reach c coin N" and s: "aba_settled c N"
    and i: "aba_inv c coin N PP FF DD" and v: "isInputValid v" and props: "\<And>r. all_propose c PP r v"
    and ins: "\<And>p. p \<in> correct c \<Longrightarrow> inputs N p = {v}"
    and before: "\<And>q. unat q < unat r \<Longrightarrow> coin q \<noteq> v" and p: "p \<in> correct c"
  shows "v \<in> echoed (mnode N p) r"
  using before p
proof (induction "unat r" arbitrary: r p)
  case 0
  then have "r = 0" by (simp add: unat_eq_zero)
  then show ?case using node_liveD(5) [OF aba_reach_live [OF ok reach]] ins [OF 0(3)] v by simp
next
  case (Suc k)
  let ?q = "r - 1"
  have r0: "r \<noteq> 0" using Suc(2) by auto
  then have q: "unat ?q = k" using Suc(2) by (simp add: unat_minus_one)
  have "v \<in> echoed (mnode N x) ?q" if "x \<in> correct c" for x using Suc(1) [OF q [symmetric] _ that] Suc(2,3) q by simp
  from settled_round_decides [OF ok reach s i v props this Suc(4)] have d: "bca_decided (round_bca (round_at (mnode N p) ?q)) = {v}"
    by (simp add: round_decided_def)
  then have "after_coin coin (mnode N p) ?q v"
    using idle_after_coin [OF aba_reach_live [OF ok reach] aba_reach_ready [OF reach] settledD [OF s Suc(4)], of ?q] by auto
  moreover have "coin ?q \<noteq> v" using Suc(3) [of ?q] q Suc(2) by simp
  moreover have "v \<noteq> bot" using v by auto
  ultimately show ?case using r0 by (auto simp: after_coin_def transition_def)
qed

text \<open>
  C13. If every correct node proposed the bit \<open>v\<close> and nothing else, then in a network where the messages,
  decisions and coins of the correct nodes have arrived and no goroutine of theirs can move, the first
  round whose coin is \<open>v\<close> has made every correct node hand over exactly the decision \<open>v\<close>.
\<close>

theorem unanimous_decides:
  assumes ok: "byz_ok c" "int_sized c" and reach: "aba_reach c coin N" and s: "aba_settled c N"
    and v: "isInputValid v" and ins: "\<And>p. p \<in> correct c \<Longrightarrow> inputs N p = {v}" and coin: "coin k = v" and p: "p \<in> correct c"
  shows "ch_sent (deliverDecision (mnode N p)) = [v]"
proof -
  obtain PP FF DD where i: "aba_inv c coin N PP FF DD" using reach_net_ok [OF ok(1) reach] by (rule net_okE)
  have node: "node_inv c coin (inputs N x) (mnode N x) (PP x) (FF x) (DD x)" for x using i by (simp add: aba_inv_def)
  have "all_propose c PP 0 v" using node_invD(6) [OF node] ins by (auto simp: all_propose_def)
  then have props: "all_propose c PP r v" for r using proposes_later [OF ok(1) i v, of 0 r "unat r"] by simp
  obtain r where r: "coin r = v" "\<And>q. unat q < unat r \<Longrightarrow> coin q \<noteq> v"
    using ex_has_least_nat [of "\<lambda>r. coin r = v" k unat] coin linorder_not_le by blast
  have "v \<in> echoed (mnode N x) r" if "x \<in> correct c" for x
    by (rule unanimous_rounds [OF ok reach s i v props ins r(2) that])
  from settled_round_decides [OF ok reach s i v props this p] have d: "bca_decided (round_bca (round_at (mnode N p) r)) = {v}"
    by (simp add: round_decided_def)
  then have "after_coin coin (mnode N p) r v"
    using idle_after_coin [OF aba_reach_live [OF ok reach] aba_reach_ready [OF reach] settledD [OF s p], of r] by auto
  moreover have "v \<noteq> bot" using v by auto
  ultimately have "hasDecided (mnode N p)" using r(1) by (simp add: after_coin_def transition_def)
  from idle_hands_over [OF aba_reach_live [OF ok reach] settledD(1) [OF s p]] this
  obtain u where u: "ch_sent (deliverDecision (mnode N p)) = [u]" by blast
  then show ?thesis using aba_valid [OF ok(1) reach p, of u] ins by auto
qed

section \<open>Decisions spread\<close>

text \<open>
  C14. In such a network the termination gadget has spread the decisions: when more than \<open>f\<close> correct nodes
  handed over a decision, every correct node has handed over the same one, whatever happened in its rounds.
\<close>

theorem decisions_spread:
  assumes ok: "byz_ok c" "int_sized c" and reach: "aba_reach c coin N" and s: "aba_settled c N"
    and A: "A \<subseteq> correct c" "unat (cfg_f c) < card A" "\<And>x. x \<in> A \<Longrightarrow> ch_sent (deliverDecision (mnode N x)) \<noteq> []"
  shows "\<exists>v. \<forall>q \<in> correct c. ch_sent (deliverDecision (mnode N q)) = [v]"
proof -
  obtain PP FF DD where i: "aba_inv c coin N PP FF DD" using reach_net_ok [OF ok(1) reach] by (rule net_okE)
  obtain x where x: "x \<in> A" using A(2) by (metis card.empty equals0I not_less_zero)
  obtain v where v: "v \<in> set (ch_sent (deliverDecision (mnode N x)))" using A(3) [OF x] by (meson last_in_set)
  have same: "u = v" if "y \<in> correct c" "u \<in> set (ch_sent (deliverDecision (mnode N y)))" for y u
    using aba_agree [OF ok(1) reach _ that(1) v that(2)] A(1) x by blast
  have "ch_sent (deliverDecision (mnode N q)) = [v]" if q: "q \<in> correct c" for q
  proof -
    have t: "term_inv c (DD q) (termGadget (mnode N q))" using node_invD(12) i by (fastforce simp: aba_inv_def)
    have "A \<subseteq> announced (DD q) v"
    proof
      fix y
      assume y: "y \<in> A"
      then have "y \<in> term_received (termGadget (mnode N q))" using deliveredD(4) [OF s q] A(1,3) by blast
      then obtain u where u: "(y, u) \<in> DD q" using t by (auto simp: term_inv_def)
      then have "u \<in> set (ch_sent (deliverDecision (mnode N y)))" using i y A(1) by (auto simp: aba_inv_def)
      then show "y \<in> announced (DD q) v" using same [of y u] y A(1) u by (auto simp: announced_def)
    qed
    moreover have "finite (announced (DD q) v)" 
      using t announced_sub [of "DD q" c v] ok(1) by (auto simp: term_inv_def byz_ok_def intro: finite_subset card_ge_0_finite)
    ultimately have "card A \<le> card (announced (DD q) v)" by (rule card_mono [rotated])
    then have "unat (cfg_f c) < unat (results (termGadget (mnode N q)) v)" using A(2) t by (simp add: term_inv_def)
    moreover have "isInputValid v" using aba_valid [OF ok(1) reach _ v] A(1) x by blast
    ultimately have "ch_sent (term_deliverDecision (termGadget (mnode N q))) \<noteq> []"
      using node_liveD(4) [OF aba_reach_live [OF ok reach, of q]] by (simp add: top_live_def term_live_def)
    from idle_hands_over [OF aba_reach_live [OF ok reach] settledD(1) [OF s q]] this
    obtain u where "ch_sent (deliverDecision (mnode N q)) = [u]" by blast
    then show ?thesis using same [OF q, of u] by simp
  qed
  then show ?thesis by blast
qed

end
