(* ===== verification/MMR_Stall.thy ===== *)
theory MMR_Stall
  imports MMR_Liveness MMR_Run BCA_Run
begin

text \<open>
  Concrete runs of the multi-round agreement among three correct nodes and a Byzantine one.  In the first
  all correct nodes propose 1 and the coin is 1.  In the two others the Byzantine node splits the
  first round, so that one node decides 1 in it and the others bot.  When the coin is 1 too, that node
  has decided and stays out of the second round; when the coin is 0, it waits in the second round for
  echoes that the others do not send.  Either way the second round never ends.
\<close>

section \<open>Runs of three correct nodes\<close>

datatype who = NA | NB | NC

type_synonym 'a triple = "'a \<times> 'a \<times> 'a"

fun pick :: "who \<Rightarrow> 'a triple \<Rightarrow> 'a" where
  "pick NA (x, y, z) = x"
| "pick NB (x, y, z) = y"
| "pick NC (x, y, z) = z"

fun put3 :: "who \<Rightarrow> 'a \<Rightarrow> 'a triple \<Rightarrow> 'a triple" where
  "put3 NA u (x, y, z) = (u, y, z)"
| "put3 NB u (x, y, z) = (x, u, z)"
| "put3 NC u (x, y, z) = (x, y, u)"

fun name :: "who \<Rightarrow> uuid" where
  "name NA = nA"
| "name NB = nB"
| "name NC = nC"

definition by_name :: "'a triple \<Rightarrow> 'a \<Rightarrow> uuid \<Rightarrow> 'a" where
  "by_name s d p = (if p = nA then pick NA s else if p = nB then pick NB s else if p = nC then pick NC s else d)"

definition net3 :: "mmr triple \<Rightarrow> byte set triple \<Rightarrow> aba_net" where
  "net3 s I = \<lparr>mnode = by_name s (newMMR 4 1), inputs = by_name I {}\<rparr>"

lemma by_name_name [simp]: "by_name s d (name w) = pick w s"
  by (cases w) (simp_all add: by_name_def)

lemma by_name_put: "(by_name s d)(name w := u) = by_name (put3 w u s) d"
  by (cases w; cases s) (auto simp: by_name_def fun_eq_iff)

lemma name_correct [simp]: "name w \<in> correct default_cfg" "name w \<in> procs default_cfg"
  by (cases w; simp)+

lemma correct_name: "p \<in> correct default_cfg \<Longrightarrow> \<exists>w. p = name w"
  using name.simps by (auto, (metis name.simps)+)

text \<open>A message comes from a correct node, or from the Byzantine one.\<close>

datatype origin = Good who | Bad

fun sender :: "origin \<Rightarrow> uuid" where
  "sender (Good w) = name w"
| "sender Bad = nD"

fun sent_by :: "origin \<Rightarrow> (mmr \<Rightarrow> 'a set) \<Rightarrow> 'a \<Rightarrow> mmr triple \<Rightarrow> bool" where
  "sent_by (Good w) sel y s = (y \<in> sel (pick w s))"
| "sent_by Bad sel y s = True"

datatype event3 =
    DoPropose who byte
  | DoEcho who byte origin uint16
  | DoVote who byte origin uint16
  | DoBind who byte origin uint16
  | DoCoin who uint16
  | DoDecision who byte origin
  | DoExt who byte uint16
  | DoTakeExt who
  | DoGo who lock_event

definition go_to :: "who \<Rightarrow> mmr option \<Rightarrow> mmr triple \<Rightarrow> mmr triple option" where
  "go_to w mo s = map_option (\<lambda>m. put3 w m s) mo"

definition guarded :: "bool \<Rightarrow> 'a \<Rightarrow> 'a option" where
  "guarded b x = (if b then Some x else None)"

fun apply3 :: "(uint16 \<Rightarrow> byte) \<Rightarrow> event3 \<Rightarrow> mmr triple \<Rightarrow> mmr triple option" where
  "apply3 coin (DoPropose w v) s = Some (put3 w (fst (concurrent_propose v (pick w s))) s)"
| "apply3 coin (DoEcho w v x r) s =
     go_to w (guarded (sent_by x (set \<circ> deliverEcho) (v, r) s) (fst (mmr_submitEcho v (sender x) r (pick w s)))) s"
| "apply3 coin (DoVote w v x r) s =
     go_to w (guarded (sent_by x (set \<circ> deliverVote) (v, r) s) (fst (mmr_submitVote v (sender x) r (pick w s)))) s"
| "apply3 coin (DoBind w v x r) s =
     go_to w (guarded (sent_by x (set \<circ> deliverBind) (v, r) s) (fst (mmr_submitBind v (sender x) r (pick w s)))) s"
| "apply3 coin (DoCoin w r) s = go_to w (lock_apply coin (LCoin r) (pick w s)) s"
| "apply3 coin (DoDecision w v x) s =
     go_to w (guarded (sent_by x (set \<circ> (ch_sent \<circ> deliverDecision)) v s) (fst (mmr_submitDecision v (sender x) (pick w s)))) s"
| "apply3 coin (DoExt w v r) s =
     go_to w (guarded ((v, r) \<in> set (deliverExternallyValid (pick w s))) (fst (mmr_submitExternallyValid v r (pick w s)))) s"
| "apply3 coin (DoTakeExt w) s = go_to w (map_option snd (listenExternallyValid (pick w s))) s"
| "apply3 coin (DoGo w e) s = (if inner_event e then go_to w (lock_apply coin e (pick w s)) s else None)"

fun inputs3 :: "event3 \<Rightarrow> byte set triple \<Rightarrow> byte set triple" where
  "inputs3 (DoPropose w v) I = put3 w (insert v (pick w I)) I"
| "inputs3 _ I = I"

fun exec3 :: "(uint16 \<Rightarrow> byte) \<Rightarrow> event3 list \<Rightarrow> mmr triple \<Rightarrow> mmr triple option" where
  "exec3 coin [] s = Some s"
| "exec3 coin (e # es) s = Option.bind (apply3 coin e s) (exec3 coin es)"

lemma net3_set: "set_node (name w) m (net3 s I) = net3 (put3 w m s) I"
  by (simp add: net3_def set_node_def by_name_put)

lemma go_to_Some: "go_to w mo s = Some s' \<longleftrightarrow> (\<exists>m. mo = Some m \<and> s' = put3 w m s)"
  by (auto simp: go_to_def)

lemma guarded_Some: "guarded b x = Some y \<longleftrightarrow> b \<and> x = y"
  by (simp add: guarded_def)

lemma sent_by_sender: "sent_by x sel y s \<Longrightarrow> sender x \<in> procs default_cfg \<and> (sender x \<in> correct default_cfg \<longrightarrow> y \<in> sel (mnode (net3 s I) (sender x)))"
  by (cases x) (simp_all add: net3_def del: default_cfg_sel, simp)

lemma apply3_step:
  assumes "apply3 coin e s = Some s'"
  shows "aba_step default_cfg coin (net3 s I) (net3 s' (inputs3 e I))"
proof -
  have nd: "mnode (net3 s I) (name w) = pick w s" for w by (simp add: net3_def)
  note snd = sent_by_sender [of _ _ _ s I]
  show ?thesis
  proof (cases e)
    case (DoPropose w v)
    have "net3 s' (inputs3 e I) = (set_node (name w) (fst (concurrent_propose v (mnode (net3 s I) (name w)))) (net3 s I))
        \<lparr>inputs := (inputs (net3 s I))(name w := insert v (inputs (net3 s I) (name w)))\<rparr>"
      using assms DoPropose by (simp add: net3_def set_node_def by_name_put)
    then show ?thesis using aba_step.propose [OF name_correct(1), of coin "net3 s I" w v] by simp
  next
    case (DoEcho w v x r)
    then show ?thesis using assms snd [of x "set \<circ> deliverEcho" "(v, r)"] aba_step.echo [OF name_correct(1), of "sender x" v r "net3 s I" coin w]
      by (auto simp: go_to_Some guarded_Some nd net3_set)
  next
    case (DoVote w v x r)
    then show ?thesis using assms snd [of x "set \<circ> deliverVote" "(v, r)"] aba_step.vote [OF name_correct(1), of "sender x" v r "net3 s I" coin w]
      by (auto simp: go_to_Some guarded_Some nd net3_set)
  next
    case (DoBind w v x r)
    then show ?thesis using assms snd [of x "set \<circ> deliverBind" "(v, r)"] aba_step.bind [OF name_correct(1), of "sender x" v r "net3 s I" coin w]
      by (auto simp: go_to_Some guarded_Some nd net3_set)
  next
    case (DoCoin w r)
    then obtain m' res where "r \<in> set (coinReq (pick w s))" "mmr_submitCoin (coin r) r (pick w s) = (m', res)" "res \<noteq> GoBlocked"
      "s' = put3 w m' s"
      using assms by (auto simp: go_to_Some split: if_splits prod.splits)
    then show ?thesis using aba_step.coin [OF name_correct(1), of r "net3 s I" w coin m' res] DoCoin by (simp add: nd net3_set)
  next
    case (DoDecision w v x)
    then show ?thesis using assms snd [of x "set \<circ> (ch_sent \<circ> deliverDecision)" v]
        aba_step.decision [OF name_correct(1), of "sender x" v "net3 s I" coin w]
      by (auto simp: go_to_Some guarded_Some nd net3_set)
  next
    case (DoExt w v r)
    then show ?thesis using assms aba_step.goroutine [OF name_correct(1), of "net3 s I" w _ coin] mmr_goroutineI(8) [of v r "pick w s"]
      by (auto simp: go_to_Some guarded_Some nd net3_set)
  next
    case (DoTakeExt w)
    then show ?thesis using assms aba_step.goroutine [OF name_correct(1), of "net3 s I" w _ coin] mmr_goroutineI(5)
      by (auto simp: go_to_Some nd net3_set)
  next
    case (DoGo w l)
    then show ?thesis using assms aba_step.goroutine [OF name_correct(1), of "net3 s I" w _ coin] inner_event_goroutine
      by (auto simp: go_to_Some nd net3_set split: if_splits)
  qed
qed

definition start3 :: "mmr triple" where
  "start3 = (newMMR 4 1, newMMR 4 1, newMMR 4 1)"

lemma start3_init: "net3 start3 ({}, {}, {}) = aba_init default_cfg"
  by (auto simp: net3_def start3_def by_name_def aba_init_def fun_eq_iff)

lemma exec3_reach:
  "exec3 coin es s = Some s' \<Longrightarrow> aba_reach default_cfg coin (net3 s I) \<Longrightarrow> aba_reach default_cfg coin (net3 s' (fold inputs3 es I))"
proof (induction es arbitrary: s I)
  case (Cons e es)
  then obtain t where t: "apply3 coin e s = Some t" "exec3 coin es t = Some s'" by (auto simp: Option.bind_eq_Some_conv)
  from Cons.IH [OF t(2) aba_reach.step [OF Cons.prems(2) apply3_step [OF t(1)]]] show ?case by simp
qed simp

section \<open>Settled states can be evaluated\<close>

text \<open>The rounds a node has created are those its messages, coins and values named.\<close>

fun touches :: "event3 \<Rightarrow> uint16 set" where
  "touches (DoPropose w v) = {0}"
| "touches (DoEcho w v x r) = {r}"
| "touches (DoVote w v x r) = {r}"
| "touches (DoBind w v x r) = {r}"
| "touches (DoCoin w r) = {r, r + 1}"
| "touches (DoDecision w v x) = {}"
| "touches (DoExt w v r) = {r + 1}"
| "touches (DoTakeExt w) = {}"
| "touches (DoGo w e) = {}"

lemma with_round_dom: "dom (rounds (fst (with_round r oper m))) \<subseteq> insert r (dom (rounds m))"
  by (auto simp: with_round_def getRound_def Let_def split: prod.splits option.splits)

lemma submitCoin_dom: "dom (rounds (fst (mmr_submitCoin k r m))) \<subseteq> {r, r + 1} \<union> dom (rounds m)"
proof -
  obtain m1 rd where g: "getRound r m = (m1, rd)" by fastforce
  obtain rd1 t oc where sc: "round_submitCoin k rd = ((rd1, t), oc)" by (metis prod.exhaust)
  define m2 where "m2 = m1\<lparr>rounds := (rounds m1)(r \<mapsto> rd1)\<rparr>"
  have m2: "dom (rounds m2) \<subseteq> insert r (dom (rounds m))" using g by (auto simp: m2_def getRound_def Let_def split: option.splits)
  have "rounds (fst (mmr_submitCoin k r m)) = rounds m2
    \<or> (\<exists>est. rounds (fst (mmr_submitCoin k r m)) = rounds (fst (with_round (r + 1) (bca_propose est k) m2)))"
    by (cases oc; cases t) (auto simp: mmr_submitCoin_def g sc Let_def m2_def mmr_propose_def fst_chan_put)
  then show ?thesis using m2 with_round_dom [of "r + 1" _ m2] by fastforce
qed

lemma inner_dom: "inner_event e \<Longrightarrow> lock_apply coin e m = Some m' \<Longrightarrow> dom (rounds m') \<subseteq> dom (rounds m)"
proof (cases e)
  case (LThread t b r)
  assume "lock_apply coin e m = Some m'"
  then show ?thesis using LThread by (auto split: option.splits if_splits)
next
  case (LExec r)
  assume "lock_apply coin e m = Some m'"
  then show ?thesis using LExec by (auto simp: mmr_execRound_def split: option.splits if_splits)
next
  case (LListen q r)
  assume "lock_apply coin e m = Some m'"
  then have "listenRequests q r m = Some m'" using LListen by simp
  then show ?thesis by (cases rule: listen_cases) (auto split: if_splits)
next
  case (LReach b)
  assume "lock_apply coin e m = Some m'"
  then show ?thesis using LReach reach_out(1) by auto
qed (simp_all add: inner_event_def)

definition within :: "uint16 set \<Rightarrow> mmr triple \<Rightarrow> bool" where
  "within R s \<longleftrightarrow> dom (rounds (pick NA s)) \<subseteq> R \<and> dom (rounds (pick NB s)) \<subseteq> R \<and> dom (rounds (pick NC s)) \<subseteq> R"

lemma within_put: "within R s \<Longrightarrow> dom (rounds m) \<subseteq> R \<Longrightarrow> within R (put3 w m s)"
  by (cases s; cases w) (simp_all add: within_def)

lemma apply3_within:
  assumes "apply3 coin e s = Some s'" and "within R s" and "touches e \<subseteq> R"
  shows "within R s'"
proof -
  have d: "dom (rounds (pick w s)) \<subseteq> R" for w using assms(2) by (cases w) (simp_all add: within_def)
  have wr: "dom (rounds (fst (with_round r oper (pick w s)))) \<subseteq> R" if "r \<in> R" for r w and oper :: "bca \<Rightarrow> bca \<times> bca_error outcome"
    using with_round_dom [of r oper "pick w s"] d [of w] that by blast
  obtain w m where m: "s' = put3 w m s" "dom (rounds m) \<subseteq> R"
  proof (cases e)
    case (DoCoin w r)
    then obtain m where "s' = put3 w m s" "m = fst (mmr_submitCoin (coin r) r (pick w s))"
      using assms(1) by (auto simp: go_to_Some split: if_splits prod.splits)
    then show ?thesis using that submitCoin_dom [of "coin r" r "pick w s"] d [of w] assms(3) DoCoin by fastforce
  next
    case (DoGo w l)
    then obtain m where "s' = put3 w m s" "lock_apply coin l (pick w s) = Some m" "inner_event l"
      using assms(1) by (auto simp: go_to_Some split: if_splits)
    then show ?thesis using that inner_dom [of l coin "pick w s" m] d [of w] by fastforce
  next
    case (DoTakeExt w)
    then show ?thesis using that assms(1) d [of w] by (auto simp: go_to_Some listenExternallyValid_def split: if_splits)
  next
    case (DoDecision w v x)
    then show ?thesis using that assms(1) d [of w] by (auto simp: go_to_Some guarded_Some mmr_submitDecision_def split: prod.splits)
  next
    case (DoPropose w v)
    then show ?thesis using that [of w "fst (with_round 0 (bca_propose v bot) (pick w s))"] assms(1,3) wr
      by (simp add: concurrent_propose_def mmr_propose_def firstRound_def)
  next
    case (DoEcho w v x r)
    then show ?thesis using that [of w "fst (with_round r (bca_submitEcho v (sender x)) (pick w s))"] assms(1,3) wr
      by (simp add: go_to_Some guarded_Some mmr_submitEcho_def)
  next
    case (DoVote w v x r)
    then show ?thesis using that [of w "fst (with_round r (bca_submitVote v (sender x)) (pick w s))"] assms(1,3) wr
      by (simp add: go_to_Some guarded_Some mmr_submitVote_def)
  next
    case (DoBind w v x r)
    then show ?thesis using that [of w "fst (with_round r (bca_submitBind v (sender x)) (pick w s))"] assms(1,3) wr
      by (simp add: go_to_Some guarded_Some mmr_submitBind_def)
  next
    case (DoExt w v r)
    then show ?thesis using that [of w "fst (with_round (r + 1) (bca_submitExternallyValid v) (pick w s))"] assms(1,3) wr
      by (simp add: go_to_Some guarded_Some mmr_submitExternallyValid_def)
  qed
  then show ?thesis using within_put [OF assms(2)] by blast
qed

lemma exec3_within:
  "exec3 coin es s = Some s' \<Longrightarrow> within R s \<Longrightarrow> (\<And>e. e \<in> set es \<Longrightarrow> touches e \<subseteq> R) \<Longrightarrow> within R s'"
proof (induction es arbitrary: s)
  case (Cons e es)
  then obtain t where t: "apply3 coin e s = Some t" "exec3 coin es t = Some s'" by (auto simp: Option.bind_eq_Some_conv)
  then show ?case using Cons.IH [OF t(2)] apply3_within [OF t(1)] Cons.prems by simp
qed simp

lemma start3_within: "0 \<in> R \<Longrightarrow> within R start3"
proof -
  assume "0 \<in> R"
  then have "dom (rounds (newMMR 4 1)) \<subseteq> R" by (auto simp: newMMR_def initFirstRound_def firstRound_def)
  then show ?thesis by (simp add: within_def start3_def)
qed

definition threads_idle :: "bca \<Rightarrow> bool" where
  "threads_idle b = (\<forall>t \<in> set [TVote, TBind, TDecide]. \<forall>x \<in> set [True, False]. bca_run_thread t x b = None)"

definition round_idle :: "mmr \<Rightarrow> uint16 \<Rightarrow> bool" where
  "round_idle m r = (case rounds m r of None \<Rightarrow> True
     | Some rd \<Rightarrow> r \<in> listening m \<and> threads_idle (round_bca rd) \<and> execRound rd = None
         \<and> (\<forall>q \<in> set [ReqEcho, ReqVote, ReqBind, ReqCoin, ReqExt]. listenRequests q r m = None))"

definition node_idle :: "uint16 list \<Rightarrow> mmr \<Rightarrow> bool" where
  "node_idle R m = (list_all (round_idle m) R \<and> reachDecision True m = None \<and> reachDecision False m = None
     \<and> listenExternallyValid m = None)"

lemma threads_idle: "threads_idle b \<Longrightarrow> \<not> bca_goroutine b b'"
proof -
  assume idle: "threads_idle b"
  have "bca_run_thread t x b = None" for t x using idle unfolding threads_idle_def by (cases t; cases x) simp_all
  moreover have "bca_goroutine b b' \<Longrightarrow> \<exists>t x. bca_run_thread t x b = Some b'"
    by (cases b; cases b') (auto simp: iv_run_def ev_run_def, (metis bca_run_thread.simps iv_thread.simps ev_thread.simps option.map(2))+)
  ultimately show ?thesis by fastforce
qed

lemma node_idle_settled:
  assumes "node_idle R m" and "dom (rounds m) \<subseteq> set R"
  shows "mmr_idle m" and "mmr_open m"
proof -
  have r: "round_idle m r" for r
  proof (cases "rounds m r")
    case None
    then show ?thesis by (simp add: round_idle_def)
  next
    case (Some rd)
    then have "r \<in> set R" using assms(2) by blast
    then show ?thesis using assms(1) by (simp add: node_idle_def list_all_iff)
  qed
  show "mmr_open m" using r by (force simp: mmr_open_def round_idle_def split: option.splits)
  have "listenRequests q r m = None" for q r
  proof (cases "rounds m r")
    case None
    then show ?thesis by (simp add: listenRequests_def)
  next
    case (Some rd)
    then show ?thesis using r [of r] by (cases q) (simp_all add: round_idle_def)
  qed
  moreover have "\<not> bca_steps r m m'" "mmr_execRound r m = None" for r m'
    using r [of r] threads_idle by (auto simp: bca_steps_def mmr_execRound_def round_idle_def split: option.splits)
  moreover have "reachDecision b m = None" for b using assms(1) by (cases b) (simp_all add: node_idle_def)
  ultimately show "mmr_idle m" by (simp add: mmr_idle_def)
qed

definition heard3 :: "mmr triple \<Rightarrow> who \<Rightarrow> who \<Rightarrow> bool" where
  "heard3 s w x = (list_all (\<lambda>(v, r). name x \<in> counts v_echoes (pick w s) r v) (deliverEcho (pick x s))
     \<and> list_all (\<lambda>(v, r). name x \<in> counts v_votes (pick w s) r v) (deliverVote (pick x s))
     \<and> list_all (\<lambda>(v, r). name x \<in> counts v_binds (pick w s) r v) (deliverBind (pick x s))
     \<and> (ch_sent (deliverDecision (pick x s)) \<noteq> [] \<longrightarrow> name x \<in> term_received (termGadget (pick w s))))"

definition coined :: "mmr \<Rightarrow> bool" where
  "coined m = list_all (\<lambda>r. exec_pc (round_at m r) = XDone) (coinReq m)"

definition settled3 :: "uint16 list \<Rightarrow> mmr triple \<Rightarrow> bool" where
  "settled3 R s = list_all (\<lambda>w. node_idle R (pick w s) \<and> coined (pick w s) \<and> list_all (heard3 s w) [NA, NB, NC]) [NA, NB, NC]"

lemma settled3_settled:
  assumes s: "settled3 R s" and w: "within (set R) s"
  shows "aba_settled default_cfg (net3 s I)"
proof -
  have all: "node_idle R (pick x s) \<and> coined (pick x s) \<and> heard3 s x y" for x y
    using s unfolding settled3_def by (cases x; cases y) simp_all
  have dom: "dom (rounds (pick x s)) \<subseteq> set R" for x using w by (cases x) (simp_all add: within_def)
  have "aba_delivered default_cfg (net3 s I)"
    unfolding aba_delivered_def
  proof (intro ballI conjI impI)
    fix p assume "p \<in> correct default_cfg"
    then obtain a where a: "p = name a" using correct_name by blast
    show "exec_pc (round_at (mnode (net3 s I) p) r) = XDone" if "r \<in> set (coinReq (mnode (net3 s I) p))" for r
      using all [of a a] that by (auto simp: a net3_def coined_def list_all_iff)
    fix q assume "q \<in> correct default_cfg"
    then obtain b where b: "q = name b" using correct_name by blast
    note h = all [of a b, unfolded heard3_def list_all_iff]
    show "case e of (v, r) \<Rightarrow> q \<in> counts v_echoes (mnode (net3 s I) p) r v" if "e \<in> set (deliverEcho (mnode (net3 s I) q))" for e
      using h that by (simp add: a b net3_def)
    show "case e of (v, r) \<Rightarrow> q \<in> counts v_votes (mnode (net3 s I) p) r v" if "e \<in> set (deliverVote (mnode (net3 s I) q))" for e
      using h that by (simp add: a b net3_def)
    show "case e of (v, r) \<Rightarrow> q \<in> counts v_binds (mnode (net3 s I) p) r v" if "e \<in> set (deliverBind (mnode (net3 s I) q))" for e
      using h that by (simp add: a b net3_def)
    show "q \<in> term_received (termGadget (mnode (net3 s I) p))" if "ch_sent (deliverDecision (mnode (net3 s I) q)) \<noteq> []"
      using h that by (simp add: a b net3_def)
  qed
  moreover have "mmr_idle (mnode (net3 s I) p) \<and> mmr_open (mnode (net3 s I) p)" if "p \<in> correct default_cfg" for p
    using correct_name [OF that] node_idle_settled [OF conjunct1 [OF all] dom] by (auto simp: net3_def)
  ultimately show ?thesis by (simp add: aba_settled_def del: default_cfg_sel)
qed

text \<open>The runs: a list of events that the network allows and that ends in a settled state with property \<open>Q\<close>.\<close>

definition ends3 :: "(uint16 \<Rightarrow> byte) \<Rightarrow> event3 list \<Rightarrow> uint16 list \<Rightarrow> (mmr triple \<Rightarrow> bool) \<Rightarrow> bool" where
  "ends3 coin es R Q = (case exec3 coin es start3 of None \<Rightarrow> False | Some s \<Rightarrow> settled3 R s \<and> Q s)"

lemma ends3_net:
  assumes e: "ends3 coin es R Q" and "0 \<in> set R" and "\<forall>e \<in> set es. touches e \<subseteq> set R"
  shows "\<exists>s. aba_reach default_cfg coin (net3 s (fold inputs3 es ({}, {}, {})))
    \<and> aba_settled default_cfg (net3 s (fold inputs3 es ({}, {}, {}))) \<and> Q s"
proof -
  obtain s where s: "exec3 coin es start3 = Some s" "settled3 R s" "Q s" using e by (auto simp: ends3_def split: option.splits)
  have "within (set R) s" using exec3_within [OF s(1) start3_within] assms(2,3) by blast
  moreover have "aba_reach default_cfg coin (net3 start3 ({}, {}, {}))" by (simp add: start3_init aba_reach.init)
  ultimately show ?thesis using exec3_reach [OF s(1)] settled3_settled [OF s(2)] s(3) by blast
qed

section \<open>The runs\<close>

definition each3 :: "(who \<Rightarrow> 'a) \<Rightarrow> 'a list" where
  "each3 f = map f [NA, NB, NC]"

definition told :: "who list \<Rightarrow> (who \<Rightarrow> origin \<Rightarrow> 'a) \<Rightarrow> who list \<Rightarrow> 'a list" where
  "told ws f xs = concat (map (\<lambda>w. map (\<lambda>x. f w (Good x)) xs) ws)"

definition steps_of :: "who \<Rightarrow> lock_event list \<Rightarrow> event3 list" where
  "steps_of w es = map (DoGo w) es"

text \<open>A node hands over what its round has broadcast, one channel after another.\<close>

definition voting :: "uint16 \<Rightarrow> lock_event list" where
  "voting r = [LThread TVote False r, LThread TVote False r, LListen ReqVote r]"

definition binding :: "bool \<Rightarrow> uint16 \<Rightarrow> lock_event list" where
  "binding b r = [LThread TBind b r, LThread TBind b r, LListen ReqBind r]"

definition asking :: "uint16 \<Rightarrow> lock_event list" where
  "asking r = [LExec r, LExec r, LListen ReqCoin r]"

definition split_round :: "event3 list" where
  "split_round =
    \<comment> \<open>nodes A and B propose 1, node C 0; with the echo of the Byzantine node C votes 0 first\<close>
    [DoPropose NA 1, DoPropose NB 1, DoPropose NC 0] @ each3 (\<lambda>w. DoGo w (LListen ReqEcho 0))
    @ [DoEcho NA 0 (Good NC) 0, DoEcho NA 0 Bad 0, DoGo NA (LListen ReqEcho 0),
       DoEcho NC 0 (Good NC) 0, DoEcho NC 0 Bad 0, DoEcho NC 0 (Good NA) 0] @ steps_of NC (voting 0)
    @ [DoEcho NC 1 (Good NA) 0, DoEcho NC 1 (Good NB) 0, DoGo NC (LListen ReqEcho 0)]
    \<comment> \<open>A and B vote 1; with the vote of the Byzantine node they bind 1\<close>
    @ told [NA, NB] (\<lambda>w x. DoEcho w 1 x 0) [NA, NB, NC] @ steps_of NA (voting 0) @ steps_of NB (voting 0)
    @ told [NA, NB] (\<lambda>w x. DoVote w 1 x 0) [NA, NB] @ [DoVote NA 1 Bad 0, DoVote NB 1 Bad 0]
    @ steps_of NA (binding False 0) @ steps_of NB (binding False 0)
    \<comment> \<open>both values are approved everywhere, and C binds bot\<close>
    @ [DoEcho NB 0 (Good NC) 0, DoEcho NB 0 Bad 0, DoGo NB (LListen ReqEcho 0), DoEcho NB 0 (Good NA) 0, DoEcho NB 0 (Good NB) 0,
       DoEcho NA 0 (Good NA) 0, DoEcho NA 0 (Good NB) 0, DoEcho NC 0 (Good NB) 0, DoEcho NC 1 (Good NC) 0]
    @ concat (each3 (\<lambda>w. steps_of w [LThread TVote False 0, LThread TVote False 0, LThread TVote False 0]))
    @ steps_of NC (binding True 0)
    @ told [NA, NB] (\<lambda>w x. DoVote w 0 x 0) [NC] @ told [NC] (\<lambda>w x. DoVote w 1 x 0) [NA, NB] @ [DoVote NC 0 (Good NC) 0]
    \<comment> \<open>the Byzantine node binds 1 at A, which decides 1, and bot at B and C, which decide bot\<close>
    @ [DoBind NA 1 (Good NA) 0, DoBind NA 1 (Good NB) 0, DoBind NA 1 Bad 0, DoBind NA bot (Good NC) 0]
    @ told [NB, NC] (\<lambda>w x. DoBind w 1 x 0) [NA] @ told [NB, NC] (\<lambda>w x. DoBind w bot x 0) [NC]
    @ [DoBind NB bot Bad 0, DoBind NC bot Bad 0] @ told [NB, NC] (\<lambda>w x. DoBind w 1 x 0) [NB]
    @ steps_of NA (replicate 3 (LThread TDecide False 0))
    @ steps_of NB (replicate 4 (LThread TDecide True 0)) @ steps_of NC (replicate 4 (LThread TDecide True 0))
    @ concat (each3 (\<lambda>w. steps_of w (asking 0 @ [LListen ReqExt 0, LListen ReqExt 0])))
    @ concat (each3 (\<lambda>w. [DoTakeExt w, DoTakeExt w, DoExt w 0 0, DoExt w 1 0, DoCoin w 0]))"

text \<open>B and C take the coin \<open>k\<close> as their estimate, and fast-forward it in round 1.\<close>

definition forward :: "byte \<Rightarrow> event3 list" where
  "forward k =
    concat (map (\<lambda>w. steps_of w (LThread TVote False 1 # voting 1 @ binding False 1 @ [LListen ReqExt 1]) @ [DoTakeExt w, DoExt w k 1]) [NB, NC])
    @ told [NA, NB, NC] (\<lambda>w x. DoVote w k x 1) [NB, NC] @ told [NA, NB, NC] (\<lambda>w x. DoBind w k x 1) [NB, NC]"

definition decider_stops :: "event3 list" where
  "decider_stops = split_round @ steps_of NA [LReach True, LReach True] @ each3 (\<lambda>w. DoDecision w 1 (Good NA)) @ forward 1"

definition echo_waits :: "event3 list" where
  "echo_waits = split_round @ [DoGo NA (LListen ReqEcho 1)] @ each3 (\<lambda>w. DoEcho w 1 (Good NA) 1) @ forward 0"

definition decisions3 :: "mmr triple \<Rightarrow> byte list triple" where
  "decisions3 s = (ch_sent (deliverDecision (pick NA s)), ch_sent (deliverDecision (pick NB s)), ch_sent (deliverDecision (pick NC s)))"

definition decisions_at :: "uint16 \<Rightarrow> mmr triple \<Rightarrow> byte list triple" where
  "decisions_at r s = (let f = (\<lambda>w. ch_sent (getOutputDecision (round_bca (round_at (pick w s) r)))) in (f NA, f NB, f NC))"

text \<open>All propose 1; the coin of the first round is 0, that of the second 1.\<close>

definition quiet_round :: "uint16 \<Rightarrow> lock_event list \<Rightarrow> event3 list" where
  "quiet_round r vote = each3 (\<lambda>w. DoGo w (LListen ReqEcho r)) @ told [NA, NB, NC] (\<lambda>w x. DoEcho w 1 x r) [NA, NB, NC]
     @ concat (each3 (\<lambda>w. steps_of w (vote @ [LListen ReqExt r]))) @ told [NA, NB, NC] (\<lambda>w x. DoVote w 1 x r) [NA, NB, NC]
     @ concat (each3 (\<lambda>w. steps_of w (binding False r))) @ told [NA, NB, NC] (\<lambda>w x. DoBind w 1 x r) [NA, NB, NC]
     @ concat (each3 (\<lambda>w. steps_of w (replicate 3 (LThread TDecide False r) @ asking r)))
     @ each3 DoTakeExt @ each3 (\<lambda>w. DoExt w 1 r) @ each3 (\<lambda>w. DoCoin w r)"

definition second_coin :: "uint16 \<Rightarrow> byte" where
  "second_coin r = (if r = 0 then 0 else 1)"

definition two_rounds :: "event3 list" where
  "two_rounds = each3 (\<lambda>w. DoPropose w 1) @ quiet_round 0 (voting 0) @ each3 (\<lambda>w. DoGo w (LThread TVote True 0))
     @ quiet_round 1 (LThread TVote False 1 # voting 1)
     @ concat (each3 (\<lambda>w. steps_of w [LReach True, LReach True])) @ told [NA, NB, NC] (\<lambda>w x. DoDecision w 1 x) [NA, NB, NC]"

lemma two_rounds_run: "ends3 second_coin two_rounds [0, 1, 2] (\<lambda>s. decisions3 s = ([1], [1], [1]))"
  by code_simp

lemma decider_run: "ends3 (\<lambda>_. 1) decider_stops [0, 1, 2] (\<lambda>s. decisions3 s = ([1], [], []))"
  by code_simp

lemma waiting_run:
  "ends3 (\<lambda>_. 0) echo_waits [0, 1, 2] (\<lambda>s. decisions3 s = ([], [], []) \<and> decisions_at 0 s = ([1], [bot], [bot]) \<and> decisions_at 1 s = ([], [], []))"
  by code_simp

lemmas run3_defs = each3_def told_def steps_of_def voting_def binding_def asking_def split_round_def forward_def
  decider_stops_def echo_waits_def quiet_round_def two_rounds_def

lemma runs_within:
  "\<forall>e \<in> set two_rounds. touches e \<subseteq> set [0, 1, 2]" "\<forall>e \<in> set decider_stops. touches e \<subseteq> set [0, 1, 2]"
  "\<forall>e \<in> set echo_waits. touches e \<subseteq> set [0, 1, 2]"
  by (simp_all add: run3_defs)

lemma runs_inputs:
  "fold inputs3 two_rounds ({}, {}, {}) = ({1}, {1}, {1})" "fold inputs3 decider_stops ({}, {}, {}) = ({1}, {1}, {0})"
  "fold inputs3 echo_waits ({}, {}, {}) = ({1}, {1}, {0})"
  by (simp_all add: run3_defs numeral_eq_Suc)

lemma zero_first: "(0 :: uint16) \<in> set [0, 1, 2]"
  by simp

lemma net3_sel:
  "inputs (net3 s (a, b, d)) nA = a" "inputs (net3 s (a, b, d)) nB = b" "inputs (net3 s (a, b, d)) nC = d"
  "mnode (net3 s (a, b, d)) nA = pick NA s" "mnode (net3 s (a, b, d)) nB = pick NB s" "mnode (net3 s (a, b, d)) nC = pick NC s"
  by (simp_all add: net3_def by_name_def)

section \<open>Witnesses and stalled networks\<close>

theorem unanimous_decides_witness:
  "\<exists>N. aba_reach default_cfg second_coin N \<and> aba_settled default_cfg N \<and> second_coin 0 \<noteq> 1
     \<and> ch_sent (deliverDecision (mnode N nA)) = [1] \<and> ch_sent (deliverDecision (mnode N nB)) = [1]"
proof -
  obtain s where s: "aba_reach default_cfg second_coin (net3 s ({1}, {1}, {1}))" "aba_settled default_cfg (net3 s ({1}, {1}, {1}))"
    using ends3_net [OF two_rounds_run zero_first runs_within(1)] unfolding runs_inputs by blast
  have i: "inputs (net3 s ({1}, {1}, {1})) p = {1}" if "p \<in> correct default_cfg" for p using that by (auto simp: net3_sel)
  note d = unanimous_decides [OF default_cfg_ok default_int_sized s, of 1 1, OF _ i]
  show ?thesis using s d [of nA] d [of nB] by (intro exI [of _ "net3 s ({1}, {1}, {1})"]) (simp add: second_coin_def)
qed

theorem decisions_spread_witness:
  "\<exists>N v. aba_reach default_cfg second_coin N \<and> aba_settled default_cfg N \<and> card {nA, nB} > 1
     \<and> ch_sent (deliverDecision (mnode N nC)) = [v]"
proof -
  obtain s where s: "aba_reach default_cfg second_coin (net3 s ({1}, {1}, {1}))" "aba_settled default_cfg (net3 s ({1}, {1}, {1}))"
    "decisions3 s = ([1], [1], [1])"
    using ends3_net [OF two_rounds_run zero_first runs_within(1)] unfolding runs_inputs by blast
  obtain v where "\<forall>q \<in> correct default_cfg. ch_sent (deliverDecision (mnode (net3 s ({1}, {1}, {1})) q)) = [v]"
    using decisions_spread [OF default_cfg_ok default_int_sized s(1,2), of "{nA, nB}"] s(3) by (auto simp: net3_sel decisions3_def)
  then show ?thesis using s(1,2) by (intro exI [of _ "net3 s ({1}, {1}, {1})"] exI [of _ v]) simp
qed

text \<open>
  C39. A node that decides leaves the others behind.  Among four nodes, one of them Byzantine, and with
  the coin always 1, there is a network in which every correct node has proposed, everything the
  correct nodes sent has arrived and none of their goroutines can move: one correct node has handed
  over its decision, and the two others never will.  The decided node does not propose in the next
  round, whose quorum needs it, and its decision alone is not announced often enough.
\<close>

theorem decider_leaves_others:
  "\<exists>N. aba_reach default_cfg (\<lambda>_. 1) N \<and> aba_settled default_cfg N
     \<and> inputs N nA = {1} \<and> inputs N nB = {1} \<and> inputs N nC = {0}
     \<and> ch_sent (deliverDecision (mnode N nA)) = [1] \<and> ch_sent (deliverDecision (mnode N nB)) = []
     \<and> ch_sent (deliverDecision (mnode N nC)) = []"
proof -
  obtain s where "aba_reach default_cfg (\<lambda>_. 1) (net3 s ({1}, {1}, {0}))" "aba_settled default_cfg (net3 s ({1}, {1}, {0}))"
    "decisions3 s = ([1], [], [])"
    using ends3_net [OF decider_run zero_first runs_within(2)] unfolding runs_inputs by blast
  then show ?thesis by (intro exI [of _ "net3 s ({1}, {1}, {0})"]) (simp add: net3_sel decisions3_def)
qed

text \<open>
  C40. A later round need not end either.  With the coin always 0 there is such a settled network in which
  no correct node has decided, although every one has proposed: in the first round one node decided
  1 and the others bot; in the second round that node echoes 1 and waits, the others fast-forward the
  coin to their votes and binds without an echo, and no agreement of the second round decides.
\<close>

theorem later_round_can_stall:
  "\<exists>N. aba_reach default_cfg (\<lambda>_. 0) N \<and> aba_settled default_cfg N
     \<and> inputs N nA = {1} \<and> inputs N nB = {1} \<and> inputs N nC = {0}
     \<and> round_decided N nA 0 = {1} \<and> round_decided N nB 0 = {bot} \<and> round_decided N nC 0 = {bot}
     \<and> round_decided N nA 1 = {} \<and> round_decided N nB 1 = {} \<and> round_decided N nC 1 = {}
     \<and> ch_sent (deliverDecision (mnode N nA)) = [] \<and> ch_sent (deliverDecision (mnode N nB)) = []
     \<and> ch_sent (deliverDecision (mnode N nC)) = []"
proof -
  obtain s where "aba_reach default_cfg (\<lambda>_. 0) (net3 s ({1}, {1}, {0}))" "aba_settled default_cfg (net3 s ({1}, {1}, {0}))"
    "decisions3 s = ([], [], [])" "decisions_at 0 s = ([1], [bot], [bot])" "decisions_at 1 s = ([], [], [])"
    using ends3_net [OF waiting_run zero_first runs_within(3)] unfolding runs_inputs by blast
  then show ?thesis
    by (intro exI [of _ "net3 s ({1}, {1}, {0})"])
      (simp add: net3_sel decisions3_def decisions_at_def round_decided_def bca_decided_chan)
qed

end
