(* ===== verification/BCA_PrevCoin.thy ===== *)
theory BCA_PrevCoin
  imports MMR_Stall
begin

text \<open>
  The goroutine \<^verbatim>\<open>waitForPrevCoin\<close> of \<^verbatim>\<open>externalValidityBCA.go\<close>, which \<^verbatim>\<open>newEVBCA\<close> does not start.  It lets a node whose
  estimate differs from the coin of the round before approve that coin once it is externally valid.
  Had the stalled network of \<open>later_round_can_stall\<close> run it at one node, its round would have ended.
\<close>

section \<open>The goroutine\<close>

datatype prev_pc = PStart | PLoop byte byte | PApprove byte | PDone

definition prev_next :: "byte \<Rightarrow> byte \<Rightarrow> prev_pc" where
  "prev_next kk externalValid = (if kk = externalValid then PApprove externalValid else PLoop kk externalValid)"

text \<open>One step; \<open>unblock\<close> tells which ready case its \<^verbatim>\<open>select\<close> takes.\<close>

definition ev_waitForPrevCoin :: "bool \<Rightarrow> prev_pc \<times> evbca \<Rightarrow> (prev_pc \<times> evbca) option" where
  "ev_waitForPrevCoin unblock = (\<lambda>(pc, e).
     case pc of
       PStart \<Rightarrow> map_option (\<lambda>(kk, ch). (prev_next kk bot, e\<lparr>prevCoinChan := ch\<rparr>)) (chan_recv (prevCoinChan e))
     | PLoop kk externalValid \<Rightarrow>
         if unblock then map_option (\<lambda>(_, ch). (PLoop kk externalValid, e\<lparr>unblockChan := ch\<rparr>)) (chan_recv (unblockChan e))
         else map_option (\<lambda>(v, ch). (prev_next kk v, e\<lparr>inputExternalValidChan := ch\<rparr>)) (chan_recv (inputExternalValidChan e))
     | PApprove v \<Rightarrow> map_option (\<lambda>ch. (PDone, e\<lparr>approveValChan := ch\<rparr>)) (chan_send v (approveValChan e))
     | PDone \<Rightarrow> None)"

fun prev_run :: "bool list \<Rightarrow> prev_pc \<times> evbca \<Rightarrow> (prev_pc \<times> evbca) option" where
  "prev_run [] s = Some s"
| "prev_run (b # bs) s = Option.bind (ev_waitForPrevCoin b s) (prev_run bs)"

text \<open>It approves the coin as soon as the coin is among the externally valid values that have come in.\<close>

lemma prev_loop_approves:
  assumes "kk \<in> set (drop (ch_taken (inputExternalValidChan e)) (ch_sent (inputExternalValidChan e)))" and "kk \<noteq> v"
    and "approveValChan e = ch" and room: "chan_send kk ch = Some ch'"
  shows "\<exists>n k. prev_run (replicate n False) (PLoop kk v, e)
    = Some (PDone, e\<lparr>inputExternalValidChan := (inputExternalValidChan e)\<lparr>ch_taken := k\<rparr>, approveValChan := ch'\<rparr>)"
  using assms(1-3)
proof (induction "length (ch_sent (inputExternalValidChan e)) - ch_taken (inputExternalValidChan e)" arbitrary: e v)
  case 0
  then show ?case by simp
next
  case (Suc n)
  let ?in = "inputExternalValidChan e"
  let ?w = "ch_sent ?in ! ch_taken ?in" and ?e = "e\<lparr>inputExternalValidChan := (inputExternalValidChan e)\<lparr>ch_taken := Suc (ch_taken (inputExternalValidChan e))\<rparr>\<rparr>"
  have lt: "ch_taken ?in < length (ch_sent ?in)" using Suc.hyps(2) by simp
  have first: "ev_waitForPrevCoin False (PLoop kk v, e) = Some (prev_next kk ?w, ?e)"
    using lt by (simp add: ev_waitForPrevCoin_def chan_recv_def)
  show ?case
  proof (cases "kk = ?w")
    case True
    have "ev_waitForPrevCoin False (PApprove kk, ?e) = Some (PDone, ?e\<lparr>approveValChan := ch'\<rparr>)"
      using room Suc.prems(3) by (simp add: ev_waitForPrevCoin_def)
    moreover have "prev_next kk ?w = PApprove kk" using True by (simp add: prev_next_def)
    ultimately have "prev_run (replicate 2 False) (PLoop kk v, e) = Some (PDone, ?e\<lparr>approveValChan := ch'\<rparr>)"
      using first by (simp add: numeral_2_eq_2)
    then show ?thesis by (intro exI [of _ 2] exI [of _ "Suc (ch_taken ?in)"]) simp
  next
    case False
    have "kk \<in> set (drop (Suc (ch_taken ?in)) (ch_sent ?in))"
      using Suc.prems(1) False lt by (simp add: Cons_nth_drop_Suc [symmetric])
    then have "\<exists>n k. prev_run (replicate n False) (PLoop kk ?w, ?e)
      = Some (PDone, ?e\<lparr>inputExternalValidChan := (inputExternalValidChan ?e)\<lparr>ch_taken := k\<rparr>, approveValChan := ch'\<rparr>)"
      using Suc.hyps(2) Suc.prems(3) False by (intro Suc.hyps(1)) simp_all
    then obtain j k where "prev_run (replicate j False) (PLoop kk ?w, ?e)
      = Some (PDone, ?e\<lparr>inputExternalValidChan := (inputExternalValidChan ?e)\<lparr>ch_taken := k\<rparr>, approveValChan := ch'\<rparr>)" by blast
    then show ?thesis using first False by (intro exI [of _ "Suc j"] exI [of _ k]) (simp add: prev_next_def)
  qed
qed

section \<open>The stalled round, had it been started\<close>

text \<open>Node A runs the goroutine in round 1 until it ends.\<close>

definition start_prev :: "mmr triple \<Rightarrow> mmr triple option" where
  "start_prev s =
     (case rounds (pick NA s) 1 of
        None \<Rightarrow> None
      | Some rd \<Rightarrow>
          (case round_bca rd of
             IV _ \<Rightarrow> None
           | EV e \<Rightarrow>
               (case prev_run [False, False, False] (PStart, e) of
                  Some (PDone, e') \<Rightarrow>
                    Some (put3 NA ((pick NA s)\<lparr>rounds := (rounds (pick NA s))(1 \<mapsto> rd\<lparr>round_bca := EV e'\<rparr>)\<rparr>) s)
                | _ \<Rightarrow> None)))"

definition after_start :: "event3 list" where
  "after_start = steps_of NA (LThread TVote False 1 # voting 1) @ told [NA, NB, NC] (\<lambda>w x. DoVote w 0 x 1) [NA]
     @ steps_of NA (binding False 1) @ told [NA, NB, NC] (\<lambda>w x. DoBind w 0 x 1) [NA]
     @ concat (each3 (\<lambda>w. steps_of w (replicate 3 (LThread TDecide False 1) @ asking 1))) @ each3 (\<lambda>w. DoCoin w 1)
     @ concat (each3 (\<lambda>w. steps_of w [LReach True, LReach True]))"

text \<open>
  From the stalled state of \<open>waiting_run\<close>: the goroutine ends, and then the three correct nodes go on to
  decide the coin without any further message of the Byzantine node.
\<close>

theorem started_round_decides:
  "map_option decisions3 (Option.bind (Option.bind (exec3 (\<lambda>_. 0) echo_waits start3) start_prev) (exec3 (\<lambda>_. 0) after_start))
    = Some ([0], [0], [0])"
  by code_simp

end
