(* ===== verification/Scheduler_Queue.thy ===== *)
theory Scheduler_Queue
  imports Prelude "HOL-Library.Multiset"
begin

text \<open>
  The queue of operations in the schedulers that the tests use, \<^verbatim>\<open>schedulers.go\<close> and \<^verbatim>\<open>mmrScheduller.go\<close>.
  A loop either receives an operation, appends it and shuffles the queue, or takes the first
  operation on a tick of the clock.  \<^verbatim>\<open>rand.Shuffle\<close> exchanges the elements at \<open>i\<close> and at a random
  position up to \<open>i\<close>, for \<open>i\<close> from the last position down to \<open>1\<close>; the random positions are an argument.
  The locale \<open>op_queue\<close> states what the tests need of the queue: no operation is lost or repeated, and
  enough ticks start all of them.
\<close>

definition swap :: "nat \<Rightarrow> nat \<Rightarrow> 'a list \<Rightarrow> 'a list" where
  "swap i j xs = xs[i := xs ! j, j := xs ! i]"

fun shuffle :: "(nat \<Rightarrow> nat) \<Rightarrow> nat \<Rightarrow> 'a list \<Rightarrow> 'a list" where
  "shuffle draw 0 xs = xs"
| "shuffle draw (Suc i) xs = shuffle draw i (swap (Suc i) (draw (Suc i) mod Suc (Suc i)) xs)"

lemma length_swap [simp]: "length (swap i j xs) = length xs"
  by (simp add: swap_def)

lemma mset_swap_elems: "i < length xs \<Longrightarrow> j < length xs \<Longrightarrow> mset (swap i j xs) = mset xs"
  using mset_swap [of j xs i] by (simp add: swap_def)

lemma mset_shuffle: "i < length xs \<or> xs = [] \<and> i = 0 \<Longrightarrow> mset (shuffle draw i xs) = mset xs"
proof (induction i arbitrary: xs)
  case (Suc i)
  have j: "draw (Suc i) mod Suc (Suc i) < Suc (Suc i)" by simp
  with Suc.prems have "draw (Suc i) mod Suc (Suc i) < length xs" by linarith
  then show ?case using Suc.prems Suc.IH by (auto simp: mset_swap_elems)
qed simp

section \<open>The loop of a scheduler\<close>

datatype 'op turn = Scheduled "nat \<Rightarrow> nat" 'op | Tick

fun scheduled :: "'op turn list \<Rightarrow> 'op list" where
  "scheduled [] = []"
| "scheduled (Scheduled draw x # ts) = x # scheduled ts"
| "scheduled (Tick # ts) = scheduled ts"

text \<open>The queue the loop is left with and the operations it started, in order.\<close>

fun sched_loop ::
  "((nat \<Rightarrow> nat) \<Rightarrow> 'op \<Rightarrow> 'op list \<Rightarrow> 'op list) \<Rightarrow> ('op list \<Rightarrow> ('op \<times> 'op list) option) \<Rightarrow> 'op turn list \<Rightarrow> 'op list
    \<Rightarrow> 'op list \<times> 'op list"
where
  "sched_loop put pop [] q = (q, [])"
| "sched_loop put pop (Scheduled draw x # ts) q = sched_loop put pop ts (put draw x q)"
| "sched_loop put pop (Tick # ts) q =
     (case pop q of
        None \<Rightarrow> sched_loop put pop ts q
      | Some (x, q') \<Rightarrow> (case sched_loop put pop ts q' of (r, xs) \<Rightarrow> (r, x # xs)))"

locale op_queue =
  fixes put :: "(nat \<Rightarrow> nat) \<Rightarrow> 'op \<Rightarrow> 'op list \<Rightarrow> 'op list"
    and pop :: "'op list \<Rightarrow> ('op \<times> 'op list) option"
  assumes put_content: "mset (put draw x q) = add_mset x (mset q)"
    and pop_content: "pop q = Some (x, q') \<Longrightarrow> mset q = add_mset x (mset q')"
    and pop_empty: "pop q = None \<longleftrightarrow> q = []"
begin

lemma set_put: "set (put draw x q) = insert x (set q)"
  using arg_cong [OF put_content, of set_mset] by simp

lemma set_pop: "pop q = Some (x, q') \<Longrightarrow> set q = insert x (set q')"
  using arg_cong [OF pop_content, of q x q' set_mset] by simp

lemma conserved: "sched_loop put pop ts q = (r, xs) \<Longrightarrow> mset r + mset xs = mset q + mset (scheduled ts)"
proof (induction ts arbitrary: q r xs)
  case (Cons t ts)
  show ?case
  proof (cases t)
    case (Scheduled draw x)
    then show ?thesis using Cons.IH [of "put draw x q"] Cons.prems put_content [of draw x q] by simp
  next
    case Tick
    then show ?thesis using Cons.IH Cons.prems pop_content by (auto split: option.splits prod.splits)
  qed
qed simp

lemma drained: "\<exists>xs. sched_loop put pop (replicate (length q) Tick) q = ([], xs) \<and> mset xs = mset q"
proof (induction "length q" arbitrary: q)
  case (Suc n)
  then obtain x q' where p: "pop q = Some (x, q')" using pop_empty [of q] by (cases "pop q") auto
  then have "length q' = n" using Suc.hyps(2) mset_eq_length [of q "x # q'"] pop_content [OF p] by simp
  then obtain xs where "sched_loop put pop (replicate n Tick) q' = ([], xs)" "mset xs = mset q'" using Suc.hyps(1) by blast
  then show ?case using p pop_content [OF p] by (simp add: Suc.hyps(2) [symmetric])
qed simp

end

end
