(* ===== verification/BRB_Schedulers.thy ===== *)
theory BRB_Schedulers
  imports BRB_Protocol Scheduler_Queue
begin

text \<open>
  The schedulers that drive instances of reliable broadcast in the tests,
  \<^verbatim>\<open>byzantineReliableBroadcast/schedulers.go\<close>.  \<^verbatim>\<open>getChannels\<close> starts two goroutines per instance; each
  takes one message from its channel and hands it to the instances in order.  The ordered scheduler
  calls the instance at once; the unordered one puts the call in a queue that is shuffled, and runs it
  in a goroutine of its own.  Every interleaving is a sequence of steps.  The theorems show that the
  instances a scheduler drives are a reachable network of \<open>BRB_Protocol\<close>, whatever is drawn, and that the
  assertions inside the schedulers hold.
\<close>

section \<open>State\<close>

datatype op_kind = KSend | KEcho | KReady

text \<open>A call of the instance at a position; the closures sent to \<^verbatim>\<open>scheduleChan\<close> are such calls.\<close>

record brb_op =
  op_kind :: op_kind
  op_inst :: nat
  op_msg :: bytes
  op_sender :: uuid

fun inst_call :: "op_kind \<Rightarrow> bytes \<Rightarrow> uuid \<Rightarrow> brbHandler \<Rightarrow> brbHandler \<times> brb_error outcome" where
  "inst_call KSend = handleSend"
| "inst_call KEcho = handleEcho"
| "inst_call KReady = handleReady"

text \<open>
  A goroutine that hands out a message: it waits for one on the channel of the instance \<open>fan_of\<close>, then
  loops over the \<open>l\<close> instances there are, the next one being \<open>k\<close> in \<open>FanLoop msg k l\<close>.
\<close>

datatype fan_pc = FanWait | FanLoop bytes nat nat

record fan =
  fan_kind :: op_kind
  fan_of :: nat
  fan_sender :: uuid
  fan_pc :: fan_pc

text \<open>\<open>sched_ids\<close> are the identifiers given to \<^verbatim>\<open>getChannels\<close>, \<open>asserted\<close> the calls whose result was checked.\<close>

record orderedScheduler =
  sched_instances :: "brbHandler list"
  sched_ids :: "uuid list"
  fans :: "fan list"
  asserted :: "(brb_op \<times> brb_error outcome) list"

record unorderedScheduler = orderedScheduler +
  ops :: "brb_op list"
  started :: "brb_op list"
  ticking :: bool

definition newOrderedScheduler :: orderedScheduler where
  "newOrderedScheduler = \<lparr>sched_instances = [], sched_ids = [], fans = [], asserted = []\<rparr>"

definition newUnorderedScheduler :: unorderedScheduler where
  "newUnorderedScheduler = \<lparr>sched_instances = [], sched_ids = [], fans = [], asserted = [],
     ops = [], started = [], ticking = True\<rparr>"

section \<open>Operations of both schedulers\<close>

definition getChannels :: "uuid \<Rightarrow> 'a orderedScheduler_scheme \<Rightarrow> 'a orderedScheduler_scheme" where
  "getChannels sender s = s\<lparr>sched_ids := sched_ids s @ [sender],
     fans := fans s @ [\<lparr>fan_kind = KEcho, fan_of = length (sched_ids s), fan_sender = sender, fan_pc = FanWait\<rparr>,
                       \<lparr>fan_kind = KReady, fan_of = length (sched_ids s), fan_sender = sender, fan_pc = FanWait\<rparr>]\<rparr>"

definition addInstance :: "brbHandler \<Rightarrow> 'a orderedScheduler_scheme \<Rightarrow> 'a orderedScheduler_scheme" where
  "addInstance h s = s\<lparr>sched_instances := sched_instances s @ [h]\<rparr>"

definition instantiateCorrect :: "uint \<Rightarrow> uint \<Rightarrow> uuid list \<Rightarrow> 'a orderedScheduler_scheme \<Rightarrow> 'a orderedScheduler_scheme" where
  "instantiateCorrect n f xs s = foldl (\<lambda>s x. addInstance (newBrbHandler n f) (getChannels x s)) s xs"

definition sendAll :: "bytes \<Rightarrow> uuid \<Rightarrow> 'a orderedScheduler_scheme \<Rightarrow> 'a orderedScheduler_scheme" where
  "sendAll msg sender s = s\<lparr>fans := fans s @
     [\<lparr>fan_kind = KSend, fan_of = 0, fan_sender = sender, fan_pc = FanLoop msg 0 (length (sched_instances s))\<rparr>]\<rparr>"

fun fan_channel :: "op_kind \<Rightarrow> brbHandler \<Rightarrow> bytes list" where
  "fan_channel KSend h = []"
| "fan_channel KEcho h = echoChan h"
| "fan_channel KReady h = readyChan h"

definition fan_take :: "nat \<Rightarrow> bytes \<Rightarrow> 'a orderedScheduler_scheme \<Rightarrow> 'a orderedScheduler_scheme option" where
  "fan_take j msg s =
     (if j < length (fans s) \<and> fan_pc (fans s ! j) = FanWait \<and> fan_of (fans s ! j) < length (sched_instances s)
         \<and> msg \<in> set (fan_channel (fan_kind (fans s ! j)) (sched_instances s ! fan_of (fans s ! j)))
      then Some (s\<lparr>fans := (fans s)[j := (fans s ! j)\<lparr>fan_pc := FanLoop msg 0 (length (sched_instances s))\<rparr>]\<rparr>)
      else None)"

text \<open>One turn of the loop of goroutine \<open>j\<close>; \<open>deliver\<close> is what its body does with the call.\<close>

definition fan_next ::
  "(brb_op \<Rightarrow> 'a orderedScheduler_scheme \<Rightarrow> 'a orderedScheduler_scheme) \<Rightarrow> nat \<Rightarrow> 'a orderedScheduler_scheme
    \<Rightarrow> 'a orderedScheduler_scheme option"
where
  "fan_next deliver j s =
     (if j < length (fans s)
      then (case fan_pc (fans s ! j) of
              FanLoop msg k l \<Rightarrow>
                (if k < l
                 then Some (deliver \<lparr>op_kind = fan_kind (fans s ! j), op_inst = k, op_msg = msg, op_sender = fan_sender (fans s ! j)\<rparr>
                        (s\<lparr>fans := (fans s)[j := (fans s ! j)\<lparr>fan_pc := FanLoop msg (Suc k) l\<rparr>]\<rparr>))
                 else None)
            | FanWait \<Rightarrow> None)
      else None)"

definition direct_call :: "op_kind \<Rightarrow> nat \<Rightarrow> bytes \<Rightarrow> uuid \<Rightarrow> 'a orderedScheduler_scheme \<Rightarrow> 'a orderedScheduler_scheme" where
  "direct_call kind i msg sender s =
     s\<lparr>sched_instances := (sched_instances s)[i := fst (inst_call kind msg sender (sched_instances s ! i))]\<rparr>"

text \<open>\<^verbatim>\<open>assert.NoError\<close> of a call: it is made and its result checked.\<close>

definition run_op :: "brb_op \<Rightarrow> 'a orderedScheduler_scheme \<Rightarrow> 'a orderedScheduler_scheme" where
  "run_op x s = (direct_call (op_kind x) (op_inst x) (op_msg x) (op_sender x) s)
     \<lparr>asserted := asserted s @ [(x, snd (inst_call (op_kind x) (op_msg x) (op_sender x) (sched_instances s ! op_inst x)))]\<rparr>"

section \<open>Operations of the unordered scheduler\<close>

definition reorderOps :: "(nat \<Rightarrow> nat) \<Rightarrow> 'op \<Rightarrow> 'op list \<Rightarrow> 'op list" where
  "reorderOps draw x q = (let q' = q @ [x] in shuffle draw (length q' - 1) q')"

definition execOp :: "'op list \<Rightarrow> ('op \<times> 'op list) option" where
  "execOp q = (if length q > 0 then Some (q ! 0, drop 1 q) else None)"

definition u_schedule :: "(nat \<Rightarrow> nat) \<Rightarrow> brb_op \<Rightarrow> unorderedScheduler \<Rightarrow> unorderedScheduler" where
  "u_schedule draw x s = s\<lparr>ops := reorderOps draw x (ops s)\<rparr>"

definition u_tick :: "unorderedScheduler \<Rightarrow> unorderedScheduler option" where
  "u_tick s =
     (if ticking s then map_option (\<lambda>(x, q). s\<lparr>ops := q, started := started s @ [x]\<rparr>) (execOp (ops s)) else None)"

definition u_run :: "nat \<Rightarrow> unorderedScheduler \<Rightarrow> unorderedScheduler option" where
  "u_run j s =
     (if j < length (started s)
      then Some (run_op (started s ! j) (s\<lparr>started := take j (started s) @ drop (Suc j) (started s)\<rparr>)) else None)"

definition stop :: "unorderedScheduler \<Rightarrow> unorderedScheduler" where
  "stop s = s\<lparr>ticking := False\<rparr>"

interpretation brbq: op_queue reorderOps execOp
proof
  show "mset (reorderOps draw x q) = add_mset x (mset q)" for draw and x :: 'a and q
    by (simp add: reorderOps_def mset_shuffle)
  show "execOp q = Some (x, q') \<Longrightarrow> mset q = add_mset x (mset q')" for q q' and x :: 'a
    by (cases q) (auto simp: execOp_def)
  show "execOp q = None \<longleftrightarrow> q = []" for q :: "'a list" by (simp add: execOp_def)
qed

section \<open>Runs\<close>

text \<open>
  What the test and the waiting goroutines do under either scheduler: create correct instances with new
  identifiers, send to all, call instances as a Byzantine node, and take messages.
\<close>

inductive env_step :: "net_cfg \<Rightarrow> 'a orderedScheduler_scheme \<Rightarrow> 'a orderedScheduler_scheme \<Rightarrow> bool" for c where
  create: "\<lbrakk>x \<in> correct c; x \<notin> set (sched_ids s)\<rbrakk> \<Longrightarrow> env_step c s (instantiateCorrect (cfg_n c) (cfg_f c) [x] s)"
| sendAll: "x \<in> procs c \<Longrightarrow> env_step c s (sendAll msg x s)"
| byzantine: "\<lbrakk>x \<in> procs c - correct c; i < length (sched_instances s)\<rbrakk> \<Longrightarrow> env_step c s (direct_call kind i msg x s)"
| take: "fan_take j msg s = Some s' \<Longrightarrow> env_step c s s'"

inductive o_reach :: "net_cfg \<Rightarrow> orderedScheduler \<Rightarrow> bool" for c where
  init: "o_reach c newOrderedScheduler"
| env: "\<lbrakk>o_reach c s; env_step c s s'\<rbrakk> \<Longrightarrow> o_reach c s'"
| fan: "\<lbrakk>o_reach c s; fan_next run_op j s = Some s'\<rbrakk> \<Longrightarrow> o_reach c s'"

inductive u_reach :: "net_cfg \<Rightarrow> unorderedScheduler \<Rightarrow> bool" for c where
  init: "u_reach c newUnorderedScheduler"
| env: "\<lbrakk>u_reach c s; env_step c s s'\<rbrakk> \<Longrightarrow> u_reach c s'"
| fan: "\<lbrakk>u_reach c s; fan_next (u_schedule draw) j s = Some s'\<rbrakk> \<Longrightarrow> u_reach c s'"
| tick: "\<lbrakk>u_reach c s; u_tick s = Some s'\<rbrakk> \<Longrightarrow> u_reach c s'"
| run: "\<lbrakk>u_reach c s; u_run j s = Some s'\<rbrakk> \<Longrightarrow> u_reach c s'"
| stop: "u_reach c s \<Longrightarrow> u_reach c (stop s)"

section \<open>The instances form a network\<close>

fun op_sent :: "net_cfg \<Rightarrow> brb_net \<Rightarrow> op_kind \<Rightarrow> uuid \<Rightarrow> bytes \<Rightarrow> bool" where
  "op_sent c T KSend x m = (x \<in> procs c \<and> (x \<in> correct c \<longrightarrow> (x, m) \<in> bcast T))"
| "op_sent c T KEcho x m = (x \<in> procs c \<and> (x \<in> correct c \<longrightarrow> m \<in> set (echoChan (node T x))))"
| "op_sent c T KReady x m = (x \<in> procs c \<and> (x \<in> correct c \<longrightarrow> m \<in> set (readyChan (node T x))))"

definition fan_ok :: "net_cfg \<Rightarrow> brb_net \<Rightarrow> uuid list \<Rightarrow> fan \<Rightarrow> bool" where
  "fan_ok c T xs fn \<longleftrightarrow>
     (fan_kind fn \<noteq> KSend \<longrightarrow> fan_of fn < length xs \<and> fan_sender fn = xs ! fan_of fn)
     \<and> (case fan_pc fn of FanWait \<Rightarrow> True
        | FanLoop m k l \<Rightarrow> l \<le> length xs \<and> op_sent c T (fan_kind fn) (fan_sender fn) m)"

definition op_ok :: "net_cfg \<Rightarrow> brb_net \<Rightarrow> uuid list \<Rightarrow> brb_op \<Rightarrow> bool" where
  "op_ok c T xs x \<longleftrightarrow> op_inst x < length xs \<and> op_sent c T (op_kind x) (op_sender x) (op_msg x)"

text \<open>The scheduler drives the network \<open>T\<close>: each instance is the node with its identifier.\<close>

definition drives :: "net_cfg \<Rightarrow> brb_net \<Rightarrow> 'a orderedScheduler_scheme \<Rightarrow> bool" where
  "drives c T s \<longleftrightarrow> distinct (sched_ids s) \<and> set (sched_ids s) \<subseteq> correct c
     \<and> sched_instances s = map (node T) (sched_ids s)
     \<and> (\<forall>p \<in> correct c - set (sched_ids s). node T p = newBrbHandler (cfg_n c) (cfg_f c))"

definition sched_ok :: "net_cfg \<Rightarrow> brb_op list \<Rightarrow> 'a orderedScheduler_scheme \<Rightarrow> bool" where
  "sched_ok c pend s \<longleftrightarrow> (\<exists>T. brb_reach c T \<and> drives c T s \<and> (\<forall>fn \<in> set (fans s). fan_ok c T (sched_ids s) fn)
     \<and> (\<forall>x \<in> set pend. op_ok c T (sched_ids s) x))"

lemma op_sent_mono:
  assumes "brb_step c T T'" and "op_sent c T k x m"
  shows "op_sent c T' k x m"
  using assms(2) subsetD [OF step_extends(1) [OF assms(1)]] subsetD [OF step_extends(2) [OF assms(1)]]
    subsetD [OF step_extends(3) [OF assms(1)]]
  by (cases k) auto

lemma fan_ok_mono: "brb_step c T T' \<Longrightarrow> fan_ok c T xs fn \<Longrightarrow> fan_ok c T' xs fn"
  using op_sent_mono by (auto simp: fan_ok_def split: fan_pc.splits)

lemma op_ok_mono: "brb_step c T T' \<Longrightarrow> op_ok c T xs x \<Longrightarrow> op_ok c T' xs x"
  using op_sent_mono by (auto simp: op_ok_def)

lemma fan_ok_more: "fan_ok c T xs fn \<Longrightarrow> fan_ok c T (xs @ ys) fn"
  by (auto simp: fan_ok_def nth_append split: fan_pc.splits)

lemma op_ok_more: "op_ok c T xs x \<Longrightarrow> op_ok c T (xs @ ys) x"
  by (auto simp: op_ok_def)

text \<open>A call the scheduler makes is a delivery of the network.\<close>

lemma call_delivers:
  assumes "drives c T s" and "i < length (sched_ids s)" and "op_sent c T k x m"
  obtains T' where "brb_step c T T'" and "drives c T' (direct_call k i m x s)"
proof -
  let ?p = "sched_ids s ! i"
  have p: "?p \<in> correct c" using assms(1,2) by (auto simp: drives_def)
  obtain T' where T': "brb_step c T T'" "node T' = (node T)(?p := fst (inst_call k m x (node T ?p)))"
  proof (cases k)
    case KSend
    then show ?thesis using that [of "recvSend ?p m x T"] brb_step.send [OF p, of x m T] assms(3) by (simp add: recvSend_def)
  next
    case KEcho
    then show ?thesis using that [of "recvEcho ?p m x T"] brb_step.echo [OF p, of x m T] assms(3) by (simp add: recvEcho_def)
  next
    case KReady
    then show ?thesis using that [of "recvReady ?p m x T"] brb_step.ready [OF p, of x m T] assms(3) by (simp add: recvReady_def)
  qed
  have "map (node T') (sched_ids s) = (map (node T) (sched_ids s))[i := fst (inst_call k m x (node T ?p))]"
    using assms(1,2) by (intro nth_equalityI) (auto simp: T'(2) drives_def nth_list_update nth_eq_iff_index_eq)
  then have "drives c T' (direct_call k i m x s)"
    using assms(1,2) p by (auto simp: drives_def direct_call_def T'(2))
  then show ?thesis using that T'(1) by blast
qed

lemma run_ok:
  assumes "sched_ok c (x # pend) s"
  shows "sched_ok c pend (direct_call (op_kind x) (op_inst x) (op_msg x) (op_sender x) s)"
proof -
  obtain T where T: "brb_reach c T" "drives c T s" "\<forall>fn \<in> set (fans s). fan_ok c T (sched_ids s) fn"
    "\<forall>y \<in> set pend. op_ok c T (sched_ids s) y" "op_ok c T (sched_ids s) x"
    using assms by (auto simp: sched_ok_def)
  have "op_inst x < length (sched_ids s)" "op_sent c T (op_kind x) (op_sender x) (op_msg x)" using T(5) by (simp_all add: op_ok_def)
  then obtain T' where "brb_step c T T'" "drives c T' (direct_call (op_kind x) (op_inst x) (op_msg x) (op_sender x) s)"
    by (rule call_delivers [OF T(2)])
  then show ?thesis using brb_reach.step [OF T(1)] T(3,4) fan_ok_mono op_ok_mono
    unfolding sched_ok_def by (auto simp: direct_call_def intro!: exI [of _ T'])
qed

lemma sched_ok_subset: "sched_ok c pend s \<Longrightarrow> set pend' \<subseteq> set pend \<Longrightarrow> sched_ok c pend' s"
  unfolding sched_ok_def by blast

lemma sched_ok_frame:
  fixes s :: "'a orderedScheduler_scheme" and s' :: "'b orderedScheduler_scheme"
  assumes "sched_ok c pend s" and "sched_instances s' = sched_instances s" "sched_ids s' = sched_ids s" "fans s' = fans s"
  shows "sched_ok c pend s'"
  using assms by (simp add: sched_ok_def drives_def)

lemma sched_create_ok:
  assumes "sched_ok c pend s" and "x \<in> correct c" and "x \<notin> set (sched_ids s)"
  shows "sched_ok c pend (instantiateCorrect (cfg_n c) (cfg_f c) [x] s)"
proof -
  obtain T where T: "brb_reach c T" "drives c T s" "\<forall>fn \<in> set (fans s). fan_ok c T (sched_ids s) fn"
    "\<forall>y \<in> set pend. op_ok c T (sched_ids s) y"
    using assms(1) by (auto simp: sched_ok_def)
  then show ?thesis using assms(2,3) fan_ok_more [of c T "sched_ids s"] op_ok_more [of c T "sched_ids s"]
    unfolding sched_ok_def
    by (intro exI [of _ T]) (auto simp: instantiateCorrect_def addInstance_def getChannels_def drives_def, auto simp: fan_ok_def)
qed

lemma sendAll_ok:
  assumes "sched_ok c pend s" and "x \<in> procs c"
  shows "sched_ok c pend (sendAll msg x s)"
proof -
  obtain T where T: "brb_reach c T" "drives c T s" "\<forall>fn \<in> set (fans s). fan_ok c T (sched_ids s) fn"
    "\<forall>y \<in> set pend. op_ok c T (sched_ids s) y"
    using assms(1) by (auto simp: sched_ok_def)
  have len: "length (sched_instances s) = length (sched_ids s)" using T(2) by (simp add: drives_def)
  have dr: "drives c (T\<lparr>bcast := b\<rparr>) (sendAll msg x s) = drives c T s" for b by (simp add: drives_def sendAll_def)
  show ?thesis
  proof (cases "x \<in> correct c")
    case True
    let ?T = "T\<lparr>bcast := insert (x, msg) (bcast T)\<rparr>"
    have st: "brb_step c T ?T" by (rule brb_step.broadcast [OF True])
    then have "\<forall>fn \<in> set (fans s). fan_ok c ?T (sched_ids s) fn" "\<forall>y \<in> set pend. op_ok c ?T (sched_ids s) y"
      using T(3,4) fan_ok_mono op_ok_mono by blast+
    then show ?thesis using brb_reach.step [OF T(1) st] T(2) assms(2) len dr unfolding sched_ok_def
      by (intro exI [of _ ?T]) (auto simp: sendAll_def, auto simp: fan_ok_def)
  next
    case False
    then show ?thesis using T assms(2) len dr [of "bcast T"] unfolding sched_ok_def
      by (intro exI [of _ T]) (auto simp: sendAll_def, auto simp: fan_ok_def)
  qed
qed

lemma fan_take_ok:
  assumes "sched_ok c pend s" and "fan_take j msg s = Some s'" and "correct c \<subseteq> procs c"
  shows "sched_ok c pend s'"
proof -
  let ?fn = "fans s ! j"
  have j: "j < length (fans s)" "fan_of ?fn < length (sched_instances s)"
    "msg \<in> set (fan_channel (fan_kind ?fn) (sched_instances s ! fan_of ?fn))"
    and s': "s' = s\<lparr>fans := (fans s)[j := ?fn\<lparr>fan_pc := FanLoop msg 0 (length (sched_instances s))\<rparr>]\<rparr>"
    using assms(2) by (auto simp: fan_take_def split: if_splits)
  obtain T where T: "brb_reach c T" "drives c T s" "\<forall>fn \<in> set (fans s). fan_ok c T (sched_ids s) fn"
    "\<forall>y \<in> set pend. op_ok c T (sched_ids s) y"
    using assms(1) by (auto simp: sched_ok_def)
  have inst: "sched_instances s ! fan_of ?fn = node T (sched_ids s ! fan_of ?fn)" "length (sched_instances s) = length (sched_ids s)"
    using T(2) j(2) by (auto simp: drives_def)
  have "fan_ok c T (sched_ids s) ?fn" using T(3) j(1) by simp
  moreover have "set (sched_ids s) \<subseteq> procs c" using T(2) assms(3) by (auto simp: drives_def)
  ultimately have "op_sent c T (fan_kind ?fn) (fan_sender ?fn) msg"
    using j(2,3) inst by (cases "fan_kind ?fn") (auto simp: fan_ok_def subset_iff)
  then have "fan_ok c T (sched_ids s) (?fn\<lparr>fan_pc := FanLoop msg 0 (length (sched_instances s))\<rparr>)"
    using \<open>fan_ok c T (sched_ids s) ?fn\<close> inst(2) by (auto simp: fan_ok_def)
  then have "\<forall>fn \<in> set (fans s'). fan_ok c T (sched_ids s) fn"
    using T(3) set_update_subset_insert [of "fans s" j] by (auto simp: s')
  then show ?thesis using T unfolding sched_ok_def by (intro exI [of _ T]) (auto simp: s' drives_def)
qed

lemma env_step_ok:
  assumes "env_step c s s'" and "sched_ok c pend s" and "correct c \<subseteq> procs c"
  shows "sched_ok c pend s'"
  using assms(1)
proof (cases rule: env_step.cases)
  case (byzantine x i kind msg)
  let ?x = "\<lparr>op_kind = kind, op_inst = i, op_msg = msg, op_sender = x\<rparr>"
  have "op_ok c T (sched_ids s) ?x" if "drives c T s" for T
    using byzantine that by (cases kind) (auto simp: op_ok_def drives_def)
  then have "sched_ok c (?x # pend) s" using assms(2) unfolding sched_ok_def by auto
  from run_ok [OF this] show ?thesis using byzantine by simp
qed (use assms(2,3) sched_create_ok sendAll_ok fan_take_ok in blast)+

lemma fan_next_ok:
  assumes "fan_next deliver j s = Some s'" and "sched_ok c pend s"
  obtains x fs where "s' = deliver x (s\<lparr>fans := fs\<rparr>)" and "sched_ok c (x # pend) (s\<lparr>fans := fs\<rparr>)"
proof -
  let ?fn = "fans s ! j"
  obtain msg k l where k: "j < length (fans s)" "fan_pc ?fn = FanLoop msg k l" "k < l"
    and s': "s' = deliver \<lparr>op_kind = fan_kind ?fn, op_inst = k, op_msg = msg, op_sender = fan_sender ?fn\<rparr>
      (s\<lparr>fans := (fans s)[j := ?fn\<lparr>fan_pc := FanLoop msg (Suc k) l\<rparr>]\<rparr>)"
    using assms(1) by (auto simp: fan_next_def split: if_splits fan_pc.splits)
  obtain T where T: "brb_reach c T" "drives c T s" "\<forall>fn \<in> set (fans s). fan_ok c T (sched_ids s) fn"
    "\<forall>y \<in> set pend. op_ok c T (sched_ids s) y"
    using assms(2) by (auto simp: sched_ok_def)
  have fn: "fan_ok c T (sched_ids s) ?fn" using T(3) k(1) by simp
  then have "fan_ok c T (sched_ids s) (?fn\<lparr>fan_pc := FanLoop msg (Suc k) l\<rparr>)" using k by (auto simp: fan_ok_def)
  then have "\<forall>fn \<in> set ((fans s)[j := ?fn\<lparr>fan_pc := FanLoop msg (Suc k) l\<rparr>]). fan_ok c T (sched_ids s) fn"
    using T(3) set_update_subset_insert [of "fans s" j] by auto
  then show ?thesis using that [OF s'] T fn k unfolding sched_ok_def by (auto simp: drives_def op_ok_def fan_ok_def)
qed

lemma sched_ok_init:
  assumes "sched_instances s = []" "sched_ids s = []" "fans s = []"
  shows "sched_ok c [] s"
proof -
  have "node (brb_init c) p = newBrbHandler (cfg_n c) (cfg_f c)" for p by (simp add: brb_init_def)
  then show ?thesis using assms brb_reach.init unfolding sched_ok_def drives_def by (intro exI [of _ "brb_init c"]) simp
qed

lemma run_op_ok: "sched_ok c (x # pend) s \<Longrightarrow> sched_ok c pend (run_op x s)"
  by (rule sched_ok_frame [OF run_ok]) (simp_all add: run_op_def)

lemma o_reach_ok:
  assumes "o_reach c s" and "correct c \<subseteq> procs c"
  shows "sched_ok c [] s"
  using assms(1)
proof (induction rule: o_reach.induct)
  case (env s s')
  then show ?case using env_step_ok assms(2) by blast
next
  case (fan s j s')
  then obtain x fs where "s' = run_op x (s\<lparr>fans := fs\<rparr>)" "sched_ok c [x] (s\<lparr>fans := fs\<rparr>)" by (elim fan_next_ok)
  then show ?case using run_op_ok by blast
qed (rule sched_ok_init; simp add: newOrderedScheduler_def)

lemma u_run_perm:
  assumes "j < length xs"
  shows "mset xs = add_mset (xs ! j) (mset (take j xs @ drop (Suc j) xs))"
  using arg_cong [OF id_take_nth_drop [OF assms], of mset] by simp

lemma env_step_keeps: "env_step c s s' \<Longrightarrow> started s' = started s \<and> ops s' = ops s"
  by (cases rule: env_step.cases)
    (auto simp: instantiateCorrect_def addInstance_def getChannels_def sendAll_def direct_call_def fan_take_def split: if_splits)

lemma u_reach_ok:
  assumes "u_reach c s" and "correct c \<subseteq> procs c"
  shows "sched_ok c (started s @ ops s) s"
  using assms(1)
proof (induction rule: u_reach.induct)
  case init
  have e: "started newUnorderedScheduler @ ops newUnorderedScheduler = []" by (simp add: newUnorderedScheduler_def)
  show ?case unfolding e by (rule sched_ok_init) (simp_all add: newUnorderedScheduler_def)
next
  case (env s s')
  then show ?case using env_step_ok [OF env(2,3) assms(2)] env_step_keeps [OF env(2)] by simp
next
  case (fan s draw j s')
  then obtain x fs where s': "s' = u_schedule draw x (s\<lparr>fans := fs\<rparr>)" "sched_ok c (x # started s @ ops s) (s\<lparr>fans := fs\<rparr>)"
    by (elim fan_next_ok)
  have "sched_ok c (x # started s @ ops s) s'" by (rule sched_ok_frame [OF s'(2)]) (simp_all add: s' u_schedule_def)
  then show ?case by (rule sched_ok_subset) (auto simp: s' u_schedule_def brbq.set_put)
next
  case (tick s s')
  then obtain x q where x: "execOp (ops s) = Some (x, q)" "s' = s\<lparr>ops := q, started := started s @ [x]\<rparr>"
    by (auto simp: u_tick_def split: if_splits)
  have "sched_ok c (started s @ ops s) s'" by (rule sched_ok_frame [OF tick(3)]) (simp_all add: x)
  then show ?case by (rule sched_ok_subset) (use brbq.set_pop [OF x(1)] in \<open>auto simp: x\<close>)
next
  case (run s j s')
  let ?x = "started s ! j" and ?s = "s\<lparr>started := take j (started s) @ drop (Suc j) (started s)\<rparr>"
  have j: "j < length (started s)" and s': "s' = run_op ?x ?s" using run(2) by (auto simp: u_run_def split: if_splits)
  have "sched_ok c (?x # started ?s @ ops s) ?s"
    by (rule sched_ok_frame [OF sched_ok_subset [OF run(3)]])
      (use j in \<open>auto dest: in_set_takeD in_set_dropD\<close>)
  from run_op_ok [OF this] show ?case by (simp add: s' run_op_def direct_call_def)
next
  case (stop s)
  then show ?case by (auto intro: sched_ok_frame simp: stop_def)
qed

section \<open>The assertions of the schedulers\<close>

text \<open>
  Each goroutine hands its message once to each instance, so an instance hears once from each correct
  node: no call a scheduler makes is rejected as a repetition.  The calls made and still to be made are
  \<open>log\<close>; \<open>heard\<close> are the peers an instance has counted.
\<close>

fun heard :: "op_kind \<Rightarrow> brbHandler \<Rightarrow> uuid set" where
  "heard KSend h = {}"
| "heard KEcho h = peersEchoed h"
| "heard KReady h = peersReadied h"

definition same_fan :: "fan \<Rightarrow> brb_op \<Rightarrow> bool" where
  "same_fan fn x \<longleftrightarrow> fan_kind fn = op_kind x \<and> fan_sender fn = op_sender x"

definition passed :: "fan \<Rightarrow> nat \<Rightarrow> bool" where
  "passed fn i \<longleftrightarrow> (case fan_pc fn of FanWait \<Rightarrow> False | FanLoop m k l \<Rightarrow> i < k)"

definition op_key :: "brb_op \<Rightarrow> op_kind \<times> nat \<times> uuid" where
  "op_key x = (op_kind x, op_inst x, op_sender x)"

definition peer_ops :: "brb_op list \<Rightarrow> brb_op list" where
  "peer_ops xs = filter (\<lambda>x. op_kind x \<noteq> KSend) xs"

definition peer_fans :: "fan list \<Rightarrow> fan list" where
  "peer_fans fs = filter (\<lambda>fn. fan_kind fn \<noteq> KSend) fs"

definition log_ok :: "net_cfg \<Rightarrow> fan list \<Rightarrow> brb_op list \<Rightarrow> bool" where
  "log_ok c fs xs \<longleftrightarrow> distinct (map op_key (peer_ops xs))
     \<and> (\<forall>x \<in> set (peer_ops xs). op_sender x \<in> fan_sender ` set (peer_fans fs))
     \<and> (\<forall>x \<in> set (peer_ops xs). \<forall>fn \<in> set fs. same_fan fn x \<longrightarrow> passed fn (op_inst x))"

definition fans_ok :: "net_cfg \<Rightarrow> 'a orderedScheduler_scheme \<Rightarrow> bool" where
  "fans_ok c s \<longleftrightarrow> distinct (map (\<lambda>fn. (fan_kind fn, fan_sender fn)) (peer_fans (fans s)))
     \<and> fan_sender ` set (peer_fans (fans s)) \<subseteq> set (sched_ids s) \<and> set (sched_ids s) \<subseteq> correct c"

definition heard_ok :: "net_cfg \<Rightarrow> 'a orderedScheduler_scheme \<Rightarrow> bool" where
  "heard_ok c s \<longleftrightarrow> (\<forall>i < length (sched_instances s). \<forall>k. \<forall>p \<in> heard k (sched_instances s ! i) \<inter> correct c.
     (k, i, p) \<in> op_key ` fst ` set (asserted s))"

definition asserts_ok :: "net_cfg \<Rightarrow> brb_op list \<Rightarrow> 'a orderedScheduler_scheme \<Rightarrow> bool" where
  "asserts_ok c pend s \<longleftrightarrow> log_ok c (fans s) (map fst (asserted s) @ pend) \<and> fans_ok c s \<and> heard_ok c s
     \<and> (\<forall>(x, r) \<in> set (asserted s). \<forall>e. r \<noteq> GoErr e)"

lemma log_ok_mset:
  assumes "mset xs = mset ys" and "log_ok c fs xs"
  shows "log_ok c fs ys"
proof -
  have "mset (map op_key (peer_ops xs)) = mset (map op_key (peer_ops ys))" using assms(1) by (simp add: peer_ops_def)
  then have "distinct (map op_key (peer_ops xs)) = distinct (map op_key (peer_ops ys))" by (rule mset_eq_imp_distinct_iff)
  moreover have "set (peer_ops xs) = set (peer_ops ys)" using mset_eq_setD [OF assms(1)] by (simp add: peer_ops_def)
  ultimately show ?thesis using assms(2) by (simp add: log_ok_def)
qed

lemma inst_call_heard:
  "heard k' (fst (inst_call k m x h)) = (if k' = k \<and> k \<noteq> KSend then insert x (heard k h) else heard k' h)"
  by (cases k; cases k'; cases "x \<in> heard k h")
    (auto simp: handleSend_sel handleEcho_sel handleReady_sel handleEcho_repeated handleReady_repeated)

lemma inst_call_new: "x \<notin> heard k h \<Longrightarrow> snd (inst_call k m x h) \<noteq> GoErr e"
  by (cases k) (auto simp: handleSend_def phase1_handleSend_def handleEcho_new handleReady_new Let_def)

text \<open>Making a call that was pending.\<close>

lemma run_op_asserts:
  assumes "asserts_ok c (x # pend) s" and "op_inst x < length (sched_instances s)"
  shows "asserts_ok c pend (run_op x s)"
proof -
  let ?h = "sched_instances s ! op_inst x" and ?log = "map fst (asserted s) @ x # pend"
  have log: "log_ok c (fans s) ?log" and fans: "fans_ok c s" and heard: "heard_ok c s"
    using assms(1) by (simp_all add: asserts_ok_def)
  have new: "op_sender x \<notin> heard (op_kind x) ?h"
  proof
    assume h: "op_sender x \<in> heard (op_kind x) ?h"
    then have k: "op_kind x \<noteq> KSend" by auto
    then have "op_sender x \<in> correct c" using log fans by (auto simp: log_ok_def fans_ok_def peer_ops_def)
    then have "op_key x \<in> op_key ` fst ` set (asserted s)"
      using h heard assms(2) by (auto simp: heard_ok_def op_key_def)
    then obtain y where y: "op_key x = op_key y" "y \<in> fst ` set (asserted s)" by (rule imageE)
    then have "op_kind y \<noteq> KSend" using k by (simp add: op_key_def)
    then show False using log y k by (auto simp: log_ok_def peer_ops_def)
  qed
  have "heard_ok c (run_op x s)"
    using heard assms(2) unfolding heard_ok_def
    by (auto simp: run_op_def direct_call_def nth_list_update inst_call_heard op_key_def image_iff split: if_splits)
  moreover have "log_ok c (fans s) ((map fst (asserted s) @ [x]) @ pend)" using log by simp
  ultimately show ?thesis using assms(1) fans inst_call_new [OF new]
    by (auto simp: asserts_ok_def run_op_def direct_call_def fans_ok_def)
qed

text \<open>A change that adds no call: the fans may only gain progress, and the rest is kept.\<close>

lemma asserts_ok_frame:
  fixes s :: "'a orderedScheduler_scheme" and s' :: "'b orderedScheduler_scheme"
  assumes "asserts_ok c pend s" and "sched_instances s' = sched_instances s" "sched_ids s' = sched_ids s" "fans s' = fans s"
    "asserted s' = asserted s" and "mset pend' = mset pend"
  shows "asserts_ok c pend' s'"
proof -
  have "log_ok c (fans s) (map fst (asserted s) @ pend')"
    by (rule log_ok_mset [of "map fst (asserted s) @ pend"]) (use assms(1,6) in \<open>simp_all add: asserts_ok_def\<close>)
  then show ?thesis using assms by (simp add: asserts_ok_def fans_ok_def heard_ok_def)
qed

lemma create_asserts:
  assumes "asserts_ok c pend s" and "x \<in> correct c" and "x \<notin> set (sched_ids s)"
  shows "asserts_ok c pend (instantiateCorrect (cfg_n c) (cfg_f c) [x] s)"
proof -
  let ?s = "instantiateCorrect (cfg_n c) (cfg_f c) [x] s" and ?log = "map fst (asserted s) @ pend"
  have log: "log_ok c (fans s) ?log" and fans: "fans_ok c s" and heard: "heard_ok c s"
    using assms(1) by (simp_all add: asserts_ok_def)
  have eq: "fans ?s = fans s @ [\<lparr>fan_kind = KEcho, fan_of = length (sched_ids s), fan_sender = x, fan_pc = FanWait\<rparr>,
      \<lparr>fan_kind = KReady, fan_of = length (sched_ids s), fan_sender = x, fan_pc = FanWait\<rparr>]"
    "sched_ids ?s = sched_ids s @ [x]" "sched_instances ?s = sched_instances s @ [newBrbHandler (cfg_n c) (cfg_f c)]"
    "asserted ?s = asserted s"
    by (simp_all add: instantiateCorrect_def addInstance_def getChannels_def)
  have x: "x \<notin> fan_sender ` set (peer_fans (fans s))" using fans assms(3) by (auto simp: fans_ok_def)
  then have "fans_ok c ?s" using fans assms(2) by (force simp: fans_ok_def eq peer_fans_def)
  moreover have "log_ok c (fans ?s) ?log"
    using log x unfolding log_ok_def eq by (force simp: peer_fans_def same_fan_def)
  moreover have "heard k (newBrbHandler (cfg_n c) (cfg_f c)) = {}" for k by (cases k) simp_all
  then have "heard_ok c ?s" using heard by (auto simp: heard_ok_def eq nth_append)
  ultimately show ?thesis using assms(1) by (simp add: asserts_ok_def eq)
qed

lemma sendAll_asserts: "asserts_ok c pend s \<Longrightarrow> asserts_ok c pend (sendAll msg x s)"
  by (auto simp: asserts_ok_def sendAll_def log_ok_def fans_ok_def heard_ok_def peer_fans_def same_fan_def peer_ops_def)

lemma byzantine_asserts:
  assumes "asserts_ok c pend s" and "x \<notin> correct c"
  shows "asserts_ok c pend (direct_call kind i msg x s)"
proof -
  have "heard_ok c (direct_call kind i msg x s)"
    using assms unfolding asserts_ok_def heard_ok_def
    by (cases "i < length (sched_instances s)")
      (auto simp: direct_call_def nth_list_update inst_call_heard split: if_splits)
  then show ?thesis using assms(1) by (simp add: asserts_ok_def direct_call_def fans_ok_def)
qed

lemma peer_fans_update:
  assumes "j < length fs" and "fan_kind fn = fan_kind (fs ! j)" and "fan_sender fn = fan_sender (fs ! j)"
  shows "map (\<lambda>fn. (fan_kind fn, fan_sender fn)) (peer_fans (fs[j := fn])) = map (\<lambda>fn. (fan_kind fn, fan_sender fn)) (peer_fans fs)"
  using assms
proof (induction fs arbitrary: j)
  case (Cons a fs)
  then show ?case by (cases j) (auto simp: peer_fans_def)
qed simp

lemma fan_update_asserts:
  assumes "asserts_ok c pend s" and j: "j < length (fans s)"
    and fn: "fan_kind fn = fan_kind (fans s ! j)" "fan_sender fn = fan_sender (fans s ! j)"
    and p: "\<And>i. passed (fans s ! j) i \<Longrightarrow> passed fn i"
  shows "asserts_ok c pend (s\<lparr>fans := (fans s)[j := fn]\<rparr>)"
proof -
  let ?fs = "(fans s)[j := fn]" and ?log = "map fst (asserted s) @ pend"
  have keys: "map (\<lambda>fn. (fan_kind fn, fan_sender fn)) (peer_fans ?fs) = map (\<lambda>fn. (fan_kind fn, fan_sender fn)) (peer_fans (fans s))"
    by (rule peer_fans_update [OF j fn])
  have "fan_sender ` set (peer_fans fs) = snd ` set (map (\<lambda>fn. (fan_kind fn, fan_sender fn)) (peer_fans fs))" for fs
    by (simp add: image_image)
  then have snd: "fan_sender ` set (peer_fans ?fs) = fan_sender ` set (peer_fans (fans s))" using keys by metis
  have "\<exists>gn \<in> set (fans s). same_fan gn x = same_fan hn x \<and> (passed gn i \<longrightarrow> passed hn i)" if "hn \<in> set ?fs" for hn x i
  proof -
    have "hn = fn \<or> hn \<in> set (fans s)" using that set_update_subset_insert [of "fans s" j fn] by blast
    moreover have "same_fan (fans s ! j) x = same_fan fn x" using fn by (simp add: same_fan_def)
    ultimately show ?thesis using p nth_mem [OF j] by metis
  qed
  then have "log_ok c ?fs ?log" using assms(1) unfolding asserts_ok_def log_ok_def snd by metis
  then show ?thesis using assms(1) keys snd by (simp add: asserts_ok_def fans_ok_def heard_ok_def)
qed

lemma env_step_asserts:
  assumes "env_step c s s'" and "asserts_ok c pend s"
  shows "asserts_ok c pend s'"
  using assms(1)
proof (cases rule: env_step.cases)
  case (take j msg)
  then show ?thesis using fan_update_asserts [OF assms(2), of j "(fans s ! j)\<lparr>fan_pc := FanLoop msg 0 (length (sched_instances s))\<rparr>"]
    by (auto simp: fan_take_def passed_def split: if_splits)
qed (use assms(2) create_asserts sendAll_asserts byzantine_asserts in auto)

lemma peer_fan_unique:
  assumes "fans_ok c s" and "fn \<in> set (fans s)" "gn \<in> set (fans s)" and "fan_kind fn \<noteq> KSend"
    and "fan_kind fn = fan_kind gn" "fan_sender fn = fan_sender gn"
  shows "fn = gn"
  using assms by (auto simp: fans_ok_def peer_fans_def distinct_map inj_on_def)

lemma fan_next_asserts:
  assumes "fan_next deliver j s = Some s'" and a: "asserts_ok c pend s"
  obtains x fs where "s' = deliver x (s\<lparr>fans := fs\<rparr>)" and "asserts_ok c (x # pend) (s\<lparr>fans := fs\<rparr>)"
    and "length fs = length (fans s)"
proof -
  let ?fn = "fans s ! j"
  obtain msg k l where k: "j < length (fans s)" "fan_pc ?fn = FanLoop msg k l" "k < l"
    and s': "s' = deliver \<lparr>op_kind = fan_kind ?fn, op_inst = k, op_msg = msg, op_sender = fan_sender ?fn\<rparr>
      (s\<lparr>fans := (fans s)[j := ?fn\<lparr>fan_pc := FanLoop msg (Suc k) l\<rparr>]\<rparr>)"
    using assms(1) by (auto simp: fan_next_def split: if_splits fan_pc.splits)
  let ?x = "\<lparr>op_kind = fan_kind ?fn, op_inst = k, op_msg = msg, op_sender = fan_sender ?fn\<rparr>"
    and ?gn = "?fn\<lparr>fan_pc := FanLoop msg (Suc k) l\<rparr>" and ?log = "map fst (asserted s) @ pend"
  let ?s = "s\<lparr>fans := (fans s)[j := ?gn]\<rparr>"
  have ok: "asserts_ok c pend ?s" by (rule fan_update_asserts [OF a k(1)]) (auto simp: passed_def k(2))
  have gn: "?gn \<in> set (fans ?s)" using set_update_memI [OF k(1), of ?gn] by simp
  have fresh: "op_key ?x \<notin> op_key ` set (peer_ops ?log)"
  proof
    assume "op_key ?x \<in> op_key ` set (peer_ops ?log)"
    then obtain y where y: "y \<in> set (peer_ops ?log)" "op_key ?x = op_key y" by blast
    then have "passed ?fn (op_inst y)" using a k(1) by (auto simp: asserts_ok_def log_ok_def same_fan_def op_key_def)
    then show False using y(2) by (simp add: passed_def k(2) op_key_def)
  qed
  have "log_ok c (fans ?s) (?x # ?log)"
  proof (cases "fan_kind ?fn = KSend")
    case True
    then show ?thesis using ok by (simp add: asserts_ok_def log_ok_def peer_ops_def)
  next
    case False
    have fo: "fans_ok c ?s" and lo: "log_ok c (fans ?s) ?log" using ok by (simp_all add: asserts_ok_def)
    have "passed fn k" if "fn \<in> set (fans ?s)" "same_fan fn ?x" for fn
    proof -
      have "?gn = fn" by (rule peer_fan_unique [OF fo gn that(1)]) (use that(2) False in \<open>simp_all add: same_fan_def\<close>)
      then have "fan_pc fn = FanLoop msg (Suc k) l" by auto
      then show ?thesis by (simp add: passed_def)
    qed
    moreover
    have "?gn \<in> set (peer_fans (fans ?s))" using gn False by (simp add: peer_fans_def)
    then have "fan_sender ?fn \<in> fan_sender ` set (peer_fans (fans ?s))" using imageI [of ?gn _ fan_sender] by simp
    moreover have "peer_ops (?x # ?log) = ?x # peer_ops ?log" using False by (simp add: peer_ops_def)
    ultimately show ?thesis using lo fresh by (simp add: log_ok_def)
  qed
  then have "log_ok c (fans ?s) (map fst (asserted s) @ ?x # pend)" by (rule log_ok_mset [rotated]) simp
  then have "asserts_ok c (?x # pend) ?s" using ok by (simp add: asserts_ok_def)
  then show ?thesis using that [OF s'] by simp
qed

lemma asserts_ok_init:
  "sched_instances s = [] \<Longrightarrow> fans s = [] \<Longrightarrow> sched_ids s = [] \<Longrightarrow> asserted s = [] \<Longrightarrow> asserts_ok c [] s"
  by (simp add: asserts_ok_def log_ok_def fans_ok_def heard_ok_def peer_ops_def peer_fans_def)

text \<open>A pending call is one of an instance the scheduler has.\<close>

lemma sched_ok_inst: "sched_ok c pend s \<Longrightarrow> x \<in> set pend \<Longrightarrow> op_inst x < length (sched_instances s)"
  by (auto simp: sched_ok_def drives_def op_ok_def)

lemma o_reach_asserts:
  assumes "o_reach c s" and "correct c \<subseteq> procs c"
  shows "asserts_ok c [] s"
  using assms(1)
proof (induction rule: o_reach.induct)
  case (env s s')
  then show ?case using env_step_asserts by blast
next
  case (fan s j s')
  then obtain x fs where x: "s' = run_op x (s\<lparr>fans := fs\<rparr>)" "asserts_ok c [x] (s\<lparr>fans := fs\<rparr>)" by (elim fan_next_asserts)
  obtain y gs where y: "s' = run_op y (s\<lparr>fans := gs\<rparr>)" "sched_ok c [y] (s\<lparr>fans := gs\<rparr>)"
    using fan_next_ok [OF fan(2) o_reach_ok [OF fan(1) assms(2)]] by blast
  have "fst (last (asserted s')) = x" by (simp add: x(1) run_op_def)
  moreover have "fst (last (asserted s')) = y" by (simp add: y(1) run_op_def)
  ultimately have "op_inst x < length (sched_instances (s\<lparr>fans := fs\<rparr>))" using sched_ok_inst [OF y(2)] by simp
  then show ?case using run_op_asserts [OF x(2)] x(1) by simp
qed (rule asserts_ok_init; simp add: newOrderedScheduler_def)

lemma u_reach_asserts:
  assumes "u_reach c s" and "correct c \<subseteq> procs c"
  shows "asserts_ok c (started s @ ops s) s"
  using assms(1)
proof (induction rule: u_reach.induct)
  case init
  have e: "started newUnorderedScheduler @ ops newUnorderedScheduler = []" by (simp add: newUnorderedScheduler_def)
  show ?case unfolding e by (rule asserts_ok_init) (simp_all add: newUnorderedScheduler_def)
next
  case (env s s')
  then show ?case using env_step_asserts [OF env(2,3)] env_step_keeps [OF env(2)] by simp
next
  case (fan s draw j s')
  then obtain x fs where x: "s' = u_schedule draw x (s\<lparr>fans := fs\<rparr>)" "asserts_ok c (x # started s @ ops s) (s\<lparr>fans := fs\<rparr>)"
    by (elim fan_next_asserts)
  show ?case by (rule asserts_ok_frame [OF x(2)]) (simp_all add: x(1) u_schedule_def brbq.put_content)
next
  case (tick s s')
  then obtain x q where x: "execOp (ops s) = Some (x, q)" "s' = s\<lparr>ops := q, started := started s @ [x]\<rparr>"
    by (auto simp: u_tick_def split: if_splits)
  show ?case by (rule asserts_ok_frame [OF tick(3)]) (simp_all add: x(2) brbq.pop_content [OF x(1)])
next
  case (run s j s')
  let ?x = "started s ! j" and ?s = "s\<lparr>started := take j (started s) @ drop (Suc j) (started s)\<rparr>"
  have j: "j < length (started s)" and s': "s' = run_op ?x ?s" using run(2) by (auto simp: u_run_def split: if_splits)
  have "asserts_ok c (?x # started ?s @ ops s) ?s"
    by (rule asserts_ok_frame [OF run(3)]) (simp_all add: u_run_perm [OF j])
  moreover have "op_inst ?x < length (sched_instances ?s)"
    using sched_ok_inst [OF u_reach_ok [OF run(1) assms(2)], of ?x] j by simp
  ultimately have "asserts_ok c (started ?s @ ops s) s'" unfolding s' by (rule run_op_asserts)
  then show ?case by (simp add: s' run_op_def direct_call_def)
next
  case (stop s)
  show ?case by (rule asserts_ok_frame [OF stop(2)]) (simp_all add: stop_def)
qed

section \<open>Properties\<close>

text \<open>
  Whatever the random numbers and the interleaving of goroutines, the instances that a scheduler drives
  are the nodes of a reachable network of reliable broadcast: the tests explore a part of what the
  theorems about that network cover.
\<close>

theorem brb_schedulers_refine:
  assumes "correct c \<subseteq> procs c" and "o_reach c s" and "u_reach c t"
  shows "(\<exists>T. brb_reach c T \<and> sched_instances s = map (node T) (sched_ids s))
    \<and> (\<exists>T. brb_reach c T \<and> sched_instances t = map (node T) (sched_ids t))"
  using o_reach_ok [OF assms(2,1)] u_reach_ok [OF assms(3,1)] by (auto simp: sched_ok_def drives_def)

text \<open>
  The assertions inside the schedulers hold: no call made for a goroutine of a scheduler returns an
  error.
\<close>

theorem brb_schedulers_assert:
  assumes "correct c \<subseteq> procs c" and "o_reach c s" and "u_reach c t" and "(x, r) \<in> set (asserted s) \<union> set (asserted t)"
  shows "r \<noteq> GoErr e"
  using o_reach_asserts [OF assms(2,1)] u_reach_asserts [OF assms(3,1)] assms(4) by (auto simp: asserts_ok_def)

text \<open>
  The queue of the unordered scheduler loses and repeats nothing: what it still holds and what it
  started are together what it held and what was scheduled, and as many ticks as it holds operations
  start all of them.
\<close>

theorem unordered_runs_all:
  assumes "sched_loop reorderOps execOp ts q = (r, xs)"
  shows "mset r + mset xs = mset q + mset (scheduled ts)
    \<and> (\<exists>ys. sched_loop reorderOps execOp (replicate (length r) Tick) r = ([], ys) \<and> mset ys = mset r)"
  using brbq.conserved [OF assms] brbq.drained [of r] by simp

section \<open>A run of each scheduler\<close>

text \<open>Two instances; a message is sent to all; the unordered scheduler exchanges the two calls and runs one.\<close>

definition sched_setup :: "'a orderedScheduler_scheme \<Rightarrow> 'a orderedScheduler_scheme" where
  "sched_setup s = sendAll [1] (uid 4) (instantiateCorrect 4 1 [uid 2] (instantiateCorrect 4 1 [uid 1] s))"

definition o_demo :: "orderedScheduler option" where
  "o_demo = fan_next run_op 4 (sched_setup newOrderedScheduler)"

definition u_demo :: "unorderedScheduler option" where
  "u_demo = Option.bind (fan_next (u_schedule (\<lambda>_. 0)) 4 (sched_setup newUnorderedScheduler)) (\<lambda>s.
     Option.bind (fan_next (u_schedule (\<lambda>_. 0)) 4 s) (\<lambda>s. Option.bind (u_tick s) (u_run 0)))"

lemmas sched_eval = instantiateCorrect_def addInstance_def getChannels_def sendAll_def fan_next_def run_op_def direct_call_def
  u_schedule_def reorderOps_def execOp_def u_tick_def u_run_def swap_def handleSend_def phase1_handleSend_def sendEcho_def
  newOrderedScheduler_def newUnorderedScheduler_def sched_setup_def

lemma setup_env:
  assumes "sched_ids s = []"
  shows "(env_step default_cfg)\<^sup>*\<^sup>* s (sched_setup s)"
proof -
  let ?a = "instantiateCorrect 4 1 [uid 1] s" and ?b = "instantiateCorrect 4 1 [uid 2] (instantiateCorrect 4 1 [uid 1] s)"
  have "sched_ids ?a = [uid 1]" using assms by (simp add: sched_eval)
  then have "env_step default_cfg s ?a" "env_step default_cfg ?a ?b" "env_step default_cfg ?b (sched_setup s)"
    using env_step.create [of "uid 1" default_cfg s] env_step.create [of "uid 2" default_cfg ?a]
      env_step.sendAll [of "uid 4" default_cfg ?b "[1]"] assms
    by (simp_all add: sched_setup_def uid_eq_iff)
  then show ?thesis by (meson rtranclp.rtrancl_into_rtrancl rtranclp.rtrancl_refl)
qed

lemma o_reach_env: "(env_step c)\<^sup>*\<^sup>* s s' \<Longrightarrow> o_reach c s \<Longrightarrow> o_reach c s'"
  by (induction rule: rtranclp_induct) (auto intro: o_reach.env)

lemma u_reach_env: "(env_step c)\<^sup>*\<^sup>* s s' \<Longrightarrow> u_reach c s \<Longrightarrow> u_reach c s'"
  by (induction rule: rtranclp_induct) (auto intro: u_reach.env)

lemma o_demo_run:
  obtains s where "o_demo = Some s" and "o_reach default_cfg s" and "map echoChan (sched_instances s) = [[uuid_bytes (uid 4) @ [1]], []]"
    and "map snd (asserted s) = [GoNil]"
proof -
  obtain s where s: "o_demo = Some s" "map echoChan (sched_instances s) = [[uuid_bytes (uid 4) @ [1]], []]"
    "map snd (asserted s) = [GoNil]" by (simp add: o_demo_def sched_eval)
  have "o_reach default_cfg (sched_setup newOrderedScheduler)"
    by (rule o_reach_env [OF setup_env o_reach.init]) (simp add: newOrderedScheduler_def)
  then have "o_reach default_cfg s" using s(1) unfolding o_demo_def by (rule o_reach.fan)
  then show ?thesis by (rule that [OF s(1) _ s(2,3)])
qed

lemma u_demo_run:
  obtains s where "u_demo = Some s" and "u_reach default_cfg s" and "map echoChan (sched_instances s) = [[], [uuid_bytes (uid 4) @ [1]]]"
    and "map snd (asserted s) = [GoNil]"
proof -
  have r: "u_reach default_cfg (sched_setup newUnorderedScheduler)"
    by (rule u_reach_env [OF setup_env u_reach.init]) (simp add: newUnorderedScheduler_def)
  obtain s where s: "u_demo = Some s" "map echoChan (sched_instances s) = [[], [uuid_bytes (uid 4) @ [1]]]"
    "map snd (asserted s) = [GoNil]" by (simp add: u_demo_def sched_eval)
  obtain a b d where st: "fan_next (u_schedule (\<lambda>_. 0)) 4 (sched_setup newUnorderedScheduler) = Some a"
    "fan_next (u_schedule (\<lambda>_. 0)) 4 a = Some b" "u_tick b = Some d" "u_run 0 d = Some s"
    using s(1) unfolding u_demo_def Option.bind_eq_Some_conv by blast
  have "u_reach default_cfg s"
    by (rule u_reach.run [OF u_reach.tick [OF u_reach.fan [OF u_reach.fan [OF r st(1)] st(2)] st(3)] st(4)])
  then show ?thesis by (rule that [OF s(1) _ s(2,3)])
qed

theorem brb_schedulers_refine_witness:
  "\<exists>s t. o_demo = Some s \<and> u_demo = Some t \<and> map echoChan (sched_instances t) = [[], [uuid_bytes (uid 4) @ [1]]]
    \<and> (\<exists>T. brb_reach default_cfg T \<and> sched_instances s = map (node T) (sched_ids s))
    \<and> (\<exists>T. brb_reach default_cfg T \<and> sched_instances t = map (node T) (sched_ids t))"
proof -
  obtain s t where s: "o_demo = Some s" "o_reach default_cfg s" and t: "u_demo = Some t" "u_reach default_cfg t"
    "map echoChan (sched_instances t) = [[], [uuid_bytes (uid 4) @ [1]]]"
    by (metis o_demo_run u_demo_run)
  have "correct default_cfg \<subseteq> procs default_cfg" by simp
  from brb_schedulers_refine [OF this s(2) t(2)] s(1) t(1,3) show ?thesis
    by (intro exI [of _ s] exI [of _ t] conjI) (assumption | simp)+
qed

theorem unordered_runs_all_witness:
  "sched_loop reorderOps execOp [Scheduled (\<lambda>_. 0) (1 :: nat), Scheduled (\<lambda>_. 0) 2, Scheduled (\<lambda>_. 0) 3, Tick] [] = ([3, 2], [1])
    \<and> mset [3, 2] + mset [1] = mset [] + mset (scheduled [Scheduled (\<lambda>_. 0) (1 :: nat), Scheduled (\<lambda>_. 0) 2, Scheduled (\<lambda>_. 0) 3, Tick])"
  using unordered_runs_all [of "[Scheduled (\<lambda>_. 0) (1 :: nat), Scheduled (\<lambda>_. 0) 2, Scheduled (\<lambda>_. 0) 3, Tick]" "[]" "[3, 2]" "[1]"]
  by (simp add: reorderOps_def execOp_def swap_def)

end
