(* ===== verification/MMR_Schedulers.thy ===== *)
theory MMR_Schedulers
  imports MMR_Coin Utils Scheduler_Queue
begin

text \<open>
  The schedulers that drive binary agreements in the tests, \<^verbatim>\<open>asynchronousBinaryAgreement/mmrScheduller.go\<close>.
  For every instance five goroutines listen to its channels; for what they read they start one
  goroutine per instance.  Under the ordered scheduler these call the instances; under the unordered
  one they hand the call to a loop that shuffles its queue and, on a tick, makes the first call and
  waits for it to return.  The coin is computed from the digits of the round.
\<close>

section \<open>State\<close>

datatype mmr_op = OpCall nat mmr_cmd | OpDecision nat byte uuid

record wrappedMMR =
  wm :: concurrentMMR
  wdecision :: "byte chan"

text \<open>
  Where the goroutine \<^verbatim>\<open>listenDecisions\<close> is: waiting for the decision \<open>d\<close>; at the turn \<open>k\<close> of its loop over \<open>l\<close>
  instances, before it starts a goroutine or before it sends on \<^verbatim>\<open>decision\<close>; waiting for a second
  decision; and after \<^verbatim>\<open>t.Errorf\<close>.
\<close>

datatype dec_pc = DecWait | DecSpawn byte nat nat | DecSend byte nat nat | DecTwice nat | DecFailed

text \<open>How many messages the listeners of an instance have read from its channels.\<close>

record listeners =
  ls_echoes :: nat
  ls_votes :: nat
  ls_binds :: nat
  ls_coins :: nat
  ls_decision :: dec_pc

record mmrOrderedScheduler =
  ms_instances :: "wrappedMMR list"
  ms_ids :: "uuid list"
  ms_listeners :: "listeners list"
  ms_goroutines :: "mmr_op list"

record mmrUnorderedScheduler = mmrOrderedScheduler +
  ms_ops :: "mmr_op list"
  ms_call :: "(nat \<times> mmr_cmd) option"

definition newMMROrderedScheduler :: mmrOrderedScheduler where
  "newMMROrderedScheduler = \<lparr>ms_instances = [], ms_ids = [], ms_listeners = [], ms_goroutines = []\<rparr>"

definition newMMRUnorderedScheduler :: mmrUnorderedScheduler where
  "newMMRUnorderedScheduler = \<lparr>ms_instances = [], ms_ids = [], ms_listeners = [], ms_goroutines = [], ms_ops = [], ms_call = None\<rparr>"

section \<open>Operations\<close>

text \<open>\<^verbatim>\<open>addInstance\<close>: the channel \<^verbatim>\<open>decision\<close> is unbuffered in one scheduler and has room for one in the other.\<close>

definition ms_addInstance :: "nat \<Rightarrow> concurrentMMR \<Rightarrow> 'a mmrOrderedScheduler_scheme \<Rightarrow> 'a mmrOrderedScheduler_scheme" where
  "ms_addInstance cap m s = s\<lparr>ms_instances := ms_instances s @ [\<lparr>wm = m, wdecision = make_chan cap\<rparr>]\<rparr>"

definition start_listeners :: "uuid \<Rightarrow> 'a mmrOrderedScheduler_scheme \<Rightarrow> 'a mmrOrderedScheduler_scheme" where
  "start_listeners sender s = s\<lparr>ms_ids := ms_ids s @ [sender],
     ms_listeners := ms_listeners s @ [\<lparr>ls_echoes = 0, ls_votes = 0, ls_binds = 0, ls_coins = 0, ls_decision = DecWait\<rparr>]\<rparr>"

definition o_getChannels :: "uint \<Rightarrow> uint \<Rightarrow> uuid \<Rightarrow> mmrOrderedScheduler \<Rightarrow> mmrOrderedScheduler" where
  "o_getChannels n f sender s = start_listeners sender (ms_addInstance 0 (newConcurrentMMR n f) s)"

definition u_getChannels :: "uint \<Rightarrow> uint \<Rightarrow> uuid \<Rightarrow> mmrUnorderedScheduler \<Rightarrow> mmrUnorderedScheduler" where
  "u_getChannels n f sender s = start_listeners sender (ms_addInstance 1 (newConcurrentMMR n f) s)"

definition ms_mmr :: "'a mmrOrderedScheduler_scheme \<Rightarrow> nat \<Rightarrow> mmr" where
  "ms_mmr s i = cm_mmr (wm (ms_instances s ! i))"

definition put_wm :: "nat \<Rightarrow> concurrentMMR \<Rightarrow> 'a mmrOrderedScheduler_scheme \<Rightarrow> 'a mmrOrderedScheduler_scheme" where
  "put_wm i m s = s\<lparr>ms_instances := (ms_instances s)[i := (ms_instances s ! i)\<lparr>wm := m\<rparr>]\<rparr>"

text \<open>A listener starts one goroutine per instance.\<close>

definition spawn_all :: "(nat \<Rightarrow> mmr_op) \<Rightarrow> 'a mmrOrderedScheduler_scheme \<Rightarrow> 'a mmrOrderedScheduler_scheme" where
  "spawn_all g s = s\<lparr>ms_goroutines := ms_goroutines s @ map g [0..<length (ms_instances s)]\<rparr>"

text \<open>
  Turn of a listener loop of instance \<open>i\<close>: it reads the next message, the number of messages read being
  given by a selector of its record, and starts goroutines for it.
\<close>

definition listen ::
  "(mmr \<Rightarrow> 'm list) \<Rightarrow> (listeners \<Rightarrow> nat) \<Rightarrow> ((nat \<Rightarrow> nat) \<Rightarrow> listeners \<Rightarrow> listeners)
    \<Rightarrow> ('m \<Rightarrow> 'a mmrOrderedScheduler_scheme \<Rightarrow> 'a mmrOrderedScheduler_scheme) \<Rightarrow> nat
    \<Rightarrow> 'a mmrOrderedScheduler_scheme \<Rightarrow> 'a mmrOrderedScheduler_scheme option"
where
  "listen ch sel upd spawn i s =
     (if i < length (ms_listeners s) \<and> sel (ms_listeners s ! i) < length (ch (ms_mmr s i))
      then Some (spawn (ch (ms_mmr s i) ! sel (ms_listeners s ! i))
                  (s\<lparr>ms_listeners := (ms_listeners s)[i := upd Suc (ms_listeners s ! i)]\<rparr>))
      else None)"

definition listenEchoes :: "nat \<Rightarrow> 'a mmrOrderedScheduler_scheme \<Rightarrow> 'a mmrOrderedScheduler_scheme option" where
  "listenEchoes i s = listen deliverEcho ls_echoes ls_echoes_update
     (\<lambda>(v, r). spawn_all (\<lambda>k. OpCall k (CmdEcho v (ms_ids s ! i) r))) i s"

definition listenVotes :: "nat \<Rightarrow> 'a mmrOrderedScheduler_scheme \<Rightarrow> 'a mmrOrderedScheduler_scheme option" where
  "listenVotes i s = listen deliverVote ls_votes ls_votes_update
     (\<lambda>(v, r). spawn_all (\<lambda>k. OpCall k (CmdVote v (ms_ids s ! i) r))) i s"

definition listenBinds :: "nat \<Rightarrow> 'a mmrOrderedScheduler_scheme \<Rightarrow> 'a mmrOrderedScheduler_scheme option" where
  "listenBinds i s = listen deliverBind ls_binds ls_binds_update
     (\<lambda>(v, r). spawn_all (\<lambda>k. OpCall k (CmdBind v (ms_ids s ! i) r))) i s"

definition hashToBool :: "bytes \<Rightarrow> bool" where
  "hashToBool seed \<longleftrightarrow> sum256 seed ! 0 mod 2 = 0"

definition sched_coin :: "uint16 \<Rightarrow> byte" where
  "sched_coin round = (if hashToBool (decimal (unat round)) then 1 else 0)"

definition listenCoinRequests :: "nat \<Rightarrow> 'a mmrOrderedScheduler_scheme \<Rightarrow> 'a mmrOrderedScheduler_scheme option" where
  "listenCoinRequests i s = listen coinReq ls_coins ls_coins_update
     (\<lambda>r s. s\<lparr>ms_goroutines := ms_goroutines s @ [OpCall i (CmdCoin (sched_coin r) r)]\<rparr>) i s"

text \<open>A goroutine makes its call: it hands a command to the queue of the instance, or submits a decision.\<close>

fun make_call :: "mmr_op \<Rightarrow> 'a mmrOrderedScheduler_scheme \<Rightarrow> 'a mmrOrderedScheduler_scheme" where
  "make_call (OpCall i cmd) s = put_wm i (cm_schedule cmd (wm (ms_instances s ! i))) s"
| "make_call (OpDecision i d x) s = put_wm i (fst (cm_submitDecision d x (wm (ms_instances s ! i)))) s"

definition drop_goroutine :: "nat \<Rightarrow> 'a mmrOrderedScheduler_scheme \<Rightarrow> 'a mmrOrderedScheduler_scheme" where
  "drop_goroutine j s = s\<lparr>ms_goroutines := take j (ms_goroutines s) @ drop (Suc j) (ms_goroutines s)\<rparr>"

definition o_call :: "nat \<Rightarrow> mmrOrderedScheduler \<Rightarrow> mmrOrderedScheduler option" where
  "o_call j s = (if j < length (ms_goroutines s) then Some (make_call (ms_goroutines s ! j) (drop_goroutine j s)) else None)"

section \<open>The loop of the unordered scheduler\<close>

definition mmr_reorderOps :: "(nat \<Rightarrow> nat) \<Rightarrow> 'op \<Rightarrow> 'op list \<Rightarrow> 'op list" where
  "mmr_reorderOps draw x q = (let q' = q @ [x] in shuffle draw (length q' - 1) q')"

definition mmr_execOp :: "'op list \<Rightarrow> ('op \<times> 'op list) option" where
  "mmr_execOp q = (if length q > 0 then Some (q ! 0, drop 1 q) else None)"

text \<open>The goroutine \<open>j\<close> hands its call to the loop, which is not waiting for a call to return.\<close>

definition u_scheduleChan :: "(nat \<Rightarrow> nat) \<Rightarrow> nat \<Rightarrow> mmrUnorderedScheduler \<Rightarrow> mmrUnorderedScheduler option" where
  "u_scheduleChan draw j s =
     (if j < length (ms_goroutines s) \<and> ms_call s = None
      then Some ((drop_goroutine j s)\<lparr>ms_ops := mmr_reorderOps draw (ms_goroutines s ! j) (ms_ops s)\<rparr>) else None)"

definition mu_tick :: "mmrUnorderedScheduler \<Rightarrow> mmrUnorderedScheduler option" where
  "mu_tick s =
     (if ms_call s = None
      then map_option (\<lambda>(x, q). (make_call x s)\<lparr>ms_ops := q,
             ms_call := (case x of OpCall i cmd \<Rightarrow> Some (i, cmd) | OpDecision i d y \<Rightarrow> None)\<rparr>) (mmr_execOp (ms_ops s))
      else None)"

text \<open>The call the loop waits for has returned when its command neither waits nor runs.\<close>

definition mu_return :: "mmrUnorderedScheduler \<Rightarrow> mmrUnorderedScheduler option" where
  "mu_return s =
     (case ms_call s of
        Some (i, cmd) \<Rightarrow> (if cmd \<in> cm_cmds (wm (ms_instances s ! i)) then None else Some (s\<lparr>ms_call := None\<rparr>))
      | None \<Rightarrow> None)"

section \<open>Decisions\<close>

definition set_dec :: "nat \<Rightarrow> dec_pc \<Rightarrow> 'a mmrOrderedScheduler_scheme \<Rightarrow> 'a mmrOrderedScheduler_scheme" where
  "set_dec i pc s = s\<lparr>ms_listeners := (ms_listeners s)[i := (ms_listeners s ! i)\<lparr>ls_decision := pc\<rparr>]\<rparr>"

definition put_decision :: "nat \<Rightarrow> byte chan \<Rightarrow> 'a mmrOrderedScheduler_scheme \<Rightarrow> 'a mmrOrderedScheduler_scheme" where
  "put_decision i ch s = s\<lparr>ms_instances := (ms_instances s)[i := (ms_instances s ! i)\<lparr>wdecision := ch\<rparr>]\<rparr>"

text \<open>The first and the second receive from \<^verbatim>\<open>deliverDecision\<close> in \<^verbatim>\<open>listenDecisions\<close>.\<close>

definition take_decision ::
  "(byte \<Rightarrow> 'a mmrOrderedScheduler_scheme \<Rightarrow> 'a mmrOrderedScheduler_scheme) \<Rightarrow> nat
    \<Rightarrow> 'a mmrOrderedScheduler_scheme \<Rightarrow> 'a mmrOrderedScheduler_scheme option"
where
  "take_decision k i s =
     (case mmr_takeDecision (ms_mmr s i) of
        None \<Rightarrow> None
      | Some (d, m) \<Rightarrow> Some (k d (put_wm i ((wm (ms_instances s ! i))\<lparr>cm_mmr := m\<rparr>) s)))"

text \<open>
  The ordered scheduler starts the goroutines that submit the decision, then hands it to the test,
  which has to be reading: \<open>decision\<close> is unbuffered.
\<close>

definition o_listenDecisions :: "nat \<Rightarrow> mmrOrderedScheduler \<Rightarrow> mmrOrderedScheduler option" where
  "o_listenDecisions i s =
     (if i < length (ms_listeners s)
      then (case ls_decision (ms_listeners s ! i) of
              DecWait \<Rightarrow> take_decision (\<lambda>d s. spawn_all (\<lambda>k. OpDecision k d (ms_ids s ! i))
                (set_dec i (DecSend d (length (ms_instances s)) (length (ms_instances s))) s)) i s
            | DecSend d k l \<Rightarrow>
                (let ch = wdecision (ms_instances s ! i)
                 in Some (set_dec i (DecTwice l) (put_decision i (ch\<lparr>ch_sent := ch_sent ch @ [d], ch_taken := Suc (ch_taken ch)\<rparr>) s)))
            | DecTwice l \<Rightarrow> take_decision (\<lambda>d. set_dec i DecFailed) i s
            | _ \<Rightarrow> None)
      else None)"

text \<open>
  The unordered scheduler sends the decision to the test inside the loop, once per instance; the
  channel has room for one.
\<close>

definition u_listenDecisions :: "nat \<Rightarrow> mmrUnorderedScheduler \<Rightarrow> mmrUnorderedScheduler option" where
  "u_listenDecisions i s =
     (if i < length (ms_listeners s)
      then (case ls_decision (ms_listeners s ! i) of
              DecWait \<Rightarrow> take_decision (\<lambda>d s. set_dec i (DecSpawn d 0 (length (ms_instances s))) s) i s
            | DecSpawn d k l \<Rightarrow>
                (if k < l
                 then Some (set_dec i (DecSend d k l) (s\<lparr>ms_goroutines := ms_goroutines s @ [OpDecision k d (ms_ids s ! i)]\<rparr>))
                 else Some (set_dec i (DecTwice l) s))
            | DecSend d k l \<Rightarrow>
                map_option (\<lambda>ch. set_dec i (DecSpawn d (Suc k) l) (put_decision i ch s)) (chan_send d (wdecision (ms_instances s ! i)))
            | DecTwice l \<Rightarrow> take_decision (\<lambda>d. set_dec i DecFailed) i s
            | DecFailed \<Rightarrow> None)
      else None)"

text \<open>The test reads a decision under the unordered scheduler.\<close>

definition read_decision :: "nat \<Rightarrow> mmrUnorderedScheduler \<Rightarrow> mmrUnorderedScheduler option" where
  "read_decision i s =
     (if i < length (ms_instances s)
      then map_option (\<lambda>(d, ch). put_decision i ch s) (chan_recv (wdecision (ms_instances s ! i))) else None)"

interpretation mmrq: op_queue mmr_reorderOps mmr_execOp
proof
  show "mset (mmr_reorderOps draw x q) = add_mset x (mset q)" for draw and x :: 'a and q
    by (simp add: mmr_reorderOps_def mset_shuffle)
  show "mmr_execOp q = Some (x, q') \<Longrightarrow> mset q = add_mset x (mset q')" for q q' and x :: 'a
    by (cases q) (auto simp: mmr_execOp_def)
  show "mmr_execOp q = None \<longleftrightarrow> q = []" for q :: "'a list" by (simp add: mmr_execOp_def)
qed

section \<open>Runs\<close>

text \<open>What a Byzantine node can submit.\<close>

fun byz_cmd :: "net_cfg \<Rightarrow> mmr_cmd \<Rightarrow> bool" where
  "byz_cmd c (CmdEcho v x r) = (x \<in> procs c - correct c)"
| "byz_cmd c (CmdVote v x r) = (x \<in> procs c - correct c)"
| "byz_cmd c (CmdBind v x r) = (x \<in> procs c - correct c)"
| "byz_cmd c _ = False"

text \<open>
  Under either scheduler: the test proposes, calls instances as a Byzantine node and closes them; the
  instances take steps of their own, of which none reads the decision; the listeners read messages.
\<close>

inductive ms_env :: "net_cfg \<Rightarrow> 'a mmrOrderedScheduler_scheme \<Rightarrow> 'a mmrOrderedScheduler_scheme \<Rightarrow> bool" for c where
  propose: "i < length (ms_instances s) \<Longrightarrow> ms_env c s (put_wm i (cm_propose est (wm (ms_instances s ! i))) s)"
| byzantine: "\<lbrakk>i < length (ms_instances s); byz_cmd c cmd\<rbrakk> \<Longrightarrow> ms_env c s (make_call (OpCall i cmd) s)"
| byz_decision: "\<lbrakk>i < length (ms_instances s); x \<in> procs c - correct c\<rbrakk> \<Longrightarrow> ms_env c s (make_call (OpDecision i d x) s)"
| run: "\<lbrakk>i < length (ms_instances s); cm_run (wm (ms_instances s ! i)) = Some m'\<rbrakk> \<Longrightarrow> ms_env c s (put_wm i m' s)"
| goroutine: "\<lbrakk>i < length (ms_instances s); cm_goroutine (wm (ms_instances s ! i)) m';
     ch_taken (deliverDecision (cm_mmr m')) = ch_taken (deliverDecision (ms_mmr s i))\<rbrakk> \<Longrightarrow> ms_env c s (put_wm i m' s)"
| close: "i < length (ms_instances s) \<Longrightarrow> ms_env c s (put_wm i (cm_close (wm (ms_instances s ! i))) s)"
| echoes: "listenEchoes i s = Some s' \<Longrightarrow> ms_env c s s'"
| votes: "listenVotes i s = Some s' \<Longrightarrow> ms_env c s s'"
| binds: "listenBinds i s = Some s' \<Longrightarrow> ms_env c s s'"
| coins: "listenCoinRequests i s = Some s' \<Longrightarrow> ms_env c s s'"

inductive mo_reach :: "net_cfg \<Rightarrow> mmrOrderedScheduler \<Rightarrow> bool" for c where
  init: "mo_reach c newMMROrderedScheduler"
| create: "\<lbrakk>mo_reach c s; x \<in> correct c; x \<notin> set (ms_ids s)\<rbrakk> \<Longrightarrow> mo_reach c (o_getChannels (cfg_n c) (cfg_f c) x s)"
| env: "\<lbrakk>mo_reach c s; ms_env c s s'\<rbrakk> \<Longrightarrow> mo_reach c s'"
| call: "\<lbrakk>mo_reach c s; o_call j s = Some s'\<rbrakk> \<Longrightarrow> mo_reach c s'"
| decisions: "\<lbrakk>mo_reach c s; o_listenDecisions i s = Some s'\<rbrakk> \<Longrightarrow> mo_reach c s'"

inductive mu_reach :: "net_cfg \<Rightarrow> mmrUnorderedScheduler \<Rightarrow> bool" for c where
  init: "mu_reach c newMMRUnorderedScheduler"
| create: "\<lbrakk>mu_reach c s; x \<in> correct c; x \<notin> set (ms_ids s)\<rbrakk> \<Longrightarrow> mu_reach c (u_getChannels (cfg_n c) (cfg_f c) x s)"
| env: "\<lbrakk>mu_reach c s; ms_env c s s'\<rbrakk> \<Longrightarrow> mu_reach c s'"
| schedule: "\<lbrakk>mu_reach c s; u_scheduleChan draw j s = Some s'\<rbrakk> \<Longrightarrow> mu_reach c s'"
| tick: "\<lbrakk>mu_reach c s; mu_tick s = Some s'\<rbrakk> \<Longrightarrow> mu_reach c s'"
| return: "\<lbrakk>mu_reach c s; mu_return s = Some s'\<rbrakk> \<Longrightarrow> mu_reach c s'"
| decisions: "\<lbrakk>mu_reach c s; u_listenDecisions i s = Some s'\<rbrakk> \<Longrightarrow> mu_reach c s'"
| read: "\<lbrakk>mu_reach c s; read_decision i s = Some s'\<rbrakk> \<Longrightarrow> mu_reach c s'"

section \<open>The instances form a network\<close>

fun ms_op_ok :: "net_cfg \<Rightarrow> (uuid \<Rightarrow> mmr) \<Rightarrow> uuid list \<Rightarrow> mmr_op \<Rightarrow> bool" where
  "ms_op_ok c M xs (OpCall i cmd) = (i < length xs \<and> allowed c sched_coin M (xs ! i) cmd)"
| "ms_op_ok c M xs (OpDecision i d x) = (i < length xs \<and> x \<in> procs c
     \<and> (x \<in> correct c \<longrightarrow> d \<in> set (ch_sent (deliverDecision (M x)))))"

text \<open>What \<^verbatim>\<open>listenDecisions\<close> holds and sends is the decision of its instance, which it has taken.\<close>

definition listen_dec_ok :: "nat \<Rightarrow> mmr \<Rightarrow> dec_pc \<Rightarrow> byte chan \<Rightarrow> bool" where
  "listen_dec_ok n m pc ch \<longleftrightarrow> set (ch_sent ch) \<subseteq> set (ch_sent (deliverDecision m)) \<and> (pc \<noteq> DecWait \<longrightarrow> 0 < ch_taken (deliverDecision m))
     \<and> (case pc of DecSpawn d k l \<Rightarrow> d \<in> set (ch_sent (deliverDecision m)) \<and> l \<le> n
        | DecSend d k l \<Rightarrow> d \<in> set (ch_sent (deliverDecision m)) \<and> l \<le> n | DecFailed \<Rightarrow> False | _ \<Rightarrow> True)"

definition ms_drives :: "net_cfg \<Rightarrow> cm_net \<Rightarrow> 'a mmrOrderedScheduler_scheme \<Rightarrow> bool" where
  "ms_drives c N s \<longleftrightarrow> distinct (ms_ids s) \<and> set (ms_ids s) \<subseteq> correct c \<and> length (ms_listeners s) = length (ms_ids s)
     \<and> map wm (ms_instances s) = map (cnode N) (ms_ids s)
     \<and> (\<forall>p \<in> correct c - set (ms_ids s). cnode N p = newConcurrentMMR (cfg_n c) (cfg_f c))"

definition ms_ok :: "net_cfg \<Rightarrow> mmr_op list \<Rightarrow> 'a mmrOrderedScheduler_scheme \<Rightarrow> bool" where
  "ms_ok c pend s \<longleftrightarrow> (\<exists>N. cm_reach c sched_coin N \<and> ms_drives c N s
     \<and> (\<forall>x \<in> set pend. ms_op_ok c (cm_mmrs N) (ms_ids s) x)
     \<and> (\<forall>i < length (ms_ids s). listen_dec_ok (length (ms_ids s)) (ms_mmr s i) (ls_decision (ms_listeners s ! i)) (wdecision (ms_instances s ! i))))"

lemma ms_op_ok_mono:
  assumes "\<And>q. mmr_grow (M q) (M' q)" and "ms_op_ok c M xs x"
  shows "ms_op_ok c M' (xs @ ys) x"
proof (cases x)
  case (OpCall i cmd)
  then show ?thesis using assms(2) allowed_mono [OF assms(1)] by (auto simp: nth_append)
next
  case (OpDecision i d y)
  have "set (ch_sent (deliverDecision (M y))) \<subseteq> set (ch_sent (deliverDecision (M' y)))" using assms(1) [of y] by (simp add: mmr_grow_def)
  then show ?thesis using OpDecision assms(2) by auto
qed

lemma dec_ok_mono: "mmr_grow m m' \<Longrightarrow> listen_dec_ok n m pc ch \<Longrightarrow> n \<le> n' \<Longrightarrow> listen_dec_ok n' m' pc ch"
  by (auto simp: listen_dec_ok_def mmr_grow_def split: dec_pc.splits)

lemma ms_drivesD:
  assumes "ms_drives c N s"
  shows "length (ms_instances s) = length (ms_ids s)"
    and "i < length (ms_ids s) \<Longrightarrow> wm (ms_instances s ! i) = cnode N (ms_ids s ! i)"
    and "i < length (ms_ids s) \<Longrightarrow> ms_mmr s i = cm_mmrs N (ms_ids s ! i)"
    and "i < length (ms_ids s) \<Longrightarrow> ms_ids s ! i \<in> correct c"
proof -
  have eq: "map wm (ms_instances s) = map (cnode N) (ms_ids s)" using assms by (simp add: ms_drives_def)
  show len: "length (ms_instances s) = length (ms_ids s)" using arg_cong [OF eq, of length] by simp
  show n: "wm (ms_instances s ! i) = cnode N (ms_ids s ! i)" if "i < length (ms_ids s)"
    using arg_cong [OF eq, of "\<lambda>xs. xs ! i"] that len by simp
  show "ms_mmr s i = cm_mmrs N (ms_ids s ! i)" if "i < length (ms_ids s)" using n [OF that] by (simp add: ms_mmr_def cm_mmrs_def)
  show "ms_ids s ! i \<in> correct c" if "i < length (ms_ids s)" using assms that by (auto simp: ms_drives_def)
qed

text \<open>A step of the node of one instance.\<close>

lemma ms_move:
  assumes r: "cm_reach c sched_coin N" and d: "ms_drives c N s" and i: "i < length (ms_ids s)"
    and st: "cm_step c sched_coin N M" and M: "cnode M = (cnode N)(ms_ids s ! i := m')"
  shows "cm_reach c sched_coin M \<and> ms_drives c M (put_wm i m' s) \<and> (\<forall>q. mmr_grow (cm_mmrs N q) (cm_mmrs M q))"
proof (intro conjI allI)
  show "cm_reach c sched_coin M" by (rule cm_reach.step [OF r st])
  show "mmr_grow (cm_mmrs N q) (cm_mmrs M q)" for q
    using cm_moves_grow [OF cm_step_abs [OF st]] cm_reach_abs [OF r] by blast
  have "map wm (ms_instances (put_wm i m' s)) = (map (cnode N) (ms_ids s))[i := m']"
    using d by (simp add: put_wm_def map_update ms_drives_def)
  also have "\<dots> = map (cnode M) (ms_ids s)"
    using d i by (intro nth_equalityI) (auto simp: M ms_drives_def nth_list_update nth_eq_iff_index_eq)
  finally show "ms_drives c M (put_wm i m' s)" using d i ms_drivesD(4) [OF d i] by (auto simp: ms_drives_def put_wm_def M)
qed

lemma ms_step_ok:
  assumes "ms_ok c pend s" and i: "i < length (ms_ids s)"
    and st: "\<And>N. cm_reach c sched_coin N \<Longrightarrow> ms_drives c N s \<Longrightarrow> \<forall>x \<in> set pend. ms_op_ok c (cm_mmrs N) (ms_ids s) x
      \<Longrightarrow> \<exists>M. cm_step c sched_coin N M \<and> cnode M = (cnode N)(ms_ids s ! i := m')"
  shows "ms_ok c pend (put_wm i m' s)"
proof -
  obtain N where N: "cm_reach c sched_coin N" "ms_drives c N s" "\<forall>x \<in> set pend. ms_op_ok c (cm_mmrs N) (ms_ids s) x"
    "\<forall>i < length (ms_ids s). listen_dec_ok (length (ms_ids s)) (ms_mmr s i) (ls_decision (ms_listeners s ! i)) (wdecision (ms_instances s ! i))"
    using assms(1) by (auto simp: ms_ok_def)
  obtain M where "cm_step c sched_coin N M" "cnode M = (cnode N)(ms_ids s ! i := m')" using st [OF N(1-3)] by blast
  from ms_move [OF N(1,2) i this] have M: "cm_reach c sched_coin M" "ms_drives c M (put_wm i m' s)"
    "\<And>q. mmr_grow (cm_mmrs N q) (cm_mmrs M q)" by blast+
  have ids: "ms_ids (put_wm i m' s) = ms_ids s" "ms_listeners (put_wm i m' s) = ms_listeners s" by (simp_all add: put_wm_def)
  have dec: "wdecision (ms_instances (put_wm i m' s) ! k) = wdecision (ms_instances s ! k)" for k
    by (cases "i < length (ms_instances s)") (auto simp: put_wm_def nth_list_update list_update_beyond)
  have grow: "mmr_grow (ms_mmr s k) (ms_mmr (put_wm i m' s) k)" if "k < length (ms_ids s)" for k
    using ms_drivesD(3) [OF N(2) that] ms_drivesD(3) [OF M(2), of k] that M(3) ids by simp
  have "listen_dec_ok (length (ms_ids s)) (ms_mmr (put_wm i m' s) k) (ls_decision (ms_listeners s ! k)) (wdecision (ms_instances s ! k))"
    if "k < length (ms_ids s)" for k by (rule dec_ok_mono [OF grow [OF that] _ order_refl]) (use N(4) that in blast)
  then show ?thesis using M(1,2) N(3) ms_op_ok_mono [OF M(3), where ys = "[]"]
    unfolding ms_ok_def by (intro exI [of _ M]) (simp add: ids dec)
qed

lemma ms_ok_subset: "ms_ok c pend s \<Longrightarrow> set pend' \<subseteq> set pend \<Longrightarrow> ms_ok c pend' s"
  unfolding ms_ok_def by blast

lemma ms_ok_len: "ms_ok c pend s \<Longrightarrow> length (ms_instances s) = length (ms_ids s) \<and> length (ms_listeners s) = length (ms_ids s)"
  using ms_drivesD(1) by (auto simp: ms_ok_def ms_drives_def)

lemma ms_ok_frame:
  fixes s :: "'a mmrOrderedScheduler_scheme" and s' :: "'b mmrOrderedScheduler_scheme"
  assumes "ms_ok c pend s" and "ms_instances s' = ms_instances s" "ms_ids s' = ms_ids s"
    and "map ls_decision (ms_listeners s') = map ls_decision (ms_listeners s)"
  shows "ms_ok c pend s'"
proof -
  have len: "length (ms_listeners s') = length (ms_listeners s)" using arg_cong [OF assms(4), of length] by simp
  have "ls_decision (ms_listeners s' ! i) = ls_decision (ms_listeners s ! i)" if "i < length (ms_listeners s)" for i
    using arg_cong [OF assms(4), of "\<lambda>xs. xs ! i"] that len by simp
  moreover obtain N where "cm_reach c sched_coin N" "ms_drives c N s" "\<forall>x \<in> set pend. ms_op_ok c (cm_mmrs N) (ms_ids s) x"
    "\<forall>i < length (ms_ids s). listen_dec_ok (length (ms_ids s)) (ms_mmr s i) (ls_decision (ms_listeners s ! i)) (wdecision (ms_instances s ! i))"
    using assms(1) by (auto simp: ms_ok_def)
  ultimately show ?thesis using assms(2,3) len unfolding ms_ok_def by (intro exI [of _ N]) (simp add: ms_drives_def ms_mmr_def)
qed

lemma put_step: "cm_step c coin N (put_cm p m' N) \<Longrightarrow> \<exists>M. cm_step c coin N M \<and> cnode M = (cnode N)(p := m')"
  by (intro exI [of _ "put_cm p m' N"]) (simp add: put_cm_def)

section \<open>Every step is one of the network\<close>

lemma make_call_ok:
  assumes "ms_ok c (x # pend) s"
  shows "ms_ok c pend (make_call x s)"
proof (cases x)
  case (OpCall i cmd)
  have i: "i < length (ms_ids s)" using assms OpCall by (auto simp: ms_ok_def)
  have "ms_ok c (x # pend) (put_wm i (cm_schedule cmd (wm (ms_instances s ! i))) s)"
  proof (rule ms_step_ok [OF assms i])
    fix N assume d: "ms_drives c N s" and ops: "\<forall>y \<in> set (x # pend). ms_op_ok c (cm_mmrs N) (ms_ids s) y"
    then have "cm_step c sched_coin N (put_cm (ms_ids s ! i) (cm_schedule cmd (cnode N (ms_ids s ! i))) N)"
      using OpCall by (intro cm_step.call ms_drivesD(4) [OF d i]) simp
    then show "\<exists>M. cm_step c sched_coin N M \<and> cnode M = (cnode N)(ms_ids s ! i := cm_schedule cmd (wm (ms_instances s ! i)))"
      unfolding ms_drivesD(2) [OF d i] by (rule put_step)
  qed
  then show ?thesis using OpCall by (auto intro: ms_ok_subset)
next
  case (OpDecision i v y)
  have i: "i < length (ms_ids s)" using assms OpDecision by (auto simp: ms_ok_def)
  have "ms_ok c (x # pend) (put_wm i (fst (cm_submitDecision v y (wm (ms_instances s ! i)))) s)"
  proof (rule ms_step_ok [OF assms i])
    fix N assume d: "ms_drives c N s" and ops: "\<forall>y \<in> set (x # pend). ms_op_ok c (cm_mmrs N) (ms_ids s) y"
    then have "cm_step c sched_coin N (put_cm (ms_ids s ! i) (fst (cm_submitDecision v y (cnode N (ms_ids s ! i)))) N)"
      using OpDecision by (intro cm_step.decision ms_drivesD(4) [OF d i]) simp_all
    then show "\<exists>M. cm_step c sched_coin N M \<and> cnode M = (cnode N)(ms_ids s ! i := fst (cm_submitDecision v y (wm (ms_instances s ! i))))"
      unfolding ms_drivesD(2) [OF d i] by (rule put_step)
  qed
  then show ?thesis using OpDecision by (auto intro: ms_ok_subset)
qed

text \<open>A call anybody can make.\<close>

lemma free_call_ok:
  assumes "ms_ok c pend s" and "\<And>M. ms_op_ok c M (ms_ids s) x"
  shows "ms_ok c pend (make_call x s)"
proof -
  have "ms_ok c (x # pend) s" using assms unfolding ms_ok_def by auto
  then show ?thesis by (rule make_call_ok)
qed

lemma sched_inner_ok:
  assumes "ms_ok c pend s" and i: "i < length (ms_ids s)" and "cm_goroutine (wm (ms_instances s ! i)) m' \<or> cm_run (wm (ms_instances s ! i)) = Some m'"
  shows "ms_ok c pend (put_wm i m' s)"
proof (rule ms_step_ok [OF assms(1) i])
  fix N assume d: "ms_drives c N s"
  let ?p = "ms_ids s ! i"
  note p = ms_drivesD(4) [OF d i] and n = ms_drivesD(2) [OF d i]
  have "cnode (cm_note ?p b (put_cm ?p m' N)) = (cnode N)(?p := m')" for b
    by (cases b) (auto simp: cm_note_def put_cm_def split: mmr_cmd.splits)
  moreover have "cnode (put_cm ?p m' N) = (cnode N)(?p := m')" by (simp add: put_cm_def)
  ultimately show "\<exists>M. cm_step c sched_coin N M \<and> cnode M = (cnode N)(?p := m')"
    using assms(3) cm_step.goroutine [OF p, of N m' sched_coin] cm_step.run [OF p, of N m' sched_coin] n by (metis (no_types))
qed

lemma close_ok:
  assumes "ms_ok c pend s" and i: "i < length (ms_ids s)"
  shows "ms_ok c pend (put_wm i (cm_close (wm (ms_instances s ! i))) s)"
proof (rule ms_step_ok [OF assms(1) i])
  fix N assume d: "ms_drives c N s"
  show "\<exists>M. cm_step c sched_coin N M \<and> cnode M = (cnode N)(ms_ids s ! i := cm_close (wm (ms_instances s ! i)))"
    unfolding ms_drivesD(2) [OF d i] by (rule put_step [OF cm_step.close [OF ms_drivesD(4) [OF d i]]])
qed

text \<open>A listener starts goroutines for a message that its instance has sent.\<close>

lemma listen_ok:
  assumes "listen ch sel upd spawn i s = Some s'" and "ms_ok c pend s" and "\<And>l. ls_decision (upd Suc l) = ls_decision l"
    and "\<And>m t. ms_instances (spawn m t) = ms_instances t \<and> ms_ids (spawn m t) = ms_ids t \<and> ms_listeners (spawn m t) = ms_listeners t"
    and "\<And>N m. ms_drives c N s \<Longrightarrow> i < length (ms_ids s) \<Longrightarrow> m \<in> set (ch (cm_mmrs N (ms_ids s ! i)))
      \<Longrightarrow> \<forall>x \<in> set (new m). ms_op_ok c (cm_mmrs N) (ms_ids s) x"
  shows "\<exists>m. s' = spawn m (s\<lparr>ms_listeners := (ms_listeners s)[i := upd Suc (ms_listeners s ! i)]\<rparr>) \<and> ms_ok c (new m @ pend) s'"
proof -
  let ?t = "s\<lparr>ms_listeners := (ms_listeners s)[i := upd Suc (ms_listeners s ! i)]\<rparr>"
  let ?m = "ch (ms_mmr s i) ! sel (ms_listeners s ! i)"
  have i: "i < length (ms_listeners s)" "sel (ms_listeners s ! i) < length (ch (ms_mmr s i))" and s': "s' = spawn ?m ?t"
    using assms(1) by (auto simp: listen_def split: if_splits)
  have "\<forall>x \<in> set (new ?m). ms_op_ok c (cm_mmrs N) (ms_ids s) x" if d: "ms_drives c N s" for N
  proof (rule assms(5) [OF d])
    show l: "i < length (ms_ids s)" using i(1) d by (simp add: ms_drives_def)
    show "?m \<in> set (ch (cm_mmrs N (ms_ids s ! i)))" using nth_mem [OF i(2)] by (simp add: ms_drivesD(3) [OF d l])
  qed
  then have ok: "ms_ok c (new ?m @ pend) s" using assms(2) unfolding ms_ok_def by auto
  have "map ls_decision (ms_listeners ?t) = map ls_decision (ms_listeners s)"
    using i(1) assms(3) by (simp add: map_update list_update_same_conv)
  then have "ms_ok c (new ?m @ pend) s'" by (intro ms_ok_frame [OF ok]) (simp_all add: s' assms(4))
  then show ?thesis using s' by blast
qed

lemma spawn_all_sel [simp]:
  "ms_instances (spawn_all g s) = ms_instances s" "ms_ids (spawn_all g s) = ms_ids s" "ms_listeners (spawn_all g s) = ms_listeners s"
  "ms_goroutines (spawn_all g s) = ms_goroutines s @ map g [0..<length (ms_instances s)]"
  by (simp_all add: spawn_all_def)

lemma put_wm_sel [simp]:
  "ms_ids (put_wm i m s) = ms_ids s" "ms_listeners (put_wm i m s) = ms_listeners s" "ms_goroutines (put_wm i m s) = ms_goroutines s"
  by (simp_all add: put_wm_def)

lemma make_call_sel [simp]:
  "ms_ids (make_call x s) = ms_ids s" "ms_listeners (make_call x s) = ms_listeners s" "ms_goroutines (make_call x s) = ms_goroutines s"
  by (cases x; simp)+

text \<open>A message goes to all instances: the three listeners of messages.\<close>

lemma fan_listen_ok:
  assumes "listen ch sel upd (\<lambda>(v, r). spawn_all (\<lambda>k. OpCall k (mk v (ms_ids s ! i) r))) i s = Some s'"
    and "ms_ok c (ms_goroutines s @ pend) s" and "correct c \<subseteq> procs c" and "\<And>l. ls_decision (upd Suc l) = ls_decision l"
    and "\<And>M p x v r. allowed c sched_coin M p (mk v x r) = (x \<in> procs c \<and> (x \<in> correct c \<longrightarrow> (v, r) \<in> set (ch (M x))))"
  shows "ms_ok c (ms_goroutines s' @ pend) s'"
proof -
  let ?new = "\<lambda>(v, r). map (\<lambda>k. OpCall k (mk v (ms_ids s ! i) r)) [0..<length (ms_instances s)]"
  have "\<exists>m. s' = (\<lambda>(v, r). spawn_all (\<lambda>k. OpCall k (mk v (ms_ids s ! i) r))) m
      (s\<lparr>ms_listeners := (ms_listeners s)[i := upd Suc (ms_listeners s ! i)]\<rparr>) \<and> ms_ok c (?new m @ ms_goroutines s @ pend) s'"
  proof (rule listen_ok [OF assms(1,2,4)], goal_cases)
    case (2 N m)
    then show ?case using assms(3,5) ms_drivesD(1,4) [OF 2(1)] by (cases m) auto
  qed (simp split: prod.split)
  then obtain m where m: "s' = (\<lambda>(v, r). spawn_all (\<lambda>k. OpCall k (mk v (ms_ids s ! i) r))) m
      (s\<lparr>ms_listeners := (ms_listeners s)[i := upd Suc (ms_listeners s ! i)]\<rparr>)" "ms_ok c (?new m @ ms_goroutines s @ pend) s'" by blast
  have "ms_goroutines s' = ms_goroutines s @ ?new m" by (cases m) (simp add: m(1))
  then show ?thesis using m(2) by (auto intro: ms_ok_subset)
qed

lemma coin_listen_ok:
  assumes "listenCoinRequests i s = Some s'" and "ms_ok c (ms_goroutines s @ pend) s"
  shows "ms_ok c (ms_goroutines s' @ pend) s'"
proof -
  let ?spawn = "\<lambda>r s. s\<lparr>ms_goroutines := ms_goroutines s @ [OpCall i (CmdCoin (sched_coin r) r)]\<rparr>"
  have "\<exists>m. s' = ?spawn m (s\<lparr>ms_listeners := (ms_listeners s)[i := ls_coins_update Suc (ms_listeners s ! i)]\<rparr>)
      \<and> ms_ok c ([OpCall i (CmdCoin (sched_coin m) m)] @ ms_goroutines s @ pend) s'"
    by (rule listen_ok [OF assms(1) [unfolded listenCoinRequests_def] assms(2)]) auto
  then obtain m where m: "s' = ?spawn m (s\<lparr>ms_listeners := (ms_listeners s)[i := ls_coins_update Suc (ms_listeners s ! i)]\<rparr>)"
    "ms_ok c ([OpCall i (CmdCoin (sched_coin m) m)] @ ms_goroutines s @ pend) s'" by blast
  have "ms_goroutines s' = ms_goroutines s @ [OpCall i (CmdCoin (sched_coin m) m)]" by (simp add: m(1))
  then show ?thesis using m(2) by (auto intro: ms_ok_subset)
qed

lemma ms_env_ok:
  assumes "ms_env c s s'" and ok: "ms_ok c (ms_goroutines s @ pend) s" and cp: "correct c \<subseteq> procs c"
  shows "ms_ok c (ms_goroutines s' @ pend) s'"
  using assms(1)
proof (cases rule: ms_env.cases)
  case (propose i est)
  have "ms_ok c (ms_goroutines s @ pend) (make_call (OpCall i (CmdPropose est)) s)"
    by (rule free_call_ok [OF ok]) (use propose ms_ok_len [OF ok] in simp)
  then show ?thesis using propose by (simp add: cm_propose_def)
next
  case (byzantine i cmd)
  have "ms_ok c (ms_goroutines s @ pend) (make_call (OpCall i cmd) s)"
    by (rule free_call_ok [OF ok]) (use byzantine ms_ok_len [OF ok] in \<open>cases cmd; simp\<close>)
  then show ?thesis using byzantine by simp
next
  case (byz_decision i x d)
  have "ms_ok c (ms_goroutines s @ pend) (make_call (OpDecision i d x) s)"
    by (rule free_call_ok [OF ok]) (use byz_decision ms_ok_len [OF ok] in simp)
  then show ?thesis using byz_decision by simp
next
  case (run i m')
  then show ?thesis using sched_inner_ok [OF ok, of i m'] ms_ok_len [OF ok] by simp
next
  case (goroutine i m')
  then show ?thesis using sched_inner_ok [OF ok, of i m'] ms_ok_len [OF ok] by simp
next
  case (close i)
  then show ?thesis using close_ok [OF ok, of i] ms_ok_len [OF ok] by simp
next
  case (echoes i)
  show ?thesis by (rule fan_listen_ok [where mk = CmdEcho, OF echoes [unfolded listenEchoes_def] ok cp]) auto
next
  case (votes i)
  show ?thesis by (rule fan_listen_ok [where mk = CmdVote, OF votes [unfolded listenVotes_def] ok cp]) auto
next
  case (binds i)
  show ?thesis by (rule fan_listen_ok [where mk = CmdBind, OF binds [unfolded listenBinds_def] ok cp]) auto
next
  case (coins i)
  show ?thesis by (rule coin_listen_ok [OF coins ok])
qed

lemma create_ms_ok:
  assumes "ms_ok c pend s" and "x \<in> correct c" and "x \<notin> set (ms_ids s)"
  shows "ms_ok c pend (start_listeners x (ms_addInstance cap (newConcurrentMMR (cfg_n c) (cfg_f c)) s))"
proof -
  let ?s = "start_listeners x (ms_addInstance cap (newConcurrentMMR (cfg_n c) (cfg_f c)) s)"
  obtain N where N: "cm_reach c sched_coin N" "ms_drives c N s" "\<forall>x \<in> set pend. ms_op_ok c (cm_mmrs N) (ms_ids s) x"
    "\<forall>i < length (ms_ids s). listen_dec_ok (length (ms_ids s)) (ms_mmr s i) (ls_decision (ms_listeners s ! i)) (wdecision (ms_instances s ! i))"
    using assms(1) by (auto simp: ms_ok_def)
  have eq: "ms_ids ?s = ms_ids s @ [x]"
    "ms_listeners ?s = ms_listeners s @ [\<lparr>ls_echoes = 0, ls_votes = 0, ls_binds = 0, ls_coins = 0, ls_decision = DecWait\<rparr>]"
    "ms_instances ?s = ms_instances s @ [\<lparr>wm = newConcurrentMMR (cfg_n c) (cfg_f c), wdecision = make_chan cap\<rparr>]"
    by (simp_all add: start_listeners_def ms_addInstance_def)
  have len: "length (ms_listeners s) = length (ms_ids s)" "length (ms_instances s) = length (ms_ids s)"
    using N(2) ms_drivesD(1) [OF N(2)] by (simp_all add: ms_drives_def)
  have "ms_drives c N ?s" using N(2) assms(2,3) by (auto simp: ms_drives_def eq)
  moreover have "listen_dec_ok (length (ms_ids ?s)) (ms_mmr ?s i) (ls_decision (ms_listeners ?s ! i)) (wdecision (ms_instances ?s ! i))"
    if "i < length (ms_ids ?s)" for i
  proof (cases "i < length (ms_ids s)")
    case True
    then have "listen_dec_ok (length (ms_ids s)) (ms_mmr s i) (ls_decision (ms_listeners s ! i)) (wdecision (ms_instances s ! i))"
      using N(4) by blast
    from dec_ok_mono [OF mmr_grow_refl this, of "length (ms_ids ?s)"] show ?thesis
      using True len by (simp add: eq nth_append ms_mmr_def)
  next
    case False
    then have "i = length (ms_ids s)" using that by (simp add: eq)
    then show ?thesis using len by (simp add: eq nth_append listen_dec_ok_def)
  qed
  ultimately show ?thesis using N(1,3) ms_op_ok_mono [of "cm_mmrs N" "cm_mmrs N" c "ms_ids s" _ "[x]"]
    unfolding ms_ok_def by (intro exI [of _ N]) (simp add: eq(1))
qed

lemma set_dec_ok:
  assumes "ms_ok c pend s" and i: "i < length (ms_ids s)" and "listen_dec_ok (length (ms_ids s)) (ms_mmr s i) pc ch"
  shows "ms_ok c pend (set_dec i pc (put_decision i ch s))"
proof -
  let ?s = "set_dec i pc (put_decision i ch s)"
  have len: "length (ms_listeners s) = length (ms_ids s)" "length (ms_instances s) = length (ms_ids s)"
    using ms_ok_len [OF assms(1)] by simp_all
  have eq: "ms_ids ?s = ms_ids s" "ms_mmr ?s k = ms_mmr s k" "length (ms_listeners ?s) = length (ms_listeners s)"
    "map wm (ms_instances ?s) = map wm (ms_instances s)" for k
    using i len by (auto simp: set_dec_def put_decision_def ms_mmr_def nth_list_update map_update list_update_same_conv)
  have new: "k < length (ms_ids s) \<Longrightarrow> ls_decision (ms_listeners ?s ! k) = (if k = i then pc else ls_decision (ms_listeners s ! k))"
    "k < length (ms_ids s) \<Longrightarrow> wdecision (ms_instances ?s ! k) = (if k = i then ch else wdecision (ms_instances s ! k))" for k
    using len by (simp_all add: set_dec_def put_decision_def nth_list_update)
  show ?thesis using assms(1,3) unfolding ms_ok_def ms_drives_def by (auto simp: eq new)
qed

lemma set_dec_same: "i < length (ms_instances s) \<Longrightarrow> put_decision i (wdecision (ms_instances s ! i)) s = s"
  by (simp add: put_decision_def)

lemma set_dec_only_ok:
  assumes "ms_ok c pend s" and "i < length (ms_ids s)" and "listen_dec_ok (length (ms_ids s)) (ms_mmr s i) pc (wdecision (ms_instances s ! i))"
  shows "ms_ok c pend (set_dec i pc s)"
  using set_dec_ok [OF assms] set_dec_same [of i s] ms_ok_len [OF assms(1)] assms(2) by simp

lemma ms_ok_dec: "ms_ok c pend s \<Longrightarrow> i < length (ms_ids s) \<Longrightarrow>
    listen_dec_ok (length (ms_ids s)) (ms_mmr s i) (ls_decision (ms_listeners s ! i)) (wdecision (ms_instances s ! i))"
  by (auto simp: ms_ok_def)

text \<open>An instance decides once, so a listener that has its decision never gets another.\<close>

lemma second_decision:
  assumes "ms_ok c pend s" and i: "i < length (ms_ids s)" and "ls_decision (ms_listeners s ! i) \<noteq> DecWait"
  shows "mmr_takeDecision (ms_mmr s i) = None"
proof -
  obtain N where N: "cm_reach c sched_coin N" "ms_drives c N s" using assms(1) by (auto simp: ms_ok_def)
  have "length (ch_sent (deliverDecision (mnode (cm_abs N) (ms_ids s ! i)))) \<le> 1"
    using aba_integrity cm_reach_abs [OF N(1)] by blast
  moreover have "0 < ch_taken (deliverDecision (ms_mmr s i))" using ms_ok_dec [OF assms(1) i] assms(3) by (simp add: listen_dec_ok_def)
  ultimately show ?thesis using ms_drivesD(3) [OF N(2) i] by (simp add: mmr_takeDecision_def chan_recv_def cm_abs_def)
qed

lemma take_ok:
  assumes "ms_ok c pend s" and i: "i < length (ms_ids s)" and t: "mmr_takeDecision (ms_mmr s i) = Some (d, m)"
  defines "s1 \<equiv> put_wm i ((wm (ms_instances s ! i))\<lparr>cm_mmr := m\<rparr>) s"
  shows "ms_ok c pend s1" "ms_mmr s1 i = m" "wdecision (ms_instances s1 ! i) = wdecision (ms_instances s ! i)"
    "d \<in> set (ch_sent (deliverDecision m))" "ch_sent (deliverDecision m) = ch_sent (deliverDecision (ms_mmr s i))" "0 < ch_taken (deliverDecision m)"
proof -
  have "cm_inner (wm (ms_instances s ! i)) ((wm (ms_instances s ! i))\<lparr>cm_mmr := m\<rparr>)" using t unfolding cm_inner_def ms_mmr_def by blast
  then show "ms_ok c pend s1" unfolding s1_def by (intro sched_inner_ok [OF assms(1) i]) (simp add: cm_goroutine_def)
  have "i < length (ms_instances s)" using i ms_ok_len [OF assms(1)] by simp
  then show "ms_mmr s1 i = m" "wdecision (ms_instances s1 ! i) = wdecision (ms_instances s ! i)"
    by (simp_all add: s1_def put_wm_def ms_mmr_def)
  show "d \<in> set (ch_sent (deliverDecision m))" "ch_sent (deliverDecision m) = ch_sent (deliverDecision (ms_mmr s i))" "0 < ch_taken (deliverDecision m)"
    using t by (auto simp: mmr_takeDecision_def chan_recv_def split: if_splits)
qed

lemma decision_op_ok:
  assumes "ms_ok c pend s" and i: "i < length (ms_ids s)" and "d \<in> set (ch_sent (deliverDecision (ms_mmr s i)))"
    and "\<forall>k \<in> set ks. k < length (ms_ids s)" and "correct c \<subseteq> procs c"
  shows "ms_ok c (map (\<lambda>k. OpDecision k d (ms_ids s ! i)) ks @ pend) s"
proof -
  obtain N where N: "cm_reach c sched_coin N" "ms_drives c N s" "\<forall>x \<in> set pend. ms_op_ok c (cm_mmrs N) (ms_ids s) x"
    "\<forall>i < length (ms_ids s). listen_dec_ok (length (ms_ids s)) (ms_mmr s i) (ls_decision (ms_listeners s ! i)) (wdecision (ms_instances s ! i))"
    using assms(1) by (auto simp: ms_ok_def)
  have "\<forall>k \<in> set ks. ms_op_ok c (cm_mmrs N) (ms_ids s) (OpDecision k d (ms_ids s ! i))"
    using assms(3-5) ms_drivesD(3,4) [OF N(2) i] by auto
  then show ?thesis using N unfolding ms_ok_def by (intro exI [of _ N]) auto
qed

lemma set_dec_sel [simp]:
  "ms_ids (set_dec i pc s) = ms_ids s" "ms_instances (set_dec i pc s) = ms_instances s" "ms_goroutines (set_dec i pc s) = ms_goroutines s"
  "ms_ids (put_decision i ch s) = ms_ids s" "ms_goroutines (put_decision i ch s) = ms_goroutines s" "ms_mmr (set_dec i pc s) k = ms_mmr s k"
  by (simp_all add: set_dec_def put_decision_def ms_mmr_def)

lemma take_dec_ok:
  assumes "ms_ok c pend s" and i: "i < length (ms_ids s)" and t: "mmr_takeDecision (ms_mmr s i) = Some (d, m)"
    and pc: "\<And>n. n = length (ms_ids s) \<Longrightarrow> pc = DecSpawn d 0 n \<or> pc = DecSend d n n"
  shows "ms_ok c pend (set_dec i pc (put_wm i ((wm (ms_instances s ! i))\<lparr>cm_mmr := m\<rparr>) s))"
proof (rule set_dec_only_ok)
  note tk = take_ok [OF assms(1) i t]
  show "ms_ok c pend (put_wm i ((wm (ms_instances s ! i))\<lparr>cm_mmr := m\<rparr>) s)" by (rule tk(1))
  show "i < length (ms_ids (put_wm i ((wm (ms_instances s ! i))\<lparr>cm_mmr := m\<rparr>) s))" using i by simp
  have "set (ch_sent (wdecision (ms_instances s ! i))) \<subseteq> set (ch_sent (deliverDecision (ms_mmr s i)))"
    using ms_ok_dec [OF assms(1) i] by (simp add: listen_dec_ok_def)
  then show "listen_dec_ok (length (ms_ids (put_wm i ((wm (ms_instances s ! i))\<lparr>cm_mmr := m\<rparr>) s)))
      (ms_mmr (put_wm i ((wm (ms_instances s ! i))\<lparr>cm_mmr := m\<rparr>) s) i) pc
      (wdecision (ms_instances (put_wm i ((wm (ms_instances s ! i))\<lparr>cm_mmr := m\<rparr>) s) ! i))"
    using tk(4-6) pc unfolding tk(2,3) by (auto simp: listen_dec_ok_def)
qed

lemma o_decisions_ok:
  assumes "o_listenDecisions i s = Some s'" and ok: "ms_ok c (ms_goroutines s) s" and cp: "correct c \<subseteq> procs c"
  shows "ms_ok c (ms_goroutines s') s'"
proof -
  have i: "i < length (ms_ids s)" "length (ms_instances s) = length (ms_ids s)"
    using assms(1) ms_ok_len [OF ok] by (auto simp: o_listenDecisions_def split: if_splits)
  note dec = ms_ok_dec [OF ok i(1)]
  show ?thesis
  proof (cases "ls_decision (ms_listeners s ! i)")
    case DecWait
    obtain d m where t: "mmr_takeDecision (ms_mmr s i) = Some (d, m)"
      using assms(1) DecWait by (auto simp: o_listenDecisions_def take_decision_def split: if_splits option.splits)
    define s1 where "s1 = put_wm i ((wm (ms_instances s ! i))\<lparr>cm_mmr := m\<rparr>) s"
    define s2 where "s2 = set_dec i (DecSend d (length (ms_instances s)) (length (ms_instances s))) s1"
    have len: "length (ms_instances s1) = length (ms_instances s)" by (simp add: s1_def put_wm_def)
    have s': "s' = spawn_all (\<lambda>k. OpDecision k d (ms_ids s ! i)) s2"
      using assms(1) DecWait i ms_ok_len [OF ok] len by (simp add: o_listenDecisions_def take_decision_def t s2_def s1_def)
    have ok2: "ms_ok c (ms_goroutines s) s2" unfolding s2_def s1_def by (rule take_dec_ok [OF ok i(1) t]) (simp add: i(2))
    have ids: "ms_ids s2 = ms_ids s" "ms_goroutines s2 = ms_goroutines s" "length (ms_instances s2) = length (ms_ids s)"
      "ms_mmr s2 i = m" using take_ok(2) [OF ok i(1) t] i(2) len by (simp_all add: s2_def s1_def)
    have ok3: "ms_ok c (map (\<lambda>k. OpDecision k d (ms_ids s2 ! i)) [0..<length (ms_ids s2)] @ ms_goroutines s) s2"
      using take_ok(4) [OF ok i(1) t] i(1) by (intro decision_op_ok [OF ok2 _ _ _ cp]) (simp_all add: ids)
    have "ms_ok c (map (\<lambda>k. OpDecision k d (ms_ids s ! i)) [0..<length (ms_ids s)] @ ms_goroutines s) s'"
      by (rule ms_ok_frame [OF ok3 [unfolded ids]]) (simp_all add: s' ids)
    then show ?thesis by (rule ms_ok_subset) (auto simp: s' ids)
  next
    case (DecSend d k l)
    then have "d \<in> set (ch_sent (deliverDecision (ms_mmr s i)))" "s' = set_dec i (DecTwice l) (put_decision i
        (let ch = wdecision (ms_instances s ! i) in ch\<lparr>ch_sent := ch_sent ch @ [d], ch_taken := Suc (ch_taken ch)\<rparr>) s)"
      using assms(1) dec by (auto simp: o_listenDecisions_def listen_dec_ok_def Let_def split: if_splits)
    then show ?thesis using dec DecSend by (auto simp: Let_def listen_dec_ok_def intro!: set_dec_ok [OF ok i(1)])
  qed (use assms(1) i second_decision [OF ok i(1)] in
      \<open>auto simp: o_listenDecisions_def take_decision_def split: if_splits option.splits\<close>)
qed

lemma u_decisions_ok:
  assumes "u_listenDecisions i s = Some s'" and ok: "ms_ok c (ms_goroutines s @ pend) s" and cp: "correct c \<subseteq> procs c"
  shows "ms_ok c (ms_goroutines s' @ pend) s'"
proof -
  have i: "i < length (ms_ids s)" "length (ms_instances s) = length (ms_ids s)"
    using assms(1) ms_ok_len [OF ok] by (auto simp: u_listenDecisions_def split: if_splits)
  note dec = ms_ok_dec [OF ok i(1)]
  show ?thesis
  proof (cases "ls_decision (ms_listeners s ! i)")
    case DecWait
    obtain d m where t: "mmr_takeDecision (ms_mmr s i) = Some (d, m)"
      using assms(1) DecWait by (auto simp: u_listenDecisions_def take_decision_def split: if_splits option.splits)
    have "s' = set_dec i (DecSpawn d 0 (length (ms_ids s))) (put_wm i ((wm (ms_instances s ! i))\<lparr>cm_mmr := m\<rparr>) s)"
      using assms(1) DecWait i ms_ok_len [OF ok] by (simp add: u_listenDecisions_def take_decision_def t) (simp add: put_wm_def)
    then show ?thesis using take_dec_ok [OF ok i(1) t, of "DecSpawn d 0 (length (ms_ids s))"] by simp
  next
    case (DecSpawn d k l)
    then have d: "d \<in> set (ch_sent (deliverDecision (ms_mmr s i)))" "l \<le> length (ms_ids s)" using dec by (auto simp: listen_dec_ok_def)
    show ?thesis
    proof (cases "k < l")
      case True
      let ?s = "s\<lparr>ms_goroutines := ms_goroutines s @ [OpDecision k d (ms_ids s ! i)]\<rparr>"
      have s': "s' = set_dec i (DecSend d k l) ?s" using assms(1) DecSpawn True by (simp add: u_listenDecisions_def split: if_splits)
      have "ms_ok c (map (\<lambda>k. OpDecision k d (ms_ids s ! i)) [k] @ ms_goroutines s @ pend) s"
        by (rule decision_op_ok [OF ok i(1) d(1) _ cp]) (use True d(2) in simp)
      then have "ms_ok c (map (\<lambda>k. OpDecision k d (ms_ids s ! i)) [k] @ ms_goroutines s @ pend) ?s" by (rule ms_ok_frame) simp_all
      then have "ms_ok c (ms_goroutines ?s @ pend) ?s" by (rule ms_ok_subset) auto
      then show ?thesis unfolding s' using dec DecSpawn i by (auto simp: listen_dec_ok_def ms_mmr_def intro!: set_dec_only_ok)
    next
      case False
      then have "s' = set_dec i (DecTwice l) s" using assms(1) DecSpawn by (simp add: u_listenDecisions_def split: if_splits)
      then show ?thesis using dec DecSpawn by (auto simp: listen_dec_ok_def intro!: set_dec_only_ok [OF ok i(1)])
    qed
  next
    case (DecSend d k l)
    then obtain ch where "chan_send d (wdecision (ms_instances s ! i)) = Some ch" "s' = set_dec i (DecSpawn d (Suc k) l) (put_decision i ch s)"
      using assms(1) by (auto simp: u_listenDecisions_def split: if_splits)
    then show ?thesis using dec DecSend by (auto simp: listen_dec_ok_def chan_send_def split: if_splits intro!: set_dec_ok [OF ok i(1)])
  qed (use assms(1) i second_decision [OF ok i(1)] in
      \<open>auto simp: u_listenDecisions_def take_decision_def split: if_splits option.splits\<close>)
qed

lemma ms_ok_init:
  assumes "ms_instances s = []" "ms_ids s = []" "ms_listeners s = []"
  shows "ms_ok c [] s"
proof -
  have "cnode (cm_init c) p = newConcurrentMMR (cfg_n c) (cfg_f c)" for p by (simp add: cm_init_def)
  then show ?thesis using assms cm_reach.init unfolding ms_ok_def ms_drives_def by (intro exI [of _ "cm_init c"]) simp
qed

lemma remove_nth_subset: "j < length xs \<Longrightarrow> set (xs ! j # (take j xs @ drop (Suc j) xs) @ ys) \<subseteq> set (xs @ ys)"
  by (auto dest: in_set_takeD in_set_dropD)

lemma mo_reach_ok:
  assumes "mo_reach c s" and cp: "correct c \<subseteq> procs c"
  shows "ms_ok c (ms_goroutines s) s"
  using assms(1)
proof (induction rule: mo_reach.induct)
  case init
  have e: "ms_goroutines newMMROrderedScheduler = []" by (simp add: newMMROrderedScheduler_def)
  show ?case unfolding e by (rule ms_ok_init) (simp_all add: newMMROrderedScheduler_def)
next
  case (create s x)
  have "ms_goroutines (o_getChannels (cfg_n c) (cfg_f c) x s) = ms_goroutines s"
    by (simp add: o_getChannels_def start_listeners_def ms_addInstance_def)
  then show ?case using create_ms_ok [OF create(4,2,3), of 0] by (simp add: o_getChannels_def)
next
  case (env s s')
  then show ?case using ms_env_ok [OF env(2), of "[]"] cp by simp
next
  case (call s j s')
  have j: "j < length (ms_goroutines s)" "s' = make_call (ms_goroutines s ! j) (drop_goroutine j s)"
    using call(2) by (auto simp: o_call_def split: if_splits)
  have "ms_ok c (ms_goroutines s ! j # ms_goroutines (drop_goroutine j s)) s"
    using ms_ok_subset [OF call(3)] remove_nth_subset [OF j(1), of "[]"] by (simp add: drop_goroutine_def)
  then have "ms_ok c (ms_goroutines s ! j # ms_goroutines (drop_goroutine j s)) (drop_goroutine j s)"
    by (rule ms_ok_frame) (simp_all add: drop_goroutine_def)
  then show ?case using make_call_ok j(2) by fastforce
next
  case (decisions s i s')
  then show ?case using o_decisions_ok cp by blast
qed

lemma ms_env_keeps: "ms_env c s s' \<Longrightarrow> ms_ops s' = ms_ops s \<and> ms_call s' = ms_call s"
  by (cases rule: ms_env.cases)
    (auto simp: put_wm_def listenEchoes_def listenVotes_def listenBinds_def listenCoinRequests_def listen_def spawn_all_def
      split: if_splits prod.splits)

lemma mu_reach_ok:
  assumes "mu_reach c s" and cp: "correct c \<subseteq> procs c"
  shows "ms_ok c (ms_goroutines s @ ms_ops s) s"
  using assms(1)
proof (induction rule: mu_reach.induct)
  case init
  have e: "ms_goroutines newMMRUnorderedScheduler @ ms_ops newMMRUnorderedScheduler = []" by (simp add: newMMRUnorderedScheduler_def)
  show ?case unfolding e by (rule ms_ok_init) (simp_all add: newMMRUnorderedScheduler_def)
next
  case (create s x)
  have "ms_goroutines (u_getChannels (cfg_n c) (cfg_f c) x s) = ms_goroutines s" "ms_ops (u_getChannels (cfg_n c) (cfg_f c) x s) = ms_ops s"
    by (simp_all add: u_getChannels_def start_listeners_def ms_addInstance_def)
  then show ?case using create_ms_ok [OF create(4,2,3), of 1] by (simp add: u_getChannels_def)
next
  case (env s s')
  then show ?case using ms_env_ok [OF env(2,3)] ms_env_keeps [OF env(2)] cp by simp
next
  case (schedule s draw j s')
  let ?x = "ms_goroutines s ! j"
  have j: "j < length (ms_goroutines s)" "s' = (drop_goroutine j s)\<lparr>ms_ops := mmr_reorderOps draw ?x (ms_ops s)\<rparr>"
    using schedule(2) by (auto simp: u_scheduleChan_def split: if_splits)
  have "ms_ok c (?x # (take j (ms_goroutines s) @ drop (Suc j) (ms_goroutines s)) @ ms_ops s) s"
    by (rule ms_ok_subset [OF schedule(3) remove_nth_subset [OF j(1)]])
  then have "ms_ok c (?x # (take j (ms_goroutines s) @ drop (Suc j) (ms_goroutines s)) @ ms_ops s) s'"
    by (rule ms_ok_frame) (simp_all add: j(2) drop_goroutine_def)
  then show ?case by (rule ms_ok_subset) (auto simp: j(2) drop_goroutine_def mmrq.set_put)
next
  case (tick s s')
  then obtain x q where x: "mmr_execOp (ms_ops s) = Some (x, q)" and s': "s' = (make_call x s)\<lparr>ms_ops := q,
      ms_call := (case x of OpCall i cmd \<Rightarrow> Some (i, cmd) | OpDecision i d y \<Rightarrow> None)\<rparr>"
    by (auto simp: mu_tick_def split: if_splits)
  have "ms_ok c (x # ms_goroutines s @ q) s" using ms_ok_subset [OF tick(3)] mmrq.set_pop [OF x] by auto
  from make_call_ok [OF this] have "ms_ok c (ms_goroutines s @ q) s'" by (rule ms_ok_frame) (simp_all add: s')
  then show ?case by (simp add: s')
next
  case (return s s')
  then have "s' = s\<lparr>ms_call := None\<rparr>" by (auto simp: mu_return_def split: option.splits if_splits)
  then show ?case using ms_ok_frame [OF return(3), of s'] by simp
next
  case (decisions s i s')
  have "ms_ops s' = ms_ops s" using decisions(2)
    by (auto simp: u_listenDecisions_def take_decision_def set_dec_def put_decision_def put_wm_def split: if_splits option.splits dec_pc.splits)
  then show ?case using u_decisions_ok [OF decisions(2,3) cp] by simp
next
  case (read s i s')
  obtain d ch where ch: "i < length (ms_instances s)" "chan_recv (wdecision (ms_instances s ! i)) = Some (d, ch)" "s' = put_decision i ch s"
    using read(2) by (auto simp: read_decision_def split: if_splits)
  have l: "i < length (ms_ids s)" "i < length (ms_listeners s)" using ms_ok_len [OF read(3)] ch(1) by simp_all
  have "ch_sent ch = ch_sent (wdecision (ms_instances s ! i))" using ch(2) by (auto simp: chan_recv_def split: if_splits)
  then have "listen_dec_ok (length (ms_ids s)) (ms_mmr s i) (ls_decision (ms_listeners s ! i)) ch"
    using ms_ok_dec [OF read(3) l(1)] by (simp add: listen_dec_ok_def)
  from set_dec_ok [OF read(3) l(1) this] have "ms_ok c (ms_goroutines s @ ms_ops s) s'"
    using l(2) by (simp add: ch(3) set_dec_def put_decision_def)
  then show ?case by (simp add: ch(3) put_decision_def)
qed

section \<open>How far a decision gets\<close>

text \<open>The goroutines that \<^verbatim>\<open>listenDecisions\<close> of the unordered scheduler has started to submit its decision.\<close>

fun dec_spawned :: "dec_pc \<Rightarrow> nat" where
  "dec_spawned (DecSpawn d k l) = k"
| "dec_spawned (DecSend d k l) = Suc k"
| "dec_spawned (DecTwice l) = l"
| "dec_spawned _ = 0"

fun dec_sends :: "dec_pc \<Rightarrow> nat" where
  "dec_sends (DecSend d k l) = k"
| "dec_sends pc = dec_spawned pc"

definition dec_count :: "dec_pc \<Rightarrow> byte chan \<Rightarrow> bool" where
  "dec_count pc ch \<longleftrightarrow> ch_cap ch = 1 \<and> ch_taken ch \<le> length (ch_sent ch) \<and> length (ch_sent ch) \<le> Suc (ch_taken ch)
     \<and> length (ch_sent ch) = dec_sends pc \<and> (case pc of DecSpawn d k l \<Rightarrow> k \<le> l | DecSend d k l \<Rightarrow> k < l | _ \<Rightarrow> True)"

definition dec_ops :: "mmrUnorderedScheduler \<Rightarrow> (nat \<times> byte \<times> uuid) set" where
  "dec_ops s = {(k, d, x). OpDecision k d x \<in> set (ms_goroutines s @ ms_ops s)}"

definition count_ok :: "mmrUnorderedScheduler \<Rightarrow> bool" where
  "count_ok s \<longleftrightarrow> (\<forall>i < length (ms_ids s). dec_count (ls_decision (ms_listeners s ! i)) (wdecision (ms_instances s ! i)))
     \<and> (\<forall>(k, d, x) \<in> dec_ops s. \<exists>i < length (ms_ids s). x = ms_ids s ! i \<and> k < dec_spawned (ls_decision (ms_listeners s ! i)))"

definition dec_view :: "mmrUnorderedScheduler \<Rightarrow> uuid list \<times> dec_pc list \<times> byte chan list" where
  "dec_view s = (ms_ids s, map ls_decision (ms_listeners s), map wdecision (ms_instances s))"

lemma count_ok_view:
  assumes "count_ok s" and "dec_view s' = dec_view s" and "dec_ops s' \<subseteq> dec_ops s"
    and "length (ms_listeners s) = length (ms_ids s)" "length (ms_instances s) = length (ms_ids s)"
  shows "count_ok s'"
proof -
  have v: "ms_ids s' = ms_ids s" "map ls_decision (ms_listeners s') = map ls_decision (ms_listeners s)"
    "map wdecision (ms_instances s') = map wdecision (ms_instances s)" using assms(2) by (simp_all add: dec_view_def)
  have len: "length (ms_listeners s') = length (ms_ids s)" "length (ms_instances s') = length (ms_ids s)"
    using v(2,3) [THEN arg_cong, of length] assms(4,5) by simp_all
  have nth: "ls_decision (ms_listeners s' ! i) = ls_decision (ms_listeners s ! i)" "wdecision (ms_instances s' ! i) = wdecision (ms_instances s ! i)"
    if "i < length (ms_ids s)" for i
    using v(2,3) [THEN arg_cong, of "\<lambda>xs. xs ! i"] that assms(4,5) len by simp_all
  show ?thesis using assms(1,3) unfolding count_ok_def v(1) by (fastforce simp: nth)
qed

lemma put_wm_view: "dec_view (put_wm i m s) = dec_view s"
proof -
  have "map wdecision (ms_instances (put_wm i m s)) = map wdecision (ms_instances s)"
    by (cases "i < length (ms_instances s)") (simp_all add: put_wm_def map_update list_update_same_conv list_update_beyond)
  then show ?thesis by (simp add: dec_view_def)
qed

lemma put_wm_ops [simp]: "ms_ops (put_wm i m s) = ms_ops s" by (simp add: put_wm_def)

lemma make_call_view: "dec_view (make_call x s) = dec_view s" "dec_ops (make_call x s) = dec_ops s"
  by (cases x; simp add: put_wm_view dec_ops_def)+

lemma listen_view:
  assumes "listen ch sel upd spawn i s = Some s'" and "\<And>l. ls_decision (upd Suc l) = ls_decision l"
    and "\<And>m t. dec_view (spawn m t) = dec_view t \<and> dec_ops (spawn m t) = dec_ops t"
  shows "dec_view s' = dec_view s \<and> dec_ops s' = dec_ops s"
proof -
  let ?t = "s\<lparr>ms_listeners := (ms_listeners s)[i := upd Suc (ms_listeners s ! i)]\<rparr>"
  obtain m where i: "i < length (ms_listeners s)" and s': "s' = spawn m ?t" using assms(1) by (auto simp: listen_def split: if_splits)
  have "map ls_decision (ms_listeners ?t) = map ls_decision (ms_listeners s)"
    using i assms(2) by (simp add: map_update list_update_same_conv)
  then show ?thesis using assms(3) by (simp add: s' dec_view_def dec_ops_def)
qed

lemma spawn_call_view:
  "dec_view (spawn_all (\<lambda>k. OpCall k (g k)) t) = dec_view t" "dec_ops (spawn_all (\<lambda>k. OpCall k (g k)) t) = dec_ops t"
  by (auto simp: dec_view_def dec_ops_def spawn_all_def)

lemma ms_env_view:
  assumes "ms_env c s s'"
  shows "dec_view s' = dec_view s \<and> dec_ops s' = dec_ops s"
  using assms
proof (cases rule: ms_env.cases)
  case (echoes i)
  then show ?thesis unfolding listenEchoes_def by (rule listen_view) (auto simp: spawn_call_view split: prod.split)
next
  case (votes i)
  then show ?thesis unfolding listenVotes_def by (rule listen_view) (auto simp: spawn_call_view split: prod.split)
next
  case (binds i)
  then show ?thesis unfolding listenBinds_def by (rule listen_view) (auto simp: spawn_call_view split: prod.split)
next
  case (coins i)
  then show ?thesis unfolding listenCoinRequests_def by (rule listen_view) (auto simp: dec_view_def dec_ops_def)
qed (auto simp: make_call_view simp del: make_call.simps, auto simp: put_wm_view dec_ops_def)

lemma count_set:
  assumes ok: "count_ok s" and len: "length (ms_listeners s) = length (ms_ids s)" "length (ms_instances s) = length (ms_ids s)"
    and i: "i < length (ms_ids s)" and new: "dec_count pc ch" "dec_spawned (ls_decision (ms_listeners s ! i)) \<le> dec_spawned pc"
    and v: "dec_view s' = (ms_ids s, (map ls_decision (ms_listeners s))[i := pc], (map wdecision (ms_instances s))[i := ch])"
    and o: "dec_ops s' \<subseteq> dec_ops s \<union> {(k, d, x). x = ms_ids s ! i \<and> k < dec_spawned pc}"
  shows "count_ok s'"
proof -
  have v': "ms_ids s' = ms_ids s" "map ls_decision (ms_listeners s') = (map ls_decision (ms_listeners s))[i := pc]"
    "map wdecision (ms_instances s') = (map wdecision (ms_instances s))[i := ch]" using v by (simp_all add: dec_view_def)
  have len': "length (ms_listeners s') = length (ms_ids s)" "length (ms_instances s') = length (ms_ids s)"
    using v'(2,3) [THEN arg_cong, of length] len by simp_all
  have nth: "ls_decision (ms_listeners s' ! k) = (if k = i then pc else ls_decision (ms_listeners s ! k))"
    "wdecision (ms_instances s' ! k) = (if k = i then ch else wdecision (ms_instances s ! k))" if "k < length (ms_ids s)" for k
    using v'(2,3) [THEN arg_cong, of "\<lambda>xs. xs ! k"] that len len' by (simp_all add: nth_list_update)
  have "\<exists>j < length (ms_ids s). x = ms_ids s ! j \<and> k < dec_spawned (ls_decision (ms_listeners s' ! j))" if "(k, d, x) \<in> dec_ops s'" for k d x
  proof (cases "(k, d, x) \<in> dec_ops s")
    case True
    then obtain j where "j < length (ms_ids s)" "x = ms_ids s ! j" "k < dec_spawned (ls_decision (ms_listeners s ! j))"
      using ok unfolding count_ok_def by blast
    then show ?thesis using new(2) nth(1) [of j] by (intro exI [of _ j]) auto
  next
    case False
    then have "x = ms_ids s ! i \<and> k < dec_spawned pc" using that o by blast
    then show ?thesis using nth(1) [OF i] i by (intro exI [of _ i]) simp
  qed
  moreover have "\<forall>j < length (ms_ids s). dec_count (ls_decision (ms_listeners s' ! j)) (wdecision (ms_instances s' ! j))"
    using ok new(1) nth unfolding count_ok_def by simp
  ultimately show ?thesis unfolding count_ok_def v'(1) by blast
qed

lemma set_dec_view:
  "dec_view (set_dec i pc s) = (ms_ids s, (map ls_decision (ms_listeners s))[i := pc], map wdecision (ms_instances s))"
  "dec_view (set_dec i pc (put_decision i ch s)) =
     (ms_ids s, (map ls_decision (ms_listeners s))[i := pc], (map wdecision (ms_instances s))[i := ch])"
  "dec_ops (set_dec i pc s) = dec_ops s" "dec_ops (put_decision i ch s) = dec_ops s"
  by (simp_all add: dec_view_def dec_ops_def set_dec_def put_decision_def map_update)

lemma u_decisions_count:
  assumes st: "u_listenDecisions i s = Some s'" and ok: "count_ok s" and net: "ms_ok c pend s"
  shows "count_ok s'"
proof -
  have len: "length (ms_listeners s) = length (ms_ids s)" "length (ms_instances s) = length (ms_ids s)" using ms_ok_len [OF net] by simp_all
  have i: "i < length (ms_ids s)" using st len by (auto simp: u_listenDecisions_def split: if_splits)
  let ?pc = "ls_decision (ms_listeners s ! i)" and ?ch = "wdecision (ms_instances s ! i)"
  have cnt: "dec_count ?pc ?ch" using ok i by (simp add: count_ok_def)
  have same: "(map wdecision (ms_instances s))[i := ?ch] = map wdecision (ms_instances s)" using i len by (simp add: list_update_same_conv)
  note set = count_set [OF ok len i]
  show ?thesis
  proof (cases ?pc)
    case DecWait
    then obtain d m where "s' = set_dec i (DecSpawn d 0 (length (ms_instances s))) (put_wm i ((wm (ms_instances s ! i))\<lparr>cm_mmr := m\<rparr>) s)"
      using st by (auto simp: u_listenDecisions_def take_decision_def put_wm_def split: if_splits option.splits)
    then show ?thesis using cnt DecWait put_wm_view [of i _ s]
      by (intro set [of "DecSpawn d 0 (length (ms_instances s))" ?ch]) (auto simp: set_dec_def map_update same dec_count_def dec_view_def dec_ops_def)
  next
    case (DecSpawn d k l)
    show ?thesis
    proof (cases "k < l")
      case True
      then have "s' = set_dec i (DecSend d k l) (s\<lparr>ms_goroutines := ms_goroutines s @ [OpDecision k d (ms_ids s ! i)]\<rparr>)"
        using st DecSpawn by (simp add: u_listenDecisions_def split: if_splits)
      then show ?thesis using cnt DecSpawn True
        by (intro set [of "DecSend d k l" ?ch]) (auto simp: set_dec_def map_update same dec_count_def dec_view_def dec_ops_def)
    next
      case False
      then have "s' = set_dec i (DecTwice l) s" using st DecSpawn by (simp add: u_listenDecisions_def split: if_splits)
      then show ?thesis using cnt DecSpawn False
        by (intro set [of "DecTwice l" ?ch]) (auto simp: set_dec_view same dec_count_def)
    qed
  next
    case (DecSend d k l)
    then obtain ch where "chan_send d ?ch = Some ch" "s' = set_dec i (DecSpawn d (Suc k) l) (put_decision i ch s)"
      using st by (auto simp: u_listenDecisions_def split: if_splits)
    then show ?thesis using cnt DecSend
      by (intro set [of "DecSpawn d (Suc k) l" ch]) (auto simp: set_dec_def put_decision_def map_update dec_view_def dec_ops_def dec_count_def chan_send_def split: if_splits)
  qed (use st i second_decision [OF net i] in
      \<open>auto simp: u_listenDecisions_def take_decision_def split: if_splits option.splits\<close>)
qed

lemma mu_reach_count:
  assumes "mu_reach c s" and cp: "correct c \<subseteq> procs c"
  shows "count_ok s"
  using assms(1)
proof (induction rule: mu_reach.induct)
  case init
  show ?case by (simp add: count_ok_def dec_ops_def newMMRUnorderedScheduler_def)
next
  case (create s x)
  let ?s = "u_getChannels (cfg_n c) (cfg_f c) x s"
  have len: "length (ms_listeners s) = length (ms_ids s)" "length (ms_instances s) = length (ms_ids s)"
    using ms_ok_len [OF mu_reach_ok [OF create(1) cp]] by simp_all
  have eq: "ms_ids ?s = ms_ids s @ [x]" "dec_ops ?s = dec_ops s"
    "ms_listeners ?s = ms_listeners s @ [\<lparr>ls_echoes = 0, ls_votes = 0, ls_binds = 0, ls_coins = 0, ls_decision = DecWait\<rparr>]"
    "ms_instances ?s = ms_instances s @ [\<lparr>wm = newConcurrentMMR (cfg_n c) (cfg_f c), wdecision = make_chan 1\<rparr>]"
    by (simp_all add: u_getChannels_def start_listeners_def ms_addInstance_def dec_ops_def)
  show ?case using create(4) len unfolding count_ok_def eq by (fastforce simp: nth_append dec_count_def less_Suc_eq)
next
  case (env s s')
  show ?case using ms_env_view [OF env(2)] ms_ok_len [OF mu_reach_ok [OF env(1) cp]] by (intro count_ok_view [OF env(3)]) simp_all
next
  case (schedule s draw j s')
  have "dec_view s' = dec_view s" "dec_ops s' \<subseteq> dec_ops s" using schedule(2)
    by (auto simp: u_scheduleChan_def drop_goroutine_def dec_view_def dec_ops_def mmrq.set_put split: if_splits dest: in_set_takeD in_set_dropD)
  then show ?case using ms_ok_len [OF mu_reach_ok [OF schedule(1) cp]] by (intro count_ok_view [OF schedule(3)]) simp_all
next
  case (tick s s')
  then obtain x q where x: "mmr_execOp (ms_ops s) = Some (x, q)" and s': "s' = (make_call x s)\<lparr>ms_ops := q,
      ms_call := (case x of OpCall i cmd \<Rightarrow> Some (i, cmd) | OpDecision i d y \<Rightarrow> None)\<rparr>"
    by (auto simp: mu_tick_def split: if_splits)
  have "dec_view s' = dec_view s" using make_call_view(1) [of x s] by (simp add: s' dec_view_def)
  moreover have "dec_ops s' \<subseteq> dec_ops s" using mmrq.set_pop [OF x] by (auto simp: s' dec_ops_def)
  ultimately show ?case using ms_ok_len [OF mu_reach_ok [OF tick(1) cp]] by (intro count_ok_view [OF tick(3)]) simp_all
next
  case (return s s')
  then have "s' = s\<lparr>ms_call := None\<rparr>" by (auto simp: mu_return_def split: option.splits if_splits)
  then show ?case using return(3) by (simp add: count_ok_def dec_ops_def)
next
  case (decisions s i s')
  then show ?case using u_decisions_count mu_reach_ok [OF decisions(1) cp] by blast
next
  case (read s i s')
  have len: "length (ms_listeners s) = length (ms_ids s)" "length (ms_instances s) = length (ms_ids s)"
    using ms_ok_len [OF mu_reach_ok [OF read(1) cp]] by simp_all
  obtain d ch where ch: "i < length (ms_instances s)" "chan_recv (wdecision (ms_instances s ! i)) = Some (d, ch)" "s' = put_decision i ch s"
    using read(2) by (auto simp: read_decision_def split: if_splits)
  have i: "i < length (ms_ids s)" using ch(1) len by simp
  have cnt: "dec_count (ls_decision (ms_listeners s ! i)) ch"
    using read(3) i ch(2) by (auto simp: count_ok_def dec_count_def chan_recv_def split: if_splits)
  have "(map ls_decision (ms_listeners s))[i := ls_decision (ms_listeners s ! i)] = map ls_decision (ms_listeners s)"
    using i len by (simp add: list_update_same_conv)
  then have "dec_view s' = (ms_ids s, (map ls_decision (ms_listeners s))[i := ls_decision (ms_listeners s ! i)], (map wdecision (ms_instances s))[i := ch])"
    unfolding ch(3) dec_view_def put_decision_def by (simp add: map_update)
  moreover have "dec_ops s' = dec_ops s" by (simp add: ch(3) set_dec_view)
  ultimately show ?case by (intro count_set [OF read(3) len i cnt order_refl]) blast+
qed

section \<open>Properties\<close>

text \<open>The instances are nodes of a reachable network whose decisions are the ones the test is handed.\<close>

definition ms_network :: "net_cfg \<Rightarrow> aba_net \<Rightarrow> 'a mmrOrderedScheduler_scheme \<Rightarrow> bool" where
  "ms_network c N s \<longleftrightarrow> aba_reach c sched_coin N \<and> set (ms_ids s) \<subseteq> correct c
     \<and> map (\<lambda>w. cm_mmr (wm w)) (ms_instances s) = map (mnode N) (ms_ids s)
     \<and> (\<forall>i < length (ms_ids s). set (ch_sent (wdecision (ms_instances s ! i))) \<subseteq> set (ch_sent (deliverDecision (mnode N (ms_ids s ! i)))))
     \<and> (\<forall>l \<in> set (ms_listeners s). ls_decision l \<noteq> DecFailed)"

lemma ms_ok_network:
  assumes "ms_ok c pend s"
  shows "\<exists>N. ms_network c N s"
proof -
  obtain N where N: "cm_reach c sched_coin N" "ms_drives c N s"
    "\<forall>i < length (ms_ids s). listen_dec_ok (length (ms_ids s)) (ms_mmr s i) (ls_decision (ms_listeners s ! i)) (wdecision (ms_instances s ! i))"
    using assms by (auto simp: ms_ok_def)
  have len: "length (ms_listeners s) = length (ms_ids s)" "length (ms_instances s) = length (ms_ids s)" using ms_ok_len [OF assms] by simp_all
  have m: "ms_mmr s i = mnode (cm_abs N) (ms_ids s ! i)" if "i < length (ms_ids s)" for i
    using ms_drivesD(3) [OF N(2) that] by (simp add: cm_abs_def)
  then have "map (\<lambda>w. cm_mmr (wm w)) (ms_instances s) = map (mnode (cm_abs N)) (ms_ids s)"
    using len by (intro nth_equalityI) (simp_all add: ms_mmr_def)
  moreover have "ls_decision l \<noteq> DecFailed" if l: "l \<in> set (ms_listeners s)" for l
  proof -
    obtain i where "i < length (ms_ids s)" "l = ms_listeners s ! i" using l len unfolding in_set_conv_nth by auto
    then have "listen_dec_ok (length (ms_ids s)) (ms_mmr s i) (ls_decision l) (wdecision (ms_instances s ! i))" using N(3) by blast
    then show ?thesis by (auto simp: listen_dec_ok_def)
  qed
  moreover have "set (ch_sent (wdecision (ms_instances s ! i))) \<subseteq> set (ch_sent (deliverDecision (mnode (cm_abs N) (ms_ids s ! i))))"
    if "i < length (ms_ids s)" for i unfolding m [OF that, symmetric] using N(3) that by (simp add: listen_dec_ok_def)
  ultimately show ?thesis using cm_reach_abs [OF N(1)] N(2) unfolding ms_network_def by (intro exI [of _ "cm_abs N"]) (simp add: ms_drives_def)
qed

text \<open>
  C26. Whatever the random numbers and the interleaving of goroutines, the agreements that a scheduler
  drives are the nodes of a reachable network, with the coin that hashes the digits of the round; the
  decisions handed to the test are decisions of that network, and no listener reports a second one.
\<close>

theorem mmr_schedulers_refine:
  assumes "correct c \<subseteq> procs c" and "mo_reach c s" and "mu_reach c t"
  shows "(\<exists>N. ms_network c N s) \<and> (\<exists>N. ms_network c N t)"
  using ms_ok_network [OF mo_reach_ok [OF assms(2,1)]] ms_ok_network [OF mu_reach_ok [OF assms(3,1)]] by blast

text \<open>
  The decisions that a test of the unordered scheduler is handed, by whatever instances, are equal.
\<close>

theorem mmr_test_decisions_agree:
  assumes "byz_ok c" and "mu_reach c s" and "i < length (ms_ids s)" and "j < length (ms_ids s)"
    and "d \<in> set (ch_sent (wdecision (ms_instances s ! i)))" and "e \<in> set (ch_sent (wdecision (ms_instances s ! j)))"
  shows "d = e"
proof -
  have "correct c \<subseteq> procs c" using assms(1) by (simp add: byz_ok_def)
  then obtain N where N: "ms_network c N s" using ms_ok_network [OF mu_reach_ok [OF assms(2)]] by blast
  then have "ms_ids s ! i \<in> correct c" "ms_ids s ! j \<in> correct c" using assms(3,4) by (auto simp: ms_network_def)
  then show ?thesis using aba_agree [OF assms(1), of sched_coin N "ms_ids s ! j" "ms_ids s ! i" e d] N assms(3-6)
    by (auto simp: ms_network_def)
qed

text \<open>
  Under the unordered scheduler the decision of an instance is submitted to the instance at position
  \<open>k\<close> only after the test has read \<open>k - 1\<close> times from the channel of the decision: with one read, as in the
  tests, the fourth and later instances never hear of it.
\<close>

theorem unordered_decisions_stop:
  assumes "correct c \<subseteq> procs c" and "mu_reach c s" and "i < length (ms_ids s)"
    and "OpDecision k d (ms_ids s ! i) \<in> set (ms_goroutines s @ ms_ops s)"
  shows "k \<le> Suc (ch_taken (wdecision (ms_instances s ! i)))"
proof -
  have cnt: "count_ok s" by (rule mu_reach_count [OF assms(2,1)])
  have "distinct (ms_ids s)" using mu_reach_ok [OF assms(2,1)] by (auto simp: ms_ok_def ms_drives_def)
  moreover have "(k, d, ms_ids s ! i) \<in> dec_ops s" using assms(4) by (simp add: dec_ops_def)
  then obtain j where "j < length (ms_ids s)" "ms_ids s ! i = ms_ids s ! j" "k < dec_spawned (ls_decision (ms_listeners s ! j))"
    using cnt unfolding count_ok_def by blast
  ultimately have "k < dec_spawned (ls_decision (ms_listeners s ! i))" using assms(3) by (simp add: nth_eq_iff_index_eq)
  moreover have "dec_count (ls_decision (ms_listeners s ! i)) (wdecision (ms_instances s ! i))" using cnt assms(3) by (simp add: count_ok_def)
  ultimately show ?thesis by (cases "ls_decision (ms_listeners s ! i)") (auto simp: dec_count_def)
qed

end
