(* ===== verification/MMR_Schedulers_Run.thy ===== *)
theory MMR_Schedulers_Run
  imports MMR_Schedulers MMR_Run
begin

text \<open>
  A complete run of each scheduler of binary agreement with one instance: the calls pass
  through the scheduler and the queue of the instance and the decision is handed to the test.  The instance
  proposes the coin of round 0; the run is evaluated for each value \<open>v\<close> that coin can have.
\<close>

datatype ms_event =
    MPropose byte
  | MTake
  | MRun
  | MInner lock_event
  | MEchoes
  | MVotes
  | MBinds
  | MCoins byte

fun env_apply :: "ms_event \<Rightarrow> 'a mmrOrderedScheduler_scheme \<Rightarrow> 'a mmrOrderedScheduler_scheme option" where
  "env_apply (MPropose est) s = Some (put_wm 0 (cm_propose est (wm (ms_instances s ! 0))) s)"
| "env_apply MTake s = map_option (\<lambda>m. put_wm 0 m s)
     (case cm_take 0 (wm (ms_instances s ! 0)) of None \<Rightarrow> None
      | Some m \<Rightarrow> if ch_taken (deliverDecision (cm_mmr m)) = ch_taken (deliverDecision (ms_mmr s 0)) then Some m else None)"
| "env_apply MRun s = map_option (\<lambda>m. put_wm 0 m s) (cm_run (wm (ms_instances s ! 0)))"
| "env_apply (MInner e) s =
     (if inner_event e
      then (case lock_apply (\<lambda>_. 0) e (ms_mmr s 0) of None \<Rightarrow> None
            | Some m \<Rightarrow> if ch_taken (deliverDecision m) = ch_taken (deliverDecision (ms_mmr s 0))
                then Some (put_wm 0 ((wm (ms_instances s ! 0))\<lparr>cm_mmr := m\<rparr>) s) else None)
      else None)"
| "env_apply MEchoes s = listenEchoes 0 s"
| "env_apply MVotes s = listenVotes 0 s"
| "env_apply MBinds s = listenBinds 0 s"
| "env_apply (MCoins v) s =
     listen (\<lambda>m. if set (coinReq m) \<subseteq> {0} then coinReq m else []) ls_coins ls_coins_update
       (\<lambda>r s. s\<lparr>ms_goroutines := ms_goroutines s @ [OpCall 0 (CmdCoin v r)]\<rparr>) 0 s"

lemma inner_event_cm:
  assumes "inner_event e" and "lock_apply coin e (cm_mmr w) = Some m"
  shows "cm_goroutine w (w\<lparr>cm_mmr := m\<rparr>)"
proof -
  have "cm_inner w (w\<lparr>cm_mmr := m\<rparr>)"
  proof (cases e)
    case (LThread t b r)
    then show ?thesis using lock_thread [of coin t b r "cm_mmr w" m] assms(2) unfolding cm_inner_def by blast
  qed (use assms in \<open>auto simp: inner_event_def cm_inner_def\<close>)
  then show ?thesis by (simp add: cm_goroutine_def)
qed

definition coin_fits :: "ms_event \<Rightarrow> bool" where
  "coin_fits e \<longleftrightarrow> (\<forall>v. e = MCoins v \<longrightarrow> v = sched_coin 0)"

lemma env_apply_step:
  assumes "env_apply e s = Some s'" and i: "0 < length (ms_instances s)" and "coin_fits e"
  shows "ms_env c s s'"
proof (cases e)
  case MTake
  then obtain m where m: "cm_take 0 (wm (ms_instances s ! 0)) = Some m" "s' = put_wm 0 m s"
      "ch_taken (deliverDecision (cm_mmr m)) = ch_taken (deliverDecision (ms_mmr s 0))"
    using assms(1) by (auto split: option.splits if_splits)
  then show ?thesis using ms_env.goroutine [OF i, of m c] unfolding cm_goroutine_def by blast
next
  case (MInner le)
  obtain m where m: "inner_event le" "lock_apply (\<lambda>_. 0) le (cm_mmr (wm (ms_instances s ! 0))) = Some m"
      "s' = put_wm 0 ((wm (ms_instances s ! 0))\<lparr>cm_mmr := m\<rparr>) s"
      "ch_taken (deliverDecision m) = ch_taken (deliverDecision (ms_mmr s 0))"
    using assms(1) MInner by (auto simp: ms_mmr_def split: option.splits if_splits)
  show ?thesis unfolding m(3) by (rule ms_env.goroutine [OF i inner_event_cm [OF m(1,2)]]) (simp add: m(4))
next
  case (MCoins v)
  let ?q = "coinReq (ms_mmr s 0)" and ?n = "ls_coins (ms_listeners s ! 0)"
  have n: "set ?q \<subseteq> {0}" "0 < length (ms_listeners s)" "?n < length ?q"
    using assms(1) MCoins by (auto simp: listen_def split: if_splits)
  then have "?q ! ?n = 0" using nth_mem [OF n(3)] by blast
  then have "env_apply e s = listenCoinRequests 0 s"
    using n assms(3) MCoins by (simp add: listen_def listenCoinRequests_def coin_fits_def)
  then show ?thesis using assms(1) ms_env.coins [of 0 s s' c] by simp
qed (use assms ms_env.intros(1,4,7-9) [of _ s] in auto)

datatype mo_event = OEnv ms_event | OCall | ODecisions

fun mo_apply :: "mo_event \<Rightarrow> mmrOrderedScheduler \<Rightarrow> mmrOrderedScheduler option" where
  "mo_apply (OEnv e) s = (if 0 < length (ms_instances s) then env_apply e s else None)"
| "mo_apply OCall s = o_call 0 s"
| "mo_apply ODecisions s = o_listenDecisions 0 s"

fun mo_exec :: "mo_event list \<Rightarrow> mmrOrderedScheduler \<Rightarrow> mmrOrderedScheduler option" where
  "mo_exec [] s = Some s"
| "mo_exec (e # es) s = (case mo_apply e s of None \<Rightarrow> None | Some s' \<Rightarrow> mo_exec es s')"

datatype mu_event = UEnv ms_event | USchedule nat | UTick | UReturn | UDecisions | URead

fun mu_apply :: "mu_event \<Rightarrow> mmrUnorderedScheduler \<Rightarrow> mmrUnorderedScheduler option" where
  "mu_apply (UEnv e) s = (if 0 < length (ms_instances s) then env_apply e s else None)"
| "mu_apply (USchedule j) s = u_scheduleChan (\<lambda>_. 0) j s"
| "mu_apply UTick s = mu_tick s"
| "mu_apply UReturn s = mu_return s"
| "mu_apply UDecisions s = u_listenDecisions 0 s"
| "mu_apply URead s = read_decision 0 s"

fun mu_exec :: "mu_event list \<Rightarrow> mmrUnorderedScheduler \<Rightarrow> mmrUnorderedScheduler option" where
  "mu_exec [] s = Some s"
| "mu_exec (e # es) s = (case mu_apply e s of None \<Rightarrow> None | Some s' \<Rightarrow> mu_exec es s')"

lemma mo_exec_reach: "mo_exec es s = Some s' \<Longrightarrow> mo_reach c s \<Longrightarrow> \<forall>e. OEnv e \<in> set es \<longrightarrow> coin_fits e \<Longrightarrow> mo_reach c s'"
proof (induction es arbitrary: s)
  case (Cons e es)
  then obtain t where t: "mo_apply e s = Some t" "mo_exec es t = Some s'" by (auto split: option.splits)
  have "mo_reach c t" using t(1) Cons.prems(2,3)
    by (cases e) (auto split: if_splits intro: mo_reach.env env_apply_step mo_reach.call mo_reach.decisions)
  then show ?case using Cons.IH [OF t(2)] Cons.prems(3) by simp
qed simp

lemma mu_exec_reach: "mu_exec es s = Some s' \<Longrightarrow> mu_reach c s \<Longrightarrow> \<forall>e. UEnv e \<in> set es \<longrightarrow> coin_fits e \<Longrightarrow> mu_reach c s'"
proof (induction es arbitrary: s)
  case (Cons e es)
  then obtain t where t: "mu_apply e s = Some t" "mu_exec es t = Some s'" by (auto split: option.splits)
  have "mu_reach c t" using t(1) Cons.prems(2,3)
    by (cases e) (auto split: if_splits intro: mu_reach.env env_apply_step mu_reach.schedule mu_reach.tick mu_reach.return
        mu_reach.decisions mu_reach.read)
  then show ?case using Cons.IH [OF t(2)] Cons.prems(3) by simp
qed simp

section \<open>The runs\<close>

definition one_cfg :: net_cfg where
  "one_cfg = \<lparr>procs = {uid 1}, correct = {uid 1}, cfg_n = 1, cfg_f = 0\<rparr>"

lemma one_cfg_sel [simp]: "procs one_cfg = {uid 1}" "correct one_cfg = {uid 1}" "cfg_n one_cfg = 1" "cfg_f one_cfg = 0" "byz_ok one_cfg"
  by (simp_all add: one_cfg_def byz_ok_def)

text \<open>What the instance does between two calls, and the calls of each scheduler.\<close>

definition phases :: "byte \<Rightarrow> ms_event list list" where
  "phases v =
     [[MPropose v, MTake, MRun, MInner (LListen ReqEcho 0), MEchoes],
      [MInner (LThread TVote False 0), MInner (LThread TVote False 0), MInner (LListen ReqVote 0), MVotes],
      [MInner (LThread TBind False 0), MInner (LThread TBind False 0), MInner (LListen ReqBind 0), MBinds],
      [MInner (LThread TDecide False 0), MInner (LThread TDecide False 0), MInner (LExec 0), MInner (LExec 0),
       MInner (LListen ReqCoin 0), MCoins v]]"

definition mo_events :: "byte \<Rightarrow> mo_event list" where
  "mo_events v = concat (map (\<lambda>ph. map OEnv ph @ [OCall, OEnv MTake, OEnv MRun]) (phases v))
     @ [OEnv (MInner (LReach True)), OEnv (MInner (LReach True)), ODecisions, ODecisions]"

definition mu_events :: "byte \<Rightarrow> mu_event list" where
  "mu_events v = concat (map (\<lambda>ph. map UEnv ph @ [USchedule 0, UTick, UEnv MTake, UEnv MRun, UReturn]) (phases v))
     @ [UEnv (MInner (LReach True)), UEnv (MInner (LReach True)), UDecisions, UDecisions, UDecisions]"

text \<open>
  The same with three instances, of which only the first takes part: the calls for the others stay with
  their goroutines.  The decision is read once, and the third turn of the loop is reached.
\<close>

definition mu3_events :: "byte \<Rightarrow> mu_event list" where
  "mu3_events v = concat (map (\<lambda>(j, ph). map UEnv ph @ [USchedule j, UTick, UEnv MTake, UEnv MRun, UReturn]) (zip [0, 2, 4, 6] (phases v)))
     @ [UEnv (MInner (LReach True)), UEnv (MInner (LReach True)), UDecisions, UDecisions, UDecisions, UDecisions, URead, UDecisions, UDecisions]"

definition mo_run :: "byte \<Rightarrow> mmrOrderedScheduler option" where
  "mo_run v = mo_exec (mo_events v) (o_getChannels 1 0 (uid 1) newMMROrderedScheduler)"

definition mu_run :: "byte \<Rightarrow> mmrUnorderedScheduler option" where
  "mu_run v = mu_exec (mu_events v) (u_getChannels 1 0 (uid 1) newMMRUnorderedScheduler)"

definition three_cfg :: net_cfg where
  "three_cfg = \<lparr>procs = {uid 1, uid 2, uid 3}, correct = {uid 1, uid 2, uid 3}, cfg_n = 1, cfg_f = 0\<rparr>"

definition mu3_run :: "byte \<Rightarrow> mmrUnorderedScheduler option" where
  "mu3_run v = mu_exec (mu3_events v)
     (u_getChannels 1 0 (uid 3) (u_getChannels 1 0 (uid 2) (u_getChannels 1 0 (uid 1) newMMRUnorderedScheduler)))"

lemma mu3_run_ends:
  "map_option (\<lambda>s. (ms_ids s = [uid 1, uid 2, uid 3], OpDecision 2 0 (uid 1) \<in> set (ms_goroutines s), ch_taken (wdecision (ms_instances s ! 0))))
     (mu3_run 0) = Some (True, True, 1)"
  "map_option (\<lambda>s. (ms_ids s = [uid 1, uid 2, uid 3], OpDecision 2 1 (uid 1) \<in> set (ms_goroutines s), ch_taken (wdecision (ms_instances s ! 0))))
     (mu3_run 1) = Some (True, True, 1)"
  by code_simp+

lemma mo_run_ends:
  "map_option (\<lambda>s. (length (ms_ids s), map (\<lambda>w. ch_sent (wdecision w)) (ms_instances s))) (mo_run 0) = Some (1, [[0]])"
  "map_option (\<lambda>s. (length (ms_ids s), map (\<lambda>w. ch_sent (wdecision w)) (ms_instances s))) (mo_run 1) = Some (1, [[1]])"
  by code_simp+

lemma mu_run_ends:
  "map_option (\<lambda>s. (ms_ids s = [uid 1], ms_goroutines s = [OpDecision 0 0 (uid 1)], map (\<lambda>w. ch_sent (wdecision w)) (ms_instances s)))
     (mu_run 0) = Some (True, True, [[0]])"
  "map_option (\<lambda>s. (ms_ids s = [uid 1], ms_goroutines s = [OpDecision 0 1 (uid 1)], map (\<lambda>w. ch_sent (wdecision w)) (ms_instances s)))
     (mu_run 1) = Some (True, True, [[1]])"
  by code_simp+

lemma sched_coin_cases: "sched_coin r = 0 \<or> sched_coin r = 1"
  by (simp add: sched_coin_def)

lemma mo_run_end:
  obtains s where "mo_run (sched_coin 0) = Some s" and "mo_reach one_cfg s"
    and "map (\<lambda>w. ch_sent (wdecision w)) (ms_instances s) = [[sched_coin 0]]"
proof -
  obtain s where s: "mo_run (sched_coin 0) = Some s" "map (\<lambda>w. ch_sent (wdecision w)) (ms_instances s) = [[sched_coin 0]]"
    using mo_run_ends sched_coin_cases [of 0] by auto
  have "mo_reach one_cfg (o_getChannels 1 0 (uid 1) newMMROrderedScheduler)"
    using mo_reach.create [OF mo_reach.init, of "uid 1" one_cfg] by (simp add: newMMROrderedScheduler_def)
  moreover have "\<forall>e. OEnv e \<in> set (mo_events (sched_coin 0)) \<longrightarrow> coin_fits e" by (auto simp: mo_events_def phases_def coin_fits_def)
  ultimately have "mo_reach one_cfg s" by (rule mo_exec_reach [OF s(1) [unfolded mo_run_def]])
  then show ?thesis by (rule that [OF s(1) _ s(2)])
qed

lemma mu_run_end:
  obtains s where "mu_run (sched_coin 0) = Some s" and "mu_reach one_cfg s" and "ms_ids s = [uid 1]"
    and "ms_goroutines s = [OpDecision 0 (sched_coin 0) (uid 1)]" and "map (\<lambda>w. ch_sent (wdecision w)) (ms_instances s) = [[sched_coin 0]]"
proof -
  obtain s where s: "mu_run (sched_coin 0) = Some s" "ms_ids s = [uid 1]" "ms_goroutines s = [OpDecision 0 (sched_coin 0) (uid 1)]"
    "map (\<lambda>w. ch_sent (wdecision w)) (ms_instances s) = [[sched_coin 0]]"
    using mu_run_ends sched_coin_cases [of 0] by auto
  have "mu_reach one_cfg (u_getChannels 1 0 (uid 1) newMMRUnorderedScheduler)"
    using mu_reach.create [OF mu_reach.init, of "uid 1" one_cfg] by (simp add: newMMRUnorderedScheduler_def)
  moreover have "\<forall>e. UEnv e \<in> set (mu_events (sched_coin 0)) \<longrightarrow> coin_fits e" by (auto simp: mu_events_def phases_def coin_fits_def)
  ultimately have "mu_reach one_cfg s" by (rule mu_exec_reach [OF s(1) [unfolded mu_run_def]])
  then show ?thesis by (rule that [OF s(1) _ s(2-4)])
qed

section \<open>Witnesses\<close>

theorem mmr_schedulers_refine_witness:
  "\<exists>s t. mo_run (sched_coin 0) = Some s \<and> map (\<lambda>w. ch_sent (wdecision w)) (ms_instances s) = [[sched_coin 0]]
    \<and> mu_run (sched_coin 0) = Some t \<and> map (\<lambda>w. ch_sent (wdecision w)) (ms_instances t) = [[sched_coin 0]]
    \<and> (\<exists>N. ms_network one_cfg N s) \<and> (\<exists>N. ms_network one_cfg N t)"
proof -
  obtain s where s: "mo_run (sched_coin 0) = Some s" "mo_reach one_cfg s"
    "map (\<lambda>w. ch_sent (wdecision w)) (ms_instances s) = [[sched_coin 0]]" by (rule mo_run_end)
  obtain t where t: "mu_run (sched_coin 0) = Some t" "mu_reach one_cfg t"
    "map (\<lambda>w. ch_sent (wdecision w)) (ms_instances t) = [[sched_coin 0]]" by (rule mu_run_end)
  have "correct one_cfg \<subseteq> procs one_cfg" by simp
  from mmr_schedulers_refine [OF this s(2) t(2)] s(1,3) t(1,3) show ?thesis by (intro exI [of _ s] exI [of _ t] conjI) (assumption | simp)+
qed

theorem mmr_test_decisions_agree_witness:
  "\<exists>s d. mu_run (sched_coin 0) = Some s \<and> ch_sent (wdecision (ms_instances s ! 0)) = [d] \<and> d = sched_coin 0"
proof -
  obtain s where s: "mu_run (sched_coin 0) = Some s" "mu_reach one_cfg s" "ms_ids s = [uid 1]"
    "map (\<lambda>w. ch_sent (wdecision w)) (ms_instances s) = [[sched_coin 0]]" by (rule mu_run_end)
  then have ch: "ch_sent (wdecision (ms_instances s ! 0)) = [sched_coin 0]" by auto
  then obtain d where d: "ch_sent (wdecision (ms_instances s ! 0)) = [d]" by blast
  have "d \<in> set (ch_sent (wdecision (ms_instances s ! 0)))" "sched_coin 0 \<in> set (ch_sent (wdecision (ms_instances s ! 0)))"
    using d ch by (metis list.set_intros(1))+
  then have "d = sched_coin 0" using mmr_test_decisions_agree [OF one_cfg_sel(5) s(2), of 0 0 d "sched_coin 0"] s(3) by simp
  then show ?thesis using s(1) d by blast
qed

theorem unordered_decisions_stop_witness:
  "\<exists>s. mu3_run (sched_coin 0) = Some s \<and> OpDecision 2 (sched_coin 0) (uid 1) \<in> set (ms_goroutines s)
    \<and> ch_taken (wdecision (ms_instances s ! 0)) = 1 \<and> 2 \<le> Suc (ch_taken (wdecision (ms_instances s ! 0)))"
proof -
  obtain s where s: "mu3_run (sched_coin 0) = Some s" "ms_ids s = [uid 1, uid 2, uid 3]"
    "OpDecision 2 (sched_coin 0) (uid 1) \<in> set (ms_goroutines s)" "ch_taken (wdecision (ms_instances s ! 0)) = 1"
    using mu3_run_ends sched_coin_cases [of 0] by auto
  have "mu_reach three_cfg (u_getChannels 1 0 (uid 3) (u_getChannels 1 0 (uid 2) (u_getChannels 1 0 (uid 1) newMMRUnorderedScheduler)))"
    using mu_reach.create [OF mu_reach.create [OF mu_reach.create [OF mu_reach.init]], of "uid 1" three_cfg "uid 2" "uid 3"]
    by (simp add: three_cfg_def uid_eq_iff newMMRUnorderedScheduler_def u_getChannels_def start_listeners_def ms_addInstance_def)
  moreover have "\<forall>e. UEnv e \<in> set (mu3_events (sched_coin 0)) \<longrightarrow> coin_fits e" by (auto simp: mu3_events_def phases_def coin_fits_def)
  ultimately have "mu_reach three_cfg s" by (rule mu_exec_reach [OF s(1) [unfolded mu3_run_def]])
  moreover have "correct three_cfg \<subseteq> procs three_cfg" by (simp add: three_cfg_def)
  ultimately show ?thesis using unordered_decisions_stop [of three_cfg s 0 2 "sched_coin 0"] s by simp
qed

end
