(* ===== verification/Round_Scheduler.thy ===== *)
theory Round_Scheduler
  imports MMR_Node
begin

text \<open>
  The scheduler that drives single rounds in the tests, \<^verbatim>\<open>asynchronousBinaryAgreement/roundSchedullers.go\<close>.  For
  every round three goroutines take one echo, one vote and one bind message and hand it to all rounds
  through a channel of commands; one invoker runs them, one at a time.  The channel is unbuffered, so
  handing over a command and running it is one step.  The rounds it drives form a reachable network of
  the abstract specification \<open>BCA_Spec\<close>.
\<close>

section \<open>State\<close>

datatype rmsg_kind = REcho | RVote | RBind

text \<open>\<open>RfLoop v k l\<close>: the goroutine has taken \<open>v\<close> and is at the round \<open>k\<close> of the \<open>l\<close> rounds it loops over.\<close>

datatype rfan_pc = RfWait | RfLoop byte nat nat

record rfan =
  rf_kind :: rmsg_kind
  rf_of :: nat
  rf_pc :: rfan_pc

record orderedRoundScheduler =
  rs_rounds :: "mmrRound list"
  rs_ids :: "uuid list"
  rs_fans :: "rfan list"
  rs_closeChan :: "unit chan"
  rs_invoking :: bool

definition newOrderedRoundScheduler :: orderedRoundScheduler where
  "newOrderedRoundScheduler = \<lparr>rs_rounds = [], rs_ids = [], rs_fans = [], rs_closeChan = make_chan 1, rs_invoking = True\<rparr>"

section \<open>Operations\<close>

definition addRound :: "uuid \<Rightarrow> mmrRound \<Rightarrow> orderedRoundScheduler \<Rightarrow> orderedRoundScheduler" where
  "addRound sender r s = s\<lparr>rs_rounds := rs_rounds s @ [r], rs_ids := rs_ids s @ [sender],
     rs_fans := rs_fans s @ map (\<lambda>k. \<lparr>rf_kind = k, rf_of = length (rs_rounds s), rf_pc = RfWait\<rparr>) [REcho, RVote, RBind]\<rparr>"

fun take_kind :: "rmsg_kind \<Rightarrow> bca \<Rightarrow> (byte \<times> bca) option" where
  "take_kind REcho = takeEcho"
| "take_kind RVote = takeVote"
| "take_kind RBind = takeBind"

fun submit_kind :: "rmsg_kind \<Rightarrow> byte \<Rightarrow> uuid \<Rightarrow> bca \<Rightarrow> bca \<times> bca_error outcome" where
  "submit_kind REcho = bca_submitEcho"
| "submit_kind RVote = bca_submitVote"
| "submit_kind RBind = bca_submitBind"

definition put_bca :: "nat \<Rightarrow> bca \<Rightarrow> orderedRoundScheduler \<Rightarrow> orderedRoundScheduler" where
  "put_bca i b s = s\<lparr>rs_rounds := (rs_rounds s)[i := (rs_rounds s ! i)\<lparr>round_bca := b\<rparr>]\<rparr>"

text \<open>\<^verbatim>\<open>processEchoes\<close>, \<^verbatim>\<open>processVotes\<close>, \<^verbatim>\<open>processBinds\<close>: the receive before the loop.\<close>

definition process_take :: "nat \<Rightarrow> orderedRoundScheduler \<Rightarrow> orderedRoundScheduler option" where
  "process_take j s =
     (if j < length (rs_fans s) \<and> rf_pc (rs_fans s ! j) = RfWait
      then map_option (\<lambda>(v, b). (put_bca (rf_of (rs_fans s ! j)) b s)
             \<lparr>rs_fans := (rs_fans s)[j := (rs_fans s ! j)\<lparr>rf_pc := RfLoop v 0 (length (rs_rounds s))\<rparr>]\<rparr>)
             (take_kind (rf_kind (rs_fans s ! j)) (round_bca (rs_rounds s ! rf_of (rs_fans s ! j))))
      else None)"

text \<open>The invoker takes the command of goroutine \<open>j\<close> and runs it; a call that never returns stops it.\<close>

definition rs_invoke :: "nat \<Rightarrow> orderedRoundScheduler \<Rightarrow> orderedRoundScheduler option" where
  "rs_invoke j s =
     (if rs_invoking s \<and> j < length (rs_fans s)
      then (case rf_pc (rs_fans s ! j) of
              RfWait \<Rightarrow> None
            | RfLoop v k l \<Rightarrow>
                (if k < l
                 then (case submit_kind (rf_kind (rs_fans s ! j)) v (rs_ids s ! rf_of (rs_fans s ! j)) (round_bca (rs_rounds s ! k)) of
                         (b, res) \<Rightarrow> Some ((put_bca k b s)\<lparr>rs_fans := (rs_fans s)[j := (rs_fans s ! j)\<lparr>rf_pc := RfLoop v (Suc k) l\<rparr>],
                            rs_invoking := (res \<noteq> GoBlocked)\<rparr>))
                 else None))
      else None)"

definition rs_invoker_close :: "orderedRoundScheduler \<Rightarrow> orderedRoundScheduler option" where
  "rs_invoker_close s =
     (if rs_invoking s then recv_then rs_closeChan rs_closeChan_update (\<lambda>_. rs_invoking_update (\<lambda>_. False)) s else None)"

definition rs_close :: "orderedRoundScheduler \<Rightarrow> orderedRoundScheduler \<times> bca_error outcome" where
  "rs_close s = chan_put rs_closeChan rs_closeChan_update () s"

section \<open>Runs\<close>

text \<open>
  The test adds new rounds, proposes, submits messages of Byzantine nodes and coins, and reads requests
  for coins; the goroutines of the rounds take steps.
\<close>

inductive rs_step :: "net_cfg \<Rightarrow> orderedRoundScheduler \<Rightarrow> orderedRoundScheduler \<Rightarrow> bool" for c where
  add: "\<lbrakk>x \<in> correct c; x \<notin> set (rs_ids s); r = newFirstRound (cfg_n c) (cfg_f c) \<or> r = newRound (cfg_n c) (cfg_f c)\<rbrakk>
     \<Longrightarrow> rs_step c s (addRound x r s)"
| propose: "\<lbrakk>i < length (rs_rounds s); isInputValid est; bca_propose est coin (round_bca (rs_rounds s ! i)) = (b, res)\<rbrakk>
     \<Longrightarrow> rs_step c s (put_bca i b s)"
| byzantine: "\<lbrakk>i < length (rs_rounds s); x \<in> procs c - correct c; submit_kind k v x (round_bca (rs_rounds s ! i)) = (b, res)\<rbrakk>
     \<Longrightarrow> rs_step c s (put_bca i b s)"
| run: "\<lbrakk>i < length (rs_rounds s); bca_goroutine (round_bca (rs_rounds s ! i)) b\<rbrakk> \<Longrightarrow> rs_step c s (put_bca i b s)"
| exec: "\<lbrakk>i < length (rs_rounds s); execRound (rs_rounds s ! i) = Some r\<rbrakk> \<Longrightarrow> rs_step c s (s\<lparr>rs_rounds := (rs_rounds s)[i := r]\<rparr>)"
| coin: "\<lbrakk>i < length (rs_rounds s); round_submitCoin v (rs_rounds s ! i) = ((r, t), res)\<rbrakk>
     \<Longrightarrow> rs_step c s (s\<lparr>rs_rounds := (rs_rounds s)[i := r]\<rparr>)"
| request: "\<lbrakk>i < length (rs_rounds s); chan_recv (coinReqChan (rs_rounds s ! i)) = Some (u, ch)\<rbrakk>
     \<Longrightarrow> rs_step c s (s\<lparr>rs_rounds := (rs_rounds s)[i := (rs_rounds s ! i)\<lparr>coinReqChan := ch\<rparr>]\<rparr>)"
| take: "process_take j s = Some s' \<Longrightarrow> rs_step c s s'"
| invoke: "rs_invoke j s = Some s' \<Longrightarrow> rs_step c s s'"
| close: "rs_step c s (fst (rs_close s))"
| closed: "rs_invoker_close s = Some s' \<Longrightarrow> rs_step c s s'"

inductive rs_reach :: "net_cfg \<Rightarrow> orderedRoundScheduler \<Rightarrow> bool" for c where
  init: "rs_reach c newOrderedRoundScheduler"
| step: "\<lbrakk>rs_reach c s; rs_step c s s'\<rbrakk> \<Longrightarrow> rs_reach c s'"

section \<open>The rounds form a network\<close>

fun sent_kind :: "rmsg_kind \<Rightarrow> bca_view \<Rightarrow> byte set" where
  "sent_kind REcho w = v_sentEcho w"
| "sent_kind RVote w = v_sentVote w"
| "sent_kind RBind w = v_sentBind w"

definition rf_ok :: "(uuid \<Rightarrow> bca_view) \<Rightarrow> uuid list \<Rightarrow> rfan \<Rightarrow> bool" where
  "rf_ok V xs fn \<longleftrightarrow> rf_of fn < length xs
     \<and> (case rf_pc fn of RfWait \<Rightarrow> True | RfLoop v k l \<Rightarrow> l \<le> length xs \<and> v \<in> sent_kind (rf_kind fn) (V (xs ! rf_of fn)))"

text \<open>\<open>P i\<close> and \<open>F i\<close> are what was proposed in round \<open>i\<close>, and proposed with the previous coin.\<close>

definition rs_drives :: "net_cfg \<Rightarrow> (uuid \<Rightarrow> bca_view) \<Rightarrow> (nat \<Rightarrow> byte set) \<Rightarrow> (nat \<Rightarrow> byte set) \<Rightarrow> uuid list \<Rightarrow> bca list \<Rightarrow> bool" where
  "rs_drives c V P F xs bs \<longleftrightarrow> bca_vreach c V \<and> distinct xs \<and> set xs \<subseteq> correct c \<and> length bs = length xs
     \<and> (\<forall>i < length xs. bca_inv c (P i) (F i) (bs ! i) \<and> V (xs ! i) = bca_view (P i) (F i) (bs ! i))
     \<and> (\<forall>p \<in> correct c - set xs. V p = init_view)"

abbreviation rs_bcas :: "orderedRoundScheduler \<Rightarrow> bca list" where
  "rs_bcas s \<equiv> map round_bca (rs_rounds s)"

definition rs_ok :: "net_cfg \<Rightarrow> orderedRoundScheduler \<Rightarrow> bool" where
  "rs_ok c s \<longleftrightarrow> (\<exists>V P F. rs_drives c V P F (rs_ids s) (rs_bcas s) \<and> (\<forall>fn \<in> set (rs_fans s). rf_ok V (rs_ids s) fn))"

lemma sent_kind_mono: "view_le w w' \<Longrightarrow> v \<in> sent_kind k w \<Longrightarrow> v \<in> sent_kind k w'"
  by (cases k) (auto simp: view_le_def)

lemma rf_ok_mono: "(\<And>p. view_le (V p) (W p)) \<Longrightarrow> rf_ok V xs fn \<Longrightarrow> rf_ok W xs fn"
  unfolding rf_ok_def by (auto split: rfan_pc.splits intro: sent_kind_mono)

lemma rs_drives_len: "rs_drives c V P F xs (rs_bcas s) \<Longrightarrow> length (rs_rounds s) = length xs"
  by (simp add: rs_drives_def)

text \<open>A round makes a step of the abstract network.\<close>

lemma drives_move:
  assumes d: "rs_drives c V P F xs bs" and i: "i < length xs" and st: "bca_vstep c V (V(xs ! i := bca_view P' F' b))"
    and inv: "bca_inv c P' F' b"
  shows "rs_drives c (V(xs ! i := bca_view P' F' b)) (P(i := P')) (F(i := F')) xs (bs[i := b])"
proof -
  have "xs ! k = xs ! i \<longleftrightarrow> k = i" if "k < length xs" for k using d i that by (simp add: rs_drives_def nth_eq_iff_index_eq)
  then show ?thesis using d i inv bca_vreach.step [OF _ st] by (auto simp: rs_drives_def nth_list_update)
qed

lemma drives_quiet:
  assumes d: "rs_drives c V P F xs bs" and i: "i < length xs" and q: "quiet (bs ! i) b"
  shows "rs_drives c V P F xs (bs[i := b])"
  using d i q by (auto simp: rs_drives_def quiet_def nth_list_update)

lemma execRound_quiet: "execRound r = Some r' \<Longrightarrow> quiet (round_bca r) (round_bca r')"
  by (cases "exec_pc r") (auto simp: execRound_def send_then_def recv_then_def split: option.splits dest: takes_quiet(1))

lemma execRoundN_quiet: "quiet (round_bca r) (round_bca (execRoundN k r))"
proof (induction k arbitrary: r)
  case (Suc k)
  then show ?case by (auto split: option.splits intro: quiet_trans execRound_quiet)
qed simp

lemma round_submitCoin_quiet: "round_submitCoin v r = ((r', t), res) \<Longrightarrow> quiet (round_bca r) (round_bca r')"
  using execRoundN_quiet [of "r\<lparr>coinReceiveChan := ch\<rparr>" 4 for ch]
  by (auto simp: round_submitCoin_def Let_def split: if_splits option.splits)

lemma take_kind_quiet: "take_kind k b = Some (v, b') \<Longrightarrow> quiet b b'"
  by (cases k) (auto dest: takes_quiet)

lemma take_kind_sent: "take_kind k b = Some (v, b') \<Longrightarrow> v \<in> sent_kind k (bca_view P F b)"
  by (cases k) (auto dest: takes_sent)

lemma submit_kind_step:
  assumes "byz_ok c" and "p \<in> correct c" and "V p = bca_view P F b" and "bca_inv c P F b" and "heard c V (V p)"
    and "x \<in> procs c" and "submit_kind k v x b = (b', res)" and "x \<in> correct c \<longrightarrow> v \<in> sent_kind k (V x)"
  shows "bca_vstep c V (V(p := bca_view P F b'))" and "bca_inv c P F b'"
proof -
  show "bca_vstep c V (V(p := bca_view P F b'))"
    using rb.submitEcho_vstep [OF assms(1-6)] rb.submitVote_vstep [OF assms(1-6)] rb.submitBind_vstep [OF assms(1-6)] assms(7,8)
    by (cases k) simp_all
  show "bca_inv c P F b'"
    using rb.submitEcho_inv [OF assms(1,4,6)] rb.submitVote_inv [OF assms(1,4,6)] rb.submitBind_inv [OF assms(1,4,6)] assms(7)
    by (cases k) simp_all
qed

text \<open>A step of the abstract network by round \<open>i\<close> keeps the invariant; so does a change its view does not show.\<close>

lemma rs_move:
  assumes d: "rs_drives c V P F (rs_ids s) (rs_bcas s)" and fans: "\<forall>fn \<in> set (rs_fans s). rf_ok V (rs_ids s) fn" and i: "i < length (rs_ids s)"
    and st: "bca_vstep c V (V(rs_ids s ! i := bca_view P' F' b))" and inv: "bca_inv c P' F' b"
    and eq: "rs_ids s' = rs_ids s" "rs_bcas s' = (rs_bcas s)[i := b]" "\<forall>fn \<in> set (rs_fans s'). rf_ok V (rs_ids s) fn"
  shows "rs_ok c s'"
proof -
  have "\<forall>fn \<in> set (rs_fans s'). rf_ok (V(rs_ids s ! i := bca_view P' F' b)) (rs_ids s) fn"
    using eq(3) rf_ok_mono [of V "V(rs_ids s ! i := bca_view P' F' b)"] vstep_le [OF st] by blast
  then show ?thesis using drives_move [OF d i st inv] unfolding rs_ok_def eq(1,2) by blast
qed

lemma rs_quiet:
  assumes d: "rs_drives c V P F (rs_ids s) (rs_bcas s)" and i: "i < length (rs_ids s)" and q: "quiet (rs_bcas s ! i) b"
    and eq: "rs_ids s' = rs_ids s" "rs_bcas s' = (rs_bcas s)[i := b]" "\<forall>fn \<in> set (rs_fans s'). rf_ok V (rs_ids s) fn"
  shows "rs_ok c s'"
  using drives_quiet [OF d i q] eq unfolding rs_ok_def by auto

lemma rs_ok_frame: "rs_ok c s \<Longrightarrow> rs_rounds s' = rs_rounds s \<Longrightarrow> rs_ids s' = rs_ids s \<Longrightarrow> rs_fans s' = rs_fans s \<Longrightarrow> rs_ok c s'"
  by (simp add: rs_ok_def)

lemma put_bca_sel [simp]:
  "rs_ids (put_bca i b s) = rs_ids s" "rs_fans (put_bca i b s) = rs_fans s" "rs_bcas (put_bca i b s) = (rs_bcas s)[i := b]"
  by (simp_all add: put_bca_def map_update)

lemma rf_update:
  assumes "\<forall>fn \<in> set fs. rf_ok V xs fn" and "j < length fs" and "rf_ok V xs ((fs ! j)\<lparr>rf_pc := pc\<rparr>)"
  shows "\<forall>fn \<in> set (fs[j := (fs ! j)\<lparr>rf_pc := pc\<rparr>]). rf_ok V xs fn"
  using assms set_update_subset_insert [of fs j "(fs ! j)\<lparr>rf_pc := pc\<rparr>"] by blast

lemma rs_step_ok:
  assumes "rs_step c s s'" and ok: "byz_ok c" and "rs_ok c s"
  shows "rs_ok c s'"
proof -
  obtain V P F where d: "rs_drives c V P F (rs_ids s) (rs_bcas s)" and fans: "\<forall>fn \<in> set (rs_fans s). rf_ok V (rs_ids s) fn"
    using assms(3) by (auto simp: rs_ok_def)
  have len: "length (rs_rounds s) = length (rs_ids s)" using rs_drives_len [OF d] .
  have at: "bca_inv c (P i) (F i) (round_bca (rs_rounds s ! i))" "V (rs_ids s ! i) = bca_view (P i) (F i) (round_bca (rs_rounds s ! i))"
    "rs_ids s ! i \<in> correct c" if "i < length (rs_ids s)" for i
    using d that len by (auto simp: rs_drives_def)
  have h: "heard c V (V p)" for p using vreach_evidence [OF _ ok] d by (auto simp: rs_drives_def)
  from assms(1) show ?thesis
  proof (cases rule: rs_step.cases)
    case (add x r)
    have r: "bca_fresh c (round_bca r)" using add(4) by (auto simp: newFirstRound_def newRound_def)
    let ?n = "length (rs_ids s)"
    have "rs_drives c V (P(?n := {})) (F(?n := {})) (rs_ids s @ [x]) (rs_bcas s @ [round_bca r])"
      using d add(2,3) rb.fresh_inv [OF ok r] rb.fresh_view [OF r] unfolding rs_drives_def by (auto simp: nth_append less_Suc_eq)
    moreover have "\<forall>fn \<in> set (rs_fans s'). rf_ok V (rs_ids s @ [x]) fn"
      using fans len add(1) by (auto simp: addRound_def rf_ok_def nth_append split: rfan_pc.splits)
    ultimately show ?thesis unfolding rs_ok_def using add(1) by (auto simp: addRound_def)
  next
    case (propose i est coin b res)
    have i: "i < length (rs_ids s)" using propose(2) len by simp
    show ?thesis
    proof (cases "\<exists>e. res = GoErr e")
      case True
      then have "b = round_bca (rs_rounds s ! i)" using rb.propose_rejected propose(4) by blast
      then show ?thesis using rs_quiet [OF d i, of b s'] propose(1) fans i len by simp
    next
      case False
      show ?thesis
        by (rule rs_move [OF d fans i rb.propose_vstep [OF ok at(3) [OF i] at(2) [OF i] at(1) [OF i] h propose(4) False propose(3)]
              rb.propose_inv [OF ok at(1) [OF i] propose(3,4) False]])
          (simp_all add: propose(1) fans)
    qed
  next
    case (byzantine i x k v b res)
    have i: "i < length (rs_ids s)" using byzantine(2) len by simp
    have x: "x \<in> procs c" "x \<in> correct c \<longrightarrow> v \<in> sent_kind k (V x)" using byzantine(3) by auto
    note st = submit_kind_step [OF ok at(3) [OF i] at(2) [OF i] at(1) [OF i] h x(1) byzantine(4) x(2)]
    show ?thesis by (rule rs_move [OF d fans i st]) (simp_all add: byzantine(1) fans)
  next
    case (run i b)
    have i: "i < length (rs_ids s)" using run(2) len by simp
    show ?thesis
      by (rule rs_move [OF d fans i rb.run_vstep [OF ok at(3) [OF i] at(2) [OF i] at(1) [OF i] h run(3)] rb.run_inv [OF ok at(1) [OF i] run(3)]])
        (simp_all add: run(1) fans)
  next
    case (exec i r)
    have i: "i < length (rs_ids s)" using exec(2) len by simp
    show ?thesis by (rule rs_quiet [OF d i, of "round_bca r"]) (use execRound_quiet [OF exec(3)] i len in \<open>simp_all add: exec(1) fans map_update\<close>)
  next
    case (coin i v r t res)
    have i: "i < length (rs_ids s)" using coin(2) len by simp
    show ?thesis by (rule rs_quiet [OF d i, of "round_bca r"]) (use round_submitCoin_quiet [OF coin(3)] i len in \<open>simp_all add: coin(1) fans map_update\<close>)
  next
    case (request i u ch)
    have i: "i < length (rs_ids s)" using request(2) len by simp
    show ?thesis by (rule rs_quiet [OF d i, of "round_bca (rs_rounds s ! i)"]) (use i len in \<open>simp_all add: request(1) fans map_update\<close>)
  next
    case (take j)
    let ?fn = "rs_fans s ! j"
    obtain v b where t: "j < length (rs_fans s)" "take_kind (rf_kind ?fn) (round_bca (rs_rounds s ! rf_of ?fn)) = Some (v, b)"
      and s': "s' = (put_bca (rf_of ?fn) b s)\<lparr>rs_fans := (rs_fans s)[j := ?fn\<lparr>rf_pc := RfLoop v 0 (length (rs_rounds s))\<rparr>]\<rparr>"
      using take by (auto simp: process_take_def split: if_splits)
    have i: "rf_of ?fn < length (rs_ids s)" using fans t(1) by (simp add: rf_ok_def)
    have "rf_ok V (rs_ids s) (?fn\<lparr>rf_pc := RfLoop v 0 (length (rs_rounds s))\<rparr>)"
      using take_kind_sent [OF t(2)] i at(2) [OF i] len by (simp add: rf_ok_def)
    from rf_update [OF fans t(1) this] show ?thesis
      by (intro rs_quiet [OF d i, of b]) (use take_kind_quiet [OF t(2)] i len in \<open>simp_all add: s'\<close>)
  next
    case (invoke j)
    let ?fn = "rs_fans s ! j"
    obtain v k l b res where t: "j < length (rs_fans s)" "rf_pc ?fn = RfLoop v k l" "k < l"
        "submit_kind (rf_kind ?fn) v (rs_ids s ! rf_of ?fn) (round_bca (rs_rounds s ! k)) = (b, res)"
      and s': "s' = (put_bca k b s)\<lparr>rs_fans := (rs_fans s)[j := ?fn\<lparr>rf_pc := RfLoop v (Suc k) l\<rparr>], rs_invoking := (res \<noteq> GoBlocked)\<rparr>"
      using invoke by (auto simp: rs_invoke_def split: if_splits rfan_pc.splits prod.splits)
    have fn: "rf_ok V (rs_ids s) ?fn" using fans t(1) by simp
    then have k: "k < length (rs_ids s)" and x: "rs_ids s ! rf_of ?fn \<in> correct c" "v \<in> sent_kind (rf_kind ?fn) (V (rs_ids s ! rf_of ?fn))"
      using t(2,3) at(3) by (auto simp: rf_ok_def)
    have xp: "rs_ids s ! rf_of ?fn \<in> procs c" using x(1) ok by (auto simp: byz_ok_def)
    note st = submit_kind_step [OF ok at(3) [OF k] at(2) [OF k] at(1) [OF k] h xp t(4)]
    have "rf_ok V (rs_ids s) (?fn\<lparr>rf_pc := RfLoop v (Suc k) l\<rparr>)" using fn t(2) by (simp add: rf_ok_def)
    from rf_update [OF fans t(1) this] show ?thesis by (intro rs_move [OF d fans k st]) (use x(2) in \<open>simp_all add: s'\<close>)
  next
    case close
    then show ?thesis by (intro rs_ok_frame [OF assms(3)]) (simp_all add: rs_close_def chan_put_def split: option.splits)
  next
    case closed
    then show ?thesis by (intro rs_ok_frame [OF assms(3)]) (auto simp: rs_invoker_close_def recv_then_def split: if_splits option.splits)
  qed
qed

lemma rs_reach_ok: "rs_reach c s \<Longrightarrow> byz_ok c \<Longrightarrow> rs_ok c s"
proof (induction rule: rs_reach.induct)
  case init
  then show ?case unfolding rs_ok_def rs_drives_def newOrderedRoundScheduler_def
    by (intro exI [of _ "\<lambda>_. init_view"] exI [of _ "\<lambda>_. {}"]) (simp add: bca_vreach.init)
next
  case (step s s')
  then show ?case using rs_step_ok by blast
qed

section \<open>Properties\<close>

text \<open>
  The rounds that the scheduler drives are the nodes of a reachable network of the abstract
  specification of a round, whatever the interleaving of its goroutines and the invoker.
\<close>

theorem round_scheduler_refines:
  assumes "byz_ok c" and "rs_reach c s"
  shows "\<exists>V P F. bca_vreach c V \<and> (\<forall>i < length (rs_ids s). V (rs_ids s ! i) = bca_view (P i) (F i) (round_bca (rs_rounds s ! i)))"
proof -
  obtain V P F where d: "rs_drives c V P F (rs_ids s) (rs_bcas s)" using rs_reach_ok [OF assms(2,1)] by (auto simp: rs_ok_def)
  then have "V (rs_ids s ! i) = bca_view (P i) (F i) (round_bca (rs_rounds s ! i))" if "i < length (rs_ids s)" for i
    using that rs_drives_len [OF d] by (simp add: rs_drives_def)
  then show ?thesis using d unfolding rs_drives_def by blast
qed

text \<open>One round that proposes 1: its echo is taken and handed back to it.\<close>

definition rs1 :: orderedRoundScheduler where
  "rs1 = addRound (uid 1) (newFirstRound 4 1) newOrderedRoundScheduler"

definition rs2 :: orderedRoundScheduler where
  "rs2 = put_bca 0 (fst (bca_propose 1 bot (round_bca (rs_rounds rs1 ! 0)))) rs1"

definition rs3 :: "orderedRoundScheduler option" where
  "rs3 = Option.bind (process_take 0 rs2) (rs_invoke 0)"

lemma rs3_ends: "map_option (\<lambda>s. (length (rs_ids s), v_echoes (bca_view {} {} (round_bca (rs_rounds s ! 0))) 1 = {uid 1})) rs3 = Some (1, True)"
  by code_simp

theorem round_scheduler_refines_witness:
  "\<exists>s V P F. rs3 = Some s \<and> bca_vreach default_cfg V
    \<and> (\<forall>i < length (rs_ids s). V (rs_ids s ! i) = bca_view (P i) (F i) (round_bca (rs_rounds s ! i)))"
proof -
  have 1: "rs_reach default_cfg rs1"
    using rs_step.add [of "uid 1" default_cfg newOrderedRoundScheduler "newFirstRound 4 1"] rs_reach.step [OF rs_reach.init]
    by (simp add: rs1_def newOrderedRoundScheduler_def)
  obtain b res where b: "bca_propose 1 bot (round_bca (rs_rounds rs1 ! 0)) = (b, res)" by fastforce
  have l: "0 < length (rs_rounds rs1)" by (simp add: rs1_def addRound_def)
  have 2: "rs_reach default_cfg rs2"
    using rs_reach.step [OF 1 rs_step.propose [OF l _ b]] b by (simp add: rs2_def isInputValid_def)
  obtain s where s: "rs3 = Some s" using rs3_ends by auto
  then obtain t where "process_take 0 rs2 = Some t" "rs_invoke 0 t = Some s" unfolding rs3_def Option.bind_eq_Some_conv by blast
  then have "rs_reach default_cfg s" using rs_reach.step [OF rs_reach.step [OF 2 rs_step.take] rs_step.invoke] by blast
  from round_scheduler_refines [OF default_cfg_ok this] s show ?thesis by blast
qed

end
