(* ===== verification/Command_Loop.thy ===== *)
theory Command_Loop
  imports Prelude
begin

text \<open>
  The pattern by which most components of the program are made safe for concurrent use: an invoker takes
  functions from an unbuffered channel \<^verbatim>\<open>commands\<close> and runs them one after another, a listener turns
  messages into such functions, and \<^verbatim>\<open>Close\<close> sends each of them a signal.  A goroutine that is blocked
  in a send on an unbuffered channel is an entry of a list, and a receiver takes any of them; the
  channels for the signals have room for one.  The locale \<open>command_loop\<close> states what a component relies on and
  what follows for it: the loops do nothing to its state that its own steps cannot do, they serve
  every message as long as they are open, and nothing after they are closed.
\<close>

section \<open>State\<close>

datatype 'c listener_pc = Listening | Handing 'c | Stopped

datatype signal = ToInvoker | ToListener

text \<open>
  \<open>inbox\<close> are the messages whose senders wait for the listener, \<open>callers\<close> the commands whose senders wait for
  the invoker; \<open>closers\<close> holds for every call of \<^verbatim>\<open>Close\<close> the signals it still has to send.
\<close>

record ('s, 'm, 'c) server =
  content :: 's
  inbox :: "'m list"
  callers :: "'c list"
  listener :: "'c listener_pc"
  invoking :: bool
  closeInvoker :: "unit chan"
  closeListener :: "unit chan"
  closers :: "signal list list"

definition new_server :: "'s \<Rightarrow> ('s, 'm, 'c) server" where
  "new_server s = \<lparr>content = s, inbox = [], callers = [], listener = Listening, invoking = True,
     closeInvoker = make_chan 1, closeListener = make_chan 1, closers = []\<rparr>"

lemma content_new [simp]: "content (new_server s) = s"
  by (simp add: new_server_def)

definition without :: "nat \<Rightarrow> 'a list \<Rightarrow> 'a list" where
  "without k xs = take k xs @ drop (Suc k) xs"

section \<open>Steps\<close>

definition srv_arrive :: "'m \<Rightarrow> ('s, 'm, 'c) server \<Rightarrow> ('s, 'm, 'c) server" where
  "srv_arrive m S = S\<lparr>inbox := inbox S @ [m]\<rparr>"

definition srv_call :: "'c \<Rightarrow> ('s, 'm, 'c) server \<Rightarrow> ('s, 'm, 'c) server" where
  "srv_call c S = S\<lparr>callers := callers S @ [c]\<rparr>"

text \<open>The listener takes message \<open>k\<close> and then waits until the invoker has taken its command.\<close>

definition srv_listen :: "('m \<Rightarrow> 'c) \<Rightarrow> nat \<Rightarrow> ('s, 'm, 'c) server \<Rightarrow> ('s, 'm, 'c) server option" where
  "srv_listen cmd k S =
     (case listener S of
        Listening \<Rightarrow> if k < length (inbox S)
          then Some (S\<lparr>inbox := without k (inbox S), listener := Handing (cmd (inbox S ! k))\<rparr>) else None
      | _ \<Rightarrow> None)"

definition srv_listener_close :: "('s, 'm, 'c) server \<Rightarrow> ('s, 'm, 'c) server option" where
  "srv_listener_close S =
     (case listener S of
        Listening \<Rightarrow> map_option (\<lambda>(_, ch). S\<lparr>closeListener := ch, listener := Stopped\<rparr>) (chan_recv (closeListener S))
      | _ \<Rightarrow> None)"

text \<open>The invoker takes the command of the listener, or that of caller \<open>k\<close>, and runs it to its end.\<close>

definition srv_take :: "('c \<Rightarrow> 's \<Rightarrow> 's) \<Rightarrow> ('s, 'm, 'c) server \<Rightarrow> ('s, 'm, 'c) server option" where
  "srv_take run S =
     (case listener S of
        Handing c \<Rightarrow> if invoking S then Some (S\<lparr>content := run c (content S), listener := Listening\<rparr>) else None
      | _ \<Rightarrow> None)"

definition srv_invoke :: "('c \<Rightarrow> 's \<Rightarrow> 's) \<Rightarrow> nat \<Rightarrow> ('s, 'm, 'c) server \<Rightarrow> ('s, 'm, 'c) server option" where
  "srv_invoke run k S =
     (if invoking S \<and> k < length (callers S)
      then Some (S\<lparr>content := run (callers S ! k) (content S), callers := without k (callers S)\<rparr>) else None)"

definition srv_invoker_close :: "('s, 'm, 'c) server \<Rightarrow> ('s, 'm, 'c) server option" where
  "srv_invoker_close S =
     (if invoking S then map_option (\<lambda>(_, ch). S\<lparr>closeInvoker := ch, invoking := False\<rparr>) (chan_recv (closeInvoker S)) else None)"

definition srv_close :: "signal list \<Rightarrow> ('s, 'm, 'c) server \<Rightarrow> ('s, 'm, 'c) server" where
  "srv_close sigs S = S\<lparr>closers := closers S @ [sigs]\<rparr>"

text \<open>The call \<open>k\<close> of \<^verbatim>\<open>Close\<close> sends its next signal, once there is room for it.\<close>

definition srv_signal :: "nat \<Rightarrow> ('s, 'm, 'c) server \<Rightarrow> ('s, 'm, 'c) server option" where
  "srv_signal k S =
     (if k < length (closers S)
      then case closers S ! k of
             [] \<Rightarrow> None
           | ToInvoker # sigs \<Rightarrow>
               map_option (\<lambda>ch. S\<lparr>closeInvoker := ch, closers := (closers S)[k := sigs]\<rparr>) (chan_send () (closeInvoker S))
           | ToListener # sigs \<Rightarrow>
               map_option (\<lambda>ch. S\<lparr>closeListener := ch, closers := (closers S)[k := sigs]\<rparr>) (chan_send () (closeListener S))
      else None)"

lemmas srv_defs = srv_arrive_def srv_call_def srv_listen_def srv_listener_close_def srv_take_def srv_invoke_def
  srv_invoker_close_def srv_close_def srv_signal_def

text \<open>
  The steps of a component in its loops: \<open>admits\<close> says which messages can arrive, \<open>wants\<close> which
  commands its goroutines and callers may hand over, \<open>own\<close> what its other goroutines do meanwhile.
\<close>

inductive serve ::
  "('m \<Rightarrow> bool) \<Rightarrow> ('m \<Rightarrow> 'c) \<Rightarrow> ('c \<Rightarrow> 's \<Rightarrow> 's) \<Rightarrow> ('s \<Rightarrow> 'c \<Rightarrow> bool) \<Rightarrow> ('s \<Rightarrow> 's \<Rightarrow> bool) \<Rightarrow> signal list
     \<Rightarrow> ('s, 'm, 'c) server \<Rightarrow> ('s, 'm, 'c) server \<Rightarrow> bool"
  for admits cmd run wants own sigs where
  arrive: "admits m \<Longrightarrow> serve admits cmd run wants own sigs S (srv_arrive m S)"
| call: "wants (content S) c \<Longrightarrow> serve admits cmd run wants own sigs S (srv_call c S)"
| listen: "srv_listen cmd k S = Some T \<Longrightarrow> serve admits cmd run wants own sigs S T"
| listener_close: "srv_listener_close S = Some T \<Longrightarrow> serve admits cmd run wants own sigs S T"
| take: "srv_take run S = Some T \<Longrightarrow> serve admits cmd run wants own sigs S T"
| invoke: "srv_invoke run k S = Some T \<Longrightarrow> serve admits cmd run wants own sigs S T"
| invoker_close: "srv_invoker_close S = Some T \<Longrightarrow> serve admits cmd run wants own sigs S T"
| close: "serve admits cmd run wants own sigs S (srv_close sigs S)"
| signal: "srv_signal k S = Some T \<Longrightarrow> serve admits cmd run wants own sigs S T"
| own: "own (content S) s \<Longrightarrow> serve admits cmd run wants own sigs S (S\<lparr>content := s\<rparr>)"

inductive_cases serveE: "serve admits cmd run wants own sigs S T"

lemma set_without: "set (without k xs) \<subseteq> set xs"
  by (auto simp: without_def dest: in_set_takeD in_set_dropD)

lemma srv_signal_frame:
  assumes "srv_signal k S = Some T"
  shows "content T = content S \<and> inbox T = inbox S \<and> callers T = callers S \<and> listener T = listener S \<and> invoking T = invoking S"
  using assms by (auto simp: srv_signal_def split: if_splits list.splits signal.splits)

section \<open>The contract\<close>

text \<open>
  A command that was admitted stays \<open>ok\<close> to run while the component moves on, and running it is a step of
  the component, or changes nothing.
\<close>

locale command_loop =
  fixes admits :: "'m \<Rightarrow> bool" and cmd :: "'m \<Rightarrow> 'c" and run :: "'c \<Rightarrow> 's \<Rightarrow> 's" and wants :: "'s \<Rightarrow> 'c \<Rightarrow> bool"
    and own :: "'s \<Rightarrow> 's \<Rightarrow> bool" and sigs :: "signal list" and step :: "'s \<Rightarrow> 's \<Rightarrow> bool" and ok :: "'s \<Rightarrow> 'c \<Rightarrow> bool"
  assumes admits_ok: "admits m \<Longrightarrow> ok s (cmd m)"
    and wants_ok: "wants s c \<Longrightarrow> ok s c"
    and own_step: "own s t \<Longrightarrow> step s t"
    and run_step: "ok s c \<Longrightarrow> run c s = s \<or> step s (run c s)"
    and ok_step: "step s t \<Longrightarrow> ok s c \<Longrightarrow> ok t c"
begin

abbreviation serves :: "('s, 'm, 'c) server \<Rightarrow> ('s, 'm, 'c) server \<Rightarrow> bool" where
  "serves \<equiv> serve admits cmd run wants own sigs"

definition pending_ok :: "('s, 'm, 'c) server \<Rightarrow> bool" where
  "pending_ok S \<longleftrightarrow> (\<forall>m \<in> set (inbox S). admits m) \<and> (\<forall>c \<in> set (callers S). ok (content S) c)
     \<and> (\<forall>c. listener S = Handing c \<longrightarrow> ok (content S) c)"

lemma pending_new: "pending_ok (new_server s)"
  by (simp add: pending_ok_def new_server_def)

lemma pending_content:
  assumes "pending_ok S" and "t = content S \<or> step (content S) t"
  shows "pending_ok (S\<lparr>content := t\<rparr>)"
  using assms ok_step by (auto simp: pending_ok_def)

lemma serves_step:
  assumes inv: "pending_ok S" and st: "serves S T"
  shows "pending_ok T" and "content T = content S \<or> step (content S) (content T)"
proof -
  have "pending_ok T \<and> (content T = content S \<or> step (content S) (content T))" using st
  proof cases
    case (arrive m)
    then show ?thesis using inv by (auto simp: pending_ok_def srv_arrive_def)
  next
    case (call c)
    then show ?thesis using inv wants_ok by (auto simp: pending_ok_def srv_call_def)
  next
    case (listen k)
    then show ?thesis using inv set_without [of k "inbox S"] admits_ok
      by (fastforce simp: pending_ok_def srv_listen_def split: listener_pc.splits if_splits)
  next
    case listener_close
    then show ?thesis using inv by (auto simp: pending_ok_def srv_listener_close_def split: listener_pc.splits)
  next
    case take
    then obtain c where c: "listener S = Handing c" "T = S\<lparr>content := run c (content S), listener := Listening\<rparr>"
      by (auto simp: srv_take_def split: listener_pc.splits if_splits)
    then have s: "run c (content S) = content S \<or> step (content S) (run c (content S))" using inv run_step by (auto simp: pending_ok_def)
    from pending_content [OF inv s] c(2) s show ?thesis by (auto simp: pending_ok_def)
  next
    case (invoke k)
    then have k: "k < length (callers S)" "T = S\<lparr>content := run (callers S ! k) (content S), callers := without k (callers S)\<rparr>"
      by (auto simp: srv_invoke_def split: if_splits)
    let ?c = "callers S ! k"
    have "ok (content S) ?c" using inv k(1) by (simp add: pending_ok_def)
    then have s: "run ?c (content S) = content S \<or> step (content S) (run ?c (content S))" by (rule run_step)
    from pending_content [OF inv s] k(2) s set_without [of k "callers S"] show ?thesis by (auto simp: pending_ok_def)
  next
    case invoker_close
    then show ?thesis using inv by (auto simp: pending_ok_def srv_invoker_close_def split: if_splits)
  next
    case close
    then show ?thesis using inv by (auto simp: pending_ok_def srv_close_def)
  next
    case (signal k)
    from srv_signal_frame [OF this] inv show ?thesis by (simp add: pending_ok_def)
  next
    case (own s)
    then show ?thesis using pending_content [OF inv, of s] own_step by auto
  qed
  then show "pending_ok T" "content T = content S \<or> step (content S) (content T)" by blast+
qed

text \<open>The loops refine the component.\<close>

lemma serves_refine:
  assumes "serves\<^sup>*\<^sup>* (new_server s) S"
  shows "step\<^sup>*\<^sup>* s (content S)"
proof -
  have "pending_ok S \<and> step\<^sup>*\<^sup>* s (content S)" using assms
  proof (induction rule: rtranclp_induct)
    case base
    show ?case using pending_new [of s] by (simp add: new_server_def)
  next
    case (step S T)
    then show ?case using serves_step [of S T] by (metis rtranclp.rtrancl_into_rtrancl)
  qed
  then show ?thesis by blast
qed

text \<open>As long as the loops are open a message that waits can be served.\<close>

lemma serves_message:
  assumes "invoking S" and "listener S \<noteq> Stopped" and m: "m \<in> set (inbox S)"
  shows "\<exists>s T. serves\<^sup>*\<^sup>* S T \<and> content T = run (cmd m) s"
proof -
  have free: "\<exists>T. serves\<^sup>*\<^sup>* S T \<and> listener T = Listening \<and> invoking T \<and> inbox T = inbox S"
  proof (cases "listener S")
    case (Handing c)
    have "serves S (S\<lparr>content := run c (content S), listener := Listening\<rparr>)"
      by (rule serve.take) (simp add: srv_take_def Handing assms(1))
    then show ?thesis using assms(1) by (intro exI [of _ "S\<lparr>content := run c (content S), listener := Listening\<rparr>"]) auto
  qed (use assms in auto)
  then obtain T where T: "serves\<^sup>*\<^sup>* S T" "listener T = Listening" "invoking T" "inbox T = inbox S" by blast
  obtain k where k: "k < length (inbox T)" "inbox T ! k = m" using m T(4) by (metis in_set_conv_nth)
  let ?U = "T\<lparr>inbox := without k (inbox T), listener := Handing (cmd m)\<rparr>"
  let ?V = "?U\<lparr>content := run (cmd m) (content T), listener := Listening\<rparr>"
  have "serves T ?U" by (rule serve.listen [of _ k]) (simp add: srv_listen_def T(2) k)
  moreover have "serves ?U ?V" by (rule serve.take) (simp add: srv_take_def T(3))
  ultimately have "serves\<^sup>*\<^sup>* S ?V" using T(1) by (meson rtranclp.rtrancl_into_rtrancl)
  then show ?thesis by (intro exI [of _ "content T"] exI [of _ ?V]) simp
qed

text \<open>And the loops lose nothing: between two turns they can do each step the component does on its own.\<close>

lemma serves_admitted: "admits m \<Longrightarrow> serves\<^sup>*\<^sup>* (new_server s) (new_server (run (cmd m) s))"
proof -
  assume m: "admits m"
  let ?A = "srv_arrive m (new_server s) :: ('s, 'm, 'c) server"
  let ?B = "?A\<lparr>inbox := [], listener := Handing (cmd m)\<rparr>"
  have "serves (new_server s) ?A" by (rule serve.arrive) (rule m)
  moreover have "serves ?A ?B" by (rule serve.listen [of _ 0]) (simp add: srv_listen_def srv_arrive_def new_server_def without_def)
  moreover have "serves ?B (new_server (run (cmd m) s))" by (rule serve.take) (simp add: srv_take_def srv_arrive_def new_server_def)
  ultimately show ?thesis by (meson rtranclp.rtrancl_into_rtrancl rtranclp.rtrancl_refl)
qed

lemma serves_wanted: "wants s c \<Longrightarrow> serves\<^sup>*\<^sup>* (new_server s) (new_server (run c s))"
proof -
  assume c: "wants s c"
  have "serves (new_server s) (srv_call c (new_server s))" by (rule serve.call) (simp add: new_server_def c)
  moreover have "serves (srv_call c (new_server s)) (new_server (run c s))"
    by (rule serve.invoke [of _ 0]) (simp add: srv_invoke_def srv_call_def new_server_def without_def)
  ultimately show ?thesis by (meson rtranclp.rtrancl_into_rtrancl rtranclp.rtrancl_refl)
qed

lemma serves_own: "own s t \<Longrightarrow> serves (new_server s) (new_server t)"
  using serve.own [of own "new_server s" t admits cmd run wants sigs] by (simp add: new_server_def)

text \<open>Once the invoker has stopped no command runs any more, and a listener that was handing one over waits for ever.\<close>

lemma serves_stopped:
  assumes "serves\<^sup>*\<^sup>* S T" and "\<not> invoking S"
  shows "\<not> invoking T \<and> own\<^sup>*\<^sup>* (content S) (content T)"
  using assms
proof (induction rule: rtranclp_induct)
  case (step T U)
  from step.hyps(2) step.IH [OF step.prems] show ?case
  proof (cases rule: serve.cases)
    case (own s)
    then show ?thesis using step.IH [OF step.prems] by (auto intro: rtranclp.rtrancl_into_rtrancl)
  next
    case (signal k)
    then show ?thesis using step.IH [OF step.prems] srv_signal_frame [OF signal] by simp
  qed (auto simp: srv_defs split: listener_pc.splits if_splits)
qed simp

lemma serves_stranded:
  assumes "serves\<^sup>*\<^sup>* S T" and "\<not> invoking S" and "listener S = Handing c"
  shows "listener T = Handing c \<and> set (inbox S) \<subseteq> set (inbox T)"
proof -
  have "\<not> invoking T \<and> listener T = Handing c \<and> set (inbox S) \<subseteq> set (inbox T)" using assms
  proof (induction rule: rtranclp_induct)
    case (step T U)
    from step.hyps(2) show ?case
    proof (cases rule: serve.cases)
      case (signal k)
      then show ?thesis using step.IH [OF step.prems] srv_signal_frame [OF signal] by simp
    qed (use step.IH [OF step.prems] in \<open>auto simp: srv_defs split: listener_pc.splits if_splits\<close>)
  qed simp
  then show ?thesis by blast
qed

text \<open>\<^verbatim>\<open>Close\<close> can do that: it finds the listener between a message and the invoker.\<close>

lemma close_strands:
  assumes m: "admits m" and sigs: "sigs = [ToInvoker, ToListener] \<or> sigs = [ToListener, ToInvoker]"
  shows "\<exists>S. serves\<^sup>*\<^sup>* (new_server s) S \<and> closers S = [[]] \<and> \<not> invoking S \<and> content S = s
    \<and> (\<forall>T. serves\<^sup>*\<^sup>* S T \<longrightarrow> listener T = Handing (cmd m))"
proof -
  let ?A = "srv_arrive m (new_server s)"
  let ?B = "?A\<lparr>inbox := [], listener := Handing (cmd m)\<rparr>"
  let ?C = "srv_close sigs ?B"
  obtain D where D: "srv_signal 0 ?C = Some D" and "\<exists>E. srv_signal 0 D = Some E \<and> closers E = [[]] \<and> content E = s
      \<and> invoking E \<and> listener E = Handing (cmd m) \<and> ch_sent (closeInvoker E) = [()] \<and> ch_taken (closeInvoker E) = 0"
    using sigs by (auto simp: srv_signal_def srv_close_def srv_arrive_def new_server_def make_chan_def chan_send_def)
  then obtain E where E: "srv_signal 0 D = Some E" "closers E = [[]]" "content E = s" "invoking E" "listener E = Handing (cmd m)"
    "ch_sent (closeInvoker E) = [()]" "ch_taken (closeInvoker E) = 0" by blast
  obtain F where F: "srv_invoker_close E = Some F" "\<not> invoking F" "closers F = [[]]" "content F = s" "listener F = Handing (cmd m)"
    using E by (simp add: srv_invoker_close_def chan_recv_def)
  have "serves (new_server s) ?A" by (rule serve.arrive) (rule m)
  moreover have "serves ?A ?B" by (rule serve.listen [of _ 0]) (simp add: srv_listen_def srv_arrive_def new_server_def without_def)
  moreover have "serves ?B ?C" by (rule serve.close)
  moreover have "serves ?C D" "serves D E" "serves E F" by (rule serve.signal [OF D] serve.signal [OF E(1)] serve.invoker_close [OF F(1)])+
  ultimately have "serves\<^sup>*\<^sup>* (new_server s) F" by (meson rtranclp.rtrancl_into_rtrancl rtranclp.rtrancl_refl)
  then show ?thesis using F serves_stranded [OF _ F(2,5)] by blast
qed

end

end
