(* ===== verification/BRB_Loops.thy ===== *)
theory BRB_Loops
  imports BRB_Channel Command_Loop
begin

text \<open>
  The goroutines around the reliable-broadcast channel (\<^verbatim>\<open>channel.go\<close>) and around each of its instances
  (\<^verbatim>\<open>instance.go\<close>): the invokers, the deliver loop and \<^verbatim>\<open>Close\<close>, as servers of \<open>Command_Loop\<close>.  What they
  do is a run of \<open>chan_step\<close>, and of the handler for an instance.  \<^verbatim>\<open>Close\<close> stops the invoker, but it
  can leave the deliver loop waiting for ever.
\<close>

section \<open>The channel\<close>

datatype brb_cmd = CmdMsg brb_msg | CmdOutput nat uuid

type_synonym brb_server = "(BRBChannel, brb_msg, brb_cmd) server"

text \<open>The command of \<^verbatim>\<open>processOutput\<close> belongs to the goroutine that waits at \<open>(ref, i)\<close>, which hands it over once.\<close>

fun brb_run :: "brb_cmd \<Rightarrow> BRBChannel \<Rightarrow> BRBChannel" where
  "brb_run (CmdMsg m) c = fst (chan_processMsg m c)"
| "brb_run (CmdOutput ref i) c =
     (if (ref, i) \<in> set (waiting c) \<and> outputChan (store c ! ref) \<noteq> []
      then run_output (length (takeWhile (\<lambda>w. w \<noteq> (ref, i)) (waiting c))) c else c)"

fun brb_wants :: "BRBChannel \<Rightarrow> brb_cmd \<Rightarrow> bool" where
  "brb_wants c (CmdMsg m) = False"
| "brb_wants c (CmdOutput ref i) = ((ref, i) \<in> set (waiting c) \<and> outputChan (store c ! ref) \<noteq> [])"

definition brb_own :: "BRBChannel \<Rightarrow> BRBChannel \<Rightarrow> bool" where
  "brb_own c d \<longleftrightarrow> (\<exists>j < length (calls c). d = run_call j c)"

definition brb_bebDeliver :: "nat \<Rightarrow> brb_server \<Rightarrow> brb_server option" where
  "brb_bebDeliver k = srv_listen CmdMsg k"

definition brb_bebDeliver_close :: "brb_server \<Rightarrow> brb_server option" where
  "brb_bebDeliver_close = srv_listener_close"

text \<open>The invoker takes a command from the deliver loop, or from the goroutine \<open>k\<close> that waits to hand one over.\<close>

definition brb_invoker :: "nat option \<Rightarrow> brb_server \<Rightarrow> brb_server option" where
  "brb_invoker from S = (case from of None \<Rightarrow> srv_take brb_run S | Some k \<Rightarrow> srv_invoke brb_run k S)"

definition brb_invoker_close :: "brb_server \<Rightarrow> brb_server option" where
  "brb_invoker_close = srv_invoker_close"

definition brb_Close :: "brb_server \<Rightarrow> brb_server" where
  "brb_Close = srv_close [ToInvoker, ToListener]"

definition brb_serve :: "brb_server \<Rightarrow> brb_server \<Rightarrow> bool" where
  "brb_serve = serve (\<lambda>_. True) CmdMsg brb_run brb_wants brb_own [ToInvoker, ToListener]"

text \<open>The steps by the names of the code.\<close>

lemma brb_serve_iff:
  "brb_serve S T \<longleftrightarrow> (\<exists>m. T = srv_arrive m S) \<or> (\<exists>ref i. brb_wants (content S) (CmdOutput ref i) \<and> T = srv_call (CmdOutput ref i) S)
     \<or> (\<exists>k. brb_bebDeliver k S = Some T) \<or> brb_bebDeliver_close S = Some T \<or> (\<exists>k. brb_invoker k S = Some T)
     \<or> brb_invoker_close S = Some T \<or> T = brb_Close S \<or> (\<exists>k. srv_signal k S = Some T)
     \<or> (\<exists>d. brb_own (content S) d \<and> T = S\<lparr>content := d\<rparr>)" (is "_ \<longleftrightarrow> ?rhs")
proof
  assume "brb_serve S T"
  then have "serve (\<lambda>_. True) CmdMsg brb_run brb_wants brb_own [ToInvoker, ToListener] S T" by (simp add: brb_serve_def)
  then show ?rhs
  proof cases
    case (call c)
    then show ?thesis by (cases c) auto
  next
    case take
    then have "brb_invoker None S = Some T" by (simp add: brb_invoker_def)
    then show ?thesis by blast
  next
    case (invoke k)
    then have "brb_invoker (Some k) S = Some T" by (simp add: brb_invoker_def)
    then show ?thesis by blast
  qed (auto simp: brb_bebDeliver_def brb_bebDeliver_close_def brb_invoker_close_def brb_Close_def)
next
  assume ?rhs
  then show "brb_serve S T"
    by (auto simp: brb_serve_def brb_bebDeliver_def brb_bebDeliver_close_def brb_invoker_def brb_invoker_close_def brb_Close_def
        simp del: brb_wants.simps split: option.splits intro: serve.intros)
qed

lemma index_takeWhile: "x \<in> set xs \<Longrightarrow> length (takeWhile (\<lambda>w. w \<noteq> x) xs) < length xs \<and> xs ! length (takeWhile (\<lambda>w. w \<noteq> x) xs) = x"
  using nth_length_takeWhile [of "\<lambda>w. w \<noteq> x" xs] by (metis (mono_tags, lifting) length_takeWhile_le nat_less_le takeWhile_eq_all_conv takeWhile_eq_take take_all)

interpretation brbl: command_loop "\<lambda>_. True" CmdMsg brb_run brb_wants brb_own "[ToInvoker, ToListener]" chan_step "\<lambda>_ _. True"
proof
  show "brb_own s t \<Longrightarrow> chan_step s t" for s t by (auto simp: brb_own_def intro: chan_step.call)
  show "brb_run c s = s \<or> chan_step s (brb_run c s)" for s c
  proof (cases c)
    case (CmdMsg m)
    then show ?thesis by (simp add: chan_step.deliver)
  next
    case (CmdOutput ref i)
    then show ?thesis using index_takeWhile [of "(ref, i)" "waiting s"] by (auto intro: chan_step.emits)
  qed
qed simp_all

lemma chan_reach_star: "chan_step\<^sup>*\<^sup>* c d \<Longrightarrow> chan_reach n f c \<Longrightarrow> chan_reach n f d"
  by (induction rule: rtranclp_induct) (auto intro: chan_reach.step)

lemma brb_served_reach: "brb_serve\<^sup>*\<^sup>* (new_server (NewBRBChannel n f)) S \<Longrightarrow> chan_reach n f (content S)"
  using brbl.serves_refine [of "NewBRBChannel n f" S] chan_reach_star [OF _ chan_reach.init] by (simp add: brb_serve_def)

lemma index_nth: "distinct xs \<Longrightarrow> j < length xs \<Longrightarrow> length (takeWhile (\<lambda>w. w \<noteq> xs ! j) xs) = j"
proof (induction xs arbitrary: j)
  case (Cons x xs)
  then show ?case by (cases j) auto
qed simp

lemma brb_step_served:
  assumes st: "chan_step c d" and inv: "chan_inv c"
  shows "brb_serve\<^sup>*\<^sup>* (new_server c) (new_server d)"
  using st
proof cases
  case (deliver m)
  then show ?thesis using brbl.serves_admitted [of c m] by (simp add: brb_serve_def)
next
  case (call j)
  then have "brb_own c d" by (auto simp: brb_own_def)
  from brbl.serves_own [OF this] show ?thesis by (auto simp: brb_serve_def)
next
  case (emits j)
  obtain ref i where w: "waiting c ! j = (ref, i)" by fastforce
  have "distinct (waiting c)" using inv by (simp add: chan_inv_def distinct_map)
  from index_nth [OF this emits(2)] have "length (takeWhile (\<lambda>x. x \<noteq> (ref, i)) (waiting c)) = j" by (simp add: w)
  moreover have "(ref, i) \<in> set (waiting c)" using emits(2) w by (metis nth_mem)
  ultimately have "brb_wants c (CmdOutput ref i)" "d = brb_run (CmdOutput ref i) c" using emits(1,3) w by simp_all
  then show ?thesis using brbl.serves_wanted [of c "CmdOutput ref i"] by (simp add: brb_serve_def del: brb_run.simps brb_wants.simps)
qed

lemma brb_reach_served: "chan_reach n f c \<Longrightarrow> brb_serve\<^sup>*\<^sup>* (new_server (NewBRBChannel n f)) (new_server c)"
  by (induction rule: chan_reach.induct) (auto intro: rtranclp_trans brb_step_served chan_reach_inv)

section \<open>An instance\<close>

type_synonym brbInstance = "(brbHandler, brb_msg, brb_msg) server"

definition newBrbInstance :: "uint \<Rightarrow> uint \<Rightarrow> brbInstance" where
  "newBrbInstance n f = new_server (newBrbHandler n f)"

definition brbInstance_invoker :: "nat \<Rightarrow> brbInstance \<Rightarrow> brbInstance option" where
  "brbInstance_invoker k = srv_invoke (\<lambda>m h. fst (instance_call m h)) k"

definition brbInstance_invoker_close :: "brbInstance \<Rightarrow> brbInstance option" where
  "brbInstance_invoker_close = srv_invoker_close"

definition brbInstance_close :: "brbInstance \<Rightarrow> brbInstance" where
  "brbInstance_close = srv_close [ToInvoker]"

text \<open>An instance has no listener: its calls come from the goroutines the channel starts.\<close>

definition inst_serve :: "uuid \<Rightarrow> brbInstance \<Rightarrow> brbInstance \<Rightarrow> bool" where
  "inst_serve i = serve (\<lambda>_. False) id (\<lambda>m h. fst (instance_call m h)) (\<lambda>_ m. brb_id m = i) (\<lambda>_ _. False) [ToInvoker]"

interpretation instl: command_loop "\<lambda>_. False" id "\<lambda>m h. fst (instance_call m h)" "\<lambda>_ m. brb_id m = i" "\<lambda>_ _. False" "[ToInvoker]"
  "\<lambda>h t. \<exists>m. brb_id m = i \<and> t = fst (instance_call m h)" "\<lambda>_ m. brb_id m = i" for i
  by unfold_locales auto

lemma inst_served_reach:
  assumes "(inst_serve i)\<^sup>*\<^sup>* (newBrbInstance n f) S"
  shows "inst_reach n f i (content S)"
proof -
  have "(\<lambda>h t. \<exists>m. brb_id m = i \<and> t = fst (instance_call m h))\<^sup>*\<^sup>* (newBrbHandler n f) (content S)"
    using instl.serves_refine [of i "newBrbHandler n f" S] assms by (simp add: inst_serve_def newBrbInstance_def)
  then show ?thesis by (induction rule: rtranclp_induct) (auto intro: inst_reach.intros)
qed

text \<open>A closed instance answers no call any more.\<close>

lemma inst_closed: "\<not> invoking S \<Longrightarrow> (inst_serve i)\<^sup>*\<^sup>* S T \<Longrightarrow> content T = content S"
  using instl.serves_stopped [of i S T] by (auto simp: inst_serve_def elim: rtranclp_induct)

section \<open>The Byzantine channel of the tests\<close>

type_synonym 'pk byzChannel = "(uuid set \<times> 'pk node, brb_msg, unit) server"

definition createByzChannel :: "'pk node \<Rightarrow> 'pk byzChannel" where
  "createByzChannel nd = new_server ({}, nd)"

text \<open>Its deliver loop handles a message itself; errors of the broadcasts are dropped.\<close>

definition byz_bebDeliver :: "byte \<Rightarrow> nat \<Rightarrow> 'pk byzChannel \<Rightarrow> 'pk byzChannel option" where
  "byz_bebDeliver beb k S =
     (case listener S of
        Listening \<Rightarrow> if k < length (inbox S)
          then Some (S\<lparr>inbox := without k (inbox S), content := fst (byz_processMsg beb (inbox S ! k) (content S))\<rparr>) else None
      | _ \<Rightarrow> None)"

definition byz_bebDeliver_close :: "'pk byzChannel \<Rightarrow> 'pk byzChannel option" where
  "byz_bebDeliver_close = srv_listener_close"

definition byz_close :: "'pk byzChannel \<Rightarrow> 'pk byzChannel" where
  "byz_close = srv_close [ToListener]"

text \<open>It answers every identifier, and each only once.\<close>

lemma byz_answers:
  assumes "byz_bebDeliver beb k S = Some T"
  shows "fst (content T) = insert (brb_id (inbox S ! k)) (fst (content S))"
    and "brb_id (inbox S ! k) \<in> fst (content S) \<Longrightarrow> content T = content S"
  using assms by (auto simp: byz_bebDeliver_def byz_processMsg_def split: listener_pc.splits if_splits prod.splits)

section \<open>Properties\<close>

text \<open>
  The loops of the reliable-broadcast channel neither add nor lose behaviour: the states of the channel that
  the deliver loop, the invoker, the goroutines of the instances and calls of \<^verbatim>\<open>Close\<close> lead to are
  exactly those that handling each message as it is delivered leads to.
\<close>

theorem brb_loops_equiv:
  "(\<exists>S. brb_serve\<^sup>*\<^sup>* (new_server (NewBRBChannel n f)) S \<and> content S = c) = chan_reach n f c"
proof
  assume "chan_reach n f c"
  then show "\<exists>S. brb_serve\<^sup>*\<^sup>* (new_server (NewBRBChannel n f)) S \<and> content S = c"
    using brb_reach_served by (auto intro!: exI [of _ "new_server c"] simp: content_new)
qed (auto intro: brb_served_reach)

text \<open>
  C18. The loops of the reliable-broadcast channel implement a family of independent instances: whatever the
  deliver loop, the invoker, the goroutines of the instances and calls of \<^verbatim>\<open>Close\<close> interleave, each
  identifier has one instance, which only its own messages have reached, an output is the first
  output of its instance, and no identifier is delivered twice or is still open after delivery.
\<close>

theorem brb_loops_refine_instances:
  assumes "brb_serve\<^sup>*\<^sup>* (new_server (NewBRBChannel n f)) S"
  shows "\<exists>h. (\<forall>i. inst_reach n f i (h i))
    \<and> (\<forall>i ref. brbc_instances (content S) i = Some ref \<longrightarrow> ref < length (store (content S)) \<and> store (content S) ! ref = h i)
    \<and> (\<forall>(i, d) \<in> set (BrbDeliver (content S)). \<exists>ds. outputChan (h i) = d # ds)
    \<and> distinct (map fst (BrbDeliver (content S)))
    \<and> dom (brbc_instances (content S)) \<inter> fst ` set (BrbDeliver (content S)) = {}"
  by (rule channel_of_instances [OF brb_served_reach [OF assms]])

definition demo_msg :: brb_msg where
  "demo_msg = \<lparr>brb_kind = brb_send, brb_id = uid 9, brb_sender = uid 1, brb_content = [7]\<rparr>"

definition demo_server :: brb_server where
  "demo_server = (let S = the (brb_invoker None (the (brb_bebDeliver 0 (srv_arrive demo_msg (new_server (NewBRBChannel 4 1))))))
     in S\<lparr>content := run_call 0 (content S)\<rparr>)"

lemmas demo_server_defs = demo_msg_def brb_bebDeliver_def srv_listen_def brb_invoker_def srv_take_def srv_arrive_def new_server_def
  without_def chan_processMsg_def getInstance_def createInstance_def NewBRBChannel_def Let_def

lemma demo_server_reach: "brb_serve\<^sup>*\<^sup>* (new_server (NewBRBChannel 4 1)) demo_server"
proof -
  let ?A = "srv_arrive demo_msg (new_server (NewBRBChannel 4 1)) :: brb_server"
  let ?B = "the (brb_bebDeliver 0 ?A)" and ?C = "the (brb_invoker None (the (brb_bebDeliver 0 ?A)))"
  have "brb_serve (new_server (NewBRBChannel 4 1)) ?A" unfolding brb_serve_iff by blast
  moreover have "brb_bebDeliver 0 ?A = Some ?B" by (simp add: demo_server_defs)
  then have "brb_serve ?A ?B" unfolding brb_serve_iff by blast
  moreover have "brb_invoker None ?B = Some ?C" by (simp add: demo_server_defs)
  then have "brb_serve ?B ?C" unfolding brb_serve_iff by blast
  moreover have "brb_own (content ?C) (run_call 0 (content ?C))" unfolding brb_own_def by (intro exI [of _ 0]) (simp add: demo_server_defs)
  then have "brb_serve ?C demo_server" unfolding brb_serve_iff demo_server_def Let_def by blast
  ultimately show ?thesis by (meson rtranclp.rtrancl_into_rtrancl rtranclp.rtrancl_refl)
qed

text \<open>Witness: a send message is taken by the deliver loop, run by the invoker and handled by its instance.\<close>

theorem brb_loops_refine_instances_witness:
  "\<exists>h. inst_reach 4 1 (uid 9) (h (uid 9)) \<and> store (content demo_server) ! 0 = h (uid 9)
     \<and> echoChan (h (uid 9)) = [uuid_bytes (uid 1) @ [7]]"
proof -
  have c: "brbc_instances (content demo_server) (uid 9) = Some 0" "echoChan (store (content demo_server) ! 0) = [uuid_bytes (uid 1) @ [7]]"
    by (simp_all add: demo_server_def demo_server_defs run_call_def instance_call_def handleSend_sel)
  obtain h where "\<forall>i. inst_reach 4 1 i (h i)"
    "\<forall>i ref. brbc_instances (content demo_server) i = Some ref \<longrightarrow> ref < length (store (content demo_server)) \<and> store (content demo_server) ! ref = h i"
    using brb_loops_refine_instances [OF demo_server_reach] by blast
  with c show ?thesis by (intro exI [of _ h]) auto
qed

text \<open>
  \<^verbatim>\<open>Close\<close> of the reliable-broadcast channel can strand the deliver loop.  There is a run in which \<^verbatim>\<open>Close\<close>
  has returned and the invoker has stopped while the deliver loop was handing over a command: from
  then on the channel's state is only changed by the goroutines of its instances, and the deliver
  loop waits for ever and never takes its own signal.
\<close>

theorem brb_close_strands_deliver:
  "\<exists>S. brb_serve\<^sup>*\<^sup>* (new_server (NewBRBChannel n f)) S \<and> closers S = [[]] \<and> \<not> invoking S
    \<and> (\<nexists>T. brb_serve\<^sup>*\<^sup>* S T \<and> (invoking T \<or> listener T \<noteq> Handing (CmdMsg m) \<or> \<not> brb_own\<^sup>*\<^sup>* (content S) (content T)))"
proof -
  obtain S where S: "brb_serve\<^sup>*\<^sup>* (new_server (NewBRBChannel n f)) S" "closers S = [[]]" "\<not> invoking S"
    "\<And>T. brb_serve\<^sup>*\<^sup>* S T \<Longrightarrow> listener T = Handing (CmdMsg m)"
    using brbl.close_strands [where m = m and s = "NewBRBChannel n f"] unfolding brb_serve_def by auto
  have "\<not> invoking T \<and> brb_own\<^sup>*\<^sup>* (content S) (content T)" if "brb_serve\<^sup>*\<^sup>* S T" for T
    using brbl.serves_stopped [of S T] that S(3) by (simp add: brb_serve_def)
  with S show ?thesis by blast
qed

end
