(* ===== verification/ABA_Loops.thy ===== *)
theory ABA_Loops
  imports ABA_System Command_Loop
begin

text \<open>
  The goroutines around the binary-agreement channel (\<^verbatim>\<open>abaChannel.go\<close>) and its two middlewares
  (\<^verbatim>\<open>abaMiddleware.go\<close>, \<^verbatim>\<open>terminationMiddleware.go\<close>): the loops that parse what best-effort broadcast delivers, the
  listener that turns parsed messages into commands, the invoker and \<^verbatim>\<open>Close\<close>.  A system of nodes
  that run these loops refines the system of \<open>ABA_System\<close>, in which a message is routed as it arrives.
  The gadget of \<^verbatim>\<open>mmrTermination.go\<close> has an invoker of its own.
\<close>

section \<open>The loops of a node\<close>

datatype aba_input = MsgIn abaMsg | TermIn terminationMsg

datatype aba_cmd = CmdMiddleware abaMsg | CmdTerm terminationMsg | CmdNew uuid

type_synonym 'pk aba_server = "('pk AbaChannel, aba_input, aba_cmd) server"

text \<open>
  One turn of the middlewares' loops: the message goes to a goroutine that waits to hand it to the
  listener, unless it cannot be parsed.
\<close>

definition aba_bebDeliver :: "('pk \<Rightarrow> bytes option) \<Rightarrow> 'pk BEBMsg \<Rightarrow> aba_input list \<Rightarrow> aba_input list" where
  "aba_bebDeliver serialize bebMsg out = out @ map MsgIn (aba_processMsg serialize bebMsg [])"

definition term_brbDeliver :: "('pk \<Rightarrow> bytes option) \<Rightarrow> 'pk BEBMsg \<Rightarrow> aba_input list \<Rightarrow> aba_input list" where
  "term_brbDeliver serialize brbMsg out = out @ map TermIn (fst (term_processMsg serialize brbMsg []))"

fun aba_cmd_of :: "aba_input \<Rightarrow> aba_cmd" where
  "aba_cmd_of (MsgIn m) = CmdMiddleware m"
| "aba_cmd_of (TermIn t) = CmdTerm t"

fun aba_run :: "aba_cmd \<Rightarrow> 'pk AbaChannel \<Rightarrow> 'pk AbaChannel" where
  "aba_run (CmdMiddleware m) ch = fst (processMiddlewareMsg m ch)"
| "aba_run (CmdTerm t) ch = fst (processTermMsg t ch)"
| "aba_run (CmdNew i) ch = fst (NewAbaInstance i ch)"

definition aba_chan_listener :: "nat \<Rightarrow> 'pk aba_server \<Rightarrow> 'pk aba_server option" where
  "aba_chan_listener k = srv_listen aba_cmd_of k"

definition aba_chan_listener_close :: "'pk aba_server \<Rightarrow> 'pk aba_server option" where
  "aba_chan_listener_close = srv_listener_close"

definition aba_invoker :: "nat option \<Rightarrow> 'pk aba_server \<Rightarrow> 'pk aba_server option" where
  "aba_invoker from S = (case from of None \<Rightarrow> srv_take aba_run S | Some k \<Rightarrow> srv_invoke aba_run k S)"

definition aba_invoker_close :: "'pk aba_server \<Rightarrow> 'pk aba_server option" where
  "aba_invoker_close = srv_invoker_close"

definition aba_Close :: "'pk aba_server \<Rightarrow> 'pk aba_server" where
  "aba_Close = srv_close [ToListener, ToInvoker]"

text \<open>Only callers of \<^verbatim>\<open>NewAbaInstance\<close> hand over commands besides the listener.\<close>

definition aba_wants :: "'pk AbaChannel \<Rightarrow> aba_cmd \<Rightarrow> bool" where
  "aba_wants ch c \<longleftrightarrow> (\<exists>i. c = CmdNew i)"

text \<open>What the other goroutines of the channel and the users of its instances do.\<close>

inductive aba_own :: "(bytes \<Rightarrow> bool) \<Rightarrow> 'pk AbaChannel \<Rightarrow> 'pk AbaChannel \<Rightarrow> bool" for toss where
  propose: "ref < length (abac_store ch) \<Longrightarrow> aba_own toss ch (fst (aba_Propose_ref ref est ch))"
| call: "j < length (abac_calls ch) \<Longrightarrow> aba_own toss ch (aba_run_call j ch)"
| listen: "\<lbrakk>ref < length (abac_store ch); aba_listener q ref ch = Some (ch', r)\<rbrakk> \<Longrightarrow> aba_own toss ch ch'"
| coin: "\<lbrakk>ref < length (abac_store ch); aba_coin toss j ref ch = Some ch'\<rbrakk> \<Longrightarrow> aba_own toss ch ch'"
| result: "\<lbrakk>ref < length (abac_store ch); handleAsyncResultDelivery ref ch = Some ch'\<rbrakk> \<Longrightarrow> aba_own toss ch ch'"
| read: "\<lbrakk>ref < length (abac_store ch); GetOutput (abac_store ch ! ref) = Some (v, a)\<rbrakk>
    \<Longrightarrow> aba_own toss ch (on_inst ref (\<lambda>_. a) ch)"
| inner: "\<lbrakk>ref < length (abac_store ch); mmr_goroutine (aba_mmr (abac_store ch ! ref)) m'\<rbrakk>
    \<Longrightarrow> aba_own toss ch (on_inst ref (\<lambda>a. a\<lparr>aba_mmr := m'\<rparr>) ch)"
| sends: "aba_own toss ch (ch\<lparr>abac_node := nd\<rparr>)"

text \<open>The steps of a channel for which the inputs in \<open>A\<close> can come in.\<close>

definition aba_local :: "(bytes \<Rightarrow> bool) \<Rightarrow> (aba_input \<Rightarrow> bool) \<Rightarrow> 'pk AbaChannel \<Rightarrow> 'pk AbaChannel \<Rightarrow> bool" where
  "aba_local toss A ch ch' \<longleftrightarrow> (\<exists>m. A (MsgIn m) \<and> ch' = fst (processMiddlewareMsg m ch))
     \<or> (\<exists>t. A (TermIn t) \<and> ch' = fst (processTermMsg t ch)) \<or> (\<exists>i. ch' = fst (NewAbaInstance i ch)) \<or> aba_own toss ch ch'"

fun aba_ok :: "(aba_input \<Rightarrow> bool) \<Rightarrow> aba_cmd \<Rightarrow> bool" where
  "aba_ok A (CmdMiddleware m) = A (MsgIn m)"
| "aba_ok A (CmdTerm t) = A (TermIn t)"
| "aba_ok A (CmdNew i) = True"

interpretation abal: command_loop A aba_cmd_of aba_run aba_wants "aba_own toss" "[ToListener, ToInvoker]" "aba_local toss A"
  "\<lambda>_. aba_ok A" for A toss
proof
  show "A m \<Longrightarrow> aba_ok A (aba_cmd_of m)" for m by (cases m) simp_all
  show "aba_wants s c \<Longrightarrow> aba_ok A c" for s and c by (auto simp: aba_wants_def)
  show "aba_ok A c \<Longrightarrow> aba_run c s = s \<or> aba_local toss A s (aba_run c s)" for s c
    by (cases c) (auto simp: aba_local_def)
qed (simp_all add: aba_local_def)

section \<open>The system\<close>

definition sys_of :: "(uuid \<Rightarrow> 'pk aba_server) \<Rightarrow> 'pk aba_sys" where
  "sys_of L = \<lparr>chan_of = (\<lambda>p. content (L p))\<rparr>"

text \<open>What the middlewares of node \<open>p\<close> can hand to its listener, given what has arrived.\<close>

definition aba_admits :: "net_cfg \<Rightarrow> ('pk \<Rightarrow> bytes option) \<Rightarrow> 'pk aba_sys \<Rightarrow> uuid \<Rightarrow> aba_input \<Rightarrow> bool" where
  "aba_admits c serialize S p m \<longleftrightarrow> (\<exists>bs pk x.
     arrives c serialize S (mBeb (chan_of S p)) bs pk x \<and> m \<in> set (aba_bebDeliver serialize \<lparr>beb_Content = bs, beb_Sender = pk\<rparr> [])
     \<or> arrives c serialize S (tBeb (chan_of S p)) bs pk x \<and> m \<in> set (term_brbDeliver serialize \<lparr>beb_Content = bs, beb_Sender = pk\<rparr> []))"

inductive loops_step ::
  "net_cfg \<Rightarrow> (bytes \<Rightarrow> bool) \<Rightarrow> ('pk \<Rightarrow> bytes option) \<Rightarrow> (uuid \<Rightarrow> 'pk aba_server) \<Rightarrow> (uuid \<Rightarrow> 'pk aba_server) \<Rightarrow> bool"
  for c toss serialize where
  node: "\<lbrakk>p \<in> correct c; serve (aba_admits c serialize (sys_of L) p) aba_cmd_of aba_run aba_wants (aba_own toss)
      [ToListener, ToInvoker] (L p) T\<rbrakk> \<Longrightarrow> loops_step c toss serialize L (L(p := T))"

inductive loops_reach ::
  "net_cfg \<Rightarrow> (bytes \<Rightarrow> bool) \<Rightarrow> ('pk \<Rightarrow> bytes option) \<Rightarrow> byte \<Rightarrow> byte \<Rightarrow> (uuid \<Rightarrow> 'pk aba_server) \<Rightarrow> bool"
  for c toss serialize mb tb where
  init: "loops_reach c toss serialize mb tb (\<lambda>p. new_server (NewAbaChannel (cfg_n c) (cfg_f c) mb tb (nds p)))"
| step: "loops_reach c toss serialize mb tb L \<Longrightarrow> loops_step c toss serialize L M \<Longrightarrow> loops_reach c toss serialize mb tb M"

section \<open>Refinement\<close>

lemma deliver_cases:
  fixes serialize :: "'pk \<Rightarrow> bytes option"
  shows "m \<in> set (aba_bebDeliver serialize \<lparr>beb_Content = bs, beb_Sender = pk\<rparr> []) \<Longrightarrow> \<exists>a. m = MsgIn a \<and> aba_parseMsg serialize bs pk = Inr a"
    "m \<in> set (term_brbDeliver serialize \<lparr>beb_Content = bs, beb_Sender = pk\<rparr> []) \<Longrightarrow>
      \<exists>x t. m = TermIn t \<and> PkToUUID serialize pk = Inr x \<and> (term_parseMsg bs x :: 'pk aba_mw_error + terminationMsg) = Inr t"
  by (auto simp: aba_bebDeliver_def aba_processMsg_def term_brbDeliver_def term_processMsg_def split: sum.splits)

lemma arrives_sender: "arrives c serialize S code bs pk x \<Longrightarrow> PkToUUID serialize pk = Inr y \<Longrightarrow> y = x"
  by (auto simp: arrives_def PkToUUID_def SerializePublicKey_def)

lemma admits_cases:
  fixes serialize :: "'pk \<Rightarrow> bytes option"
  assumes "aba_admits c serialize S p m"
  obtains (msg) bs pk x a where "m = MsgIn a" "arrives c serialize S (mBeb (chan_of S p)) bs pk x" "aba_parseMsg serialize bs pk = Inr a"
    | (trm) bs pk x t where "m = TermIn t" "arrives c serialize S (tBeb (chan_of S p)) bs pk x"
        "(term_parseMsg bs x :: 'pk aba_mw_error + terminationMsg) = Inr t"
  using assms unfolding aba_admits_def by (blast dest: deliver_cases arrives_sender)

lemma local_sys_step:
  assumes p: "p \<in> correct c" and st: "aba_local toss (aba_admits c serialize S p) (chan_of S p) ch"
  shows "sys_step c toss serialize S (set_chan p ch S)"
proof -
  have msg: "sys_step c toss serialize S (set_chan p (fst (processMiddlewareMsg m (chan_of S p))) S)" if "aba_admits c serialize S p (MsgIn m)" for m
    using that by (cases rule: admits_cases) (auto intro: sys_step.msg [OF p])
  have trm: "sys_step c toss serialize S (set_chan p (fst (processTermMsg t (chan_of S p))) S)" if "aba_admits c serialize S p (TermIn t)" for t
    using that by (cases rule: admits_cases) (auto intro: sys_step.decision [OF p])
  have own: "sys_step c toss serialize S (set_chan p ch S)" if "aba_own toss (chan_of S p) ch"
    using that by (cases rule: aba_own.cases) (auto intro: sys_step.intros [OF p])
  show ?thesis using st msg trm own sys_step.create [OF p] unfolding aba_local_def by blast
qed

lemma air_frame:
  "set (abac_aired ch) \<subseteq> set (abac_aired (fst (aba_air code bs bcast ch)))" "mBeb (fst (aba_air code bs bcast ch)) = mBeb ch"
  "tBeb (fst (aba_air code bs bcast ch)) = tBeb ch"
  by (auto simp: aba_air_def split: prod.split)

text \<open>Nothing a node does takes back what it has sent, nor changes the codes it listens under.\<close>

definition chan_le :: "'pk AbaChannel \<Rightarrow> 'pk AbaChannel \<Rightarrow> bool" where
  "chan_le ch ch' \<longleftrightarrow> set (abac_aired ch) \<subseteq> set (abac_aired ch') \<and> mBeb ch' = mBeb ch \<and> tBeb ch' = tBeb ch"

lemma getInstance_le: "aba_getInstance i ch = ((ch', ref), r) \<Longrightarrow> chan_le ch ch'"
  by (auto simp: aba_getInstance_def newAbaInstance_def chan_le_def split: if_splits option.splits)

lemma run_le: "chan_le ch (aba_run c ch)"
proof (cases c)
  case (CmdMiddleware m)
  obtain ch1 ref r where g: "aba_getInstance (abam_instance m) ch = ((ch1, ref), r)" by (metis prod.exhaust)
  then show ?thesis using getInstance_le [OF g] CmdMiddleware
    by (auto simp: processMiddlewareMsg_def chan_le_def split: option.split outcome.split)
next
  case (CmdTerm t)
  obtain ch1 ref r where g: "aba_getInstance (tm_instance t) ch = ((ch1, ref), r)" by (metis prod.exhaust)
  then show ?thesis using getInstance_le [OF g] CmdTerm
    by (auto simp: processTermMsg_def chan_le_def split: option.split outcome.split)
next
  case (CmdNew i)
  obtain ch1 ref r where g: "aba_getInstance i ch = ((ch1, ref), r)" by (metis prod.exhaust)
  then show ?thesis using getInstance_le [OF g] CmdNew by (simp add: NewAbaInstance_def)
qed

lemma on_inst_le [simp]: "chan_le ch (on_inst ref g ch)"
  by (simp add: chan_le_def on_inst_def)

lemma chan_le_refl: "chan_le ch ch"
  by (simp add: chan_le_def)

lemma chan_le_trans: "chan_le a b \<Longrightarrow> chan_le b d \<Longrightarrow> chan_le a d"
  by (auto simp: chan_le_def)

lemma air_le: "chan_le ch ch' \<Longrightarrow> chan_le ch (fst (aba_air code bs bcast ch'))"
  using air_frame [where ch = ch' and code = code and bs = bs and bcast = bcast] by (auto simp: chan_le_def)

lemma listener_le: "aba_listener q ref ch = Some (ch', r) \<Longrightarrow> chan_le ch ch'"
proof (cases q)
  case LsDecision
  assume "aba_listener q ref ch = Some (ch', r)"
  then obtain d m' where "aba_outputDecision ref d (on_inst ref (aba_mmr_update (\<lambda>_. m')) ch) = (ch', r)"
    using LsDecision by (auto simp: aba_listener_def Let_def split: if_splits option.splits)
  then have "ch' = fst (aba_outputDecision ref d (on_inst ref (aba_mmr_update (\<lambda>_. m')) ch))" by simp
  moreover have "chan_le (on_inst ref (aba_mmr_update (\<lambda>_. m')) ch) (fst (aba_outputDecision ref d (on_inst ref (aba_mmr_update (\<lambda>_. m')) ch)))"
    by (auto simp: aba_outputDecision_def Let_def chan_le_refl split: option.split intro: air_le)
  ultimately show ?thesis using chan_le_trans on_inst_le by metis
qed (auto simp: aba_listener_def Let_def split: if_splits prod.splits dest!: arg_cong [of _ _ fst] intro!: air_le)

lemma own_le: "aba_own toss ch ch' \<Longrightarrow> chan_le ch ch'"
proof (induction rule: aba_own.induct)
  case (propose ref ch est)
  then show ?case by (simp add: aba_Propose_ref_def chan_le_def on_inst_def split: prod.split)
next
  case (call j ch)
  then show ?case by (simp add: aba_run_call_def chan_le_def on_inst_def Let_def split: prod.split)
next
  case (listen ref ch q ch' r)
  then show ?case by (intro listener_le)
next
  case (coin ref ch j ch')
  then show ?case by (auto simp: aba_coin_def Let_def split: if_splits prod.splits)
next
  case (result ref ch ch')
  then show ?case
    by (auto simp: handleAsyncResultDelivery_def closeWrappedInstance_def Let_def on_inst_def chan_le_def split: result_pc.splits if_splits option.splits)
next
  case (sends ch nd)
  then show ?case by (simp add: chan_le_def)
qed (simp_all add: chan_le_def on_inst_def)

lemma local_le: "aba_local toss A ch ch' \<Longrightarrow> chan_le ch ch'"
  using run_le [of ch "CmdMiddleware _"] run_le [of ch "CmdTerm _"] run_le [of ch "CmdNew _"] own_le by (auto simp: aba_local_def)

lemma admits_mono:
  assumes "aba_admits c serialize S q m" and le: "chan_le (chan_of S p) ch"
  shows "aba_admits c serialize (set_chan p ch S) q m"
proof -
  have "mBeb (chan_of (set_chan p ch S) q) = mBeb (chan_of S q)" "tBeb (chan_of (set_chan p ch S) q) = tBeb (chan_of S q)"
    using le by (auto simp: set_chan_def chan_le_def)
  moreover have "arrives c serialize S code bs pk x \<Longrightarrow> arrives c serialize (set_chan p ch S) code bs pk x" for code bs pk x
    using le by (auto simp: arrives_def set_chan_def chan_le_def)
  ultimately show ?thesis using assms(1) unfolding aba_admits_def by metis
qed

lemma pending_mono:
  assumes "abal.pending_ok A S" and "\<And>m. A m \<Longrightarrow> B m"
  shows "abal.pending_ok B S"
proof -
  have "aba_ok A c \<Longrightarrow> aba_ok B c" for c using assms(2) by (cases c) simp_all
  then show ?thesis using assms by (auto simp: abal.pending_ok_def)
qed

lemma sys_of_upd: "sys_of (L(p := T)) = set_chan p (content T) (sys_of L)"
  by (auto simp: sys_of_def set_chan_def)

lemma loops_refine:
  assumes "loops_reach c toss serialize mb tb L"
  shows "sys_reach c toss serialize mb tb (sys_of L) \<and> (\<forall>q. abal.pending_ok (aba_admits c serialize (sys_of L) q) (L q))"
  using assms
proof (induction rule: loops_reach.induct)
  case (init nds)
  have "sys_of (\<lambda>p. new_server (NewAbaChannel (cfg_n c) (cfg_f c) mb tb (nds p))) = sys_init c mb tb nds"
    by (simp add: sys_of_def sys_init_def new_server_def)
  then show ?case by (simp add: sys_reach.init abal.pending_new)
next
  case (step L M)
  from step.hyps(2) obtain p T where p: "p \<in> correct c" and M: "M = L(p := T)"
    and st: "serve (aba_admits c serialize (sys_of L) p) aba_cmd_of aba_run aba_wants (aba_own toss) [ToListener, ToInvoker] (L p) T"
    by (auto elim: loops_step.cases)
  have pend: "abal.pending_ok (aba_admits c serialize (sys_of L) q) (L q)" for q using step.IH by blast
  note s = abal.serves_step [OF pend st]
  have ch: "chan_of (sys_of L) p = content (L p)" by (simp add: sys_of_def)
  have le: "chan_le (chan_of (sys_of L) p) (content T)" using s(2) local_le chan_le_refl unfolding ch by metis
  have reach: "sys_reach c toss serialize mb tb (sys_of M)"
  proof (cases "content T = content (L p)")
    case True
    then have "sys_of M = sys_of L" by (auto simp: sys_of_def M)
    then show ?thesis using step.IH by simp
  next
    case False
    then have "aba_local toss (aba_admits c serialize (sys_of L) p) (chan_of (sys_of L) p) (content T)" using s(2) ch by simp
    from sys_reach.step [OF conjunct1 [OF step.IH] local_sys_step [OF p this]] show ?thesis by (simp add: M sys_of_upd)
  qed
  have "abal.pending_ok (aba_admits c serialize (sys_of M) q) (M q)" for q
  proof (rule pending_mono [of "aba_admits c serialize (sys_of L) q"])
    show "abal.pending_ok (aba_admits c serialize (sys_of L) q) (M q)" using s(1) pend by (simp add: M)
    show "aba_admits c serialize (sys_of L) q m \<Longrightarrow> aba_admits c serialize (sys_of M) q m" for m
      using admits_mono [OF _ le] by (simp add: M sys_of_upd)
  qed
  with reach show ?case by blast
qed

section \<open>The loops lose nothing\<close>

text \<open>The nodes between two turns of their loops.\<close>

definition idle_of :: "'pk aba_sys \<Rightarrow> uuid \<Rightarrow> 'pk aba_server" where
  "idle_of S p = new_server (chan_of S p)"

lemma idle_sys: "sys_of (idle_of S) = S"
  by (simp add: sys_of_def idle_of_def new_server_def)

lemma idle_upd: "(idle_of S)(p := new_server ch) = idle_of (set_chan p ch S)"
  by (auto simp: idle_of_def set_chan_def)

text \<open>Steps of one node during which its channel stays as it is.\<close>

lemma node_steps:
  fixes L :: "uuid \<Rightarrow> 'pk aba_server" and serialize :: "'pk \<Rightarrow> bytes option"
  assumes p: "p \<in> correct c"
    and "(\<lambda>T U. content T = content (L p) \<and> serve (aba_admits c serialize (sys_of L) p) aba_cmd_of aba_run aba_wants (aba_own toss)
      [ToListener, ToInvoker] T U)\<^sup>*\<^sup>* (L p) T"
  shows "(loops_step c toss serialize)\<^sup>*\<^sup>* L (L(p := T))"
  using assms(2)
proof (induction rule: rtranclp_induct)
  case (step T U)
  let ?M = "L(p := T)"
  have "sys_of ?M = sys_of L" using step.hyps(2) by (auto simp: sys_of_def)
  then have "loops_step c toss serialize ?M (?M(p := U))" using step.hyps(2) by (intro loops_step.node [OF p]) simp
  then have "loops_step c toss serialize ?M (L(p := U))" by (simp only: fun_upd_upd)
  with step.IH show ?case by - (rule rtranclp.rtrancl_into_rtrancl)
qed simp

lemma idle_step:
  assumes "sys_step c toss serialize S S'"
  shows "(loops_step c toss serialize)\<^sup>*\<^sup>* (idle_of S) (idle_of S')"
proof -
  let ?serve = "\<lambda>p. serve (aba_admits c serialize S p) aba_cmd_of aba_run aba_wants (aba_own toss) [ToListener, ToInvoker]"
  let ?R = "\<lambda>p T U. content T = content (idle_of S p) \<and> ?serve p T U"
  have one: "(loops_step c toss serialize)\<^sup>*\<^sup>* (idle_of S) (idle_of (set_chan p ch S))"
    if p: "p \<in> correct c" and "aba_own toss (chan_of S p) ch" for p ch
  proof -
    have "?serve p (idle_of S p) (new_server ch)" using abal.serves_own [OF that(2)] by (simp add: idle_of_def)
    then show ?thesis using loops_step.node [OF p, of serialize "idle_of S" toss "new_server ch"] by (simp add: idle_sys idle_upd)
  qed
  have input: "(loops_step c toss serialize)\<^sup>*\<^sup>* (idle_of S) (idle_of (set_chan p (aba_run (aba_cmd_of m) (chan_of S p)) S))"
    if p: "p \<in> correct c" and m: "aba_admits c serialize S p m" for p m
  proof -
    let ?A = "srv_arrive m (idle_of S p)"
    let ?B = "?A\<lparr>inbox := [], listener := Handing (aba_cmd_of m)\<rparr>"
    have "?serve p (idle_of S p) ?A" by (rule serve.arrive) (rule m)
    moreover have "?serve p ?A ?B" by (rule serve.listen [of _ 0]) (simp add: srv_listen_def srv_arrive_def idle_of_def new_server_def without_def)
    moreover have "?serve p ?B (new_server (aba_run (aba_cmd_of m) (chan_of S p)))"
      by (rule serve.take) (simp add: srv_take_def srv_arrive_def idle_of_def new_server_def)
    moreover have "content ?A = content (idle_of S p)" "content ?B = content (idle_of S p)" by (simp_all add: srv_arrive_def)
    ultimately have s: "?R p (idle_of S p) ?A" "?R p ?A ?B" "?R p ?B (new_server (aba_run (aba_cmd_of m) (chan_of S p)))" by simp_all
    have "(?R p)\<^sup>*\<^sup>* (idle_of S p) ?B" by (rule rtranclp.rtrancl_into_rtrancl [of "?R p", OF r_into_rtranclp [of "?R p", OF s(1)] s(2)])
    from node_steps [OF p, where L = "idle_of S", unfolded idle_sys, OF rtranclp.rtrancl_into_rtrancl [of "?R p", OF this s(3)]]
    show ?thesis by (simp only: idle_upd)
  qed
  from assms show ?thesis
  proof cases
    case (msg p bs pk x m)
    then have "aba_admits c serialize S p (MsgIn m)"
      unfolding aba_admits_def by (intro exI [of _ bs] exI [of _ pk] exI [of _ x]) (simp add: aba_bebDeliver_def aba_processMsg_def)
    from input [OF msg(2) this] show ?thesis by (simp add: msg(1))
  next
    case (decision p bs pk x t)
    then have "PkToUUID serialize pk = Inr x" by (auto simp: arrives_def PkToUUID_def SerializePublicKey_def)
    then have "aba_admits c serialize S p (TermIn t)"
      using decision unfolding aba_admits_def by (intro exI [of _ bs] exI [of _ pk] exI [of _ x]) (simp add: term_brbDeliver_def term_processMsg_def)
    from input [OF decision(2) this] show ?thesis by (simp add: decision(1))
  next
    case (create p i)
    let ?A = "srv_call (CmdNew i) (idle_of S p)"
    have "?serve p (idle_of S p) ?A" by (rule serve.call) (simp add: aba_wants_def)
    moreover have "?serve p ?A (new_server (aba_run (CmdNew i) (chan_of S p)))"
      by (rule serve.invoke [of _ 0]) (simp add: srv_invoke_def srv_call_def idle_of_def new_server_def without_def)
    moreover have "content ?A = content (idle_of S p)" by (simp add: srv_call_def)
    ultimately have s: "?R p (idle_of S p) ?A" "?R p ?A (new_server (aba_run (CmdNew i) (chan_of S p)))" by simp_all
    from node_steps [OF create(2), where L = "idle_of S", unfolded idle_sys,
        OF rtranclp.rtrancl_into_rtrancl [of "?R p", OF r_into_rtranclp [of "?R p", OF s(1)] s(2)]]
    show ?thesis by (simp add: idle_upd create(1))
  qed (auto intro: one aba_own.intros)
qed

lemma idle_reach: "sys_reach c toss serialize mb tb S \<Longrightarrow> loops_reach c toss serialize mb tb (idle_of S)"
proof (induction rule: sys_reach.induct)
  case (init nds)
  have "idle_of (sys_init c mb tb nds) = (\<lambda>p. new_server (NewAbaChannel (cfg_n c) (cfg_f c) mb tb (nds p)))"
    by (simp add: idle_of_def sys_init_def fun_eq_iff)
  then show ?case by (simp add: loops_reach.init)
next
  case (step S T)
  have "loops_reach c toss serialize mb tb M" if "(loops_step c toss serialize)\<^sup>*\<^sup>* (idle_of S) M" for M
    using that by (induction rule: rtranclp_induct) (auto intro: step.IH loops_reach.step)
  then show ?case using idle_step [OF step.hyps(2)] by blast
qed

section \<open>The invoker of the termination gadget\<close>

type_synonym term_server = "(mmrTermination, byte \<times> uuid, byte \<times> uuid) server"

definition term_invoker :: "nat \<Rightarrow> term_server \<Rightarrow> term_server option" where
  "term_invoker k = srv_invoke (\<lambda>(decision, sender) t. fst (term_submitDecision decision sender t)) k"

definition term_invoker_close :: "term_server \<Rightarrow> term_server option" where
  "term_invoker_close = srv_invoker_close"

definition term_close :: "term_server \<Rightarrow> term_server" where
  "term_close = srv_close [ToInvoker]"

interpretation terml: command_loop "\<lambda>_. False" id "\<lambda>(decision, sender) t. fst (term_submitDecision decision sender t)" "\<lambda>_ _. True"
  "\<lambda>_ _. False" "[ToInvoker]" "\<lambda>t t'. \<exists>v x. t' = fst (term_submitDecision v x t)" "\<lambda>_ _. True"
  by unfold_locales auto

text \<open>The loops of one node, whatever arrives.\<close>

definition aba_serve :: "(bytes \<Rightarrow> bool) \<Rightarrow> 'pk aba_server \<Rightarrow> 'pk aba_server \<Rightarrow> bool" where
  "aba_serve toss = serve (\<lambda>_. True) aba_cmd_of aba_run aba_wants (aba_own toss) [ToListener, ToInvoker]"

section \<open>Properties\<close>

text \<open>
  C25. The loops of the binary-agreement channels neither add nor lose behaviour: the systems that the
  loops of the middlewares, the listeners, the invokers and calls of \<^verbatim>\<open>Close\<close> lead to are exactly those
  that routing each message as it arrives leads to.  So what is shown of \<open>sys_reach\<close> holds for the
  channels as they run.
\<close>

theorem aba_loops_equiv:
  "(\<exists>L. loops_reach c toss serialize mb tb L \<and> sys_of L = S) = sys_reach c toss serialize mb tb S"
  using loops_refine idle_reach idle_sys by blast

text \<open>
  \<^verbatim>\<open>Close\<close> of the binary-agreement channel can strand its listener: there is a run of the loops in which
  \<^verbatim>\<open>Close\<close> has returned and the invoker has stopped while the listener was handing over a message, and
  from then on the listener waits for ever and the channel routes nothing.
\<close>

theorem aba_close_strands_listener:
  "\<exists>S. (aba_serve toss)\<^sup>*\<^sup>* (new_server s) S \<and> closers S = [[]] \<and> \<not> invoking S
    \<and> (\<nexists>T. (aba_serve toss)\<^sup>*\<^sup>* S T \<and> (invoking T \<or> listener T \<noteq> Handing (CmdMiddleware m) \<or> \<not> (aba_own toss)\<^sup>*\<^sup>* (content S) (content T)))"
proof -
  obtain S where S: "(aba_serve toss)\<^sup>*\<^sup>* (new_server s) S" "closers S = [[]]" "\<not> invoking S"
    "\<And>T. (aba_serve toss)\<^sup>*\<^sup>* S T \<Longrightarrow> listener T = Handing (CmdMiddleware m)"
    using abal.close_strands [where A = "\<lambda>_. True" and m = "MsgIn m" and s = s and toss = toss] unfolding aba_serve_def by auto
  have "\<not> invoking T \<and> (aba_own toss)\<^sup>*\<^sup>* (content S) (content T)" if "(aba_serve toss)\<^sup>*\<^sup>* S T" for T
    using abal.serves_stopped [where A = "\<lambda>_. True" and S = S and T = T and toss = toss] that S(3) by (simp add: aba_serve_def)
  with S show ?thesis by blast
qed

end
