(* ===== verification/ACS_Loops.thy ===== *)
theory ACS_Loops
  imports ACS_Channel Command_Loop
begin

text \<open>
  The goroutines around the common-subset channel (\<^verbatim>\<open>bkrChannel.go\<close>): \<^verbatim>\<open>listenBroadcasts\<close>, which starts a goroutine
  per delivered proposal, the invoker those goroutines wait for, and \<^verbatim>\<open>Close\<close>.  The goroutines that wait
  are the list \<open>bkr_commands\<close> of the channel.  \<^verbatim>\<open>Close\<close> signals the invoker only, so the listener never
  stops, and after it the proposals that still arrive wait for ever.
\<close>

type_synonym 'pk bkr_server = "('pk AbaChannel \<times> BKRChannel, BRBMsg, unit) server"

definition listenBroadcasts :: "nat \<Rightarrow> 'pk bkr_server \<Rightarrow> 'pk bkr_server option" where
  "listenBroadcasts k S =
     (case (listener S, content S) of
        (Listening, (ch, c)) \<Rightarrow>
          if k < length (inbox S)
          then Some (S\<lparr>inbox := without k (inbox S),
                 content := (ch, fst (processBroadcast (inbox S ! k) c :: BKRChannel \<times> 'pk bkrc_error outcome))\<rparr>)
          else None
      | _ \<Rightarrow> None)"

definition listenBroadcasts_close :: "'pk bkr_server \<Rightarrow> 'pk bkr_server option" where
  "listenBroadcasts_close = srv_listener_close"

definition bkr_invoker :: "nat \<Rightarrow> 'pk bkr_server \<Rightarrow> 'pk bkr_server option" where
  "bkr_invoker j S =
     (if invoking S \<and> j < length (bkr_commands (snd (content S)))
      then Some (S\<lparr>content := bkr_run_command j (content S)\<rparr>) else None)"

definition bkr_invoker_close :: "'pk bkr_server \<Rightarrow> 'pk bkr_server option" where
  "bkr_invoker_close = srv_invoker_close"

definition bkr_Close :: "'pk bkr_server \<Rightarrow> 'pk bkr_server" where
  "bkr_Close = srv_close [ToInvoker]"

text \<open>Callers of \<^verbatim>\<open>Propose\<close>, the goroutines of the instances, and binary agreement.\<close>

inductive bkr_own :: "'pk AbaChannel \<times> BKRChannel \<Rightarrow> 'pk AbaChannel \<times> BKRChannel \<Rightarrow> bool" where
  propose: "bkr_own s (fst (fst (bkr_Propose beb nonce i v s)))"
| respond: "bkr_respond ref j s = Some t \<Longrightarrow> bkr_own s t"
| forward: "bkr_forward ref j s = Some t \<Longrightarrow> bkr_own s t"
| process: "bkr_process ref s = Some t \<Longrightarrow> bkr_own s t"
| agreement: "bkr_own (ch, c) (ch', c)"

inductive bkr_serve :: "'pk bkr_server \<Rightarrow> 'pk bkr_server \<Rightarrow> bool" where
  arrive: "bkr_serve S (srv_arrive m S)"
| listen: "listenBroadcasts k S = Some T \<Longrightarrow> bkr_serve S T"
| listener_close: "listenBroadcasts_close S = Some T \<Longrightarrow> bkr_serve S T"
| invoke: "bkr_invoker j S = Some T \<Longrightarrow> bkr_serve S T"
| invoker_close: "bkr_invoker_close S = Some T \<Longrightarrow> bkr_serve S T"
| close: "bkr_serve S (bkr_Close S)"
| signal: "srv_signal k S = Some T \<Longrightarrow> bkr_serve S T"
| own: "bkr_own (content S) s \<Longrightarrow> bkr_serve S (S\<lparr>content := s\<rparr>)"

section \<open>The listener never stops\<close>

text \<open>No signal is ever sent to the listener.\<close>

definition unsignalled :: "'pk bkr_server \<Rightarrow> bool" where
  "unsignalled S \<longleftrightarrow> listener S = Listening \<and> ch_sent (closeListener S) = [] \<and> (\<forall>sigs \<in> set (closers S). ToListener \<notin> set sigs)"

lemma signal_unsignalled:
  assumes "srv_signal k S = Some T" and "unsignalled S"
  shows "unsignalled T"
proof -
  have k: "k < length (closers S)" using assms(1) by (auto simp: srv_signal_def split: if_splits)
  have not: "\<forall>sigs \<in> set (closers S). ToListener \<notin> set sigs" and l: "listener S = Listening" "ch_sent (closeListener S) = []"
    using assms(2) by (simp_all add: unsignalled_def)
  obtain x sigs where x: "closers S ! k = x # sigs" using assms(1) k by (auto simp: srv_signal_def split: list.splits)
  have "ToListener \<notin> set (x # sigs)" using bspec [OF not nth_mem [OF k]] by (simp only: x not_False_eq_True)
  then have "x = ToInvoker" "ToListener \<notin> set sigs" by (cases x; simp)+
  then have "closers T = (closers S)[k := sigs]" "listener T = Listening" "ch_sent (closeListener T) = []"
    using assms(1) k x l by (auto simp: srv_signal_def)
  then show ?thesis using not \<open>ToListener \<notin> set sigs\<close> by (auto simp: unsignalled_def dest!: set_update_subset_insert [THEN subsetD])
qed

lemma serve_unsignalled:
  assumes "bkr_serve S T" and u: "unsignalled S"
  shows "unsignalled T"
  using assms(1)
proof cases
  case (listener_close)
  then show ?thesis using u by (simp add: listenBroadcasts_close_def srv_listener_close_def unsignalled_def chan_recv_def)
next
  case (signal k)
  then show ?thesis using u by (rule signal_unsignalled)
qed (use u in \<open>auto simp: unsignalled_def srv_arrive_def listenBroadcasts_def bkr_invoker_def bkr_invoker_close_def srv_invoker_close_def
    bkr_Close_def srv_close_def split: if_splits prod.splits listener_pc.splits\<close>)

section \<open>After Close\<close>

lemma createNewInstance_commands: "bkr_commands (snd (fst (createNewInstance i s))) = bkr_commands (snd s)"
  by (cases s) (auto simp: createNewInstance_def split: option.split prod.split)

lemma own_commands: "bkr_own s t \<Longrightarrow> bkr_commands (snd t) = bkr_commands (snd s)"
proof (induction rule: bkr_own.induct)
  case (propose s beb nonce i v)
  obtain ch c where s: "s = (ch, c)" by fastforce
  have "bkr_commands (snd (fst (bkr_getInstance i (x, c)))) = bkr_commands c" for x :: "'a AbaChannel"
    using createNewInstance_commands [of i "(x, c)"] by (auto simp: bkr_getInstance_def split: option.split)
  then show ?case
    by (auto simp: s bkr_Propose_def split: prod.splits outcome.splits) (metis fst_conv snd_conv)
qed (auto simp: bkr_respond_def bkr_forward_def bkr_process_def on_bkr_def)

lemma serve_stopped:
  assumes "bkr_serve S T" and "\<not> invoking S"
  shows "\<not> invoking T \<and> (\<exists>cs. bkr_commands (snd (content T)) = bkr_commands (snd (content S)) @ cs)"
  using assms(1)
proof cases
  case (listen k)
  then show ?thesis using assms(2)
    by (auto simp: listenBroadcasts_def processBroadcast_def split: listener_pc.splits prod.splits if_splits sum.splits)
next
  case (signal k)
  then show ?thesis using assms(2) srv_signal_frame [OF signal] by simp
next
  case (own s)
  then show ?thesis using assms(2) own_commands [of "content S" s] by simp
qed (use assms(2) in \<open>auto simp: srv_arrive_def listenBroadcasts_close_def srv_listener_close_def bkr_invoker_def bkr_invoker_close_def
    srv_invoker_close_def bkr_Close_def srv_close_def split: if_splits listener_pc.splits\<close>)

lemma served_stopped:
  "bkr_serve\<^sup>*\<^sup>* S T \<Longrightarrow> \<not> invoking S \<Longrightarrow> \<not> invoking T \<and> (\<exists>cs. bkr_commands (snd (content T)) = bkr_commands (snd (content S)) @ cs)"
proof (induction rule: rtranclp_induct)
  case (step T U)
  then show ?case using serve_stopped [of T U] by fastforce
qed simp

lemma served_unsignalled: "bkr_serve\<^sup>*\<^sup>* S T \<Longrightarrow> unsignalled S \<Longrightarrow> unsignalled T"
  by (induction rule: rtranclp_induct) (auto intro: serve_unsignalled)

lemma new_unsignalled: "unsignalled (new_server s)"
  by (simp add: unsignalled_def new_server_def)

text \<open>
  \<^verbatim>\<open>Close\<close> of the common-subset channel stops its invoker only: whatever happens, its listener goes on taking
  the messages of reliable broadcast, and once the invoker has stopped the goroutines started for
  them pile up: none of their commands runs any more.
\<close>

theorem bkr_close_keeps_listener:
  assumes "bkr_serve\<^sup>*\<^sup>* (new_server s) S"
  shows "listener S = Listening" and "\<not> invoking S \<Longrightarrow> bkr_serve\<^sup>*\<^sup>* S T \<Longrightarrow>
    \<exists>cs. bkr_commands (snd (content T)) = bkr_commands (snd (content S)) @ cs"
  using served_unsignalled [OF assms new_unsignalled] served_stopped by (auto simp: unsignalled_def)

end
