(* ===== verification/Overlay_Close.thy ===== *)
theory Overlay_Close
  imports Overlay_Network
begin

text \<open>
  The accept loop of a node and \<^verbatim>\<open>Close\<close> (\<^verbatim>\<open>overlayNetwork/node.go\<close>).  \<^verbatim>\<open>Close\<close> closes the listener and the
  connections and then waits for the loop to end, which it announces once on \<^verbatim>\<open>closeChan\<close>.  Every error of
  \<^verbatim>\<open>Accept\<close> counts as a closed listener, so the first one ends the loop.
\<close>

section \<open>The loop\<close>

text \<open>What \<^verbatim>\<open>listener.Accept\<close> returns: an error, or the connection \<open>k\<close>.\<close>

datatype 'pk accepted = AcceptError | Accepted nat "'pk cert_key list" bytes

datatype 'pk inbound_error = ListenerCloseError | InboundError "'pk net_error"

definition isListenerClosed :: "'pk inbound_error \<Rightarrow> bool" where
  "isListenerClosed e = (case e of ListenerCloseError \<Rightarrow> True | InboundError _ \<Rightarrow> False)"

definition inbound_of :: "('pk \<Rightarrow> bytes option) \<Rightarrow> 'pk accepted \<Rightarrow> ('pk peer \<times> bytes) \<times> 'pk inbound_error outcome" where
  "inbound_of serialize a =
     (case a of
        AcceptError \<Rightarrow> ((zero_peer, []), GoErr ListenerCloseError)
      | Accepted k certs stream \<Rightarrow> wrap_err InboundError (getInbound serialize k certs stream))"

datatype accept_pc = Accepting | Leaving | Left

datatype node_close_pc = CloseTheListener | CloseTheConnections | AwaitLoop | CloseReturned

record 'pk node_loops =
  the_node :: "'pk node"
  listener_open :: bool
  accept_pc :: accept_pc
  closeChan :: "unit chan"
  closing :: "node_close_pc list"

definition startNode :: "'pk node \<Rightarrow> 'pk node_loops" where
  "startNode nd = \<lparr>the_node = nd, listener_open = True, accept_pc = Accepting, closeChan = make_chan 1, closing = []\<rparr>"

text \<open>One turn of the loop; a closed listener accepts nothing.  A panic ends the program.\<close>

definition listenConnections ::
  "('pk \<Rightarrow> bytes option) \<Rightarrow> bool \<Rightarrow> 'pk accepted \<Rightarrow> 'pk node_loops \<Rightarrow> 'pk node_loops option"
where
  "listenConnections serialize amContact a S =
     (case accept_pc S of
        Accepting \<Rightarrow>
          if a \<noteq> AcceptError \<and> \<not> listener_open S then None
          else (case inbound_of serialize a of
                  ((p, r), GoNil) \<Rightarrow>
                    Some (S\<lparr>the_node := (the_node S)\<lparr>connecting := connecting (the_node S) @ [(p, amContact)]\<rparr>\<rparr>)
                | (_, GoErr e) \<Rightarrow> Some (if isListenerClosed e then S\<lparr>accept_pc := Leaving\<rparr> else S)
                | _ \<Rightarrow> None)
      | Leaving \<Rightarrow> map_option (\<lambda>ch. S\<lparr>closeChan := ch, accept_pc := Left\<rparr>) (chan_send () (closeChan S))
      | Left \<Rightarrow> None)"

text \<open>The call \<open>j\<close> of \<^verbatim>\<open>Close\<close> takes its next step.\<close>

definition node_Close :: "nat \<Rightarrow> 'pk node_loops \<Rightarrow> 'pk node_loops option" where
  "node_Close j S =
     (if j < length (closing S)
      then case closing S ! j of
             CloseTheListener \<Rightarrow> Some (S\<lparr>listener_open := False, closing := (closing S)[j := CloseTheConnections]\<rparr>)
           | CloseTheConnections \<Rightarrow>
               (case closeAllConnections (the_node S) of
                  (nd, GoNil) \<Rightarrow> Some (S\<lparr>the_node := nd, closing := (closing S)[j := AwaitLoop]\<rparr>) | _ \<Rightarrow> None)
           | AwaitLoop \<Rightarrow> map_option (\<lambda>(_, ch). S\<lparr>closeChan := ch, closing := (closing S)[j := CloseReturned]\<rparr>) (chan_recv (closeChan S))
           | CloseReturned \<Rightarrow> None
      else None)"

definition call_Close :: "'pk node_loops \<Rightarrow> 'pk node_loops" where
  "call_Close S = S\<lparr>closing := closing S @ [CloseTheListener]\<rparr>"

inductive node_step :: "('pk \<Rightarrow> bytes option) \<Rightarrow> 'pk node_loops \<Rightarrow> 'pk node_loops \<Rightarrow> bool" for serialize where
  turn: "listenConnections serialize amContact a S = Some T \<Longrightarrow> node_step serialize S T"
| call: "node_step serialize S (call_Close S)"
| close: "node_Close j S = Some T \<Longrightarrow> node_step serialize S T"
| other: "node_step serialize S (S\<lparr>the_node := nd\<rparr>)"

text \<open>As long as the listener is open and accepts, a turn is what \<open>acceptConnection\<close> says.\<close>

lemma turn_accepts:
  assumes "accept_pc S = Accepting" "listener_open S"
    and "listenConnections serialize amContact (Accepted k certs stream) S = Some T"
  shows "T = S\<lparr>the_node := fst (acceptConnection serialize amContact k certs stream (the_node S))\<rparr>"
  using assms by (auto simp: listenConnections_def inbound_of_def acceptConnection_def isListenerClosed_def
      split: prod.splits outcome.splits)

section \<open>What holds of every run\<close>

text \<open>The loop signals once, and each signal lets one call of \<^verbatim>\<open>Close\<close> return.\<close>

definition returned :: "'pk node_loops \<Rightarrow> nat" where
  "returned S = length (filter (\<lambda>pc. pc = CloseReturned) (closing S))"

definition close_inv :: "'pk node_loops \<Rightarrow> bool" where
  "close_inv S \<longleftrightarrow> ch_cap (closeChan S) = 1 \<and> ch_taken (closeChan S) = returned S
     \<and> returned S \<le> length (ch_sent (closeChan S)) \<and> length (ch_sent (closeChan S)) = (if accept_pc S = Left then 1 else 0)"

lemma returned_update:
  "j < length xs \<Longrightarrow> xs ! j \<noteq> CloseReturned \<Longrightarrow>
    length (filter (\<lambda>pc. pc = CloseReturned) (xs[j := pc])) = length (filter (\<lambda>pc. pc = CloseReturned) xs) + (if pc = CloseReturned then 1 else 0)"
proof (induction xs arbitrary: j)
  case (Cons x xs)
  then show ?case by (cases j) auto
qed simp

lemma close_inv_step:
  assumes "node_step serialize S T" and inv: "close_inv S"
  shows "close_inv T"
  using assms(1)
proof cases
  case (turn amContact a)
  then show ?thesis using inv
    by (auto simp: close_inv_def returned_def listenConnections_def chan_send_def split: accept_pc.splits if_splits prod.splits outcome.splits)
next
  case call
  then show ?thesis using inv by (simp add: close_inv_def returned_def call_Close_def)
next
  case (close j)
  then have j: "j < length (closing S)" "closing S ! j \<noteq> CloseReturned" by (auto simp: node_Close_def split: if_splits)
  from close show ?thesis using inv returned_update [OF j]
    by (auto simp: close_inv_def returned_def node_Close_def chan_recv_def split: node_close_pc.splits if_splits prod.splits outcome.splits)
next
  case (other nd)
  then show ?thesis using inv by (simp add: close_inv_def returned_def)
qed

lemma close_inv_reach:
  assumes "(node_step serialize)\<^sup>*\<^sup>* (startNode nd) S"
  shows "close_inv S"
  using assms
proof (induction rule: rtranclp_induct)
  case base
  show ?case by (simp add: close_inv_def returned_def startNode_def)
next
  case (step S T)
  then show ?case by (blast intro: close_inv_step)
qed

text \<open>A node can be closed once: of all calls of \<^verbatim>\<open>Close\<close> at most one ever returns, the others wait for ever.\<close>

theorem node_close_once:
  assumes "(node_step serialize)\<^sup>*\<^sup>* (startNode nd) S"
  shows "returned S \<le> 1"
  using close_inv_reach [OF assms] by (auto simp: close_inv_def split: if_splits)

text \<open>A loop that has met an error of \<^verbatim>\<open>Accept\<close> takes in no connection any more.\<close>

lemma left_stays:
  assumes "node_step serialize S T" and "accept_pc S \<noteq> Accepting"
  shows "accept_pc T \<noteq> Accepting"
  using assms(1)
proof cases
  case (turn amContact a)
  then show ?thesis using assms(2) by (auto simp: listenConnections_def split: accept_pc.splits)
next
  case (close j)
  then show ?thesis using assms(2)
    by (auto simp: node_Close_def split: if_splits node_close_pc.splits prod.splits outcome.splits)
qed (use assms(2) in \<open>simp_all add: call_Close_def\<close>)

theorem accept_error_ends_loop:
  assumes "accept_pc S = Accepting" and "listenConnections serialize amContact AcceptError S = Some T" and "(node_step serialize)\<^sup>*\<^sup>* T U"
  shows "listenConnections serialize amContact (Accepted k certs stream) U = Some V \<Longrightarrow> the_node V = the_node U"
proof -
  have "accept_pc T \<noteq> Accepting" using assms(1,2) by (auto simp: listenConnections_def inbound_of_def isListenerClosed_def)
  with assms(3) have "accept_pc U \<noteq> Accepting" by (induction rule: rtranclp_induct) (auto dest: left_stays)
  then show "listenConnections serialize amContact (Accepted k certs stream) U = Some V \<Longrightarrow> the_node V = the_node U"
    by (auto simp: listenConnections_def split: accept_pc.splits)
qed

text \<open>The first \<^verbatim>\<open>Close\<close> can return: the loop leaves, and nothing else waits for it.\<close>

theorem node_close_returns:
  assumes r: "(node_step serialize)\<^sup>*\<^sup>* (startNode nd) S" and "closing S = [AwaitLoop]"
  shows "\<exists>T. (node_step serialize)\<^sup>*\<^sup>* S T \<and> closing T = [CloseReturned]"
proof -
  have left: "\<exists>T. (node_step serialize)\<^sup>*\<^sup>* S T \<and> closing T = [AwaitLoop] \<and> ch_taken (closeChan T) < length (ch_sent (closeChan T))"
    if "close_inv S" "closing S = [AwaitLoop]" "accept_pc S = Leaving \<or> accept_pc S = Left" for S :: "'a node_loops"
  proof (cases "accept_pc S = Left")
    case True
    then show ?thesis using that by (intro exI [of _ S]) (simp add: close_inv_def returned_def)
  next
    case False
    let ?T = "S\<lparr>closeChan := (closeChan S)\<lparr>ch_sent := ch_sent (closeChan S) @ [()]\<rparr>, accept_pc := Left\<rparr>"
    have "listenConnections serialize False AcceptError S = Some ?T"
      using that False by (auto simp: listenConnections_def chan_send_def close_inv_def returned_def)
    then have "node_step serialize S ?T" by (rule node_step.turn)
    then show ?thesis using that False by (intro exI [of _ ?T]) (auto simp: close_inv_def returned_def)
  qed
  have "\<exists>T. (node_step serialize)\<^sup>*\<^sup>* S T \<and> close_inv T \<and> closing T = [AwaitLoop] \<and> (accept_pc T = Leaving \<or> accept_pc T = Left)"
  proof (cases "accept_pc S")
    case Accepting
    have st: "node_step serialize S (S\<lparr>accept_pc := Leaving\<rparr>)"
      by (rule node_step.turn [of _ False AcceptError]) (simp add: listenConnections_def Accepting inbound_of_def isListenerClosed_def)
    then show ?thesis using close_inv_step [OF st close_inv_reach [OF r]] assms(2)
      by (intro exI [of _ "S\<lparr>accept_pc := Leaving\<rparr>"]) auto
  qed (use close_inv_reach [OF r] assms(2) in auto)
  then obtain T where T: "(node_step serialize)\<^sup>*\<^sup>* S T" "close_inv T" "closing T = [AwaitLoop]" "accept_pc T = Leaving \<or> accept_pc T = Left" by blast
  from left [OF T(2-4)] obtain U where U: "(node_step serialize)\<^sup>*\<^sup>* T U" "closing U = [AwaitLoop]"
    "ch_taken (closeChan U) < length (ch_sent (closeChan U))" by blast
  let ?V = "U\<lparr>closeChan := (closeChan U)\<lparr>ch_taken := Suc (ch_taken (closeChan U))\<rparr>, closing := [CloseReturned]\<rparr>"
  have "node_step serialize U ?V" by (rule node_step.close [of 0]) (simp add: node_Close_def U chan_recv_def)
  with T(1) U(1) have "(node_step serialize)\<^sup>*\<^sup>* S ?V" by (meson rtranclp.rtrancl_into_rtrancl rtranclp_trans)
  then show ?thesis by (intro exI [of _ ?V]) simp
qed

end
