(* ===== verification/Spec2Isabelle.thy ===== *)
theory Spec2Isabelle
  imports BRB_Properties BRB_Channel Overlay_Properties ACS_Run Coin_Agreement BCA_Run MMR_Queue_Run Main_Run
    BCA_PrevCoin BRB_Schedulers MMR_Schedulers_Run Round_Scheduler BRB_Loops ABA_Loops ACS_Loops Overlay_Close
begin

text \<open>
  Correctness of \<^verbatim>\<open>bkr-acs\<close>, an implementation in Go of agreement on a common subset among \<open>n\<close> nodes of
  which at most \<open>f\<close> are Byzantine, \<open>3 f < n\<close>.

  \<^bold>\<open>The program.\<close>  Every node runs a stack of components.  The overlay network (\<^verbatim>\<open>overlayNetwork/\<close>) keeps
  authenticated connections to the peers and offers best-effort broadcast under one-byte listening
  codes, and a secret-sharing channel that carries the dealer's shares.  Byzantine reliable broadcast
  (\<^verbatim>\<open>byzantineReliableBroadcast/\<close>) carries proposals.  The coin tosser (\<^verbatim>\<open>coinTosser/\<close>) turns shares of a
  dealt secret into a common coin.  Binary agreement (\<^verbatim>\<open>asynchronousBinaryAgreement/\<close>) runs rounds of
  binding crusader agreement with that coin, and a gadget that spreads decisions.  Agreement on a
  common subset (\<^verbatim>\<open>agreementCommonSubset/\<close>) runs one binary agreement per participant to decide whose
  proposals are accepted; \<^verbatim>\<open>main.go\<close> connects the parts and computes the list of participants.

  \<^bold>\<open>Conventions.\<close>  \<open>Prelude\<close> and \<open>Utils\<close> hold what all components use.  Go's integers keep their width;
  a call returns the state it leaves and an \<open>outcome\<close>: a nil error, an error, a panic, or a wait that
  never ends.  A buffered channel is a record of what was sent and how much was taken.  A goroutine is
  an entry of a list of pending calls or a program counter, so every interleaving is a sequence of
  steps; a mutex or a command queue makes an operation one step.  An object shared by reference lives
  in a list that serves as the heap, and maps hold positions in it.  SHA-256 is computed
  (\<open>Utils\<close>).  Code outside the repository is an argument: the encoding of public keys
  (\<open>serialize\<close>), dialling (\<open>dial\<close>), the group, scalars and equality proofs of \<^verbatim>\<open>circl\<close> (the record
  \<open>circl\<close>), random values, and the printed form of identifiers.  What is assumed of it is a named
  predicate (\<open>circl_codec\<close>, \<open>circl_field\<close>, \<open>dleq_sound\<close>, \<open>dleq_complete\<close>, \<open>uuid_text\<close>), and every theorem
  that uses one has a concrete instance.

  \<^bold>\<open>Overlay network.\<close>  \<open>Overlay_Network\<close> is \<^verbatim>\<open>msg.go\<close>, \<^verbatim>\<open>peer.go\<close>, \<^verbatim>\<open>node.go\<close> and \<^verbatim>\<open>bebChannel.go\<close>: the record
  \<open>node\<close> is \<^verbatim>\<open>Node\<close>, its operations have the names of the code.  \<open>Overlay_Properties\<close> shows that frames are
  read back in order, that a broadcast reaches every peer and the node itself, that a message is
  dispatched to the channels of its code, and which messages crash a node.

  \<^bold>\<open>Reliable broadcast.\<close>  \<open>BRB_Instance\<close> is the handler of \<^verbatim>\<open>instance.go\<close> with its three phases
  (\<^verbatim>\<open>phase1.go\<close>, \<^verbatim>\<open>phase2.go\<close>, \<^verbatim>\<open>phase3.go\<close>); \<open>BRB_Node\<close> its invariant; \<open>BRB_Protocol\<close> and \<open>BRB_Properties\<close>
  the network of handlers with agreement, integrity, no duplication, totality, validity and the
  absence of panics.  \<open>BRB_Middleware\<close> is \<^verbatim>\<open>middleware.go\<close> with the round trip of its formats, and
  \<open>BRB_Channel\<close> is \<^verbatim>\<open>channel.go\<close> and \<^verbatim>\<open>byzChannel.go\<close> with the refinement: for each identifier the channel
  behaves like one instance.

  \<^bold>\<open>Binary agreement.\<close>  \<open>BCA_Spec\<close> is the abstract specification of one round, as the locale \<open>bca_impl\<close>;
  \<open>BCA_Internal\<close> with \<open>BCA_Invariant\<close> (\<^verbatim>\<open>internalValidityBCA.go\<close>) and \<open>BCA_External\<close> (\<^verbatim>\<open>externalValidityBCA.go\<close>)
  implement it, and \<open>MMR_Round\<close> (\<^verbatim>\<open>round.go\<close>) puts them behind one interface.  \<open>MMR_Termination\<close> and \<open>MMR\<close>
  are \<^verbatim>\<open>mmrTermination.go\<close>, \<^verbatim>\<open>mmr.go\<close> and the queue of \<^verbatim>\<open>concurrentMMR.go\<close>.  \<open>MMR_Node\<close>, \<open>MMR_Network\<close>,
  \<open>MMR_Steps\<close> and \<open>MMR_Properties\<close> hold the invariant of a network of nodes and its consequences:
  agreement, validity, integrity, crusader agreement in every round and binding in the first.
  \<open>ABA_Middleware\<close> and \<open>ABA_Channel\<close> are the middlewares, the networked instance and the channel;
  \<open>ABA_System\<close> shows that a system of channels over bytes refines the network, so the outputs agree.
  \<open>MMR_Run\<close> and \<open>ABA_Run\<close> are complete runs.  \<open>MMR_Growth\<close>, \<open>MMR_Queue\<close> and \<open>MMR_Coin\<close> are \<^verbatim>\<open>concurrentMMR.go\<close> in full:
  the calls that wait for the invoker, the listener and \<^verbatim>\<open>close\<close>.  A network of such queues refines the
  network of \<open>MMR_Network\<close>, and the invoker does not wait in vain for a coin that was asked for;
  \<open>MMR_Queue_Run\<close> evaluates them.

  \<^bold>\<open>The end of the first round.\<close>  \<open>BCA_Network\<close> runs the first round's agreement at all correct nodes and
  shows what every node has passed on; \<open>BCA_Liveness\<close> shows that in a settled state all correct nodes
  have decided, unless one decided without binding a value; \<open>BCA_Progress\<close> bounds the steps, so every
  run settles; \<open>BCA_Run\<close> has a run in which all decide and one in which the exception occurs and the
  others wait for ever.

  \<^bold>\<open>The end of the agreement.\<close>  \<open>Round_Progress\<close> is the contract \<open>bca_progress\<close>: a round acts on everything it has
  counted.  \<open>MMR_Liveness\<close> adds that a node hands over what its rounds broadcast, asks for coins and acts
  on them.  So in a settled network proposals that agree are decided as soon as the coin shows the same
  value, and the termination gadget has spread a decision of \<open>f + 1\<close> correct nodes to all.  \<open>MMR_Stall\<close> has
  runs of three correct nodes and a Byzantine one: one that decides in its second round, and two that
  settle undecided, because a decided node stays out of the next round, or because nodes in a later
  round fast-forward a coin that another node never approves.  \<open>BCA_PrevCoin\<close> is \<^verbatim>\<open>waitForPrevCoin\<close>, the goroutine
  that would approve it and that the code never starts: run at one node, it lets the stalled round end.

  \<^bold>\<open>Coin tosser.\<close>  \<open>Coin_Lagrange\<close> is interpolation at zero; \<open>Coin_Shares\<close> is \<^verbatim>\<open>arithmetic.go\<close>, \<^verbatim>\<open>pointShare.go\<close>,
  \<^verbatim>\<open>ctShare.go\<close> and \<^verbatim>\<open>ss.go\<close>; \<open>Coin_Deal\<close> is \<^verbatim>\<open>dealer.go\<close> and \<^verbatim>\<open>ssChannel.go\<close>; \<open>Coin_Toss\<close> is \<^verbatim>\<open>instance.go\<close>;
  \<open>Coin_Channel\<close> is \<^verbatim>\<open>middleware.go\<close> and \<^verbatim>\<open>channel.go\<close>.  \<open>Coin_Properties\<close> shows that the coin is a function of
  the secret and the seed, that enough shares give it, that shares may come before the toss, and how
  repeated senders and repeated shares break it.  \<open>Coin_Run\<close> is a deal over a field of five elements.
  \<open>Coin_Agreement\<close> connects the coin tosser to binary agreement through the locale \<open>coin_service\<close>.

  \<^bold>\<open>Common subset.\<close>  \<open>ACS_Acceptor\<close>, \<open>ACS_BKR\<close> and \<open>ACS_Channel\<close> are \<^verbatim>\<open>proposalAcceptor.go\<close>, \<^verbatim>\<open>bkr.go\<close> and
  \<^verbatim>\<open>bkrChannel.go\<close>; \<open>ACS_System\<close> runs them over \<open>ABA_System\<close> and the integrity of reliable broadcast;
  \<open>ACS_Properties\<close> shows the size of outputs, agreement on the accepted participants and on the values,
  validity, and one output per instance.  \<open>ACS_Run\<close> is a complete run.  \<open>Participants\<close> is the list of
  participants of \<^verbatim>\<open>main.go\<close>, equal at all nodes.  \<open>Main_Program\<close> is the rest of \<^verbatim>\<open>main.go\<close>: the creation of the
  channels, the setup of a node and the loop of proposals; \<open>Main_Run\<close> sets up a contact node.

  \<^bold>\<open>Test schedulers.\<close>  \<open>Scheduler_Queue\<close> is the shuffled queue of operations; \<open>BRB_Schedulers\<close>,
  \<open>MMR_Schedulers\<close> and \<open>Round_Scheduler\<close> are \<^verbatim>\<open>schedulers.go\<close>, \<^verbatim>\<open>mmrScheduller.go\<close> and \<^verbatim>\<open>roundSchedullers.go\<close>.  What
  they drive refines the networks of the theorems above, so their assertions hold; the
  unordered scheduler of binary agreement passes a decision on only as far as the test reads decisions.  \<open>MMR_Schedulers_Run\<close> evaluates them.

  \<^bold>\<open>Loops and closing.\<close>  \<open>Command_Loop\<close> is what the channels share: a listener that turns what arrives into
  commands, an invoker that runs one command at a time, callers that wait to hand over theirs, and the
  signals of \<^verbatim>\<open>Close\<close>.  \<open>BRB_Loops\<close> has the loops of \<^verbatim>\<open>byzantineReliableBroadcast/channel.go\<close>, \<^verbatim>\<open>instance.go\<close> and
  \<^verbatim>\<open>byzChannel.go\<close>, \<open>ABA_Loops\<close> those of \<^verbatim>\<open>abaChannel.go\<close>, of the middlewares and of \<^verbatim>\<open>mmrTermination.go\<close>, \<open>ACS_Loops\<close>
  those of \<^verbatim>\<open>bkrChannel.go\<close>.  The channels behind their loops reach exactly the states of the atomic channels,
  so the theorems about these hold of the loops; \<^verbatim>\<open>Close\<close> can leave a listener waiting for ever.
  \<open>Overlay_Close\<close> is the accept loop of \<^verbatim>\<open>node.go\<close> and \<^verbatim>\<open>Node.Close\<close>: when it returns, and that it does so once.

  \<^bold>\<open>Interfaces.\<close>  \<open>byz_thresholds\<close> (thresholds and faults) is interpreted in \<open>Fault_Model\<close>; \<open>wire_format\<close>
  (marshalling and its inverse) in \<open>BRB_Middleware\<close>, \<open>ABA_Middleware\<close> and \<open>ACS_Channel\<close>; \<open>bca_impl\<close> for both
  crusader agreements and for their union in \<open>MMR_Round\<close>; its extension \<open>bca_progress\<close> (a round does not
  forget to act) for the same three in \<open>Round_Progress\<close>; \<open>aba_service\<close> (what its clients need of
  binary agreement) in \<open>MMR_Properties\<close>, used by \<open>ABA_System\<close>, \<open>ACS_Properties\<close> and \<open>Coin_Agreement\<close>;
  \<open>coin_service\<close> in \<open>Coin_Agreement\<close>; \<open>command_loop\<close> (commands that run one at a time over a state) twice in
  \<open>BRB_Loops\<close> and twice in \<open>ABA_Loops\<close>; \<open>op_queue\<close> (a queue that neither loses nor repeats operations) in
  \<open>BRB_Schedulers\<close> and \<open>MMR_Schedulers\<close>.

  \<^bold>\<open>Bounds and fuel.\<close>  Reading frames ends because every frame consumes bytes.  \<open>execRoundN\<close> runs the
  goroutine \<^verbatim>\<open>execRound\<close> inside \<^verbatim>\<open>submitCoin\<close> for at most four steps, which is all it has from its start
  to its end.  Counters are words: each counts distinct participants, and \<open>n\<close> is a word itself, so they
  do not wrap; the round number wraps at \<open>2 ^ 16\<close>, as in the code.  The threshold of the coin is below
  \<open>2 ^ 63 - 1\<close>.

  \<^bold>\<open>Idealisations.\<close>  Messages of a correct sender are not forged (TLS); reliable broadcast compares
  truncated digests, so its theorems assume that the handled messages do not collide; proofs of
  equality are perfectly sound.  The networks over-approximate: messages may be repeated, reordered and
  lost, and Byzantine nodes send anything, so every theorem about safety holds of every run.  The coin
  in \<open>ABA_System\<close> is a function of the seed, as \<open>Coin_Agreement\<close> shows for tosses whose shares have
  different identifiers.

  \<^bold>\<open>Not modelled.\<close>  Logging (\<^verbatim>\<open>utils/prefixedHandler.go\<close>); keys and certificates (\<^verbatim>\<open>networkUtils.go\<close>), which
  only call the standard library; functions that only tests or nothing calls (\<^verbatim>\<open>genId\<close>, \<^verbatim>\<open>shareSecret\<close>, the
  \<^verbatim>\<open>close\<close> of the middlewares of binary agreement, \<^verbatim>\<open>broadcastVote\<close> and \<^verbatim>\<open>broadcastBind\<close> of \<^verbatim>\<open>evbca\<close>); and of
  \<^verbatim>\<open>main.go\<close> the flags and the reading of the properties file, whose values are the record \<open>props\<close>.  Of liveness, the theorems about
  settled networks say what has happened once messages have arrived and goroutines have run; that the
  coin eventually shows a given value holds with probability one only and is an assumption, and as the
  code can settle undecided when proposals differ, no more is stated for binary agreement in general
  nor for the common subset.
\<close>

end
